(* ===== verification/Prelude.thy ===== *)
theory Prelude
  imports Main "HOL-Library.Word" "HOL-Library.Monad_Syntax"
begin

unbundle bit_operations_syntax

text \<open>
  Shared vocabulary of the development: the machine types of the 32-bit ARM target the board
  is built for, C arrays as lists with checked reads and writes (\<^verbatim>\<open>None\<close> is an access outside
  the object, undefined in C), and the generic lemmas on lists, options and words that the
  component theories use.
\<close>

type_synonym u8 = "8 word"
type_synonym u16 = "16 word"
type_synonym u32 = "32 word"
type_synonym u64 = "64 word"

named_theorems buf_simps \<open>rewrite rules for checked array accesses\<close>
named_theorems xor_linear \<open>maps that distribute over exclusive or\<close>

section \<open>Arrays with checked accesses\<close>

definition rd :: "'a list \<Rightarrow> nat \<Rightarrow> 'a option" where
  "rd b i = (if i < length b then Some (b ! i) else None)"

definition wr :: "'a list \<Rightarrow> nat \<Rightarrow> 'a \<Rightarrow> 'a list option" where
  "wr b i v = (if i < length b then Some (b[i := v]) else None)"

lemma rd_eq_Some [buf_simps]: "rd b i = Some v \<longleftrightarrow> i < length b \<and> b ! i = v"
  by (simp add: rd_def)

lemma rd_eq_None [buf_simps]: "rd b i = None \<longleftrightarrow> length b \<le> i"
  by (simp add: rd_def)

lemma wr_eq_Some [buf_simps]: "wr b i v = Some b' \<longleftrightarrow> i < length b \<and> b' = b[i := v]"
  by (auto simp: wr_def)

lemma wr_eq_None [buf_simps]: "wr b i v = None \<longleftrightarrow> length b \<le> i"
  by (simp add: wr_def)

lemma rd_in [simp]: "i < length b \<Longrightarrow> rd b i = Some (b ! i)"
  by (simp add: rd_def)

lemma wr_in [simp]: "i < length b \<Longrightarrow> wr b i v = Some (b[i := v])"
  by (simp add: wr_def)

lemma rd_append [buf_simps]:
  "rd (xs @ ys) i = (if i < length xs then Some (xs ! i) else rd ys (i - length xs))"
  by (auto simp: rd_def nth_append)

lemma wr_length: "wr b i v = Some b' \<Longrightarrow> length b' = length b"
  by (auto simp: wr_def split: if_splits)

text \<open>The loop \<^verbatim>\<open>for (; i < n; i++) if (P(b[i])) break;\<close>, which returns \<^verbatim>\<open>i\<close>.\<close>

function scan_first :: "('a \<Rightarrow> bool) \<Rightarrow> nat \<Rightarrow> 'a list \<Rightarrow> nat \<Rightarrow> nat option" where
  "scan_first P n b i =
     (if i < n
      then (case rd b i of
              None \<Rightarrow> None
            | Some v \<Rightarrow> if P v then Some i else scan_first P n b (i + 1))
      else Some i)"
  by pat_completeness auto
termination
  by (relation "measure (\<lambda>(P, n, b, i). n - i)") auto

declare scan_first.simps [simp del]

lemma scan_first_hit:
  "scan_first P n b i = Some j \<Longrightarrow> i \<le> n \<Longrightarrow>
     i \<le> j \<and> j \<le> n \<and> (\<forall>k. i \<le> k \<and> k < j \<longrightarrow> \<not> P (b ! k)) \<and> (j < n \<longrightarrow> j < length b \<and> P (b ! j))"
proof (induction P n b i rule: scan_first.induct)
  case (1 P n b i)
  show ?case
  proof (cases "i < n \<and> i < length b \<and> \<not> P (b ! i)")
    case True
    then have "scan_first P n b (i + 1) = Some j"
      using "1.prems"(1) by (subst (asm) scan_first.simps) simp
    moreover have "(\<forall>k. i \<le> k \<and> k < j \<longrightarrow> \<not> P (b ! k))"
      if "\<forall>k. i + 1 \<le> k \<and> k < j \<longrightarrow> \<not> P (b ! k)"
      using that True by (metis Suc_eq_plus1 le_antisym not_less_eq_eq)
    ultimately show ?thesis
      using "1.IH" [of "b ! i"] True by auto
  next
    case False
    then show ?thesis
      using "1.prems" by (subst (asm) scan_first.simps) (auto simp: rd_def split: if_splits)
  qed
qed

lemma scan_first_total: "n \<le> length b \<Longrightarrow> \<exists>j. scan_first P n b i = Some j"
proof (induction P n b i rule: scan_first.induct)
  case (1 P n b i)
  then show ?case by (subst scan_first.simps) auto
qed

section \<open>Lists\<close>

lemma take_drop_nth: "i < length xs \<Longrightarrow> drop i xs = xs ! i # drop (Suc i) xs"
  by (rule Cons_nth_drop_Suc [symmetric])

lemma list_update_split:
  "i < length xs \<Longrightarrow> xs[i := v] = take i xs @ v # drop (Suc i) xs"
  by (rule upd_conv_take_nth_drop)

lemma foldl_snoc_append: "foldl f (foldl f s xs) ys = foldl f s (xs @ ys)"
  by simp

section \<open>Words\<close>

lemma xor_cancel_left [simp]: "(a :: 'a::len word) XOR (a XOR b) = b"
  by (simp flip: xor.assoc)

lemma xor_cancel_mid [simp]: "((a :: 'a::len word) XOR b) XOR a = b"
  by (metis xor.commute xor_cancel_left)

lemma xor_eq_zero: "(a :: 'a::len word) XOR b = 0 \<longleftrightarrow> a = b"
  by (metis xor.right_neutral xor_cancel_left xor_self_eq)

lemma xor_left_inj: "(a :: 'a::len word) XOR b = a XOR c \<longleftrightarrow> b = c"
  by (metis xor_cancel_left)

lemma drop_bit_xor_word [xor_linear]:
  "drop_bit n ((a :: 'a::len word) XOR b) = drop_bit n a XOR drop_bit n b"
  by (rule bit_word_eqI) (simp add: bit_simps)

lemma push_bit_xor_word [xor_linear]:
  "push_bit n ((a :: 'a::len word) XOR b) = push_bit n a XOR push_bit n b"
  by (rule bit_word_eqI) (auto simp add: bit_simps)

lemma and_xor_word [xor_linear]:
  "((a :: 'a::len word) XOR b) AND m = (a AND m) XOR (b AND m)"
  by (rule bit_word_eqI) (auto simp add: bit_simps)

lemma ucast_xor_word [xor_linear]:
  "(ucast ((a :: 'a::len word) XOR b) :: 'b::len word) = ucast a XOR ucast b"
  by (rule bit_word_eqI) (auto simp add: bit_simps)

lemma word_and_1_neq_0: "((c :: 'a::len word) AND 1 \<noteq> 0) = bit c 0"
  by (simp add: and_one_eq odd_iff_mod_2_eq_one bit_0 flip: odd_iff_mod_2_eq_one)

lemma bit_high_u8 [simp]: "8 \<le> n \<Longrightarrow> \<not> bit (w :: u8) n"
  by (auto dest: bit_imp_le_length)

lemma bit_high_u16 [simp]: "16 \<le> n \<Longrightarrow> \<not> bit (w :: u16) n"
  by (auto dest: bit_imp_le_length)

lemma bit_high_u32 [simp]: "32 \<le> n \<Longrightarrow> \<not> bit (w :: u32) n"
  by (auto dest: bit_imp_le_length)

lemma unat_u8_less [simp]: "unat (w :: u8) < 256"
  by (rule order_less_le_trans [OF unsigned_less]) simp

lemma unat_u16_less [simp]: "unat (w :: u16) < 65536"
  by (rule order_less_le_trans [OF unsigned_less]) simp

lemma unat_u32_less [simp]: "unat (w :: u32) < 4294967296"
  by (rule order_less_le_trans [OF unsigned_less]) simp

lemma unat_ucast_u8_u32 [simp]: "unat (ucast (w :: u8) :: u32) = unat w"
  by (simp add: unsigned_ucast_eq take_bit_nat_eq_self less_trans [OF unat_u8_less])

lemma unat_ucast_u16_u32 [simp]: "unat (ucast (w :: u16) :: u32) = unat w"
  by (simp add: unsigned_ucast_eq take_bit_nat_eq_self less_trans [OF unat_u16_less])

lemma unat_ucast_u8_u16 [simp]: "unat (ucast (w :: u8) :: u16) = unat w"
  by (simp add: unsigned_ucast_eq take_bit_nat_eq_self less_trans [OF unat_u8_less])

lemma unat_of_nat_u8 [simp]: "n < 256 \<Longrightarrow> unat (of_nat n :: u8) = n"
  by (simp add: unat_of_nat)

lemma unat_of_nat_u16 [simp]: "n < 65536 \<Longrightarrow> unat (of_nat n :: u16) = n"
  by (simp add: unat_of_nat)

lemma unat_of_nat_u32 [simp]: "n < 4294967296 \<Longrightarrow> unat (of_nat n :: u32) = n"
  by (simp add: unat_of_nat)

lemma unat_and_le: "unat ((x :: 'a::len word) AND m) \<le> unat m"
  by (rule word_and_le1 [THEN word_le_nat_alt [THEN iffD1]])

lemma word_of_nat_high_bit:
  assumes "k < LENGTH('a::len)" and "i < 2 ^ k"
  shows "(of_nat (2 ^ k + i) :: 'a word) = 2 ^ k XOR of_nat i"
proof -
  have "\<not> bit i k"
    using assms(2) by (simp add: bit_iff_odd)
  then have "(2 ^ k :: 'a word) AND of_nat i = 0"
    by (auto intro!: bit_word_eqI simp: bit_simps bit_exp_iff)
  then show ?thesis
    by (simp add: disjunctive_add_eq_xor)
qed

section \<open>Tables of maps that are linear over exclusive or\<close>

text \<open>
  A table of such a map over \<open>[0..<2 ^ k]\<close> is built by doubling: the upper half is the lower
  half with the entry of the new bit added.  This turns a table check into one exclusive or per
  entry.
\<close>

definition dbl :: "('b::len) word list \<Rightarrow> 'b word \<Rightarrow> 'b word list" where
  "dbl xs v = xs @ map ((XOR) v) xs"

lemma linear_table_dbl:
  fixes f :: "'a::len word \<Rightarrow> 'b::len word"
  assumes lin: "\<And>a b. f (a XOR b) = f a XOR f b" and k: "k < LENGTH('a)"
  shows "map (\<lambda>n. f (of_nat n)) [0..<2 ^ Suc k]
       = dbl (map (\<lambda>n. f (of_nat n)) [0..<2 ^ k]) (f (2 ^ k))"
proof -
  have split: "[0..<2 ^ Suc k] = [0..<2 ^ k] @ map (\<lambda>i. 2 ^ k + i) [0..<2 ^ k]"
    by (simp add: mult_2 upt_add_eq_append[of 0 "2 ^ k" "2 ^ k", simplified] map_add_upt
        add.commute)
  show ?thesis
    unfolding split using k
    by (auto simp: dbl_def word_of_nat_high_bit lin simp del: of_nat_add)
qed

lemma linear_table_256:
  fixes f :: "'a::len word \<Rightarrow> 'b::len word"
  assumes lin: "\<And>a b. f (a XOR b) = f a XOR f b" and len: "8 \<le> LENGTH('a)"
  shows "map (\<lambda>n. f (of_nat n)) [0..<256]
       = dbl (dbl (dbl (dbl (dbl (dbl (dbl (dbl [0] (f 1)) (f 2)) (f 4)) (f 8)) (f 16)) (f 32))
          (f 64)) (f 128)"
proof -
  have f0: "f 0 = 0" using lin [of 0 0] by simp
  have *: "map (\<lambda>n. f (of_nat n)) [0..<2 ^ Suc k]
       = dbl (map (\<lambda>n. f (of_nat n)) [0..<2 ^ k]) (f (2 ^ k))" if "k < 8" for k
    using that len by (intro linear_table_dbl lin) simp
  show ?thesis
    using *[of 7] *[of 6] *[of 5] *[of 4] *[of 3] *[of 2] *[of 1] *[of 0]
    by (simp add: f0)
qed

section \<open>Words bit by bit\<close>

lemmas bit_eval = bit_and_iff bit_or_iff bit_xor_iff bit_not_iff_eq bit_push_bit_iff
  bit_drop_bit_eq o_apply

lemma u8_eqI:
  assumes "bit a 0 = bit b 0" "bit a 1 = bit b 1" "bit a 2 = bit b 2" "bit a 3 = bit b 3"
    "bit a 4 = bit b 4" "bit a 5 = bit b 5" "bit a 6 = bit b 6" "bit a 7 = bit b 7"
  shows "a = (b :: u8)"
proof (rule bit_word_eqI)
  fix n assume "n < LENGTH(8)"
  then have "n = 0 \<or> n = 1 \<or> n = 2 \<or> n = 3 \<or> n = 4 \<or> n = 5 \<or> n = 6 \<or> n = 7" by auto
  then show "bit a n = bit b n" using assms by (elim disjE) simp_all
qed

section \<open>C strings in arrays\<close>

text \<open>A string literal as bytes, without the terminating 0.\<close>

definition ascii :: "string \<Rightarrow> u8 list" where
  "ascii s = map of_char s"

text \<open>The index of the first 0 at or after \<open>i\<close>; \<^verbatim>\<open>None\<close> when the search leaves the array.\<close>

function str_end :: "u8 list \<Rightarrow> nat \<Rightarrow> nat option" where
  "str_end b i =
     (case rd b i of None \<Rightarrow> None | Some c \<Rightarrow> if c = 0 then Some i else str_end b (i + 1))"
  by pat_completeness auto
termination
  by (relation "measure (\<lambda>(b, i). length b - i)") (auto simp: buf_simps)

declare str_end.simps [simp del]

definition str_at :: "u8 list \<Rightarrow> nat \<Rightarrow> u8 list option" where
  "str_at b i = map_option (\<lambda>j. take (j - i) (drop i b)) (str_end b i)"

text \<open>Bytes written one after the other from index \<open>i\<close> on.\<close>

definition put_at :: "'a list \<Rightarrow> nat \<Rightarrow> 'a list \<Rightarrow> 'a list option" where
  "put_at b i xs = (if i + length xs \<le> length b then Some (take i b @ xs @ drop (i + length xs) b) else None)"

lemma put_at_length: "put_at b i xs = Some b' \<Longrightarrow> length b' = length b"
  by (auto simp: put_at_def split: if_splits)

lemma put_at_append:
  "length mid = length xs \<Longrightarrow> put_at (pre @ mid @ post) (length pre) xs = Some (pre @ xs @ post)"
  by (simp add: put_at_def)

lemma wr_append: "wr (pre @ x # post) (length pre) v = Some (pre @ v # post)"
  by (simp add: wr_def)

lemma rd_at [simp]: "rd (pre @ x # post) (length pre) = Some x"
  by (simp add: rd_def)

lemma rd_off: "rd (pre @ suf) (length pre + k) = rd suf k"
  by (simp add: rd_def nth_append)

lemma str_end_off:
  "str_end (pre @ suf) (length pre + k) = map_option ((+) (length pre)) (str_end suf k)"
proof (induction suf k rule: str_end.induct)
  case (1 suf k)
  then show ?case
    by (subst (1 2) str_end.simps) (auto simp: rd_off add.assoc split: option.splits)
qed

lemma str_end_string: "0 \<notin> set s \<Longrightarrow> str_end (s @ 0 # suf) 0 = Some (length s)"
proof (induction s)
  case Nil
  then show ?case by (simp add: str_end.simps rd_def)
next
  case (Cons c s)
  have "str_end (c # s @ 0 # suf) 1 = map_option ((+) 1) (str_end (s @ 0 # suf) 0)"
    using str_end_off [of "[c]" "s @ 0 # suf" 0] by simp
  with Cons show ?case by (subst str_end.simps) (simp add: rd_def)
qed

lemma str_end_at:
  "0 \<notin> set s \<Longrightarrow> str_end (pre @ s @ 0 # suf) (length pre) = Some (length pre + length s)"
  using str_end_off [of pre "s @ 0 # suf" 0] by (simp add: str_end_string)

lemma str_at_eq: "0 \<notin> set s \<Longrightarrow> str_at (pre @ s @ 0 # suf) (length pre) = Some s"
  by (simp add: str_at_def str_end_at)

lemma str_end_bounds: "str_end b i = Some j \<Longrightarrow> i \<le> j \<and> j < length b \<and> b ! j = 0"
proof (induction b i rule: str_end.induct)
  case (1 b i)
  then show ?case
    by (subst (asm) (2) str_end.simps) (auto simp: buf_simps split: option.splits if_splits dest: Suc_leD)
qed

end
