(* ===== verification/Crc.thy ===== *)
theory Crc
  imports Prelude
begin

text \<open>
  Checksums of \<^verbatim>\<open>lib_generic/crc32.c\<close> and \<^verbatim>\<open>lib_generic/crc16.c\<close>: the static tables, the
  unrolled table-driven loops, the table generator of the \<^verbatim>\<open>DYNAMIC_CRC_TABLE\<close> variant and
  the watchdog variant that feeds the data in chunks.  A buffer and its length are the list of
  the bytes the loop reads.  The lemmas show that the table is the one the generator computes,
  that the unrolled loop is the byte-wise fold, that a checksum can be resumed at any cut, and
  that any change confined to four consecutive bytes changes the checksum.
\<close>

section \<open>CRC-32\<close>

subsection \<open>The static table\<close>

definition crc_table :: "u32 list" where
  "crc_table = [
    0x00000000, 0x77073096, 0xee0e612c, 0x990951ba, 0x076dc419, 0x706af48f,
    0xe963a535, 0x9e6495a3, 0x0edb8832, 0x79dcb8a4, 0xe0d5e91e, 0x97d2d988,
    0x09b64c2b, 0x7eb17cbd, 0xe7b82d07, 0x90bf1d91, 0x1db71064, 0x6ab020f2,
    0xf3b97148, 0x84be41de, 0x1adad47d, 0x6ddde4eb, 0xf4d4b551, 0x83d385c7,
    0x136c9856, 0x646ba8c0, 0xfd62f97a, 0x8a65c9ec, 0x14015c4f, 0x63066cd9,
    0xfa0f3d63, 0x8d080df5, 0x3b6e20c8, 0x4c69105e, 0xd56041e4, 0xa2677172,
    0x3c03e4d1, 0x4b04d447, 0xd20d85fd, 0xa50ab56b, 0x35b5a8fa, 0x42b2986c,
    0xdbbbc9d6, 0xacbcf940, 0x32d86ce3, 0x45df5c75, 0xdcd60dcf, 0xabd13d59,
    0x26d930ac, 0x51de003a, 0xc8d75180, 0xbfd06116, 0x21b4f4b5, 0x56b3c423,
    0xcfba9599, 0xb8bda50f, 0x2802b89e, 0x5f058808, 0xc60cd9b2, 0xb10be924,
    0x2f6f7c87, 0x58684c11, 0xc1611dab, 0xb6662d3d, 0x76dc4190, 0x01db7106,
    0x98d220bc, 0xefd5102a, 0x71b18589, 0x06b6b51f, 0x9fbfe4a5, 0xe8b8d433,
    0x7807c9a2, 0x0f00f934, 0x9609a88e, 0xe10e9818, 0x7f6a0dbb, 0x086d3d2d,
    0x91646c97, 0xe6635c01, 0x6b6b51f4, 0x1c6c6162, 0x856530d8, 0xf262004e,
    0x6c0695ed, 0x1b01a57b, 0x8208f4c1, 0xf50fc457, 0x65b0d9c6, 0x12b7e950,
    0x8bbeb8ea, 0xfcb9887c, 0x62dd1ddf, 0x15da2d49, 0x8cd37cf3, 0xfbd44c65,
    0x4db26158, 0x3ab551ce, 0xa3bc0074, 0xd4bb30e2, 0x4adfa541, 0x3dd895d7,
    0xa4d1c46d, 0xd3d6f4fb, 0x4369e96a, 0x346ed9fc, 0xad678846, 0xda60b8d0,
    0x44042d73, 0x33031de5, 0xaa0a4c5f, 0xdd0d7cc9, 0x5005713c, 0x270241aa,
    0xbe0b1010, 0xc90c2086, 0x5768b525, 0x206f85b3, 0xb966d409, 0xce61e49f,
    0x5edef90e, 0x29d9c998, 0xb0d09822, 0xc7d7a8b4, 0x59b33d17, 0x2eb40d81,
    0xb7bd5c3b, 0xc0ba6cad, 0xedb88320, 0x9abfb3b6, 0x03b6e20c, 0x74b1d29a,
    0xead54739, 0x9dd277af, 0x04db2615, 0x73dc1683, 0xe3630b12, 0x94643b84,
    0x0d6d6a3e, 0x7a6a5aa8, 0xe40ecf0b, 0x9309ff9d, 0x0a00ae27, 0x7d079eb1,
    0xf00f9344, 0x8708a3d2, 0x1e01f268, 0x6906c2fe, 0xf762575d, 0x806567cb,
    0x196c3671, 0x6e6b06e7, 0xfed41b76, 0x89d32be0, 0x10da7a5a, 0x67dd4acc,
    0xf9b9df6f, 0x8ebeeff9, 0x17b7be43, 0x60b08ed5, 0xd6d6a3e8, 0xa1d1937e,
    0x38d8c2c4, 0x4fdff252, 0xd1bb67f1, 0xa6bc5767, 0x3fb506dd, 0x48b2364b,
    0xd80d2bda, 0xaf0a1b4c, 0x36034af6, 0x41047a60, 0xdf60efc3, 0xa867df55,
    0x316e8eef, 0x4669be79, 0xcb61b38c, 0xbc66831a, 0x256fd2a0, 0x5268e236,
    0xcc0c7795, 0xbb0b4703, 0x220216b9, 0x5505262f, 0xc5ba3bbe, 0xb2bd0b28,
    0x2bb45a92, 0x5cb36a04, 0xc2d7ffa7, 0xb5d0cf31, 0x2cd99e8b, 0x5bdeae1d,
    0x9b64c2b0, 0xec63f226, 0x756aa39c, 0x026d930a, 0x9c0906a9, 0xeb0e363f,
    0x72076785, 0x05005713, 0x95bf4a82, 0xe2b87a14, 0x7bb12bae, 0x0cb61b38,
    0x92d28e9b, 0xe5d5be0d, 0x7cdcefb7, 0x0bdbdf21, 0x86d3d2d4, 0xf1d4e242,
    0x68ddb3f8, 0x1fda836e, 0x81be16cd, 0xf6b9265b, 0x6fb077e1, 0x18b74777,
    0x88085ae6, 0xff0f6a70, 0x66063bca, 0x11010b5c, 0x8f659eff, 0xf862ae69,
    0x616bffd3, 0x166ccf45, 0xa00ae278, 0xd70dd2ee, 0x4e048354, 0x3903b3c2,
    0xa7672661, 0xd06016f7, 0x4969474d, 0x3e6e77db, 0xaed16a4a, 0xd9d65adc,
    0x40df0b66, 0x37d83bf0, 0xa9bcae53, 0xdebb9ec5, 0x47b2cf7f, 0x30b5ffe9,
    0xbdbdf21c, 0xcabac28a, 0x53b39330, 0x24b4a3a6, 0xbad03605, 0xcdd70693,
    0x54de5729, 0x23d967bf, 0xb3667a2e, 0xc4614ab8, 0x5d681b02, 0x2a6f2b94,
    0xb40bbe37, 0xc30c8ea1, 0x5a05df1b, 0x2d02ef8d]"

subsection \<open>The table generator (DYNAMIC\_CRC\_TABLE)\<close>

definition crc_poly_terms :: "nat list" where
  "crc_poly_terms = [0, 1, 2, 4, 5, 7, 8, 10, 11, 12, 16, 22, 23, 26]"

definition crc_poly :: u32 where
  "crc_poly = foldl (\<lambda>poly p. poly OR push_bit (31 - p) 1) 0 crc_poly_terms"

definition crc_bit_step :: "u32 \<Rightarrow> u32" where
  "crc_bit_step c = (if c AND 1 \<noteq> 0 then crc_poly XOR drop_bit 1 c else drop_bit 1 c)"

definition make_crc_entry :: "u32 \<Rightarrow> u32" where
  "make_crc_entry n = (crc_bit_step ^^ 8) n"

definition make_crc_table :: "u32 list" where
  "make_crc_table = map (\<lambda>n. make_crc_entry (of_nat n)) [0..<256]"

subsection \<open>The unrolled loop\<close>

text \<open>
  The state of the loop is the register and what is left of the buffer.  \<^verbatim>\<open>DO1\<close> takes one byte;
  its second equation is never reached, the loops check the length first.
\<close>

fun DO1 :: "u32 \<times> u8 list \<Rightarrow> u32 \<times> u8 list" where
  "DO1 (crc, b # buf) = (crc_table ! unat ((crc XOR ucast b) AND 0xff) XOR drop_bit 8 crc, buf)"
| "DO1 (crc, []) = (crc, [])"

definition DO2 :: "u32 \<times> u8 list \<Rightarrow> u32 \<times> u8 list" where
  "DO2 s = DO1 (DO1 s)"

definition DO4 :: "u32 \<times> u8 list \<Rightarrow> u32 \<times> u8 list" where
  "DO4 s = DO2 (DO2 s)"

definition DO8 :: "u32 \<times> u8 list \<Rightarrow> u32 \<times> u8 list" where
  "DO8 s = DO4 (DO4 s)"

lemma DO1_length: "length (snd (DO1 s)) = length (snd s) - 1"
  by (cases s rule: DO1.cases) auto

lemma DO8_length: "length (snd (DO8 s)) = length (snd s) - 8"
  by (simp add: DO8_def DO4_def DO2_def DO1_length)

function crc_while8 :: "u32 \<times> u8 list \<Rightarrow> u32 \<times> u8 list" where
  "crc_while8 s = (if 8 \<le> length (snd s) then crc_while8 (DO8 s) else s)"
  by pat_completeness auto
termination
  by (relation "measure (\<lambda>s. length (snd s))") (auto simp: DO8_length)

declare crc_while8.simps [simp del]

function crc_while1 :: "u32 \<times> u8 list \<Rightarrow> u32 \<times> u8 list" where
  "crc_while1 s = (if snd s \<noteq> [] then crc_while1 (DO1 s) else s)"
  by pat_completeness auto
termination
  by (relation "measure (\<lambda>s. length (snd s))") (auto simp: DO1_length)

declare crc_while1.simps [simp del]

definition crc32_no_comp :: "u32 \<Rightarrow> u8 list \<Rightarrow> u32" where
  "crc32_no_comp crc buf = fst (crc_while1 (crc_while8 (crc, buf)))"

definition crc32 :: "u32 \<Rightarrow> u8 list \<Rightarrow> u32" where
  "crc32 crc buf = fst (crc_while1 (crc_while8 (crc XOR 0xffffffff, buf))) XOR 0xffffffff"

text \<open>
  \<^verbatim>\<open>crc32_wd\<close> with a hardware watchdog: chunks of at most \<^verbatim>\<open>chunk_sz\<close> bytes, the watchdog reset
  after each.  A chunk size of 0 never advances, so the loop is partial.
\<close>

partial_function (option) crc32_wd :: "u32 \<Rightarrow> u8 list \<Rightarrow> nat \<Rightarrow> u32 option" where
  "crc32_wd crc buf chunk_sz =
     (if buf = [] then Some crc
      else (let chunk = (if length buf > chunk_sz then chunk_sz else length buf)
            in crc32_wd (crc32 crc (take chunk buf)) (drop chunk buf) chunk_sz))"

section \<open>CRC-16 of the Y-modem receiver\<close>

definition crc16_tab :: "u16 list" where
  "crc16_tab = [
    0x0000, 0x1021, 0x2042, 0x3063, 0x4084, 0x50a5, 0x60c6, 0x70e7,
    0x8108, 0x9129, 0xa14a, 0xb16b, 0xc18c, 0xd1ad, 0xe1ce, 0xf1ef,
    0x1231, 0x0210, 0x3273, 0x2252, 0x52b5, 0x4294, 0x72f7, 0x62d6,
    0x9339, 0x8318, 0xb37b, 0xa35a, 0xd3bd, 0xc39c, 0xf3ff, 0xe3de,
    0x2462, 0x3443, 0x0420, 0x1401, 0x64e6, 0x74c7, 0x44a4, 0x5485,
    0xa56a, 0xb54b, 0x8528, 0x9509, 0xe5ee, 0xf5cf, 0xc5ac, 0xd58d,
    0x3653, 0x2672, 0x1611, 0x0630, 0x76d7, 0x66f6, 0x5695, 0x46b4,
    0xb75b, 0xa77a, 0x9719, 0x8738, 0xf7df, 0xe7fe, 0xd79d, 0xc7bc,
    0x48c4, 0x58e5, 0x6886, 0x78a7, 0x0840, 0x1861, 0x2802, 0x3823,
    0xc9cc, 0xd9ed, 0xe98e, 0xf9af, 0x8948, 0x9969, 0xa90a, 0xb92b,
    0x5af5, 0x4ad4, 0x7ab7, 0x6a96, 0x1a71, 0x0a50, 0x3a33, 0x2a12,
    0xdbfd, 0xcbdc, 0xfbbf, 0xeb9e, 0x9b79, 0x8b58, 0xbb3b, 0xab1a,
    0x6ca6, 0x7c87, 0x4ce4, 0x5cc5, 0x2c22, 0x3c03, 0x0c60, 0x1c41,
    0xedae, 0xfd8f, 0xcdec, 0xddcd, 0xad2a, 0xbd0b, 0x8d68, 0x9d49,
    0x7e97, 0x6eb6, 0x5ed5, 0x4ef4, 0x3e13, 0x2e32, 0x1e51, 0x0e70,
    0xff9f, 0xefbe, 0xdfdd, 0xcffc, 0xbf1b, 0xaf3a, 0x9f59, 0x8f78,
    0x9188, 0x81a9, 0xb1ca, 0xa1eb, 0xd10c, 0xc12d, 0xf14e, 0xe16f,
    0x1080, 0x00a1, 0x30c2, 0x20e3, 0x5004, 0x4025, 0x7046, 0x6067,
    0x83b9, 0x9398, 0xa3fb, 0xb3da, 0xc33d, 0xd31c, 0xe37f, 0xf35e,
    0x02b1, 0x1290, 0x22f3, 0x32d2, 0x4235, 0x5214, 0x6277, 0x7256,
    0xb5ea, 0xa5cb, 0x95a8, 0x8589, 0xf56e, 0xe54f, 0xd52c, 0xc50d,
    0x34e2, 0x24c3, 0x14a0, 0x0481, 0x7466, 0x6447, 0x5424, 0x4405,
    0xa7db, 0xb7fa, 0x8799, 0x97b8, 0xe75f, 0xf77e, 0xc71d, 0xd73c,
    0x26d3, 0x36f2, 0x0691, 0x16b0, 0x6657, 0x7676, 0x4615, 0x5634,
    0xd94c, 0xc96d, 0xf90e, 0xe92f, 0x99c8, 0x89e9, 0xb98a, 0xa9ab,
    0x5844, 0x4865, 0x7806, 0x6827, 0x18c0, 0x08e1, 0x3882, 0x28a3,
    0xcb7d, 0xdb5c, 0xeb3f, 0xfb1e, 0x8bf9, 0x9bd8, 0xabbb, 0xbb9a,
    0x4a75, 0x5a54, 0x6a37, 0x7a16, 0x0af1, 0x1ad0, 0x2ab3, 0x3a92,
    0xfd2e, 0xed0f, 0xdd6c, 0xcd4d, 0xbdaa, 0xad8b, 0x9de8, 0x8dc9,
    0x7c26, 0x6c07, 0x5c64, 0x4c45, 0x3ca2, 0x2c83, 0x1ce0, 0x0cc1,
    0xef1f, 0xff3e, 0xcf5d, 0xdf7c, 0xaf9b, 0xbfba, 0x8fd9, 0x9ff8,
    0x6e17, 0x7e36, 0x4e55, 0x5e74, 0x2e93, 0x3eb2, 0x0ed1, 0x1ef0]"

definition crc16_step :: "u16 \<Rightarrow> u8 \<Rightarrow> u16" where
  "crc16_step cksum b =
     crc16_tab ! unat ((drop_bit 8 cksum XOR ucast b) AND 0xFF) XOR push_bit 8 cksum"

definition cyg_crc16 :: "u8 list \<Rightarrow> u16" where
  "cyg_crc16 buf = foldl crc16_step 0 buf"

section \<open>The unrolled loop is the byte-wise fold\<close>

definition crc_byte :: "u32 \<Rightarrow> u8 \<Rightarrow> u32" where
  "crc_byte crc b = crc_table ! unat ((crc XOR ucast b) AND 0xff) XOR drop_bit 8 crc"

definition crc_feed :: "u32 \<times> u8 list \<Rightarrow> u32" where
  "crc_feed s = foldl crc_byte (fst s) (snd s)"

lemma crc_feed_DO1: "crc_feed (DO1 s) = crc_feed s"
  by (cases s rule: DO1.cases) (auto simp: crc_feed_def crc_byte_def)

lemma crc_feed_DO8: "crc_feed (DO8 s) = crc_feed s"
  by (simp add: DO8_def DO4_def DO2_def crc_feed_DO1)

lemma crc_feed_while8: "crc_feed (crc_while8 s) = crc_feed s"
proof (induction s rule: crc_while8.induct)
  case (1 s)
  then show ?case
    by (cases "8 \<le> length (snd s)")
      (simp_all add: crc_while8.simps [of s] crc_feed_DO8)
qed

lemma crc_while1_feed: "crc_while1 s = (crc_feed s, [])"
proof (induction s rule: crc_while1.induct)
  case (1 s)
  show ?case
  proof (cases "snd s = []")
    case True
    then show ?thesis
      by (cases s) (simp add: crc_while1.simps [of "(_, [])"] crc_feed_def)
  next
    case False
    with 1 show ?thesis
      by (simp add: crc_while1.simps [of s] crc_feed_DO1)
  qed
qed

lemma crc32_no_comp_fold: "crc32_no_comp crc buf = foldl crc_byte crc buf"
  by (simp add: crc32_no_comp_def crc_while1_feed crc_feed_while8) (simp add: crc_feed_def)

lemma crc32_fold: "crc32 crc buf = foldl crc_byte (crc XOR 0xffffffff) buf XOR 0xffffffff"
  by (simp add: crc32_def crc_while1_feed crc_feed_while8) (simp add: crc_feed_def)

lemma DO1_byte: "DO1 (crc, b # buf) = (crc_byte crc b, buf)"
  by (simp add: crc_byte_def)

section \<open>Checksums that can be resumed\<close>

text \<open>
  The contract a client of a running checksum relies on: nothing to add changes nothing, and
  the data may be cut anywhere.
\<close>

locale running_sum =
  fixes upd :: "'s \<Rightarrow> 'b list \<Rightarrow> 's"
  assumes upd_nil: "upd s [] = s"
    and upd_append: "upd s (xs @ ys) = upd (upd s xs) ys"
begin

lemma upd_chunks: "foldl upd s chunks = upd s (concat chunks)"
  by (induction chunks arbitrary: s) (simp_all add: upd_nil upd_append)

lemma upd_cut: "upd (upd s (take n xs)) (drop n xs) = upd s xs"
  by (simp flip: upd_append)

end

interpretation crc: running_sum crc32
  by unfold_locales (simp_all add: crc32_fold xor.assoc)

interpretation crc_no_comp: running_sum crc32_no_comp
  by unfold_locales (simp_all add: crc32_no_comp_fold)

lemma crc32_wd_total:
  assumes "0 < chunk_sz"
  shows "crc32_wd crc buf chunk_sz = Some (crc32 crc buf)"
  using assms
proof (induction "length buf" arbitrary: crc buf rule: less_induct)
  case less
  show ?case
  proof (cases "buf = []")
    case True
    then show ?thesis by (simp add: crc32_wd.simps crc.upd_nil)
  next
    case False
    define n where "n = (if length buf > chunk_sz then chunk_sz else length buf)"
    have "length (drop n buf) < length buf"
      using False less.prems by (auto simp: n_def)
    then have "crc32_wd (crc32 crc (take n buf)) (drop n buf) chunk_sz
        = Some (crc32 (crc32 crc (take n buf)) (drop n buf))"
      using less by blast
    with False show ?thesis
      by (simp add: crc32_wd.simps [of crc buf] Let_def crc.upd_cut flip: n_def)
  qed
qed

text \<open>
  Feeding a buffer to \<^verbatim>\<open>crc32_wd\<close> in watchdog-sized chunks returns, for every chunk size
  other than 0, the checksum \<^verbatim>\<open>crc32\<close> computes in one call.
\<close>
theorem crc32_wd_eq_crc32:
  assumes "0 < chunk_sz"
  shows "crc32_wd crc buf chunk_sz = Some (crc32 crc buf)"
  by (rule crc32_wd_total [OF assms])

theorem crc32_wd_eq_crc32_witness:
  "crc32_wd 0 [0x31, 0x32, 0x33] 2 = Some (crc32 0 [0x31, 0x32, 0x33])"
  by (rule crc32_wd_eq_crc32) simp

section \<open>The static table is the generated one\<close>

lemma crc_poly_val: "crc_poly = 0xedb88320"
  by (simp add: crc_poly_def crc_poly_terms_def)

lemma crc_bit_step_xor [xor_linear]:
  "crc_bit_step (a XOR b) = crc_bit_step a XOR crc_bit_step b"
  unfolding crc_bit_step_def word_and_1_neq_0 bit_xor_iff drop_bit_xor_word
  by (simp add: ac_simps)

lemma crc_bit_steps_xor: "(crc_bit_step ^^ n) (a XOR b) = (crc_bit_step ^^ n) a XOR (crc_bit_step ^^ n) b"
  by (induction n) (simp_all add: crc_bit_step_xor)

lemma make_crc_entry_xor [xor_linear]:
  "make_crc_entry (a XOR b) = make_crc_entry a XOR make_crc_entry b"
  by (simp add: make_crc_entry_def crc_bit_steps_xor)

lemma make_crc_entry_steps:
  "make_crc_entry n = crc_bit_step (crc_bit_step (crc_bit_step (crc_bit_step
     (crc_bit_step (crc_bit_step (crc_bit_step (crc_bit_step n)))))))"
  by (simp add: make_crc_entry_def eval_nat_numeral)

lemma make_crc_entry_basis:
  "make_crc_entry 1 = 0x77073096" "make_crc_entry 2 = 0xee0e612c"
  "make_crc_entry 4 = 0x076dc419" "make_crc_entry 8 = 0x0edb8832"
  "make_crc_entry 16 = 0x1db71064" "make_crc_entry 32 = 0x3b6e20c8"
  "make_crc_entry 64 = 0x76dc4190" "make_crc_entry 128 = 0xedb88320"
  by (simp_all add: make_crc_entry_steps crc_bit_step_def crc_poly_val)

lemma crc_table_is_generated_aux: "make_crc_table = crc_table"
  unfolding make_crc_table_def linear_table_256 [OF make_crc_entry_xor, simplified]
    make_crc_entry_basis crc_table_def
  by (simp add: dbl_def)

text \<open>
  The 256 constants of \<^verbatim>\<open>crc_table\<close> are the ones \<^verbatim>\<open>make_crc_table\<close> computes from the
  polynomial terms.
\<close>
theorem crc_table_is_generated: "make_crc_table = crc_table"
  by (rule crc_table_is_generated_aux)

section \<open>The table-driven loop is the shift register\<close>

lemma crc_table_nth: "n < 256 \<Longrightarrow> crc_table ! n = make_crc_entry (of_nat n)"
  by (subst crc_table_is_generated_aux [symmetric]) (simp add: make_crc_table_def)

lemma crc_bit_step_even: "\<not> bit x 0 \<Longrightarrow> crc_bit_step x = drop_bit 1 x"
  by (simp only: crc_bit_step_def word_and_1_neq_0 if_False)

lemma crc_bit_steps_low:
  assumes "n \<le> 32" and "\<And>i. i < n \<Longrightarrow> \<not> bit x i"
  shows "(crc_bit_step ^^ n) x = drop_bit n x"
  using assms
proof (induction n arbitrary: x)
  case 0
  then show ?case by simp
next
  case (Suc n)
  have "(crc_bit_step ^^ Suc n) x = (crc_bit_step ^^ n) (drop_bit 1 x)"
    using Suc.prems(2) [of 0] by (simp add: funpow_Suc_right crc_bit_step_even del: funpow.simps)
  also have "\<dots> = drop_bit n (drop_bit 1 x)"
    using Suc.prems by (intro Suc.IH) (auto simp: bit_simps)
  finally show ?case by simp
qed

lemma byte_mask: "(0xff :: u32) = mask 8"
  by (simp add: mask_eq_exp_minus_1)

lemma crc_byte_steps: "crc_byte crc b = (crc_bit_step ^^ 8) (crc XOR ucast b)"
proof -
  let ?x = "crc XOR ucast b"
  have split: "?x = (?x AND 0xff) XOR (?x AND NOT 0xff)"
    by (rule bit_word_eqI) (auto simp: bit_simps)
  have "crc_byte crc b = make_crc_entry (?x AND 0xff) XOR drop_bit 8 crc"
    using unat_and_le [of ?x "0xff"]
    by (simp add: crc_byte_def crc_table_nth)
  also have "drop_bit 8 crc = drop_bit 8 (?x AND NOT 0xff)"
    by (rule bit_word_eqI) (auto simp: byte_mask bit_simps dest: bit_imp_le_length)
  also have "\<dots> = (crc_bit_step ^^ 8) (?x AND NOT 0xff)"
    by (subst crc_bit_steps_low) (auto simp: byte_mask bit_simps)
  finally show ?thesis
    by (subst split) (simp only: crc_bit_steps_xor make_crc_entry_def)
qed

text \<open>
  C7: For every start value and every buffer, \<^verbatim>\<open>crc32\<close> complements the start value, shifts the
  bytes one bit at a time through the polynomial's register and complements the result: its loop
  over eight unrolled table look-ups, the tail loop over the last bytes and the two complements
  together are the standard CRC-32.  The look-ups of \<^verbatim>\<open>crc32_no_comp\<close> are the same register without
  the complements.
\<close>
theorem crc32_is_shift_register:
  "crc32 crc buf
     = foldl (\<lambda>c b. (crc_bit_step ^^ 8) (c XOR ucast b)) (crc XOR 0xffffffff) buf XOR 0xffffffff \<and>
   crc32_no_comp crc buf = foldl (\<lambda>c b. (crc_bit_step ^^ 8) (c XOR ucast b)) crc buf"
  by (simp add: crc32_fold crc32_no_comp_fold flip: crc_byte_steps)

section \<open>Error detection\<close>

lemma crc_bit_step_inj: "inj crc_bit_step"
proof (rule injI)
  fix a b
  assume "crc_bit_step a = crc_bit_step b"
  then have eq: "crc_bit_step (a XOR b) = 0"
    by (simp add: crc_bit_step_xor)
  let ?d = "a XOR b"
  have "\<not> bit ?d 0"
  proof
    assume "bit ?d 0"
    then have "crc_bit_step ?d = crc_poly XOR drop_bit 1 ?d"
      by (simp only: crc_bit_step_def word_and_1_neq_0 if_True)
    moreover have "bit crc_poly 31"
      by (simp add: crc_poly_val)
    ultimately have "bit (crc_bit_step ?d) 31"
      by (simp only: bit_xor_iff bit_drop_bit_eq) simp
    with eq show False by (simp only: bit_0_eq) simp
  qed
  then have low: "crc_bit_step ?d = drop_bit 1 ?d"
    by (rule crc_bit_step_even)
  have "\<not> bit ?d n" for n
  proof (cases n)
    case (Suc m)
    have "bit (drop_bit 1 ?d) m = bit ?d n"
      unfolding bit_drop_bit_eq Suc by simp
    with eq low show ?thesis by simp
  qed (use \<open>\<not> bit ?d 0\<close> in simp)
  then have "?d = 0"
    by (intro bit_word_eqI) simp
  then show "a = b" by (simp add: xor_eq_zero)
qed

lemma crc_bit_steps_inj: "inj (crc_bit_step ^^ n)"
  by (rule inj_fn [OF crc_bit_step_inj])

lemma crc_feed_inj: "foldl crc_byte a buf = foldl crc_byte b buf \<Longrightarrow> a = b"
proof (induction buf arbitrary: a b)
  case (Cons x buf)
  then have "crc_byte a x = crc_byte b x" by simp
  then have "a XOR ucast x = b XOR ucast x"
    by (simp only: crc_byte_steps inj_eq [OF crc_bit_steps_inj])
  then show ?case
    by (metis xor.commute xor_left_inj)
qed simp

text \<open>The bytes of a burst as one little-endian word.\<close>

fun le_word :: "u8 list \<Rightarrow> u32" where
  "le_word [] = 0"
| "le_word (b # bs) = ucast b XOR push_bit 8 (le_word bs)"

lemma le_word_high: "8 * length bs \<le> n \<Longrightarrow> \<not> bit (le_word bs) n"
  by (induction bs arbitrary: n) (auto simp: bit_simps dest: bit_imp_le_length)

lemma le_word_inj:
  "length xs = length ys \<Longrightarrow> length xs \<le> 4 \<Longrightarrow> le_word xs = le_word ys \<Longrightarrow> xs = ys"
proof (induction xs ys rule: list_induct2)
  case (Cons x xs y ys)
  have bits: "bit (le_word (x # xs)) n = bit (le_word (y # ys)) n" for n
    by (simp only: Cons.prems)
  have "x = y"
  proof (rule bit_word_eqI)
    fix n assume "n < LENGTH(8)"
    then show "bit x n = bit y n"
      using bits [of n] by (simp add: bit_simps)
  qed
  moreover have "le_word xs = le_word ys"
  proof (rule bit_word_eqI)
    fix n assume n: "n < LENGTH(32)"
    show "bit (le_word xs) n = bit (le_word ys) n"
    proof (cases "n < 24")
      case True
      then show ?thesis
        using bits [of "n + 8"] bit_high_u8 [of "n + 8" x] bit_high_u8 [of "n + 8" y]
        by (simp add: bit_simps)
    next
      case False
      then show ?thesis
        using Cons.prems Cons.hyps by (simp add: le_word_high)
    qed
  qed
  ultimately show ?case
    using Cons by simp
qed simp

lemma crc_burst_word:
  "length e \<le> 4 \<Longrightarrow> foldl crc_byte c e = (crc_bit_step ^^ (8 * length e)) (c XOR le_word e)"
proof (induction e arbitrary: c)
  case (Cons b e)
  let ?w = "le_word e"
  have "(crc_bit_step ^^ 8) (push_bit 8 ?w) = drop_bit 8 (push_bit 8 ?w)"
    by (rule crc_bit_steps_low) (auto simp: bit_simps)
  also have "\<dots> = ?w"
  proof (rule bit_word_eqI)
    fix n
    show "bit (drop_bit 8 (push_bit 8 ?w)) n = bit ?w n"
      using Cons.prems le_word_high [of e n] by (cases "n < 24") (simp_all add: bit_simps)
  qed
  finally have w: "?w = (crc_bit_step ^^ 8) (push_bit 8 ?w)" by simp
  have "foldl crc_byte c (b # e) = (crc_bit_step ^^ (8 * length e)) (crc_byte c b XOR ?w)"
    using Cons by simp
  also have "crc_byte c b XOR ?w = (crc_bit_step ^^ 8) (c XOR le_word (b # e))"
    by (subst w) (simp add: crc_byte_steps xor.assoc flip: crc_bit_steps_xor)
  finally show ?case
    by (simp add: funpow_add add.commute [of 8])
qed simp

lemma crc32_burst:
  assumes "length e = length e'" and "length e \<le> 4" and "e \<noteq> e'"
  shows "crc32 crc (p @ e @ q) \<noteq> crc32 crc (p @ e' @ q)"
proof
  let ?s = "foldl crc_byte (crc XOR 0xffffffff) p"
  assume "crc32 crc (p @ e @ q) = crc32 crc (p @ e' @ q)"
  then have "foldl crc_byte (foldl crc_byte ?s e) q = foldl crc_byte (foldl crc_byte ?s e') q"
    unfolding crc32_fold foldl_append by (metis xor.commute xor_left_inj)
  then have "foldl crc_byte ?s e = foldl crc_byte ?s e'"
    by (rule crc_feed_inj)
  then have "le_word e = le_word e'"
    using assms by (simp add: crc_burst_word inj_eq [OF crc_bit_steps_inj] xor_left_inj)
  with assms show False
    using le_word_inj by blast
qed

text \<open>
  C15: Any change confined to at most four consecutive bytes of a buffer, wherever it is, changes
  \<^verbatim>\<open>crc32\<close>, so a stored environment or image damaged that way fails its check.
\<close>
theorem crc32_detects_burst:
  assumes "length e = length e'" and "length e \<le> 4" and "e \<noteq> e'"
  shows "crc32 crc (p @ e @ q) \<noteq> crc32 crc (p @ e' @ q)"
  by (rule crc32_burst [OF assms])

theorem crc32_detects_burst_witness:
  "crc32 0 ([1, 2] @ [7, 0, 9] @ [5]) \<noteq> crc32 0 ([1, 2] @ [7, 1, 9] @ [5])"
  by (rule crc32_detects_burst) simp_all

section \<open>The CRC-16 table and the residue of a checked block\<close>

definition crc16_bit_step :: "u16 \<Rightarrow> u16" where
  "crc16_bit_step c = (if bit c 15 then push_bit 1 c XOR 0x1021 else push_bit 1 c)"

lemma crc16_bit_step_xor: "crc16_bit_step (a XOR b) = crc16_bit_step a XOR crc16_bit_step b"
  unfolding crc16_bit_step_def bit_xor_iff push_bit_xor_word by (simp add: ac_simps)

definition crc16_entry :: "u16 \<Rightarrow> u16" where
  "crc16_entry n = crc16_bit_step (crc16_bit_step (crc16_bit_step (crc16_bit_step
     (crc16_bit_step (crc16_bit_step (crc16_bit_step (crc16_bit_step (push_bit 8 n))))))))"

lemma crc16_entry_xor: "crc16_entry (a XOR b) = crc16_entry a XOR crc16_entry b"
  by (simp add: crc16_entry_def crc16_bit_step_xor push_bit_xor_word)

lemma crc16_entry_basis:
  "crc16_entry 1 = 0x1021" "crc16_entry 2 = 0x2042" "crc16_entry 4 = 0x4084"
  "crc16_entry 8 = 0x8108" "crc16_entry 16 = 0x1231" "crc16_entry 32 = 0x2462"
  "crc16_entry 64 = 0x48c4" "crc16_entry 128 = 0x9188"
  by (simp_all add: crc16_entry_def crc16_bit_step_def)

lemma crc16_tab_generated: "crc16_tab = map (\<lambda>n. crc16_entry (of_nat n)) [0..<256]"
  unfolding linear_table_256 [OF crc16_entry_xor, simplified] crc16_entry_basis crc16_tab_def
  by (simp add: dbl_def)

lemma crc16_tab_0: "crc16_tab ! 0 = 0"
  by (simp add: crc16_tab_def)

lemma crc16_step_own:
  "crc16_step s (ucast (drop_bit 8 s)) = push_bit 8 s"
proof -
  have "(ucast (ucast (drop_bit 8 s) :: u8) :: u16) = drop_bit 8 s"
    by (rule bit_word_eqI) (auto simp: bit_simps dest: bit_imp_le_length)
  then show ?thesis by (simp add: crc16_step_def crc16_tab_0)
qed

text \<open>
  A block followed by its own checksum, high byte first as the Y-modem sender appends it, has
  checksum 0.
\<close>
theorem cyg_crc16_residue:
  "cyg_crc16 (buf @ [ucast (drop_bit 8 (cyg_crc16 buf)), ucast (cyg_crc16 buf)]) = 0"
proof -
  let ?s = "cyg_crc16 buf"
  have low: "ucast (drop_bit 8 (push_bit 8 ?s)) = (ucast ?s :: u8)"
    by (rule bit_word_eqI) (auto simp: bit_simps)
  have "crc16_step (push_bit 8 ?s) (ucast ?s) = push_bit 8 (push_bit 8 ?s)"
    unfolding low [symmetric] by (rule crc16_step_own)
  also have "\<dots> = 0"
    by (rule bit_word_eqI) (auto simp: bit_simps)
  finally show ?thesis
    by (simp add: cyg_crc16_def crc16_step_own [unfolded cyg_crc16_def])
qed

end
