(* ===== verification/NandEcc.thy ===== *)
theory NandEcc
  imports Prelude
begin

text \<open>
  The software ECC of \<^verbatim>\<open>drivers/mtd/nand/nand_ecc.c\<close> that protects every 256-byte half page read
  from the NAND chip: \<^verbatim>\<open>nand_calculate_ecc\<close> and \<^verbatim>\<open>nand_correct_data\<close> (the byte order without
  \<^verbatim>\<open>CONFIG_MTD_NAND_ECC_SMC\<close>).  The lemmas show that the code corrects every single-bit error
  in the data, accepts every single-bit error in the stored code without touching the data, and
  reports every double-bit error in the data as uncorrectable.
\<close>

section \<open>Calculating the code\<close>

definition nand_ecc_precalc_table :: "u8 list" where
  "nand_ecc_precalc_table = [
    0x00, 0x55, 0x56, 0x03, 0x59, 0x0c, 0x0f, 0x5a, 0x5a, 0x0f, 0x0c, 0x59,
    0x03, 0x56, 0x55, 0x00, 0x65, 0x30, 0x33, 0x66, 0x3c, 0x69, 0x6a, 0x3f,
    0x3f, 0x6a, 0x69, 0x3c, 0x66, 0x33, 0x30, 0x65, 0x66, 0x33, 0x30, 0x65,
    0x3f, 0x6a, 0x69, 0x3c, 0x3c, 0x69, 0x6a, 0x3f, 0x65, 0x30, 0x33, 0x66,
    0x03, 0x56, 0x55, 0x00, 0x5a, 0x0f, 0x0c, 0x59, 0x59, 0x0c, 0x0f, 0x5a,
    0x00, 0x55, 0x56, 0x03, 0x69, 0x3c, 0x3f, 0x6a, 0x30, 0x65, 0x66, 0x33,
    0x33, 0x66, 0x65, 0x30, 0x6a, 0x3f, 0x3c, 0x69, 0x0c, 0x59, 0x5a, 0x0f,
    0x55, 0x00, 0x03, 0x56, 0x56, 0x03, 0x00, 0x55, 0x0f, 0x5a, 0x59, 0x0c,
    0x0f, 0x5a, 0x59, 0x0c, 0x56, 0x03, 0x00, 0x55, 0x55, 0x00, 0x03, 0x56,
    0x0c, 0x59, 0x5a, 0x0f, 0x6a, 0x3f, 0x3c, 0x69, 0x33, 0x66, 0x65, 0x30,
    0x30, 0x65, 0x66, 0x33, 0x69, 0x3c, 0x3f, 0x6a, 0x6a, 0x3f, 0x3c, 0x69,
    0x33, 0x66, 0x65, 0x30, 0x30, 0x65, 0x66, 0x33, 0x69, 0x3c, 0x3f, 0x6a,
    0x0f, 0x5a, 0x59, 0x0c, 0x56, 0x03, 0x00, 0x55, 0x55, 0x00, 0x03, 0x56,
    0x0c, 0x59, 0x5a, 0x0f, 0x0c, 0x59, 0x5a, 0x0f, 0x55, 0x00, 0x03, 0x56,
    0x56, 0x03, 0x00, 0x55, 0x0f, 0x5a, 0x59, 0x0c, 0x69, 0x3c, 0x3f, 0x6a,
    0x30, 0x65, 0x66, 0x33, 0x33, 0x66, 0x65, 0x30, 0x6a, 0x3f, 0x3c, 0x69,
    0x03, 0x56, 0x55, 0x00, 0x5a, 0x0f, 0x0c, 0x59, 0x59, 0x0c, 0x0f, 0x5a,
    0x00, 0x55, 0x56, 0x03, 0x66, 0x33, 0x30, 0x65, 0x3f, 0x6a, 0x69, 0x3c,
    0x3c, 0x69, 0x6a, 0x3f, 0x65, 0x30, 0x33, 0x66, 0x65, 0x30, 0x33, 0x66,
    0x3c, 0x69, 0x6a, 0x3f, 0x3f, 0x6a, 0x69, 0x3c, 0x66, 0x33, 0x30, 0x65,
    0x00, 0x55, 0x56, 0x03, 0x59, 0x0c, 0x0f, 0x5a, 0x5a, 0x0f, 0x0c, 0x59,
    0x03, 0x56, 0x55, 0x00]"

text \<open>The registers of the loop: column parity, inverted line parity, line parity.\<close>

record ecc_regs =
  reg1 :: u8
  reg2 :: u8
  reg3 :: u8

definition ecc_step :: "ecc_regs \<Rightarrow> nat \<times> u8 \<Rightarrow> ecc_regs" where
  "ecc_step r ib =
     (case ib of (i, b) \<Rightarrow>
       let idx = nand_ecc_precalc_table ! unat b;
           r = r\<lparr>reg1 := reg1 r XOR (idx AND 0x3f)\<rparr>
       in if idx AND 0x40 \<noteq> 0
          then r\<lparr>reg3 := reg3 r XOR of_nat i, reg2 := reg2 r XOR NOT (of_nat i)\<rparr>
          else r)"

definition ecc_loop :: "u8 list \<Rightarrow> ecc_regs" where
  "ecc_loop dat =
     foldl ecc_step \<lparr>reg1 = 0, reg2 = 0, reg3 = 0\<rparr> (enumerate 0 (take 256 dat))"

definition ecc_tmp1 :: "u8 \<Rightarrow> u8 \<Rightarrow> u8" where
  "ecc_tmp1 r2 r3 =
     ((r3 AND 0x80) OR drop_bit 1 (r2 AND 0x80)) OR drop_bit 1 (r3 AND 0x40)
     OR drop_bit 2 (r2 AND 0x40) OR drop_bit 2 (r3 AND 0x20) OR drop_bit 3 (r2 AND 0x20)
     OR drop_bit 3 (r3 AND 0x10) OR drop_bit 4 (r2 AND 0x10)"

definition ecc_tmp2 :: "u8 \<Rightarrow> u8 \<Rightarrow> u8" where
  "ecc_tmp2 r2 r3 =
     (push_bit 4 (r3 AND 0x08) OR push_bit 3 (r2 AND 0x08)) OR push_bit 3 (r3 AND 0x04)
     OR push_bit 2 (r2 AND 0x04) OR push_bit 2 (r3 AND 0x02) OR push_bit 1 (r2 AND 0x02)
     OR push_bit 1 (r3 AND 0x01) OR (r2 AND 0x01)"

text \<open>
  The loop reads 256 bytes; on a shorter buffer the C code reads past its end.
\<close>

definition nand_calculate_ecc :: "u8 list \<Rightarrow> (u8 \<times> u8 \<times> u8) option" where
  "nand_calculate_ecc dat =
     (if length dat < 256 then None
      else let r = ecc_loop dat;
               tmp1 = ecc_tmp1 (reg2 r) (reg3 r);
               tmp2 = ecc_tmp2 (reg2 r) (reg3 r)
           in Some (NOT tmp1, NOT tmp2, push_bit 2 (NOT (reg1 r)) OR 0x03))"

section \<open>Correcting the data\<close>

function countbits :: "u32 \<Rightarrow> nat" where
  "countbits byte = (if byte \<noteq> 0 then unat (byte AND 1) + countbits (drop_bit 1 byte) else 0)"
  by pat_completeness auto

lemma unat_drop_bit_less:
  assumes "(w :: u32) \<noteq> 0"
  shows "unat (drop_bit 1 w) < unat w"
proof -
  have "0 < unat w"
    using assms by (simp add: unat_gt_0)
  then have "unat w div 2 ^ 1 < unat w"
    by (intro div_less_dividend) simp_all
  then show ?thesis
    unfolding unat_drop_bit_eq unfolding drop_bit_eq_div .
qed

termination countbits
  by (relation "measure unat") (simp_all only: wf_measure in_measure unat_drop_bit_less not_False_eq_True)

declare countbits.simps [simp del]

definition EBADMSG :: int where "EBADMSG = 74"

definition ecc_byteoffs :: "u8 \<Rightarrow> u8 \<Rightarrow> u32" where
  "ecc_byteoffs s0 s1 =
     (let t0 = ucast s0; t1 = ucast s1 in
      (t1 AND 0x80) OR (push_bit 1 t1 AND 0x40) OR (push_bit 2 t1 AND 0x20)
      OR (push_bit 3 t1 AND 0x10)
      OR (drop_bit 4 t0 AND 0x08) OR (drop_bit 3 t0 AND 0x04) OR (drop_bit 2 t0 AND 0x02)
      OR (drop_bit 1 t0 AND 0x01))"

definition ecc_bitnum :: "u8 \<Rightarrow> u32" where
  "ecc_bitnum s2 =
     (let t2 = ucast s2 in
      (drop_bit 5 t2 AND 0x04) OR (drop_bit 4 t2 AND 0x02) OR (drop_bit 3 t2 AND 0x01))"

definition ecc_single_bit :: "u8 \<Rightarrow> u8 \<Rightarrow> u8 \<Rightarrow> bool" where
  "ecc_single_bit s0 s1 s2 \<longleftrightarrow>
     (s0 XOR drop_bit 1 s0) AND 0x55 = 0x55 \<and> (s1 XOR drop_bit 1 s1) AND 0x55 = 0x55
     \<and> (s2 XOR drop_bit 1 s2) AND 0x54 = 0x54"

text \<open>The return value and the buffer afterwards; \<^verbatim>\<open>None\<close> is a write outside the buffer.\<close>

definition nand_correct_data ::
    "u8 list \<Rightarrow> u8 \<times> u8 \<times> u8 \<Rightarrow> u8 \<times> u8 \<times> u8 \<Rightarrow> (int \<times> u8 list) option" where
  "nand_correct_data dat read_ecc calc_ecc =
     (case (read_ecc, calc_ecc) of ((re0, re1, re2), (ce0, ce1, ce2)) \<Rightarrow>
       let s1 = ce0 XOR re0; s0 = ce1 XOR re1; s2 = ce2 XOR re2 in
       if s0 OR s1 OR s2 = 0 then Some (0, dat)
       else if ecc_single_bit s0 s1 s2 then
         (let byteoffs = unat (ecc_byteoffs s0 s1); bitnum = unat (ecc_bitnum s2) in do {
            b \<leftarrow> rd dat byteoffs;
            dat' \<leftarrow> wr dat byteoffs (b XOR push_bit bitnum 1);
            Some (1, dat')
          })
       else if countbits (ucast s0 OR push_bit 8 (ucast s1) OR push_bit 16 (ucast s2)) = 1
       then Some (1, dat)
       else Some (- EBADMSG, dat))"

section \<open>The parity table\<close>

text \<open>Column parities CP0 to CP5 of a byte, and its own parity in bit 6, as a linear map.\<close>

definition ecc_basis :: "nat \<Rightarrow> u8" where
  "ecc_basis j = [0x55, 0x56, 0x59, 0x5a, 0x65, 0x66, 0x69, 0x6a] ! j"

definition ecc_col :: "u8 \<Rightarrow> u8" where
  "ecc_col b =
     (if bit b 0 then 0x55 else 0) XOR (if bit b 1 then 0x56 else 0)
     XOR (if bit b 2 then 0x59 else 0) XOR (if bit b 3 then 0x5a else 0)
     XOR (if bit b 4 then 0x65 else 0) XOR (if bit b 5 then 0x66 else 0)
     XOR (if bit b 6 then 0x69 else 0) XOR (if bit b 7 then 0x6a else 0)"

lemma if_xor_distrib:
  "(if p \<noteq> q then (v :: u8) else 0) = (if p then v else 0) XOR (if q then v else 0)"
  by simp

lemma ecc_col_xor: "ecc_col (a XOR b) = ecc_col a XOR ecc_col b"
  unfolding ecc_col_def bit_xor_iff if_xor_distrib by (simp only: ac_simps)

lemma ecc_col_values:
  "ecc_col 1 = 0x55" "ecc_col 2 = 0x56" "ecc_col 4 = 0x59" "ecc_col 8 = 0x5a"
  "ecc_col 16 = 0x65" "ecc_col 32 = 0x66" "ecc_col 64 = 0x69" "ecc_col 128 = 0x6a"
  by (simp_all add: ecc_col_def)

lemma ecc_table_linear:
  "nand_ecc_precalc_table = map (\<lambda>n. ecc_col (of_nat n)) [0..<256]"
  unfolding linear_table_256 [OF ecc_col_xor, simplified] ecc_col_values
    nand_ecc_precalc_table_def
  by (simp add: dbl_def)

lemma ecc_table_nth: "nand_ecc_precalc_table ! unat b = ecc_col b"
  by (simp add: ecc_table_linear)

lemma less_8_cases: "(j::nat) < 8 \<Longrightarrow> j \<in> {0, 1, 2, 3, 4, 5, 6, 7}"
  by auto

lemma ecc_col_bit: "j < 8 \<Longrightarrow> ecc_col (push_bit j 1) = ecc_basis j"
  by (drule less_8_cases) (auto simp: ecc_col_values ecc_basis_def)

section \<open>The registers are sums over the bytes\<close>

fun xsum :: "(nat \<Rightarrow> u8 \<Rightarrow> u8) \<Rightarrow> nat \<Rightarrow> u8 list \<Rightarrow> u8" where
  "xsum f n [] = 0"
| "xsum f n (b # bs) = f n b XOR xsum f (Suc n) bs"

definition con1 :: "nat \<Rightarrow> u8 \<Rightarrow> u8" where
  "con1 i b = ecc_col b AND 0x3f"

definition con2 :: "nat \<Rightarrow> u8 \<Rightarrow> u8" where
  "con2 i b = (if bit (ecc_col b) 6 then NOT (of_nat i) else 0)"

definition con3 :: "nat \<Rightarrow> u8 \<Rightarrow> u8" where
  "con3 i b = (if bit (ecc_col b) 6 then of_nat i else 0)"

lemma and_0x40: "((x :: u8) AND 0x40 \<noteq> 0) = bit x 6"
proof -
  have "x AND 0x40 = (if bit x 6 then 0x40 else 0)"
    by (rule u8_eqI) (simp_all add: bit_simps)
  then show ?thesis by simp
qed

lemma ecc_step_con:
  "ecc_step r (i, b) = \<lparr>reg1 = reg1 r XOR con1 i b, reg2 = reg2 r XOR con2 i b,
     reg3 = reg3 r XOR con3 i b\<rparr>"
  unfolding ecc_step_def Let_def prod.case ecc_table_nth and_0x40
  by (simp add: con1_def con2_def con3_def)

lemma ecc_fold_xsum:
  "foldl ecc_step r (enumerate n bs) =
     \<lparr>reg1 = reg1 r XOR xsum con1 n bs, reg2 = reg2 r XOR xsum con2 n bs,
      reg3 = reg3 r XOR xsum con3 n bs\<rparr>"
  by (induction bs arbitrary: n r) (simp_all add: ecc_step_con xor.assoc)

lemma ecc_loop_xsum:
  "ecc_loop dat = \<lparr>reg1 = xsum con1 0 (take 256 dat), reg2 = xsum con2 0 (take 256 dat),
     reg3 = xsum con3 0 (take 256 dat)\<rparr>"
  by (simp add: ecc_loop_def ecc_fold_xsum)

text \<open>Adding \<open>d\<close> to byte \<open>k\<close> adds its contribution to a linear sum.\<close>

lemma xsum_update:
  assumes "\<And>i a b. f i (a XOR b) = f i a XOR f i b" and "k < length bs"
  shows "xsum f n (bs[k := bs ! k XOR d]) = xsum f n bs XOR f (n + k) d"
  using assms(2)
proof (induction bs arbitrary: n k)
  case (Cons b bs)
  show ?case
  proof (cases k)
    case 0
    then show ?thesis by (simp add: assms(1) ac_simps)
  next
    case (Suc k')
    with Cons show ?thesis by (simp add: ac_simps)
  qed
qed simp

lemma con_xor:
  "con1 i (a XOR b) = con1 i a XOR con1 i b"
  "con2 i (a XOR b) = con2 i a XOR con2 i b"
  "con3 i (a XOR b) = con3 i a XOR con3 i b"
  by (simp_all add: con1_def con2_def con3_def ecc_col_xor and_xor_word bit_xor_iff)

lemma ecc_loop_update:
  assumes "k < 256" and "256 \<le> length dat"
  shows "ecc_loop (dat[k := dat ! k XOR d]) =
     \<lparr>reg1 = reg1 (ecc_loop dat) XOR con1 k d, reg2 = reg2 (ecc_loop dat) XOR con2 k d,
      reg3 = reg3 (ecc_loop dat) XOR con3 k d\<rparr>"
proof -
  have "xsum f 0 (take 256 (dat[k := dat ! k XOR d])) = xsum f 0 (take 256 dat) XOR f k d"
    if "\<And>i a b. f i (a XOR b) = f i a XOR f i b" for f
    using xsum_update [of f k "take 256 dat" 0 d, OF that] assms by (simp add: take_update_swap)
  then show ?thesis
    by (simp add: ecc_loop_xsum con_xor)
qed

section \<open>The syndrome\<close>

lemma ecc_tmp_xor:
  "ecc_tmp1 (a XOR c) (b XOR d) = ecc_tmp1 a b XOR ecc_tmp1 c d"
  "ecc_tmp2 (a XOR c) (b XOR d) = ecc_tmp2 a b XOR ecc_tmp2 c d"
  by (rule u8_eqI; simp add: ecc_tmp1_def ecc_tmp2_def bit_simps)+

text \<open>What the corrector sees when the registers differ by \<open>(d1, d2, d3)\<close>.\<close>

definition syndrome :: "u8 \<Rightarrow> u8 \<Rightarrow> u8 \<Rightarrow> u8 \<times> u8 \<times> u8" where
  "syndrome d1 d2 d3 = (ecc_tmp1 d2 d3, ecc_tmp2 d2 d3, push_bit 2 d1)"

lemma not_xor_not: "NOT a XOR NOT b = a XOR (b :: u8)"
  by (rule u8_eqI) (simp_all add: bit_simps)

lemma code_xor:
  "(push_bit 2 (NOT a) OR 3) XOR (push_bit 2 (NOT b) OR 3) = push_bit 2 (a XOR (b :: u8))"
  by (rule u8_eqI) (simp_all add: bit_simps)

lemma byte_mask32: "(0xff :: u32) = mask 8"
  by (simp add: mask_eq_exp_minus_1)

lemma calc_bits:
  assumes "256 \<le> length dat"
  shows "\<exists>e0 e1 e2. nand_calculate_ecc dat = Some (e0, e1, e2)"
  using assms by (simp add: nand_calculate_ecc_def Let_def)

text \<open>The syndrome of a damaged byte against the code of the original.\<close>

lemma syndrome_of_update:
  assumes "k < 256" "256 \<le> length dat"
    and "nand_calculate_ecc dat = Some (e0, e1, e2)"
    and "nand_calculate_ecc (dat[k := dat ! k XOR d]) = Some (f0, f1, f2)"
  shows "(f0 XOR e0, f1 XOR e1, f2 XOR e2) = syndrome (con1 k d) (con2 k d) (con3 k d)"
  using assms(3,4) assms(1,2)
  by (auto simp: nand_calculate_ecc_def Let_def ecc_loop_update syndrome_def ecc_tmp_xor
      not_xor_not code_xor)

subsection \<open>One flipped data bit\<close>

lemma con_single:
  assumes "j < 8"
  shows "con1 i (push_bit j 1) = ecc_basis j AND 0x3f" "con2 i (push_bit j 1) = NOT (of_nat i)"
    "con3 i (push_bit j 1) = of_nat i"
proof -
  have "bit (ecc_basis j) 6"
    using assms by (auto dest!: less_8_cases simp: ecc_basis_def)
  then show "con1 i (push_bit j 1) = ecc_basis j AND 0x3f"
    "con2 i (push_bit j 1) = NOT (of_nat i)" "con3 i (push_bit j 1) = of_nat i"
    unfolding con1_def con2_def con3_def ecc_col_bit [OF assms] by simp_all
qed

lemma single_line_pattern:
  "(ecc_tmp1 (NOT w) w XOR drop_bit 1 (ecc_tmp1 (NOT w) w)) AND 0x55 = 0x55"
  "(ecc_tmp2 (NOT w) w XOR drop_bit 1 (ecc_tmp2 (NOT w) w)) AND 0x55 = 0x55"
  by (rule u8_eqI; simp only: ecc_tmp1_def ecc_tmp2_def bit_eval; simp)+

lemma single_column_pattern:
  "j < 8 \<Longrightarrow> (let s2 = push_bit 2 (ecc_basis j AND 0x3f) in
     (s2 XOR drop_bit 1 s2) AND 0x54 = 0x54 \<and> unat (ecc_bitnum s2) = j)"
  by (drule less_8_cases) (auto simp: ecc_basis_def ecc_bitnum_def)

lemma u32_low_eqI:
  assumes "\<And>n. 8 \<le> n \<Longrightarrow> \<not> bit a n" and "\<And>n. n < 8 \<Longrightarrow> bit a n = bit (b :: u8) n"
  shows "a = (ucast b :: u32)"
proof (rule bit_word_eqI)
  fix n
  show "bit a n = bit (ucast b :: u32) n"
    using assms(1,2) [of n] by (cases "n < 8") (simp_all add: bit_simps)
qed

lemma byteoffs_decodes: "ecc_byteoffs (ecc_tmp2 (NOT w) w) (ecc_tmp1 (NOT w) w) = ucast w"
proof (rule u32_low_eqI)
  fix n :: nat
  have low: "\<not> bit (m AND v) n" if "\<not> bit v n" for m v :: u32
    using that by (simp add: bit_simps)
  have small: "\<not> bit (v :: u32) n" if "8 \<le> n" and "v AND 0xff = v" for v
    using that by (metis bit_and_iff byte_mask32 bit_mask_iff not_le)
  assume n: "8 \<le> n"
  have "\<not> bit (0x80 :: u32) n" "\<not> bit (0x40 :: u32) n" "\<not> bit (0x20 :: u32) n"
    "\<not> bit (0x10 :: u32) n" "\<not> bit (0x08 :: u32) n" "\<not> bit (0x04 :: u32) n"
    "\<not> bit (0x02 :: u32) n" "\<not> bit (0x01 :: u32) n"
    by (rule small [OF n]; simp)+
  then show "\<not> bit (ecc_byteoffs (ecc_tmp2 (NOT w) w) (ecc_tmp1 (NOT w) w)) n"
    unfolding ecc_byteoffs_def Let_def bit_or_iff by (simp only: low simp_thms)
next
  fix n :: nat assume "n < 8"
  then have "n = 0 \<or> n = 1 \<or> n = 2 \<or> n = 3 \<or> n = 4 \<or> n = 5 \<or> n = 6 \<or> n = 7"
    by auto
  then show "bit (ecc_byteoffs (ecc_tmp2 (NOT w) w) (ecc_tmp1 (NOT w) w)) n = bit w n"
    by (elim disjE; simp only: ecc_byteoffs_def ecc_tmp1_def ecc_tmp2_def Let_def bit_eval
        bit_unsigned_iff; simp)
qed

subsection \<open>Two flipped data bits\<close>

text \<open>
  Two flipped bits change each parity and its complement together (or neither), so every pair of
  neighbouring syndrome bits is equal.
\<close>

definition paired :: "('a::len) word \<Rightarrow> bool" where
  "paired s \<longleftrightarrow> (\<forall>k. bit s (2 * k) = bit s (Suc (2 * k)))"

lemma paired_u8:
  "paired (s :: u8) \<longleftrightarrow> bit s 0 = bit s 1 \<and> bit s 2 = bit s 3 \<and> bit s 4 = bit s 5 \<and> bit s 6 = bit s 7"
proof
  assume r: "bit s 0 = bit s 1 \<and> bit s 2 = bit s 3 \<and> bit s 4 = bit s 5 \<and> bit s 6 = bit s 7"
  show "paired s"
    unfolding paired_def
  proof
    fix k :: nat
    consider "k = 0" | "k = 1" | "k = 2" | "k = 3" | "4 \<le> k" by linarith
    then show "bit s (2 * k) = bit s (Suc (2 * k))"
      using r by cases (simp_all add: numeral_eq_Suc)
  qed
next
  assume "paired s"
  then have "bit s (2 * k) = bit s (Suc (2 * k))" for k
    by (simp add: paired_def)
  from this [of 0] this [of 1] this [of 2] this [of 3]
  show "bit s 0 = bit s 1 \<and> bit s 2 = bit s 3 \<and> bit s 4 = bit s 5 \<and> bit s 6 = bit s 7"
    by simp
qed

lemma paired_ecc_tmp: "paired (ecc_tmp1 d d)" "paired (ecc_tmp2 d d)"
  by (simp_all only: paired_u8 ecc_tmp1_def ecc_tmp2_def bit_eval) simp_all

lemma ecc_tmp_zero: "ecc_tmp1 d d = 0 \<Longrightarrow> ecc_tmp2 d d = 0 \<Longrightarrow> d = 0"
proof -
  assume z: "ecc_tmp1 d d = 0" "ecc_tmp2 d d = 0"
  have "bit (ecc_tmp1 d d) n = False" "bit (ecc_tmp2 d d) n = False" for n
    by (simp_all add: z)
  from this(1) [of 1] this(1) [of 3] this(1) [of 5] this(1) [of 7]
    this(2) [of 1] this(2) [of 3] this(2) [of 5] this(2) [of 7]
  show "d = 0"
    by (intro u8_eqI; simp only: ecc_tmp1_def ecc_tmp2_def bit_eval; simp)
qed

lemma column_pair:
  assumes "j < 8" "j' < 8"
  shows "paired (push_bit 2 ((ecc_basis j AND 0x3f) XOR (ecc_basis j' AND 0x3f)))"
    and "j \<noteq> j' \<Longrightarrow> push_bit 2 ((ecc_basis j AND 0x3f) XOR (ecc_basis j' AND 0x3f)) \<noteq> 0"
  using assms by (auto dest!: less_8_cases simp: ecc_basis_def paired_u8 bit_numeral_rec)

lemma paired_not_single: "paired s0 \<Longrightarrow> \<not> ecc_single_bit s0 s1 s2"
proof
  assume "paired s0" and "ecc_single_bit s0 s1 s2"
  then have "bit ((s0 XOR drop_bit 1 s0) AND 0x55) 0" "bit s0 0 = bit s0 1"
    by (simp_all add: ecc_single_bit_def paired_u8)
  then show False by (simp add: bit_simps)
qed

lemma countbits_paired_even: "paired w \<Longrightarrow> even (countbits w)"
proof (induction "unat w" arbitrary: w rule: less_induct)
  case less
  show ?case
  proof (cases "w = 0")
    case True
    then show ?thesis by (simp add: countbits.simps)
  next
    case False
    have b01: "bit w 0 = bit w 1"
      using less.prems unfolding paired_def by (metis One_nat_def mult_0_right)
    have half: "unat (v AND 1) + countbits (drop_bit 1 v) = countbits v" for v
      by (cases "v = 0") (simp_all add: countbits.simps [of v] countbits.simps [of 0])
    let ?v = "drop_bit 1 (drop_bit 1 w)"
    have "unat ?v \<le> unat (drop_bit 1 w)"
      by (cases "drop_bit 1 w = 0") (simp_all only: drop_bit_of_0 order_refl
          unat_drop_bit_less order_less_imp_le not_False_eq_True)
    then have "unat ?v < unat w"
      using unat_drop_bit_less [OF False] by (rule order_le_less_trans)
    moreover have "paired ?v"
    proof -
      have "bit w (2 * Suc k) = bit w (Suc (2 * Suc k))" for k
        using less.prems by (simp only: paired_def)
      then show ?thesis
        unfolding paired_def bit_drop_bit_eq by simp
    qed
    ultimately have "even (countbits ?v)"
      using less.hyps by blast
    moreover have "countbits w = unat (w AND 1) + (unat (drop_bit 1 w AND 1) + countbits ?v)"
      using half [of w] half [of "drop_bit 1 w"] by (simp only:)
    moreover have "w AND 1 = drop_bit 1 w AND 1"
      using b01 by (intro bit_word_eqI) (auto simp: bit_eval bit_1_iff)
    ultimately show ?thesis by simp
  qed
qed

lemma paired_or: "paired a \<Longrightarrow> paired b \<Longrightarrow> paired (a OR b)"
  by (simp add: paired_def bit_or_iff)

lemma paired_ucast:
  assumes "paired (s :: u8)"
  shows "paired (ucast s :: u32)"
  unfolding paired_def
proof
  fix k :: nat
  show "bit (ucast s :: u32) (2 * k) = bit (ucast s :: u32) (Suc (2 * k))"
    using assms by (cases "k < 4") (simp_all add: paired_def bit_ucast_iff)
qed

lemma paired_push:
  assumes "paired (a :: u32)"
  shows "paired (push_bit (2 * m) a)"
  unfolding paired_def
proof
  fix k :: nat
  have d: "Suc (2 * k) - 2 * m = Suc (2 * (k - m))" "2 * k - 2 * m = 2 * (k - m)" if "m \<le> k"
    using that by arith+
  have "bit a (2 * (k - m)) = bit a (Suc (2 * (k - m)))"
    using assms by (simp add: paired_def)
  moreover have "2 * m \<le> Suc (2 * k) \<longleftrightarrow> m \<le> k" and "Suc (2 * k) < 32 \<longleftrightarrow> 2 * k < 32"
    by arith+
  ultimately show "bit (push_bit (2 * m) a) (2 * k) = bit (push_bit (2 * m) a) (Suc (2 * k))"
    by (auto simp: bit_push_bit_iff d)
qed

lemma paired_word24:
  assumes "paired (a :: u8)" "paired (b :: u8)" "paired (c :: u8)"
  shows "paired (ucast a OR push_bit 8 (ucast b) OR push_bit 16 (ucast c) :: u32)"
  using paired_push [OF paired_ucast [OF assms(2)], of 4]
    paired_push [OF paired_ucast [OF assms(3)], of 8]
  by (intro paired_or paired_ucast assms) simp_all

section \<open>What the corrector guarantees\<close>

definition flip_bit_at :: "u8 list \<Rightarrow> nat \<Rightarrow> nat \<Rightarrow> u8 list" where
  "flip_bit_at dat i j = dat[i := dat ! i XOR push_bit j 1]"

lemma length_flip_bit_at [simp]: "length (flip_bit_at dat i j) = length dat"
  by (simp add: flip_bit_at_def)

lemma flip_bit_at_twice:
  "i < length dat \<Longrightarrow> flip_bit_at (flip_bit_at dat i j) i j = dat"
  by (simp add: flip_bit_at_def xor.assoc)

text \<open>
  C1: After any single-bit error in the 256 data bytes, \<^verbatim>\<open>nand_correct_data\<close> run on the damaged
  data, the stored code and the recomputed code reports one corrected error and restores the
  original data exactly.
\<close>
theorem ecc_corrects_single_bit:
  assumes "256 \<le> length dat" and "i < 256" and "j < 8"
  shows "do {
      e \<leftarrow> nand_calculate_ecc dat;
      e' \<leftarrow> nand_calculate_ecc (flip_bit_at dat i j);
      nand_correct_data (flip_bit_at dat i j) e e'
    } = Some (1, dat)"
proof -
  let ?d = "flip_bit_at dat i j" and ?w = "of_nat i :: u8"
  obtain e0 e1 e2 where e: "nand_calculate_ecc dat = Some (e0, e1, e2)"
    using calc_bits [OF assms(1)] by blast
  obtain f0 f1 f2 where f: "nand_calculate_ecc ?d = Some (f0, f1, f2)"
    using calc_bits [of ?d] assms(1) by auto
  define s2 where "s2 = push_bit 2 (ecc_basis j AND 0x3f)"
  have s: "f0 XOR e0 = ecc_tmp1 (NOT ?w) ?w" "f1 XOR e1 = ecc_tmp2 (NOT ?w) ?w"
    "f2 XOR e2 = s2"
    using syndrome_of_update [OF assms(2,1) e f [unfolded flip_bit_at_def]]
    by (simp_all only: syndrome_def con_single [OF assms(3)] prod.inject s2_def)
  have single: "ecc_single_bit (ecc_tmp2 (NOT ?w) ?w) (ecc_tmp1 (NOT ?w) ?w) s2"
    and bitnum: "unat (ecc_bitnum s2) = j"
    using single_line_pattern [of ?w] single_column_pattern [OF assms(3)]
    by (simp_all only: ecc_single_bit_def Let_def s2_def simp_thms)
  have offs: "unat (ecc_byteoffs (ecc_tmp2 (NOT ?w) ?w) (ecc_tmp1 (NOT ?w) ?w)) = i"
    using assms(2) by (simp add: byteoffs_decodes)
  have nz: "ecc_tmp2 (NOT ?w) ?w OR ecc_tmp1 (NOT ?w) ?w OR s2 \<noteq> 0"
  proof
    assume "ecc_tmp2 (NOT ?w) ?w OR ecc_tmp1 (NOT ?w) ?w OR s2 = 0"
    then have "ecc_tmp2 (NOT ?w) ?w = 0" by (simp add: or_eq_0_iff)
    with single show False by (simp add: ecc_single_bit_def)
  qed
  have "nand_correct_data ?d (e0, e1, e2) (f0, f1, f2) = Some (1, flip_bit_at ?d i j)"
    using assms nz single
    by (simp add: nand_correct_data_def Let_def s bitnum offs flip_bit_at_def del: push_bit_of_1)
  with e f assms(1,2) show ?thesis
    by (simp add: flip_bit_at_twice)
qed

theorem ecc_corrects_single_bit_witness:
  "do {
      e \<leftarrow> nand_calculate_ecc (replicate 256 0xa5);
      e' \<leftarrow> nand_calculate_ecc (flip_bit_at (replicate 256 0xa5) 77 3);
      nand_correct_data (flip_bit_at (replicate 256 0xa5) 77 3) e e'
    } = Some (1, replicate 256 0xa5)"
  by (rule ecc_corrects_single_bit) simp_all

text \<open>
  C2: Two flipped data bits, in one byte or in two, are never mistaken for a correctable error:
  the corrector returns \<^verbatim>\<open>-EBADMSG\<close> and leaves the data as it was read.
\<close>
theorem ecc_detects_double_bit:
  assumes "256 \<le> length dat" and "i < 256" "j < 8" "i' < 256" "j' < 8" and "(i, j) \<noteq> (i', j')"
  defines "bad \<equiv> flip_bit_at (flip_bit_at dat i j) i' j'"
  shows "do {
      e \<leftarrow> nand_calculate_ecc dat;
      e' \<leftarrow> nand_calculate_ecc bad;
      nand_correct_data bad e e'
    } = Some (- EBADMSG, bad)"
proof -
  let ?m = "flip_bit_at dat i j" and ?w = "of_nat i XOR of_nat i' :: u8"
  let ?s2 = "push_bit 2 ((ecc_basis j AND 0x3f) XOR (ecc_basis j' AND 0x3f))"
  obtain e0 e1 e2 where e: "nand_calculate_ecc dat = Some (e0, e1, e2)"
    using calc_bits [OF assms(1)] by blast
  obtain g0 g1 g2 where g: "nand_calculate_ecc ?m = Some (g0, g1, g2)"
    using calc_bits [of ?m] assms(1) by auto
  obtain f0 f1 f2 where f: "nand_calculate_ecc bad = Some (f0, f1, f2)"
    using calc_bits [of bad] assms(1) by (auto simp: bad_def)
  have "g0 XOR e0 = ecc_tmp1 (NOT (of_nat i)) (of_nat i)"
      "g1 XOR e1 = ecc_tmp2 (NOT (of_nat i)) (of_nat i)"
      "g2 XOR e2 = push_bit 2 (ecc_basis j AND 0x3f)"
    and "f0 XOR g0 = ecc_tmp1 (NOT (of_nat i')) (of_nat i')"
      "f1 XOR g1 = ecc_tmp2 (NOT (of_nat i')) (of_nat i')"
      "f2 XOR g2 = push_bit 2 (ecc_basis j' AND 0x3f)"
    using syndrome_of_update [OF assms(2,1) e g [unfolded flip_bit_at_def]]
      syndrome_of_update [of i' ?m, OF assms(4) _ g f [unfolded bad_def flip_bit_at_def [of ?m]]]
      assms(1)
    by (simp_all add: syndrome_def con_single assms(3,5) del: push_bit_of_1)
  moreover have "f0 XOR e0 = (f0 XOR g0) XOR (g0 XOR e0)" "f1 XOR e1 = (f1 XOR g1) XOR (g1 XOR e1)"
      "f2 XOR e2 = (f2 XOR g2) XOR (g2 XOR e2)"
    by (simp_all add: xor.assoc)
  ultimately have s: "f0 XOR e0 = ecc_tmp1 ?w ?w" "f1 XOR e1 = ecc_tmp2 ?w ?w"
      "f2 XOR e2 = ?s2"
    by (simp_all only: flip: ecc_tmp_xor push_bit_xor_word)
      (simp_all only: not_xor_not xor.commute)
  have pair: "paired (ecc_tmp1 ?w ?w)" "paired (ecc_tmp2 ?w ?w)" "paired ?s2"
    using column_pair(1) [OF assms(3,5)] by (simp_all add: paired_ecc_tmp)
  have nz: "ecc_tmp2 ?w ?w OR ecc_tmp1 ?w ?w OR ?s2 \<noteq> 0"
  proof
    assume "ecc_tmp2 ?w ?w OR ecc_tmp1 ?w ?w OR ?s2 = 0"
    then have z: "ecc_tmp1 ?w ?w = 0" "ecc_tmp2 ?w ?w = 0" "?s2 = 0"
      by (simp_all add: or_eq_0_iff)
    from z(1,2) have "?w = 0" by (rule ecc_tmp_zero)
    then have "(of_nat i :: u8) = of_nat i'" by (simp add: xor_eq_zero)
    then have "i = i'"
      using assms(2,4) by (metis unat_of_nat_u8)
    with assms(6) have "j \<noteq> j'" by simp
    with column_pair(2) [OF assms(3,5)] z(3) show False by blast
  qed
  let ?c = "ucast (ecc_tmp2 ?w ?w) OR push_bit 8 (ucast (ecc_tmp1 ?w ?w))
    OR push_bit 16 (ucast ?s2) :: u32"
  have "even (countbits ?c)"
    by (rule countbits_paired_even) (rule paired_word24 [OF pair(2,1,3)])
  then have "countbits ?c \<noteq> 1" by auto
  with nz paired_not_single [OF pair(2)]
  have "nand_correct_data bad (e0, e1, e2) (f0, f1, f2) = Some (- EBADMSG, bad)"
    by (simp add: nand_correct_data_def Let_def s)
  with e f show ?thesis by simp
qed

theorem ecc_detects_double_bit_witness:
  "do {
      e \<leftarrow> nand_calculate_ecc (replicate 256 0);
      e' \<leftarrow> nand_calculate_ecc (flip_bit_at (flip_bit_at (replicate 256 0) 5 1) 200 7);
      nand_correct_data (flip_bit_at (flip_bit_at (replicate 256 0) 5 1) 200 7) e e'
    } = Some (- EBADMSG, flip_bit_at (flip_bit_at (replicate 256 0) 5 1) 200 7)"
  by (rule ecc_detects_double_bit) simp_all

text \<open>One flipped bit among the 24 stored code bits.\<close>

definition flip_code_bit :: "u8 \<times> u8 \<times> u8 \<Rightarrow> nat \<Rightarrow> u8 \<times> u8 \<times> u8" where
  "flip_code_bit e k =
     (case e of (e0, e1, e2) \<Rightarrow>
       if k < 8 then (e0 XOR push_bit k 1, e1, e2)
       else if k < 16 then (e0, e1 XOR push_bit (k - 8) 1, e2)
       else (e0, e1, e2 XOR push_bit (k - 16) 1))"

lemma countbits_push_bit:
  assumes "n < 32" shows "countbits (push_bit n 1) = 1"
  using assms
proof (induction n)
  case 0
  show ?case by (simp add: countbits.simps)
next
  case (Suc n)
  have "bit (push_bit (Suc n) 1 :: u32) (Suc n)"
    using Suc.prems by (simp only: bit_push_bit_iff) simp
  then have "push_bit (Suc n) 1 \<noteq> (0 :: u32)"
    by (metis bit_0_eq bot_apply bot_bool_def)
  moreover have "push_bit (Suc n) 1 AND 1 = (0 :: u32)"
    by (rule bit_word_eqI) (auto simp only: bit_and_iff bit_push_bit_iff bit_1_iff bit_0_eq; simp)
  moreover have "drop_bit 1 (push_bit (Suc n) 1) = (push_bit n 1 :: u32)"
    using Suc.prems by (intro bit_word_eqI) (auto simp only: bit_eval bit_1_iff; simp)
  ultimately show ?case
    using Suc by (simp only: countbits.simps [of "push_bit (Suc n) 1"]) simp
qed

lemma ucast_push_bit_1: "k < 8 \<Longrightarrow> ucast (push_bit k 1 :: u8) = (push_bit k 1 :: u32)"
  by (drule less_8_cases) auto

text \<open>
  When the data is intact and one of the 24 stored code bits is flipped, the corrector leaves
  the data untouched and reports it as readable.
\<close>
theorem ecc_tolerates_code_error:
  assumes "k < 24"
  shows "nand_correct_data dat (flip_code_bit e k) e = Some (1, dat)"
proof -
  obtain e0 e1 e2 where e: "e = (e0, e1, e2)" by (cases e)
  have nz: "(push_bit n 1 :: u8) \<noteq> 0" if "n < 8" for n
    using less_8_cases [OF that] by auto
  have ns: "\<not> ecc_single_bit 0 a b" "\<not> ecc_single_bit a 0 b" for a b
    by (simp_all add: ecc_single_bit_def)
  consider "k < 8" | "8 \<le> k" "k - 8 < 8" "k < 16" | "16 \<le> k" "k - 16 < 8"
    using assms by linarith
  then show ?thesis
  proof cases
    case 1
    then show ?thesis
      using countbits_push_bit [of "8 + k"]
      by (simp add: e flip_code_bit_def nand_correct_data_def Let_def nz ns ucast_push_bit_1
          push_bit_push_bit del: push_bit_of_1)
  next
    case 2
    then show ?thesis
      using countbits_push_bit [of "k - 8"]
      by (simp add: e flip_code_bit_def nand_correct_data_def Let_def nz ns ucast_push_bit_1
          push_bit_push_bit del: push_bit_of_1)
  next
    case 3
    then show ?thesis
      using countbits_push_bit [of "16 + (k - 16)"] assms
      by (simp add: e flip_code_bit_def nand_correct_data_def Let_def nz ns ucast_push_bit_1
          push_bit_push_bit del: push_bit_of_1)
  qed
qed

theorem ecc_tolerates_code_error_witness:
  "nand_correct_data (replicate 256 0x5a) (flip_code_bit (1, 2, 3) 13) (1, 2, 3)
     = Some (1, replicate 256 0x5a)"
  by (rule ecc_tolerates_code_error) simp

end
