(* ===== verification/Circbuf.thy ===== *)
theory Circbuf
  imports Prelude
begin

text \<open>
  The byte ring of \<^verbatim>\<open>lib_generic/circbuf.c\<close>, the queue between the USB serial driver and the
  console.  The pointers \<^verbatim>\<open>top\<close>, \<^verbatim>\<open>tail\<close> and \<^verbatim>\<open>end\<close> are offsets into \<^verbatim>\<open>data\<close>; an access outside the
  block is \<^verbatim>\<open>None\<close>.  The queue contract is a locale, interpreted on the ring: the abstraction is
  the list of stored bytes, oldest first, and pushing past the capacity drops the oldest.
\<close>

section \<open>The ring\<close>

record circbuf =
  cb_size :: nat
  cb_totalsize :: nat
  cb_top :: nat
  cb_tail :: nat
  cb_data :: "u8 list"
  cb_end :: nat

text \<open>\<^verbatim>\<open>block\<close> is the memory \<^verbatim>\<open>malloc\<close> returned; its contents are arbitrary.\<close>

definition buf_init :: "u8 list \<Rightarrow> circbuf" where
  "buf_init block =
     \<lparr>cb_size = 0, cb_totalsize = length block, cb_top = 0, cb_tail = 0, cb_data = block,
      cb_end = length block\<rparr>"

definition buf_free :: "circbuf \<Rightarrow> circbuf" where
  "buf_free buf =
     \<lparr>cb_size = 0, cb_totalsize = 0, cb_top = 0, cb_tail = 0, cb_data = [], cb_end = 0\<rparr>"

fun pop_loop :: "circbuf \<Rightarrow> nat \<Rightarrow> nat \<Rightarrow> (u8 list \<times> nat) option" where
  "pop_loop buf p 0 = Some ([], p)"
| "pop_loop buf p (Suc n) = do {
     b \<leftarrow> rd (cb_data buf) p;
     let p = p + 1;
     let p = (if p = cb_end buf then 0 else p);
     (bs, p) \<leftarrow> pop_loop buf p n;
     Some (b # bs, p)
   }"

definition buf_pop :: "circbuf \<Rightarrow> nat \<Rightarrow> (u8 list \<times> circbuf) option" where
  "buf_pop buf len =
     (let len = (if len > cb_size buf then cb_size buf else len) in do {
        (dest, p) \<leftarrow> pop_loop buf (cb_top buf) len;
        Some (dest, buf\<lparr>cb_top := p, cb_size := cb_size buf - len\<rparr>)
      })"

fun push_loop :: "circbuf \<Rightarrow> nat \<Rightarrow> u8 list \<Rightarrow> (circbuf \<times> nat) option" where
  "push_loop buf p [] = Some (buf, p)"
| "push_loop buf p (b # src) = do {
     data \<leftarrow> wr (cb_data buf) p b;
     let p = p + 1;
     let p = (if p = cb_end buf then 0 else p);
     let buf = buf\<lparr>cb_data := data\<rparr>;
     let buf = (if cb_size buf < cb_totalsize buf then buf\<lparr>cb_size := cb_size buf + 1\<rparr>
                else (let top = cb_top buf + 1
                      in buf\<lparr>cb_top := (if top = cb_end buf then 0 else top)\<rparr>));
     push_loop buf p src
   }"

definition buf_push :: "circbuf \<Rightarrow> u8 list \<Rightarrow> circbuf option" where
  "buf_push buf src = do {
     (buf, p) \<leftarrow> push_loop buf (cb_tail buf) src;
     Some (buf\<lparr>cb_tail := p\<rparr>)
   }"

section \<open>Abstraction and invariant\<close>

definition ring_inv :: "circbuf \<Rightarrow> bool" where
  "ring_inv b \<longleftrightarrow> 0 < cb_totalsize b \<and> length (cb_data b) = cb_totalsize b
     \<and> cb_end b = cb_totalsize b \<and> cb_size b \<le> cb_totalsize b \<and> cb_top b < cb_totalsize b
     \<and> cb_tail b = (cb_top b + cb_size b) mod cb_totalsize b"

definition ring_list :: "circbuf \<Rightarrow> u8 list" where
  "ring_list b = map (\<lambda>i. cb_data b ! ((cb_top b + i) mod cb_totalsize b)) [0..<cb_size b]"

definition ring_cap :: "circbuf \<Rightarrow> nat" where
  "ring_cap b = cb_totalsize b"

lemma ring_invD:
  assumes "ring_inv b"
  shows "0 < cb_totalsize b" "length (cb_data b) = cb_totalsize b" "cb_end b = cb_totalsize b"
    "cb_size b \<le> cb_totalsize b" "cb_top b < cb_totalsize b"
    "cb_tail b = (cb_top b + cb_size b) mod cb_totalsize b"
  using assms by (simp_all add: ring_inv_def)

lemma length_ring_list [simp]: "length (ring_list b) = cb_size b"
  by (simp add: ring_list_def)

text \<open>The bounds check of the code is the increment modulo the size.\<close>

lemma wrap_step: "p < n \<Longrightarrow> (if p + 1 = n then 0 else p + 1) = (p + 1) mod n" for p n :: nat
  by simp

lemma pop_loop_spec:
  assumes "ring_inv b" and "p < cb_totalsize b"
  shows "pop_loop b p n = Some (map (\<lambda>i. cb_data b ! ((p + i) mod cb_totalsize b)) [0..<n],
     (p + n) mod cb_totalsize b)"
  using assms(2)
proof (induction n arbitrary: p)
  case (Suc n)
  let ?N = "cb_totalsize b"
  note inv = ring_invD [OF assms(1)]
  have "pop_loop b p (Suc n) = do {
      (bs, q) \<leftarrow> pop_loop b ((p + 1) mod ?N) n; Some (cb_data b ! p # bs, q) }"
    using Suc.prems inv wrap_step [of p ?N] by (simp add: Let_def)
  also have "\<dots> = Some (cb_data b ! p # map (\<lambda>i. cb_data b ! ((p + 1 + i) mod ?N)) [0..<n],
      (p + 1 + n) mod ?N)"
    using Suc.IH [of "(p + 1) mod ?N"] inv(1) by (simp add: mod_simps)
  also have "map (\<lambda>i. cb_data b ! ((p + 1 + i) mod ?N)) [0..<n]
      = map (\<lambda>i. cb_data b ! ((p + i) mod ?N)) [1..<Suc n]"
    by (simp add: ac_simps flip: map_Suc_upt del: upt_Suc)
  finally show ?case
    using Suc.prems by (simp add: upt_rec [of 0])
qed simp

lemma buf_pop_spec:
  assumes "ring_inv b"
  shows "\<exists>b'. buf_pop b len = Some (take len (ring_list b), b') \<and> ring_inv b'
     \<and> ring_list b' = drop len (ring_list b) \<and> cb_totalsize b' = cb_totalsize b"
proof -
  let ?N = "cb_totalsize b" and ?n = "min len (cb_size b)"
  note inv = ring_invD [OF assms]
  have n: "(if len > cb_size b then cb_size b else len) = ?n" by simp
  have pop: "pop_loop b (cb_top b) ?n = Some (take len (ring_list b), (cb_top b + ?n) mod ?N)"
    using pop_loop_spec [OF assms inv(5), of ?n]
    by (simp add: ring_list_def) (rule nth_equalityI; simp)
  let ?b = "b\<lparr>cb_top := (cb_top b + ?n) mod ?N, cb_size := cb_size b - ?n\<rparr>"
  have "((cb_top b + ?n) mod ?N + (cb_size b - ?n)) mod ?N = (cb_top b + ?n + (cb_size b - ?n)) mod ?N"
    by (rule mod_add_left_eq)
  then have "ring_inv ?b"
    using inv by (simp add: ring_inv_def)
  moreover have "ring_list ?b = drop len (ring_list b)"
  proof (rule nth_equalityI)
    fix i assume "i < length (ring_list ?b)"
    then have "len + i < cb_size b" "?n = len" by auto
    then show "ring_list ?b ! i = drop len (ring_list b) ! i"
      by (simp add: ring_list_def mod_simps add.assoc)
  qed simp
  ultimately show ?thesis
    unfolding buf_pop_def Let_def n pop by simp
qed

text \<open>One pushed byte: the byte is appended and, when the ring is full, the oldest one goes.\<close>

definition push1 :: "circbuf \<Rightarrow> u8 \<Rightarrow> circbuf" where
  "push1 b v = (let b' = b\<lparr>cb_data := (cb_data b)[cb_tail b := v],
       cb_tail := (cb_tail b + 1) mod cb_totalsize b\<rparr>
     in if cb_size b < cb_totalsize b then b'\<lparr>cb_size := cb_size b + 1\<rparr>
        else b'\<lparr>cb_top := (cb_top b + 1) mod cb_totalsize b\<rparr>)"

definition keep_last :: "nat \<Rightarrow> 'a list \<Rightarrow> 'a list" where
  "keep_last n xs = drop (length xs - n) xs"

lemma push1_total [simp]: "cb_totalsize (push1 b v) = cb_totalsize b"
  by (simp add: push1_def Let_def)

lemma push1_inv: "ring_inv b \<Longrightarrow> ring_inv (push1 b v)"
  by (auto simp: ring_inv_def push1_def Let_def mod_simps ac_simps)

lemma mod_add_inj:
  fixes i j n :: nat
  assumes "(t + i) mod n = (t + j) mod n" "i < n" "j < n"
  shows "i = j"
proof -
  have "int i mod int n = int j mod int n"
    using assms(1) by (metis mod_add_left_eq mod_diff_left_eq of_nat_add of_nat_mod
        add_diff_cancel_left')
  with assms(2,3) show ?thesis by simp
qed

lemma push1_list:
  assumes "ring_inv b"
  shows "ring_list (push1 b v) = keep_last (cb_totalsize b) (ring_list b @ [v])"
proof (cases "cb_size b < cb_totalsize b")
  case True
  let ?N = "cb_totalsize b"
  note inv = ring_invD [OF assms]
  have "cb_tail b \<noteq> (cb_top b + i) mod ?N" if "i < cb_size b" for i
    using mod_add_inj [of "cb_top b" i ?N "cb_size b"] that True inv(6) by auto
  moreover have "cb_tail b < ?N"
    using inv by simp
  ultimately show ?thesis
    using True inv(2,6) by (simp add: ring_list_def push1_def Let_def keep_last_def)
next
  case False
  let ?N = "cb_totalsize b"
  note inv = ring_invD [OF assms]
  from False inv(4,5,6) have full: "cb_size b = ?N" and tail: "cb_tail b = cb_top b"
    by simp_all
  show ?thesis
  proof (rule nth_equalityI)
    fix i assume "i < length (ring_list (push1 b v))"
    then have i: "i < ?N" by (simp add: push1_def Let_def full)
    have nth: "ring_list (push1 b v) ! i = (cb_data b)[cb_top b := v] ! ((cb_top b + Suc i) mod ?N)"
      using i full by (simp add: ring_list_def push1_def Let_def tail mod_simps)
    show "ring_list (push1 b v) ! i = keep_last ?N (ring_list b @ [v]) ! i"
    proof (cases "Suc i = ?N")
      case True
      then have "(cb_top b + Suc i) mod ?N = cb_top b"
        using inv(5) by simp
      with True show ?thesis
        using inv by (auto simp: nth keep_last_def full nth_append)
    next
      case False
      with i have "Suc i < ?N" by simp
      moreover have "(cb_top b + Suc i) mod ?N \<noteq> cb_top b"
        using mod_add_inj [of "cb_top b" "Suc i" ?N 0] \<open>Suc i < ?N\<close> inv(5) by auto
      ultimately show ?thesis
        unfolding nth by (auto simp: keep_last_def full nth_append ring_list_def)
    qed
  qed (simp add: push1_def Let_def full keep_last_def)
qed

lemma record_order:
  "b\<lparr>cb_tail := t, cb_data := d\<rparr> = b\<lparr>cb_data := d, cb_tail := t\<rparr>"
  "b\<lparr>cb_tail := t, cb_size := s\<rparr> = b\<lparr>cb_size := s, cb_tail := t\<rparr>"
  "b\<lparr>cb_tail := t, cb_top := u\<rparr> = b\<lparr>cb_top := u, cb_tail := t\<rparr>"
  by simp_all

lemma push_loop_spec:
  assumes "ring_inv b"
  shows "push_loop b (cb_tail b) src = Some ((foldl push1 b src)\<lparr>cb_tail := cb_tail b\<rparr>,
     cb_tail (foldl push1 b src))"
  using assms
proof -
  have gen: "push_loop (b\<lparr>cb_tail := t\<rparr>) (cb_tail b) src
      = Some ((foldl push1 b src)\<lparr>cb_tail := t\<rparr>, cb_tail (foldl push1 b src))"
    if "ring_inv b" for b t
    using that
  proof (induction src arbitrary: b)
    case (Cons v src)
    note inv = ring_invD [OF Cons.prems]
    have tail: "cb_tail b < cb_totalsize b" using inv by simp
    have "push_loop (b\<lparr>cb_tail := t\<rparr>) (cb_tail b) (v # src)
        = push_loop ((push1 b v)\<lparr>cb_tail := t\<rparr>) (cb_tail (push1 b v)) src"
      using tail inv(2,3) by (auto simp: push1_def Let_def wrap_step [OF tail, symmetric, simplified]
          wrap_step [OF inv(5), symmetric, simplified] record_order)
    with Cons.IH [OF push1_inv [OF Cons.prems]] show ?case by simp
  qed simp
  from gen [OF assms, of "cb_tail b"] show ?thesis by simp
qed

lemma buf_push_eq: "ring_inv b \<Longrightarrow> buf_push b src = Some (foldl push1 b src)"
  by (simp add: buf_push_def push_loop_spec)

lemma keep_last_snoc: "keep_last n (keep_last n xs @ ys) = keep_last n (xs @ ys)"
  by (cases "length xs \<le> n") (simp_all add: keep_last_def add.commute)

lemma foldl_push1:
  "ring_inv b \<Longrightarrow> ring_inv (foldl push1 b src)
     \<and> ring_list (foldl push1 b src) = keep_last (cb_totalsize b) (ring_list b @ src)
     \<and> cb_totalsize (foldl push1 b src) = cb_totalsize b"
proof (induction src arbitrary: b)
  case Nil
  then show ?case by (simp add: keep_last_def ring_inv_def)
next
  case (Cons v src)
  from Cons.IH [OF push1_inv [OF Cons.prems, of v]] Cons.prems show ?case
    by (simp add: push1_list keep_last_snoc)
qed

section \<open>The queue contract\<close>

locale byte_queue =
  fixes push :: "'q \<Rightarrow> 'b list \<Rightarrow> 'q option"
    and pop :: "'q \<Rightarrow> nat \<Rightarrow> ('b list \<times> 'q) option"
    and contents :: "'q \<Rightarrow> 'b list"
    and capacity :: "'q \<Rightarrow> nat"
    and inv :: "'q \<Rightarrow> bool"
  assumes push_law: "inv q \<Longrightarrow> \<exists>q'. push q xs = Some q' \<and> inv q' \<and> capacity q' = capacity q
       \<and> contents q' = keep_last (capacity q) (contents q @ xs)"
    and pop_law: "inv q \<Longrightarrow> \<exists>q'. pop q n = Some (take n (contents q), q') \<and> inv q'
       \<and> capacity q' = capacity q \<and> contents q' = drop n (contents q)"
begin

lemma push_no_loss:
  assumes "inv q" and "length (contents q) + length xs \<le> capacity q"
  shows "\<exists>q'. push q xs = Some q' \<and> inv q' \<and> contents q' = contents q @ xs"
  using push_law [OF assms(1), of xs] assms(2) by (auto simp: keep_last_def)

lemma push_pop_fifo:
  assumes "inv q" and "length (contents q) + length xs + length ys \<le> capacity q"
  shows "do { q \<leftarrow> push q xs; q \<leftarrow> push q ys;
      (out, q) \<leftarrow> pop q (length (contents q)); Some (out, contents q) }
    = Some (contents q @ xs @ ys, [])"
proof -
  from push_law [OF assms(1), of xs] assms(2) obtain q1 where
    q1: "push q xs = Some q1" "inv q1" "contents q1 = contents q @ xs" "capacity q1 = capacity q"
    by (auto simp: keep_last_def)
  from push_no_loss [OF q1(2), of ys] assms(2) q1 obtain q2 where
    q2: "push q1 ys = Some q2" "inv q2" "contents q2 = contents q @ xs @ ys"
    by auto
  from pop_law [OF q2(2), of "length (contents q2)"] q1 q2 show ?thesis
    by auto
qed

end

interpretation ring: byte_queue buf_push buf_pop ring_list ring_cap ring_inv
proof
  fix q xs n
  assume inv: "ring_inv q"
  show "\<exists>q'. buf_push q xs = Some q' \<and> ring_inv q' \<and> ring_cap q' = ring_cap q
      \<and> ring_list q' = keep_last (ring_cap q) (ring_list q @ xs)"
    using foldl_push1 [OF inv, of xs] by (simp add: buf_push_eq [OF inv] ring_cap_def)
  show "\<exists>q'. buf_pop q n = Some (take n (ring_list q), q') \<and> ring_inv q'
      \<and> ring_cap q' = ring_cap q \<and> ring_list q' = drop n (ring_list q)"
    using buf_pop_spec [OF inv, of n] by (auto simp: ring_cap_def)
qed

lemma buf_init_inv: "block \<noteq> [] \<Longrightarrow> ring_inv (buf_init block) \<and> ring_list (buf_init block) = []"
  by (simp add: ring_inv_def buf_init_def ring_list_def)

section \<open>Properties\<close>

text \<open>
  A push never writes outside the ring, keeps its invariant and leaves exactly the newest
  \<^verbatim>\<open>totalsize\<close> bytes of the old contents followed by the new ones, whatever the length pushed.
\<close>
theorem buf_push_keeps_newest:
  assumes "ring_inv b"
  shows "\<exists>b'. buf_push b src = Some b' \<and> ring_inv b'
     \<and> ring_list b' = keep_last (cb_totalsize b) (ring_list b @ src)"
  using ring.push_law [OF assms, of src] by (auto simp: ring_cap_def)

theorem buf_push_keeps_newest_witness:
  "\<exists>b'. buf_push (buf_init [9, 9, 9]) [1, 2, 3, 4] = Some b' \<and> ring_inv b'
     \<and> ring_list b' = [2, 3, 4]"
  using buf_push_keeps_newest [of "buf_init [9, 9, 9]" "[1, 2, 3, 4]"]
  by (simp add: ring_inv_def buf_init_def ring_list_def keep_last_def)

text \<open>
  Bytes pushed into a fresh ring in two pieces that fit come back from one pop in the order
  they were pushed, and the ring is empty again.
\<close>
theorem ring_is_fifo:
  assumes "block \<noteq> []" and "length xs + length ys \<le> length block"
  shows "do { b \<leftarrow> buf_push (buf_init block) xs; b \<leftarrow> buf_push b ys;
      (out, b) \<leftarrow> buf_pop b (cb_size b); Some (out, ring_list b) } = Some (xs @ ys, [])"
  using ring.push_pop_fifo [of "buf_init block" xs ys] buf_init_inv [OF assms(1)] assms(2)
  by (simp add: ring_cap_def buf_init_def)

theorem ring_is_fifo_witness:
  "do { b \<leftarrow> buf_push (buf_init [0, 0, 0]) [1]; b \<leftarrow> buf_push b [2, 3];
      (out, b) \<leftarrow> buf_pop b (cb_size b); Some (out, ring_list b) } = Some ([1, 2, 3], [])"
  using ring_is_fifo [of "[0, 0, 0]" "[1]" "[2, 3]"] by simp

end
