(* ===== verification/Div64.thy ===== *)
theory Div64
  imports Prelude
begin

text \<open>
  The 64 by 32 bit division of \<^verbatim>\<open>lib_generic/div64.c\<close> that the 32-bit build uses for \<^verbatim>\<open>do_div\<close>: a
  shift-and-subtract loop on 64-bit words.  Division by zero is \<^verbatim>\<open>None\<close>.  The theorem is that it
  returns the quotient and the remainder for every dividend and every divisor but 0.
\<close>

section \<open>The loops\<close>

lemma unat_u64_less [simp]: "unat (w :: u64) < 18446744073709551616"
  by (rule order_less_le_trans [OF unsigned_less]) simp

lemma bit_63_u64: "bit (b :: u64) 63 \<longleftrightarrow> 2 ^ 63 \<le> unat b"
proof -
  have "bit b 63 \<longleftrightarrow> bit (unat b) 63"
    by (simp add: bit_unsigned_iff)
  also have "\<dots> \<longleftrightarrow> odd (unat b div 2 ^ 63)"
    by (simp only: bit_iff_odd)
  also have "\<dots> \<longleftrightarrow> 2 ^ 63 \<le> unat b"
  proof (cases "2 ^ 63 \<le> unat b")
    case True
    then have "unat b div 2 ^ 63 = 1"
      using unat_u64_less [of b] by (intro div_nat_eqI) simp_all
    with True show ?thesis by simp
  next
    case False
    then have "unat b div 2 ^ 63 = 0" by simp
    with False show ?thesis by simp
  qed
  finally show ?thesis .
qed

lemma sint_pos_iff: "0 < sint (b :: u64) \<longleftrightarrow> 0 < unat b \<and> unat b < 2 ^ 63"
proof -
  have "sint b < 0 \<longleftrightarrow> 2 ^ 63 \<le> unat b"
    unfolding bit_63_u64 [symmetric] using bit_last_iff [of b] by simp
  moreover have "sint b = 0 \<longleftrightarrow> unat b = 0"
    by (metis sint_0 signed_0 unat_eq_zero unsigned_0 signed_eq_0_iff)
  ultimately show ?thesis by linarith
qed

lemma unat_double: "unat (b :: u64) < 2 ^ 63 \<Longrightarrow> unat (b + b) = 2 * unat b"
  unfolding unat_plus_if' by simp

lemma unat_half: "unat (drop_bit 1 (w :: u64)) = unat w div 2"
proof -
  have "unat (drop_bit 1 w) = drop_bit 1 (unat w)"
    by (simp only: unat_drop_bit_eq)
  also have "\<dots> = unat w div 2 ^ 1"
    by (simp only: drop_bit_eq_div)
  finally show ?thesis by (simp only: power_one_right)
qed

lemma unat_half_less:
  assumes "drop_bit 1 (w :: u64) \<noteq> 0"
  shows "unat (drop_bit 1 w) < unat w"
proof -
  from assms have "0 < unat w"
    by (metis drop_bit_of_0 unat_gt_0)
  then show ?thesis by (simp only: unat_half)
qed

text \<open>The first loop doubles the divisor and its weight until it reaches the dividend.\<close>

function div64_grow :: "u64 \<Rightarrow> u64 \<Rightarrow> u64 \<Rightarrow> u64 \<times> u64" where
  "div64_grow rem b d = (if 0 < sint b \<and> b < rem then div64_grow rem (b + b) (d + d) else (b, d))"
  by pat_completeness auto
termination
proof (relation "measure (\<lambda>(rem, b, d). 2 ^ 64 - unat b)")
  fix rem b d :: u64
  assume "0 < sint b \<and> b < rem"
  then have b: "0 < unat b" "unat b < 2 ^ 63"
    by (simp_all only: sint_pos_iff)
  with unat_double [OF b(2)] show "((rem, b + b, d + d), rem, b, d) \<in> measure (\<lambda>(rem, b, d). 2 ^ 64 - unat b)"
    by (simp add: unat_double)
qed simp

text \<open>The second is a do-while: one subtraction step, then halve both, while the weight is not 0.\<close>

function div64_shrink :: "u64 \<Rightarrow> u64 \<Rightarrow> u64 \<Rightarrow> u64 \<Rightarrow> u64 \<times> u64" where
  "div64_shrink rem res b d =
     (let (rem, res) = (if rem \<ge> b then (rem - b, res + d) else (rem, res));
          b = drop_bit 1 b;
          d = drop_bit 1 d
      in if d \<noteq> 0 then div64_shrink rem res b d else (rem, res))"
  by pat_completeness auto
termination
  by (relation "measure (\<lambda>(rem, res, b, d). unat d)")
    (simp_all only: in_measure prod.case wf_measure, rule unat_half_less)

declare div64_grow.simps [simp del] div64_shrink.simps [simp del]

text \<open>The result is the returned remainder and the quotient left in \<^verbatim>\<open>*n\<close>.\<close>

definition div64_32 :: "u64 \<Rightarrow> u32 \<Rightarrow> (u32 \<times> u64) option" where
  "div64_32 n base =
     (let rem = n;
          b = ucast base;
          high = (ucast (drop_bit 32 rem) :: u32)
      in if high \<ge> base \<and> base = 0 then None
         else (let (res, rem) =
                 (if high \<ge> base
                  then (let high = high div base
                        in (push_bit 32 (ucast high), rem - push_bit 32 (ucast (high * base))))
                  else (0, rem));
               (b, d) = div64_grow rem b 1;
               (rem, res) = div64_shrink rem res b d
             in Some (ucast rem, res)))"

section \<open>Correctness\<close>

lemma div64_grow_spec:
  assumes "0 < base" "unat b = base * 2 ^ k" "unat d = 2 ^ k"
  shows "\<exists>k'. unat (fst (div64_grow rem b d)) = base * 2 ^ k'
     \<and> unat (snd (div64_grow rem b d)) = 2 ^ k'
     \<and> unat rem < 2 * unat (fst (div64_grow rem b d))"
  using assms
proof (induction rem b d arbitrary: k rule: div64_grow.induct)
  case (1 rem b d)
  show ?case
  proof (cases "0 < sint b \<and> b < rem")
    case True
    then have b: "0 < unat b" "unat b < 2 ^ 63"
      by (simp_all only: sint_pos_iff)
    have "unat d \<le> unat b"
      using "1.prems" by simp
    with b have d: "unat d < 2 ^ 63" by simp
    have "unat (b + b) = base * 2 ^ Suc k" "unat (d + d) = 2 ^ Suc k"
      unfolding unat_double [OF b(2)] unat_double [OF d] using "1.prems"(2,3) by simp_all
    from "1.IH" [OF True "1.prems"(1) this] True show ?thesis
      by (simp add: div64_grow.simps [of rem b d])
  next
    case False
    have "unat rem < 2 * unat b"
    proof (cases "b < rem")
      case True
      with False have "\<not> 0 < sint b" by simp
      moreover have "0 < unat b" using "1.prems"(1,2) by simp
      ultimately have "2 ^ 63 \<le> unat b" by (simp add: sint_pos_iff)
      then show ?thesis
        by (intro less_le_trans [OF unat_u64_less]) simp
    next
      case False
      then have "unat rem \<le> unat b" by (simp add: word_le_nat_alt not_less)
      moreover have "0 < unat b" using "1.prems" by simp
      ultimately show ?thesis by linarith
    qed
    with False "1.prems" show ?thesis
      by (auto simp: div64_grow.simps [of rem b d])
  qed
qed

lemma div64_shrink_step:
  fixes rem res b d rem' res' :: u64
  assumes "0 < base" "unat b = base * 2 ^ k" "unat d = 2 ^ k" "unat rem < 2 * unat b"
    and "unat res + unat rem div base < 2 ^ 64"
    and "(rem', res') = (if b \<le> rem then (rem - b, res + d) else (rem, res))"
  shows "unat rem' < unat b" "unat rem' mod base = unat rem mod base"
    "unat res' + unat rem' div base = unat res + unat rem div base"
proof -
  have "unat rem' < unat b \<and> unat rem' mod base = unat rem mod base
    \<and> unat res' + unat rem' div base = unat res + unat rem div base"
  proof (cases "b \<le> rem")
    case True
    then have le: "unat b \<le> unat rem" by (simp add: word_le_nat_alt)
    then have sub: "unat (rem - b) = unat rem - unat b" by (simp add: unat_sub_if')
    have split: "unat rem = (unat rem - unat b) + 2 ^ k * base"
      using le assms(2) by simp
    have dv: "unat rem div base = (unat rem - unat b) div base + 2 ^ k"
      by (subst split) (use assms(1) in simp)
    have md: "unat rem mod base = (unat rem - unat b) mod base"
      by (subst split) simp
    have "unat res + unat d < 2 ^ 64"
      using assms(3,5) dv by simp
    then have "unat (res + d) = unat res + unat d"
      by (simp add: unat_plus_if')
    with True assms(3,4,6) sub dv md le show ?thesis by simp
  next
    case False
    with assms(6) show ?thesis by (simp add: word_le_nat_alt)
  qed
  then show "unat rem' < unat b" "unat rem' mod base = unat rem mod base"
    "unat res' + unat rem' div base = unat res + unat rem div base" by simp_all
qed

lemma div64_shrink_spec:
  assumes "0 < base" "unat b = base * 2 ^ k" "unat d = 2 ^ k" "unat rem < 2 * unat b"
    and "unat res + unat rem div base < 2 ^ 64"
  shows "unat (fst (div64_shrink rem res b d)) = unat rem mod base
     \<and> unat (snd (div64_shrink rem res b d)) = unat res + unat rem div base"
  using assms
proof (induction k arbitrary: rem res b d)
  case 0
  obtain rem' res' where n: "(rem', res') = (if b \<le> rem then (rem - b, res + d) else (rem, res))"
    by (metis surj_pair)
  note st = div64_shrink_step [OF 0 n]
  have "unat (drop_bit 1 d) = 0"
    unfolding unat_half using "0.prems"(3) by simp
  then have "drop_bit 1 d = 0" by (simp only: unat_eq_zero)
  then have "div64_shrink rem res b d = (rem', res')"
    by (simp only: div64_shrink.simps [of rem res b d] Let_def n [symmetric] prod.case if_False
        not_True_eq_False simp_thms)
  moreover have "unat rem' div base = 0" "unat rem' mod base = unat rem'"
    using st(1) "0.prems"(2) by simp_all
  ultimately show ?case using st by simp
next
  case (Suc k)
  obtain rem' res' where n: "(rem', res') = (if b \<le> rem then (rem - b, res + d) else (rem, res))"
    by (metis surj_pair)
  note st = div64_shrink_step [OF Suc.prems n]
  have h: "unat (drop_bit 1 d) = 2 ^ k" "unat (drop_bit 1 b) = base * 2 ^ k"
    unfolding unat_half using Suc.prems(2,3) by simp_all
  then have nz: "(drop_bit 1 d \<noteq> 0) = True"
    by (metis power_not_zero unsigned_0 zero_neq_numeral)
  have eq: "div64_shrink rem res b d = div64_shrink rem' res' (drop_bit 1 b) (drop_bit 1 d)"
    by (simp only: div64_shrink.simps [of rem res b d] Let_def n [symmetric] prod.case if_True nz)
  have "unat rem' < 2 * unat (drop_bit 1 b)"
    using st(1) h(2) Suc.prems(2) by simp
  moreover have "unat res' + unat rem' div base < 2 ^ 64"
    using st(3) Suc.prems(5) by simp
  ultimately show ?case
    unfolding eq st(2,3) [symmetric] by (rule Suc.IH [OF Suc.prems(1) h(2) h(1)])
qed

lemma div64_loops_spec:
  assumes "0 < base" "unat res + unat rem div unat base < 2 ^ 64"
    and "(b, d) = div64_grow rem (ucast (base :: u32)) 1"
    and "(rem', res') = div64_shrink rem res b d"
  shows "unat rem' = unat rem mod unat base" "unat res' = unat res + unat rem div unat base"
proof -
  have b0: "0 < unat base" using assms(1) by (simp add: word_less_nat_alt)
  have c: "unat (ucast base :: u64) = unat base * 2 ^ 0" "unat (1 :: u64) = 2 ^ 0"
    by (simp_all add: unsigned_ucast_eq take_bit_nat_eq_self less_trans [OF unat_u32_less])
  obtain k where "unat b = unat base * 2 ^ k" "unat d = 2 ^ k" "unat rem < 2 * unat b"
    using div64_grow_spec [OF b0 c, of rem] unfolding assms(3) [symmetric] fst_conv snd_conv by blast
  from div64_shrink_spec [OF b0 this assms(2)]
  show "unat rem' = unat rem mod unat base" "unat res' = unat res + unat rem div unat base"
    unfolding assms(4) [symmetric] fst_conv snd_conv by simp_all
qed

lemma unat_ucast_u32_u64: "unat (ucast (x :: u32) :: u64) = unat x"
  by (simp add: unsigned_ucast_eq take_bit_nat_eq_self less_trans [OF unat_u32_less])

lemma unat_push_u64: "unat (push_bit k (w :: u64)) = take_bit 64 (unat w * 2 ^ k)"
  by (simp only: unsigned_push_bit_eq) (simp add: push_bit_eq_mult)

lemma unat_ucast_u64_u32: "unat (ucast (w :: u64) :: u32) = take_bit 32 (unat w)"
  by (simp add: unsigned_ucast_eq)

lemma unat_push32: "unat (push_bit 32 (ucast (x :: u32) :: u64)) = unat x * 2 ^ 32"
proof -
  have "unat x * 2 ^ 32 < 2 ^ 32 * 2 ^ 32"
    using unat_u32_less [of x] by simp
  then have "take_bit 64 (unat x * 2 ^ 32) = unat x * 2 ^ 32"
    by (simp add: take_bit_nat_eq_self)
  then show ?thesis
    by (simp only: unat_push_u64 unat_ucast_u32_u64)
qed

lemma unat_high_half: "unat (ucast (drop_bit 32 (n :: u64)) :: u32) = unat n div 2 ^ 32"
proof -
  have "unat n div 2 ^ 32 < 2 ^ 32"
    using unat_u64_less [of n] by (simp add: less_mult_imp_div_less)
  then have "take_bit 32 (unat n div 2 ^ 32) = unat n div 2 ^ 32"
    by (simp add: take_bit_nat_eq_self)
  moreover have "unat (drop_bit 32 n) = unat n div 2 ^ 32"
    by (simp only: unat_drop_bit_eq) (simp only: drop_bit_eq_div)
  ultimately show ?thesis
    by (simp only: unat_ucast_u64_u32)
qed

text \<open>The reduction step takes the multiple \<open>high div base * 2 ^ 32\<close> of the divisor off.\<close>

lemma div64_reduce_spec:
  fixes n rem res :: u64
  assumes "0 < base" and high: "high = (ucast (drop_bit 32 n) :: u32)"
    and res: "res = push_bit 32 (ucast (high div base))"
    and rem: "rem = n - push_bit 32 (ucast (high div base * base))"
  shows "unat n = unat res * unat base + unat rem"
proof -
  define h where "h = unat n div 2 ^ 32"
  have uh: "unat high = h" unfolding high h_def by (rule unat_high_half)
  have le: "h div unat base * unat base \<le> h" by simp
  then have "h div unat base * unat base < 2 ^ 32"
    using uh unat_u32_less [of high] by (intro le_less_trans [OF le]) simp
  then have "unat (high div base) * unat base < 2 ^ LENGTH(32)"
    by (simp add: unat_div uh)
  then have m: "unat (high div base * base) = h div unat base * unat base"
    by (simp only: unat_mult_lem) (simp add: unat_div uh)
  then have p: "unat (push_bit 32 (ucast (high div base * base) :: u64))
      = h div unat base * unat base * 2 ^ 32"
    by (simp only: unat_push32)
  also have "\<dots> \<le> h * 2 ^ 32" using le by simp
  also have "\<dots> \<le> unat n" unfolding h_def by simp
  finally have "unat rem = unat n - h div unat base * unat base * 2 ^ 32"
    and "h div unat base * unat base * 2 ^ 32 \<le> unat n"
    unfolding rem by (simp_all add: unat_sub_if' p)
  moreover have "unat res = h div unat base * 2 ^ 32"
    unfolding res unat_push32 by (simp add: unat_div uh)
  ultimately show ?thesis by simp
qed

lemma div64_assemble:
  fixes n rem res :: u64
  assumes "0 < base" "unat n = unat res * unat (base :: u32) + unat rem"
    and "(b, d) = div64_grow rem (ucast base) 1"
    and "(rem', res') = div64_shrink rem res b d"
  shows "unat res' = unat n div unat base \<and> unat (ucast rem' :: u32) = unat n mod unat base"
proof -
  have b0: "0 < unat base" using assms(1) by (simp add: word_less_nat_alt)
  then have dv: "unat n div unat base = unat res + unat rem div unat base"
    and md: "unat n mod unat base = unat rem mod unat base"
    unfolding assms(2) by simp_all
  have "unat n div unat base \<le> unat n" by simp
  then have "unat res + unat rem div unat base < 2 ^ 64"
    unfolding dv by (rule le_less_trans) (use unat_u64_less [of n] in simp)
  note l = div64_loops_spec [OF assms(1) this assms(3,4)]
  have "unat rem' < unat base" using l(1) b0 by simp
  then have "unat rem' < 2 ^ 32" by (rule less_trans) (use unat_u32_less [of base] in simp)
  then have "unat (ucast rem' :: u32) = unat rem'"
    by (simp add: unsigned_ucast_eq take_bit_nat_eq_self)
  with l dv md show ?thesis by simp
qed

text \<open>
  C25: \<^verbatim>\<open>__div64_32\<close> divides: for every dividend and every divisor but 0 both loops end, the value
  left in \<^verbatim>\<open>*n\<close> is the 64-bit quotient and the returned value the remainder, with no
  intermediate overflow.  A divisor of 0 is the division by zero of the reduction step.
\<close>

theorem div64_32_correct:
  "case div64_32 n base of
     None \<Rightarrow> base = 0
   | Some (rem, quot) \<Rightarrow> base \<noteq> 0 \<and> unat quot = unat n div unat base \<and> unat rem = unat n mod unat base"
proof (cases "base = 0")
  case True
  then show ?thesis by (simp add: div64_32_def)
next
  case False
  then have pos: "0 < base" by (simp add: word_gt_0)
  define high where "high = (ucast (drop_bit 32 n) :: u32)"
  define start where "start = (if high \<ge> base then (push_bit 32 (ucast (high div base)) :: u64,
    n - push_bit 32 (ucast (high div base * base))) else (0, n))"
  obtain res rem where start_eq: "start = (res, rem)" by (rule prod.exhaust)
  have sum: "unat n = unat res * unat base + unat rem"
    using start_eq div64_reduce_spec [OF pos high_def refl refl]
    by (auto simp: start_def split: if_splits)
  obtain b d where bd: "(b, d) = div64_grow rem (ucast base) 1" by (metis surj_pair)
  obtain rem' res' where rr: "(rem', res') = div64_shrink rem res b d" by (metis surj_pair)
  have "div64_32 n base = Some (ucast rem', res')"
    using False by (simp only: div64_32_def Let_def flip: high_def start_def)
      (simp add: start_eq flip: bd rr)
  with div64_assemble [OF pos sum bd rr] False show ?thesis by simp
qed

end
