(* ===== verification/Lmb.thy ===== *)
theory Lmb
  imports Prelude
begin

text \<open>
  The logical memory blocks of \<^verbatim>\<open>lib_generic/lmb.c\<close>: two tables of address ranges, the memory that
  exists and the memory that is taken, and the allocator that finds a free aligned block below a
  limit.  Addresses and sizes are 32-bit and wrap; a table is the C array of
  \<^verbatim>\<open>MAX_LMB_REGIONS + 1\<close> entries of which the first \<^verbatim>\<open>cnt\<close> are in use, every access is checked, and
  \<^verbatim>\<open>None\<close> is an access outside the array.  The theorems read a table as the set of addresses it
  covers: adding, freeing and allocating change exactly that set.
\<close>

section \<open>The tables\<close>

record lmb_property =
  lp_base :: u32
  lp_size :: u32

record lmb_region =
  rgn_cnt :: u32
  rgn_size :: u32
  region :: "lmb_property list"

record lmb =
  memory :: lmb_region
  reserved :: lmb_region

definition MAX_LMB_REGIONS :: nat where
  "MAX_LMB_REGIONS = 8"

definition LMB_ALLOC_ANYWHERE :: u32 where
  "LMB_ALLOC_ANYWHERE = 0"

definition lmb_addrs_overlap :: "u32 \<Rightarrow> u32 \<Rightarrow> u32 \<Rightarrow> u32 \<Rightarrow> bool" where
  "lmb_addrs_overlap base1 sz1 base2 sz2 \<longleftrightarrow> base1 < base2 + sz2 \<and> base2 < base1 + sz1"

definition lmb_addrs_adjacent :: "u32 \<Rightarrow> u32 \<Rightarrow> u32 \<Rightarrow> u32 \<Rightarrow> int" where
  "lmb_addrs_adjacent base1 sz1 base2 sz2 =
     (if base2 = base1 + sz1 then 1
      else if base1 = base2 + sz2 then - 1
      else 0)"

definition lmb_regions_adjacent :: "lmb_property list \<Rightarrow> nat \<Rightarrow> nat \<Rightarrow> int option" where
  "lmb_regions_adjacent reg r1 r2 =
     do {
       p1 \<leftarrow> rd reg r1;
       p2 \<leftarrow> rd reg r2;
       Some (lmb_addrs_adjacent (lp_base p1) (lp_size p1) (lp_base p2) (lp_size p2))
     }"

text \<open>
  The loops run over the array with the count as a parameter, which they do not change.  The
  count is unsigned: \<^verbatim>\<open>cnt - 1\<close> is the largest number when the table is empty.
\<close>

function lmb_remove_loop :: "u32 \<Rightarrow> lmb_property list \<Rightarrow> nat \<Rightarrow> lmb_property list option" where
  "lmb_remove_loop cnt reg i =
     (if i < unat (cnt - 1)
      then do {
        p \<leftarrow> rd reg (i + 1);
        reg \<leftarrow> wr reg i p;
        lmb_remove_loop cnt reg (i + 1)
      }
      else Some reg)"
  by pat_completeness auto
termination
  by (relation "measure (\<lambda>(cnt, reg, i). unat (cnt - 1) - i)") auto

definition lmb_remove_region :: "lmb_region \<Rightarrow> nat \<Rightarrow> lmb_region option" where
  "lmb_remove_region rgn r =
     do {
       reg \<leftarrow> lmb_remove_loop (rgn_cnt rgn) (region rgn) r;
       Some (rgn\<lparr>region := reg, rgn_cnt := rgn_cnt rgn - 1\<rparr>)
     }"

definition lmb_coalesce_regions :: "lmb_region \<Rightarrow> nat \<Rightarrow> nat \<Rightarrow> lmb_region option" where
  "lmb_coalesce_regions rgn r1 r2 =
     do {
       p1 \<leftarrow> rd (region rgn) r1;
       p2 \<leftarrow> rd (region rgn) r2;
       reg \<leftarrow> wr (region rgn) r1 (p1\<lparr>lp_size := lp_size p1 + lp_size p2\<rparr>);
       lmb_remove_region (rgn\<lparr>region := reg\<rparr>) r2
     }"

definition lmb_init_region :: "lmb_region \<Rightarrow> lmb_region option" where
  "lmb_init_region rgn =
     do {
       p \<leftarrow> rd (region rgn) 0;
       reg \<leftarrow> wr (region rgn) 0 (p\<lparr>lp_base := 0, lp_size := 0\<rparr>);
       Some (rgn\<lparr>region := reg, rgn_cnt := 1, rgn_size := 0\<rparr>)
     }"

definition lmb_init :: "lmb \<Rightarrow> lmb option" where
  "lmb_init l =
     do {
       m \<leftarrow> lmb_init_region (memory l);
       r \<leftarrow> lmb_init_region (reserved l);
       Some (l\<lparr>memory := m, reserved := r\<rparr>)
     }"

section \<open>Adding a block\<close>

text \<open>
  The scan for a region to coalesce with.  \<^verbatim>\<open>Some None\<close> is the early return for a region that is
  already there; otherwise the result is the index the loop stopped at, the array and the number
  of regions coalesced.
\<close>

function lmb_coalesce_scan ::
    "u32 \<Rightarrow> u32 \<Rightarrow> u32 \<Rightarrow> lmb_property list \<Rightarrow> nat \<Rightarrow> (nat \<times> lmb_property list \<times> int) option option"
where
  "lmb_coalesce_scan cnt base sz reg i =
     (if i < unat cnt
      then do {
        p \<leftarrow> rd reg i;
        if lp_base p = base \<and> lp_size p = sz then Some None
        else (let adjacent = lmb_addrs_adjacent base sz (lp_base p) (lp_size p)
              in if adjacent > 0
                 then do {
                   reg \<leftarrow> wr reg i (p\<lparr>lp_base := lp_base p - sz, lp_size := lp_size p + sz\<rparr>);
                   Some (Some (i, reg, 1))
                 }
                 else if adjacent < 0
                 then do {
                   reg \<leftarrow> wr reg i (p\<lparr>lp_size := lp_size p + sz\<rparr>);
                   Some (Some (i, reg, 1))
                 }
                 else lmb_coalesce_scan cnt base sz reg (i + 1))
      }
      else Some (Some (i, reg, 0)))"
  by pat_completeness auto
termination
  by (relation "measure (\<lambda>(cnt, base, sz, reg, i). unat cnt - i)") auto

text \<open>The insertion loop counts down; its argument is the number of regions still to look at.\<close>

primrec lmb_insert_loop :: "u32 \<Rightarrow> u32 \<Rightarrow> nat \<Rightarrow> lmb_property list \<Rightarrow> lmb_property list option" where
  "lmb_insert_loop base sz 0 reg = Some reg"
| "lmb_insert_loop base sz (Suc i) reg =
     do {
       p \<leftarrow> rd reg i;
       if base < lp_base p
       then do {
         reg \<leftarrow> wr reg (i + 1) p;
         lmb_insert_loop base sz i reg
       }
       else wr reg (i + 1) \<lparr>lp_base = base, lp_size = sz\<rparr>
     }"

definition lmb_insert :: "lmb_region \<Rightarrow> u32 \<Rightarrow> u32 \<Rightarrow> lmb_region option" where
  "lmb_insert rgn base sz =
     do {
       reg \<leftarrow> lmb_insert_loop base sz (unat (rgn_cnt rgn)) (region rgn);
       p \<leftarrow> rd reg 0;
       reg \<leftarrow> (if base < lp_base p then wr reg 0 \<lparr>lp_base = base, lp_size = sz\<rparr> else Some reg);
       Some (rgn\<lparr>region := reg, rgn_cnt := rgn_cnt rgn + 1\<rparr>)
     }"

text \<open>The step after the scan: the region at \<^verbatim>\<open>i\<close> and its successor become one when they touch.\<close>

definition lmb_coalesce_next :: "lmb_region \<Rightarrow> nat \<Rightarrow> int \<Rightarrow> (lmb_region \<times> int) option" where
  "lmb_coalesce_next rgn i coalesced =
     do {
       adj \<leftarrow> (if i < unat (rgn_cnt rgn - 1) then lmb_regions_adjacent (region rgn) i (i + 1)
              else Some 0);
       if adj \<noteq> 0
       then do { rgn \<leftarrow> lmb_coalesce_regions rgn i (i + 1); Some (rgn, coalesced + 1) }
       else Some (rgn, coalesced)
     }"

definition lmb_add_region :: "lmb_region \<Rightarrow> u32 \<Rightarrow> u32 \<Rightarrow> (int \<times> lmb_region) option" where
  "lmb_add_region rgn base sz =
     do {
       p0 \<leftarrow> rd (region rgn) 0;
       if rgn_cnt rgn = 1 \<and> lp_size p0 = 0
       then do {
         reg \<leftarrow> wr (region rgn) 0 \<lparr>lp_base = base, lp_size = sz\<rparr>;
         Some (0, rgn\<lparr>region := reg\<rparr>)
       }
       else do {
         scan \<leftarrow> lmb_coalesce_scan (rgn_cnt rgn) base sz (region rgn) 0;
         (case scan of
            None \<Rightarrow> Some (0, rgn)
          | Some (i, reg, coalesced) \<Rightarrow>
              do {
                (rgn, coalesced) \<leftarrow> lmb_coalesce_next (rgn\<lparr>region := reg\<rparr>) i coalesced;
                if coalesced \<noteq> 0 then Some (coalesced, rgn)
                else if unat (rgn_cnt rgn) \<ge> MAX_LMB_REGIONS then Some (- 1, rgn)
                else do { rgn \<leftarrow> lmb_insert rgn base sz; Some (0, rgn) }
              })
       }
     }"

definition lmb_add :: "lmb \<Rightarrow> u32 \<Rightarrow> u32 \<Rightarrow> (int \<times> lmb) option" where
  "lmb_add l base sz =
     map_option (\<lambda>(r, m). (r, l\<lparr>memory := m\<rparr>)) (lmb_add_region (memory l) base sz)"

definition lmb_reserve :: "lmb \<Rightarrow> u32 \<Rightarrow> u32 \<Rightarrow> (int \<times> lmb) option" where
  "lmb_reserve l base sz =
     map_option (\<lambda>(r, m). (r, l\<lparr>reserved := m\<rparr>)) (lmb_add_region (reserved l) base sz)"

section \<open>Freeing a block\<close>

text \<open>The index of the first region that holds the block, or the count.\<close>

definition lmb_free_scan :: "u32 \<Rightarrow> u32 \<Rightarrow> u32 \<Rightarrow> lmb_property list \<Rightarrow> nat option" where
  "lmb_free_scan cnt base end reg =
     scan_first (\<lambda>p. lp_base p \<le> base \<and> end \<le> lp_base p + lp_size p) (unat cnt) reg 0"

definition lmb_free_region :: "lmb_region \<Rightarrow> u32 \<Rightarrow> u32 \<Rightarrow> (int \<times> lmb_region) option" where
  "lmb_free_region rgn base sz =
     do {
       let end = base + sz;
       i \<leftarrow> lmb_free_scan (rgn_cnt rgn) base end (region rgn);
       if i = unat (rgn_cnt rgn) then Some (- 1, rgn)
       else do {
         p \<leftarrow> rd (region rgn) i;
         let rgnbegin = lp_base p;
         let rgnend = rgnbegin + lp_size p;
         if rgnbegin = base \<and> rgnend = end
         then do { rgn \<leftarrow> lmb_remove_region rgn i; Some (0, rgn) }
         else if rgnbegin = base
         then do {
           reg \<leftarrow> wr (region rgn) i (p\<lparr>lp_base := end, lp_size := lp_size p - sz\<rparr>);
           Some (0, rgn\<lparr>region := reg\<rparr>)
         }
         else if rgnend = end
         then do {
           reg \<leftarrow> wr (region rgn) i (p\<lparr>lp_size := lp_size p - sz\<rparr>);
           Some (0, rgn\<lparr>region := reg\<rparr>)
         }
         else do {
           reg \<leftarrow> wr (region rgn) i (p\<lparr>lp_size := base - lp_base p\<rparr>);
           lmb_add_region (rgn\<lparr>region := reg\<rparr>) end (rgnend - end)
         }
       }
     }"

definition lmb_free :: "lmb \<Rightarrow> u32 \<Rightarrow> u32 \<Rightarrow> (int \<times> lmb) option" where
  "lmb_free l base sz =
     map_option (\<lambda>(r, m). (r, l\<lparr>reserved := m\<rparr>)) (lmb_free_region (reserved l) base sz)"

section \<open>Allocating\<close>

definition lmb_overlap_scan :: "u32 \<Rightarrow> u32 \<Rightarrow> u32 \<Rightarrow> lmb_property list \<Rightarrow> nat option" where
  "lmb_overlap_scan cnt base sz reg =
     scan_first (\<lambda>p. lmb_addrs_overlap base sz (lp_base p) (lp_size p)) (unat cnt) reg 0"

definition lmb_overlaps_region :: "lmb_region \<Rightarrow> u32 \<Rightarrow> u32 \<Rightarrow> int option" where
  "lmb_overlaps_region rgn base sz =
     do {
       i \<leftarrow> lmb_overlap_scan (rgn_cnt rgn) base sz (region rgn);
       Some (if i < unat (rgn_cnt rgn) then int i else - 1)
     }"

definition lmb_align_down :: "u32 \<Rightarrow> u32 \<Rightarrow> u32" where
  "lmb_align_down addr sz = addr AND NOT (sz - 1)"

definition lmb_align_up :: "u32 \<Rightarrow> u32 \<Rightarrow> u32" where
  "lmb_align_up addr sz = (addr + (sz - 1)) AND NOT (sz - 1)"

declare lmb_remove_loop.simps [simp del] lmb_coalesce_scan.simps [simp del]

text \<open>
  The candidate moves down past every reserved region it overlaps, so the loop ends: an
  overlapped region starts below the end of the candidate.
\<close>

lemma lmb_overlap_scan_hit:
  "lmb_overlap_scan cnt base sz reg = Some j \<Longrightarrow> j < unat cnt \<Longrightarrow>
     j < length reg \<and> lmb_addrs_overlap base sz (lp_base (reg ! j)) (lp_size (reg ! j))"
  unfolding lmb_overlap_scan_def by (drule scan_first_hit) simp_all

lemma lmb_next_candidate:
  assumes "lmb_addrs_overlap base sz rbase rsize" and "\<not> rbase < sz"
  shows "unat (lmb_align_down (rbase - sz) align) < unat base"
proof -
  have lt: "unat rbase < unat (base + sz)"
    using assms(1) by (simp add: lmb_addrs_overlap_def word_less_nat_alt)
  have le: "unat sz \<le> unat rbase" using assms(2) by (simp add: word_less_nat_alt)
  have "unat (base + sz) \<le> unat base + unat sz"
    by (simp add: unat_plus_if')
  then have "unat (rbase - sz) < unat base"
    using lt le by (simp add: unat_sub_if')
  moreover have "unat (lmb_align_down (rbase - sz) align) \<le> unat (rbase - sz)"
    unfolding lmb_align_down_def by (rule word_and_le2 [THEN word_le_nat_alt [THEN iffD1]])
  ultimately show ?thesis by simp
qed

text \<open>
  \<^verbatim>\<open>Some None\<close>: the memory region has no room, the outer loop goes on.  Otherwise the function
  returns the address (0 when the table is full) and the new table.
\<close>

function lmb_fit ::
    "lmb_region \<Rightarrow> u32 \<Rightarrow> u32 \<Rightarrow> u32 \<Rightarrow> u32 \<Rightarrow> (u32 \<times> lmb_region) option option" where
  "lmb_fit rgn sz align lmbbase base =
     (if base \<noteq> 0 \<and> lmbbase \<le> base
      then (case lmb_overlaps_region rgn base sz of
              None \<Rightarrow> None
            | Some j \<Rightarrow>
                if j < 0
                then (case lmb_add_region rgn base (lmb_align_up sz align) of
                        None \<Rightarrow> None
                      | Some (r, rgn') \<Rightarrow> Some (Some (if r < 0 then 0 else base, rgn')))
                else (case rd (region rgn) (nat j) of
                        None \<Rightarrow> None
                      | Some p \<Rightarrow>
                          if lp_base p < sz then Some None
                          else lmb_fit rgn sz align lmbbase
                                 (lmb_align_down (lp_base p - sz) align)))
      else Some None)"
  by pat_completeness auto
termination
  by (relation "measure (\<lambda>(rgn, sz, align, lmbbase, base). unat base)")
    (auto simp: lmb_overlaps_region_def buf_simps bind_eq_Some_conv split: if_splits
      dest!: lmb_overlap_scan_hit
      intro!: lmb_next_candidate)

declare lmb_fit.simps [simp del]

text \<open>The outer loop counts down over the memory regions; its argument is \<^verbatim>\<open>i + 1\<close>.\<close>

primrec lmb_alloc_loop :: "lmb \<Rightarrow> u32 \<Rightarrow> u32 \<Rightarrow> u32 \<Rightarrow> nat \<Rightarrow> (u32 \<times> lmb) option" where
  "lmb_alloc_loop l sz align max_addr 0 = Some (0, l)"
| "lmb_alloc_loop l sz align max_addr (Suc i) =
     do {
       p \<leftarrow> rd (region (memory l)) i;
       let lmbbase = lp_base p;
       let lmbsize = lp_size p;
       if lmbsize < sz \<or> (max_addr \<noteq> LMB_ALLOC_ANYWHERE \<and> \<not> lmbbase < max_addr)
       then lmb_alloc_loop l sz align max_addr i
       else do {
         let base = (if max_addr = LMB_ALLOC_ANYWHERE
                     then lmb_align_down (lmbbase + lmbsize - sz) align
                     else lmb_align_down (min (lmbbase + lmbsize) max_addr - sz) align);
         found \<leftarrow> lmb_fit (reserved l) sz align lmbbase base;
         (case found of
            None \<Rightarrow> lmb_alloc_loop l sz align max_addr i
          | Some (addr, r) \<Rightarrow> Some (addr, l\<lparr>reserved := r\<rparr>))
       }
     }"

definition lmb_alloc_base :: "lmb \<Rightarrow> u32 \<Rightarrow> u32 \<Rightarrow> u32 \<Rightarrow> (u32 \<times> lmb) option" where
  "lmb_alloc_base l sz align max_addr =
     lmb_alloc_loop l sz align max_addr (unat (rgn_cnt (memory l)))"

definition lmb_alloc :: "lmb \<Rightarrow> u32 \<Rightarrow> u32 \<Rightarrow> (u32 \<times> lmb) option" where
  "lmb_alloc l sz align = lmb_alloc_base l sz align LMB_ALLOC_ANYWHERE"

text \<open>The last address of a region is \<^verbatim>\<open>base + size - 1\<close>, which wraps for the dummy region.\<close>

definition lmb_is_reserved :: "lmb \<Rightarrow> u32 \<Rightarrow> bool option" where
  "lmb_is_reserved l addr =
     do {
       i \<leftarrow> scan_first (\<lambda>p. addr \<ge> lp_base p \<and> addr \<le> lp_base p + lp_size p - 1)
              (unat (rgn_cnt (reserved l))) (region (reserved l)) 0;
       Some (i < unat (rgn_cnt (reserved l)))
     }"

section \<open>What the loops do to the list of regions in use\<close>

definition lp_lo :: "lmb_property \<Rightarrow> nat" where
  "lp_lo p = unat (lp_base p)"

definition lp_hi :: "lmb_property \<Rightarrow> nat" where
  "lp_hi p = unat (lp_base p) + unat (lp_size p)"

definition used :: "lmb_region \<Rightarrow> lmb_property list" where
  "used rgn = take (unat (rgn_cnt rgn)) (region rgn)"

definition covers :: "lmb_region \<Rightarrow> nat set" where
  "covers rgn = (\<Union>p \<in> set (used rgn). {lp_lo p..<lp_hi p})"

definition lp_ok :: "lmb_property \<Rightarrow> bool" where
  "lp_ok p \<longleftrightarrow> lp_lo p < lp_hi p \<and> lp_hi p < 2 ^ 32"

definition regions_ok :: "lmb_property list \<Rightarrow> bool" where
  "regions_ok xs \<longleftrightarrow> list_all lp_ok xs \<and> sorted_wrt (\<lambda>p q. lp_hi p \<le> lp_lo q) xs"

text \<open>
  A well-formed table: in range, and either the dummy entry of \<^verbatim>\<open>lmb_init\<close> or non-empty blocks in
  ascending order that neither overlap nor reach the end of the address space.
\<close>

definition lmb_wf :: "lmb_region \<Rightarrow> bool" where
  "lmb_wf rgn \<longleftrightarrow> length (region rgn) = MAX_LMB_REGIONS + 1
     \<and> 0 < unat (rgn_cnt rgn) \<and> unat (rgn_cnt rgn) \<le> MAX_LMB_REGIONS
     \<and> (regions_ok (used rgn) \<or> rgn_cnt rgn = 1 \<and> lp_size (region rgn ! 0) = 0)"

lemmas lp_defs = lp_lo_def lp_hi_def

lemma unat_minus_1: "(n :: u32) \<noteq> 0 \<Longrightarrow> unat (n - 1) = unat n - 1"
  by (rule unat_minus_one)

lemma lmb_remove_loop_nth:
  "unat (cnt - 1) < length reg \<Longrightarrow>
     \<exists>reg'. lmb_remove_loop cnt reg i = Some reg' \<and> length reg' = length reg
       \<and> (\<forall>k. reg' ! k = (if i \<le> k \<and> k < unat (cnt - 1) then reg ! (k + 1) else reg ! k))"
proof (induction cnt reg i rule: lmb_remove_loop.induct)
  case (1 cnt reg i)
  show ?case
  proof (cases "i < unat (cnt - 1)")
    case True
    then have rd: "rd reg (i + 1) = Some (reg ! (i + 1))"
      and wr: "wr reg i (reg ! (i + 1)) = Some (reg[i := reg ! (i + 1)])"
      using "1.prems" by simp_all
    have "unat (cnt - 1) < length (reg[i := reg ! (i + 1)])" using "1.prems" by simp
    from "1.IH" [OF True rd wr this] obtain reg' where r:
      "lmb_remove_loop cnt (reg[i := reg ! (i + 1)]) (i + 1) = Some reg'" "length reg' = length reg"
      "\<And>k. reg' ! k = (if i + 1 \<le> k \<and> k < unat (cnt - 1)
         then reg[i := reg ! (i + 1)] ! (k + 1) else reg[i := reg ! (i + 1)] ! k)"
      by auto
    have "lmb_remove_loop cnt reg i = Some reg'"
      using True by (subst lmb_remove_loop.simps) (simp only: if_True rd wr r(1) bind.simps)
    moreover have "reg' ! k = (if i \<le> k \<and> k < unat (cnt - 1) then reg ! (k + 1) else reg ! k)" for k
      using True "1.prems" unfolding r(3)
      by (cases "k = i") (auto simp: nth_list_update)
    ultimately show ?thesis using r(2) by blast
  next
    case False
    then show ?thesis by (subst lmb_remove_loop.simps) auto
  qed
qed

lemma lmb_remove_region_used:
  assumes "used rgn = xs @ p # ys" "length (region rgn) = 9" "unat (rgn_cnt rgn) \<le> 8"
    and "unat (rgn_cnt rgn) = length (used rgn)"
  shows "\<exists>rgn'. lmb_remove_region rgn (length xs) = Some rgn' \<and> used rgn' = xs @ ys
     \<and> length (region rgn') = 9 \<and> unat (rgn_cnt rgn') = length (xs @ ys)"
proof -
  have n: "unat (rgn_cnt rgn) = Suc (length (xs @ ys))" using assms(1,4) by simp
  then have nz: "rgn_cnt rgn \<noteq> 0" by auto
  have m: "unat (rgn_cnt rgn - 1) = length (xs @ ys)"
    using n unat_minus_1 [OF nz] by simp
  then have "unat (rgn_cnt rgn - 1) < length (region rgn)" using assms(2,3) n by simp
  from lmb_remove_loop_nth [OF this, of "length xs"] obtain reg' where reg':
    "lmb_remove_loop (rgn_cnt rgn) (region rgn) (length xs) = Some reg'" "length reg' = 9"
    "\<And>k. reg' ! k = (if length xs \<le> k \<and> k < length (xs @ ys) then region rgn ! (k + 1)
        else region rgn ! k)"
    using assms(2) m by auto
  have u: "region rgn ! k = (xs @ p # ys) ! k" if "k < Suc (length (xs @ ys))" for k
    using that assms(1) n by (metis nth_take used_def)
  have "take (length (xs @ ys)) reg' = xs @ ys"
  proof (rule nth_equalityI)
    show "length (take (length (xs @ ys)) reg') = length (xs @ ys)"
      using reg'(2) assms(3) n by simp
    fix k assume "k < length (take (length (xs @ ys)) reg')"
    then show "take (length (xs @ ys)) reg' ! k = (xs @ ys) ! k"
      using reg'(3) u [of k] u [of "k + 1"] by (auto simp: nth_append Suc_diff_le)
  qed
  then show ?thesis
    using reg'(1,2) m by (simp add: lmb_remove_region_def used_def)
qed

text \<open>The coalescing scan passes over regions that neither equal nor touch the block.\<close>

definition lmb_quiet :: "u32 \<Rightarrow> u32 \<Rightarrow> lmb_property \<Rightarrow> bool" where
  "lmb_quiet base sz p \<longleftrightarrow> \<not> (lp_base p = base \<and> lp_size p = sz)
     \<and> lmb_addrs_adjacent base sz (lp_base p) (lp_size p) = 0"

lemma lmb_coalesce_scan_skip:
  assumes "list_all (lmb_quiet base sz) xs" "take (i + length xs) reg = ys @ xs" "length ys = i"
    and "i + length xs \<le> unat cnt" "i + length xs \<le> length reg"
  shows "lmb_coalesce_scan cnt base sz reg i = lmb_coalesce_scan cnt base sz reg (i + length xs)"
  using assms
proof (induction xs arbitrary: i ys)
  case (Cons p xs)
  have "reg ! i = p"
    using arg_cong [OF Cons.prems(2), of "\<lambda>l. l ! i"] Cons.prems(3) by (auto simp: nth_append)
  moreover have "i < unat cnt" "i < length reg" using Cons.prems(4,5) by simp_all
  ultimately have "lmb_coalesce_scan cnt base sz reg i = lmb_coalesce_scan cnt base sz reg (i + 1)"
    using Cons.prems(1) by (subst lmb_coalesce_scan.simps) (auto simp: lmb_quiet_def)
  with Cons.IH [of "i + 1" "ys @ [p]"] Cons.prems show ?case by simp
qed simp

lemma lmb_addrs_adjacent_nat:
  assumes "lp_ok p" "lp_ok q"
  shows "lmb_addrs_adjacent (lp_base p) (lp_size p) (lp_base q) (lp_size q)
    = (if lp_lo q = lp_hi p then 1 else if lp_lo p = lp_hi q then - 1 else 0)"
proof -
  have "unat (lp_base p + lp_size p) = lp_hi p" "unat (lp_base q + lp_size q) = lp_hi q"
    using assms by (simp_all add: lp_ok_def lp_hi_def unat_plus_if')
  then show ?thesis
    by (simp add: lmb_addrs_adjacent_def lp_lo_def word_unat_eq_iff)
qed

lemma lmb_split:
  assumes "regions_ok xs"
    and "list_all (\<lambda>p. lp_hi n \<le> lp_lo p \<or> lp_hi p \<le> lp_lo n) xs"
  shows "\<exists>lo hi. xs = lo @ hi \<and> list_all (\<lambda>p. lp_hi p \<le> lp_lo n) lo
     \<and> list_all (\<lambda>p. lp_hi n \<le> lp_lo p) hi"
  using assms
proof (induction xs)
  case (Cons p xs)
  show ?case
  proof (cases "lp_hi p \<le> lp_lo n")
    case True
    with Cons obtain lo hi where "xs = lo @ hi" "list_all (\<lambda>p. lp_hi p \<le> lp_lo n) lo"
      "list_all (\<lambda>p. lp_hi n \<le> lp_lo p) hi"
      by (auto simp: regions_ok_def)
    with True show ?thesis by (intro exI [of _ "p # lo"] exI [of _ hi]) simp
  next
    case False
    then have "lp_hi n \<le> lp_lo p" using Cons.prems by simp
    moreover have "\<forall>q \<in> set xs. lp_lo p \<le> lp_lo q"
      using Cons.prems(1) by (auto simp: regions_ok_def lp_ok_def list_all_iff)
    ultimately have "list_all (\<lambda>p. lp_hi n \<le> lp_lo p) (p # xs)"
      by (auto simp: list_all_iff)
    then show ?thesis by (intro exI [of _ "[]"] exI [of _ "p # xs"]) simp
  qed
qed simp

text \<open>Both coalesced entries as the code writes them.\<close>

lemma lp_grow_up:
  assumes "lp_ok p" "lp_ok \<lparr>lp_base = base, lp_size = sz\<rparr>" "lp_hi p = unat base"
  shows "lp_lo (p\<lparr>lp_size := lp_size p + sz\<rparr>) = lp_lo p"
    "lp_hi (p\<lparr>lp_size := lp_size p + sz\<rparr>) = unat base + unat sz"
proof -
  have "unat (lp_size p + sz) = unat (lp_size p) + unat sz"
    using assms by (simp add: lp_ok_def lp_defs unat_plus_if')
  with assms(3) show "lp_lo (p\<lparr>lp_size := lp_size p + sz\<rparr>) = lp_lo p"
    "lp_hi (p\<lparr>lp_size := lp_size p + sz\<rparr>) = unat base + unat sz"
    by (simp_all add: lp_defs)
qed

lemma lp_grow_down:
  assumes "lp_ok p" "lp_ok \<lparr>lp_base = base, lp_size = sz\<rparr>" "lp_lo p = unat base + unat sz"
  shows "lp_lo (p\<lparr>lp_base := lp_base p - sz, lp_size := lp_size p + sz\<rparr>) = unat base"
    "lp_hi (p\<lparr>lp_base := lp_base p - sz, lp_size := lp_size p + sz\<rparr>) = lp_hi p"
proof -
  have "unat (lp_base p - sz) = unat base"
    using assms by (simp add: lp_ok_def lp_defs unat_sub_if')
  moreover have "unat (lp_size p + sz) = unat (lp_size p) + unat sz"
    using assms by (simp add: lp_ok_def lp_defs unat_plus_if')
  ultimately show "lp_lo (p\<lparr>lp_base := lp_base p - sz, lp_size := lp_size p + sz\<rparr>) = unat base"
    "lp_hi (p\<lparr>lp_base := lp_base p - sz, lp_size := lp_size p + sz\<rparr>) = lp_hi p"
    using assms(3) by (simp_all add: lp_defs)
qed

text \<open>A table with its list of regions in use.\<close>

definition lmb_table :: "lmb_region \<Rightarrow> lmb_property list \<Rightarrow> bool" where
  "lmb_table rgn xs \<longleftrightarrow> length (region rgn) = 9 \<and> take (length xs) (region rgn) = xs
     \<and> unat (rgn_cnt rgn) = length xs \<and> length xs \<le> 8"

lemma lmb_table_used: "lmb_table rgn xs \<Longrightarrow> used rgn = xs"
  by (simp add: lmb_table_def used_def)

lemma lmb_table_covers: "lmb_table rgn xs \<Longrightarrow> covers rgn = (\<Union>p \<in> set xs. {lp_lo p..<lp_hi p})"
  by (simp add: covers_def lmb_table_used)

lemma lmb_table_wf: "lmb_table rgn xs \<Longrightarrow> regions_ok xs \<Longrightarrow> xs \<noteq> [] \<Longrightarrow> lmb_wf rgn"
  by (auto simp: lmb_wf_def lmb_table_def used_def MAX_LMB_REGIONS_def)

lemma lmb_wf_table:
  "lmb_wf rgn \<Longrightarrow> lmb_table rgn (used rgn)"
  by (auto simp: lmb_wf_def lmb_table_def used_def MAX_LMB_REGIONS_def)

lemma lmb_table_nth:
  assumes "lmb_table rgn (xs @ p # ys)"
  shows "region rgn ! length xs = p" "rd (region rgn) (length xs) = Some p"
    "length xs < 9" "length xs < unat (rgn_cnt rgn)"
proof -
  have "take (length (xs @ p # ys)) (region rgn) ! length xs = p"
    using assms by (simp only: lmb_table_def nth_append_length)
  then show "region rgn ! length xs = p"
    by simp
  then show "rd (region rgn) (length xs) = Some p" "length xs < 9" "length xs < unat (rgn_cnt rgn)"
    using assms by (simp_all add: lmb_table_def)
qed

lemma lmb_table_write:
  assumes "lmb_table rgn (xs @ p # ys)"
  shows "wr (region rgn) (length xs) q = Some ((region rgn)[length xs := q])"
    "lmb_table (rgn\<lparr>region := (region rgn)[length xs := q]\<rparr>) (xs @ q # ys)"
proof -
  have "take (length (xs @ p # ys)) (region rgn) = xs @ p # ys"
    using assms by (simp only: lmb_table_def)
  then have "take (length (xs @ q # ys)) ((region rgn)[length xs := q]) = xs @ q # ys"
    by (simp add: take_update_swap)
  then show "wr (region rgn) (length xs) q = Some ((region rgn)[length xs := q])"
    "lmb_table (rgn\<lparr>region := (region rgn)[length xs := q]\<rparr>) (xs @ q # ys)"
    using assms by (simp_all add: lmb_table_def)
qed

lemma lmb_table_remove:
  assumes "lmb_table rgn (xs @ p # ys)"
  shows "\<exists>rgn'. lmb_remove_region rgn (length xs) = Some rgn' \<and> lmb_table rgn' (xs @ ys)"
proof -
  have "used rgn = xs @ p # ys" by (rule lmb_table_used [OF assms])
  moreover have "length (region rgn) = 9" "unat (rgn_cnt rgn) \<le> 8"
    "unat (rgn_cnt rgn) = length (used rgn)"
    using assms(1) calculation by (simp_all add: lmb_table_def)
  ultimately obtain rgn' where "lmb_remove_region rgn (length xs) = Some rgn'"
    "used rgn' = xs @ ys" "length (region rgn') = 9" "unat (rgn_cnt rgn') = length (xs @ ys)"
    using lmb_remove_region_used by blast
  with assms show ?thesis by (auto simp: lmb_table_def used_def)
qed

lemma regions_ok_replace:
  assumes "regions_ok (xs @ p # ys)" "lp_ok q"
    and "\<forall>x \<in> set xs. lp_hi x \<le> lp_lo q" "\<forall>y \<in> set ys. lp_hi q \<le> lp_lo y"
  shows "regions_ok (xs @ q # ys)"
  using assms by (auto simp: regions_ok_def sorted_wrt_append)

lemma regions_ok_cut: "regions_ok (xs @ p # ys) \<Longrightarrow> regions_ok (xs @ ys)"
  by (auto simp: regions_ok_def sorted_wrt_append)

lemma lmb_coalesce_next_touching:
  assumes t: "lmb_table rgn (xs @ p # q # ys)" and ok: "regions_ok (xs @ p # q # ys)"
    and touch: "lp_hi p = lp_lo q"
  shows "\<exists>rgn' m. lmb_coalesce_next rgn (length xs) c = Some (rgn', c + 1)
     \<and> lmb_table rgn' (xs @ m # ys) \<and> lp_lo m = lp_lo p \<and> lp_hi m = lp_hi q"
proof -
  let ?m = "p\<lparr>lp_size := lp_size p + lp_size q\<rparr>"
  from ok have pq: "lp_ok p" "lp_ok q" by (simp_all add: regions_ok_def)
  have q: "q = \<lparr>lp_base = lp_base q, lp_size = lp_size q\<rparr>" by simp
  note m = lp_grow_up [of p "lp_base q" "lp_size q", OF pq(1), folded q, OF pq(2)]
  have mv: "lp_lo ?m = lp_lo p" "lp_hi ?m = lp_hi q"
    using m touch by (simp_all add: lp_defs)
  have t2: "lmb_table rgn ((xs @ [p]) @ q # ys)" using t by simp
  note nth = lmb_table_nth [OF t] lmb_table_nth [OF t2]
  have "lmb_regions_adjacent (region rgn) (length xs) (length xs + 1) = Some 1"
    using nth touch by (simp add: lmb_regions_adjacent_def lmb_addrs_adjacent_nat [OF pq])
  moreover have "unat (rgn_cnt rgn) = Suc (Suc (length xs + length ys))"
    using t by (simp add: lmb_table_def)
  then have "length xs < unat (rgn_cnt rgn - 1)"
    using unat_minus_1 [of "rgn_cnt rgn"] by fastforce
  moreover have "\<exists>rgn'. lmb_coalesce_regions rgn (length xs) (length xs + 1) = Some rgn'
      \<and> lmb_table rgn' (xs @ ?m # ys)"
  proof -
    note w = lmb_table_write [OF t, of ?m]
    have "lmb_table (rgn\<lparr>region := (region rgn)[length xs := ?m]\<rparr>) ((xs @ [?m]) @ q # ys)"
      using w(2) by simp
    from lmb_table_remove [OF this] show ?thesis
      using nth w(1) by (simp add: lmb_coalesce_regions_def)
  qed
  ultimately show ?thesis
    using mv unfolding lmb_coalesce_next_def by auto
qed

lemma lmb_coalesce_next_apart:
  assumes t: "lmb_table rgn (xs @ p # ys)" and ok: "regions_ok (xs @ p # ys)"
    and apart: "ys = [] \<or> lp_hi p \<noteq> lp_lo (hd ys)"
  shows "lmb_coalesce_next rgn (length xs) c = Some (rgn, c)"
proof (cases ys)
  case Nil
  with t have "unat (rgn_cnt rgn) = Suc (length xs)" by (simp add: lmb_table_def)
  then have "\<not> length xs < unat (rgn_cnt rgn - 1)"
    using unat_minus_1 [of "rgn_cnt rgn"] by fastforce
  then show ?thesis by (simp add: lmb_coalesce_next_def)
next
  case (Cons q zs)
  with t ok have t2: "lmb_table rgn ((xs @ [p]) @ q # zs)" and pq: "lp_ok p" "lp_ok q"
    by (simp_all add: regions_ok_def)
  have "lp_hi p \<le> lp_lo q" using ok Cons by (simp add: regions_ok_def sorted_wrt_append)
  then have "lp_lo p \<noteq> lp_hi q" using pq by (simp add: lp_ok_def)
  with pq apart Cons have "lmb_regions_adjacent (region rgn) (length xs) (length xs + 1) = Some 0"
    using lmb_table_nth [OF t] lmb_table_nth [OF t2]
    by (simp add: lmb_regions_adjacent_def lmb_addrs_adjacent_nat)
  then show ?thesis by (simp add: lmb_coalesce_next_def)
qed

lemma lmb_coalesce_next_spec:
  assumes t: "lmb_table rgn (xs @ p # ys)" and ok: "regions_ok (xs @ p # ys)" and c: "0 < c"
  shows "\<exists>rgn' c'. lmb_coalesce_next rgn (length xs) c = Some (rgn', c') \<and> 0 < c' \<and> lmb_wf rgn'
     \<and> covers rgn' = (\<Union>x \<in> set (xs @ p # ys). {lp_lo x..<lp_hi x})"
proof (cases "ys = [] \<or> lp_hi p \<noteq> lp_lo (hd ys)")
  case True
  from lmb_coalesce_next_apart [OF t ok True] c show ?thesis
    using lmb_table_wf [OF t ok] lmb_table_covers [OF t] by auto
next
  case False
  then obtain q zs where ys: "ys = q # zs" and touch: "lp_hi p = lp_lo q" by (cases ys) auto
  from lmb_coalesce_next_touching [OF t [unfolded ys] ok [unfolded ys] touch, of c]
  obtain rgn' m where r: "lmb_coalesce_next rgn (length xs) c = Some (rgn', c + 1)"
    "lmb_table rgn' (xs @ m # zs)" "lp_lo m = lp_lo p" "lp_hi m = lp_hi q" by blast
  have pq: "lp_ok p" "lp_ok q" using ok ys by (simp_all add: regions_ok_def)
  have "regions_ok (xs @ m # zs)"
    using ok pq touch r(3,4) unfolding ys
    by (auto simp: regions_ok_def sorted_wrt_append lp_ok_def)
  moreover have "{lp_lo m..<lp_hi m} = {lp_lo p..<lp_hi p} \<union> {lp_lo q..<lp_hi q}"
    using pq touch r(3,4) by (auto simp: lp_ok_def)
  ultimately show ?thesis
    using r(1) c lmb_table_wf [OF r(2)] lmb_table_covers [OF r(2)] ys by auto
qed

section \<open>Adding a block adds its addresses\<close>

lemma lmb_quiet_below:
  assumes "lp_ok p" "lp_ok \<lparr>lp_base = base, lp_size = sz\<rparr>"
    and "lp_hi p < unat base \<or> unat base + unat sz < lp_lo p"
  shows "lmb_quiet base sz p"
  using assms lmb_addrs_adjacent_nat [OF assms(2,1)]
  by (auto simp: lmb_quiet_def lp_ok_def lp_defs)

lemma lmb_scan_skip:
  assumes "lmb_table rgn (xs @ ys)" "list_all (lmb_quiet base sz) xs"
  shows "lmb_coalesce_scan (rgn_cnt rgn) base sz (region rgn) 0
       = lmb_coalesce_scan (rgn_cnt rgn) base sz (region rgn) (length xs)"
proof -
  have "take (length (xs @ ys)) (region rgn) = xs @ ys"
    using assms(1) by (simp only: lmb_table_def)
  then have "take (length xs) (region rgn) = xs"
    by (metis append_eq_conv_conj take_take min.absorb1 le_add1 length_append)
  then show ?thesis
    using lmb_coalesce_scan_skip [of base sz xs 0 "region rgn" "[]" "rgn_cnt rgn"] assms
    by (simp add: lmb_table_def)
qed

lemma lmb_insert_loop_spec:
  assumes "list_all (\<lambda>p. base < lp_base p) hi" and "lo = [] \<or> \<not> base < lp_base (last lo)"
  shows "lmb_insert_loop base sz (length lo + length hi) (lo @ hi @ x # rest)
    = Some (if lo = [] then hd (hi @ [x]) # hi @ rest
            else lo @ \<lparr>lp_base = base, lp_size = sz\<rparr> # hi @ rest)"
  using assms
proof (induction hi arbitrary: x rest rule: rev_induct)
  case Nil
  show ?case
  proof (cases lo rule: rev_exhaust)
    case (snoc lo' p)
    with Nil show ?thesis
      by (simp add: rd_def wr_def nth_append list_update_append)
  qed simp
next
  case (snoc q hi)
  have "length lo + length (hi @ [q]) = Suc (length lo + length hi)" by simp
  moreover have "rd (lo @ (hi @ [q]) @ x # rest) (length lo + length hi) = Some q"
    by (simp add: rd_def nth_append)
  moreover have "wr (lo @ (hi @ [q]) @ x # rest) (length lo + length hi + 1) q
      = Some (lo @ hi @ q # q # rest)"
    by (simp add: wr_def list_update_append)
  ultimately show ?case
    using snoc.IH [of q "q # rest"] snoc.prems by (simp del: append_assoc add: append_assoc [symmetric])
qed

lemma lmb_insert_spec:
  assumes t: "lmb_table rgn (lo @ hi)" and len: "length (lo @ hi) < 8" and ne: "lo @ hi \<noteq> []"
    and hi: "list_all (\<lambda>p. base < lp_base p) hi" and lo: "list_all (\<lambda>p. \<not> base < lp_base p) lo"
  shows "\<exists>rgn'. lmb_insert rgn base sz = Some rgn'
     \<and> lmb_table rgn' (lo @ \<lparr>lp_base = base, lp_size = sz\<rparr> # hi)"
proof -
  let ?n = "\<lparr>lp_base = base, lp_size = sz\<rparr>"
  have reg: "take (length (lo @ hi)) (region rgn) = lo @ hi" and l9: "length (region rgn) = 9"
    and cnt: "unat (rgn_cnt rgn) = length lo + length hi"
    using t by (simp_all only: lmb_table_def length_append)
  have "drop (length (lo @ hi)) (region rgn) \<noteq> []" using len l9 by simp
  then obtain x rest where "drop (length (lo @ hi)) (region rgn) = x # rest"
    by (cases "drop (length (lo @ hi)) (region rgn)") auto
  then have r: "region rgn = (lo @ hi) @ x # rest"
    using reg by (metis append_take_drop_id)
  have lst: "lo = [] \<or> \<not> base < lp_base (last lo)"
    using lo by (cases lo rule: rev_exhaust) simp_all
  note loop = lmb_insert_loop_spec [OF hi lst, of sz x rest]
  have c1: "unat (rgn_cnt rgn + 1) = Suc (length lo + length hi)"
    using cnt len by (simp add: unat_plus_if')
  have "lmb_insert rgn base sz = Some (rgn\<lparr>region := lo @ ?n # hi @ rest, rgn_cnt := rgn_cnt rgn + 1\<rparr>)"
  proof (cases lo)
    case Nil
    with ne obtain q hi' where "hi = q # hi'" by (cases hi) auto
    with Nil loop hi show ?thesis by (simp add: lmb_insert_def r cnt)
  next
    case (Cons p lo')
    with loop lo show ?thesis by (simp add: lmb_insert_def r cnt)
  qed
  then show ?thesis
    using l9 c1 len by (simp add: lmb_table_def r)
qed

text \<open>The three outcomes on a table: the block touches its left or its right neighbour, or neither.\<close>

definition lmb_added :: "lmb_region \<Rightarrow> nat set \<Rightarrow> (int \<times> lmb_region) option \<Rightarrow> bool" where
  "lmb_added rgn new res \<longleftrightarrow>
     (\<exists>r rgn'. res = Some (r, rgn') \<and> lmb_wf rgn' \<and>
       (if r < 0 then unat (rgn_cnt rgn) = MAX_LMB_REGIONS \<and> rgn' = rgn
        else covers rgn' = covers rgn \<union> new))"

lemma lmb_add_region_unfold:
  assumes "lmb_table rgn xs" "regions_ok xs" "xs \<noteq> []"
  shows "lmb_add_region rgn base sz =
      do {
        scan \<leftarrow> lmb_coalesce_scan (rgn_cnt rgn) base sz (region rgn) 0;
        (case scan of
           None \<Rightarrow> Some (0, rgn)
         | Some (i, reg, coalesced) \<Rightarrow>
             do {
               (rgn, coalesced) \<leftarrow> lmb_coalesce_next (rgn\<lparr>region := reg\<rparr>) i coalesced;
               if coalesced \<noteq> 0 then Some (coalesced, rgn)
               else if unat (rgn_cnt rgn) \<ge> MAX_LMB_REGIONS then Some (- 1, rgn)
               else do { rgn \<leftarrow> lmb_insert rgn base sz; Some (0, rgn) }
             })
      }"
proof -
  obtain p ys where xs: "xs = [] @ p # ys" using assms(3) by (cases xs) auto
  note n = lmb_table_nth [OF assms(1) [unfolded xs]]
  have "lp_ok p" using assms(2) xs by (simp add: regions_ok_def)
  then have "lp_size p \<noteq> 0" by (auto simp: lp_ok_def lp_defs)
  with n show ?thesis by (simp add: lmb_add_region_def)
qed

lemma lmb_add_region_up:
  fixes base sz :: u32
  defines "n \<equiv> \<lparr>lp_base = base, lp_size = sz\<rparr>"
  assumes t: "lmb_table rgn (lo @ p # hi)" and ok: "regions_ok (lo @ p # hi)" and n: "lp_ok n"
    and p: "lp_hi p = lp_lo n" and hi: "list_all (\<lambda>q. lp_hi n \<le> lp_lo q) hi"
  shows "lmb_added rgn {unat base..<unat base + unat sz} (lmb_add_region rgn base sz)"
proof -
  let ?p = "p\<lparr>lp_size := lp_size p + sz\<rparr>"
  have okp: "lp_ok p" using ok by (simp add: regions_ok_def)
  have nn: "lp_lo n = unat base" "lp_hi n = unat base + unat sz" by (simp_all add: n_def lp_defs)
  note g = lp_grow_up [OF okp n [unfolded n_def] p [unfolded nn]]
  have "list_all (lmb_quiet base sz) lo"
    using ok okp p n nn
    by (auto simp: list_all_iff regions_ok_def sorted_wrt_append lp_ok_def n_def
        intro!: lmb_quiet_below [OF _ n [unfolded n_def]])
  note skip = lmb_scan_skip [OF t this]
  have adj: "lmb_addrs_adjacent base sz (lp_base p) (lp_size p) = - 1"
    using lmb_addrs_adjacent_nat [OF n okp] n okp p by (simp add: n_def lp_ok_def)
  have ne: "\<not> (lp_base p = base \<and> lp_size p = sz)"
    using p n nn okp by (auto simp: lp_defs lp_ok_def)
  note w = lmb_table_write [OF t, of ?p] and nth = lmb_table_nth [OF t]
  have scan: "lmb_coalesce_scan (rgn_cnt rgn) base sz (region rgn) 0
      = Some (Some (length lo, (region rgn)[length lo := ?p], 1))"
    unfolding skip using adj ne nth w(1) by (subst lmb_coalesce_scan.simps) auto
  have okq: "regions_ok (lo @ ?p # hi)"
    using ok n okp p nn g hi
    by (intro regions_ok_replace [OF ok])
      (auto simp: regions_ok_def sorted_wrt_append lp_ok_def list_all_iff)
  from lmb_coalesce_next_spec [OF w(2) okq, of 1] obtain rgn' c' where
    "lmb_coalesce_next (rgn\<lparr>region := (region rgn)[length lo := ?p]\<rparr>) (length lo) 1 = Some (rgn', c')"
    "0 < c'" "lmb_wf rgn'" "covers rgn' = (\<Union>x \<in> set (lo @ ?p # hi). {lp_lo x..<lp_hi x})"
    by auto
  moreover have "{lp_lo ?p..<lp_hi ?p} = {lp_lo p..<lp_hi p} \<union> {unat base..<unat base + unat sz}"
    using g p nn okp n by (auto simp: lp_ok_def)
  ultimately show ?thesis
    using lmb_add_region_unfold [OF t ok] scan lmb_table_covers [OF t]
    by (auto simp: lmb_added_def)
qed

lemma lmb_add_region_down:
  fixes base sz :: u32
  defines "n \<equiv> \<lparr>lp_base = base, lp_size = sz\<rparr>"
  assumes t: "lmb_table rgn (lo @ p # hi)" and ok: "regions_ok (lo @ p # hi)" and n: "lp_ok n"
    and p: "lp_lo p = lp_hi n" and lo: "list_all (\<lambda>q. lp_hi q < lp_lo n) lo"
  shows "lmb_added rgn {unat base..<unat base + unat sz} (lmb_add_region rgn base sz)"
proof -
  let ?p = "p\<lparr>lp_base := lp_base p - sz, lp_size := lp_size p + sz\<rparr>"
  have okp: "lp_ok p" using ok by (simp add: regions_ok_def)
  have nn: "lp_lo n = unat base" "lp_hi n = unat base + unat sz" by (simp_all add: n_def lp_defs)
  note g = lp_grow_down [OF okp n [unfolded n_def] p [unfolded nn]]
  have "list_all (lmb_quiet base sz) lo"
    using ok lo nn
    by (auto simp: list_all_iff regions_ok_def sorted_wrt_append
        intro!: lmb_quiet_below [OF _ n [unfolded n_def]] simp flip: lp_hi_def)
  note skip = lmb_scan_skip [OF t this]
  have adj: "lmb_addrs_adjacent base sz (lp_base p) (lp_size p) = 1"
    using lmb_addrs_adjacent_nat [OF n okp] p by (simp add: n_def)
  have ne: "\<not> (lp_base p = base \<and> lp_size p = sz)"
    using p n nn okp by (auto simp: lp_defs lp_ok_def)
  note w = lmb_table_write [OF t, of ?p] and nth = lmb_table_nth [OF t]
  have scan: "lmb_coalesce_scan (rgn_cnt rgn) base sz (region rgn) 0
      = Some (Some (length lo, (region rgn)[length lo := ?p], 1))"
    unfolding skip using adj ne nth w(1) by (subst lmb_coalesce_scan.simps) auto
  have okq: "regions_ok (lo @ ?p # hi)"
    using ok n okp p nn g lo
    by (intro regions_ok_replace [OF ok])
      (auto simp: regions_ok_def sorted_wrt_append lp_ok_def list_all_iff less_imp_le)
  from lmb_coalesce_next_spec [OF w(2) okq, of 1] obtain rgn' c' where
    "lmb_coalesce_next (rgn\<lparr>region := (region rgn)[length lo := ?p]\<rparr>) (length lo) 1 = Some (rgn', c')"
    "0 < c'" "lmb_wf rgn'" "covers rgn' = (\<Union>x \<in> set (lo @ ?p # hi). {lp_lo x..<lp_hi x})"
    by auto
  moreover have "{lp_lo ?p..<lp_hi ?p} = {unat base..<unat base + unat sz} \<union> {lp_lo p..<lp_hi p}"
    using g p nn okp n by (auto simp: lp_ok_def)
  ultimately show ?thesis
    using lmb_add_region_unfold [OF t ok] scan lmb_table_covers [OF t]
    by (auto simp: lmb_added_def)
qed

lemma lmb_add_region_apart:
  fixes base sz :: u32
  defines "n \<equiv> \<lparr>lp_base = base, lp_size = sz\<rparr>"
  assumes t: "lmb_table rgn (lo @ hi)" and ok: "regions_ok (lo @ hi)" and ne: "lo @ hi \<noteq> []"
    and n: "lp_ok n" and lo: "list_all (\<lambda>q. lp_hi q < lp_lo n) lo"
    and hi: "list_all (\<lambda>q. lp_hi n < lp_lo q) hi"
  shows "lmb_added rgn {unat base..<unat base + unat sz} (lmb_add_region rgn base sz)"
proof -
  have nn: "lp_lo n = unat base" "lp_hi n = unat base + unat sz" by (simp_all add: n_def lp_defs)
  have "list_all (lmb_quiet base sz) (lo @ hi)"
    using ok lo hi nn
    by (auto simp: list_all_iff regions_ok_def
        intro!: lmb_quiet_below [OF _ n [unfolded n_def]] simp flip: lp_hi_def)
  from lmb_scan_skip [OF _ this, of rgn "[]"] t
  have skip: "lmb_coalesce_scan (rgn_cnt rgn) base sz (region rgn) 0
      = lmb_coalesce_scan (rgn_cnt rgn) base sz (region rgn) (length (lo @ hi))"
    by simp
  have cnt: "unat (rgn_cnt rgn) = length (lo @ hi)" using t by (simp only: lmb_table_def)
  then have scan: "lmb_coalesce_scan (rgn_cnt rgn) base sz (region rgn) 0
      = Some (Some (length (lo @ hi), region rgn, 0))"
    unfolding skip by (subst lmb_coalesce_scan.simps) simp
  have "rgn_cnt rgn \<noteq> 0" using cnt ne by (metis length_0_conv unsigned_0)
  then have "\<not> length (lo @ hi) < unat (rgn_cnt rgn - 1)"
    using cnt unat_minus_1 [of "rgn_cnt rgn"] by linarith
  then have nxt: "lmb_coalesce_next rgn (length (lo @ hi)) 0 = Some (rgn, 0)"
    unfolding lmb_coalesce_next_def by simp
  show ?thesis
  proof (cases "length (lo @ hi) < 8")
    case True
    have l: "list_all (\<lambda>p. \<not> base < lp_base p) lo"
      using lo nn by (auto simp: list_all_iff lp_defs word_less_nat_alt)
    have h: "list_all (\<lambda>p. base < lp_base p) hi"
      using hi nn by (auto simp: list_all_iff lp_defs word_less_nat_alt)
    from lmb_insert_spec [OF t True ne h l, of sz] obtain rgn' where
      r: "lmb_insert rgn base sz = Some rgn'" "lmb_table rgn' (lo @ n # hi)"
      by (auto simp: n_def)
    have "regions_ok (lo @ n # hi)"
      using ok n lo hi by (auto simp: regions_ok_def sorted_wrt_append list_all_iff less_imp_le)
    with r(2) have "lmb_wf rgn'" by (rule lmb_table_wf) simp
    then show ?thesis
      using lmb_add_region_unfold [OF t ok ne] scan nxt r(1) True cnt lmb_table_covers [OF t]
        lmb_table_covers [OF r(2)] nn
      by (auto simp: lmb_added_def MAX_LMB_REGIONS_def)
  next
    case False
    then have "length (lo @ hi) = 8" using t by (simp add: lmb_table_def)
    then show ?thesis
      using lmb_add_region_unfold [OF t ok ne] scan nxt cnt lmb_table_wf [OF t ok ne]
      by (simp add: lmb_added_def MAX_LMB_REGIONS_def)
  qed
qed

lemma lmb_add_region_fresh:
  assumes "lmb_wf rgn" "rgn_cnt rgn = 1" "lp_size (region rgn ! 0) = 0"
    and "lp_ok \<lparr>lp_base = base, lp_size = sz\<rparr>"
  shows "lmb_added rgn {unat base..<unat base + unat sz} (lmb_add_region rgn base sz)"
proof -
  obtain p rest where "region rgn = p # rest" "length rest = 8"
    using assms(1) by (cases "region rgn") (auto simp: lmb_wf_def MAX_LMB_REGIONS_def)
  with assms show ?thesis
    by (auto simp: lmb_added_def lmb_add_region_def lmb_wf_def MAX_LMB_REGIONS_def used_def
        covers_def regions_ok_def lp_defs)
qed

lemma lmb_disjoint_block:
  assumes "lp_ok p" "lp_ok n" "{lp_lo n..<lp_hi n} \<inter> {lp_lo p..<lp_hi p} = {}"
  shows "lp_hi n \<le> lp_lo p \<or> lp_hi p \<le> lp_lo n"
proof (rule ccontr)
  assume "\<not> ?thesis"
  then have "max (lp_lo n) (lp_lo p) \<in> {lp_lo n..<lp_hi n} \<inter> {lp_lo p..<lp_hi p}"
    using assms(1,2) by (auto simp: lp_ok_def)
  with assms(3) show False by blast
qed

lemma lmb_add_region_adds:
  assumes wf: "lmb_wf rgn" and n: "0 < unat sz" "unat base + unat sz < 2 ^ 32"
    and dis: "{unat base..<unat base + unat sz} \<inter> covers rgn = {}"
  shows "lmb_added rgn {unat base..<unat base + unat sz} (lmb_add_region rgn base sz)"
proof (cases "rgn_cnt rgn = 1 \<and> lp_size (region rgn ! 0) = 0")
  case True
  with wf n show ?thesis
    by (intro lmb_add_region_fresh) (simp_all add: lp_ok_def lp_defs)
next
  case False
  let ?n = "\<lparr>lp_base = base, lp_size = sz\<rparr>"
  have okn: "lp_ok ?n" using n by (simp add: lp_ok_def lp_defs)
  have nn: "lp_lo ?n = unat base" "lp_hi ?n = unat base + unat sz" by (simp_all add: lp_defs)
  have t: "lmb_table rgn (used rgn)" by (rule lmb_wf_table [OF wf])
  have ok: "regions_ok (used rgn)" and ne: "used rgn \<noteq> []"
    using wf False by (auto simp: lmb_wf_def used_def MAX_LMB_REGIONS_def)
  have "lp_hi ?n \<le> lp_lo p \<or> lp_hi p \<le> lp_lo ?n" if "p \<in> set (used rgn)" for p
  proof (rule lmb_disjoint_block)
    show "lp_ok p" using that ok by (simp add: regions_ok_def list_all_iff)
    show "{lp_lo ?n..<lp_hi ?n} \<inter> {lp_lo p..<lp_hi p} = {}"
      using that dis unfolding covers_def nn by blast
  qed (rule okn)
  then obtain lo hi where u: "used rgn = lo @ hi" and
    lo: "list_all (\<lambda>p. lp_hi p \<le> lp_lo ?n) lo" and hi: "list_all (\<lambda>p. lp_hi ?n \<le> lp_lo p) hi"
    using lmb_split [OF ok, of ?n] by (auto simp: list_all_iff)
  note t = t [unfolded u] and ok = ok [unfolded u]
  show ?thesis
  proof (cases "lo \<noteq> [] \<and> lp_hi (last lo) = lp_lo ?n")
    case True
    then obtain lo' p where "lo = lo' @ [p]" by (cases lo rule: rev_exhaust) auto
    with True t ok hi okn show ?thesis
      by (intro lmb_add_region_up [of rgn lo' p hi]) auto
  next
    case apart_lo: False
    have lo': "list_all (\<lambda>p. lp_hi p < lp_lo ?n) lo"
    proof (cases lo rule: rev_exhaust)
      case (snoc xs p)
      with apart_lo lo have "lp_hi p < lp_lo ?n" by auto
      moreover have "lp_hi x < lp_hi p" if "x \<in> set xs" for x
        using that ok snoc by (force simp: regions_ok_def sorted_wrt_append lp_ok_def)
      ultimately show ?thesis
        using snoc less_trans by (fastforce simp: list_all_iff)
    qed simp
    show ?thesis
    proof (cases "hi \<noteq> [] \<and> lp_lo (hd hi) = lp_hi ?n")
      case True
      then obtain q hi' where "hi = q # hi'" by (cases hi) auto
      with True t ok lo' okn show ?thesis
        by (intro lmb_add_region_down [of rgn lo q hi']) auto
    next
      case False
      have "list_all (\<lambda>p. lp_hi ?n < lp_lo p) hi"
      proof (cases hi)
        case (Cons q xs)
        with False hi have "lp_hi ?n < lp_lo q" by auto
        moreover have "lp_lo q < lp_lo x" if "x \<in> set xs" for x
          using that ok Cons by (force simp: regions_ok_def sorted_wrt_append lp_ok_def)
        ultimately show ?thesis
          using Cons less_trans by (fastforce simp: list_all_iff)
      qed simp
      with t ok ne u lo' okn show ?thesis
        by (intro lmb_add_region_apart [of rgn lo hi]) auto
    qed
  qed
qed

lemma lp_contains_nat:
  assumes "lp_ok p" "unat base + unat sz < 2 ^ 32"
  shows "lp_base p \<le> base \<and> base + sz \<le> lp_base p + lp_size p
    \<longleftrightarrow> lp_lo p \<le> unat base \<and> unat base + unat sz \<le> lp_hi p"
proof -
  have "unat (lp_base p + lp_size p) = lp_hi p" "unat (base + sz) = unat base + unat sz"
    using assms by (simp_all add: lp_ok_def lp_hi_def unat_plus_if')
  then show ?thesis by (simp add: lp_lo_def word_le_nat_alt)
qed

lemma used_nth: "k < unat (rgn_cnt rgn) \<Longrightarrow> used rgn ! k = region rgn ! k"
  by (simp add: used_def)

lemma lmb_free_scan_spec:
  assumes wf: "lmb_wf rgn" and n: "0 < unat sz" "unat base + unat sz < 2 ^ 32"
  shows "\<exists>j. lmb_free_scan (rgn_cnt rgn) base (base + sz) (region rgn) = Some j
     \<and> (if j = unat (rgn_cnt rgn)
        then \<forall>p \<in> set (used rgn). \<not> (lp_lo p \<le> unat base \<and> unat base + unat sz \<le> lp_hi p)
        else \<exists>xs p ys. used rgn = xs @ p # ys \<and> regions_ok (xs @ p # ys) \<and> j = length xs
          \<and> lp_lo p \<le> unat base \<and> unat base + unat sz \<le> lp_hi p)"
proof -
  let ?P = "\<lambda>p. lp_base p \<le> base \<and> base + sz \<le> lp_base p + lp_size p"
  have t: "lmb_table rgn (used rgn)" by (rule lmb_wf_table [OF wf])
  then have len: "unat (rgn_cnt rgn) \<le> length (region rgn)" "length (used rgn) = unat (rgn_cnt rgn)"
    by (simp_all add: lmb_table_def)
  have nat: "?P p \<longleftrightarrow> lp_lo p \<le> unat base \<and> unat base + unat sz \<le> lp_hi p"
    if "p \<in> set (used rgn)" for p
  proof (cases "regions_ok (used rgn)")
    case True
    with that n show ?thesis by (intro lp_contains_nat) (auto simp: regions_ok_def list_all_iff)
  next
    case False
    then have "p = region rgn ! 0" "lp_size (region rgn ! 0) = 0"
      using wf that by (auto simp: lmb_wf_def used_def MAX_LMB_REGIONS_def in_set_conv_nth)
    moreover have "base < base + sz" using n by (simp add: word_less_nat_alt unat_plus_if')
    ultimately show ?thesis using n by (auto simp: lp_defs)
  qed
  obtain j where j: "scan_first ?P (unat (rgn_cnt rgn)) (region rgn) 0 = Some j"
    using scan_first_total [OF len(1)] by blast
  note hit = scan_first_hit [OF this, simplified]
  show ?thesis
  proof (cases "j = unat (rgn_cnt rgn)")
    case True
    then have "\<forall>p \<in> set (used rgn). \<not> ?P p"
      using hit len(2) by (auto simp: in_set_conv_nth used_nth)
    with nat j True show ?thesis by (auto simp: lmb_free_scan_def)
  next
    case False
    then have jl: "j < unat (rgn_cnt rgn)" using hit by simp
    then have P: "?P (used rgn ! j)" using hit by (simp add: used_nth)
    have mem: "used rgn ! j \<in> set (used rgn)" using jl len(2) by simp
    have split: "used rgn = take j (used rgn) @ used rgn ! j # drop (Suc j) (used rgn)"
      "length (take j (used rgn)) = j"
      using jl len(2) by (simp_all add: id_take_nth_drop)
    have "regions_ok (used rgn)"
    proof (rule ccontr)
      assume "\<not> regions_ok (used rgn)"
      then have "used rgn ! j = region rgn ! 0" "lp_size (region rgn ! 0) = 0"
        using wf jl by (auto simp: lmb_wf_def used_def)
      then show False using P nat [OF mem] n by (auto simp: lp_defs)
    qed
    then have "\<exists>xs p ys. used rgn = xs @ p # ys \<and> regions_ok (xs @ p # ys) \<and> j = length xs
        \<and> lp_lo p \<le> unat base \<and> unat base + unat sz \<le> lp_hi p"
      using P nat [OF mem] split by metis
    with j False show ?thesis by (simp add: lmb_free_scan_def)
  qed
qed

text \<open>What freeing promises: the block leaves the table, or no region holds it, or the table is full.\<close>

definition lmb_freed :: "lmb_region \<Rightarrow> u32 \<Rightarrow> u32 \<Rightarrow> (int \<times> lmb_region) option \<Rightarrow> bool" where
  "lmb_freed rgn base sz res \<longleftrightarrow>
     (\<exists>r rgn'. res = Some (r, rgn') \<and> (lmb_wf rgn' \<or> rgn_cnt rgn' = 0) \<and>
       (if 0 \<le> r then covers rgn' = covers rgn - {unat base..<unat base + unat sz}
        else rgn' = rgn \<and> (\<forall>p \<in> set (used rgn). \<not> (lp_lo p \<le> unat base \<and> unat base + unat sz \<le> lp_hi p))
          \<or> unat (rgn_cnt rgn) = MAX_LMB_REGIONS))"

lemma covers_split:
  "regions_ok (xs @ p # ys) \<Longrightarrow> {lp_lo p..<lp_hi p} \<inter> {lp_lo x..<lp_hi x} = {}"
  if "x \<in> set (xs @ ys)"
  using that by (auto simp: regions_ok_def sorted_wrt_append)

lemma covers_replace:
  assumes t: "lmb_table rgn (xs @ p # ys)" and ok: "regions_ok (xs @ p # ys)"
    and t': "lmb_table rgn' (xs @ qs @ ys)" and B: "B \<subseteq> {lp_lo p..<lp_hi p}"
    and q: "(\<Union>x \<in> set qs. {lp_lo x..<lp_hi x}) = {lp_lo p..<lp_hi p} - B"
  shows "covers rgn' = covers rgn - B"
proof -
  have "x \<in> set (xs @ ys) \<Longrightarrow> {lp_lo x..<lp_hi x} - B = {lp_lo x..<lp_hi x}" for x
    using covers_split [OF _ ok, of x] B by auto
  then show ?thesis
    unfolding lmb_table_covers [OF t] lmb_table_covers [OF t'] using q by (simp add: Un_Diff) blast
qed

lemma lmb_free_region_whole:
  assumes t: "lmb_table rgn (xs @ p # ys)" and ok: "regions_ok (xs @ p # ys)"
  shows "\<exists>rgn'. lmb_remove_region rgn (length xs) = Some rgn' \<and> (lmb_wf rgn' \<or> rgn_cnt rgn' = 0)
     \<and> covers rgn' = covers rgn - {lp_lo p..<lp_hi p}"
proof -
  obtain rgn' where r: "lmb_remove_region rgn (length xs) = Some rgn'" "lmb_table rgn' (xs @ ys)"
    using lmb_table_remove [OF t] by blast
  have "covers rgn' = covers rgn - {lp_lo p..<lp_hi p}"
    by (rule covers_replace [OF t ok, of rgn' "[]"]) (use r(2) in simp_all)
  moreover have "lmb_wf rgn' \<or> rgn_cnt rgn' = 0"
  proof (cases "xs @ ys = []")
    case True
    with r(2) show ?thesis by (simp add: lmb_table_def unat_eq_zero)
  next
    case False
    with r(2) regions_ok_cut [OF ok] show ?thesis by (intro disjI1 lmb_table_wf)
  qed
  ultimately show ?thesis using r(1) by blast
qed

lemma lmb_free_region_shrink:
  assumes t: "lmb_table rgn (xs @ p # ys)" and ok: "regions_ok (xs @ p # ys)" and q: "lp_ok q"
    and sub: "lp_lo p \<le> lp_lo q" "lp_hi q \<le> lp_hi p"
    and B: "B \<subseteq> {lp_lo p..<lp_hi p}" "{lp_lo q..<lp_hi q} = {lp_lo p..<lp_hi p} - B"
  shows "\<exists>reg. wr (region rgn) (length xs) q = Some reg \<and> lmb_wf (rgn\<lparr>region := reg\<rparr>)
     \<and> covers (rgn\<lparr>region := reg\<rparr>) = covers rgn - B"
proof -
  note w = lmb_table_write [OF t, of q]
  have "regions_ok (xs @ q # ys)"
    using ok q sub by (intro regions_ok_replace [OF ok]) (auto simp: regions_ok_def sorted_wrt_append)
  with w(2) have "lmb_wf (rgn\<lparr>region := (region rgn)[length xs := q]\<rparr>)"
    by (rule lmb_table_wf) simp
  moreover have "covers (rgn\<lparr>region := (region rgn)[length xs := q]\<rparr>) = covers rgn - B"
    by (rule covers_replace [OF t ok, of _ "[q]"]) (use w(2) B in simp_all)
  ultimately show ?thesis using w(1) by blast
qed

text \<open>The four ways a block lies in the region that holds it.\<close>

lemma lmb_free_region_cases:
  assumes t: "lmb_table rgn (xs @ p # ys)" and ok: "regions_ok (xs @ p # ys)"
    and n: "0 < unat sz" "unat base + unat sz < 2 ^ 32"
    and lo: "lp_lo p \<le> unat base" and hi: "unat base + unat sz \<le> lp_hi p"
  shows "lmb_freed rgn base sz (
        if lp_lo p = unat base \<and> lp_hi p = unat base + unat sz
        then do { rgn \<leftarrow> lmb_remove_region rgn (length xs); Some (0, rgn) }
        else if lp_lo p = unat base
        then do {
          reg \<leftarrow> wr (region rgn) (length xs) (p\<lparr>lp_base := base + sz, lp_size := lp_size p - sz\<rparr>);
          Some (0, rgn\<lparr>region := reg\<rparr>)
        }
        else if lp_hi p = unat base + unat sz
        then do {
          reg \<leftarrow> wr (region rgn) (length xs) (p\<lparr>lp_size := lp_size p - sz\<rparr>);
          Some (0, rgn\<lparr>region := reg\<rparr>)
        }
        else do {
          reg \<leftarrow> wr (region rgn) (length xs) (p\<lparr>lp_size := base - lp_base p\<rparr>);
          lmb_add_region (rgn\<lparr>region := reg\<rparr>) (base + sz) (lp_base p + lp_size p - (base + sz))
        })"
proof -
  let ?B = "{unat base..<unat base + unat sz}"
  have okp: "lp_ok p" using ok by (simp add: regions_ok_def)
  have sub: "?B \<subseteq> {lp_lo p..<lp_hi p}" using lo hi by auto
  have e: "unat (lp_base p + lp_size p) = lp_hi p" "unat (base + sz) = unat base + unat sz"
    using okp n by (simp_all add: lp_ok_def lp_hi_def unat_plus_if')
  have d: "unat (lp_size p - sz) = unat (lp_size p) - unat sz"
    "unat (base - lp_base p) = unat base - lp_lo p"
    using lo hi by (simp_all add: unat_sub_if' lp_defs)
  note shrink = lmb_free_region_shrink [OF t ok _ _ _ sub]
  consider "lp_lo p = unat base" "lp_hi p = unat base + unat sz"
    | "lp_lo p = unat base" "lp_hi p \<noteq> unat base + unat sz"
    | "lp_lo p \<noteq> unat base" "lp_hi p = unat base + unat sz"
    | "lp_lo p \<noteq> unat base" "lp_hi p \<noteq> unat base + unat sz" by blast
  then show ?thesis
  proof cases
    case 1
    then show ?thesis
      using lmb_free_region_whole [OF t ok] by (auto simp: lmb_freed_def)
  next
    case 2
    with d e okp n hi have "\<exists>reg. wr (region rgn) (length xs)
        (p\<lparr>lp_base := base + sz, lp_size := lp_size p - sz\<rparr>) = Some reg
        \<and> lmb_wf (rgn\<lparr>region := reg\<rparr>) \<and> covers (rgn\<lparr>region := reg\<rparr>) = covers rgn - ?B"
      by (intro shrink) (auto simp: lp_ok_def lp_defs)
    with 2 show ?thesis by (auto simp: lmb_freed_def)
  next
    case 3
    with d e okp n lo hi have "\<exists>reg. wr (region rgn) (length xs)
        (p\<lparr>lp_size := lp_size p - sz\<rparr>) = Some reg
        \<and> lmb_wf (rgn\<lparr>region := reg\<rparr>) \<and> covers (rgn\<lparr>region := reg\<rparr>) = covers rgn - ?B"
      by (intro shrink) (auto simp: lp_ok_def lp_defs)
    with 3 show ?thesis by (auto simp: lmb_freed_def)
  next
    case 4
    let ?q = "p\<lparr>lp_size := base - lp_base p\<rparr>" and ?T = "{unat base..<lp_hi p}"
    have "\<exists>reg. wr (region rgn) (length xs) ?q = Some reg
        \<and> lmb_wf (rgn\<lparr>region := reg\<rparr>) \<and> covers (rgn\<lparr>region := reg\<rparr>) = covers rgn - ?T"
      using 4 d okp lo hi n
      by (intro lmb_free_region_shrink [OF t ok]) (auto simp: lp_ok_def lp_defs)
    then obtain reg where r: "wr (region rgn) (length xs) ?q = Some reg"
      "lmb_wf (rgn\<lparr>region := reg\<rparr>)" "covers (rgn\<lparr>region := reg\<rparr>) = covers rgn - ?T" by blast
    let ?N = "{unat base + unat sz..<lp_hi p}"
    have sz': "unat (lp_base p + lp_size p - (base + sz)) = lp_hi p - (unat base + unat sz)"
      using e hi by (simp add: unat_sub_if')
    have "lmb_added (rgn\<lparr>region := reg\<rparr>) {unat (base + sz)..<unat (base + sz)
        + unat (lp_base p + lp_size p - (base + sz))}
        (lmb_add_region (rgn\<lparr>region := reg\<rparr>) (base + sz) (lp_base p + lp_size p - (base + sz)))"
      using sz' e 4 hi okp r(3)
      by (intro lmb_add_region_adds [OF r(2)]) (auto simp: lp_ok_def)
    moreover have "{unat (base + sz)..<unat (base + sz)
        + unat (lp_base p + lp_size p - (base + sz))} = ?N"
      using sz' e hi by simp
    moreover have "covers rgn - ?T \<union> ?N = covers rgn - ?B"
    proof -
      have "?N \<subseteq> covers rgn" using lo by (auto simp: lmb_table_covers [OF t])
      then show ?thesis using hi by auto
    qed
    ultimately obtain r' rgn' where a: "lmb_add_region (rgn\<lparr>region := reg\<rparr>) (base + sz)
        (lp_base p + lp_size p - (base + sz)) = Some (r', rgn')" "lmb_wf rgn'"
      "r' < 0 \<longrightarrow> unat (rgn_cnt rgn) = MAX_LMB_REGIONS" "0 \<le> r' \<longrightarrow> covers rgn' = covers rgn - ?B"
      unfolding lmb_added_def r(3) by (auto split: if_splits)
    with 4 r(1) show ?thesis by (simp add: lmb_freed_def)
  qed
qed

lemma lmb_free_region_frees:
  assumes wf: "lmb_wf rgn" and n: "0 < unat sz" "unat base + unat sz < 2 ^ 32"
  shows "lmb_freed rgn base sz (lmb_free_region rgn base sz)"
proof -
  obtain j where j: "lmb_free_scan (rgn_cnt rgn) base (base + sz) (region rgn) = Some j" and
    sp: "if j = unat (rgn_cnt rgn)
        then \<forall>p \<in> set (used rgn). \<not> (lp_lo p \<le> unat base \<and> unat base + unat sz \<le> lp_hi p)
        else \<exists>xs p ys. used rgn = xs @ p # ys \<and> regions_ok (xs @ p # ys) \<and> j = length xs
          \<and> lp_lo p \<le> unat base \<and> unat base + unat sz \<le> lp_hi p"
    using lmb_free_scan_spec [OF assms] by blast
  show ?thesis
  proof (cases "j = unat (rgn_cnt rgn)")
    case True
    with j sp wf show ?thesis by (simp add: lmb_free_region_def lmb_freed_def)
  next
    case False
    with sp obtain xs p ys where u: "used rgn = xs @ p # ys" and ok: "regions_ok (xs @ p # ys)"
      and jx: "j = length xs" and lo: "lp_lo p \<le> unat base" and hi: "unat base + unat sz \<le> lp_hi p"
      by auto
    have t: "lmb_table rgn (xs @ p # ys)" using lmb_wf_table [OF wf] u by simp
    have okp: "lp_ok p" using ok by (simp add: regions_ok_def)
    have e: "unat (lp_base p + lp_size p) = lp_hi p" "unat (base + sz) = unat base + unat sz"
      using okp n by (simp_all add: lp_ok_def lp_hi_def unat_plus_if')
    have eqs: "lp_base p = base \<longleftrightarrow> lp_lo p = unat base"
      "lp_base p + lp_size p = base + sz \<longleftrightarrow> lp_hi p = unat base + unat sz"
      using e by (simp_all add: lp_lo_def word_unat_eq_iff)
    have unf: "lmb_free_region rgn base sz = (
        if lp_lo p = unat base \<and> lp_hi p = unat base + unat sz
        then do { rgn \<leftarrow> lmb_remove_region rgn (length xs); Some (0, rgn) }
        else if lp_lo p = unat base
        then do {
          reg \<leftarrow> wr (region rgn) (length xs) (p\<lparr>lp_base := base + sz, lp_size := lp_size p - sz\<rparr>);
          Some (0, rgn\<lparr>region := reg\<rparr>)
        }
        else if lp_hi p = unat base + unat sz
        then do {
          reg \<leftarrow> wr (region rgn) (length xs) (p\<lparr>lp_size := lp_size p - sz\<rparr>);
          Some (0, rgn\<lparr>region := reg\<rparr>)
        }
        else do {
          reg \<leftarrow> wr (region rgn) (length xs) (p\<lparr>lp_size := base - lp_base p\<rparr>);
          lmb_add_region (rgn\<lparr>region := reg\<rparr>) (base + sz) (lp_base p + lp_size p - (base + sz))
        })"
      using j False jx lmb_table_nth [OF t] by (simp add: lmb_free_region_def eqs Let_def)
    show ?thesis
      unfolding unf using lmb_free_region_cases [OF t ok n lo hi] .
  qed
qed

section \<open>Allocation\<close>

lemma lmb_align_down_le: "unat (lmb_align_down a align) \<le> unat a"
  unfolding lmb_align_down_def by (rule word_and_le2 [THEN word_le_nat_alt [THEN iffD1]])

lemma lmb_align_down_aligned: "lmb_align_down a align AND (align - 1) = 0"
  by (simp add: lmb_align_down_def and.assoc)

lemma lmb_align_up_aligned:
  assumes "sz AND (align - 1) = 0"
  shows "lmb_align_up sz align = sz"
proof -
  have "sz + (align - 1) = sz OR (align - 1)"
    using assms by (rule disjunctive_add_eq_or)
  then show ?thesis
    using assms unfolding lmb_align_up_def
    by (intro bit_word_eqI) (auto simp: bit_eq_iff bit_simps)
qed

lemma lmb_overlaps_region_none:
  assumes wf: "lmb_wf rgn" and e: "unat base + unat sz < 2 ^ 32"
    and r: "lmb_overlaps_region rgn base sz = Some j" "j < 0"
  shows "{unat base..<unat base + unat sz} \<inter> covers rgn = {}"
proof -
  have t: "lmb_table rgn (used rgn)" by (rule lmb_wf_table [OF wf])
  let ?P = "\<lambda>p. lmb_addrs_overlap base sz (lp_base p) (lp_size p)"
  from r obtain i where i: "scan_first ?P (unat (rgn_cnt rgn)) (region rgn) 0 = Some i"
    and ni: "\<not> i < unat (rgn_cnt rgn)"
    by (auto simp: lmb_overlaps_region_def lmb_overlap_scan_def bind_eq_Some_conv split: if_splits)
  have no: "\<not> ?P p" if "p \<in> set (used rgn)" for p
  proof -
    from that t obtain k where k: "k < unat (rgn_cnt rgn)" "p = used rgn ! k"
      by (auto simp: in_set_conv_nth lmb_table_def)
    then have "\<not> ?P (region rgn ! k)"
      using scan_first_hit [OF i] ni by (meson le0 less_le_trans not_less)
    then show ?thesis using k by (simp only: used_nth not_False_eq_True)
  qed
  have "{unat base..<unat base + unat sz} \<inter> {lp_lo p..<lp_hi p} = {}" if "p \<in> set (used rgn)" for p
  proof (cases "lp_ok p")
    case True
    then have "unat (lp_base p + lp_size p) = lp_hi p" "unat (base + sz) = unat base + unat sz"
      using e by (simp_all add: lp_ok_def lp_hi_def unat_plus_if')
    with no [OF that] have "\<not> (unat base < lp_hi p \<and> lp_lo p < unat base + unat sz)"
      unfolding lmb_addrs_overlap_def word_less_nat_alt lp_lo_def by simp
    then show ?thesis by auto
  next
    case False
    then have "\<not> regions_ok (used rgn)" using that by (auto simp: regions_ok_def list_all_iff)
    then have "p = region rgn ! 0" "lp_size (region rgn ! 0) = 0"
      using wf that by (auto simp: lmb_wf_def used_def MAX_LMB_REGIONS_def in_set_conv_nth)
    then show ?thesis by (simp add: lp_defs)
  qed
  then show ?thesis unfolding covers_def by blast
qed

text \<open>What the search in one memory region returns, if it returns a block.\<close>

lemma lmb_fit_spec:
  assumes "lmb_wf rgn" "0 < unat sz" "unat base + unat sz \<le> lim" "lim < 2 ^ 32"
    and "base AND (align - 1) = 0"
    and "lmb_fit rgn sz align lmbbase base = Some (Some (addr, rgn'))" "addr \<noteq> 0"
  shows "unat lmbbase \<le> unat addr \<and> unat addr + unat sz \<le> lim \<and> addr AND (align - 1) = 0
     \<and> {unat addr..<unat addr + unat sz} \<inter> covers rgn = {}
     \<and> (\<exists>r. lmb_add_region rgn addr (lmb_align_up sz align) = Some (r, rgn') \<and> 0 \<le> r)"
  using assms
proof (induction rgn sz align lmbbase base rule: lmb_fit.induct)
  case (1 rgn sz align lmbbase base)
  from "1.prems"(6) have c: "base \<noteq> 0 \<and> lmbbase \<le> base"
    by (subst (asm) lmb_fit.simps) (auto split: if_splits)
  with "1.prems"(6) obtain j where j: "lmb_overlaps_region rgn base sz = Some j"
    by (subst (asm) lmb_fit.simps) (auto split: option.splits)
  show ?case
  proof (cases "j < 0")
    case True
    with "1.prems"(6,7) c j obtain r where "lmb_add_region rgn base (lmb_align_up sz align) = Some (r, rgn')"
      "addr = base" "0 \<le> r"
      by (subst (asm) lmb_fit.simps) (auto split: option.splits if_splits)
    with True c "1.prems" lmb_overlaps_region_none [OF "1.prems"(1) _ j True] show ?thesis
      by (simp add: word_le_nat_alt)
  next
    case False
    with "1.prems"(6) c j obtain p where p: "rd (region rgn) (nat j) = Some p" "\<not> lp_base p < sz"
      and rec: "lmb_fit rgn sz align lmbbase (lmb_align_down (lp_base p - sz) align)
        = Some (Some (addr, rgn'))"
      by (subst (asm) lmb_fit.simps) (auto split: option.splits if_splits)
    from j False have "lmb_addrs_overlap base sz (lp_base p) (lp_size p)"
      using p(1) by (auto simp: lmb_overlaps_region_def bind_eq_Some_conv buf_simps split: if_splits
          dest!: lmb_overlap_scan_hit)
    from lmb_next_candidate [OF this p(2), of align]
    have "unat (lmb_align_down (lp_base p - sz) align) + unat sz \<le> lim"
      using "1.prems"(3) by simp
    from "1.IH" [OF c j False p(1,2) "1.prems"(1,2) this "1.prems"(4) lmb_align_down_aligned rec
        "1.prems"(7)] show ?thesis .
  qed
qed

text \<open>A block an allocator may hand out: inside one region of memory, aligned, free, below the limit.\<close>

definition lmb_block_ok :: "lmb \<Rightarrow> u32 \<Rightarrow> u32 \<Rightarrow> u32 \<Rightarrow> u32 \<Rightarrow> bool" where
  "lmb_block_ok l sz align max_addr addr \<longleftrightarrow>
     (\<exists>p \<in> set (used (memory l)). {unat addr..<unat addr + unat sz} \<subseteq> {lp_lo p..<lp_hi p})
     \<and> addr AND (align - 1) = 0
     \<and> (max_addr \<noteq> LMB_ALLOC_ANYWHERE \<longrightarrow> unat addr + unat sz \<le> unat max_addr)
     \<and> {unat addr..<unat addr + unat sz} \<inter> covers (reserved l) = {}"

lemma lmb_first_candidate:
  fixes align :: u32
  assumes p: "lp_ok p" "0 < unat sz" "\<not> lp_size p < sz"
    and lim: "max_addr = LMB_ALLOC_ANYWHERE \<or> lp_base p < max_addr \<and> sz \<le> max_addr"
  defines "base \<equiv> (if max_addr = LMB_ALLOC_ANYWHERE
                     then lmb_align_down (lp_base p + lp_size p - sz) align
                     else lmb_align_down (min (lp_base p + lp_size p) max_addr - sz) align)"
  shows "unat base + unat sz \<le> lp_hi p"
    "max_addr \<noteq> LMB_ALLOC_ANYWHERE \<longrightarrow> unat base + unat sz \<le> unat max_addr"
    "base AND (align - 1) = 0"
proof -
  have e: "unat (lp_base p + lp_size p) = lp_hi p"
    using p by (simp add: lp_ok_def lp_hi_def unat_plus_if')
  have s: "unat sz \<le> lp_hi p" using p(3) by (simp add: lp_hi_def word_less_nat_alt)
  then have d: "unat (lp_base p + lp_size p - sz) = lp_hi p - unat sz"
    using e by (simp add: unat_sub_if')
  have m: "unat (min (lp_base p + lp_size p) max_addr - sz) = min (lp_hi p) (unat max_addr) - unat sz"
    if "sz \<le> max_addr"
    using that e s by (auto simp: min_def unat_sub_if' word_le_nat_alt)
  show "unat base + unat sz \<le> lp_hi p"
    "max_addr \<noteq> LMB_ALLOC_ANYWHERE \<longrightarrow> unat base + unat sz \<le> unat max_addr"
    using lim s d m lmb_align_down_le [of "lp_base p + lp_size p - sz" align]
      lmb_align_down_le [of "min (lp_base p + lp_size p) max_addr - sz" align]
    unfolding base_def by (auto simp: word_le_nat_alt)
  show "base AND (align - 1) = 0"
    by (simp add: base_def lmb_align_down_aligned)
qed

lemma lmb_alloc_loop_spec:
  assumes "lmb_wf (reserved l)" "lmb_table (memory l) xs" "regions_ok xs" "0 < unat sz"
    and "max_addr = LMB_ALLOC_ANYWHERE \<or> sz \<le> max_addr" "k \<le> length xs"
    and "lmb_alloc_loop l sz align max_addr k = Some (addr, l')" "addr \<noteq> 0"
  shows "lmb_block_ok l sz align max_addr addr
     \<and> (\<exists>r rgn'. lmb_add_region (reserved l) addr (lmb_align_up sz align) = Some (r, rgn') \<and> 0 \<le> r
        \<and> l' = l\<lparr>reserved := rgn'\<rparr>)"
  using assms
proof (induction k)
  case (Suc k)
  let ?p = "region (memory l) ! k"
  have "rd (region (memory l)) k = Some ?p" and mem: "?p \<in> set xs"
    using Suc.prems(2,6) nth_take [of k "length xs" "region (memory l)"]
    by (auto simp: lmb_table_def in_set_conv_nth intro!: exI [of _ k])
  note unf = Suc.prems(7) [unfolded lmb_alloc_loop.simps this(1) Let_def bind.simps]
  show ?case
  proof (cases "lp_size ?p < sz \<or> max_addr \<noteq> LMB_ALLOC_ANYWHERE \<and> \<not> lp_base ?p < max_addr")
    case True
    with unf Suc show ?thesis by simp
  next
    case False
    define base where "base = (if max_addr = LMB_ALLOC_ANYWHERE
                     then lmb_align_down (lp_base ?p + lp_size ?p - sz) align
                     else lmb_align_down (min (lp_base ?p + lp_size ?p) max_addr - sz) align)"
    have okp: "lp_ok ?p" using Suc.prems(3) mem by (auto simp: regions_ok_def list_all_iff)
    have lim: "max_addr = LMB_ALLOC_ANYWHERE \<or> lp_base ?p < max_addr \<and> sz \<le> max_addr"
      using False Suc.prems(5) by blast
    have big: "\<not> lp_size ?p < sz" using False by blast
    note fc = lmb_first_candidate [OF okp Suc.prems(4) big lim, of align, folded base_def]
    from unf False obtain found where f: "lmb_fit (reserved l) sz align (lp_base ?p) base = Some found"
      and res: "(case found of None \<Rightarrow> lmb_alloc_loop l sz align max_addr k
          | Some (addr, r) \<Rightarrow> Some (addr, l\<lparr>reserved := r\<rparr>)) = Some (addr, l')"
      unfolding base_def by (auto simp: bind_eq_Some_conv)
    show ?thesis
    proof (cases found)
      case None
      with res Suc show ?thesis by simp
    next
      case (Some ar)
      then obtain rgn' where ar: "ar = (addr, rgn')" "l' = l\<lparr>reserved := rgn'\<rparr>"
        using res by (cases ar) auto
      define lim where "lim = (if max_addr = LMB_ALLOC_ANYWHERE then lp_hi ?p
        else min (lp_hi ?p) (unat max_addr))"
      have "unat base + unat sz \<le> lim" "lim < 2 ^ 32"
        using fc okp by (auto simp: lim_def lp_ok_def)
      from lmb_fit_spec [OF Suc.prems(1,4) this fc(3) f [unfolded Some ar(1)] Suc.prems(8)]
      have sp: "unat (lp_base ?p) \<le> unat addr" "unat addr + unat sz \<le> lim" "addr AND (align - 1) = 0"
        "{unat addr..<unat addr + unat sz} \<inter> covers (reserved l) = {}"
        "\<exists>r. lmb_add_region (reserved l) addr (lmb_align_up sz align) = Some (r, rgn') \<and> 0 \<le> r"
        by blast+
      have "lim \<le> lp_hi ?p" "max_addr \<noteq> LMB_ALLOC_ANYWHERE \<longrightarrow> lim \<le> unat max_addr"
        by (auto simp: lim_def)
      then have "lmb_block_ok l sz align max_addr addr"
        using sp(1-4) mem Suc.prems(2)
        unfolding lmb_block_ok_def
        by (auto simp: lmb_table_used lp_lo_def intro!: bexI [of _ ?p])
      with sp(5) ar(2) show ?thesis by blast
    qed
  qed
qed simp

section \<open>Properties\<close>

text \<open>
  C16: Reserving a block that is not reserved adds exactly its addresses to the table, keeps the
  table well formed and leaves the memory table alone; it fails only when all entries are taken,
  and then changes nothing.  Coalescing with the left and the right neighbour and the sorted
  insertion are covered.
\<close>

theorem lmb_reserve_adds:
  assumes "lmb_wf (reserved l)" "0 < unat sz" "unat base + unat sz < 2 ^ 32"
    and "{unat base..<unat base + unat sz} \<inter> covers (reserved l) = {}"
  shows "\<exists>r l'. lmb_reserve l base sz = Some (r, l') \<and> lmb_wf (reserved l') \<and> memory l' = memory l \<and>
    (if r < 0 then unat (rgn_cnt (reserved l)) = MAX_LMB_REGIONS \<and> l' = l
     else covers (reserved l') = covers (reserved l) \<union> {unat base..<unat base + unat sz})"
proof -
  obtain r rgn' where "lmb_add_region (reserved l) base sz = Some (r, rgn')" "lmb_wf rgn'"
    "if r < 0 then unat (rgn_cnt (reserved l)) = MAX_LMB_REGIONS \<and> rgn' = reserved l
     else covers rgn' = covers (reserved l) \<union> {unat base..<unat base + unat sz}"
    using lmb_add_region_adds [OF assms] unfolding lmb_added_def by blast
  then show ?thesis
    by (intro exI [of _ r] exI [of _ "l\<lparr>reserved := rgn'\<rparr>"]) (simp add: lmb_reserve_def)
qed

definition lmb_sample :: lmb where
  "lmb_sample =
     \<lparr>memory = \<lparr>rgn_cnt = 1, rgn_size = 0,
        region = \<lparr>lp_base = 0x30000000, lp_size = 0x4000000\<rparr> # replicate 8 \<lparr>lp_base = 0, lp_size = 0\<rparr>\<rparr>,
      reserved = \<lparr>rgn_cnt = 2, rgn_size = 0,
        region = \<lparr>lp_base = 0x30008000, lp_size = 0x1000\<rparr> # \<lparr>lp_base = 0x33F00000, lp_size = 0x100000\<rparr>
          # replicate 7 \<lparr>lp_base = 0, lp_size = 0\<rparr>\<rparr>\<rparr>"

lemma lmb_sample_wf: "lmb_wf (reserved lmb_sample)" "lmb_wf (memory lmb_sample)"
  "regions_ok (used (memory lmb_sample))" "regions_ok (used (reserved lmb_sample))"
  by (simp_all add: lmb_sample_def lmb_wf_def regions_ok_def used_def lp_ok_def lp_defs
      MAX_LMB_REGIONS_def take_Cons')

lemma lmb_sample_covers:
  "covers (reserved lmb_sample) = {0x30008000..<0x30009000} \<union> {0x33F00000..<0x34000000}"
  by (simp add: lmb_sample_def covers_def used_def lp_defs take_Cons')

theorem lmb_reserve_adds_witness:
  "\<exists>r l'. lmb_reserve lmb_sample 0x30009000 0x100 = Some (r, l') \<and> lmb_wf (reserved l')
    \<and> memory l' = memory lmb_sample \<and>
    (if r < 0 then unat (rgn_cnt (reserved lmb_sample)) = MAX_LMB_REGIONS \<and> l' = lmb_sample
     else covers (reserved l') = covers (reserved lmb_sample)
       \<union> {unat (0x30009000 :: u32)..<unat (0x30009000 :: u32) + unat (0x100 :: u32)})"
  by (rule lmb_reserve_adds) (auto simp add: lmb_sample_wf lmb_sample_covers)

text \<open>
  Freeing a block removes exactly its addresses from the reserved table, whether it is a whole
  region, its front, its end or a hole in the middle.  The call fails only when no region holds
  the block, and then changes nothing, or when a hole needs an entry and all are taken.
\<close>

theorem lmb_free_frees:
  assumes "lmb_wf (reserved l)" "0 < unat sz" "unat base + unat sz < 2 ^ 32"
  shows "\<exists>r l'. lmb_free l base sz = Some (r, l') \<and> memory l' = memory l
    \<and> (lmb_wf (reserved l') \<or> rgn_cnt (reserved l') = 0) \<and>
    (if 0 \<le> r then covers (reserved l') = covers (reserved l) - {unat base..<unat base + unat sz}
     else l' = l \<and> (\<forall>p \<in> set (used (reserved l)). \<not> (lp_lo p \<le> unat base \<and> unat base + unat sz \<le> lp_hi p))
       \<or> unat (rgn_cnt (reserved l)) = MAX_LMB_REGIONS)"
proof -
  obtain r rgn' where f: "lmb_free_region (reserved l) base sz = Some (r, rgn')"
    "lmb_wf rgn' \<or> rgn_cnt rgn' = 0"
    "if 0 \<le> r then covers rgn' = covers (reserved l) - {unat base..<unat base + unat sz}
     else rgn' = reserved l \<and> (\<forall>p \<in> set (used (reserved l)). \<not> (lp_lo p \<le> unat base \<and> unat base + unat sz \<le> lp_hi p))
       \<or> unat (rgn_cnt (reserved l)) = MAX_LMB_REGIONS"
    using lmb_free_region_frees [OF assms] unfolding lmb_freed_def by blast
  then have "lmb_free l base sz = Some (r, l\<lparr>reserved := rgn'\<rparr>)" by (simp add: lmb_free_def)
  moreover have "rgn' = reserved l \<Longrightarrow> l\<lparr>reserved := rgn'\<rparr> = l" by simp
  ultimately show ?thesis
    using f(2,3) by (intro exI [of _ r] exI [of _ "l\<lparr>reserved := rgn'\<rparr>"]) (auto split: if_splits)
qed

theorem lmb_free_frees_witness:
  "\<exists>r l'. lmb_free lmb_sample 0x30008100 0x100 = Some (r, l') \<and> memory l' = memory lmb_sample
    \<and> (lmb_wf (reserved l') \<or> rgn_cnt (reserved l') = 0) \<and>
    (if 0 \<le> r then covers (reserved l') = covers (reserved lmb_sample)
       - {unat (0x30008100 :: u32)..<unat (0x30008100 :: u32) + unat (0x100 :: u32)}
     else l' = lmb_sample \<and> (\<forall>p \<in> set (used (reserved lmb_sample)).
           \<not> (lp_lo p \<le> unat (0x30008100 :: u32) \<and> unat (0x30008100 :: u32) + unat (0x100 :: u32) \<le> lp_hi p))
       \<or> unat (rgn_cnt (reserved lmb_sample)) = MAX_LMB_REGIONS)"
  by (rule lmb_free_frees) (simp_all add: lmb_sample_wf)

text \<open>
  C4: A block the allocator returns lies in one region of memory, is aligned, ends below the limit,
  was free, and when the size is a multiple of the alignment is exactly what the reserved table
  gains.  The limit must be at least the size: with a smaller limit \<^verbatim>\<open>base - size\<close> wraps.
\<close>

theorem lmb_alloc_base_sound:
  assumes "lmb_wf (memory l)" "regions_ok (used (memory l))" "lmb_wf (reserved l)" "0 < unat sz"
    and "max_addr = LMB_ALLOC_ANYWHERE \<or> sz \<le> max_addr"
    and "lmb_alloc_base l sz align max_addr = Some (addr, l')" "addr \<noteq> 0"
  shows "lmb_block_ok l sz align max_addr addr \<and> memory l' = memory l \<and>
    (sz AND (align - 1) = 0 \<longrightarrow> lmb_wf (reserved l') \<and>
       covers (reserved l') = covers (reserved l) \<union> {unat addr..<unat addr + unat sz})"
proof -
  note t = lmb_wf_table [OF assms(1)]
  then have k: "unat (rgn_cnt (memory l)) \<le> length (used (memory l))" by (simp add: lmb_table_def)
  have "lmb_block_ok l sz align max_addr addr
     \<and> (\<exists>r rgn'. lmb_add_region (reserved l) addr (lmb_align_up sz align) = Some (r, rgn') \<and> 0 \<le> r
        \<and> l' = l\<lparr>reserved := rgn'\<rparr>)"
    using lmb_alloc_loop_spec [OF assms(3) t assms(2,4,5) k _ assms(7)] assms(6)
    by (simp add: lmb_alloc_base_def)
  then obtain r rgn' where b: "lmb_block_ok l sz align max_addr addr" and l': "l' = l\<lparr>reserved := rgn'\<rparr>"
    and r: "lmb_add_region (reserved l) addr (lmb_align_up sz align) = Some (r, rgn')" "0 \<le> r"
    by blast
  have "lmb_wf rgn' \<and> covers rgn' = covers (reserved l) \<union> {unat addr..<unat addr + unat sz}"
    if "sz AND (align - 1) = 0"
  proof -
    obtain p where "p \<in> set (used (memory l))" "{unat addr..<unat addr + unat sz} \<subseteq> {lp_lo p..<lp_hi p}"
      using b by (auto simp: lmb_block_ok_def)
    then have "unat addr + unat sz < 2 ^ 32"
      using assms(2,4) by (auto simp: regions_ok_def list_all_iff lp_ok_def subset_iff
          dest!: bspec spec [of _ "unat addr + unat sz - 1"])
    from lmb_add_region_adds [OF assms(3,4) this] b r that show ?thesis
      by (auto simp: lmb_block_ok_def lmb_added_def lmb_align_up_aligned)
  qed
  with b l' show ?thesis by simp
qed

text \<open>
  \<^verbatim>\<open>lmb_is_reserved\<close> decides membership in the set of reserved addresses.
\<close>

theorem lmb_is_reserved_iff:
  assumes "lmb_wf (reserved l)" "regions_ok (used (reserved l))"
  shows "lmb_is_reserved l addr = Some (unat addr \<in> covers (reserved l))"
proof -
  let ?r = "reserved l"
  let ?P = "\<lambda>p. addr \<ge> lp_base p \<and> addr \<le> lp_base p + lp_size p - 1"
  note t = lmb_wf_table [OF assms(1)]
  have P: "?P p \<longleftrightarrow> unat addr \<in> {lp_lo p..<lp_hi p}" if "p \<in> set (used ?r)" for p
  proof -
    have "lp_ok p" using that assms(2) by (auto simp: regions_ok_def list_all_iff)
    then have u: "unat (lp_base p + lp_size p) = lp_hi p" and pos: "0 < lp_hi p"
      by (auto simp add: lp_ok_def lp_hi_def unat_plus_if')
    then have "lp_base p + lp_size p \<noteq> 0" by auto
    then have "unat (lp_base p + lp_size p - 1) = lp_hi p - 1"
      using u unat_minus_1 by metis
    then show ?thesis using pos by (auto simp: word_le_nat_alt lp_lo_def)
  qed
  have len: "unat (rgn_cnt ?r) \<le> length (region ?r)" "length (used ?r) = unat (rgn_cnt ?r)"
    using t by (simp_all add: lmb_table_def)
  obtain j where j: "scan_first ?P (unat (rgn_cnt ?r)) (region ?r) 0 = Some j"
    using scan_first_total [OF len(1)] by blast
  note hit = scan_first_hit [OF j]
  have "j < unat (rgn_cnt ?r) \<longleftrightarrow> (\<exists>p \<in> set (used ?r). ?P p)"
  proof
    assume "j < unat (rgn_cnt ?r)"
    then show "\<exists>p \<in> set (used ?r). ?P p"
      using hit len(2) by (metis le0 nth_mem used_nth)
  next
    assume "\<exists>p \<in> set (used ?r). ?P p"
    then obtain k where k: "k < unat (rgn_cnt ?r)" "?P (region ?r ! k)"
      using len(2) by (metis in_set_conv_nth used_nth)
    then have "\<not> k < j" using hit by blast
    with k show "j < unat (rgn_cnt ?r)" by simp
  qed
  also have "\<dots> \<longleftrightarrow> unat addr \<in> covers ?r" using P by (auto simp: covers_def)
  finally show ?thesis using j by (simp add: lmb_is_reserved_def)
qed

theorem lmb_is_reserved_iff_witness:
  "lmb_is_reserved lmb_sample 0x30008010 = Some (unat (0x30008010 :: u32) \<in> covers (reserved lmb_sample))"
  by (rule lmb_is_reserved_iff) (simp_all add: lmb_sample_wf)

lemmas lmb_exec = lmb_init_def lmb_init_region_def lmb_reserve_def lmb_free_def lmb_add_region_def
  lmb_free_region_def lmb_free_scan_def lmb_coalesce_scan.simps lmb_remove_loop.simps
  scan_first.simps rd_def wr_def lmb_insert_def lmb_coalesce_next_def lmb_coalesce_regions_def
  lmb_regions_adjacent_def lmb_addrs_adjacent_def lmb_remove_region_def lmb_is_reserved_def
  MAX_LMB_REGIONS_def lmb_alloc_base_def lmb_fit.simps lmb_overlaps_region_def
  lmb_overlap_scan_def lmb_addrs_overlap_def lmb_align_up_def lmb_align_down_def
  LMB_ALLOC_ANYWHERE_def

theorem lmb_alloc_base_sound_witness:
  "\<exists>l' :: lmb. lmb_block_ok lmb_sample 0x10000 0x1000 0x33F00000 0x33EF0000 \<and> memory l' = memory lmb_sample
    \<and> ((0x10000 :: u32) AND (0x1000 - 1) = 0 \<longrightarrow> lmb_wf (reserved l') \<and>
       covers (reserved l') = covers (reserved lmb_sample)
         \<union> {unat (0x33EF0000 :: u32)..<unat (0x33EF0000 :: u32) + unat (0x10000 :: u32)})"
proof -
  have "map_option fst (lmb_alloc_base lmb_sample 0x10000 0x1000 0x33F00000) = Some 0x33EF0000"
    by (simp add: lmb_sample_def lmb_exec)
  then obtain l' where "lmb_alloc_base lmb_sample 0x10000 0x1000 0x33F00000 = Some (0x33EF0000, l')"
    by auto
  note a = this
  show ?thesis
    by (rule exI [of _ l'], rule lmb_alloc_base_sound [OF lmb_sample_wf(2,3,1) _ _ a])
      (simp_all add: LMB_ALLOC_ANYWHERE_def)
qed

definition lmb_reuse :: "lmb \<Rightarrow> u32 \<Rightarrow> u32 \<Rightarrow> u32 \<Rightarrow> u32 \<Rightarrow> lmb option" where
  "lmb_reuse l b1 s1 b2 s2 =
     do {
       (_, l) \<leftarrow> lmb_reserve l b1 s1;
       (_, l) \<leftarrow> lmb_free l b1 s1;
       (_, l) \<leftarrow> lmb_reserve l b2 s2;
       Some l
     }"

definition lmb_blank :: lmb where
  "lmb_blank = \<lparr>memory = \<lparr>rgn_cnt = 0, rgn_size = 0, region = replicate 9 \<lparr>lp_base = 0, lp_size = 0\<rparr>\<rparr>,
     reserved = \<lparr>rgn_cnt = 0, rgn_size = 0, region = replicate 9 \<lparr>lp_base = 0, lp_size = 0\<rparr>\<rparr>\<rparr>"

text \<open>
  The table does not survive being emptied.  After the only reserved block is freed the
  count is 0, and the next reservation above it re-enters the freed block and loses the new one:
  the address just reserved is not reserved, the freed one is.
\<close>

theorem lmb_reserve_after_last_free:
  "map_option (\<lambda>l. (lmb_is_reserved l 0x33F00000, lmb_is_reserved l 0x30008000))
     (lmb_init lmb_blank \<bind> (\<lambda>l. lmb_reuse l 0x30008000 0x1000 0x33F00000 0x100000))
   = Some (Some False, Some True)"
  by (simp add: lmb_blank_def lmb_reuse_def lmb_exec)

end
