(* ===== verification/BlockHash.thy ===== *)
theory BlockHash
  imports Prelude
begin

text \<open>
  What the block hashes share: the loop over 64-byte blocks, and the interface of a buffering
  context as a locale.  A client that updates a context piece by piece absorbs the concatenation
  of the pieces, however the message was cut.
\<close>

section \<open>The loop over whole blocks\<close>

text \<open>The state after all whole blocks of the input, and the bytes left over.\<close>

function hash_blocks :: "('s \<Rightarrow> u8 list \<Rightarrow> 's) \<Rightarrow> 's \<Rightarrow> u8 list \<Rightarrow> 's \<times> u8 list" where
  "hash_blocks f st input =
     (if 64 \<le> length input then hash_blocks f (f st (take 64 input)) (drop 64 input)
      else (st, input))"
  by pat_completeness auto
termination
  by (relation "measure (\<lambda>(f, st, input). length input)") auto

declare hash_blocks.simps [simp del]

lemma hash_blocks_short: "length xs < 64 \<Longrightarrow> hash_blocks f st xs = (st, xs)"
  by (simp add: hash_blocks.simps)

lemma hash_blocks_block: "length xs = 64 \<Longrightarrow> hash_blocks f st (xs @ ys) = hash_blocks f (f st xs) ys"
  by (subst hash_blocks.simps) simp

lemma hash_blocks_append:
  "hash_blocks f st (xs @ ys)
   = (case hash_blocks f st xs of (st', r) \<Rightarrow> hash_blocks f st' (r @ ys))"
proof (induction f st xs rule: hash_blocks.induct)
  case (1 f st xs)
  show ?case
  proof (cases "64 \<le> length xs")
    case True
    then have len: "length (take 64 xs) = 64" by simp
    have "hash_blocks f st (xs @ ys) = hash_blocks f st (take 64 xs @ (drop 64 xs @ ys))"
      by (simp flip: append_assoc)
    also have "\<dots> = hash_blocks f (f st (take 64 xs)) (drop 64 xs @ ys)"
      by (rule hash_blocks_block [OF len])
    finally show ?thesis
      using "1.IH" [OF True] True by (simp add: hash_blocks.simps [of f st xs])
  next
    case False
    then show ?thesis by (simp add: hash_blocks_short)
  qed
qed

lemma hash_blocks_rest: "length (snd (hash_blocks f st xs)) = length xs mod 64"
proof (induction f st xs rule: hash_blocks.induct)
  case (1 f st xs)
  then show ?case
    by (subst hash_blocks.simps) (auto simp: le_mod_geq)
qed

section \<open>Buffers, counts and pieces\<close>

text \<open>\<^verbatim>\<open>memcpy\<close> into the buffer; a copy past its end would make the list longer.\<close>

definition copy_at :: "u8 list \<Rightarrow> nat \<Rightarrow> u8 list \<Rightarrow> u8 list" where
  "copy_at buf off src = take off buf @ src @ drop (off + length src) buf"

lemma unat_and_63: "unat ((x :: u32) AND 0x3F) = unat x mod 64"
proof -
  have "(0x3F :: u32) = mask 6" by (simp add: mask_eq_exp_minus_1)
  then have "x AND 0x3F = take_bit 6 x" by (simp only: take_bit_eq_mask)
  then have "unat (x AND 0x3F) = take_bit 6 (unat x)"
    by (simp only: unsigned_take_bit_eq)
  then show ?thesis by (simp add: take_bit_eq_mod)
qed

lemma copy_at_length: "off + length src \<le> length buf \<Longrightarrow> length (copy_at buf off src) = length buf"
  by (simp add: copy_at_def)

lemma take_copy_at:
  "off + length src \<le> length buf \<Longrightarrow> take (off + length src) (copy_at buf off src) = take off buf @ src"
  by (simp add: copy_at_def)

text \<open>The pieces the watchdog loop feeds.\<close>

fun chunks_of :: "nat \<Rightarrow> nat \<Rightarrow> 'a list \<Rightarrow> 'a list list" where
  "chunks_of n 0 xs = []"
| "chunks_of n (Suc k) xs = (if xs = [] then [] else take n xs # chunks_of n k (drop n xs))"

lemma concat_chunks_of: "0 < n \<Longrightarrow> length xs \<le> k \<Longrightarrow> concat (chunks_of n k xs) = xs"
  by (induction k arbitrary: xs) (auto simp: le_diff_conv)

lemma chunks_of_length: "ys \<in> set (chunks_of n k xs) \<Longrightarrow> length ys \<le> length xs"
proof (induction k arbitrary: xs)
  case (Suc k)
  then show ?case
    using Suc.IH [of "drop n xs"] by (auto split: if_splits)
qed simp

lemma ucast_drop_of_nat:
  "k \<le> 24 \<Longrightarrow> (ucast (drop_bit k (of_nat m :: u32)) :: u8) = of_nat (m div 2 ^ k)"
  unfolding drop_bit_eq_div [symmetric]
  by (rule bit_word_eqI) (simp add: bit_simps)

section \<open>The interface of a buffering context\<close>

text \<open>
  \<open>count\<close> is the number of bytes absorbed, modulo \<open>2 ^ 61\<close>: what survives in the 64-bit count of
  bits that ends the padding.
\<close>

locale block_hash =
  fixes compress :: "'s \<Rightarrow> u8 list \<Rightarrow> 's"
    and update :: "'c \<Rightarrow> u8 list \<Rightarrow> 'c"
    and state :: "'c \<Rightarrow> 's"
    and pending :: "'c \<Rightarrow> u8 list"
    and count :: "'c \<Rightarrow> nat"
    and ok :: "'c \<Rightarrow> bool"
  assumes update_ok: "ok c \<Longrightarrow> length xs < 2 ^ 31 \<Longrightarrow> ok (update c xs)"
    and update_count: "ok c \<Longrightarrow> length xs < 2 ^ 31 \<Longrightarrow>
      count (update c xs) = (count c + length xs) mod 2 ^ 61"
    and update_absorbs: "ok c \<Longrightarrow> length xs < 2 ^ 31 \<Longrightarrow>
      (state (update c xs), pending (update c xs)) = hash_blocks compress (state c) (pending c @ xs)"
begin

lemma update_pieces:
  assumes "ok c" "\<forall>xs \<in> set pieces. length xs < 2 ^ 31"
  shows "ok (foldl update c pieces)
    \<and> count (foldl update c pieces) mod 2 ^ 61 = (count c + length (concat pieces)) mod 2 ^ 61
    \<and> (length (pending c) < 64 \<longrightarrow>
         (state (foldl update c pieces), pending (foldl update c pieces))
         = hash_blocks compress (state c) (pending c @ concat pieces))"
  using assms
proof (induction pieces arbitrary: c)
  case Nil
  then show ?case by (simp add: hash_blocks_short)
next
  case (Cons xs pieces)
  then have xs: "length xs < 2 ^ 31" by simp
  let ?c = "update c xs"
  note u = update_ok [OF Cons.prems(1) xs] update_count [OF Cons.prems(1) xs]
    update_absorbs [OF Cons.prems(1) xs]
  have short: "length (pending ?c) < 64"
    using arg_cong [OF u(3), of "\<lambda>p. length (snd p)"] by (simp add: hash_blocks_rest)
  have "(count ?c + length (concat pieces)) mod 2 ^ 61
      = (count c + length (concat (xs # pieces))) mod 2 ^ 61"
    using u(2) by (simp add: mod_simps add.assoc)
  moreover have "hash_blocks compress (state ?c) (pending ?c @ concat pieces)
      = hash_blocks compress (state c) (pending c @ concat (xs # pieces))"
    using hash_blocks_append [of compress "state c" "pending c @ xs" "concat pieces"]
    by (simp flip: u(3))
  ultimately show ?case
    using Cons.IH [OF u(1)] Cons.prems(2) short by simp
qed

end

end
