(* ===== verification/Sha.thy ===== *)
theory Sha
  imports BlockHash
begin

text \<open>
  The message digests of \<^verbatim>\<open>lib_generic/sha1.c\<close> and \<^verbatim>\<open>lib_generic/sha256.c\<close>.  The compression
  functions are translated round by round; the two C contexts have the same shape and the same
  buffering code, so they share one record and one update, with the compression function as
  parameter.  The theorems are that feeding a message in any pieces gives the digest of the padded
  message, for every message shorter than \<open>2 ^ 61\<close> bytes, and what \<^verbatim>\<open>sha1_csum_wd\<close> and
  \<^verbatim>\<open>sha1_hmac\<close> compute.
\<close>

section \<open>Bytes and words, big endian\<close>

definition GET_UINT32_BE :: "u8 list \<Rightarrow> nat \<Rightarrow> u32" where
  "GET_UINT32_BE b i =
     push_bit 24 (ucast (b ! i)) OR push_bit 16 (ucast (b ! (i + 1)))
     OR push_bit 8 (ucast (b ! (i + 2))) OR ucast (b ! (i + 3))"

definition PUT_UINT32_BE :: "u32 \<Rightarrow> u8 list" where
  "PUT_UINT32_BE n = [ucast (drop_bit 24 n), ucast (drop_bit 16 n), ucast (drop_bit 8 n), ucast n]"

section \<open>SHA-256 compression\<close>

definition SHR :: "u32 \<Rightarrow> nat \<Rightarrow> u32" where
  "SHR x n = drop_bit n (x AND 0xFFFFFFFF)"

definition ROTR :: "u32 \<Rightarrow> nat \<Rightarrow> u32" where
  "ROTR x n = SHR x n OR push_bit (32 - n) x"

definition S0 :: "u32 \<Rightarrow> u32" where "S0 x = ROTR x 7 XOR ROTR x 18 XOR SHR x 3"
definition S1 :: "u32 \<Rightarrow> u32" where "S1 x = ROTR x 17 XOR ROTR x 19 XOR SHR x 10"
definition S2 :: "u32 \<Rightarrow> u32" where "S2 x = ROTR x 2 XOR ROTR x 13 XOR ROTR x 22"
definition S3 :: "u32 \<Rightarrow> u32" where "S3 x = ROTR x 6 XOR ROTR x 11 XOR ROTR x 25"

definition sha256_F0 :: "u32 \<Rightarrow> u32 \<Rightarrow> u32 \<Rightarrow> u32" where
  "sha256_F0 x y z = (x AND y) OR (z AND (x OR y))"

definition sha256_F1 :: "u32 \<Rightarrow> u32 \<Rightarrow> u32 \<Rightarrow> u32" where
  "sha256_F1 x y z = z XOR (x AND (y XOR z))"

text \<open>\<^verbatim>\<open>R(t)\<close> stores the next word of the schedule and returns it.\<close>

definition sha256_R :: "u32 list \<Rightarrow> nat \<Rightarrow> u32 \<times> u32 list" where
  "sha256_R W t =
     (let w = S1 (W ! (t - 2)) + W ! (t - 7) + S0 (W ! (t - 15)) + W ! (t - 16)
      in (w, W[t := w]))"

type_synonym sha256_regs = "u32 \<times> u32 \<times> u32 \<times> u32 \<times> u32 \<times> u32 \<times> u32 \<times> u32"

text \<open>
  The macro \<^verbatim>\<open>P\<close> updates \<^verbatim>\<open>d\<close> and \<^verbatim>\<open>h\<close>; each use names the registers shifted by one, so the result
  is given in the order of the next use.  After 64 uses the names are back in place.
\<close>

fun sha256_P :: "sha256_regs \<Rightarrow> u32 \<Rightarrow> u32 \<Rightarrow> sha256_regs" where
  "sha256_P (a, b, c, d, e, f, g, h) x K =
     (let temp1 = h + S3 e + sha256_F1 e f g + K + x;
          temp2 = S2 a + sha256_F0 a b c
      in (temp1 + temp2, a, b, c, d + temp1, e, f, g))"

definition sha256_K :: "u32 list" where
  "sha256_K =
    [0x428A2F98, 0x71374491, 0xB5C0FBCF, 0xE9B5DBA5, 0x3956C25B, 0x59F111F1,
     0x923F82A4, 0xAB1C5ED5, 0xD807AA98, 0x12835B01, 0x243185BE, 0x550C7DC3,
     0x72BE5D74, 0x80DEB1FE, 0x9BDC06A7, 0xC19BF174, 0xE49B69C1, 0xEFBE4786,
     0x0FC19DC6, 0x240CA1CC, 0x2DE92C6F, 0x4A7484AA, 0x5CB0A9DC, 0x76F988DA,
     0x983E5152, 0xA831C66D, 0xB00327C8, 0xBF597FC7, 0xC6E00BF3, 0xD5A79147,
     0x06CA6351, 0x14292967, 0x27B70A85, 0x2E1B2138, 0x4D2C6DFC, 0x53380D13,
     0x650A7354, 0x766A0ABB, 0x81C2C92E, 0x92722C85, 0xA2BFE8A1, 0xA81A664B,
     0xC24B8B70, 0xC76C51A3, 0xD192E819, 0xD6990624, 0xF40E3585, 0x106AA070,
     0x19A4C116, 0x1E376C08, 0x2748774C, 0x34B0BCB5, 0x391C0CB3, 0x4ED8AA4A,
     0x5B9CCA4F, 0x682E6FF3, 0x748F82EE, 0x78A5636F, 0x84C87814, 0x8CC70208,
     0x90BEFFFA, 0xA4506CEB, 0xBEF9A3F7, 0xC67178F2]"

definition sha256_step :: "sha256_regs \<times> u32 list \<Rightarrow> nat \<Rightarrow> sha256_regs \<times> u32 list" where
  "sha256_step rW t =
     (case rW of (r, W) \<Rightarrow>
        (let (x, W) = (if t < 16 then (W ! t, W) else sha256_R W t)
         in (sha256_P r x (sha256_K ! t), W)))"

definition sha256_process :: "u32 list \<Rightarrow> u8 list \<Rightarrow> u32 list" where
  "sha256_process st data =
     (let W = map (\<lambda>i. GET_UINT32_BE data (4 * i)) [0..<16] @ replicate 48 0;
          ((a, b, c, d, e, f, g, h), W) =
            foldl sha256_step
              ((st ! 0, st ! 1, st ! 2, st ! 3, st ! 4, st ! 5, st ! 6, st ! 7), W) [0..<64]
      in [st ! 0 + a, st ! 1 + b, st ! 2 + c, st ! 3 + d, st ! 4 + e, st ! 5 + f, st ! 6 + g,
          st ! 7 + h])"

section \<open>SHA-1 compression\<close>

definition sha1_S :: "u32 \<Rightarrow> nat \<Rightarrow> u32" where
  "sha1_S x n = push_bit n x OR drop_bit (32 - n) (x AND 0xFFFFFFFF)"

text \<open>The schedule is a ring of 16 words; \<^verbatim>\<open>R(t)\<close> overwrites the oldest.\<close>

definition sha1_R :: "u32 list \<Rightarrow> nat \<Rightarrow> u32 \<times> u32 list" where
  "sha1_R W t =
     (let temp = W ! ((t - 3) mod 16) XOR W ! ((t - 8) mod 16) XOR W ! ((t - 14) mod 16)
                 XOR W ! (t mod 16);
          w = sha1_S temp 1
      in (w, W[t mod 16 := w]))"

definition sha1_F :: "nat \<Rightarrow> u32 \<Rightarrow> u32 \<Rightarrow> u32 \<Rightarrow> u32" where
  "sha1_F t x y z =
     (if t < 20 then z XOR (x AND (y XOR z))
      else if t < 40 then x XOR y XOR z
      else if t < 60 then (x AND y) OR (z AND (x OR y))
      else x XOR y XOR z)"

definition sha1_K :: "nat \<Rightarrow> u32" where
  "sha1_K t =
     (if t < 20 then 0x5A827999 else if t < 40 then 0x6ED9EBA1
      else if t < 60 then 0x8F1BBCDC else 0xCA62C1D6)"

type_synonym sha1_regs = "u32 \<times> u32 \<times> u32 \<times> u32 \<times> u32"

text \<open>The macro \<^verbatim>\<open>P\<close> updates \<^verbatim>\<open>e\<close> and \<^verbatim>\<open>b\<close>; the result is in the order of the next use.\<close>

fun sha1_P :: "sha1_regs \<Rightarrow> nat \<Rightarrow> u32 \<Rightarrow> sha1_regs" where
  "sha1_P (a, b, c, d, e) t x =
     (e + (sha1_S a 5 + sha1_F t b c d + sha1_K t + x), a, sha1_S b 30, c, d)"

definition sha1_step :: "sha1_regs \<times> u32 list \<Rightarrow> nat \<Rightarrow> sha1_regs \<times> u32 list" where
  "sha1_step rW t =
     (case rW of (r, W) \<Rightarrow>
        (let (x, W) = (if t < 16 then (W ! t, W) else sha1_R W t)
         in (sha1_P r t x, W)))"

definition sha1_process :: "u32 list \<Rightarrow> u8 list \<Rightarrow> u32 list" where
  "sha1_process st data =
     (let W = map (\<lambda>i. GET_UINT32_BE data (4 * i)) [0..<16];
          ((a, b, c, d, e), W) =
            foldl sha1_step ((st ! 0, st ! 1, st ! 2, st ! 3, st ! 4), W) [0..<80]
      in [st ! 0 + a, st ! 1 + b, st ! 2 + c, st ! 3 + d, st ! 4 + e])"

section \<open>The contexts\<close>

record sha_context =
  total0 :: u32
  total1 :: u32
  sha_state :: "u32 list"
  sha_buffer :: "u8 list"

type_synonym compression = "u32 list \<Rightarrow> u8 list \<Rightarrow> u32 list"

text \<open>The buffer of a fresh context is whatever the stack held.\<close>

definition sha256_starts :: "u8 list \<Rightarrow> sha_context" where
  "sha256_starts stack =
     \<lparr>total0 = 0, total1 = 0,
      sha_state = [0x6A09E667, 0xBB67AE85, 0x3C6EF372, 0xA54FF53A,
                   0x510E527F, 0x9B05688C, 0x1F83D9AB, 0x5BE0CD19],
      sha_buffer = stack\<rparr>"

definition sha1_starts :: "u8 list \<Rightarrow> sha_context" where
  "sha1_starts stack =
     \<lparr>total0 = 0, total1 = 0,
      sha_state = [0x67452301, 0xEFCDAB89, 0x98BADCFE, 0x10325476, 0xC3D2E1F0],
      sha_buffer = stack\<rparr>"

definition sha_update :: "compression \<Rightarrow> sha_context \<Rightarrow> u8 list \<Rightarrow> sha_context" where
  "sha_update f ctx input =
     (if input = [] then ctx
      else let len = of_nat (length input);
               left = unat (total0 ctx AND 0x3F);
               fill = 64 - left;
               t0 = total0 ctx + len;
               ctx = ctx\<lparr>total0 := t0,
                         total1 := (if t0 < len then total1 ctx + 1 else total1 ctx)\<rparr>;
               (ctx, left, input) =
                 (if left \<noteq> 0 \<and> fill \<le> length input
                  then (let buf = copy_at (sha_buffer ctx) left (take fill input)
                        in (ctx\<lparr>sha_buffer := buf, sha_state := f (sha_state ctx) buf\<rparr>, 0,
                            drop fill input))
                  else (ctx, left, input));
               (st, input) = hash_blocks f (sha_state ctx) input;
               ctx = ctx\<lparr>sha_state := st\<rparr>
           in if input \<noteq> [] then ctx\<lparr>sha_buffer := copy_at (sha_buffer ctx) left input\<rparr> else ctx)"

definition sha1_update :: "sha_context \<Rightarrow> u8 list \<Rightarrow> sha_context" where
  "sha1_update = sha_update sha1_process"

definition sha256_update :: "sha_context \<Rightarrow> u8 list \<Rightarrow> sha_context" where
  "sha256_update = sha_update sha256_process"

definition sha_padding :: "u8 list" where
  "sha_padding = 0x80 # replicate 63 0"

definition sha_msglen :: "sha_context \<Rightarrow> u8 list" where
  "sha_msglen ctx =
     (let high = drop_bit 29 (total0 ctx) OR push_bit 3 (total1 ctx);
          low = push_bit 3 (total0 ctx)
      in PUT_UINT32_BE high @ PUT_UINT32_BE low)"

definition sha_pad :: "compression \<Rightarrow> sha_context \<Rightarrow> sha_context" where
  "sha_pad f ctx =
     (let msglen = sha_msglen ctx;
          last = unat (total0 ctx AND 0x3F);
          padn = (if last < 56 then 56 - last else 120 - last)
      in sha_update f (sha_update f ctx (take padn sha_padding)) msglen)"

definition sha1_finish :: "sha_context \<Rightarrow> u8 list" where
  "sha1_finish ctx = concat (map PUT_UINT32_BE (sha_state (sha_pad sha1_process ctx)))"

definition sha256_finish :: "sha_context \<Rightarrow> u8 list" where
  "sha256_finish ctx = concat (map PUT_UINT32_BE (sha_state (sha_pad sha256_process ctx)))"

section \<open>SHA-1 of a buffer\<close>

definition sha1_csum :: "u8 list \<Rightarrow> u8 list \<Rightarrow> u8 list" where
  "sha1_csum stack input = sha1_finish (sha1_update (sha1_starts stack) input)"

partial_function (option) sha1_wd_loop :: "sha_context \<Rightarrow> u8 list \<Rightarrow> nat \<Rightarrow> sha_context option" where
  "sha1_wd_loop ctx input chunk_sz =
     (if input = [] then Some ctx
      else let chunk = (if length input > chunk_sz then chunk_sz else length input)
           in sha1_wd_loop (sha1_update ctx (take chunk input)) (drop chunk input) chunk_sz)"

definition sha1_csum_wd :: "u8 list \<Rightarrow> u8 list \<Rightarrow> nat \<Rightarrow> u8 list option" where
  "sha1_csum_wd stack input chunk_sz =
     map_option sha1_finish (sha1_wd_loop (sha1_starts stack) input chunk_sz)"

fun sha1_xor_key :: "u8 list \<Rightarrow> u8 list \<Rightarrow> nat \<Rightarrow> u8 list" where
  "sha1_xor_key pad [] i = pad"
| "sha1_xor_key pad (k # key) i =
     (if 64 \<le> i then pad else sha1_xor_key (pad[i := pad ! i XOR k]) key (i + 1))"

definition sha1_hmac :: "u8 list \<Rightarrow> u8 list \<Rightarrow> u8 list \<Rightarrow> u8 list" where
  "sha1_hmac stack key input =
     (let k_ipad = sha1_xor_key (replicate 64 0x36) key 0;
          k_opad = sha1_xor_key (replicate 64 0x5C) key 0;
          ctx = sha1_update (sha1_update (sha1_starts stack) k_ipad) input;
          tmpbuf = sha1_finish ctx;
          ctx = sha1_update (sha1_update (sha1_starts (sha_buffer (sha_pad sha1_process ctx))) k_opad) tmpbuf
      in sha1_finish ctx)"

section \<open>Absorbing\<close>

definition sha_ok :: "sha_context \<Rightarrow> bool" where
  "sha_ok c \<longleftrightarrow> length (sha_buffer c) = 64"

definition sha_pending :: "sha_context \<Rightarrow> u8 list" where
  "sha_pending c = take (unat (total0 c AND 0x3F)) (sha_buffer c)"

definition sha_count :: "sha_context \<Rightarrow> nat" where
  "sha_count c = (unat (total1 c) * 2 ^ 32 + unat (total0 c)) mod 2 ^ 61"

lemma unat_add_and_63:
  "unat (((t :: u32) + of_nat n) AND 0x3F) = (unat (t AND 0x3F) + n) mod 64"
proof -
  have "unat (t + of_nat n) mod 64 = (unat t + n) mod 2 ^ 32 mod 64"
    by (simp add: unat_word_ariths unat_of_nat mod_simps)
  also have "\<dots> = (unat t + n) mod 64"
    by (simp add: mod_mod_cancel)
  finally show ?thesis by (simp add: unat_and_63 mod_simps)
qed

lemma sha_update_absorbs:
  assumes ok: "sha_ok c" and len: "length xs < 2 ^ 31"
  shows "sha_ok (sha_update f c xs)
    \<and> (sha_state (sha_update f c xs), sha_pending (sha_update f c xs))
      = hash_blocks f (sha_state c) (sha_pending c @ xs)"
proof (cases "xs = []")
  case True
  have "length (sha_pending c) < 64"
    by (simp add: sha_pending_def unat_and_63 min.strict_coboundedI2)
  with True ok show ?thesis by (simp add: sha_update_def hash_blocks_short)
next
  case False
  define left where "left = unat (total0 c AND 0x3F)"
  define fill where "fill = 64 - left"
  have l: "left < 64" by (simp add: left_def unat_and_63)
  have b: "length (sha_buffer c) = 64" using ok by (simp add: sha_ok_def)
  have p: "sha_pending c = take left (sha_buffer c)" by (simp add: sha_pending_def left_def)
  define t0 where "t0 = total0 c + of_nat (length xs)"
  define t1 where "t1 = (if t0 < of_nat (length xs) then total1 c + 1 else total1 c)"
  have t0l: "unat (t0 AND 0x3F) = (left + length xs) mod 64"
    unfolding t0_def left_def by (rule unat_add_and_63)
  consider (fill) "left \<noteq> 0" "fill \<le> length xs" | (zero) "left = 0"
    | (short) "left \<noteq> 0" "length xs < fill" by linarith
  then show ?thesis
  proof cases
    case fill
    define buf where "buf = copy_at (sha_buffer c) left (take fill xs)"
    obtain st r where h: "hash_blocks f (f (sha_state c) buf) (drop fill xs) = (st, r)"
      by (rule prod.exhaust)
    have lbuf: "length buf = 64" and buf: "buf = sha_pending c @ take fill xs"
      using fill l b by (simp_all add: buf_def copy_at_def fill_def p)
    have blocks: "hash_blocks f (sha_state c) (sha_pending c @ xs) = (st, r)"
      using hash_blocks_block [OF lbuf, of f "sha_state c" "drop fill xs"] h buf by simp
    have lr: "length r = (left + length xs) mod 64"
      using hash_blocks_rest [of f "sha_state c" "sha_pending c @ xs"] blocks p b l by simp
    have "sha_update f c xs = c\<lparr>total0 := t0, total1 := t1, sha_state := st,
        sha_buffer := if r \<noteq> [] then copy_at buf 0 r else buf\<rparr>"
      using False fill h
      by (simp add: sha_update_def Let_def flip: t0_def t1_def left_def fill_def buf_def)
    then show ?thesis
      using blocks lr lbuf t0l take_copy_at [of 0 r buf] copy_at_length [of 0 r buf]
      by (cases "r = []") (simp_all add: sha_ok_def sha_pending_def)
  next
    case zero
    obtain st r where h: "hash_blocks f (sha_state c) xs = (st, r)" by (rule prod.exhaust)
    have lr: "length r = length xs mod 64"
      using hash_blocks_rest [of f "sha_state c" xs] h by simp
    have "sha_update f c xs = c\<lparr>total0 := t0, total1 := t1, sha_state := st,
        sha_buffer := if r \<noteq> [] then copy_at (sha_buffer c) 0 r else sha_buffer c\<rparr>"
      using False zero h
      by (simp add: sha_update_def Let_def flip: t0_def t1_def left_def fill_def)
    moreover have "hash_blocks f (sha_state c) (sha_pending c @ xs) = (st, r)"
      using h zero p by simp
    ultimately show ?thesis
      using lr b t0l zero take_copy_at [of 0 r "sha_buffer c"] copy_at_length [of 0 r "sha_buffer c"]
      by (cases "r = []") (simp_all add: sha_ok_def sha_pending_def [of "c\<lparr>total0 := _\<rparr>"]
          sha_pending_def [of "_\<lparr>sha_state := _\<rparr>"] sha_pending_def [of "_\<lparr>sha_buffer := _\<rparr>"])
  next
    case short
    then have s: "length xs < 64" "left + length xs < 64" using l by (simp_all add: fill_def)
    have "sha_update f c xs = c\<lparr>total0 := t0, total1 := t1, sha_state := sha_state c,
        sha_buffer := copy_at (sha_buffer c) left xs\<rparr>"
      using False short s
      by (simp add: sha_update_def Let_def hash_blocks_short flip: t0_def t1_def left_def fill_def)
    moreover have "hash_blocks f (sha_state c) (sha_pending c @ xs) = (sha_state c, sha_pending c @ xs)"
      using s b p by (simp add: hash_blocks_short)
    ultimately show ?thesis
      using s b t0l p take_copy_at [of left xs "sha_buffer c"] copy_at_length [of left xs "sha_buffer c"]
      by (simp add: sha_ok_def sha_pending_def)
  qed
qed

lemma sha_total_add:
  assumes "n < 2 ^ 32"
  shows "(unat (if (t0 :: u32) + of_nat n < of_nat n then t1 + 1 else (t1 :: u32)) * 2 ^ 32
      + unat (t0 + of_nat n)) mod 2 ^ 61
    = (unat t1 * 2 ^ 32 + unat t0 + n) mod 2 ^ 61"
proof -
  have u: "unat (t0 + of_nat n) = (unat t0 + n) mod 2 ^ 32"
    by (simp add: unat_word_ariths unat_of_nat mod_simps)
  have un: "unat (of_nat n :: u32) = n" using assms by simp
  show ?thesis
  proof (cases "unat t0 + n < 2 ^ 32")
    case True
    then have "\<not> t0 + of_nat n < of_nat n" using u un by (simp add: word_less_nat_alt)
    then show ?thesis using u True by (simp add: add.assoc)
  next
    case False
    have tl: "unat t0 < 2 ^ 32" by (rule less_le_trans [OF unat_u32_less]) simp
    from tl assms have s: "unat t0 + n < 2 * 2 ^ 32" by linarith
    then have m: "unat (t0 + of_nat n) = unat t0 + n - 2 ^ 32"
      using u False by (simp add: le_mod_geq)
    then have lt: "t0 + of_nat n < of_nat n"
      unfolding word_less_nat_alt un m using tl False by linarith
    have "(unat (t1 + 1) * 2 ^ 32) mod 2 ^ 61 = ((unat t1 + 1) mod 2 ^ 32 * 2 ^ 32) mod 2 ^ 61"
      by (simp add: unat_word_ariths)
    also have "\<dots> = ((unat t1 + 1) mod 2 ^ 32 mod 2 ^ 29) * 2 ^ 32"
      by (simp add: mult_mod_left)
    also have "\<dots> = ((unat t1 + 1) mod 2 ^ 29) * 2 ^ 32"
      by (simp add: mod_mod_cancel)
    also have "\<dots> = ((unat t1 + 1) * 2 ^ 32) mod 2 ^ 61"
      by (simp add: mult_mod_left)
    finally have "(unat (t1 + 1) * 2 ^ 32 + (unat t0 + n - 2 ^ 32)) mod 2 ^ 61
        = ((unat t1 + 1) * 2 ^ 32 + (unat t0 + n - 2 ^ 32)) mod 2 ^ 61"
      by (rule mod_add_cong) simp
    moreover have "(unat t1 + 1) * 2 ^ 32 + (unat t0 + n - 2 ^ 32) = unat t1 * 2 ^ 32 + unat t0 + n"
      using False by simp
    ultimately show ?thesis using lt m by (simp add: add.assoc)
  qed
qed

lemma sha_update_totals:
  "xs \<noteq> [] \<Longrightarrow> total0 (sha_update f c xs) = total0 c + of_nat (length xs)
    \<and> total1 (sha_update f c xs)
      = (if total0 c + of_nat (length xs) < of_nat (length xs) then total1 c + 1 else total1 c)"
  by (simp add: sha_update_def Let_def split: prod.split)

lemma sha_update_count:
  "length xs < 2 ^ 31 \<Longrightarrow> sha_count (sha_update f c xs) = (sha_count c + length xs) mod 2 ^ 61"
proof (cases "xs = []")
  case True
  then show ?thesis by (simp add: sha_update_def sha_count_def)
next
  case False
  assume "length xs < 2 ^ 31"
  then show ?thesis
    using sha_total_add [of "length xs" "total0 c" "total1 c"] sha_update_totals [OF False, of f c]
    by (simp add: sha_count_def mod_simps)
qed

interpretation sha1: block_hash sha1_process sha1_update sha_state sha_pending sha_count sha_ok
  by unfold_locales (simp_all add: sha1_update_def sha_update_absorbs sha_update_count)

interpretation sha256: block_hash sha256_process sha256_update sha_state sha_pending sha_count sha_ok
  by unfold_locales (simp_all add: sha256_update_def sha_update_absorbs sha_update_count)

section \<open>Padding\<close>

text \<open>
  The padding of the standard: a one bit, zeros up to 8 bytes short of a block, and the length in
  bits as 8 bytes, most significant first.
\<close>

definition sha_padded :: "u8 list \<Rightarrow> u8 list" where
  "sha_padded msg =
     msg @ 0x80 # replicate ((119 - length msg mod 64) mod 64) 0
       @ map (\<lambda>i. of_nat (8 * length msg div 2 ^ (56 - 8 * i))) [0..<8]"

definition sha_digest :: "compression \<Rightarrow> u32 list \<Rightarrow> u8 list \<Rightarrow> u8 list" where
  "sha_digest f iv msg = concat (map PUT_UINT32_BE (fst (hash_blocks f iv (sha_padded msg))))"

lemma PUT_of_nat:
  "PUT_UINT32_BE (of_nat m) = [of_nat (m div 2 ^ 24), of_nat (m div 2 ^ 16), of_nat (m div 2 ^ 8), of_nat m]"
  using ucast_drop_of_nat [of 24 m] ucast_drop_of_nat [of 16 m] ucast_drop_of_nat [of 8 m]
    ucast_drop_of_nat [of 0 m]
  by (simp add: PUT_UINT32_BE_def)

lemma sha_msglen_high:
  fixes t0 t1 :: u32
  assumes "n mod 2 ^ 61 = (unat t1 * 2 ^ 32 + unat t0) mod 2 ^ 61"
  shows "drop_bit 29 t0 OR push_bit 3 t1 = (of_nat (8 * n div 2 ^ 32) :: u32)"
    and "push_bit 3 t0 = (of_nat (8 * n) :: u32)"
proof -
  let ?N = "unat t1 * 2 ^ 32 + unat t0"
  have m64: "(8 * n) mod 2 ^ 64 = (8 * ?N) mod 2 ^ 64"
  proof -
    have "(8 * n) mod 2 ^ 64 = 8 * (n mod 2 ^ 61)" by (simp add: mult_mod_right)
    also have "\<dots> = (8 * ?N) mod 2 ^ 64" unfolding assms by (simp add: mult_mod_right)
    finally show ?thesis .
  qed
  have "drop_bit 29 t0 AND push_bit 3 t1 = 0"
    by (rule bit_word_eqI) (auto simp: bit_simps)
  then have "drop_bit 29 t0 OR push_bit 3 t1 = drop_bit 29 t0 + push_bit 3 t1"
    by (rule disjunctive_add_eq_or [symmetric])
  also have "\<dots> = of_nat (8 * unat t1 + unat t0 div 2 ^ 29)"
  proof -
    have "unat (drop_bit 29 t0) = unat t0 div 2 ^ 29"
      by (simp only: unat_drop_bit_eq) (simp only: drop_bit_eq_div)
    from arg_cong [OF this, of "of_nat :: nat \<Rightarrow> u32"]
    have "drop_bit 29 t0 = of_nat (unat t0 div 2 ^ 29)"
      by (simp only: of_nat_unat ucast_id)
    then show ?thesis by (simp add: push_bit_eq_mult)
  qed
  also have "8 * unat t1 + unat t0 div 2 ^ 29 = (8 * ?N) div 2 ^ 32"
    by simp
  also have "(of_nat ((8 * ?N) div 2 ^ 32) :: u32) = of_nat ((8 * n) div 2 ^ 32)"
  proof -
    have split: "a div 2 ^ 32 mod 2 ^ 32 = (a mod 2 ^ 64) div 2 ^ 32" for a :: nat
      by (simp add: mod_mult2_eq [of a "2 ^ 32" "2 ^ 32", simplified])
    have "take_bit 32 ((8 * ?N) div 2 ^ 32) = take_bit 32 ((8 * n) div 2 ^ 32)"
      by (simp only: take_bit_eq_mod split m64)
    then show ?thesis by (simp only: word_of_nat_eq_iff) simp
  qed
  finally show "drop_bit 29 t0 OR push_bit 3 t1 = (of_nat (8 * n div 2 ^ 32) :: u32)" .
  have "(8 * n) mod 2 ^ 32 = (8 * n) mod 2 ^ 64 mod 2 ^ 32" by (simp add: mod_mod_cancel)
  also have "\<dots> = (8 * ?N) mod 2 ^ 32" unfolding m64 by (simp add: mod_mod_cancel)
  also have "8 * ?N = 8 * unat t0 + (8 * unat t1) * 2 ^ 32" by simp
  also have "\<dots> mod 2 ^ 32 = (8 * unat t0) mod 2 ^ 32" by (rule mod_mult_self1)
  finally have "(of_nat (8 * n) :: u32) = of_nat (8 * unat t0)"
    by (simp only: word_of_nat_eq_iff take_bit_eq_mod) simp
  then show "push_bit 3 t0 = (of_nat (8 * n) :: u32)"
    by (simp add: push_bit_eq_mult)
qed

lemma sha_msglen_eq:
  assumes "sha_count c = n mod 2 ^ 61"
  shows "sha_msglen c = map (\<lambda>i. of_nat (8 * n div 2 ^ (56 - 8 * i))) [0..<8]"
proof -
  note h = sha_msglen_high [OF assms [unfolded sha_count_def, symmetric]]
  show ?thesis
    by (simp add: sha_msglen_def h PUT_of_nat upt_rec div_mult2_eq [symmetric]
        del: of_nat_mult)
qed

lemma sha_padded_pad:
  assumes "lst = length msg mod 64"
  shows "sha_padded msg = msg @ take (if lst < 56 then 56 - lst else 120 - lst) sha_padding
    @ map (\<lambda>i. of_nat (8 * length msg div 2 ^ (56 - 8 * i))) [0..<8]"
proof -
  have l: "lst < 64" using assms by simp
  have "(119 - lst) mod 64 = (if lst < 56 then 55 - lst else 119 - lst)"
  proof (cases "lst < 56")
    case True
    then have "119 - lst = 64 + (55 - lst)" by simp
    then have "(119 - lst) mod 64 = (55 - lst) mod 64" by (simp only: mod_add_self1)
    with True show ?thesis by simp
  next
    case False
    with l show ?thesis by simp
  qed
  then have "take (if lst < 56 then 56 - lst else 120 - lst) sha_padding
      = 0x80 # replicate ((119 - lst) mod 64) 0"
    using l by (auto simp: sha_padding_def take_Cons' Suc_diff_le)
  then show ?thesis by (simp add: sha_padded_def assms)
qed

lemma sha_pad_state:
  assumes ok: "sha_ok c" and cnt: "sha_count c = length msg mod 2 ^ 61"
    and abs: "(sha_state c, sha_pending c) = hash_blocks f iv msg"
  shows "sha_state (sha_pad f c) = fst (hash_blocks f iv (sha_padded msg))"
proof -
  define lst where "lst = unat (total0 c AND 0x3F)"
  define pad where "pad = take (if lst < 56 then 56 - lst else 120 - lst) sha_padding"
  define len where "len = (map (\<lambda>i. of_nat (8 * length msg div 2 ^ (56 - 8 * i))) [0..<8] :: u8 list)"
  have "lst = sha_count c mod 64"
    by (simp add: lst_def sha_count_def unat_and_63 mod_mod_cancel mod_simps)
      (simp add: mod_add_eq [symmetric])
  then have lst: "lst = length msg mod 64"
    by (simp add: cnt mod_mod_cancel)
  have lp: "length pad < 2 ^ 31" by (simp add: pad_def sha_padding_def min.strict_coboundedI2)
  have ll: "length len < 2 ^ 31" by (simp add: len_def)
  note u1 = sha_update_absorbs [OF ok lp, of f]
  note u2 = sha_update_absorbs [OF conjunct1 [OF u1] ll, of f]
  have "sha_state (sha_update f (sha_update f c pad) len)
      = fst (hash_blocks f (sha_state c) (sha_pending c @ pad @ len))"
    using u1 u2 hash_blocks_append [of f "sha_state c" "sha_pending c @ pad" len]
    by (metis (no_types, lifting) append.assoc case_prod_conv fst_conv)
  also have "\<dots> = fst (hash_blocks f iv (msg @ pad @ len))"
    using hash_blocks_append [of f iv msg "pad @ len"] by (simp flip: abs)
  finally show ?thesis
    by (simp add: sha_pad_def Let_def sha_msglen_eq [OF cnt] sha_padded_pad [OF lst]
        flip: lst_def pad_def len_def)
qed

lemma sha_pad_ok: "sha_ok c \<Longrightarrow> sha_ok (sha_pad f c)"
  by (simp add: sha_pad_def Let_def sha_update_absorbs sha_padding_def sha_msglen_def
      PUT_UINT32_BE_def min.strict_coboundedI2)

lemma sha_starts_ok:
  "length stack = 64 \<Longrightarrow> sha_ok (sha1_starts stack) \<and> sha_pending (sha1_starts stack) = []
     \<and> sha_count (sha1_starts stack) = 0"
  "length stack = 64 \<Longrightarrow> sha_ok (sha256_starts stack) \<and> sha_pending (sha256_starts stack) = []
     \<and> sha_count (sha256_starts stack) = 0"
  by (simp_all add: sha_ok_def sha_pending_def sha_count_def sha1_starts_def sha256_starts_def)

section \<open>Properties\<close>

text \<open>
  C29: SHA-256 over a message fed in any pieces is the digest of the padded message: the buffering,
  the byte count with its carry, and the padding in \<^verbatim>\<open>sha256_finish\<close> agree with the standard's
  padding (the length taken modulo \<open>2 ^ 64\<close> bits), whatever the stack held.
\<close>

theorem sha256_of_pieces:
  assumes "length stack = 64" "\<forall>xs \<in> set pieces. length xs < 2 ^ 31"
  shows "sha256_finish (foldl sha256_update (sha256_starts stack) pieces)
    = sha_digest sha256_process (sha_state (sha256_starts stack)) (concat pieces)"
proof -
  let ?c = "sha256_starts stack"
  note st = sha_starts_ok(2) [OF assms(1)]
  note u = sha256.update_pieces [OF conjunct1 [OF st] assms(2)]
  have "sha_count (foldl sha256_update ?c pieces) = length (concat pieces) mod 2 ^ 61"
    using u st by (simp add: sha_count_def)
  from sha_pad_state [OF conjunct1 [OF u] this] u st show ?thesis
    by (simp add: sha256_finish_def sha_digest_def)
qed

theorem sha256_of_pieces_witness:
  "sha256_finish (foldl sha256_update (sha256_starts (replicate 64 0)) [[0x61], [0x62, 0x63]])
    = sha_digest sha256_process (sha_state (sha256_starts (replicate 64 0))) (concat [[0x61], [0x62, 0x63]])"
  by (rule sha256_of_pieces) simp_all

lemma sha1_of_pieces:
  assumes "length stack = 64" "\<forall>xs \<in> set pieces. length xs < 2 ^ 31"
  shows "sha1_finish (foldl sha1_update (sha1_starts stack) pieces)
    = sha_digest sha1_process (sha_state (sha1_starts stack)) (concat pieces)"
    and "length (sha_buffer (foldl sha1_update (sha1_starts stack) pieces)) = 64"
proof -
  let ?c = "sha1_starts stack"
  note st = sha_starts_ok(1) [OF assms(1)]
  note u = sha1.update_pieces [OF conjunct1 [OF st] assms(2)]
  have "sha_count (foldl sha1_update ?c pieces) = length (concat pieces) mod 2 ^ 61"
    using u st by (simp add: sha_count_def)
  from sha_pad_state [OF conjunct1 [OF u] this] u st
  show "sha1_finish (foldl sha1_update ?c pieces)
    = sha_digest sha1_process (sha_state ?c) (concat pieces)"
    by (simp add: sha1_finish_def sha_digest_def)
  show "length (sha_buffer (foldl sha1_update ?c pieces)) = 64"
    using u by (simp add: sha_ok_def)
qed

definition sha1_hash :: "u8 list \<Rightarrow> u8 list" where
  "sha1_hash = sha_digest sha1_process [0x67452301, 0xEFCDAB89, 0x98BADCFE, 0x10325476, 0xC3D2E1F0]"

lemma sha1_starts_state: "sha_digest sha1_process (sha_state (sha1_starts stack)) = sha1_hash"
  by (simp add: sha1_hash_def sha1_starts_def)

lemma sha1_wd_loop_chunks:
  "0 < n \<Longrightarrow> length xs \<le> k \<Longrightarrow>
     sha1_wd_loop c xs n = Some (foldl sha1_update c (chunks_of n k xs))"
proof (induction k arbitrary: c xs)
  case 0
  then show ?case by (simp add: sha1_wd_loop.simps)
next
  case (Suc k)
  show ?case
  proof (cases "xs = []")
    case True
    then show ?thesis by (simp add: sha1_wd_loop.simps)
  next
    case False
    have chunk: "take (if length xs > n then n else length xs) xs = take n xs"
      "drop (if length xs > n then n else length xs) xs = drop n xs" by simp_all
    have "length (drop n xs) \<le> k" using Suc.prems False by (simp add: le_diff_conv)
    from Suc.IH [OF Suc.prems(1) this] False show ?thesis
      by (subst sha1_wd_loop.simps) (simp add: Let_def chunk del: if_splits)
  qed
qed

text \<open>
  The watchdog variant of SHA-1 ends for every positive chunk size and returns the digest of
  the whole buffer, as does the plain variant.
\<close>

theorem sha1_csum_wd_eq:
  assumes "length stack = 64" "length input < 2 ^ 31" "0 < chunk_sz"
  shows "sha1_csum_wd stack input chunk_sz = Some (sha1_hash input)
    \<and> sha1_csum stack input = sha1_hash input"
proof -
  let ?p = "chunks_of chunk_sz (length input) input"
  have "\<forall>xs \<in> set ?p. length xs < 2 ^ 31"
    using assms(2) chunks_of_length le_less_trans by blast
  from sha1_of_pieces [OF assms(1) this] sha1_of_pieces [OF assms(1), of "[input]"]
  show ?thesis
    using assms sha1_wd_loop_chunks [OF assms(3) order_refl]
    by (simp add: sha1_csum_wd_def sha1_csum_def concat_chunks_of sha1_starts_state)
qed

theorem sha1_csum_wd_eq_witness:
  "sha1_csum_wd (replicate 64 0) [0x61, 0x62, 0x63] 2 = Some (sha1_hash [0x61, 0x62, 0x63])
    \<and> sha1_csum (replicate 64 0) [0x61, 0x62, 0x63] = sha1_hash [0x61, 0x62, 0x63]"
  by (rule sha1_csum_wd_eq) simp_all

lemma sha1_xor_key_eq:
  "i + length (take (length pad - i) key) \<le> length pad \<Longrightarrow> length pad = 64 \<Longrightarrow> i \<le> 64 \<Longrightarrow>
     sha1_xor_key pad key i = take i pad @ map2 (XOR) (take (length (take (64 - i) key)) (drop i pad)) (take (64 - i) key)
        @ drop (i + length (take (64 - i) key)) pad"
proof (induction key arbitrary: pad i)
  case (Cons k key)
  show ?case
  proof (cases "i = 64")
    case False
    then have i: "i < 64" using Cons.prems by simp
    let ?pad = "pad[i := pad ! i XOR k]"
    have "sha1_xor_key pad (k # key) i = sha1_xor_key ?pad key (i + 1)" using i by simp
    also have "\<dots> = take (i + 1) ?pad
        @ map2 (XOR) (take (length (take (64 - (i + 1)) key)) (drop (i + 1) ?pad)) (take (64 - (i + 1)) key)
        @ drop (i + 1 + length (take (64 - (i + 1)) key)) ?pad"
      by (rule Cons.IH) (use Cons.prems i in simp_all)
    also have "take (i + 1) ?pad = take i pad @ [pad ! i XOR k]"
      using i Cons.prems(2) by (simp add: take_Suc_conv_app_nth)
    finally show ?thesis
      using i Cons.prems(2) by (simp add: Suc_diff_Suc [symmetric] Cons_nth_drop_Suc [symmetric])
  qed simp
qed simp

lemma hash_blocks_length5:
  "length st = 5 \<Longrightarrow> length (fst (hash_blocks sha1_process st xs)) = 5"
proof (induction "length xs" arbitrary: xs st rule: less_induct)
  case less
  show ?case
  proof (cases "64 \<le> length xs")
    case True
    moreover have "length (sha1_process st (take 64 xs)) = 5"
      by (simp add: sha1_process_def Let_def split: prod.split)
    ultimately show ?thesis
      by (subst hash_blocks.simps) (simp add: less)
  next
    case False
    with less show ?thesis by (simp add: hash_blocks_short)
  qed
qed

lemma sha1_hash_length: "length (sha1_hash msg) = 20"
proof -
  have "length (concat (map PUT_UINT32_BE ws)) = 4 * length ws" for ws
    by (induction ws) (simp_all add: PUT_UINT32_BE_def)
  then show ?thesis by (simp add: sha1_hash_def sha_digest_def hash_blocks_length5)
qed

definition hmac_key :: "u8 list \<Rightarrow> u8 list" where
  "hmac_key key = take 64 key @ replicate (64 - length key) 0"

lemma sha1_xor_key_pad:
  "sha1_xor_key (replicate 64 v) key 0 = map (\<lambda>k. v XOR k) (hmac_key key)"
proof -
  define ks where "ks = take 64 key"
  have l: "length ks \<le> 64" by (simp add: ks_def)
  have "map2 (XOR) (replicate (length ks) v) ks = map (\<lambda>k. v XOR k) ks"
    by (induction ks) simp_all
  moreover have "take (length ks) (replicate 64 v) = replicate (length ks) v"
    "drop (length ks) (replicate 64 v) = replicate (64 - length ks) v"
    using l by (simp_all add: min_absorb2)
  moreover have "sha1_xor_key (replicate 64 v) key 0
      = map2 (XOR) (take (length ks) (replicate 64 v)) ks @ drop (length ks) (replicate 64 v)"
    using sha1_xor_key_eq [of 0 "replicate 64 v" key] by (simp add: ks_def)
  moreover have "hmac_key key = ks @ replicate (64 - length ks) 0"
    by (simp add: hmac_key_def ks_def)
  ultimately show ?thesis by simp
qed

text \<open>
  \<^verbatim>\<open>sha1_hmac\<close> is the keyed hash of the inner and the outer pad, with the key cut to 64 bytes and
  filled up with zeros.
\<close>

theorem sha1_hmac_eq:
  assumes "length stack = 64" "length input < 2 ^ 31"
  shows "sha1_hmac stack key input
    = sha1_hash (map (\<lambda>k. 0x5C XOR k) (hmac_key key)
        @ sha1_hash (map (\<lambda>k. 0x36 XOR k) (hmac_key key) @ input))"
proof -
  let ?k = "hmac_key key"
  have lk: "length ?k = 64" by (simp add: hmac_key_def)
  let ?i = "map (\<lambda>k. 0x36 XOR k) ?k" and ?o = "map (\<lambda>k. 0x5C XOR k) ?k"
  have small: "\<forall>xs \<in> set [?i, input]. length xs < 2 ^ 31" using lk assms(2) by simp
  note inner = sha1_of_pieces [OF assms(1) small]
  define buf where "buf = sha_buffer (sha_pad sha1_process (foldl sha1_update (sha1_starts stack) [?i, input]))"
  have lb: "length buf = 64"
    using sha_pad_ok [of "foldl sha1_update (sha1_starts stack) [?i, input]"] inner(2)
    by (simp add: buf_def sha_ok_def)
  have "length (sha1_hash (?i @ input)) < 2 ^ 31"
    by (simp add: sha1_hash_length)
  then have small2: "\<forall>xs \<in> set [?o, sha1_hash (?i @ input)]. length xs < 2 ^ 31" using lk by simp
  have buf: "sha_buffer (sha_pad sha1_process
      (sha1_update (sha1_update (sha1_starts stack) ?i) input)) = buf"
    by (simp add: buf_def)
  from sha1_of_pieces(1) [OF lb small2] inner(1) show ?thesis
    by (simp add: sha1_hmac_def Let_def sha1_xor_key_pad sha1_starts_state buf)
qed

theorem sha1_hmac_eq_witness:
  "sha1_hmac (replicate 64 0) [0x0B, 0x0B] [0x48, 0x69]
    = sha1_hash (map (\<lambda>k. 0x5C XOR k) (hmac_key [0x0B, 0x0B])
        @ sha1_hash (map (\<lambda>k. 0x36 XOR k) (hmac_key [0x0B, 0x0B]) @ [0x48, 0x69]))"
  by (rule sha1_hmac_eq) simp_all

end
