(* ===== verification/Md5.thy ===== *)
theory Md5
  imports BlockHash
begin

text \<open>
  The MD5 digest of \<^verbatim>\<open>lib_generic/md5.c\<close> on the little-endian target: the compression function step
  by step, the context with its count of bits, and the two entry points.  \<^verbatim>\<open>byteReverse\<close> is modelled
  as the byte loads and the word store it performs, and turns out to be the identity.
\<close>

section \<open>Bytes and words, little endian\<close>

definition le_load :: "u8 \<Rightarrow> u8 \<Rightarrow> u8 \<Rightarrow> u8 \<Rightarrow> u32" where
  "le_load b0 b1 b2 b3 =
     push_bit 16 (push_bit 8 (ucast b3) OR ucast b2) OR (push_bit 8 (ucast b1) OR ucast b0)"

definition le_store :: "u32 \<Rightarrow> u8 list" where
  "le_store w = [ucast w, ucast (drop_bit 8 w), ucast (drop_bit 16 w), ucast (drop_bit 24 w)]"

text \<open>The first \<open>longs\<close> words of the buffer are loaded and stored back.\<close>

fun byteReverse :: "u8 list \<Rightarrow> nat \<Rightarrow> u8 list" where
  "byteReverse (b0 # b1 # b2 # b3 # buf) (Suc longs) =
     le_store (le_load b0 b1 b2 b3) @ byteReverse buf longs"
| "byteReverse buf longs = buf"

text \<open>A buffer read as an array of words.\<close>

fun le_words :: "u8 list \<Rightarrow> u32 list" where
  "le_words (b0 # b1 # b2 # b3 # buf) = le_load b0 b1 b2 b3 # le_words buf"
| "le_words buf = []"

section \<open>Compression\<close>

definition md5_F1 :: "u32 \<Rightarrow> u32 \<Rightarrow> u32 \<Rightarrow> u32" where
  "md5_F1 x y z = z XOR (x AND (y XOR z))"

definition md5_F2 :: "u32 \<Rightarrow> u32 \<Rightarrow> u32 \<Rightarrow> u32" where
  "md5_F2 x y z = md5_F1 z x y"

definition md5_F3 :: "u32 \<Rightarrow> u32 \<Rightarrow> u32 \<Rightarrow> u32" where
  "md5_F3 x y z = x XOR y XOR z"

definition md5_F4 :: "u32 \<Rightarrow> u32 \<Rightarrow> u32 \<Rightarrow> u32" where
  "md5_F4 x y z = y XOR (x OR NOT z)"

definition md5_F :: "nat \<Rightarrow> u32 \<Rightarrow> u32 \<Rightarrow> u32 \<Rightarrow> u32" where
  "md5_F t = (if t < 16 then md5_F1 else if t < 32 then md5_F2 else if t < 48 then md5_F3 else md5_F4)"

text \<open>The index into the block, the constant and the rotation of each step.\<close>

definition md5_table :: "(nat \<times> u32 \<times> nat) list" where
  "md5_table =
    [(0, 0xd76aa478, 7), (1, 0xe8c7b756, 12), (2, 0x242070db, 17), (3, 0xc1bdceee, 22),
     (4, 0xf57c0faf, 7), (5, 0x4787c62a, 12), (6, 0xa8304613, 17), (7, 0xfd469501, 22),
     (8, 0x698098d8, 7), (9, 0x8b44f7af, 12), (10, 0xffff5bb1, 17), (11, 0x895cd7be, 22),
     (12, 0x6b901122, 7), (13, 0xfd987193, 12), (14, 0xa679438e, 17), (15, 0x49b40821, 22),
     (1, 0xf61e2562, 5), (6, 0xc040b340, 9), (11, 0x265e5a51, 14), (0, 0xe9b6c7aa, 20),
     (5, 0xd62f105d, 5), (10, 0x02441453, 9), (15, 0xd8a1e681, 14), (4, 0xe7d3fbc8, 20),
     (9, 0x21e1cde6, 5), (14, 0xc33707d6, 9), (3, 0xf4d50d87, 14), (8, 0x455a14ed, 20),
     (13, 0xa9e3e905, 5), (2, 0xfcefa3f8, 9), (7, 0x676f02d9, 14), (12, 0x8d2a4c8a, 20),
     (5, 0xfffa3942, 4), (8, 0x8771f681, 11), (11, 0x6d9d6122, 16), (14, 0xfde5380c, 23),
     (1, 0xa4beea44, 4), (4, 0x4bdecfa9, 11), (7, 0xf6bb4b60, 16), (10, 0xbebfbc70, 23),
     (13, 0x289b7ec6, 4), (0, 0xeaa127fa, 11), (3, 0xd4ef3085, 16), (6, 0x04881d05, 23),
     (9, 0xd9d4d039, 4), (12, 0xe6db99e5, 11), (15, 0x1fa27cf8, 16), (2, 0xc4ac5665, 23),
     (0, 0xf4292244, 6), (7, 0x432aff97, 10), (14, 0xab9423a7, 15), (5, 0xfc93a039, 21),
     (12, 0x655b59c3, 6), (3, 0x8f0ccc92, 10), (10, 0xffeff47d, 15), (1, 0x85845dd1, 21),
     (8, 0x6fa87e4f, 6), (15, 0xfe2ce6e0, 10), (6, 0xa3014314, 15), (13, 0x4e0811a1, 21),
     (4, 0xf7537e82, 6), (11, 0xbd3af235, 10), (2, 0x2ad7d2bb, 15), (9, 0xeb86d391, 21)]"

text \<open>
  \<^verbatim>\<open>MD5STEP\<close> updates its register \<^verbatim>\<open>w\<close>; the next use names the registers shifted by one, so the
  result is in the order of the next use.
\<close>

fun MD5STEP :: "u32 list \<Rightarrow> u32 \<times> u32 \<times> u32 \<times> u32 \<Rightarrow> nat \<Rightarrow> u32 \<times> u32 \<times> u32 \<times> u32" where
  "MD5STEP inp (w, x, y, z) t =
     (let (i, k, s) = md5_table ! t;
          w = w + (md5_F t x y z + (inp ! i + k));
          w = push_bit s w OR drop_bit (32 - s) w;
          w = w + x
      in (z, w, x, y))"

definition MD5Transform :: "u32 list \<Rightarrow> u32 list \<Rightarrow> u32 list" where
  "MD5Transform buf inp =
     (let (a, b, c, d) = foldl (MD5STEP inp) (buf ! 0, buf ! 1, buf ! 2, buf ! 3) [0..<64]
      in [buf ! 0 + a, buf ! 1 + b, buf ! 2 + c, buf ! 3 + d])"

section \<open>The context\<close>

record md5_context =
  md5_buf :: "u32 list"
  bits0 :: u32
  bits1 :: u32
  md5_in :: "u8 list"

definition MD5Init :: "u8 list \<Rightarrow> md5_context" where
  "MD5Init stack =
     \<lparr>md5_buf = [0x67452301, 0xefcdab89, 0x98badcfe, 0x10325476], bits0 = 0, bits1 = 0,
      md5_in = stack\<rparr>"

text \<open>Whole blocks pass through the buffer of the context.\<close>

definition md5_block :: "md5_context \<Rightarrow> md5_context" where
  "md5_block ctx =
     (let inp = byteReverse (md5_in ctx) 16
      in ctx\<lparr>md5_in := inp, md5_buf := MD5Transform (md5_buf ctx) (le_words inp)\<rparr>)"

function md5_blocks :: "md5_context \<Rightarrow> u8 list \<Rightarrow> md5_context \<times> u8 list" where
  "md5_blocks ctx buf =
     (if 64 \<le> length buf
      then md5_blocks (md5_block (ctx\<lparr>md5_in := copy_at (md5_in ctx) 0 (take 64 buf)\<rparr>)) (drop 64 buf)
      else (ctx, buf))"
  by pat_completeness auto
termination
  by (relation "measure (\<lambda>(ctx, buf). length buf)") auto

declare md5_blocks.simps [simp del]

definition md5_count_bits :: "md5_context \<Rightarrow> nat \<Rightarrow> md5_context" where
  "md5_count_bits ctx n =
     (let len = of_nat n;
          t = bits0 ctx;
          b0 = t + push_bit 3 len;
          b1 = (if b0 < t then bits1 ctx + 1 else bits1 ctx)
      in ctx\<lparr>bits0 := b0, bits1 := b1 + drop_bit 29 len\<rparr>)"

definition MD5Update :: "md5_context \<Rightarrow> u8 list \<Rightarrow> md5_context" where
  "MD5Update ctx buf =
     (let t = unat (drop_bit 3 (bits0 ctx) AND 0x3f);
          ctx = md5_count_bits ctx (length buf);
          fill = 64 - t
      in if t \<noteq> 0 \<and> length buf < fill then ctx\<lparr>md5_in := copy_at (md5_in ctx) t buf\<rparr>
         else let (ctx, buf) =
                (if t \<noteq> 0
                 then (md5_block (ctx\<lparr>md5_in := copy_at (md5_in ctx) t (take fill buf)\<rparr>), drop fill buf)
                 else (ctx, buf));
                (ctx, buf) = md5_blocks ctx buf
              in ctx\<lparr>md5_in := copy_at (md5_in ctx) 0 buf\<rparr>)"

text \<open>The digest; the context is cleared afterwards.\<close>

definition MD5Final :: "md5_context \<Rightarrow> u8 list" where
  "MD5Final ctx =
     (let count = unat (drop_bit 3 (bits0 ctx) AND 0x3F);
          inp = copy_at (md5_in ctx) count [0x80];
          p = count + 1;
          room = 64 - 1 - count;
          ctx = (if room < 8
                 then (let ctx = md5_block (ctx\<lparr>md5_in := copy_at inp p (replicate room 0)\<rparr>)
                       in ctx\<lparr>md5_in := copy_at (md5_in ctx) 0 (replicate 56 0)\<rparr>)
                 else ctx\<lparr>md5_in := copy_at inp p (replicate (room - 8) 0)\<rparr>);
          inp = byteReverse (md5_in ctx) 14;
          inp = copy_at inp 56 (le_store (bits0 ctx));
          inp = copy_at inp 60 (le_store (bits1 ctx));
          buf = MD5Transform (md5_buf ctx) (le_words inp)
      in take 16 (byteReverse (concat (map le_store buf)) 4))"

section \<open>Digest of a buffer\<close>

definition md5 :: "u8 list \<Rightarrow> u8 list \<Rightarrow> u8 list" where
  "md5 stack input = MD5Final (MD5Update (MD5Init stack) input)"

partial_function (option) md5_wd_loop :: "md5_context \<Rightarrow> u8 list \<Rightarrow> nat \<Rightarrow> md5_context option" where
  "md5_wd_loop ctx input chunk_sz =
     (if input = [] then Some ctx
      else let chunk = (if length input > chunk_sz then chunk_sz else length input)
           in md5_wd_loop (MD5Update ctx (take chunk input)) (drop chunk input) chunk_sz)"

definition md5_wd :: "u8 list \<Rightarrow> u8 list \<Rightarrow> nat \<Rightarrow> u8 list option" where
  "md5_wd stack input chunk_sz =
     map_option MD5Final (md5_wd_loop (MD5Init stack) input chunk_sz)"

section \<open>\<^verbatim>\<open>byteReverse\<close> and words\<close>

lemma le_store_load: "le_store (le_load b0 b1 b2 b3) = [b0, b1, b2, b3]"
  unfolding le_store_def le_load_def
  by (auto intro!: bit_word_eqI simp: bit_simps)

lemma byteReverse_id: "byteReverse buf longs = buf"
  by (induction buf longs rule: byteReverse.induct) (simp_all add: le_store_load)

section \<open>Absorbing\<close>

definition md5_compress :: "u32 list \<Rightarrow> u8 list \<Rightarrow> u32 list" where
  "md5_compress st block = MD5Transform st (le_words block)"

definition md5_pending :: "md5_context \<Rightarrow> u8 list" where
  "md5_pending c = take (unat (drop_bit 3 (bits0 c) AND 0x3f)) (md5_in c)"

definition md5_bits :: "md5_context \<Rightarrow> nat" where
  "md5_bits c = unat (bits1 c) * 2 ^ 32 + unat (bits0 c)"

definition md5_count :: "md5_context \<Rightarrow> nat" where
  "md5_count c = md5_bits c div 8"

definition md5_ok :: "md5_context \<Rightarrow> bool" where
  "md5_ok c \<longleftrightarrow> length (md5_in c) = 64 \<and> md5_bits c mod 8 = 0"

lemma md5_block_eq:
  "md5_block ctx = ctx\<lparr>md5_buf := md5_compress (md5_buf ctx) (md5_in ctx)\<rparr>"
  by (simp add: md5_block_def byteReverse_id md5_compress_def Let_def)

lemma md5_blocks_eq:
  "length (md5_in ctx) = 64 \<Longrightarrow>
     \<exists>inp. length inp = 64 \<and> md5_blocks ctx xs
       = (ctx\<lparr>md5_buf := fst (hash_blocks md5_compress (md5_buf ctx) xs), md5_in := inp\<rparr>,
          snd (hash_blocks md5_compress (md5_buf ctx) xs))"
proof (induction ctx xs rule: md5_blocks.induct)
  case (1 ctx xs)
  show ?case
  proof (cases "64 \<le> length xs")
    case True
    have c: "copy_at (md5_in ctx) 0 (take 64 xs) = take 64 xs"
      using True "1.prems" by (simp add: copy_at_def)
    let ?c = "md5_block (ctx\<lparr>md5_in := copy_at (md5_in ctx) 0 (take 64 xs)\<rparr>)"
    have "length (md5_in ?c) = 64" using True by (simp add: md5_block_eq c)
    from "1.IH" [OF True this] obtain inp where "length inp = 64"
      "md5_blocks ?c (drop 64 xs) = (?c\<lparr>md5_buf := fst (hash_blocks md5_compress (md5_buf ?c) (drop 64 xs)), md5_in := inp\<rparr>,
          snd (hash_blocks md5_compress (md5_buf ?c) (drop 64 xs)))" by blast
    then show ?thesis
      using True by (intro exI [of _ inp])
        (simp add: md5_blocks.simps [of ctx xs] hash_blocks.simps [of _ _ xs] md5_block_eq c)
  next
    case False
    with "1.prems" show ?thesis
      by (intro exI [of _ "md5_in ctx"]) (simp add: md5_blocks.simps [of ctx xs] hash_blocks_short)
  qed
qed

lemma unat_drop3_and63: "unat (drop_bit 3 (b :: u32) AND 0x3f) = unat b div 8 mod 64"
proof -
  have "unat (drop_bit 3 b) = unat b div 2 ^ 3"
    by (simp only: unat_drop_bit_eq) (simp only: drop_bit_eq_div)
  then show ?thesis by (simp only: unat_and_63) simp
qed

lemma pair_64: "y < 2 ^ 32 \<Longrightarrow> (x mod 2 ^ 32) * 2 ^ 32 + y = (x * 2 ^ 32 + y) mod 2 ^ 64" for x y :: nat
  using mod_mult2_eq [of "x * 2 ^ 32 + y" "2 ^ 32" "2 ^ 32"] by simp

lemma md5_bits_add:
  assumes "n < 2 ^ 32"
  shows "md5_bits (md5_count_bits c n) = (md5_bits c + 8 * n) mod 2 ^ 64"
proof -
  define L where "L = 8 * n mod 2 ^ 32"
  define H where "H = n div 2 ^ 29"
  define k where "k = (unat (bits0 c) + L) div 2 ^ 32"
  let ?len = "of_nat n :: u32"
  have un: "unat ?len = n" using assms by simp
  have uL: "unat (push_bit 3 ?len) = L"
    using un by (simp add: L_def push_bit_eq_mult unat_word_ariths mult.commute)
  have "unat (drop_bit 29 ?len) = unat ?len div 2 ^ 29"
    by (simp only: unat_drop_bit_eq) (simp only: drop_bit_eq_div)
  then have uH: "unat (drop_bit 29 ?len) = H" by (simp only: un H_def)
  have LH: "8 * n = H * 2 ^ 32 + L"
    using div_mult_mod_eq [of "8 * n" "2 ^ 32"] by (simp add: L_def H_def)
  let ?b0 = "bits0 c + push_bit 3 ?len"
  have u0: "unat ?b0 = (unat (bits0 c) + L) mod 2 ^ 32"
    by (simp add: unat_word_ariths uL)
  have b0: "unat (bits0 c) < 2 ^ 32" by (rule less_le_trans [OF unat_u32_less]) simp
  have Ll: "L < 2 ^ 32" by (simp add: L_def)
  have carry: "?b0 < bits0 c \<longleftrightarrow> k = 1" and k01: "k = 0 \<or> k = 1"
  proof -
    have dm: "unat (bits0 c) + L = k * 2 ^ 32 + unat ?b0"
      unfolding u0 k_def by simp
    show "k = 0 \<or> k = 1"
    proof (rule ccontr)
      assume "\<not> ?thesis"
      then have "2 * 2 ^ 32 \<le> k * 2 ^ 32" by (intro mult_le_mono1) simp
      then show False using dm b0 Ll by linarith
    qed
    then show "?b0 < bits0 c \<longleftrightarrow> k = 1"
      using dm b0 Ll by (auto simp: word_less_nat_alt)
  qed
  have "unat (bits1 (md5_count_bits c n)) = (unat (bits1 c) + k + H) mod 2 ^ 32"
    using k01 carry uH
    by (auto simp: md5_count_bits_def Let_def unat_word_ariths mod_simps add.assoc)
  moreover have "unat (bits0 (md5_count_bits c n)) = (unat (bits0 c) + L) mod 2 ^ 32"
    using u0 by (simp add: md5_count_bits_def Let_def)
  ultimately have "md5_bits (md5_count_bits c n)
      = ((unat (bits1 c) + k + H) * 2 ^ 32 + (unat (bits0 c) + L) mod 2 ^ 32) mod 2 ^ 64"
    by (simp only: md5_bits_def) (rule pair_64, simp)
  also have "(unat (bits1 c) + k + H) * 2 ^ 32 + (unat (bits0 c) + L) mod 2 ^ 32
      = md5_bits c + 8 * n"
    using div_mult_mod_eq [of "unat (bits0 c) + L" "2 ^ 32"] LH
    by (simp add: md5_bits_def k_def algebra_simps)
  finally show ?thesis .
qed

lemma md5_count_add:
  assumes "n < 2 ^ 32"
  shows "md5_count (md5_count_bits c n) = (md5_count c + n) mod 2 ^ 61"
proof -
  have "((md5_bits c + 8 * n) mod 2 ^ 64) div 8 = ((md5_bits c + 8 * n) div 8) mod 2 ^ 61"
    using mod_mult2_eq [of "md5_bits c + 8 * n" 8 "2 ^ 61"] by simp
  then show ?thesis by (simp add: md5_count_def md5_bits_add [OF assms] add.commute)
qed

lemma md5_count_low: "unat (drop_bit 3 (bits0 c) AND 0x3f) = md5_count c mod 64"
proof -
  have "md5_count c = unat (bits0 c) div 8 + (unat (bits1 c) * 2 ^ 23) * 64"
    by (simp add: md5_count_def md5_bits_def)
  then have "md5_count c mod 64 = unat (bits0 c) div 8 mod 64"
    by (simp only: mod_mult_self1)
  then show ?thesis by (simp add: unat_drop3_and63)
qed

lemma md5_ok_bits:
  assumes "md5_ok c" "n < 2 ^ 32"
  shows "md5_bits (md5_count_bits c n) mod 8 = 0"
proof -
  have "(md5_bits c + 8 * n) mod 2 ^ 64 mod 8 = (md5_bits c + 8 * n) mod 8"
    by (rule mod_mod_cancel) simp
  also have "\<dots> = md5_bits c mod 8"
    by simp
  finally show ?thesis using assms by (simp add: md5_bits_add md5_ok_def)
qed

lemma md5_update_absorbs:
  assumes ok: "md5_ok c" and len: "length xs < 2 ^ 31"
  shows "md5_ok (MD5Update c xs) \<and> md5_count (MD5Update c xs) = (md5_count c + length xs) mod 2 ^ 61
    \<and> (md5_buf (MD5Update c xs), md5_pending (MD5Update c xs))
      = hash_blocks md5_compress (md5_buf c) (md5_pending c @ xs)"
proof -
  define t where "t = unat (drop_bit 3 (bits0 c) AND 0x3f)"
  define fill where "fill = 64 - t"
  define c1 where "c1 = md5_count_bits c (length xs)"
  have b: "length (md5_in c) = 64" using ok by (simp add: md5_ok_def)
  have c1: "md5_in c1 = md5_in c" "md5_buf c1 = md5_buf c"
    by (simp_all add: c1_def md5_count_bits_def Let_def)
  have n32: "length xs < 2 ^ 32" using len by simp
  have cnt: "md5_count c1 = (md5_count c + length xs) mod 2 ^ 61"
    unfolding c1_def by (rule md5_count_add [OF n32])
  have low: "md5_bits c1 mod 8 = 0" unfolding c1_def by (rule md5_ok_bits [OF ok n32])
  have t: "t = md5_count c mod 64" unfolding t_def by (rule md5_count_low)
  then have t64: "t < 64" by simp
  have t1: "unat (drop_bit 3 (bits0 c1) AND 0x3f) = (t + length xs) mod 64"
    unfolding md5_count_low cnt t by (simp add: mod_mod_cancel mod_simps)
  have p: "md5_pending c = take t (md5_in c)" by (simp add: md5_pending_def t_def)
  show ?thesis
  proof (cases "t \<noteq> 0 \<and> length xs < fill")
    case True
    then have s: "t + length xs < 64" using t64 by (auto simp: fill_def)
    have "MD5Update c xs = c1\<lparr>md5_in := copy_at (md5_in c) t xs\<rparr>"
      using True by (simp add: MD5Update_def Let_def c1 flip: t_def c1_def fill_def)
    moreover have "hash_blocks md5_compress (md5_buf c) (md5_pending c @ xs)
        = (md5_buf c, md5_pending c @ xs)"
      using s p b by (simp add: hash_blocks_short)
    ultimately show ?thesis
      using s b c1 cnt low t1 p take_copy_at [of t xs "md5_in c"] copy_at_length [of t xs "md5_in c"]
      by (simp add: md5_ok_def md5_pending_def md5_count_def md5_bits_def)
  next
    case False
    define c2 where "c2 = (if t \<noteq> 0 then md5_block (c1\<lparr>md5_in := copy_at (md5_in c1) t (take fill xs)\<rparr>) else c1)"
    define ys where "ys = (if t \<noteq> 0 then drop fill xs else xs)"
    have c2: "length (md5_in c2) = 64" "bits0 c2 = bits0 c1" "bits1 c2 = bits1 c1"
      "hash_blocks md5_compress (md5_buf c2) ys
        = hash_blocks md5_compress (md5_buf c) (md5_pending c @ xs)"
    proof -
      have "hash_blocks md5_compress (md5_buf c2) ys
        = hash_blocks md5_compress (md5_buf c) (md5_pending c @ xs)"
      proof (cases "t = 0")
        case True
        then show ?thesis by (simp add: c2_def ys_def c1 p)
      next
        case t0: False
        have "copy_at (md5_in c) t (take fill xs) = md5_pending c @ take fill xs"
          using False t0 b t64 by (simp add: copy_at_def p fill_def)
        moreover have "length (md5_pending c @ take fill xs) = 64"
          using False t0 b t64 by (simp add: p fill_def)
        ultimately show ?thesis
          using t0 hash_blocks_block [of "md5_pending c @ take fill xs" md5_compress "md5_buf c" "drop fill xs"]
          by (simp add: c2_def ys_def c1 md5_block_eq)
      qed
      then show "length (md5_in c2) = 64" "bits0 c2 = bits0 c1" "bits1 c2 = bits1 c1"
        "hash_blocks md5_compress (md5_buf c2) ys
          = hash_blocks md5_compress (md5_buf c) (md5_pending c @ xs)"
        using b False t64 by (auto simp: c2_def c1 md5_block_eq fill_def intro!: copy_at_length [THEN trans])
    qed
    obtain st r where h: "hash_blocks md5_compress (md5_buf c) (md5_pending c @ xs) = (st, r)"
      by (rule prod.exhaust)
    obtain inp where inp: "length inp = 64" "md5_blocks c2 ys = (c2\<lparr>md5_buf := st, md5_in := inp\<rparr>, r)"
      using md5_blocks_eq [OF c2(1), of ys] c2(4) h by auto
    have lr: "length r = (t + length xs) mod 64"
      using hash_blocks_rest [of md5_compress "md5_buf c" "md5_pending c @ xs"] h p b t64 by simp
    then have r64: "length r < 64" by simp
    have "MD5Update c xs = c2\<lparr>md5_buf := st, md5_in := copy_at inp 0 r\<rparr>"
      using False inp(2)
      by (simp add: MD5Update_def Let_def c2_def ys_def split: if_splits flip: t_def c1_def fill_def)
    then show ?thesis
      using h lr r64 inp(1) c2(2,3) cnt low t1 take_copy_at [of 0 r inp] copy_at_length [of 0 r inp]
      by (simp add: md5_ok_def md5_pending_def md5_count_def md5_bits_def)
  qed
qed

interpretation md5i: block_hash md5_compress MD5Update md5_buf md5_pending md5_count md5_ok
  by unfold_locales (simp_all add: md5_update_absorbs)

section \<open>Padding\<close>

text \<open>
  A one bit, zeros up to 8 bytes short of a block, and the length in bits as 8 bytes, least
  significant first.
\<close>

definition md5_padded :: "u8 list \<Rightarrow> u8 list" where
  "md5_padded msg =
     msg @ 0x80 # replicate ((119 - length msg mod 64) mod 64) 0
       @ map (\<lambda>i. of_nat (8 * length msg div 2 ^ (8 * i))) [0..<8]"

definition md5_digest :: "u8 list \<Rightarrow> u8 list" where
  "md5_digest msg =
     concat (map le_store (fst (hash_blocks md5_compress
       [0x67452301, 0xefcdab89, 0x98badcfe, 0x10325476] (md5_padded msg))))"

lemma le_store_of_nat:
  "le_store (of_nat m) = [of_nat m, of_nat (m div 2 ^ 8), of_nat (m div 2 ^ 16), of_nat (m div 2 ^ 24)]"
  using ucast_drop_of_nat [of 24 m] ucast_drop_of_nat [of 16 m] ucast_drop_of_nat [of 8 m]
    ucast_drop_of_nat [of 0 m]
  by (simp add: le_store_def)

lemma md5_length_bytes:
  assumes "md5_ok c" "md5_count c = n mod 2 ^ 61"
  shows "le_store (bits0 c) @ le_store (bits1 c) = map (\<lambda>i. of_nat (8 * n div 2 ^ (8 * i))) [0..<8]"
proof -
  have b: "md5_bits c = (8 * n) mod 2 ^ 64"
  proof -
    have "md5_bits c = 8 * md5_count c"
      using assms(1) by (auto simp: md5_ok_def md5_count_def)
    then show ?thesis using assms(2) by (simp add: mult_mod_right)
  qed
  have b0: "unat (bits0 c) < 2 ^ 32" by (rule less_le_trans [OF unat_u32_less]) simp
  have "unat (bits0 c) = md5_bits c mod 2 ^ 32"
    using b0 by (simp add: md5_bits_def)
  also have "\<dots> = (8 * n) mod 2 ^ 32" unfolding b by (rule mod_mod_cancel) simp
  finally have u0: "unat (bits0 c) = (8 * n) mod 2 ^ 32" .
  have "unat (bits1 c) = md5_bits c div 2 ^ 32"
    using b0 by (simp add: md5_bits_def)
  also have "\<dots> = (8 * n div 2 ^ 32) mod 2 ^ 32"
    unfolding b using mod_mult2_eq [of "8 * n" "2 ^ 32" "2 ^ 32"] by simp
  finally have u1: "unat (bits1 c) = (8 * n div 2 ^ 32) mod 2 ^ 32" .
  have w: "w = of_nat m" if "unat w = m mod 2 ^ 32" for w :: u32 and m
  proof -
    have "unat (of_nat m :: u32) = m mod 2 ^ 32" by (simp add: unat_of_nat)
    with that show ?thesis by (simp only: word_unat_eq_iff)
  qed
  show ?thesis
    unfolding w [OF u0] w [OF u1] le_store_of_nat
    by (simp add: upt_rec div_mult2_eq [symmetric] del: of_nat_mult)
qed

lemma md5_zeros:
  assumes "(n :: nat) < 64"
  shows "(119 - n) mod 64 = (if n < 56 then 55 - n else 119 - n)"
proof (cases "n < 56")
  case True
  then have "119 - n = 64 + (55 - n)" by simp
  then have "(119 - n) mod 64 = (55 - n) mod 64" by (simp only: mod_add_self1)
  with True show ?thesis by simp
qed (use assms in simp)

lemma copy_tail:
  assumes "length buf = 64" "length b0 = 4" "length b1 = 4"
  shows "copy_at (copy_at buf 56 b0) 60 b1 = take 56 buf @ b0 @ b1"
  using assms by (simp add: copy_at_def)

lemma md5_fields:
  "md5_in (c\<lparr>md5_in := x\<rparr>) = x" "md5_in (c\<lparr>md5_buf := y\<rparr>) = md5_in c"
  "md5_buf (c\<lparr>md5_buf := y\<rparr>) = y" "md5_buf (c\<lparr>md5_in := x\<rparr>) = md5_buf c"
  "bits0 (c\<lparr>md5_in := x\<rparr>) = bits0 c" "bits0 (c\<lparr>md5_buf := y\<rparr>) = bits0 c"
  "bits1 (c\<lparr>md5_in := x\<rparr>) = bits1 c" "bits1 (c\<lparr>md5_buf := y\<rparr>) = bits1 c"
  by simp_all

lemma md5_final_state:
  assumes ok: "md5_ok c" and cnt: "md5_count c = length msg mod 2 ^ 61"
    and abs: "(md5_buf c, md5_pending c) = hash_blocks md5_compress iv msg" and iv: "length iv = 4"
  shows "MD5Final c = concat (map le_store (fst (hash_blocks md5_compress iv (md5_padded msg))))"
proof -
  define n where "n = unat (drop_bit 3 (bits0 c) AND 0x3F)"
  have n: "n = length msg mod 64"
    by (simp add: n_def md5_count_low cnt mod_mod_cancel)
  then have n64: "n < 64" by simp
  have b: "length (md5_in c) = 64" using ok by (simp add: md5_ok_def)
  have p: "md5_pending c = take n (md5_in c)" by (simp add: md5_pending_def n_def)
  note lb = md5_length_bytes [OF ok cnt]
  have ls: "length (le_store w) = 4" for w by (simp add: le_store_def)
  have l4: "length (MD5Transform st inp) = 4" for st inp
    by (simp add: MD5Transform_def split: prod.split)
  have out: "take 16 (byteReverse (concat (map le_store (MD5Transform st inp))) 4)
      = concat (map le_store (MD5Transform st inp))" for st inp
    using ls by (simp add: byteReverse_id MD5Transform_def split: prod.split)
  have ref: "fst (hash_blocks md5_compress iv (md5_padded msg))
      = fst (hash_blocks md5_compress (md5_buf c)
          (take n (md5_in c) @ 0x80 # replicate (if n < 56 then 55 - n else 119 - n) 0
            @ le_store (bits0 c) @ le_store (bits1 c)))"
    using hash_blocks_append [of md5_compress iv msg] md5_zeros [OF n64] lb
    by (simp add: md5_padded_def n [symmetric] p flip: abs)
  show ?thesis
  proof (cases "n < 56")
    case True
    let ?blk = "take n (md5_in c) @ 0x80 # replicate (55 - n) 0 @ le_store (bits0 c) @ le_store (bits1 c)"
    have "length ?blk = 64" using True b ls by simp
    from hash_blocks_block [OF this, of md5_compress "md5_buf c" "[]"]
    have r: "fst (hash_blocks md5_compress (md5_buf c) ?blk) = md5_compress (md5_buf c) ?blk"
      by (simp add: hash_blocks_short)
    let ?inp = "copy_at (copy_at (md5_in c) n [0x80]) (n + 1) (replicate (63 - n - 8) 0)"
    have "length ?inp = 64" "take 56 ?inp = take n (md5_in c) @ 0x80 # replicate (55 - n) 0"
      using True b Suc_diff_le [of n 55] by (simp_all add: copy_at_def)
    then have "copy_at (copy_at ?inp 56 (le_store (bits0 c))) 60 (le_store (bits1 c)) = ?blk"
      using copy_tail [OF _ ls ls, of ?inp] by simp
    moreover have "\<not> 63 - n < 8" "\<not> 55 < n" using True by simp_all
    ultimately show ?thesis
      using True r ref out
      by (simp add: MD5Final_def Let_def byteReverse_id md5_compress_def flip: n_def)
  next
    case False
    let ?b1 = "take n (md5_in c) @ 0x80 # replicate (63 - n) 0"
    let ?b2 = "replicate 56 0 @ le_store (bits0 c) @ le_store (bits1 c)"
    have l: "length ?b1 = 64" "length ?b2 = 64" using n64 b ls by simp_all
    have "replicate (119 - n) (0 :: u8) = replicate (63 - n) 0 @ replicate 56 0"
      using n64 by (simp flip: replicate_add)
    then have "fst (hash_blocks md5_compress (md5_buf c)
          (take n (md5_in c) @ 0x80 # replicate (119 - n) 0 @ le_store (bits0 c) @ le_store (bits1 c)))
        = md5_compress (md5_compress (md5_buf c) ?b1) ?b2"
      using hash_blocks_block [OF l(1), of md5_compress "md5_buf c" ?b2]
        hash_blocks_block [OF l(2), of md5_compress "md5_compress (md5_buf c) ?b1" "[]"]
      by (simp add: hash_blocks_short)
    moreover have b1: "copy_at (copy_at (md5_in c) n [0x80]) (n + 1) (replicate (64 - 1 - n) 0) = ?b1"
      using n64 b by (simp add: copy_at_def)
    moreover have b2: "copy_at (copy_at (copy_at ?b1 0 (replicate 56 0)) 56 (le_store (bits0 c))) 60
        (le_store (bits1 c)) = ?b2"
    proof -
      let ?q = "copy_at ?b1 0 (replicate 56 0)"
      have "length ?q = 64"
        using copy_at_length [of 0 "replicate 56 0" ?b1] by (simp only: l(1) length_replicate)
      moreover have "take 56 ?q = replicate 56 0"
        using take_copy_at [of 0 "replicate 56 0" ?b1] by (simp only: l(1) length_replicate) simp
      ultimately show ?thesis
        using copy_tail [OF _ ls ls, of ?q] by (simp only:)
    qed
    moreover have br: "64 - 1 - n < 8" using False n64 by simp
    then have "MD5Final c = take 16 (byteReverse (concat (map le_store
        (MD5Transform (md5_compress (md5_buf c) ?b1) (le_words ?b2)))) 4)"
      unfolding MD5Final_def Let_def n_def [symmetric] if_P [OF br] md5_block_eq
      by (simp only: byteReverse_id md5_fields b1 b2)
    ultimately show ?thesis
      using False ref out by (simp only: if_False md5_compress_def)
  qed
qed

section \<open>Properties\<close>

lemma md5_wd_loop_chunks:
  "0 < n \<Longrightarrow> length xs \<le> k \<Longrightarrow> md5_wd_loop c xs n = Some (foldl MD5Update c (chunks_of n k xs))"
proof (induction k arbitrary: c xs)
  case 0
  then show ?case by (simp add: md5_wd_loop.simps)
next
  case (Suc k)
  show ?case
  proof (cases "xs = []")
    case True
    then show ?thesis by (simp add: md5_wd_loop.simps)
  next
    case False
    have chunk: "take (if length xs > n then n else length xs) xs = take n xs"
      "drop (if length xs > n then n else length xs) xs = drop n xs" by simp_all
    have "length (drop n xs) \<le> k" using Suc.prems False by (simp add: le_diff_conv)
    from Suc.IH [OF Suc.prems(1) this] False show ?thesis
      by (subst md5_wd_loop.simps) (simp add: Let_def chunk)
  qed
qed

lemma md5_of_pieces:
  assumes "length stack = 64" "\<forall>xs \<in> set pieces. length xs < 2 ^ 31"
  shows "MD5Final (foldl MD5Update (MD5Init stack) pieces) = md5_digest (concat pieces)"
proof -
  let ?c = "MD5Init stack"
  have st: "md5_ok ?c" "md5_pending ?c = []" "md5_count ?c = 0"
    using assms(1) by (simp_all add: md5_ok_def md5_pending_def md5_count_def md5_bits_def MD5Init_def)
  note u = md5i.update_pieces [OF st(1) assms(2)]
  have "md5_count (foldl MD5Update ?c pieces) = length (concat pieces) mod 2 ^ 61"
  proof -
    have "md5_count d < 2 ^ 61" for d
    proof -
      have "md5_bits d < (unat (bits1 d) + 1) * 2 ^ 32"
        using unat_u32_less [of "bits0 d"] by (simp add: md5_bits_def)
      also have "unat (bits1 d) < 2 ^ 32" by (rule less_le_trans [OF unat_u32_less]) simp
      then have "(unat (bits1 d) + 1) * 2 ^ 32 \<le> 2 ^ 32 * 2 ^ 32"
        by (intro mult_le_mono1) linarith
      finally have "md5_bits d < 2 ^ 32 * 2 ^ 32" .
      then show ?thesis by (simp add: md5_count_def)
    qed
    with u st(3) show ?thesis by simp
  qed
  from md5_final_state [OF conjunct1 [OF u] this, of "md5_buf ?c"] u st show ?thesis
    by (simp add: md5_digest_def MD5Init_def)
qed

text \<open>
  Both entry points return the digest of the padded message: the plain one, and the watchdog
  one for every positive chunk size, in place of which 0 never ends.
\<close>

theorem md5_wd_eq:
  assumes "length stack = 64" "length input < 2 ^ 31" "0 < chunk_sz"
  shows "md5_wd stack input chunk_sz = Some (md5_digest input) \<and> md5 stack input = md5_digest input"
proof -
  let ?p = "chunks_of chunk_sz (length input) input"
  have "\<forall>xs \<in> set ?p. length xs < 2 ^ 31"
    using assms(2) chunks_of_length le_less_trans by blast
  from md5_of_pieces [OF assms(1) this] md5_of_pieces [OF assms(1), of "[input]"]
  show ?thesis
    using assms md5_wd_loop_chunks [OF assms(3) order_refl]
    by (simp add: md5_wd_def md5_def concat_chunks_of)
qed

theorem md5_wd_eq_witness:
  "md5_wd (replicate 64 0) [0x61, 0x62, 0x63] 2 = Some (md5_digest [0x61, 0x62, 0x63])
    \<and> md5 (replicate 64 0) [0x61, 0x62, 0x63] = md5_digest [0x61, 0x62, 0x63]"
  by (rule md5_wd_eq) simp_all

end
