(* ===== verification/Vsprintf.thy ===== *)
theory Vsprintf
  imports Prelude
begin

text \<open>
  Character classes (\<^verbatim>\<open>lib_generic/ctype.c\<close>, \<^verbatim>\<open>include/linux/ctype.h\<close>) and the number parser and
  formatter of \<^verbatim>\<open>lib_generic/vsprintf.c\<close> for arguments of 32 bits.  The board sets
  \<^verbatim>\<open>CONFIG_SYS_64BIT_VSPRINTF\<close>, so its \<^verbatim>\<open>NUM_TYPE\<close> is \<^verbatim>\<open>long long\<close>: a 32-bit argument is widened before the
  code modelled here works on it, which makes the same digits; the conversions with the qualifier \<^verbatim>\<open>ll\<close> or
  \<^verbatim>\<open>L\<close>, the only ones with larger numbers, are left out.  A C string is
  the list of its bytes before the terminating 0; reading at the end of the list gives 0.  The
  output buffer has no bound in the C code: the functions return what they append.  The theorems
  are that the shift-and-multiply decimal conversion is exact and that parsing undoes printing.
\<close>

section \<open>Character classes\<close>

definition ctype :: "u8 list" where
  "ctype =
    [0x08, 0x08, 0x08, 0x08, 0x08, 0x08, 0x08, 0x08, 0x08, 0x28, 0x28, 0x28,
     0x28, 0x28, 0x08, 0x08, 0x08, 0x08, 0x08, 0x08, 0x08, 0x08, 0x08, 0x08,
     0x08, 0x08, 0x08, 0x08, 0x08, 0x08, 0x08, 0x08, 0xa0, 0x10, 0x10, 0x10,
     0x10, 0x10, 0x10, 0x10, 0x10, 0x10, 0x10, 0x10, 0x10, 0x10, 0x10, 0x10,
     0x04, 0x04, 0x04, 0x04, 0x04, 0x04, 0x04, 0x04, 0x04, 0x04, 0x10, 0x10,
     0x10, 0x10, 0x10, 0x10, 0x10, 0x41, 0x41, 0x41, 0x41, 0x41, 0x41, 0x01,
     0x01, 0x01, 0x01, 0x01, 0x01, 0x01, 0x01, 0x01, 0x01, 0x01, 0x01, 0x01,
     0x01, 0x01, 0x01, 0x01, 0x01, 0x01, 0x01, 0x10, 0x10, 0x10, 0x10, 0x10,
     0x10, 0x42, 0x42, 0x42, 0x42, 0x42, 0x42, 0x02, 0x02, 0x02, 0x02, 0x02,
     0x02, 0x02, 0x02, 0x02, 0x02, 0x02, 0x02, 0x02, 0x02, 0x02, 0x02, 0x02,
     0x02, 0x02, 0x02, 0x10, 0x10, 0x10, 0x10, 0x08, 0x00, 0x00, 0x00, 0x00,
     0x00, 0x00, 0x00, 0x00, 0x00, 0x00, 0x00, 0x00, 0x00, 0x00, 0x00, 0x00,
     0x00, 0x00, 0x00, 0x00, 0x00, 0x00, 0x00, 0x00, 0x00, 0x00, 0x00, 0x00,
     0x00, 0x00, 0x00, 0x00, 0xa0, 0x10, 0x10, 0x10, 0x10, 0x10, 0x10, 0x10,
     0x10, 0x10, 0x10, 0x10, 0x10, 0x10, 0x10, 0x10, 0x10, 0x10, 0x10, 0x10,
     0x10, 0x10, 0x10, 0x10, 0x10, 0x10, 0x10, 0x10, 0x10, 0x10, 0x10, 0x10,
     0x01, 0x01, 0x01, 0x01, 0x01, 0x01, 0x01, 0x01, 0x01, 0x01, 0x01, 0x01,
     0x01, 0x01, 0x01, 0x01, 0x01, 0x01, 0x01, 0x01, 0x01, 0x01, 0x01, 0x10,
     0x01, 0x01, 0x01, 0x01, 0x01, 0x01, 0x01, 0x02, 0x02, 0x02, 0x02, 0x02,
     0x02, 0x02, 0x02, 0x02, 0x02, 0x02, 0x02, 0x02, 0x02, 0x02, 0x02, 0x02,
     0x02, 0x02, 0x02, 0x02, 0x02, 0x02, 0x02, 0x10, 0x02, 0x02, 0x02, 0x02,
     0x02, 0x02, 0x02, 0x02]"

definition ismask :: "u8 \<Rightarrow> u8" where "ismask c = ctype ! unat c"

definition isalnum :: "u8 \<Rightarrow> bool" where "isalnum c \<longleftrightarrow> ismask c AND 0x07 \<noteq> 0"
definition isalpha :: "u8 \<Rightarrow> bool" where "isalpha c \<longleftrightarrow> ismask c AND 0x03 \<noteq> 0"
definition isdigit :: "u8 \<Rightarrow> bool" where "isdigit c \<longleftrightarrow> ismask c AND 0x04 \<noteq> 0"
definition islower :: "u8 \<Rightarrow> bool" where "islower c \<longleftrightarrow> ismask c AND 0x02 \<noteq> 0"
definition isupper :: "u8 \<Rightarrow> bool" where "isupper c \<longleftrightarrow> ismask c AND 0x01 \<noteq> 0"
definition isspace :: "u8 \<Rightarrow> bool" where "isspace c \<longleftrightarrow> ismask c AND 0x20 \<noteq> 0"
definition isxdigit :: "u8 \<Rightarrow> bool" where "isxdigit c \<longleftrightarrow> ismask c AND 0x44 \<noteq> 0"

definition tolower :: "u8 \<Rightarrow> u8" where
  "tolower c = (if isupper c then c - (0x41 - 0x61) else c)"

definition toupper :: "u8 \<Rightarrow> u8" where
  "toupper c = (if islower c then c - (0x61 - 0x41) else c)"

section \<open>Reading numbers\<close>

text \<open>The byte a string pointer points to.\<close>

definition deref :: "u8 list \<Rightarrow> u8" where
  "deref cp = (case cp of [] \<Rightarrow> 0 | c # _ \<Rightarrow> c)"

lemma deref_simps [simp]: "deref [] = 0" "deref (c # cs) = c"
  by (simp_all add: deref_def)

definition digit_value :: "u8 \<Rightarrow> u32" where
  "digit_value c =
     (if isdigit c then ucast c - 0x30
      else ucast (if islower c then toupper c else c) - 0x41 + 10)"

fun strtoul_loop :: "u32 \<Rightarrow> u32 \<Rightarrow> u8 list \<Rightarrow> u32 \<times> u8 list" where
  "strtoul_loop base result [] = (result, [])"
| "strtoul_loop base result (c # cp) =
     (if isxdigit c \<and> digit_value c < base
      then strtoul_loop base (result * base + digit_value c) cp
      else (result, c # cp))"

text \<open>The result and what is left of the string (\<^verbatim>\<open>*endp\<close>).\<close>

definition simple_strtoul :: "u8 list \<Rightarrow> u32 \<Rightarrow> u32 \<times> u8 list" where
  "simple_strtoul cp base =
     (let (cp, base) =
        (if deref cp = 0x30
         then (let cp = tl cp;
                   (cp, base) = (if deref cp = 0x78 \<and> isxdigit (deref (tl cp)) then (tl cp, 16)
                                 else (cp, base))
               in (cp, if base = 0 then 8 else base))
         else (cp, base));
        base = (if base = 0 then 10 else base)
      in strtoul_loop base 0 cp)"

definition simple_strtol :: "u8 list \<Rightarrow> u32 \<Rightarrow> u32 \<times> u8 list" where
  "simple_strtol cp base =
     (if deref cp = 0x2d
      then (let (v, e) = simple_strtoul (tl cp) base in (- v, e))
      else simple_strtoul cp base)"

definition ustrtoul :: "u8 list \<Rightarrow> u32 \<Rightarrow> u32 \<times> u8 list" where
  "ustrtoul cp base =
     (let (result, endp) = simple_strtoul cp base;
          c = deref endp;
          suffix = (if deref (tl endp) = 0x69
                    then (if deref (tl (tl endp)) = 0x42 then drop 3 endp else drop 2 endp)
                    else endp)
      in if c = 0x47 then (result * 1024 * 1024 * 1024, suffix)
         else if c = 0x4d then (result * 1024 * 1024, suffix)
         else if c = 0x4b \<or> c = 0x6b then (result * 1024, suffix)
         else (result, endp))"

fun skip_atoi :: "u8 list \<Rightarrow> int \<Rightarrow> int \<times> u8 list" where
  "skip_atoi [] i = (i, [])"
| "skip_atoi (c # s) i =
     (if 0x30 \<le> c \<and> c \<le> 0x39 then skip_atoi s (i * 10 + uint c - 0x30) else (i, c # s))"

section \<open>Writing numbers\<close>

definition hex_asc :: "u8 list" where
  "hex_asc = [0x30, 0x31, 0x32, 0x33, 0x34, 0x35, 0x36, 0x37, 0x38, 0x39,
              0x61, 0x62, 0x63, 0x64, 0x65, 0x66]"

definition pack_hex_byte :: "u8 \<Rightarrow> u8 list" where
  "pack_hex_byte byte =
     [hex_asc ! unat (drop_bit 4 (byte AND 0xf0)), hex_asc ! unat (byte AND 0x0f)]"

definition ascii_digit :: "u32 \<Rightarrow> u8" where
  "ascii_digit d = ucast (d + 0x30)"

text \<open>Least significant digit first.\<close>

definition put_dec_trunc :: "u32 \<Rightarrow> u8 list" where
  "put_dec_trunc q =
     (let d1 = drop_bit 4 q AND 0xf;
          d2 = drop_bit 8 q AND 0xf;
          d3 = drop_bit 12 q;
          d0 = 6 * (d3 + d2 + d1) + (q AND 0xf);
          q = drop_bit 11 (d0 * 0xcd);
          out0 = ascii_digit (d0 - 10 * q);
          d1 = q + 9 * d3 + 5 * d2 + d1
      in if d1 = 0 then [out0]
         else let q = drop_bit 11 (d1 * 0xcd);
                  out1 = ascii_digit (d1 - 10 * q);
                  d2 = q + 2 * d2
              in if d2 = 0 \<and> d3 = 0 then [out0, out1]
                 else let q = drop_bit 7 (d2 * 0xd);
                          out2 = ascii_digit (d2 - 10 * q);
                          d3 = q + 4 * d3
                      in if d3 = 0 then [out0, out1, out2]
                         else let q = drop_bit 11 (d3 * 0xcd);
                                  out3 = ascii_digit (d3 - 10 * q)
                              in if q = 0 then [out0, out1, out2, out3]
                                 else [out0, out1, out2, out3, ascii_digit q])"

definition put_dec_full :: "u32 \<Rightarrow> u8 list" where
  "put_dec_full q =
     (let d1 = drop_bit 4 q AND 0xf;
          d2 = drop_bit 8 q AND 0xf;
          d3 = drop_bit 12 q;
          d0 = 6 * (d3 + d2 + d1) + (q AND 0xf);
          q = drop_bit 11 (d0 * 0xcd);
          out0 = ascii_digit (d0 - 10 * q);
          d1 = q + 9 * d3 + 5 * d2 + d1;
          q = drop_bit 11 (d1 * 0xcd);
          out1 = ascii_digit (d1 - 10 * q);
          d2 = q + 2 * d2;
          q = drop_bit 7 (d2 * 0xd);
          out2 = ascii_digit (d2 - 10 * q);
          d3 = q + 4 * d3;
          q = drop_bit 11 (d3 * 0xcd);
          out3 = ascii_digit (d3 - 10 * q)
      in [out0, out1, out2, out3, ascii_digit q])"

text \<open>\<^verbatim>\<open>num\<close> is a \<^verbatim>\<open>NUM_TYPE\<close>, here a number below \<^verbatim>\<open>2 ^ 32\<close>.\<close>

function put_dec :: "u32 \<Rightarrow> u8 list" where
  "put_dec num =
     (if num < 100000 then put_dec_trunc num
      else put_dec_full (num mod 100000) @ put_dec (num div 100000))"
  by pat_completeness auto
termination
  by (relation "measure unat") (auto simp: word_less_nat_alt unat_div not_less intro!: div_less_dividend)

declare put_dec.simps [simp del]

definition ZEROPAD :: u32 where "ZEROPAD = 1"
definition SIGN :: u32 where "SIGN = 2"
definition PLUS :: u32 where "PLUS = 4"
definition SPACE :: u32 where "SPACE = 8"
definition LEFT :: u32 where "LEFT = 16"
definition SMALL :: u32 where "SMALL = 32"
definition SPECIAL :: u32 where "SPECIAL = 64"

definition digits :: "u8 list" where
  "digits = [0x30, 0x31, 0x32, 0x33, 0x34, 0x35, 0x36, 0x37, 0x38, 0x39,
             0x41, 0x42, 0x43, 0x44, 0x45, 0x46]"

lemma drop_bit_pos_less:
  assumes "0 < k" and "drop_bit k (w :: u32) \<noteq> 0"
  shows "unat (drop_bit k w) < unat w"
proof -
  have "unat (drop_bit k w) = unat w div 2 ^ k"
    by (simp only: unat_drop_bit_eq) (simp only: drop_bit_eq_div)
  moreover have "0 < unat w" using assms(2) by (metis drop_bit_of_0 unat_gt_0)
  moreover have "(1 :: nat) < 2 ^ k" by (rule one_less_power) (use assms(1) in simp_all)
  ultimately show ?thesis by (simp only: div_less_dividend)
qed

text \<open>The do-while for base 8 and 16, least significant digit first.\<close>

function hex_digits :: "u32 \<Rightarrow> u8 \<Rightarrow> u32 \<Rightarrow> u8 list" where
  "hex_digits base locase num =
     (let msk = base - 1;
          shift = (if base = 16 then 4 else 3)
      in (digits ! unat (num AND 0xff AND msk) OR locase)
         # (if drop_bit shift num \<noteq> 0 then hex_digits base locase (drop_bit shift num) else []))"
  by pat_completeness auto
termination
  by (relation "measure (\<lambda>(base, locase, num). unat num)") (simp_all only: wf_measure in_measure
      prod.case drop_bit_pos_less split: if_splits, auto intro!: drop_bit_pos_less)

declare hex_digits.simps [simp del]

definition pad :: "int \<Rightarrow> u8 \<Rightarrow> u8 list" where
  "pad n c = replicate (nat n) c"

definition number :: "u32 \<Rightarrow> u32 \<Rightarrow> int \<Rightarrow> int \<Rightarrow> u32 \<Rightarrow> u8 list" where
  "number num base sz precision flags =
     (let need_pfx = (flags AND SPECIAL \<noteq> 0 \<and> base \<noteq> 10);
          locase = ucast (flags AND SMALL);
          flags = (if flags AND LEFT \<noteq> 0 then flags AND NOT ZEROPAD else flags);
          (sign, num, sz) =
            (if flags AND SIGN \<noteq> 0
             then (if num <s 0 then (0x2d, - num, sz - 1)
                   else if flags AND PLUS \<noteq> 0 then (0x2b, num, sz - 1)
                   else if flags AND SPACE \<noteq> 0 then (0x20, num, sz - 1)
                   else (0, num, sz))
             else (0, num, sz));
          sz = (if need_pfx then (if base = 16 then sz - 2 else sz - 1) else sz);
          tmp = (if num = 0 then [0x30]
                 else if base \<noteq> 10 then hex_digits base locase num
                 else put_dec num);
          i = int (length tmp);
          precision = (if i > precision then i else precision);
          sz = sz - precision;
          (lead, sz) = (if flags AND (ZEROPAD + LEFT) = 0 then (pad sz 0x20, min sz 0) else ([], sz));
          sign_out = (if sign \<noteq> 0 then [sign] else []);
          prefix = (if need_pfx then 0x30 # (if base = 16 then [0x58 OR locase] else []) else []);
          (mid, sz) = (if flags AND LEFT = 0
                       then (pad sz (if flags AND ZEROPAD \<noteq> 0 then 0x30 else 0x20), min sz 0)
                       else ([], sz));
          zeros = pad (precision - i) 0x30
      in lead @ sign_out @ prefix @ mid @ zeros @ rev tmp @ pad sz 0x20)"

text \<open>\<^verbatim>\<open>strnlen\<close> takes the precision as an unsigned number; a negative one is no limit.\<close>

definition string_out :: "u8 list option \<Rightarrow> int \<Rightarrow> int \<Rightarrow> u32 \<Rightarrow> u8 list" where
  "string_out s field_width precision flags =
     (let s = (case s of None \<Rightarrow> [0x3c, 0x4e, 0x55, 0x4c, 0x4c, 0x3e] | Some s \<Rightarrow> s);
          s = (if 0 \<le> precision then take (nat precision) s else s);
          fill = pad (field_width - int (length s)) 0x20
      in if flags AND LEFT = 0 then fill @ s else s @ fill)"

definition mac_address_string :: "u8 list \<Rightarrow> int \<Rightarrow> int \<Rightarrow> u32 \<Rightarrow> u8 list" where
  "mac_address_string addr field_width precision flags =
     (let colon = (if flags AND SPECIAL = 0 then [0x3a] else []);
          mac_addr = concat (map (\<lambda>i. pack_hex_byte (addr ! i) @ (if i \<noteq> 5 then colon else [])) [0..<6])
      in string_out (Some mac_addr) field_width precision (flags AND NOT SPECIAL))"

definition ip6_addr_string :: "u8 list \<Rightarrow> int \<Rightarrow> int \<Rightarrow> u32 \<Rightarrow> u8 list" where
  "ip6_addr_string addr field_width precision flags =
     (let colon = (if flags AND SPECIAL = 0 then [0x3a] else []);
          ip6_addr = concat (map (\<lambda>i. pack_hex_byte (addr ! (2 * i)) @ pack_hex_byte (addr ! (2 * i + 1))
            @ (if i \<noteq> 7 then colon else [])) [0..<8])
      in string_out (Some ip6_addr) field_width precision (flags AND NOT SPECIAL))"

definition ip4_addr_string :: "u8 list \<Rightarrow> int \<Rightarrow> int \<Rightarrow> u32 \<Rightarrow> u8 list" where
  "ip4_addr_string addr field_width precision flags =
     (let ip4_addr = concat (map (\<lambda>i. rev (put_dec_trunc (ucast (addr ! i)))
            @ (if i \<noteq> 3 then [0x2e] else [])) [0..<4])
      in string_out (Some ip4_addr) field_width precision (flags AND NOT SPECIAL))"

text \<open>An argument: an integer, a string (\<^verbatim>\<open>None\<close> is the null pointer), or a pointer and what it points to.\<close>

datatype va_arg = VInt u32 | VStr "u8 list option" | VPtr u32 "u8 list"

definition pointer_out :: "u8 list \<Rightarrow> u32 \<Rightarrow> u8 list \<Rightarrow> int \<Rightarrow> int \<Rightarrow> u32 \<Rightarrow> u8 list" where
  "pointer_out fmt ptr mem field_width precision flags =
     (if ptr = 0 then string_out (Some [0x28, 0x6e, 0x75, 0x6c, 0x6c, 0x29]) field_width precision flags
      else let c = deref fmt;
               c1 = deref (tl fmt);
               special = (if c = 0x6d \<or> c = 0x69 then flags OR SPECIAL else flags)
           in if c = 0x6d \<or> c = 0x4d then mac_address_string mem field_width precision special
              else if (c = 0x69 \<or> c = 0x49) \<and> c1 = 0x36
              then ip6_addr_string mem field_width precision special
              else if (c = 0x69 \<or> c = 0x49) \<and> c1 = 0x34
              then ip4_addr_string mem field_width precision special
              else let flags = (if c = 0x69 \<or> c = 0x49 then special AND NOT SPECIAL else flags);
                       flags = flags OR SMALL
                   in if field_width = - 1
                      then number ptr 16 8 precision (flags OR ZEROPAD)
                      else number ptr 16 field_width precision flags)"

section \<open>Formats\<close>

text \<open>Flags after a percent sign; the result is at the first other character.\<close>

fun parse_flags :: "u8 list \<Rightarrow> u32 \<Rightarrow> u32 \<times> u8 list" where
  "parse_flags [] flags = (flags, [])"
| "parse_flags (c # fmt) flags =
     (if c = 0x2d then parse_flags fmt (flags OR LEFT)
      else if c = 0x2b then parse_flags fmt (flags OR PLUS)
      else if c = 0x20 then parse_flags fmt (flags OR SPACE)
      else if c = 0x23 then parse_flags fmt (flags OR SPECIAL)
      else if c = 0x30 then parse_flags fmt (flags OR ZEROPAD)
      else (flags, c # fmt))"

definition is_digit :: "u8 \<Rightarrow> bool" where
  "is_digit c \<longleftrightarrow> 0x30 \<le> c \<and> c \<le> 0x39"

definition next_int :: "va_arg list \<Rightarrow> (int \<times> va_arg list) option" where
  "next_int args = (case args of VInt n # args \<Rightarrow> Some (sint n, args) | _ \<Rightarrow> None)"

definition parse_width ::
    "u8 list \<Rightarrow> u32 \<Rightarrow> va_arg list \<Rightarrow> (int \<times> u32 \<times> u8 list \<times> va_arg list) option" where
  "parse_width fmt flags args =
     (if is_digit (deref fmt)
      then (let (w, fmt) = skip_atoi fmt 0 in Some (w, flags, fmt, args))
      else if deref fmt = 0x2a
      then (case next_int args of
              None \<Rightarrow> None
            | Some (w, args) \<Rightarrow>
                Some (if w < 0 then (- w, flags OR LEFT, tl fmt, args) else (w, flags, tl fmt, args)))
      else Some (- 1, flags, fmt, args))"

definition parse_precision :: "u8 list \<Rightarrow> va_arg list \<Rightarrow> (int \<times> u8 list \<times> va_arg list) option" where
  "parse_precision fmt args =
     (if deref fmt = 0x2e
      then (let fmt = tl fmt
            in if is_digit (deref fmt)
               then (let (p, fmt) = skip_atoi fmt 0 in Some (max p 0, fmt, args))
               else if deref fmt = 0x2a
               then (case next_int args of
                       None \<Rightarrow> None
                     | Some (p, args) \<Rightarrow> Some (max p 0, tl fmt, args))
               else Some (0, fmt, args))
      else Some (- 1, fmt, args))"

text \<open>\<^verbatim>\<open>ll\<close> becomes \<^verbatim>\<open>L\<close>; 0 is no qualifier.\<close>

definition parse_qualifier :: "u8 list \<Rightarrow> u8 \<times> u8 list" where
  "parse_qualifier fmt =
     (let c = deref fmt
      in if c \<in> {0x68, 0x6c, 0x4c, 0x5a, 0x7a, 0x74}
         then (if c = 0x6c \<and> deref (tl fmt) = 0x6c then (0x4c, tl (tl fmt)) else (c, tl fmt))
         else (0, fmt))"

definition int_argument :: "u8 \<Rightarrow> u32 \<Rightarrow> u32 \<Rightarrow> u32" where
  "int_argument qualifier flags v =
     (if qualifier = 0x68
      then (if flags AND SIGN \<noteq> 0 then scast (ucast v :: u16) else ucast (ucast v :: u16))
      else v)"

definition int_conversion :: "u8 \<Rightarrow> u32 \<Rightarrow> (u32 \<times> u32) option" where
  "int_conversion c flags =
     (if c = 0x6f then Some (8, flags)
      else if c = 0x78 then Some (16, flags OR SMALL)
      else if c = 0x58 then Some (16, flags)
      else if c = 0x64 \<or> c = 0x69 then Some (10, flags OR SIGN)
      else if c = 0x75 then Some (10, flags)
      else None)"

text \<open>
  One conversion, at its conversion character: what is written, what is left of the format and of
  the arguments.  \<^verbatim>\<open>n\<close> stores the number of bytes written so far through its pointer argument;
  the last component collects these stores.  \<^verbatim>\<open>None\<close> is an argument that is missing or of another
  kind, which is undefined in C.
\<close>

definition convert ::
    "nat \<Rightarrow> u32 \<Rightarrow> int \<Rightarrow> int \<Rightarrow> u8 \<Rightarrow> u8 list \<Rightarrow> va_arg list
     \<Rightarrow> (u8 list \<times> u8 list \<times> va_arg list \<times> nat list) option" where
  "convert written flags width precision qualifier fmt args =
     (let c = deref fmt
      in if c = 0x63
         then (case args of
                 VInt v # args \<Rightarrow>
                   (let fill = pad (width - 1) 0x20
                    in Some (if flags AND LEFT = 0 then fill @ [ucast v] else ucast v # fill, tl fmt, args, []))
               | _ \<Rightarrow> None)
         else if c = 0x73
         then (case args of
                 VStr s # args \<Rightarrow> Some (string_out s width precision flags, tl fmt, args, [])
               | _ \<Rightarrow> None)
         else if c = 0x70
         then (case args of
                 VPtr ptr mem # args \<Rightarrow>
                   Some (pointer_out (tl fmt) ptr mem width precision flags,
                         dropWhile isalnum (tl fmt), args, [])
               | _ \<Rightarrow> None)
         else if c = 0x6e
         then (case args of VPtr _ _ # args \<Rightarrow> Some ([], tl fmt, args, [written]) | _ \<Rightarrow> None)
         else if c = 0x25 then Some ([0x25], tl fmt, args, [])
         else case int_conversion c flags of
                Some (base, flags) \<Rightarrow>
                  (case args of
                     VInt v # args \<Rightarrow>
                       Some (number (int_argument qualifier flags v) base width precision flags,
                             tl fmt, args, [])
                   | _ \<Rightarrow> None)
              | None \<Rightarrow> Some (if c \<noteq> 0 then ([0x25, c], tl fmt, args, []) else ([0x25], [], args, [])))"

definition directive ::
    "nat \<Rightarrow> u8 list \<Rightarrow> va_arg list \<Rightarrow> (u8 list \<times> u8 list \<times> va_arg list \<times> nat list) option" where
  "directive written fmt args =
     (let (flags, fmt) = parse_flags fmt 0
      in case parse_width fmt flags args of
           None \<Rightarrow> None
         | Some (width, flags, fmt, args) \<Rightarrow>
             (case parse_precision fmt args of
                None \<Rightarrow> None
              | Some (precision, fmt, args) \<Rightarrow>
                  (let (qualifier, fmt) = parse_qualifier fmt
                   in convert written flags width precision qualifier fmt args)))"

lemma parse_flags_length: "length (snd (parse_flags fmt flags)) \<le> length fmt"
  by (induction fmt flags rule: parse_flags.induct) (auto intro: le_SucI)

lemma skip_atoi_length: "length (snd (skip_atoi fmt i)) \<le> length fmt"
  by (induction fmt i rule: skip_atoi.induct) (auto intro: le_SucI)

lemma parse_width_length:
  "parse_width fmt flags args = Some (w, f, fmt', args') \<Longrightarrow> length fmt' \<le> length fmt"
  using skip_atoi_length [of fmt 0]
  by (auto simp: parse_width_def split: if_splits option.splits prod.splits)

lemma parse_precision_length:
  "parse_precision fmt args = Some (p, fmt', args') \<Longrightarrow> length fmt' \<le> length fmt"
  using skip_atoi_length [of "tl fmt" 0]
  by (auto simp: parse_precision_def Let_def split: if_splits option.splits prod.splits)

lemma parse_qualifier_length: "length (snd (parse_qualifier fmt)) \<le> length fmt"
  by (simp add: parse_qualifier_def Let_def)

lemma convert_length:
  "convert k flags w p q fmt args = Some (out, fmt', args', ns) \<Longrightarrow> length fmt' \<le> length fmt"
  using length_dropWhile_le [of isalnum "tl fmt"]
  by (auto simp: convert_def Let_def split: if_splits option.splits list.splits va_arg.splits)

lemma directive_length:
  "directive k fmt args = Some (out, fmt', args', ns) \<Longrightarrow> length fmt' \<le> length fmt"
  using parse_flags_length [of fmt 0]
  by (auto simp: directive_def dest!: parse_width_length parse_precision_length convert_length
      split: prod.splits option.splits) (metis le_trans parse_qualifier_length snd_conv)

function vsprintf_loop ::
    "nat \<Rightarrow> u8 list \<Rightarrow> va_arg list \<Rightarrow> (u8 list \<times> nat list) option" where
  "vsprintf_loop written [] args = Some ([], [])"
| "vsprintf_loop written (c # fmt) args =
     (if c \<noteq> 0x25
      then map_option (\<lambda>(out, ns). (c # out, ns)) (vsprintf_loop (written + 1) fmt args)
      else (case directive written fmt args of
              None \<Rightarrow> None
            | Some (out, fmt', args', ns) \<Rightarrow>
                map_option (\<lambda>(out', ns'). (out @ out', ns @ ns'))
                  (vsprintf_loop (written + length out) fmt' args')))"
  by pat_completeness auto
termination
  by (relation "measure (\<lambda>(written, fmt, args). length fmt)")
    (auto dest!: directive_length)

definition vsprintf :: "u8 list \<Rightarrow> va_arg list \<Rightarrow> (u8 list \<times> nat list) option" where
  "vsprintf fmt args = vsprintf_loop 0 fmt args"

section \<open>Decimal conversion is exact\<close>

text \<open>The digits of a number, least significant first.\<close>

fun digits_of :: "nat \<Rightarrow> nat \<Rightarrow> nat list" where
  "digits_of b n = (if b \<le> 1 \<or> n < b then [n] else n mod b # digits_of b (n div b))"

declare digits_of.simps [simp del]

lemma digits_of_small: "n < b \<Longrightarrow> digits_of b n = [n]"
  by (simp add: digits_of.simps)

lemma digits_of_step: "1 < b \<Longrightarrow> b \<le> n \<Longrightarrow> digits_of b n = n mod b # digits_of b (n div b)"
  by (simp add: digits_of.simps [of b n])

lemma tenth_205:
  assumes "(x :: nat) < 1000"
  shows "(x * 205) div 2048 = x div 10"
proof -
  define a b where "a = x div 10" and "b = x mod 10"
  have x: "x = 10 * a + b" and b: "b \<le> 9" by (simp_all add: a_def b_def)
  then have "a < 100" using assms by simp
  then have "2 * a + 205 * b < 2048" using b by simp
  moreover have "x * 205 = 2048 * a + (2 * a + 205 * b)" unfolding x by simp
  ultimately have "(x * 205) div 2048 = a" by simp
  then show ?thesis by (simp add: a_def)
qed

lemma tenth_13:
  assumes "(x :: nat) < 69"
  shows "(x * 13) div 128 = x div 10"
proof -
  define a b where "a = x div 10" and "b = x mod 10"
  have x: "x = 10 * a + b" and b: "b \<le> 9" by (simp_all add: a_def b_def)
  then have "2 * a + 13 * b < 128" using assms by (cases "b = 9") simp_all
  moreover have "x * 13 = 128 * a + (2 * a + 13 * b)" unfolding x by simp
  ultimately have "(x * 13) div 128 = a" by simp
  then show ?thesis by (simp add: a_def)
qed

lemma div_mod_10: "m = e + 10 * r \<Longrightarrow> m div 10 = e div 10 + r \<and> m mod 10 = e mod 10" for m :: nat
  by simp

lemma unat_and_15: "unat ((w :: u32) AND 0xf) = unat w mod 16"
proof -
  have "(0xf :: u32) = mask 4" by (simp add: mask_eq_exp_minus_1)
  then have "w AND 0xf = take_bit 4 w" by (simp only: take_bit_eq_mask)
  then have "unat (w AND 0xf) = take_bit 4 (unat w)" by (simp only: unsigned_take_bit_eq)
  then show ?thesis by (simp add: take_bit_eq_mod)
qed

lemma unat_drop: "unat (drop_bit k (w :: u32)) = unat w div 2 ^ k"
  by (simp only: unat_drop_bit_eq) (simp only: drop_bit_eq_div)

lemma u32_of_unat: "unat (w :: u32) = n \<Longrightarrow> w = of_nat n"
  by (metis word_unat_eq_iff unat_of_nat_u32 unat_u32_less)

text \<open>The five digits, with the carries the code computes, on natural numbers.\<close>

lemma dec_split:
  fixes n c0 c1 c2 c3 :: nat
  defines "e0 \<equiv> 6 * (c3 + c2 + c1) + c0"
  defines "e1 \<equiv> e0 div 10 + 9 * c3 + 5 * c2 + c1"
  defines "e2 \<equiv> e1 div 10 + 2 * c2"
  defines "e3 \<equiv> e2 div 10 + 4 * c3"
  assumes n: "n = c0 + 16 * c1 + 256 * c2 + 4096 * c3"
    and c: "c0 < 16" "c1 < 16" "c2 < 16" "c3 \<le> 24"
  shows "e0 < 1000" "e1 < 1000" "e2 < 69" "e3 < 1000"
    and "n mod 10 = e0 mod 10" "n div 10 = e1 + 10 * (2 * c2 + 40 * c3)"
    and "n div 10 mod 10 = e1 mod 10" "n div 10 div 10 = e2 + 40 * c3"
    and "n div 10 div 10 mod 10 = e2 mod 10" "n div 10 div 10 div 10 = e3"
proof -
  show e0: "e0 < 1000" using c by (simp add: e0_def)
  have "e0 div 10 \<le> 34" using c by (simp add: e0_def)
  then show "e1 < 1000" using c by (simp add: e1_def)
  have "e1 div 10 \<le> 34" using \<open>e0 div 10 \<le> 34\<close> c by (simp add: e1_def)
  then show e2: "e2 < 69" using c by (simp add: e2_def)
  then have "e2 div 10 \<le> 6" by simp
  then show "e3 < 1000" using c by (simp add: e3_def)
  have "n = e0 + 10 * (c1 + 25 * c2 + 409 * c3)" using n by (simp add: e0_def)
  from div_mod_10 [OF this] have t: "n div 10 = e1 + 10 * (2 * c2 + 40 * c3)" "n mod 10 = e0 mod 10"
    by (simp_all add: e1_def)
  then show "n div 10 = e1 + 10 * (2 * c2 + 40 * c3)" "n mod 10 = e0 mod 10" by simp_all
  from div_mod_10 [OF t(1)] have h: "n div 10 div 10 = e2 + 40 * c3" "n div 10 mod 10 = e1 mod 10"
    by (simp_all add: e2_def)
  then show "n div 10 div 10 = e2 + 40 * c3" "n div 10 mod 10 = e1 mod 10" by simp_all
  have "n div 10 div 10 = e2 + 10 * (4 * c3)" using h(1) by simp
  from div_mod_10 [OF this] show "n div 10 div 10 div 10 = e3" "n div 10 div 10 mod 10 = e2 mod 10"
    by (simp_all add: e3_def)
qed

definition dec_char :: "nat \<Rightarrow> u8" where
  "dec_char d = of_nat (d + 48)"

lemma ascii_digit_eq: "unat d < 10 \<Longrightarrow> ascii_digit d = dec_char (unat d)"
proof -
  assume "unat d < 10"
  have "ascii_digit d = of_nat (unat (d + 0x30))"
    by (simp add: ascii_digit_def)
  also have "unat (d + 0x30) = unat d + 48"
    using \<open>unat d < 10\<close> by (simp add: unat_word_ariths)
  finally show ?thesis by (simp add: dec_char_def)
qed

text \<open>The words of the code hold these numbers.\<close>

lemma tenth_word:
  "unat (x :: u32) < 1000 \<Longrightarrow> unat (drop_bit 11 (x * 0xcd)) = unat x div 10"
  "unat x < 1000 \<Longrightarrow> unat (x - 10 * drop_bit 11 (x * 0xcd)) = unat x mod 10"
  "unat x < 69 \<Longrightarrow> unat (drop_bit 7 (x * 0xd)) = unat x div 10"
  "unat x < 69 \<Longrightarrow> unat (x - 10 * drop_bit 7 (x * 0xd)) = unat x mod 10"
proof -
  show q: "unat (drop_bit 11 (x * 0xcd)) = unat x div 10" if "unat x < 1000"
    using that tenth_205 [OF that] by (simp add: unat_drop unat_word_ariths)
  show q': "unat (drop_bit 7 (x * 0xd)) = unat x div 10" if "unat x < 69"
    using that tenth_13 [OF that] by (simp add: unat_drop unat_word_ariths)
  have m: "unat (x - 10 * w) = unat x mod 10" if "unat w = unat x div 10" "unat x < 1000" for w
  proof -
    have "unat (10 * w) = 10 * (unat x div 10)"
      using that by (simp add: unat_word_ariths)
    then show ?thesis by (simp add: unat_sub_if' minus_mult_div_eq_mod)
  qed
  show "unat (x - 10 * drop_bit 11 (x * 0xcd)) = unat x mod 10" if "unat x < 1000"
    using m [OF q [OF that] that] .
  show "unat (x - 10 * drop_bit 7 (x * 0xd)) = unat x mod 10" if "unat x < 69"
    using m [OF q' [OF that]] that by simp
qed

lemma dec_words:
  fixes q :: u32
  defines "w1 \<equiv> drop_bit 4 q AND 0xf" and "w2 \<equiv> drop_bit 8 q AND 0xf" and "w3 \<equiv> drop_bit 12 q"
  defines "x0 \<equiv> 6 * (w3 + w2 + w1) + (q AND 0xf)"
  defines "x1 \<equiv> drop_bit 11 (x0 * 0xcd) + 9 * w3 + 5 * w2 + w1"
  defines "x2 \<equiv> drop_bit 11 (x1 * 0xcd) + 2 * w2"
  defines "x3 \<equiv> drop_bit 7 (x2 * 0xd) + 4 * w3"
  assumes q: "unat q < 100000"
  shows "unat (x0 - 10 * drop_bit 11 (x0 * 0xcd)) = unat q mod 10"
    "unat (x1 - 10 * drop_bit 11 (x1 * 0xcd)) = unat q div 10 mod 10"
    "unat (x2 - 10 * drop_bit 7 (x2 * 0xd)) = unat q div 10 div 10 mod 10"
    "unat (x3 - 10 * drop_bit 11 (x3 * 0xcd)) = unat q div 10 div 10 div 10 mod 10"
    "unat (drop_bit 11 (x3 * 0xcd)) = unat q div 10 div 10 div 10 div 10"
    "x1 = 0 \<longleftrightarrow> unat q div 10 = 0" "x2 = 0 \<and> w3 = 0 \<longleftrightarrow> unat q div 10 div 10 = 0"
    "x3 = 0 \<longleftrightarrow> unat q div 10 div 10 div 10 = 0"
proof -
  define n where "n = unat q"
  define c0 c1 c2 c3 where "c0 = n mod 16" and "c1 = n div 16 mod 16" and "c2 = n div 256 mod 16"
    and "c3 = n div 4096"
  have u: "unat (q AND 0xf) = c0" "unat w1 = c1" "unat w2 = c2" "unat w3 = c3"
    by (simp_all add: w1_def w2_def w3_def unat_and_15 unat_drop c0_def c1_def c2_def c3_def n_def)
  have cb: "c0 < 16" "c1 < 16" "c2 < 16" "c3 \<le> 24"
    using q by (simp_all add: c0_def c1_def c2_def c3_def n_def)
  have "n div 16 = 16 * (n div 256) + c1" "n div 256 = 16 * c3 + c2"
    using div_mult_mod_eq [of "n div 16" 16] div_mult_mod_eq [of "n div 256" 16]
      div_mult2_eq [of n 16 16] div_mult2_eq [of n 256 16]
    by (simp_all add: c1_def c2_def c3_def)
  moreover have "n = 16 * (n div 16) + c0" by (simp add: c0_def)
  ultimately have n: "n = c0 + 16 * c1 + 256 * c2 + 4096 * c3" by linarith
  note sp = dec_split [OF n cb]
  define e0 where "e0 = 6 * (c3 + c2 + c1) + c0"
  define e1 where "e1 = e0 div 10 + 9 * c3 + 5 * c2 + c1"
  define e2 where "e2 = e1 div 10 + 2 * c2"
  define e3 where "e3 = e2 div 10 + 4 * c3"
  note sp = sp [folded e0_def, folded e1_def, folded e2_def, folded e3_def]
  have x0: "unat x0 = e0"
    using u cb by (simp add: x0_def e0_def unat_word_ariths)
  have b0: "e0 div 10 \<le> 99" using sp(1) by simp
  have x1: "unat x1 = e1"
    using u cb b0 tenth_word(1) [of x0] x0 sp(1) by (simp add: x1_def e1_def unat_word_ariths)
  have b1: "e1 div 10 \<le> 99" using sp(2) by simp
  have x2: "unat x2 = e2"
    using u cb b1 tenth_word(1) [of x1] x1 sp(2) by (simp add: x2_def e2_def unat_word_ariths)
  have b2: "e2 div 10 \<le> 6" using sp(3) by simp
  have x3: "unat x3 = e3"
    using u cb b2 tenth_word(3) [of x2] x2 sp(3) by (simp add: x3_def e3_def unat_word_ariths)
  note [simp] = n_def [symmetric]
  show "unat (x0 - 10 * drop_bit 11 (x0 * 0xcd)) = unat q mod 10"
    using tenth_word(2) [of x0] x0 sp(1,5) by simp
  show "unat (x1 - 10 * drop_bit 11 (x1 * 0xcd)) = unat q div 10 mod 10"
    using tenth_word(2) [of x1] x1 sp(2,7) by (simp only: n_def [symmetric])
  show "unat (x2 - 10 * drop_bit 7 (x2 * 0xd)) = unat q div 10 div 10 mod 10"
    using tenth_word(4) [of x2] x2 sp(3,9) by (simp only: n_def [symmetric])
  show "unat (x3 - 10 * drop_bit 11 (x3 * 0xcd)) = unat q div 10 div 10 div 10 mod 10"
    using tenth_word(2) [of x3] x3 sp(4,10) by (simp only: n_def [symmetric])
  show "unat (drop_bit 11 (x3 * 0xcd)) = unat q div 10 div 10 div 10 div 10"
    using tenth_word(1) [of x3] x3 sp(4,10) by (simp only: n_def [symmetric])
  have z: "x = 0 \<longleftrightarrow> unat x = 0" for x :: u32 by (rule unat_eq_zero [symmetric])
  show "x1 = 0 \<longleftrightarrow> unat q div 10 = 0"
    unfolding z [of x1] x1 n_def [symmetric] sp(6) by (auto simp: e1_def)
  show "x2 = 0 \<and> w3 = 0 \<longleftrightarrow> unat q div 10 div 10 = 0"
    unfolding z [of x2] z [of w3] x2 u n_def [symmetric] sp(8) by auto
  show "x3 = 0 \<longleftrightarrow> unat q div 10 div 10 div 10 = 0"
    unfolding z [of x3] x3 n_def [symmetric] sp(10) ..
qed

lemma put_dec_full_eq:
  assumes "unat q < 100000"
  shows "put_dec_full q = map dec_char [unat q mod 10, unat q div 10 mod 10,
    unat q div 10 div 10 mod 10, unat q div 10 div 10 div 10 mod 10,
    unat q div 10 div 10 div 10 div 10]"
proof -
  note w = dec_words [OF assms]
  have "unat q div 10 div 10 div 10 div 10 < 10" using assms by simp
  then show ?thesis
    unfolding put_dec_full_def Let_def list.map
    by (simp only: ascii_digit_eq w mod_less_divisor zero_less_numeral)
qed

lemma put_dec_trunc_eq:
  assumes "unat q < 100000"
  shows "put_dec_trunc q = map dec_char (digits_of 10 (unat q))"
proof -
  note w = dec_words [OF assms]
  define n where "n = unat q"
  have top: "n div 10 div 10 div 10 div 10 < 10" using assms by (simp add: n_def)
  have step: "digits_of 10 k = (if k div 10 = 0 then [k mod 10] else k mod 10 # digits_of 10 (k div 10))" for k
    by (cases "k < 10") (auto simp: digits_of_small digits_of_step)
  have dig: "digits_of 10 n =
     (if n div 10 = 0 then [n mod 10]
      else if n div 10 div 10 = 0 then [n mod 10, n div 10 mod 10]
      else if n div 10 div 10 div 10 = 0 then [n mod 10, n div 10 mod 10, n div 10 div 10 mod 10]
      else if n div 10 div 10 div 10 div 10 = 0
      then [n mod 10, n div 10 mod 10, n div 10 div 10 mod 10, n div 10 div 10 div 10 mod 10]
      else [n mod 10, n div 10 mod 10, n div 10 div 10 mod 10, n div 10 div 10 div 10 mod 10,
        n div 10 div 10 div 10 div 10])"
    unfolding step [of n] step [of "n div 10"] step [of "n div 10 div 10"]
      step [of "n div 10 div 10 div 10"] digits_of_small [OF top] if_distrib [of "(#) _"] by (rule refl)
  have z: "x = 0 \<longleftrightarrow> unat x = 0" for x :: u32 by (rule unat_eq_zero [symmetric])
  note ad = ascii_digit_eq
  show ?thesis
    unfolding put_dec_trunc_def Let_def n_def [symmetric] dig
    using top
    by (simp only: w [folded n_def] ad [of "_ - _"] if_distrib [of "map dec_char"] list.map
        mod_less_divisor zero_less_numeral z [of "drop_bit 11 _"] ascii_digit_eq if_cancel)
qed

lemma mod_ten_cut: "(m mod (10 * k)) div 10 = m div 10 mod k" "(m mod (10 * k)) mod 10 = m mod 10" for m :: nat
  by (simp_all add: mod_mult2_eq)

lemma mod_cuts:
  "(m mod 100000) div 10 = m div 10 mod 10000" "(m mod 100000) mod 10 = m mod 10"
  "(m mod 10000) div 10 = m div 10 mod 1000" "(m mod 10000) mod 10 = m mod 10"
  "(m mod 1000) div 10 = m div 10 mod 100" "(m mod 1000) mod 10 = m mod 10"
  "(m mod 100) div 10 = m div 10 mod 10" "(m mod 100) mod 10 = m mod 10" for m :: nat
proof -
  have k: "(100000 :: nat) = 10 * 10000" "(10000 :: nat) = 10 * 1000" "(1000 :: nat) = 10 * 100"
    "(100 :: nat) = 10 * 10" by simp_all
  show "(m mod 100000) div 10 = m div 10 mod 10000" "(m mod 100000) mod 10 = m mod 10"
    using mod_ten_cut [of m 10000] unfolding k(1) [symmetric] .
  show "(m mod 10000) div 10 = m div 10 mod 1000" "(m mod 10000) mod 10 = m mod 10"
    using mod_ten_cut [of m 1000] unfolding k(2) [symmetric] .
  show "(m mod 1000) div 10 = m div 10 mod 100" "(m mod 1000) mod 10 = m mod 10"
    using mod_ten_cut [of m 100] unfolding k(3) [symmetric] .
  show "(m mod 100) div 10 = m div 10 mod 10" "(m mod 100) mod 10 = m mod 10"
    using mod_ten_cut [of m 10] unfolding k(4) [symmetric] .
qed

lemma one_lt_ten: "(1 :: nat) < 10" by simp

lemma digits_of_five:
  assumes "100000 \<le> n"
  shows "digits_of 10 n = [n mod 10, n div 10 mod 10, n div 10 div 10 mod 10,
    n div 10 div 10 div 10 mod 10, n div 10 div 10 div 10 div 10 mod 10] @ digits_of 10 (n div 100000)"
proof -
  have "10 \<le> n" "10 \<le> n div 10" "10 \<le> n div 10 div 10" "10 \<le> n div 10 div 10 div 10"
    "10 \<le> n div 10 div 10 div 10 div 10"
    using assms by (simp_all add: less_eq_div_iff_mult_less_eq)
  then have "digits_of 10 n = n mod 10 # n div 10 mod 10 # n div 10 div 10 mod 10 #
    n div 10 div 10 div 10 mod 10 # n div 10 div 10 div 10 div 10 mod 10
      # digits_of 10 (n div 10 div 10 div 10 div 10 div 10)"
    by (simp only: digits_of_step [of 10, OF one_lt_ten])
  moreover have "n div 10 div 10 div 10 div 10 div 10 = n div 100000"
    by (simp add: div_mult2_eq [symmetric])
  ultimately show ?thesis by simp
qed

lemma put_dec_eq: "put_dec num = map dec_char (digits_of 10 (unat num))"
proof (induction num rule: put_dec.induct)
  case (1 num)
  show ?case
  proof (cases "num < 100000")
    case True
    then have "unat num < 100000" by (simp add: word_less_nat_alt)
    with True show ?thesis by (simp add: put_dec.simps [of num] put_dec_trunc_eq)
  next
    case False
    then have ge: "100000 \<le> unat num" by (simp add: word_less_nat_alt)
    let ?r = "unat num mod 100000"
    have r: "unat (num mod 100000) = ?r" and d: "unat (num div 100000) = unat num div 100000"
      by (simp_all add: unat_mod unat_div)
    have "put_dec num = put_dec_full (num mod 100000) @ put_dec (num div 100000)"
      using False by (simp add: put_dec.simps [of num])
    also have "put_dec_full (num mod 100000)
        = map dec_char [?r mod 10, ?r div 10 mod 10, ?r div 10 div 10 mod 10,
            ?r div 10 div 10 div 10 mod 10, ?r div 10 div 10 div 10 div 10]"
      using put_dec_full_eq [of "num mod 100000"] unfolding r by simp
    also have "put_dec (num div 100000) = map dec_char (digits_of 10 (unat num div 100000))"
      using "1.IH" [OF False] by (simp only: d)
    finally show ?thesis
      unfolding digits_of_five [OF ge] mod_cuts map_append .
  qed
qed

section \<open>Parsing undoes printing\<close>

definition digit_char :: "u8 \<Rightarrow> nat \<Rightarrow> u8" where
  "digit_char locase d = digits ! d OR locase"

lemma ismask_values:
  "ismask 0x30 = 4" "ismask 0x31 = 4" "ismask 0x32 = 4" "ismask 0x33 = 4" "ismask 0x34 = 4"
  "ismask 0x35 = 4" "ismask 0x36 = 4" "ismask 0x37 = 4" "ismask 0x38 = 4" "ismask 0x39 = 4"
  "ismask 0x41 = 0x41" "ismask 0x42 = 0x41" "ismask 0x43 = 0x41" "ismask 0x44 = 0x41" "ismask 0x45 = 0x41"
  "ismask 0x46 = 0x41" "ismask 0x61 = 0x42" "ismask 0x62 = 0x42" "ismask 0x63 = 0x42" "ismask 0x64 = 0x42"
  "ismask 0x65 = 0x42" "ismask 0x66 = 0x42"
  by (simp_all add: ismask_def ctype_def)

lemmas digit_eval = digits_def digit_value_def isxdigit_def isdigit_def islower_def toupper_def
  ismask_values

lemma digit_char_values:
  "\<forall>d \<in> set [0..<16]. isxdigit (digits ! d OR 0) \<and> digit_value (digits ! d OR 0) = of_nat d
    \<and> (digits ! d OR 0 = 0x30 \<longleftrightarrow> d = 0)"
  "\<forall>d \<in> set [0..<16]. isxdigit (digits ! d OR 0x20) \<and> digit_value (digits ! d OR 0x20) = of_nat d
    \<and> (digits ! d OR 0x20 = 0x30 \<longleftrightarrow> d = 0)"
  by (simp_all add: digit_eval upt_rec del: atLeastLessThan_upt set_upt)

lemma digit_char_value:
  assumes "d < 16" "locase = 0 \<or> locase = 0x20"
  shows "isxdigit (digit_char locase d)" "digit_value (digit_char locase d) = of_nat d"
    "digit_char locase d = 0x30 \<longleftrightarrow> d = 0"
  using assms digit_char_values [THEN bspec, of d] by (auto simp: digit_char_def)

lemma dec_char_eq:
  assumes "d < 10" "locase = 0 \<or> locase = 0x20"
  shows "dec_char d = digit_char locase d"
proof -
  have "\<forall>d \<in> set [0..<10]. dec_char d = digits ! d OR 0 \<and> dec_char d = digits ! d OR 0x20"
    by (simp add: digits_def dec_char_def upt_rec del: set_upt)
  then have "dec_char d = digits ! d OR 0" "dec_char d = digits ! d OR 0x20"
    using assms(1) by (metis atLeastLessThan_iff le0 set_upt)+
  with assms(2) show ?thesis by (metis digit_char_def)
qed

lemma digits_of_less: "1 < b \<Longrightarrow> d \<in> set (digits_of b n) \<Longrightarrow> d < b"
  by (induction b n rule: digits_of.induct) (subst (asm) digits_of.simps, auto split: if_splits)

lemma digits_of_not_Nil: "digits_of b n \<noteq> []"
  by (subst digits_of.simps) simp

lemma digits_of_last: "1 < b \<Longrightarrow> 0 < n \<Longrightarrow> last (digits_of b n) \<noteq> 0"
proof (induction b n rule: digits_of.induct)
  case (1 b n)
  show ?case
  proof (cases "n < b")
    case True
    with "1.prems" show ?thesis by (simp add: digits_of_small)
  next
    case False
    then have "0 < n div b" using "1.prems" by (simp add: div_greater_zero_iff)
    with False "1.IH" "1.prems" show ?thesis
      by (simp add: digits_of_step digits_of_not_Nil)
  qed
qed

lemma digits_of_value:
  "1 < b \<Longrightarrow> foldl (\<lambda>r d. r * of_nat b + of_nat d) 0 (rev (digits_of b n)) = (of_nat n :: u32)"
proof (induction b n rule: digits_of.induct)
  case (1 b n)
  show ?case
  proof (cases "n < b")
    case True
    then show ?thesis by (simp add: digits_of_small)
  next
    case False
    have "of_nat (n div b) * of_nat b + of_nat (n mod b) = (of_nat (n div b * b + n mod b) :: u32)"
      by (simp only: of_nat_add of_nat_mult)
    with False "1.IH" "1.prems" show ?thesis
      by (simp add: digits_of_step)
  qed
qed

lemma strtoul_loop_digits:
  assumes "1 < b" "b \<le> 16" "\<forall>d \<in> set ds. d < b" "locase = 0 \<or> locase = 0x20"
  shows "strtoul_loop (of_nat b) r (map (digit_char locase) ds @ rest)
    = strtoul_loop (of_nat b) (foldl (\<lambda>r d. r * of_nat b + of_nat d) r ds) rest"
  using assms(3)
proof (induction ds arbitrary: r)
  case (Cons d ds)
  then have d: "d < b" "d < 16" using assms(2) by simp_all
  have "(of_nat d :: u32) < of_nat b"
    using d assms(2) by (simp add: word_less_nat_alt)
  with d Cons show ?case
    using digit_char_value(1,2) [OF d(2) assms(4)] by simp
qed simp

lemma unat_and_mask: "unat ((w :: u32) AND mask k) = unat w mod 2 ^ k"
  by (simp only: take_bit_eq_mask [symmetric] unsigned_take_bit_eq) (simp add: take_bit_eq_mod)

lemma hex_digits_eq:
  assumes "base = 8 \<or> base = 16"
  shows "hex_digits base locase num = map (digit_char locase) (digits_of (unat base) (unat num))"
  using assms
proof (induction base locase num rule: hex_digits.induct)
  case (1 base locase num)
  define k where "k = (if base = (16 :: u32) then 4 else 3 :: nat)"
  have ub: "unat base = 2 ^ k" using "1.prems" by (auto simp: k_def)
  have "(0xff :: u32) AND (base - 1) = mask k"
    using "1.prems" by (auto simp: k_def mask_eq_exp_minus_1)
  then have lo: "unat (num AND 0xff AND (base - 1)) = unat num mod unat base"
    unfolding and.assoc ub by (simp only: unat_and_mask)
  have hi: "unat (drop_bit k num) = unat num div unat base"
    by (simp only: unat_drop ub)
  have nz: "drop_bit k num \<noteq> 0 \<longleftrightarrow> unat base \<le> unat num"
  proof -
    have "drop_bit k num \<noteq> 0 \<longleftrightarrow> 0 < unat num div unat base"
      by (simp only: hi [symmetric] unat_gt_0)
    then show ?thesis by (simp add: div_greater_zero_iff ub)
  qed
  have unf: "hex_digits base locase num
      = digit_char locase (unat num mod unat base)
        # (if unat base \<le> unat num then hex_digits base locase (drop_bit k num) else [])"
    by (subst hex_digits.simps) (simp only: Let_def lo nz digit_char_def flip: k_def)
  have b1: "1 < unat base" using "1.prems" by auto
  show ?case
  proof (cases "unat base \<le> unat num")
    case True
    then have "hex_digits base locase (drop_bit k num)
        = map (digit_char locase) (digits_of (unat base) (unat (drop_bit k num)))"
      using "1.IH" [OF refl k_def] nz "1.prems" by blast
    with True show ?thesis
      unfolding unf hi by (simp add: digits_of_step [OF b1 True])
  next
    case False
    then show ?thesis unfolding unf by (simp add: digits_of_small)
  qed
qed

text \<open>Printed without a width or a precision, a number is its digits.\<close>

lemma number_plain:
  assumes "base \<in> {8, 10, 16}" "flags = 0 \<or> flags = SMALL"
  shows "number n base (- 1) (- 1) flags
    = map (digit_char (ucast flags)) (rev (digits_of (unat base) (unat n)))"
proof -
  have loc: "(ucast flags :: u8) = 0 \<or> (ucast flags :: u8) = 0x20"
    using assms(2) by (auto simp: SMALL_def)
  define tmp where "tmp = (if n = 0 then [0x30] else if base \<noteq> 10 then hex_digits base (ucast flags) n
    else put_dec n)"
  have "tmp = map (digit_char (ucast flags)) (digits_of (unat base) (unat n))"
  proof (cases "n = 0")
    case True
    have "1 < unat base" using assms(1) by auto
    with True show ?thesis
      using digit_char_value(3) [of 0, OF _ loc] by (simp add: tmp_def digits_of_small)
  next
    case False
    show ?thesis
    proof (cases "base = 10")
      case True
      have "map dec_char (digits_of 10 (unat n)) = map (digit_char (ucast flags)) (digits_of 10 (unat n))"
        using dec_char_eq [OF _ loc] digits_of_less [of 10] by auto
      with True False show ?thesis by (simp add: tmp_def put_dec_eq)
    next
      case b: False
      with False assms(1) show ?thesis by (simp add: tmp_def hex_digits_eq)
    qed
  qed
  moreover have f: "flags AND SPECIAL = 0" "flags AND LEFT = 0" "flags AND SIGN = 0"
      "flags AND ZEROPAD = 0" "flags AND (ZEROPAD + LEFT) = 0" "flags AND SMALL = flags"
    using assms(2) by (auto simp: SPECIAL_def SMALL_def LEFT_def ZEROPAD_def SIGN_def)
  have "number n base (- 1) (- 1) flags = rev tmp"
    by (simp add: number_def f pad_def flip: tmp_def)
  ultimately show ?thesis by (simp add: rev_map)
qed

lemma number_prefixed:
  "number n 16 (- 1) (- 1) (SMALL OR SPECIAL) = 0x30 # 0x78 # number n 16 (- 1) (- 1) SMALL"
proof -
  define tmp where "tmp = (if n = 0 then [0x30] else if (16 :: u32) \<noteq> 10 then hex_digits 16 (ucast SMALL) n
    else put_dec n)"
  have f: "(SMALL OR SPECIAL) AND SPECIAL = SPECIAL" "(SMALL OR SPECIAL) AND LEFT = 0"
      "(SMALL OR SPECIAL) AND SIGN = 0" "(SMALL OR SPECIAL) AND ZEROPAD = 0"
      "(SMALL OR SPECIAL) AND (ZEROPAD + LEFT) = 0" "(SMALL OR SPECIAL) AND SMALL = SMALL"
      "SPECIAL \<noteq> 0" "SMALL AND SPECIAL = 0" "SMALL AND LEFT = 0" "SMALL AND SIGN = 0"
      "SMALL AND ZEROPAD = 0" "SMALL AND (ZEROPAD + LEFT) = 0" "SMALL AND SMALL = SMALL"
      "(0x58 :: u8) OR ucast SMALL = 0x78"
    by (simp_all add: SPECIAL_def SMALL_def LEFT_def ZEROPAD_def SIGN_def)
  have "number n 16 (- 1) (- 1) (SMALL OR SPECIAL) = 0x30 # 0x78 # rev tmp"
    by (simp add: number_def f pad_def flip: tmp_def split del: if_split)
  moreover have "number n 16 (- 1) (- 1) SMALL = rev tmp"
    by (simp add: number_def f pad_def flip: tmp_def split del: if_split)
  ultimately show ?thesis by simp
qed

lemma strtoul_loop_stop: "\<not> isxdigit (deref rest) \<Longrightarrow> strtoul_loop base r rest = (r, rest)"
  by (cases rest) simp_all

lemma strtoul_loop_number:
  assumes "base \<in> {8, 10, 16}" "flags = 0 \<or> flags = SMALL" "\<not> isxdigit (deref rest)"
  shows "strtoul_loop base 0 (number n base (- 1) (- 1) flags @ rest) = (n, rest)"
proof -
  have b: "1 < unat base" "unat base \<le> 16" using assms(1) by auto
  have loc: "(ucast flags :: u8) = 0 \<or> (ucast flags :: u8) = 0x20"
    using assms(2) by (auto simp: SMALL_def)
  have "strtoul_loop (of_nat (unat base)) 0 (map (digit_char (ucast flags)) (rev (digits_of (unat base) (unat n))) @ rest)
      = strtoul_loop (of_nat (unat base)) (of_nat (unat n)) rest"
    using digits_of_less [OF b(1)]
    by (subst strtoul_loop_digits [OF b _ loc]) (simp only: set_rev, blast, simp only: digits_of_value [OF b(1)])
  then show ?thesis
    using strtoul_loop_stop [OF assms(3)] by (simp add: number_plain [OF assms(1,2)])
qed

lemma number_first:
  assumes "base \<in> {8, 10, 16}" "flags = 0 \<or> flags = SMALL"
  obtains c cs where "number n base (- 1) (- 1) flags = c # cs" "isxdigit c"
    "c = 0x30 \<longleftrightarrow> n = 0" "n = 0 \<Longrightarrow> cs = []"
proof -
  have b: "1 < unat base" "unat base \<le> 16" using assms(1) by auto
  have loc: "(ucast flags :: u8) = 0 \<or> (ucast flags :: u8) = 0x20"
    using assms(2) by (auto simp: SMALL_def)
  let ?ds = "digits_of (unat base) (unat n)"
  define d where "d = last ?ds"
  have split: "rev ?ds = d # tl (rev ?ds)"
    unfolding d_def by (metis digits_of_not_Nil hd_rev list.collapse rev_is_Nil_conv)
  have d16: "d < 16"
    using digits_of_less [OF b(1), of d "unat n"] b(2) last_in_set [OF digits_of_not_Nil] d_def
    by fastforce
  have z: "digits_of (unat base) 0 = [0]" using b by (simp add: digits_of_small)
  have d0: "d = 0 \<longleftrightarrow> n = 0"
    using digits_of_last [OF b(1), of "unat n"] z unfolding d_def
    by (cases "n = 0") (auto simp: unat_gt_0)
  have num: "number n base (- 1) (- 1) flags
      = digit_char (ucast flags) d # map (digit_char (ucast flags)) (tl (rev ?ds))"
    unfolding number_plain [OF assms] by (subst split) simp
  show ?thesis
    by (rule that [OF num]) (simp_all add: digit_char_value [OF d16 loc] d0 z)
qed

text \<open>Parsing undoes printing: a number printed by \<^verbatim>\<open>number\<close> in base 8, 10 or 16, in
  upper or lower case, is read back by \<^verbatim>\<open>simple_strtoul\<close> with the same base,
  whatever follows it as long as that is neither a hexadecimal digit nor an x; the end
  pointer is left at what follows. With the \<^verbatim>\<open>0x\<close> prefix it is read back
  under any base.\<close>

theorem strtoul_number:
  assumes "base \<in> {8, 10, 16}" "flags = 0 \<or> flags = SMALL"
    "\<not> isxdigit (deref rest)" "deref rest \<noteq> 0x78"
  shows "simple_strtoul (number n base (- 1) (- 1) flags @ rest) base = (n, rest)
    \<and> simple_strtoul (number n 16 (- 1) (- 1) (SMALL OR SPECIAL) @ rest) b = (n, rest)"
proof
  have b0: "base \<noteq> 0" using assms(1) by auto
  obtain c cs where num: "number n base (- 1) (- 1) flags = c # cs" "isxdigit c"
      "c = 0x30 \<longleftrightarrow> n = 0" "n = 0 \<Longrightarrow> cs = []"
    by (rule number_first [OF assms(1,2), where n = n]) blast
  have loop: "strtoul_loop base 0 (c # cs @ rest) = (n, rest)"
    using strtoul_loop_number [OF assms(1-3), of n] by (simp only: num(1) append_Cons)
  show "simple_strtoul (number n base (- 1) (- 1) flags @ rest) base = (n, rest)"
  proof (cases "n = 0")
    case True
    with num assms(3,4) b0 show ?thesis
      by (simp add: simple_strtoul_def strtoul_loop_stop)
  next
    case False
    with num(1,3) loop b0 show ?thesis by (simp add: simple_strtoul_def del: strtoul_loop.simps)
  qed
  obtain c cs where hex: "number n 16 (- 1) (- 1) SMALL = c # cs" "isxdigit c"
    using number_first [of 16 SMALL n] by blast
  have "strtoul_loop 16 0 (c # cs @ rest) = (n, rest)"
    using strtoul_loop_number [of 16 SMALL, OF _ _ assms(3), of n] unfolding hex(1) append_Cons by simp
  with hex show "simple_strtoul (number n 16 (- 1) (- 1) (SMALL OR SPECIAL) @ rest) b = (n, rest)"
    by (simp add: simple_strtoul_def number_prefixed del: strtoul_loop.simps)
qed

theorem strtoul_number_witness:
  "simple_strtoul (number 48879 16 (- 1) (- 1) SMALL @ [0x20]) 16 = (48879, [0x20])"
  by (rule strtoul_number [THEN conjunct1]) (simp_all add: isxdigit_def ismask_def ctype_def)

text \<open>C39:
  The digits that the multiply-and-shift code produces five at a time are the decimal
  digits of the number, least significant first, for every 32-bit number.\<close>

theorem put_dec_digits: "put_dec num = map (\<lambda>d. 0x30 + of_nat d) (digits_of 10 (unat num))"
  unfolding put_dec_eq by (simp add: dec_char_def)

end
