(* ===== verification/Env.thy ===== *)
theory Env
  imports Prelude Crc Vsprintf
begin

text \<open>
  The environment: \<^verbatim>\<open>common/env_common.c\<close> and \<^verbatim>\<open>common/cmd_nvedit.c\<close> (one copy, not embedded,
  \<^verbatim>\<open>CONFIG_ENV_OVERWRITE\<close>).  The variables are one byte array of NUL-terminated \<^verbatim>\<open>name=value\<close>
  strings that ends with an empty string; indices into it are naturals, an access outside the
  array is \<^verbatim>\<open>None\<close>.  The theorems show that the byte shuffling of \<^verbatim>\<open>_do_setenv\<close> implements
  the update of a finite map, that lookups read that map, and that every state the commands can
  reach is well formed.
\<close>

section \<open>Reading\<close>

definition CONFIG_ENV_SIZE :: nat where "CONFIG_ENV_SIZE = 0x80000"

definition ENV_SIZE :: nat where "ENV_SIZE = CONFIG_ENV_SIZE - 4"

text \<open>
  The index after the \<^verbatim>\<open>=\<close> when entry \<open>i2\<close> matches, \<^verbatim>\<open>Some None\<close> for -1.  When the entry ends
  where the name ends the C loop goes on past the end of the name.
\<close>

fun envmatch :: "u8 list \<Rightarrow> u8 list \<Rightarrow> nat \<Rightarrow> nat option option" where
  "envmatch env [] i2 =
     (case rd env i2 of
        None \<Rightarrow> None
      | Some c \<Rightarrow> if c = 0 then None else if c = 0x3d then Some (Some (i2 + 1)) else Some None)"
| "envmatch env (c # s1) i2 =
     (case rd env i2 of
        None \<Rightarrow> None
      | Some e \<Rightarrow>
          if c = e then (if c = 0x3d then Some (Some (i2 + 1)) else envmatch env s1 (i2 + 1))
          else Some None)"

text \<open>The inner loop of \<^verbatim>\<open>getenv\<close> with its check against \<^verbatim>\<open>CONFIG_ENV_SIZE\<close>.\<close>

function getenv_end :: "u8 list \<Rightarrow> nat \<Rightarrow> nat option option" where
  "getenv_end env nxt =
     (case rd env nxt of
        None \<Rightarrow> None
      | Some c \<Rightarrow>
          if c = 0 then Some (Some nxt)
          else if CONFIG_ENV_SIZE \<le> nxt then Some None
          else getenv_end env (nxt + 1))"
  by pat_completeness auto
termination
  by (relation "measure (\<lambda>(env, i). length env - i)") (auto simp: buf_simps)

declare getenv_end.simps [simp del]

lemma getenv_end_bounds: "getenv_end env i = Some (Some j) \<Longrightarrow> i \<le> j \<and> j < length env"
proof (induction env i rule: getenv_end.induct)
  case (1 env i)
  then show ?case
    by (subst (asm) (2) getenv_end.simps)
      (auto simp: buf_simps split: option.splits if_splits dest: Suc_leD)
qed

function getenv_scan :: "u8 list \<Rightarrow> u8 list \<Rightarrow> nat \<Rightarrow> nat option option" where
  "getenv_scan env name i =
     (case rd env i of
        None \<Rightarrow> None
      | Some c \<Rightarrow>
          if c = 0 then Some None
          else (case getenv_end env i of
                  None \<Rightarrow> None
                | Some None \<Rightarrow> Some None
                | Some (Some nxt) \<Rightarrow>
                    (case envmatch env name i of
                       None \<Rightarrow> None
                     | Some None \<Rightarrow> getenv_scan env name (nxt + 1)
                     | Some (Some val) \<Rightarrow> Some (Some val))))"
  by pat_completeness auto
termination
  by (relation "measure (\<lambda>(env, name, i). length env - i)")
    (auto simp: buf_simps dest!: getenv_end_bounds)

declare getenv_scan.simps [simp del]

text \<open>
  \<^verbatim>\<open>getenv_r\<close>: the copy loop returns the buffer, the write position and \<open>n\<close>.
\<close>

function getenv_copy ::
    "u8 list \<Rightarrow> nat \<Rightarrow> u8 list \<Rightarrow> nat \<Rightarrow> nat \<Rightarrow> nat \<Rightarrow> (u8 list \<times> nat \<times> nat) option" where
  "getenv_copy env val buf pos n lim =
     (if n < lim
      then (case rd env val of
              None \<Rightarrow> None
            | Some c \<Rightarrow>
                (case wr buf pos c of
                   None \<Rightarrow> None
                 | Some buf \<Rightarrow>
                     if c \<noteq> 0 then getenv_copy env (val + 1) buf (pos + 1) (n + 1) lim
                     else Some (buf, pos + 1, n + 1)))
      else Some (buf, pos, n + 1))"
  by pat_completeness auto
termination
  by (relation "measure (\<lambda>(env, val, buf, pos, n, lim). lim - n)") auto

declare getenv_copy.simps [simp del]

definition getenv_r_area :: "u8 list \<Rightarrow> u8 list \<Rightarrow> u8 list \<Rightarrow> nat \<Rightarrow> (int \<times> u8 list) option" where
  "getenv_r_area env name buf lim =
     (case getenv_scan env name 0 of
        None \<Rightarrow> None
      | Some None \<Rightarrow> Some (- 1, buf)
      | Some (Some val) \<Rightarrow>
          (case getenv_copy env val buf 0 0 lim of
             None \<Rightarrow> None
           | Some (buf, pos, n) \<Rightarrow>
               if lim = n then map_option (\<lambda>buf. (int n, buf)) (wr buf pos 0)
               else Some (int n, buf)))"

section \<open>Printing\<close>

text \<open>
  One string is copied through a 16-byte buffer; what \<^verbatim>\<open>puts\<close> writes is collected.  The result
  is the output, what is left in the buffer, and the index after the string.
\<close>

function print_entry :: "u8 list \<Rightarrow> bool \<Rightarrow> nat \<Rightarrow> u8 list \<Rightarrow> (u8 list \<times> u8 list \<times> nat) option" where
  "print_entry env shown i buf =
     (case rd env i of
        None \<Rightarrow> None
      | Some c \<Rightarrow>
          let buf = buf @ [c];
              full = (length buf = 16);
              out = (if full \<and> shown then takeWhile (\<lambda>c. c \<noteq> 0) buf else []);
              buf = (if full then [] else buf)
          in if c \<noteq> 0
             then map_option (\<lambda>(out', r). (out @ out', r)) (print_entry env shown (i + 1) buf)
             else Some (out, buf, i + 1))"
  by pat_completeness auto
termination
  by (relation "measure (\<lambda>(env, shown, i, buf). length env - i)") (auto simp: buf_simps)

declare print_entry.simps [simp del]

lemma print_entry_bounds:
  "print_entry env shown i buf = Some (out, buf', j) \<Longrightarrow> i < j \<and> j \<le> length env"
proof (induction env shown i buf arbitrary: out rule: print_entry.induct)
  case (1 env shown i buf)
  from "1.prems" obtain c where c: "rd env i = Some c" "i < length env"
    by (subst (asm) print_entry.simps) (auto simp: buf_simps rd_def split: option.splits if_splits)
  show ?case
  proof (cases "c = 0")
    case True
    with "1.prems" c show ?thesis by (subst (asm) print_entry.simps) (auto simp: Let_def)
  next
    case False
    from "1.prems" c False obtain out' where
      "print_entry env shown (i + 1) (if length (buf @ [c]) = 16 then [] else buf @ [c])
        = Some (out', buf', j)"
      by (subst (asm) print_entry.simps) (auto simp: Let_def)
    from "1.IH" [OF c(1) refl refl refl refl False this] show ?thesis by simp
  qed
qed

text \<open>
  \<^verbatim>\<open>ctrlc k\<close> is the answer of the \<open>k\<close>-th poll of the console.  States: 0 the wanted string
  has been seen, 1 print everything, 2 look for \<open>name\<close>.
\<close>

function printenv_loop ::
    "(nat \<Rightarrow> bool) \<Rightarrow> u8 list \<Rightarrow> u8 list \<Rightarrow> nat \<Rightarrow> nat \<Rightarrow> nat \<Rightarrow> (int \<times> u8 list) option" where
  "printenv_loop ctrlc env name st k i =
     (if st = 0 then Some (0, [])
      else case rd env i of
        None \<Rightarrow> None
      | Some c \<Rightarrow>
          if c = 0 then Some (int i, [])
          else (case (if st = 2 then map_option (\<lambda>m. m \<noteq> None) (envmatch env name i) else Some False) of
                  None \<Rightarrow> None
                | Some hit \<Rightarrow>
                    let st = (if hit then 0 else st)
                    in case print_entry env (st \<le> 1) i [] of
                         None \<Rightarrow> None
                       | Some (out, rest, i) \<Rightarrow>
                           let out = (if st \<le> 1 then out @ takeWhile (\<lambda>c. c \<noteq> 0) rest @ [0x0a] else [])
                           in if ctrlc k then Some (- 1, out)
                              else map_option (\<lambda>(r, out'). (r, out @ out'))
                                     (printenv_loop ctrlc env name st (k + 1) i)))"
  by pat_completeness auto
termination
  by (relation "measure (\<lambda>(ctrlc, env, name, st, k, i). length env - i)")
    (auto simp: buf_simps dest!: print_entry_bounds)

declare printenv_loop.simps [simp del]

definition printenv :: "(nat \<Rightarrow> bool) \<Rightarrow> u8 list \<Rightarrow> u8 list \<Rightarrow> nat \<Rightarrow> (int \<times> u8 list) option" where
  "printenv ctrlc env name st = printenv_loop ctrlc env name st 0 0"

text \<open>\<^verbatim>\<open>do_printenv\<close>; the text it prints goes through \<^verbatim>\<open>vsprintf\<close>.\<close>

definition printf_text :: "u8 list \<Rightarrow> va_arg list \<Rightarrow> u8 list option" where
  "printf_text fmt args = map_option fst (vsprintf fmt args)"

fun printenv_names :: "(nat \<Rightarrow> nat \<Rightarrow> bool) \<Rightarrow> u8 list \<Rightarrow> u8 list list \<Rightarrow> (int \<times> u8 list) option" where
  "printenv_names ctrlc env [] = Some (0, [])"
| "printenv_names ctrlc env (name # names) = do {
     (r, out) \<leftarrow> printenv (ctrlc (length names)) env name 2;
     (n, out) \<leftarrow> (if r \<noteq> 0
       then map_option (\<lambda>t. (1, out @ t))
              (printf_text (ascii ''## Error: '' @ [0x22] @ ascii ''%s'' @ [0x22] @ ascii '' not defined'' @ [0x0a])
                [VStr (Some name)])
       else Some (0, out));
     (rcode, out') \<leftarrow> printenv_names ctrlc env names;
     Some (n + rcode, out @ out')
   }"

definition do_printenv :: "(nat \<Rightarrow> nat \<Rightarrow> bool) \<Rightarrow> u8 list list \<Rightarrow> u8 list \<Rightarrow> (int \<times> u8 list) option" where
  "do_printenv ctrlc argv env =
     (case argv of
        [] \<Rightarrow> None
      | [_] \<Rightarrow>
          do {
            (rcode, out) \<leftarrow> printenv (ctrlc 0) env [] 1;
            if rcode < 0 then Some (1, out)
            else map_option (\<lambda>t. (0, out @ t))
              (printf_text ([0x0a] @ ascii ''Environment size: %d/%ld bytes'' @ [0x0a])
                [VInt (of_int rcode), VInt (of_nat ENV_SIZE)])
          }
      | _ # names \<Rightarrow> printenv_names ctrlc env names)"

section \<open>Name completion\<close>

text \<open>
  The entries of \<^verbatim>\<open>cmdv\<close>: a null pointer, the literal \<^verbatim>\<open>...\<close>, or a pointer into \<^verbatim>\<open>buf\<close>.
\<close>

datatype cmd_ptr = NullPtr | Ellipsis | InBuf nat

function env_complete_loop ::
    "u8 list \<Rightarrow> u8 list \<Rightarrow> int \<Rightarrow> nat \<Rightarrow> nat \<Rightarrow> cmd_ptr list \<Rightarrow> int \<Rightarrow> nat \<Rightarrow> u8 list
     \<Rightarrow> (nat \<times> cmd_ptr list \<times> u8 list) option" where
  "env_complete_loop env var maxv i found cmdv bufsz pos buf =
     (case rd env i of
        None \<Rightarrow> None
      | Some c \<Rightarrow>
          if c = 0 then Some (found, cmdv, buf)
          else (case str_end env i of
            None \<Rightarrow> None
          | Some nxt \<Rightarrow>
              let lval = take (nxt - i) (drop i env);
                  lhs = takeWhile (\<lambda>c. c \<noteq> 0x3d) lval;
                  vallen = length lhs
              in if 0 < length var \<and> (vallen < length var \<or> take (length var) lval \<noteq> var)
                 then env_complete_loop env var maxv (nxt + 1) found cmdv bufsz pos buf
                 else if maxv - 2 \<le> int found \<or> bufsz < int vallen + 1
                 then map_option (\<lambda>cmdv. (found + 1, cmdv, buf)) (wr cmdv found Ellipsis)
                 else (case wr cmdv found (InBuf pos) of
                         None \<Rightarrow> None
                       | Some cmdv \<Rightarrow>
                           (case put_at buf pos (lhs @ [0]) of
                              None \<Rightarrow> None
                            | Some buf \<Rightarrow>
                                env_complete_loop env var maxv (nxt + 1) (found + 1) cmdv
                                  (bufsz - int vallen - 1) (pos + vallen + 1) buf))))"
  by pat_completeness auto
termination
  by (relation "measure (\<lambda>(env, var, maxv, i, found, cmdv, bufsz, pos, buf). length env - i)")
    (auto simp: buf_simps dest!: str_end_bounds)

declare env_complete_loop.simps [simp del]

definition env_complete ::
    "u8 list \<Rightarrow> u8 list \<Rightarrow> int \<Rightarrow> cmd_ptr list \<Rightarrow> int \<Rightarrow> u8 list \<Rightarrow> (nat \<times> cmd_ptr list \<times> u8 list) option" where
  "env_complete env var maxv cmdv bufsz buf = do {
     cmdv \<leftarrow> wr cmdv 0 NullPtr;
     (found, cmdv, buf) \<leftarrow> env_complete_loop env var maxv 0 0 cmdv bufsz 0 buf;
     cmdv \<leftarrow> wr cmdv found NullPtr;
     Some (found, cmdv, buf)
   }"

section \<open>Writing\<close>

text \<open>The search of \<^verbatim>\<open>_do_setenv\<close>: the start, the end and the value index of the entry found.\<close>

function setenv_scan :: "u8 list \<Rightarrow> u8 list \<Rightarrow> nat \<Rightarrow> (nat \<times> nat \<times> nat) option option" where
  "setenv_scan data name env =
     (case rd data env of
        None \<Rightarrow> None
      | Some c \<Rightarrow>
          if c = 0 then Some None
          else (case str_end data env of
                  None \<Rightarrow> None
                | Some nxt \<Rightarrow>
                    (case envmatch data name env of
                       None \<Rightarrow> None
                     | Some None \<Rightarrow> setenv_scan data name (nxt + 1)
                     | Some (Some oldval) \<Rightarrow> Some (Some (env, nxt, oldval)))))"
  by pat_completeness auto
termination
  by (relation "measure (\<lambda>(data, name, i). length data - i)")
    (auto simp: buf_simps dest!: str_end_bounds)

declare setenv_scan.simps [simp del]

text \<open>
  Deleting the entry at \<open>env\<close> that ends at \<open>nxt\<close>: the strings after it, if any, are moved down
  byte by byte.
\<close>

function del_move :: "u8 list \<Rightarrow> nat \<Rightarrow> nat \<Rightarrow> (u8 list \<times> nat) option" where
  "del_move data env nxt =
     (case rd data nxt of
        None \<Rightarrow> None
      | Some c \<Rightarrow>
          (case wr data env c of
             None \<Rightarrow> None
           | Some data \<Rightarrow>
               if c = 0 \<and> rd data (nxt + 1) = Some 0 then Some (data, env)
               else if c = 0 \<and> rd data (nxt + 1) = None then None
               else del_move data (env + 1) (nxt + 1)))"
  by pat_completeness auto
termination
  by (relation "measure (\<lambda>(data, env, nxt). length data - nxt)") (auto simp: buf_simps)

declare del_move.simps [simp del]

definition setenv_delete :: "u8 list \<Rightarrow> nat \<Rightarrow> nat \<Rightarrow> u8 list option" where
  "setenv_delete data env nxt = do {
     c \<leftarrow> rd data (nxt + 1);
     (data, env) \<leftarrow>
       (if c = 0
        then (if 0 < env then Some (data, env - 1) else map_option (\<lambda>d. (d, env)) (wr data env 0))
        else del_move data env (nxt + 1));
     wr data (env + 1) 0
   }"

text \<open>The index at which a new entry goes.\<close>

function append_pos :: "u8 list \<Rightarrow> nat \<Rightarrow> nat option" where
  "append_pos data env =
     (case rd data env of
        None \<Rightarrow> None
      | Some c \<Rightarrow>
          if c \<noteq> 0 then append_pos data (env + 1)
          else (case rd data (env + 1) of
                  None \<Rightarrow> None
                | Some c' \<Rightarrow> if c' \<noteq> 0 then append_pos data (env + 1) else Some env))"
  by pat_completeness auto
termination
  by (relation "measure (\<lambda>(data, env). length data - env)") (auto simp: buf_simps)

declare append_pos.simps [simp del]

fun join_values :: "u8 \<Rightarrow> u8 list list \<Rightarrow> u8 list" where
  "join_values sep [] = []"
| "join_values sep (v # vals) = sep # v @ join_values 0x20 vals"

text \<open>The result code and the new array; 1 is an overflow.\<close>

definition setenv_append :: "u8 list \<Rightarrow> u8 list \<Rightarrow> u8 list list \<Rightarrow> (int \<times> u8 list) option" where
  "setenv_append data name vals = do {
     env \<leftarrow> append_pos data 0;
     let env = (if 0 < env then env + 1 else env);
     let len = int (length name + 2 + sum_list (map (\<lambda>v. length v + 1) vals));
     if int ENV_SIZE - int env < len then Some (1, data)
     else map_option (\<lambda>data. (0, data)) (put_at data env (name @ join_values 0x3d vals @ [0, 0]))
   }"

section \<open>The state and the commands\<close>

text \<open>
  \<open>env_data\<close> and \<open>stored_crc\<close> are \<^verbatim>\<open>*env_ptr\<close>; the other fields are the globals the commands touch:
  \<^verbatim>\<open>gd->env_valid\<close>, the default environment, \<^verbatim>\<open>env_id\<close>, \<^verbatim>\<open>gd->baudrate\<close>, \<^verbatim>\<open>bd->bi_ip_addr\<close>,
  \<^verbatim>\<open>load_addr\<close>, \<^verbatim>\<open>BootFile\<close>, the bytes waiting on the serial line, and the console devices.
\<close>

record 'c env_state =
  env_valid :: bool
  default_env :: "u8 list"
  stored_crc :: u32
  env_data :: "u8 list"
  env_id :: int
  baudrate :: u32
  ip_addr :: u32
  load_addr :: u32
  boot_file :: "u8 list"
  con_in :: "u8 list"
  console :: 'c

definition env_area :: "('c, 'z) env_state_scheme \<Rightarrow> u8 list" where
  "env_area s = (if env_valid s then env_data s else default_env s)"

definition set_area :: "u8 list \<Rightarrow> ('c, 'z) env_state_scheme \<Rightarrow> ('c, 'z) env_state_scheme" where
  "set_area d s = (if env_valid s then s\<lparr>env_data := d\<rparr> else s\<lparr>default_env := d\<rparr>)"

definition env_crc_update :: "('c, 'z) env_state_scheme \<Rightarrow> ('c, 'z) env_state_scheme" where
  "env_crc_update s = s\<lparr>stored_crc := crc32 0 (take ENV_SIZE (env_data s))\<rparr>"

definition set_default_env :: "('c, 'z) env_state_scheme \<Rightarrow> ('c, 'z) env_state_scheme" where
  "set_default_env s =
     (if ENV_SIZE < length (default_env s) then s
      else (env_crc_update
             (s\<lparr>env_data := default_env s @ replicate (ENV_SIZE - length (default_env s)) 0\<rparr>))
             \<lparr>env_valid := True\<rparr>)"

definition getenv :: "('c, 'z) env_state_scheme \<Rightarrow> u8 list \<Rightarrow> nat option option" where
  "getenv s name = getenv_scan (env_area s) name 0"

definition getenv_r ::
    "('c, 'z) env_state_scheme \<Rightarrow> u8 list \<Rightarrow> u8 list \<Rightarrow> nat \<Rightarrow> (int \<times> u8 list) option" where
  "getenv_r s name buf lim = getenv_r_area (env_area s) name buf lim"

definition baudrate_table :: "u32 list" where
  "baudrate_table = [9600, 19200, 38400, 57600, 115200]"

definition std_console :: "u8 list \<Rightarrow> nat option" where
  "std_console name =
     (if name = ascii ''stdin'' then Some 0
      else if name = ascii ''stdout'' then Some 1
      else if name = ascii ''stderr'' then Some 2
      else None)"

text \<open>Console redirection; \<^verbatim>\<open>False\<close> is the early return with 1.\<close>

definition setenv_redirect ::
    "(nat \<Rightarrow> u8 list \<Rightarrow> 'c \<Rightarrow> int \<times> 'c) \<Rightarrow> u8 list \<Rightarrow> u8 list list \<Rightarrow> ('c, 'z) env_state_scheme
     \<Rightarrow> bool \<times> ('c, 'z) env_state_scheme" where
  "setenv_redirect console_assign name vals s =
     (case std_console name of
        None \<Rightarrow> (True, s)
      | Some file \<Rightarrow>
          (case vals of
             [] \<Rightarrow> (False, s)
           | v # _ \<Rightarrow>
               let (r, c) = console_assign file v (console s) in (0 \<le> r, s\<lparr>console := c\<rparr>)))"

text \<open>
  Switching the baud rate; after the switch the code waits for a carriage return.  \<^verbatim>\<open>None\<close>: there
  is no value (the null pointer is parsed), or no carriage return ever arrives.
\<close>

definition setenv_baudrate ::
    "u8 list \<Rightarrow> u8 list list \<Rightarrow> ('c, 'z) env_state_scheme \<Rightarrow> (bool \<times> ('c, 'z) env_state_scheme) option" where
  "setenv_baudrate name vals s =
     (if name = ascii ''baudrate''
      then (case vals of
              [] \<Rightarrow> None
            | v # _ \<Rightarrow>
                let rate = fst (simple_strtoul v 10)
                in if rate \<notin> set baudrate_table then Some (False, s)
                   else (case dropWhile (\<lambda>c. c \<noteq> 0x0d) (con_in s) of
                           [] \<Rightarrow> None
                         | _ # rest \<Rightarrow> Some (True, s\<lparr>baudrate := rate, con_in := rest\<rparr>)))
      else Some (True, s))"

definition copy_filename :: "u8 list \<Rightarrow> u8 list \<Rightarrow> nat \<Rightarrow> u8 list option" where
  "copy_filename dst src sz =
     (let (src, sz) = (if deref src = 0x22 then (tl src, sz - 1) else (src, sz))
      in put_at dst 0 (take (sz - 1) (takeWhile (\<lambda>c. c \<noteq> 0x22) src) @ [0]))"

text \<open>One octet of an address: the rest of the string is skipped by one byte unless it is empty.\<close>

fun ip_octets :: "nat \<Rightarrow> u8 list \<Rightarrow> u32 \<Rightarrow> u32" where
  "ip_octets 0 s addr = addr"
| "ip_octets (Suc n) s addr =
     (let (val, e) = simple_strtoul s 10
      in ip_octets n (tl e) (push_bit 8 addr OR (val AND 0xff)))"

definition htonl :: "u32 \<Rightarrow> u32" where
  "htonl x = push_bit 24 x OR (push_bit 8 x AND 0x00ff0000) OR (drop_bit 8 x AND 0x0000ff00)
     OR drop_bit 24 x"

text \<open>What depends on the variable just set.\<close>

definition setenv_follow ::
    "u8 list \<Rightarrow> u8 list \<Rightarrow> ('c, 'z) env_state_scheme \<Rightarrow> ('c, 'z) env_state_scheme option" where
  "setenv_follow name v s =
     (if name = ascii ''ipaddr'' then Some (s\<lparr>ip_addr := htonl (ip_octets 4 v 0)\<rparr>)
      else if name = ascii ''loadaddr'' then Some (s\<lparr>load_addr := fst (simple_strtoul v 16)\<rparr>)
      else if name = ascii ''bootfile''
      then map_option (\<lambda>f. s\<lparr>boot_file := f\<rparr>) (copy_filename (boot_file s) v 128)
      else Some s)"

text \<open>The part of \<^verbatim>\<open>_do_setenv\<close> after the checks: delete, then append unless it overflows.\<close>

definition setenv_store ::
    "(nat \<times> nat \<times> nat) option \<Rightarrow> u8 list \<Rightarrow> u8 list list \<Rightarrow> ('c, 'z) env_state_scheme
     \<Rightarrow> (int \<times> ('c, 'z) env_state_scheme) option" where
  "setenv_store hit name vals s = do {
     data \<leftarrow> (case hit of
                None \<Rightarrow> Some (env_area s)
              | Some (env, nxt, _) \<Rightarrow> setenv_delete (env_area s) env nxt);
     let s = set_area data s;
     case vals of
       [] \<Rightarrow> Some (0, env_crc_update s)
     | v # _ \<Rightarrow> do {
         (r, data) \<leftarrow> setenv_append data name vals;
         if r \<noteq> 0 then Some (1, s)
         else map_option (\<lambda>s. (0, s)) (setenv_follow name v (env_crc_update (set_area data s)))
       }
   }"

definition do_setenv ::
    "(nat \<Rightarrow> u8 list \<Rightarrow> 'c \<Rightarrow> int \<times> 'c) \<Rightarrow> u8 list list \<Rightarrow> ('c, 'z) env_state_scheme
     \<Rightarrow> (int \<times> ('c, 'z) env_state_scheme) option" where
  "do_setenv console_assign argv s =
     (case argv of
        [] \<Rightarrow> None
      | [_] \<Rightarrow> None
      | _ # name # vals \<Rightarrow>
          if 0x3d \<in> set name then Some (1, s)
          else do {
            let s = s\<lparr>env_id := env_id s + 1\<rparr>;
            hit \<leftarrow> setenv_scan (env_area s) name 0;
            let (ok, s) = setenv_redirect console_assign name vals s;
            if \<not> ok then Some (1, s)
            else do {
              (ok, s) \<leftarrow> (if hit \<noteq> None then setenv_baudrate name vals s else Some (True, s));
              if \<not> ok then Some (1, s) else setenv_store hit name vals s
            }
          })"

text \<open>\<^verbatim>\<open>setenv\<close> and the command; an empty or absent value deletes.\<close>

definition setenv ::
    "(nat \<Rightarrow> u8 list \<Rightarrow> 'c \<Rightarrow> int \<times> 'c) \<Rightarrow> u8 list \<Rightarrow> u8 list option \<Rightarrow> ('c, 'z) env_state_scheme
     \<Rightarrow> (int \<times> ('c, 'z) env_state_scheme) option" where
  "setenv console_assign name val s =
     do_setenv console_assign
       (ascii ''setenv'' # name # (case val of None \<Rightarrow> [] | Some [] \<Rightarrow> [] | Some v \<Rightarrow> [v])) s"

definition do_setenv_cmd ::
    "(nat \<Rightarrow> u8 list \<Rightarrow> 'c \<Rightarrow> int \<times> 'c) \<Rightarrow> u8 list list \<Rightarrow> ('c, 'z) env_state_scheme
     \<Rightarrow> (int \<times> ('c, 'z) env_state_scheme) option" where
  "do_setenv_cmd console_assign argv s =
     (if length argv < 2 then Some (1, s) else do_setenv console_assign argv s)"

section \<open>The array as a list of strings\<close>

definition entry_name :: "u8 list \<Rightarrow> u8 list" where
  "entry_name e = takeWhile (\<lambda>c. c \<noteq> 0x3d) e"

definition entry_value :: "u8 list \<Rightarrow> u8 list" where
  "entry_value e = tl (dropWhile (\<lambda>c. c \<noteq> 0x3d) e)"

definition entry_ok :: "u8 list \<Rightarrow> bool" where
  "entry_ok e \<longleftrightarrow> 0 \<notin> set e \<and> 0x3d \<in> set e"

definition entries_text :: "u8 list list \<Rightarrow> u8 list" where
  "entries_text es = concat (map (\<lambda>e. e @ [0]) es)"

lemma entries_text_simps [simp]:
  "entries_text [] = []"
  "entries_text (e # es) = e @ 0 # entries_text es"
  "entries_text (es @ fs) = entries_text es @ entries_text fs"
  by (simp_all add: entries_text_def)

text \<open>The array holds the strings \<open>es\<close>; an empty environment starts with two zeros.\<close>

definition env_rep :: "u8 list \<Rightarrow> u8 list list \<Rightarrow> bool" where
  "env_rep data es \<longleftrightarrow>
     (\<exists>rest. data = entries_text es @ 0 # rest \<and> (es = [] \<longrightarrow> (\<exists>r. rest = 0 # r)))"

lemma entry_split: "entry_ok e \<Longrightarrow> e = entry_name e @ 0x3d # entry_value e"
  unfolding entry_ok_def entry_name_def entry_value_def by (induction e) auto

lemma entry_name_simps [simp]:
  "0x3d \<notin> set n \<Longrightarrow> entry_name (n @ 0x3d # v) = n"
  "0x3d \<notin> set n \<Longrightarrow> entry_value (n @ 0x3d # v) = v"
  unfolding entry_name_def entry_value_def by (induction n) auto

lemma entry_name_free: "0x3d \<notin> set (entry_name e)"
  by (auto simp: entry_name_def dest: set_takeWhileD)

lemma entry_ok_not_Nil: "entry_ok e \<Longrightarrow> e \<noteq> []"
  by (auto simp: entry_ok_def)

lemma entry_ok_hd: "entry_ok e \<Longrightarrow> e = c # e' \<Longrightarrow> c \<noteq> 0"
  by (auto simp: entry_ok_def)

section \<open>Searching\<close>

lemma envmatch_entry:
  assumes "0 \<notin> set name" "0x3d \<notin> set name" "0x3d \<notin> set n" "0 \<notin> set n"
  shows "envmatch (pre @ n @ 0x3d # suf) name (length pre)
    = Some (if name = n then Some (length pre + length n + 1) else None)"
  using assms
proof (induction name arbitrary: pre n)
  case Nil
  then show ?case by (cases n) simp_all
next
  case (Cons c name)
  show ?case
  proof (cases n)
    case Nil
    with Cons.prems show ?thesis by simp
  next
    case n: (Cons d n')
    have "envmatch ((pre @ [d]) @ n' @ 0x3d # suf) name (length (pre @ [d]))
        = Some (if name = n' then Some (length (pre @ [d]) + length n' + 1) else None)"
      using Cons n by (intro Cons.IH) auto
    with Cons.prems n show ?thesis by simp
  qed
qed

lemma getenv_end_eq: "length env \<le> CONFIG_ENV_SIZE \<Longrightarrow> getenv_end env i = map_option Some (str_end env i)"
proof (induction env i rule: str_end.induct)
  case (1 env i)
  then show ?case
    by (subst getenv_end.simps, subst str_end.simps) (auto simp: buf_simps split: option.splits)
qed

lemma getenv_scan_eq:
  "length env \<le> CONFIG_ENV_SIZE \<Longrightarrow>
     getenv_scan env name i = map_option (map_option (\<lambda>(_, _, v). v)) (setenv_scan env name i)"
proof (induction env name i rule: setenv_scan.induct)
  case (1 env name i)
  show ?case
  proof (cases "\<exists>c nxt. rd env i = Some c \<and> c \<noteq> 0 \<and> str_end env i = Some nxt \<and> envmatch env name i = Some None")
    case True
    then show ?thesis
      using 1 by (subst getenv_scan.simps, subst setenv_scan.simps) (auto simp: getenv_end_eq)
  next
    case False
    then show ?thesis
      using "1.prems" by (subst getenv_scan.simps, subst setenv_scan.simps)
        (auto simp: getenv_end_eq split: option.splits)
  qed
qed

lemma setenv_scan_end: "setenv_scan (pre @ 0 # suf) name (length pre) = Some None"
  by (simp add: setenv_scan.simps)

lemma setenv_scan_entry:
  assumes "entry_ok e" "0 \<notin> set name" "0x3d \<notin> set name"
  shows "setenv_scan (pre @ e @ 0 # suf) name (length pre)
    = (if entry_name e = name
       then Some (Some (length pre, length pre + length e, length pre + length name + 1))
       else setenv_scan ((pre @ e @ [0]) @ suf) name (length (pre @ e @ [0])))"
proof -
  obtain c e' where e: "e = c # e'" "c \<noteq> 0"
    using assms(1) entry_ok_not_Nil entry_ok_hd by (cases e) auto
  have z: "0 \<notin> set e" using assms(1) by (simp add: entry_ok_def)
  have "envmatch (pre @ entry_name e @ 0x3d # (entry_value e @ 0 # suf)) name (length pre)
      = Some (if name = entry_name e then Some (length pre + length (entry_name e) + 1) else None)"
    using assms z entry_name_free [of e] set_takeWhileD [of 0 "\<lambda>c. c \<noteq> 0x3d" e]
    by (intro envmatch_entry) (auto simp: entry_name_def)
  then have m: "envmatch (pre @ e @ 0 # suf) name (length pre)
      = Some (if name = entry_name e then Some (length pre + length (entry_name e) + 1) else None)"
    using entry_split [OF assms(1)] by (metis append.assoc append_Cons)
  show ?thesis
    using str_end_at [OF z, of pre suf] m e
    by (subst setenv_scan.simps) auto
qed

lemma setenv_scan_entries:
  assumes "\<forall>e \<in> set es. entry_ok e" "0 \<notin> set name" "0x3d \<notin> set name"
  shows "setenv_scan (pre @ entries_text es @ 0 # suf) name (length pre)
    = Some (case find (\<lambda>e. entry_name e = name) es of
              None \<Rightarrow> None
            | Some e \<Rightarrow>
                let p = length (pre @ entries_text (takeWhile (\<lambda>e. entry_name e \<noteq> name) es))
                in Some (p, p + length e, p + length name + 1))"
  using assms(1)
proof (induction es arbitrary: pre)
  case Nil
  then show ?case by (simp add: setenv_scan_end)
next
  case (Cons e es)
  have IH: "setenv_scan ((pre @ e @ [0]) @ entries_text es @ 0 # suf) name (length (pre @ e @ [0]))
    = Some (case find (\<lambda>e. entry_name e = name) es of
              None \<Rightarrow> None
            | Some e' \<Rightarrow>
                let p = length ((pre @ e @ [0]) @ entries_text (takeWhile (\<lambda>e. entry_name e \<noteq> name) es))
                in Some (p, p + length e', p + length name + 1))"
    by (rule Cons.IH) (use Cons.prems in simp)
  have "setenv_scan (pre @ entries_text (e # es) @ 0 # suf) name (length pre)
    = setenv_scan (pre @ e @ 0 # (entries_text es @ 0 # suf)) name (length pre)"
    by simp
  also have "\<dots> = (if entry_name e = name
       then Some (Some (length pre, length pre + length e, length pre + length name + 1))
       else setenv_scan ((pre @ e @ [0]) @ (entries_text es @ 0 # suf)) name (length (pre @ e @ [0])))"
    using Cons.prems assms by (intro setenv_scan_entry) auto
  finally show ?case
    unfolding IH by (simp add: Let_def add.assoc split: option.split)
qed


section \<open>Deleting and appending\<close>

text \<open>No two adjacent zeros.\<close>

fun sparse :: "u8 list \<Rightarrow> bool" where
  "sparse (x # y # zs) \<longleftrightarrow> (x \<noteq> 0 \<or> y \<noteq> 0) \<and> sparse (y # zs)"
| "sparse _ \<longleftrightarrow> True"

lemma sparse_string: "0 \<notin> set s \<Longrightarrow> sparse (s @ 0 # ys) \<longleftrightarrow> sparse (0 # ys)"
proof (induction s)
  case (Cons c s)
  then show ?case by (cases s) auto
qed simp

lemma sparse_zero_string: "s \<noteq> [] \<Longrightarrow> 0 \<notin> set s \<Longrightarrow> sparse (0 # s @ 0 # ys) \<longleftrightarrow> sparse (0 # ys)"
  using sparse_string [of s ys] by (cases s) auto

lemma sparse_entries: "\<forall>e \<in> set es. entry_ok e \<Longrightarrow> sparse (0 # entries_text es)"
proof (induction es)
  case (Cons e es)
  then show ?case
    using sparse_zero_string [of e "entries_text es"] entry_ok_not_Nil [of e]
    by (simp add: entry_ok_def)
qed simp

lemma entries_text_last:
  assumes "es \<noteq> []" "\<forall>e \<in> set es. entry_ok e"
  obtains m where "entries_text es = m @ [0]" "m \<noteq> []" "sparse (m @ [0])"
proof -
  have "entries_text es = (entries_text (butlast es) @ last es) @ [0]"
    using assms(1) by (metis append_assoc append_butlast_last_id entries_text_simps(1,2,3))
  moreover have "last es \<noteq> []" using assms entry_ok_not_Nil by simp
  moreover have "sparse (entries_text es)"
    using sparse_entries [OF assms(2)] by (cases "entries_text es") auto
  ultimately show ?thesis using that by auto
qed

lemma del_move_shift:
  assumes "g \<noteq> []" "sparse (m @ [0])"
  shows "\<exists>rest. del_move (a @ g @ m @ 0 # 0 # suf) (length a) (length a + length g)
      = Some (a @ m @ 0 # rest, length a + length m) \<and> length rest = length g + length suf + 1"
  using assms
proof (induction m arbitrary: a g)
  case Nil
  then obtain c gs where g: "g = c # gs" by (cases g) auto
  have rd: "rd (a @ g @ 0 # 0 # suf) (length a + length g) = Some 0"
    using rd_at [of "a @ g"] by simp
  have rd1: "rd (a @ 0 # gs @ 0 # 0 # suf) (length a + length g + 1) = Some 0"
    using rd_at [of "a @ 0 # gs @ [0]" 0 suf] g by simp
  have w: "wr (a @ g @ 0 # 0 # suf) (length a) 0 = Some (a @ 0 # gs @ 0 # 0 # suf)"
    using wr_append [of a c "gs @ 0 # 0 # suf" 0] g by simp
  show ?case
    using rd rd1 w g by (subst del_move.simps) simp
next
  case (Cons d m)
  then obtain c gs where g: "g = c # gs" by (cases g) auto
  let ?suf = "m @ 0 # 0 # suf"
  have rd: "rd (a @ g @ d # ?suf) (length a + length g) = Some d"
    using rd_at [of "a @ g"] by simp
  obtain y zs where y: "?suf = y # zs" "d \<noteq> 0 \<or> y \<noteq> 0"
    using Cons.prems(2) by (cases m) auto
  have rd1: "rd (a @ d # gs @ d # ?suf) (length a + length g + 1) = Some y"
    using rd_at [of "a @ d # gs @ [d]" y zs] g y(1) by simp
  have w: "wr (a @ g @ d # ?suf) (length a) d = Some (a @ d # gs @ d # ?suf)"
    using wr_append [of a c "gs @ d # ?suf" d] g by simp
  have step: "del_move (a @ g @ d # ?suf) (length a) (length a + length g)
      = del_move (a @ d # gs @ d # ?suf) (length a + 1) (length a + length g + 1)"
    using rd rd1 w y(2) by (subst del_move.simps) auto
  have "sparse (m @ [0])" using Cons.prems(2) by (cases m) auto
  from Cons.IH [OF _ this, of "gs @ [d]" "a @ [d]"] obtain rest where
    "del_move ((a @ [d]) @ (gs @ [d]) @ m @ 0 # 0 # suf) (length (a @ [d])) (length (a @ [d]) + length (gs @ [d]))
      = Some ((a @ [d]) @ m @ 0 # rest, length (a @ [d]) + length m)"
    "length rest = length (gs @ [d]) + length suf + 1"
    by auto
  then show ?case using step g by (auto simp: add.assoc)
qed

lemma setenv_delete_entry:
  assumes "env_rep data (es1 @ e # es2)" "\<forall>e \<in> set (es1 @ e # es2). entry_ok e"
  obtains data' where
    "setenv_delete data (length (entries_text es1)) (length (entries_text es1) + length e) = Some data'"
    "env_rep data' (es1 @ es2)" "length data' = length data"
proof -
  obtain rest where d: "data = entries_text es1 @ e @ 0 # entries_text es2 @ 0 # rest"
    using assms(1) by (auto simp: env_rep_def)
  let ?a = "entries_text es1"
  let ?p = "length ?a"
  obtain c e' where e: "e = c # e'" using assms(2) entry_ok_not_Nil by (cases e) auto
  have nxt: "?p + length e + 1 = length (?a @ e @ [0])" by simp
  show ?thesis
  proof (cases "es2 = []")
    case True
    have r: "rd data (?p + length e + 1) = Some 0"
      unfolding nxt using rd_at [of "?a @ e @ [0]" 0 rest] d True by simp
    show ?thesis
    proof (cases "es1 = []")
      case True
      then have "setenv_delete data ?p (?p + length e) = Some (data[0 := 0, 1 := 0])"
        using r d e by (simp add: setenv_delete_def)
      moreover have "env_rep (data[0 := 0, 1 := 0]) (es1 @ es2)"
        using True \<open>es2 = []\<close> d e by (cases e') (auto simp: env_rep_def)
      ultimately show ?thesis using that by simp
    next
      case False
      then have p: "0 < ?p" by (cases es1) auto
      have "setenv_delete data ?p (?p + length e) = Some (?a @ 0 # e' @ 0 # 0 # rest)"
        using r p d e \<open>es2 = []\<close> wr_append [of ?a c "e' @ 0 # 0 # rest" 0]
        by (simp add: setenv_delete_def)
      moreover have "env_rep (?a @ 0 # e' @ 0 # 0 # rest) (es1 @ es2)"
        using False \<open>es2 = []\<close> by (auto simp: env_rep_def)
      ultimately show ?thesis using that d e \<open>es2 = []\<close> by simp
    qed
  next
    case False
    obtain m where m: "entries_text es2 = m @ [0]" "m \<noteq> []" "sparse (m @ [0])"
      using entries_text_last [OF False] assms(2) by auto
    obtain y m' where y: "m = y # m'" using m(2) by (cases m) auto
    obtain f fs where f: "es2 = f # fs" "entry_ok f" using False assms(2) by (cases es2) auto
    have "y \<noteq> 0" using m(1) y f entry_ok_not_Nil [of f] by (cases f) (auto simp: entry_ok_def)
    have r: "rd data (?p + length e + 1) = Some y"
      unfolding nxt using rd_at [of "?a @ e @ [0]" y "m' @ 0 # 0 # rest"] d m(1) y by simp
    obtain rest' where mv: "del_move (?a @ (e @ [0]) @ m @ 0 # 0 # rest) ?p (?p + length (e @ [0]))
        = Some (?a @ m @ 0 # rest', ?p + length m)" "length rest' = length (e @ [0]) + length rest + 1"
      using del_move_shift [of "e @ [0]" m ?a rest] m(3) by auto
    obtain z rest'' where z: "rest' = z # rest''" using mv(2) by (cases rest') auto
    have "setenv_delete data ?p (?p + length e) = wr (?a @ m @ 0 # rest') (?p + length m + 1) 0"
      using r \<open>y \<noteq> 0\<close> mv d m(1) by (simp add: setenv_delete_def)
    also have "\<dots> = Some (?a @ entries_text es2 @ 0 # rest'')"
      using wr_append [of "?a @ m @ [0]" z rest'' 0] z m(1) by simp
    finally have "setenv_delete data ?p (?p + length e) = Some (?a @ entries_text es2 @ 0 # rest'')" .
    moreover have "env_rep (?a @ entries_text es2 @ 0 # rest'') (es1 @ es2)"
      using False by (auto simp: env_rep_def)
    moreover have "length (?a @ entries_text es2 @ 0 # rest'') = length data"
      using d mv(2) z m(1) by simp
    ultimately show ?thesis using that by blast
  qed
qed

lemma append_pos_sparse:
  "sparse (m @ [0]) \<Longrightarrow> append_pos (pre @ m @ 0 # 0 # suf) (length pre) = Some (length pre + length m)"
proof (induction m arbitrary: pre)
  case Nil
  have "rd (pre @ 0 # 0 # suf) (length pre + 1) = Some 0"
    using rd_at [of "pre @ [0]" 0 suf] by simp
  then show ?case by (simp add: append_pos.simps)
next
  case (Cons d m)
  obtain y zs where y: "m @ 0 # 0 # suf = y # zs" "d \<noteq> 0 \<or> y \<noteq> 0"
    using Cons.prems by (cases m) auto
  have rd1: "rd (pre @ d # m @ 0 # 0 # suf) (length pre + 1) = Some y"
    using rd_at [of "pre @ [d]" y zs] y(1) by simp
  have "sparse (m @ [0])" using Cons.prems by (cases m) auto
  from Cons.IH [OF this, of "pre @ [d]"]
  have "append_pos (pre @ d # m @ 0 # 0 # suf) (length pre + 1) = Some (length pre + 1 + length m)"
    by simp
  then show ?case using rd1 y(2) by (subst append_pos.simps) auto
qed

lemma append_pos_entries:
  assumes "env_rep data es" "\<forall>e \<in> set es. entry_ok e"
  shows "append_pos data 0 = Some (length (entries_text es) - 1)"
proof (cases "es = []")
  case True
  with assms(1) obtain r where "data = 0 # 0 # r" by (auto simp: env_rep_def)
  then show ?thesis using True by (simp add: append_pos.simps rd_def)
next
  case False
  obtain rest where d: "data = entries_text es @ 0 # rest"
    using assms(1) by (auto simp: env_rep_def)
  obtain m where m: "entries_text es = m @ [0]" "sparse (m @ [0])"
    using entries_text_last [OF False assms(2)] by auto
  show ?thesis using append_pos_sparse [OF m(2), of "[]" rest] d m(1) by simp
qed

definition new_entry :: "u8 list \<Rightarrow> u8 list list \<Rightarrow> u8 list" where
  "new_entry name vals = name @ join_values 0x3d vals"

lemma join_values_length: "length (join_values sep vals) = sum_list (map (\<lambda>v. length v + 1) vals)"
  by (induction sep vals rule: join_values.induct) simp_all

text \<open>What an entry needs: its text, its zero and the final zero.\<close>

lemma setenv_append_entry:
  assumes "env_rep data es" "\<forall>e \<in> set es. entry_ok e" "length data = ENV_SIZE"
  shows "if length (entries_text (es @ [new_entry name vals])) < ENV_SIZE
    then \<exists>data'. setenv_append data name vals = Some (0, data')
      \<and> env_rep data' (es @ [new_entry name vals]) \<and> length data' = ENV_SIZE
    else setenv_append data name vals = Some (1, data)"
proof -
  let ?t = "entries_text es" and ?e = "new_entry name vals"
  define env where "env = (let env = length ?t - 1 in if 0 < env then env + 1 else env)"
  have env: "env = length ?t"
  proof (cases "es = []")
    case False
    then obtain m where "?t = m @ [0]" "m \<noteq> []" using entries_text_last assms(2) by metis
    then show ?thesis by (simp add: env_def)
  qed (simp add: env_def)
  obtain rest where d: "data = ?t @ 0 # rest" using assms(1) by (auto simp: env_rep_def)
  have len: "length name + 2 + sum_list (map (\<lambda>v. length v + 1) vals) = length (?e @ [0, 0])"
    by (simp add: new_entry_def join_values_length)
  have def_: "setenv_append data name vals =
      (if int ENV_SIZE - int (length ?t) < int (length (?e @ [0, 0])) then Some (1, data)
       else map_option (\<lambda>data. (0, data)) (put_at data (length ?t) (?e @ [0, 0])))"
    unfolding setenv_append_def len append_pos_entries [OF assms(1,2)] bind.bind_lunit Let_def
      env [unfolded env_def Let_def] by (simp add: new_entry_def)
  show ?thesis
  proof (cases "length (entries_text (es @ [?e])) < ENV_SIZE")
    case True
    then have fits: "length ?t + length (?e @ [0, 0]) \<le> length data" using assms(3) by simp
    define mid where "mid = take (length (?e @ [0, 0])) (0 # rest)"
    define post where "post = drop (length (?e @ [0, 0])) (0 # rest)"
    have split: "data = ?t @ mid @ post" using d by (simp add: mid_def post_def del: take_Suc_Cons drop_Suc_Cons)
    have "length mid = length (?e @ [0, 0])" using fits d by (simp add: mid_def del: take_Suc_Cons)
    then have "put_at data (length ?t) (?e @ [0, 0]) = Some (?t @ (?e @ [0, 0]) @ post)"
      unfolding split by (rule put_at_append)
    moreover have "env_rep (?t @ (?e @ [0, 0]) @ post) (es @ [?e])" by (auto simp: env_rep_def)
    moreover have "length (?t @ (?e @ [0, 0]) @ post) = ENV_SIZE"
      using assms(3) split \<open>length mid = _\<close> by simp
    ultimately show ?thesis using True fits assms(3) unfolding def_ by auto
  next
    case False
    then show ?thesis unfolding def_ by auto
  qed
qed


section \<open>The environment as a finite map\<close>

definition env_holds :: "u8 list \<Rightarrow> u8 list list \<Rightarrow> bool" where
  "env_holds data es \<longleftrightarrow>
     env_rep data es \<and> (\<forall>e \<in> set es. entry_ok e) \<and> distinct (map entry_name es) \<and> length data = ENV_SIZE"

definition env_inv :: "('c, 'z) env_state_scheme \<Rightarrow> u8 list list \<Rightarrow> bool" where
  "env_inv s es \<longleftrightarrow> env_valid s \<and> env_holds (env_data s) es \<and> length (boot_file s) = 128"

definition env_map :: "u8 list list \<Rightarrow> u8 list \<rightharpoonup> u8 list" where
  "env_map es = map_of (map (\<lambda>e. (entry_name e, entry_value e)) es)"

definition env_abs :: "('c, 'z) env_state_scheme \<Rightarrow> (u8 list \<rightharpoonup> u8 list) \<Rightarrow> bool" where
  "env_abs s m \<longleftrightarrow> (\<exists>es. env_inv s es \<and> m = env_map es)"

definition remove_entry :: "u8 list \<Rightarrow> u8 list list \<Rightarrow> u8 list list" where
  "remove_entry name es = filter (\<lambda>e. entry_name e \<noteq> name) es"

definition setenv_spec :: "u8 list \<Rightarrow> u8 list list \<Rightarrow> u8 list list \<Rightarrow> u8 list list" where
  "setenv_spec name vals es = remove_entry name es @ (if vals = [] then [] else [new_entry name vals])"

text \<open>The value the words after the name make: they are joined by blanks.\<close>

definition joined :: "u8 list list \<Rightarrow> u8 list option" where
  "joined vals = (case vals of [] \<Rightarrow> None | v # vs \<Rightarrow> Some (v @ join_values 0x20 vs))"

lemma env_map_remove: "env_map (remove_entry name es) = (env_map es)(name := None)"
  by (induction es) (auto simp: env_map_def remove_entry_def fun_eq_iff)

lemma env_map_append_new:
  assumes "0x3d \<notin> set name" "vals \<noteq> []" "name \<notin> entry_name ` set es"
  shows "env_map (es @ [new_entry name vals]) = (env_map es)(name := joined vals)"
proof -
  obtain v vs where "vals = v # vs" using assms(2) by (cases vals) auto
  moreover have "env_map es name = None"
    using assms(3) by (auto simp: env_map_def map_of_eq_None_iff)
  ultimately show ?thesis
    using assms(1)
    by (auto simp: env_map_def joined_def new_entry_def fun_eq_iff map_add_def split: option.split)
qed

lemma remove_entry_name [simp]: "name \<notin> entry_name ` set (remove_entry name es)"
  by (auto simp: remove_entry_def)

lemma env_map_spec:
  "0x3d \<notin> set name \<Longrightarrow> env_map (setenv_spec name vals es) = (env_map es)(name := joined vals)"
  using env_map_append_new [of name vals "remove_entry name es"]
  by (cases "vals = []")
    (auto simp: setenv_spec_def env_map_remove joined_def)

lemma join_values_zero:
  "(sep :: u8) \<noteq> 0 \<Longrightarrow> \<forall>v \<in> set vals. 0 \<notin> set v \<Longrightarrow> 0 \<notin> set (join_values sep vals)"
  by (induction sep vals rule: join_values.induct) auto

lemma new_entry_ok:
  assumes "0 \<notin> set name" "vals \<noteq> []" "\<forall>v \<in> set vals. 0 \<notin> set v"
  shows "entry_ok (new_entry name vals)"
  using assms join_values_zero [where sep = "0x3d" and vals = vals] by (cases vals) (auto simp: entry_ok_def new_entry_def)

lemma new_entry_name: "0x3d \<notin> set name \<Longrightarrow> vals \<noteq> [] \<Longrightarrow> entry_name (new_entry name vals) = name"
  by (cases vals) (simp_all add: new_entry_def)

lemma remove_entry_id: "name \<notin> entry_name ` set es \<Longrightarrow> remove_entry name es = es"
  by (auto simp: remove_entry_def filter_id_conv)

lemma env_holds_scan:
  assumes "env_holds data es" "0 \<notin> set name" "0x3d \<notin> set name"
  obtains (absent) "setenv_scan data name 0 = Some None" "name \<notin> entry_name ` set es"
  | (present) es1 e es2 where "es = es1 @ e # es2" "entry_name e = name"
      "setenv_scan data name 0 = Some (Some (length (entries_text es1), length (entries_text es1) + length e,
         length (entries_text es1) + length name + 1))"
proof -
  obtain rest where d: "data = entries_text es @ 0 # rest"
    using assms(1) by (auto simp: env_holds_def env_rep_def)
  have scan: "setenv_scan data name 0 = Some (case find (\<lambda>e. entry_name e = name) es of
              None \<Rightarrow> None
            | Some e \<Rightarrow>
                let p = length (entries_text (takeWhile (\<lambda>e. entry_name e \<noteq> name) es))
                in Some (p, p + length e, p + length name + 1))"
    using setenv_scan_entries [of es name "[]" rest, unfolded append_Nil list.size(3)] assms d
    by (simp add: env_holds_def)
  show ?thesis
  proof (cases "find (\<lambda>e. entry_name e = name) es")
    case None
    have "setenv_scan data name 0 = Some None" using scan unfolding None by simp
    moreover have "name \<notin> entry_name ` set es" using None by (auto simp: find_None_iff)
    ultimately show ?thesis by (rule absent)
  next
    case (Some e)
    have "es = takeWhile (\<lambda>e. entry_name e \<noteq> name) es @ e # tl (dropWhile (\<lambda>e. entry_name e \<noteq> name) es)"
      "entry_name e = name"
      using Some by (induction es) (auto split: if_splits)
    then show ?thesis using scan Some by (intro present) (auto simp: Let_def)
  qed
qed

lemma env_holds_remove:
  assumes "env_holds data es" "0 \<notin> set name" "0x3d \<notin> set name"
  obtains hit data' where "setenv_scan data name 0 = Some hit"
    "hit = None \<longleftrightarrow> name \<notin> entry_name ` set es"
    "(case hit of None \<Rightarrow> Some data | Some (env, nxt, _) \<Rightarrow> setenv_delete data env nxt) = Some data'"
    "env_holds data' (remove_entry name es)"
  using assms
proof (cases rule: env_holds_scan)
  case absent
  with assms(1) that [of None data] show ?thesis by (simp add: remove_entry_id)
next
  case (present es1 e es2)
  have holds: "env_rep data (es1 @ e # es2)" "\<forall>e \<in> set (es1 @ e # es2). entry_ok e"
    "distinct (map entry_name (es1 @ e # es2))" "length data = ENV_SIZE"
    using assms(1) present(1) by (auto simp: env_holds_def)
  obtain data' where del:
    "setenv_delete data (length (entries_text es1)) (length (entries_text es1) + length e) = Some data'"
    "env_rep data' (es1 @ es2)" "length data' = length data"
    using setenv_delete_entry [OF holds(1,2)] .
  have "remove_entry name es = es1 @ es2"
    using holds(3) present(1,2) remove_entry_id [of name es1] remove_entry_id [of name es2]
    by (auto simp: remove_entry_def)
  then have "env_holds data' (remove_entry name es)"
    using holds del by (auto simp: env_holds_def)
  with present del that show ?thesis by auto
qed

lemma env_holds_append:
  assumes "env_holds data es" "0 \<notin> set name" "0x3d \<notin> set name" "vals \<noteq> []"
    "\<forall>v \<in> set vals. 0 \<notin> set v" "name \<notin> entry_name ` set es"
  shows "if length (entries_text (es @ [new_entry name vals])) < ENV_SIZE
    then \<exists>data'. setenv_append data name vals = Some (0, data') \<and> env_holds data' (es @ [new_entry name vals])
    else setenv_append data name vals = Some (1, data)"
  using setenv_append_entry [of data es name vals] assms new_entry_ok [OF assms(2,4,5)]
    new_entry_name [OF assms(3,4)]
  by (auto simp: env_holds_def)


text \<open>States that agree on what the invariant reads.\<close>

definition same_env :: "('c, 'z) env_state_scheme \<Rightarrow> ('c, 'z) env_state_scheme \<Rightarrow> bool" where
  "same_env s s' \<longleftrightarrow> env_valid s' = env_valid s \<and> env_data s' = env_data s
     \<and> default_env s' = default_env s \<and> stored_crc s' = stored_crc s
     \<and> length (boot_file s') = length (boot_file s)"

lemma same_env_refl [simp]: "same_env s s"
  by (simp add: same_env_def)

lemma same_env_trans: "same_env s s' \<Longrightarrow> same_env s' s'' \<Longrightarrow> same_env s s''"
  by (simp add: same_env_def)

lemma env_inv_same: "same_env s s' \<Longrightarrow> env_inv s' es = env_inv s es"
  by (simp add: same_env_def env_inv_def)

lemma setenv_redirect_same: "setenv_redirect ca name vals s = (ok, s') \<Longrightarrow> same_env s s'"
  by (auto simp: setenv_redirect_def same_env_def split: option.splits list.splits prod.splits)

lemma setenv_baudrate_same: "setenv_baudrate name vals s = Some (ok, s') \<Longrightarrow> same_env s s'"
  by (auto simp: setenv_baudrate_def same_env_def Let_def split: option.splits list.splits if_splits)

lemma copy_filename_fits:
  assumes "length dst = 128"
  shows "\<exists>f. copy_filename dst src 128 = Some f \<and> length f = 128"
  using assms by (auto simp: copy_filename_def put_at_def)

lemma setenv_follow_same:
  assumes "length (boot_file s) = 128"
  obtains s' where "setenv_follow name v s = Some s'" "same_env s s'"
proof -
  obtain f where "copy_filename (boot_file s) v 128 = Some f" "length f = 128"
    using copy_filename_fits [OF assms] by blast
  then have "\<exists>s'. setenv_follow name v s = Some s' \<and> same_env s s'"
    using assms by (auto simp: setenv_follow_def same_env_def)
  then show ?thesis using that by blast
qed

lemma do_setenv_checks:
  "do_setenv ca (cmd # name # vals) s =
     (if 0x3d \<in> set name then Some (1, s)
      else do {
        let s = s\<lparr>env_id := env_id s + 1\<rparr>;
        hit \<leftarrow> setenv_scan (env_area s) name 0;
        let (ok, s) = setenv_redirect ca name vals s;
        if \<not> ok then Some (1, s)
        else do {
          (ok, s) \<leftarrow> (if hit \<noteq> None then setenv_baudrate name vals s else Some (True, s));
          if \<not> ok then Some (1, s) else setenv_store hit name vals s
        }
      })"
  by (simp add: do_setenv_def)

lemma crc_update_simps [simp]:
  "env_data (env_crc_update s) = env_data s" "env_valid (env_crc_update s) = env_valid s"
  "boot_file (env_crc_update s) = boot_file s"
  "stored_crc (env_crc_update s) = crc32 0 (take ENV_SIZE (env_data s))"
  by (simp_all add: env_crc_update_def)

lemma set_area_valid [simp]:
  "env_valid s \<Longrightarrow> set_area d s = s\<lparr>env_data := d\<rparr>" "env_valid s \<Longrightarrow> env_area s = env_data s"
  by (simp_all add: set_area_def env_area_def)

lemma setenv_store_spec:
  assumes inv: "env_inv s es" and ok: "0 \<notin> set name" "0x3d \<notin> set name" "\<forall>v \<in> set vals. 0 \<notin> set v"
    and hit: "setenv_scan (env_data s) name 0 = Some hit"
  obtains r s' where "setenv_store hit name vals s = Some (r, s')"
    "r = (if vals = [] \<or> length (entries_text (setenv_spec name vals es)) < ENV_SIZE then 0 else 1)"
    "env_inv s' (if r = 0 then setenv_spec name vals es else remove_entry name es)"
    "r = 0 \<Longrightarrow> stored_crc s' = crc32 0 (env_data s')"
proof -
  have v: "env_valid s" and holds: "env_holds (env_data s) es" and bf: "length (boot_file s) = 128"
    using inv by (auto simp: env_inv_def)
  obtain data' where del:
    "(case hit of None \<Rightarrow> Some (env_data s) | Some (env, nxt, _) \<Rightarrow> setenv_delete (env_data s) env nxt) = Some data'"
    "env_holds data' (remove_entry name es)"
    using env_holds_remove [OF holds ok(1,2)] hit by force
  have len: "length data' = ENV_SIZE" using del(2) by (simp add: env_holds_def)
  note store = setenv_store_def [of hit name vals s, unfolded set_area_valid(2) [OF v] del(1)]
  show ?thesis
  proof (cases vals)
    case Nil
    have "setenv_store hit name vals s = Some (0, env_crc_update (s\<lparr>env_data := data'\<rparr>))"
      unfolding store using Nil v by simp
    moreover have "env_inv (env_crc_update (s\<lparr>env_data := data'\<rparr>)) (setenv_spec name vals es)"
      using Nil v del(2) bf by (simp add: env_inv_def setenv_spec_def)
    ultimately show ?thesis using that [of 0] Nil len by auto
  next
    case (Cons w ws)
    then have ne: "vals \<noteq> []" by simp
    note app = env_holds_append [OF del(2) ok(1,2) ne ok(3) remove_entry_name]
    have spec: "setenv_spec name vals es = remove_entry name es @ [new_entry name vals]"
      using ne by (simp add: setenv_spec_def)
    show ?thesis
    proof (cases "length (entries_text (setenv_spec name vals es)) < ENV_SIZE")
      case True
      obtain data'' where a: "setenv_append data' name vals = Some (0, data'')"
        "env_holds data'' (setenv_spec name vals es)"
        using app True unfolding spec by auto
      have len': "length data'' = ENV_SIZE" using a(2) by (simp add: env_holds_def)
      define t where "t = env_crc_update (s\<lparr>env_data := data''\<rparr>)"
      have "length (boot_file t) = 128" by (simp add: t_def bf)
      then obtain s' where f: "setenv_follow name w t = Some s'" "same_env t s'"
        by (rule setenv_follow_same)
      have "setenv_store hit name vals s = Some (0, s')"
        unfolding store using Cons v a(1) f(1) by (simp add: t_def)
      moreover have "env_inv t (setenv_spec name vals es)"
        using v a(2) bf by (simp add: env_inv_def t_def)
      moreover have "stored_crc s' = crc32 0 (env_data s')"
        using f(2) len' by (simp add: same_env_def t_def)
      ultimately show ?thesis using that [of 0 s'] True f(2) by (simp add: env_inv_same)
    next
      case False
      then have "setenv_append data' name vals = Some (1, data')"
        using app unfolding spec by simp
      then have "setenv_store hit name vals s = Some (1, s\<lparr>env_data := data'\<rparr>)"
        unfolding store using Cons v by simp
      moreover have "env_inv (s\<lparr>env_data := data'\<rparr>) (remove_entry name es)"
        using v del(2) bf by (simp add: env_inv_def)
      ultimately show ?thesis using that [of 1] False ne by simp
    qed
  qed
qed

lemma setenv_refines_lemma:
  assumes "env_abs s m" "0 \<notin> set name" "\<forall>v \<in> set vals. 0 \<notin> set v"
    "do_setenv ca (cmd # name # vals) s = Some (r, s')"
  shows "if r = 0 then env_abs s' (m(name := joined vals)) \<and> stored_crc s' = crc32 0 (env_data s')
    else r = 1 \<and> (env_abs s' m \<or> env_abs s' (m(name := None)))"
proof (cases "0x3d \<in> set name")
  case True
  then show ?thesis using assms(1,4) by (simp add: do_setenv_checks)
next
  case False
  obtain es where inv: "env_inv s es" and m: "m = env_map es" using assms(1) by (auto simp: env_abs_def)
  define s1 where "s1 = s\<lparr>env_id := env_id s + 1\<rparr>"
  have s1: "same_env s s1" by (simp add: s1_def same_env_def)
  obtain ok s2 where red: "setenv_redirect ca name vals s1 = (ok, s2)" by fastforce
  have s2: "same_env s s2" using same_env_trans [OF s1 setenv_redirect_same [OF red]] .
  have v: "env_valid s1" using inv s1 by (simp add: env_inv_def same_env_def)
  obtain hit where hit: "setenv_scan (env_data s) name 0 = Some hit"
    using inv False assms(2) env_holds_remove [of "env_data s" es name] by (auto simp: env_inv_def)
  have area: "env_area s1 = env_data s" using v s1 by (simp add: same_env_def)
  have abs: "env_abs t m" if "same_env s t" for t
    using inv m that by (auto simp: env_abs_def env_inv_same)
  have eq: "do_setenv ca (cmd # name # vals) s =
      (if \<not> ok then Some (1, s2)
       else do {
         (ok, t) \<leftarrow> (if hit \<noteq> None then setenv_baudrate name vals s2 else Some (True, s2));
         if \<not> ok then Some (1, t) else setenv_store hit name vals t
       })"
    unfolding do_setenv_checks Let_def s1_def [symmetric] area hit red using False by simp
  show ?thesis
  proof (cases ok)
    case False
    then show ?thesis using eq assms(4) abs [OF s2] by simp
  next
    case ok: True
    obtain ok' t where bd: "(if hit \<noteq> None then setenv_baudrate name vals s2 else Some (True, s2)) = Some (ok', t)"
      "(if \<not> ok' then Some (1, t) else setenv_store hit name vals t) = Some (r, s')"
      using assms(4) ok unfolding eq by (auto simp: bind_eq_Some_conv)
    have t: "same_env s t"
      using bd(1) same_env_trans [OF s2 setenv_baudrate_same] s2 by (auto split: if_splits)
    show ?thesis
    proof (cases ok')
      case False
      then show ?thesis using bd(2) abs [OF t] by auto
    next
      case True
      have ti: "env_inv t es" using inv t by (simp add: env_inv_same)
      have th: "setenv_scan (env_data t) name 0 = Some hit" using hit t by (simp add: same_env_def)
      obtain r' s'' where st: "setenv_store hit name vals t = Some (r', s'')"
        "r' = (if vals = [] \<or> length (entries_text (setenv_spec name vals es)) < ENV_SIZE then 0 else 1)"
        "env_inv s'' (if r' = 0 then setenv_spec name vals es else remove_entry name es)"
        "r' = 0 \<Longrightarrow> stored_crc s'' = crc32 0 (env_data s'')"
        by (rule setenv_store_spec [OF ti assms(2) False assms(3) th]) blast
      have rr: "r = r'" "s' = s''" using bd(2) True st(1) by simp_all
      show ?thesis
      proof (cases "r' = 0")
        case True
        with st(3,4) have "env_abs s'' (env_map (setenv_spec name vals es))" by (auto simp: env_abs_def)
        then show ?thesis using True rr st(4) m env_map_spec [OF False] by simp
      next
        case False
        with st(3) have "env_abs s'' (env_map (remove_entry name es))" by (auto simp: env_abs_def)
        then show ?thesis using False rr st(2) m by (simp add: env_map_remove split: if_splits)
      qed
    qed
  qed
qed


lemma setenv_returns_lemma:
  assumes "env_inv s es" "0 \<notin> set name" "\<forall>v \<in> set vals. 0 \<notin> set v"
    "0x3d \<notin> set name" "std_console name = None" "name \<noteq> ascii ''baudrate''"
  shows "\<exists>r s'. do_setenv ca (cmd # name # vals) s = Some (r, s')
    \<and> r = (if vals = [] \<or> length (entries_text (setenv_spec name vals es)) < ENV_SIZE then 0 else 1)"
proof -
  define s1 where "s1 = s\<lparr>env_id := env_id s + 1\<rparr>"
  have s1: "same_env s s1" by (simp add: s1_def same_env_def)
  have inv: "env_inv s1 es" using assms(1) s1 by (simp add: env_inv_same)
  then have v: "env_valid s1" by (simp add: env_inv_def)
  obtain hit where hit: "setenv_scan (env_data s1) name 0 = Some hit"
    using inv assms(2,4) env_holds_remove [of "env_data s1" es name] by (auto simp: env_inv_def)
  have "do_setenv ca (cmd # name # vals) s = setenv_store hit name vals s1"
    unfolding do_setenv_checks Let_def s1_def [symmetric] set_area_valid(2) [OF v] hit
    using assms(4-6) by (simp add: setenv_redirect_def setenv_baudrate_def)
  then show ?thesis
    using setenv_store_spec [OF inv assms(2,4,3) hit] by metis
qed

section \<open>A small environment\<close>

definition plain_env :: "u8 list \<Rightarrow> unit env_state" where
  "plain_env d = \<lparr>env_valid = True, default_env = [0x3d, 0, 0, 0], stored_crc = crc32 0 d, env_data = d,
     env_id = 1, baudrate = 115200, ip_addr = 0, load_addr = 0, boot_file = replicate 128 0,
     con_in = [], console = ()\<rparr>"

definition small_entries :: "u8 list list" where
  "small_entries = [ascii ''a=1'', ascii ''bc=22'']"

definition small_env :: "unit env_state" where
  "small_env = plain_env (entries_text small_entries @ 0 # replicate (ENV_SIZE - 11) 0)"

lemma ascii_simps [simp]: "ascii [] = []" "ascii (c # s) = of_char c # ascii s"
  by (simp_all add: ascii_def)

lemma small_inv: "env_inv small_env small_entries"
  by (auto simp: env_inv_def small_env_def plain_env_def env_holds_def env_rep_def small_entries_def
      entry_ok_def entry_name_def ENV_SIZE_def CONFIG_ENV_SIZE_def)

lemma small_abs: "env_abs small_env (env_map small_entries)"
  using small_inv by (auto simp: env_abs_def)

definition no_console :: "nat \<Rightarrow> u8 list \<Rightarrow> unit \<Rightarrow> int \<times> unit" where
  "no_console file dev c = (- 1, c)"

lemma small_set: "\<exists>s'. do_setenv no_console [[], [0x78], [0x31], [0x32]] small_env = Some (0, s')"
proof -
  have "std_console [0x78] = None" "[0x78] \<noteq> ascii ''baudrate''" by (simp_all add: std_console_def)
  then show ?thesis
    using setenv_returns_lemma [OF small_inv, of "[0x78]" "[[0x31], [0x32]]" no_console "[]"]
    by (simp add: setenv_spec_def remove_entry_def small_entries_def new_entry_def entry_name_def
        ENV_SIZE_def CONFIG_ENV_SIZE_def)
qed

text \<open>Setting an ordinary variable (not a console, not the baud rate, no equals sign in the name)
  always returns, and the result is 0 exactly when nothing is added or the strings with the new
  entry leave room for the final zero.\<close>

theorem setenv_returns:
  assumes "env_inv s es" "0 \<notin> set name" "\<forall>v \<in> set vals. 0 \<notin> set v"
    "0x3d \<notin> set name" "std_console name = None" "name \<noteq> ascii ''baudrate''"
  shows "\<exists>r s'. do_setenv ca (cmd # name # vals) s = Some (r, s')
    \<and> r = (if vals = [] \<or> length (entries_text (setenv_spec name vals es)) < ENV_SIZE then 0 else 1)"
  by (rule setenv_returns_lemma [OF assms])

theorem setenv_returns_witness:
  "\<exists>r s'. do_setenv no_console [[], [0x78], [0x31]] small_env = Some (r, s') \<and> r = 0"
proof -
  have "std_console [0x78] = None" "[0x78] \<noteq> ascii ''baudrate''" by (simp_all add: std_console_def)
  then show ?thesis
    using setenv_returns [OF small_inv, of "[0x78]" "[[0x31]]" no_console "[]"]
    by (simp add: setenv_spec_def remove_entry_def small_entries_def new_entry_def entry_name_def
        ENV_SIZE_def CONFIG_ENV_SIZE_def)
qed

text \<open>C5:
  Setting a variable implements an update of a finite map from names to values. Whatever the
  name and the values are (free of NULs), if \<^verbatim>\<open>_do_setenv\<close> returns 0 the new array represents
  the old map with the name bound to the joined values, or unbound when there are none, and the
  stored CRC is that of the array. If it returns something else, that is 1 and the array
  represents the old map, or the old map without the name when the new entry did not fit.\<close>

theorem setenv_refines:
  assumes "env_abs s m" "0 \<notin> set name" "\<forall>v \<in> set vals. 0 \<notin> set v"
    "do_setenv ca (cmd # name # vals) s = Some (r, s')"
  shows "if r = 0 then env_abs s' (m(name := joined vals)) \<and> stored_crc s' = crc32 0 (env_data s')
    else r = 1 \<and> (env_abs s' m \<or> env_abs s' (m(name := None)))"
  by (rule setenv_refines_lemma [OF assms])

theorem setenv_refines_witness:
  "\<exists>s'. do_setenv no_console [[], [0x78], [0x31], [0x32]] small_env = Some (0, s')
    \<and> env_abs s' ((env_map small_entries)([0x78] \<mapsto> [0x31, 0x20, 0x32]))"
proof -
  obtain s' where s': "do_setenv no_console [[], [0x78], [0x31], [0x32]] small_env = Some (0, s')"
    using small_set by blast
  show ?thesis
    using setenv_refines [OF small_abs _ _ s'] s' by (simp add: joined_def)
qed

section \<open>Looking up\<close>

text \<open>The string a lookup points to.\<close>

definition getenv_string :: "('c, 'z) env_state_scheme \<Rightarrow> u8 list \<Rightarrow> u8 list option option" where
  "getenv_string s name =
     (case getenv s name of
        None \<Rightarrow> None
      | Some None \<Rightarrow> Some None
      | Some (Some i) \<Rightarrow> map_option Some (str_at (env_area s) i))"

lemma env_map_present:
  "es = es1 @ e # es2 \<Longrightarrow> entry_name e = name \<Longrightarrow> distinct (map entry_name es)
     \<Longrightarrow> env_map es name = Some (entry_value e)"
  unfolding env_map_def by (rule map_of_is_SomeI) (auto simp: o_def)

lemma getenv_lookup:
  assumes "env_inv s es" "0 \<notin> set name" "0x3d \<notin> set name"
  obtains (absent) "getenv s name = Some None" "env_map es name = None"
  | (present) pre v post where "getenv s name = Some (Some (length pre))" "env_map es name = Some v"
      "env_area s = pre @ v @ 0 # post" "0 \<notin> set v"
proof -
  have holds: "env_holds (env_data s) es" and v: "env_valid s" using assms(1) by (auto simp: env_inv_def)
  then have "length (env_data s) \<le> CONFIG_ENV_SIZE"
    by (simp add: env_holds_def ENV_SIZE_def)
  then have get: "getenv s name = map_option (map_option (\<lambda>(_, _, v). v)) (setenv_scan (env_data s) name 0)"
    using v by (simp add: getenv_def getenv_scan_eq)
  show ?thesis
    using holds assms(2,3)
  proof (cases rule: env_holds_scan)
    case absent
    then show ?thesis using get by (intro that(1)) (auto simp: env_map_def map_of_eq_None_iff)
  next
    case (present es1 e es2)
    obtain rest where d: "env_data s = entries_text es @ 0 # rest"
      using holds by (auto simp: env_holds_def env_rep_def)
    have ok: "entry_ok e" using holds present(1) by (simp add: env_holds_def)
    let ?pre = "entries_text es1 @ name @ [0x3d]"
    have a: "env_area s = ?pre @ entry_value e @ 0 # entries_text es2 @ 0 # rest"
      using v d present(1) entry_split [OF ok] present(2) by simp
    have g: "getenv s name = Some (Some (length ?pre))"
      using get present(3) by simp
    have m: "env_map es name = Some (entry_value e)"
      using env_map_present [OF present(1,2)] holds by (simp add: env_holds_def)
    have z: "0 \<notin> set (entry_value e)"
      using ok entry_split [OF ok] by (metis Un_iff entry_ok_def list.set_intros(2) set_append)
    show ?thesis by (rule that(2) [OF g m a z])
  qed
qed

lemma getenv_string_abs:
  assumes "env_abs s m" "0 \<notin> set name" "0x3d \<notin> set name"
  shows "getenv_string s name = Some (m name)"
proof -
  obtain es where inv: "env_inv s es" "m = env_map es" using assms(1) by (auto simp: env_abs_def)
  from inv(1) assms(2,3) show ?thesis
  proof (cases rule: getenv_lookup)
    case absent
    then show ?thesis using inv(2) by (simp add: getenv_string_def)
  next
    case (present pre v post)
    then show ?thesis using inv(2) by (simp add: getenv_string_def str_at_eq)
  qed
qed

text \<open>C8:
  What was set is what is looked up: after a successful \<^verbatim>\<open>setenv name v1 ... vn\<close> the lookup
  of that name points to the values joined by blanks (or finds nothing, after a deletion), and
  every other name is looked up as before, although its bytes may have moved.\<close>

theorem getenv_after_setenv:
  assumes "env_abs s m" "0 \<notin> set name" "\<forall>v \<in> set vals. 0 \<notin> set v"
    "do_setenv ca (cmd # name # vals) s = Some (0, s')" "0 \<notin> set n" "0x3d \<notin> set n"
  shows "getenv_string s' n = (if n = name then Some (joined vals) else getenv_string s n)"
proof -
  have "env_abs s' (m(name := joined vals))"
    using setenv_refines_lemma [OF assms(1-4)] by simp
  then show ?thesis
    using assms(1,5,6) by (simp add: getenv_string_abs)
qed

theorem getenv_after_setenv_witness:
  "\<exists>s'. do_setenv no_console [[], [0x78], [0x31], [0x32]] small_env = Some (0, s')
    \<and> getenv_string s' [0x78] = Some (Some [0x31, 0x20, 0x32])"
proof -
  obtain s' where s': "do_setenv no_console [[], [0x78], [0x31], [0x32]] small_env = Some (0, s')"
    using small_set by blast
  show ?thesis
    using getenv_after_setenv [OF small_abs _ _ s', of "[0x78]"] s' by (simp add: joined_def)
qed



lemma getenv_copy_string:
  "0 \<notin> set v \<Longrightarrow>
   getenv_copy (pre @ v @ 0 # post) (length pre) (out @ rest) (length out) (length out) (length out + length rest)
   = (if length v < length rest
      then Some (out @ v @ 0 # drop (length v + 1) rest, length out + length v + 1, length out + length v + 1)
      else Some (out @ take (length rest) v, length out + length rest, length out + length rest + 1))"
proof (induction v arbitrary: pre out rest)
  case Nil
  show ?case
  proof (cases rest)
    case Nil
    then show ?thesis by (simp add: getenv_copy.simps)
  next
    case (Cons r rest')
    then show ?thesis using wr_append [of out r rest' 0] by (subst getenv_copy.simps) simp
  qed
next
  case (Cons c v)
  show ?case
  proof (cases rest)
    case Nil
    then show ?thesis by (simp add: getenv_copy.simps)
  next
    case rest: (Cons r rest')
    have "getenv_copy ((pre @ [c]) @ v @ 0 # post) (length (pre @ [c])) ((out @ [c]) @ rest')
        (length (out @ [c])) (length (out @ [c])) (length (out @ [c]) + length rest')
      = (if length v < length rest'
         then Some ((out @ [c]) @ v @ 0 # drop (length v + 1) rest',
           length (out @ [c]) + length v + 1, length (out @ [c]) + length v + 1)
         else Some ((out @ [c]) @ take (length rest') v, length (out @ [c]) + length rest',
           length (out @ [c]) + length rest' + 1))"
      using Cons.prems by (intro Cons.IH) simp
    moreover have "getenv_copy (pre @ (c # v) @ 0 # post) (length pre) (out @ rest) (length out) (length out)
        (length out + length rest)
      = getenv_copy (pre @ (c # v) @ 0 # post) (length pre + 1) (out @ c # rest') (length out + 1)
        (length out + 1) (length out + length rest)"
      using wr_append [of out r rest' c] rest Cons.prems by (subst getenv_copy.simps) simp
    ultimately show ?thesis using rest by simp
  qed
qed

text \<open>\<^verbatim>\<open>getenv_r\<close> with the size of the caller's buffer: a value that leaves at least one spare
  byte is copied with its terminator; a value that fits exactly makes it write one byte past the
  buffer; a longer value is cut without a terminator, and the size plus one is returned.\<close>

theorem getenv_r_sizes:
  assumes "env_abs s m" "0 \<notin> set name" "0x3d \<notin> set name" "m name = Some v"
  shows "getenv_r s name buf (length buf) =
    (if length v + 1 < length buf then Some (int (length v) + 1, v @ 0 # drop (length v + 1) buf)
     else if length v + 1 = length buf then None
     else Some (int (length buf) + 1, take (length buf) v))"
proof -
  obtain es where inv: "env_inv s es" "m = env_map es" using assms(1) by (auto simp: env_abs_def)
  from inv(1) assms(2,3) show ?thesis
  proof (cases rule: getenv_lookup)
    case absent
    then show ?thesis using inv(2) assms(4) by simp
  next
    case (present pre w post)
    then have w: "w = v" using inv(2) assms(4) by simp
    have scan: "getenv_scan (pre @ v @ 0 # post) name 0 = Some (Some (length pre))"
      using present(1,3) w by (simp add: getenv_def)
    have z: "0 \<notin> set v" using present(4) w by simp
    show ?thesis
      using getenv_copy_string [OF z, of pre post "[]" buf] scan
      by (auto simp: getenv_r_def getenv_r_area_def present(3) w buf_simps)
  qed
qed

theorem getenv_r_sizes_witness: "getenv_r small_env (ascii ''bc'') [1, 1, 1] 3 = None"
  using getenv_r_sizes [OF small_abs, of "ascii ''bc''" "ascii ''22''" "[1, 1, 1]"]
  by (simp add: env_map_def small_entries_def entry_name_def entry_value_def numeral_3_eq_3)

section \<open>Every reachable state\<close>

text \<open>
  The states the environment commands can reach from the default environment: calls of
  \<^verbatim>\<open>do_setenv\<close> and \<^verbatim>\<open>setenv\<close> with C strings, whatever they return.
\<close>

definition c_strings :: "u8 list list \<Rightarrow> bool" where
  "c_strings argv \<longleftrightarrow> (\<forall>a \<in> set argv. 0 \<notin> set a)"

inductive env_reach ::
    "(nat \<Rightarrow> u8 list \<Rightarrow> 'c \<Rightarrow> int \<times> 'c) \<Rightarrow> 'c env_state \<Rightarrow> 'c env_state \<Rightarrow> bool"
  for ca :: "nat \<Rightarrow> u8 list \<Rightarrow> 'c \<Rightarrow> int \<times> 'c" and s0 :: "'c env_state"
where
  start: "env_reach ca s0 (set_default_env s0)"
| cmd: "env_reach ca s0 s \<Longrightarrow> c_strings argv \<Longrightarrow> do_setenv_cmd ca argv s = Some (r, s')
     \<Longrightarrow> env_reach ca s0 s'"
| call: "env_reach ca s0 s \<Longrightarrow> c_strings (name # vals) \<Longrightarrow> vals = (case val of None \<Rightarrow> [] | Some v \<Rightarrow> [v])
     \<Longrightarrow> setenv ca name val s = Some (r, s') \<Longrightarrow> env_reach ca s0 s'"

inductive_cases env_reachE [elim]: "env_reach ca s0 s"

lemma do_setenv_abs:
  assumes "env_abs s m" "c_strings argv" "do_setenv ca argv s = Some (r, s')"
  shows "\<exists>m'. env_abs s' m'"
proof -
  obtain cmd name vals where argv: "argv = cmd # name # vals"
    using assms(3) by (auto simp: do_setenv_def split: list.splits)
  show ?thesis
    using setenv_refines_lemma [of s m name vals ca cmd r s'] assms argv
    by (auto simp: c_strings_def split: if_splits)
qed

lemma setenv_abs:
  assumes "env_abs s m" "c_strings (name # (case val of None \<Rightarrow> [] | Some v \<Rightarrow> [v]))"
    "setenv ca name val s = Some (r, s')"
  shows "\<exists>m'. env_abs s' m'"
proof -
  have "do_setenv ca (ascii ''setenv'' # name # (case val of None \<Rightarrow> [] | Some [] \<Rightarrow> [] | Some v \<Rightarrow> [v])) s
      = Some (r, s')"
    using assms(3) by (simp add: setenv_def)
  then show ?thesis
    using setenv_refines_lemma [OF assms(1), of name] assms(2)
    by (force simp: c_strings_def split: option.splits list.splits if_splits)
qed

text \<open>The default environment: valid strings with distinct names, closed by an empty string.\<close>

definition default_ok :: "('c, 'z) env_state_scheme \<Rightarrow> bool" where
  "default_ok s \<longleftrightarrow>
     (\<exists>es. default_env s = entries_text es @ [0, 0] \<and> (\<forall>e \<in> set es. entry_ok e)
        \<and> distinct (map entry_name es) \<and> length (default_env s) \<le> ENV_SIZE) \<and> length (boot_file s) = 128"

lemma set_default_env_inv:
  assumes "default_ok s"
  shows "\<exists>es. env_inv (set_default_env s) es"
proof -
  obtain es where es: "default_env s = entries_text es @ [0, 0]" "\<forall>e \<in> set es. entry_ok e"
      "distinct (map entry_name es)" "length (default_env s) \<le> ENV_SIZE" "length (boot_file s) = 128"
    using assms by (auto simp: default_ok_def)
  then have "env_inv (set_default_env s) es"
    by (auto simp: set_default_env_def env_inv_def env_holds_def env_rep_def)
  then show ?thesis by blast
qed

text \<open>C9:
  Invariant: whatever sequence of environment commands runs, with whatever arguments and results,
  the array stays a sequence of valid name=value strings with distinct names, ended by an empty
  string inside the array.\<close>

theorem env_reach_wf: "env_reach ca s0 s \<Longrightarrow> default_ok s0 \<Longrightarrow> \<exists>es. env_inv s es"
proof (induction rule: env_reach.induct)
  case start
  then show ?case by (rule set_default_env_inv)
next
  case (cmd s argv r s')
  then obtain es where "env_abs s (env_map es)" by (auto simp: env_abs_def)
  then have "\<exists>m'. env_abs s' m'"
    using cmd do_setenv_abs [of s _ argv ca r s'] by (auto simp: do_setenv_cmd_def split: if_splits)
  then show ?case by (auto simp: env_abs_def)
next
  case (call s name vals val r s')
  then obtain es where "env_abs s (env_map es)" by (auto simp: env_abs_def)
  then have "\<exists>m'. env_abs s' m'" using call setenv_abs by blast
  then show ?case by (auto simp: env_abs_def)
qed

theorem env_reach_wf_witness: "\<exists>es. env_inv (set_default_env small_env) es"
proof (rule env_reach_wf)
  show "env_reach no_console small_env (set_default_env small_env)" by (rule env_reach.start)
  show "default_ok small_env"
    unfolding default_ok_def
    by (intro conjI exI [of _ "[[0x3d]]"]) (simp_all add: small_env_def plain_env_def entry_ok_def
        entry_name_def ENV_SIZE_def CONFIG_ENV_SIZE_def)
qed


section \<open>Completion stays in its arrays\<close>

text \<open>A completed name stored before \<open>pos\<close>.\<close>

definition stored_name :: "(u8 list \<Rightarrow> bool) \<Rightarrow> u8 list \<Rightarrow> nat \<Rightarrow> cmd_ptr \<Rightarrow> bool" where
  "stored_name P buf pos c \<longleftrightarrow>
     (\<exists>p n. c = InBuf p \<and> p + length n < pos \<and> pos \<le> length buf
        \<and> take (length n + 1) (drop p buf) = n @ [0] \<and> 0 \<notin> set n \<and> P n)"

lemma take_drop_put_at:
  assumes "put_at buf pos xs = Some buf'" "p + k \<le> pos"
  shows "take k (drop p buf') = take k (drop p buf)"
proof -
  have "pos \<le> length buf" "buf' = take pos buf @ xs @ drop (pos + length xs) buf"
    using assms(1) by (auto simp: put_at_def split: if_splits)
  then have "drop p buf' = drop p (take pos buf) @ xs @ drop (pos + length xs) buf"
    using assms(2) by simp
  moreover have "take k (drop p (take pos buf)) = take k (drop p buf)"
    using assms(2) by (simp add: drop_take min_def)
  ultimately show ?thesis using \<open>pos \<le> length buf\<close> assms(2) by simp
qed

lemma stored_name_put:
  "stored_name P buf pos c \<Longrightarrow> put_at buf pos xs = Some buf' \<Longrightarrow> stored_name P buf' (pos + length xs) c"
  unfolding stored_name_def
  using take_drop_put_at [of buf pos xs buf'] put_at_length [of buf pos xs buf']
  by (auto simp: put_at_def split: if_splits intro!: exI)

lemma stored_name_new:
  assumes "put_at buf pos (n @ [0]) = Some buf'" "0 \<notin> set n" "P n"
  shows "stored_name P buf' (pos + length n + 1) (InBuf pos)"
proof -
  have "pos + length n + 1 \<le> length buf" "buf' = take pos buf @ (n @ [0]) @ drop (pos + length n + 1) buf"
    using assms(1) by (auto simp: put_at_def split: if_splits)
  then have "take (length n + 1) (drop pos buf') = n @ [0]" "pos + length n + 1 \<le> length buf'" by simp_all
  with assms(2,3) show ?thesis by (auto simp: stored_name_def)
qed

lemma stored_name_str_at:
  assumes "stored_name P buf pos c"
  obtains p n where "c = InBuf p" "str_at buf p = Some n" "P n"
proof -
  obtain p n where pn: "c = InBuf p" "p + length n < pos" "pos \<le> length buf"
      "take (length n + 1) (drop p buf) = n @ [0]" "0 \<notin> set n" "P n"
    using assms by (auto simp: stored_name_def)
  have "buf = take p buf @ n @ 0 # drop (p + length n + 1) buf"
    using pn(4) append_take_drop_id [of "length n + 1" "drop p buf"] append_take_drop_id [of p buf]
    by (simp add: add.commute add.left_commute)
  moreover have "length (take p buf) = p" using pn(2,3) by simp
  ultimately have "str_at buf p = Some n" using str_at_eq [OF pn(5)] by metis
  then show ?thesis using that pn(1,6) by blast
qed

definition completes :: "u8 list \<Rightarrow> u8 list list \<Rightarrow> u8 list \<Rightarrow> bool" where
  "completes var es n \<longleftrightarrow> n \<in> entry_name ` set es \<and> take (length var) n = var"

lemma env_complete_loop_ok:
  assumes "\<forall>e \<in> set es. entry_ok e \<and> e \<in> set all" "2 \<le> length cmdv" "found \<le> length cmdv - 2"
    "pos \<le> length buf" "\<forall>k < found. stored_name (completes var all) buf pos (cmdv ! k)"
  shows "\<exists>f cmdv' buf' pos'.
    env_complete_loop (pre @ entries_text es @ 0 # suf) var (int (length cmdv)) (length pre) found cmdv
      (int (length buf) - int pos) pos buf = Some (f, cmdv', buf')
    \<and> f \<le> length cmdv - 1 \<and> length cmdv' = length cmdv \<and> length buf' = length buf
    \<and> (\<forall>k < f. cmdv' ! k = Ellipsis \<or> stored_name (completes var all) buf' pos' (cmdv' ! k))"
  using assms
proof (induction es arbitrary: pre found cmdv pos buf)
  case Nil
  then show ?case by (subst env_complete_loop.simps) (auto intro!: exI)
next
  case (Cons e es)
  let ?env = "pre @ entries_text (e # es) @ 0 # suf"
  have e: "entry_ok e" "0 \<notin> set e" "e \<in> set all" using Cons.prems(1) by (auto simp: entry_ok_def)
  obtain c e' where ce: "e = c # e'" "c \<noteq> 0" using e entry_ok_not_Nil entry_ok_hd by (cases e) auto
  have rd: "rd ?env (length pre) = Some c" using ce by simp
  have fin: "str_end ?env (length pre) = Some (length pre + length e)"
    using str_end_at [OF e(2), of pre] by simp
  have lval: "take (length pre + length e - length pre) (drop (length pre) ?env) = e" by simp
  let ?lhs = "entry_name e"
  have unf: "env_complete_loop ?env var (int (length cmdv)) (length pre) found cmdv
      (int (length buf) - int pos) pos buf =
    (if 0 < length var \<and> (length ?lhs < length var \<or> take (length var) e \<noteq> var)
     then env_complete_loop ?env var (int (length cmdv)) (length pre + length e + 1) found cmdv
       (int (length buf) - int pos) pos buf
     else if int (length cmdv) - 2 \<le> int found \<or> int (length buf) - int pos < int (length ?lhs) + 1
     then map_option (\<lambda>cmdv. (found + 1, cmdv, buf)) (wr cmdv found Ellipsis)
     else (case wr cmdv found (InBuf pos) of
             None \<Rightarrow> None
           | Some cmdv' \<Rightarrow>
               (case put_at buf pos (?lhs @ [0]) of
                  None \<Rightarrow> None
                | Some buf' \<Rightarrow>
                    env_complete_loop ?env var (int (length cmdv)) (length pre + length e + 1) (found + 1) cmdv'
                      (int (length buf) - int pos - int (length ?lhs) - 1) (pos + length ?lhs + 1) buf')))"
    using ce(2) by (subst env_complete_loop.simps) (simp only: rd fin lval Let_def option.case if_False entry_name_def)
  have env: "?env = (pre @ e @ [0]) @ entries_text es @ 0 # suf"
    and i: "length pre + length e + 1 = length (pre @ e @ [0])" by simp_all
  show ?case
  proof (cases "0 < length var \<and> (length ?lhs < length var \<or> take (length var) e \<noteq> var)")
    case True
    have "\<forall>e \<in> set es. entry_ok e \<and> e \<in> set all" using Cons.prems(1) by simp
    from Cons.IH [OF this Cons.prems(2-5), of "pre @ e @ [0]"]
    show ?thesis unfolding unf if_P [OF True] by simp
  next
    case match: False
    show ?thesis
    proof (cases "int (length cmdv) - 2 \<le> int found \<or> int (length buf) - int pos < int (length ?lhs) + 1")
      case True
      have "found < length cmdv" using Cons.prems(2,3) by simp
      with True match Cons.prems show ?thesis
        unfolding unf by (auto simp: nth_list_update intro!: exI [of _ pos])
    next
      case False
      have found: "found < length cmdv" "found + 1 \<le> length cmdv - 2" using False Cons.prems(2) by auto
      obtain buf' where put: "put_at buf pos (?lhs @ [0]) = Some buf'"
        using False by (auto simp: put_at_def)
      have len: "length buf' = length buf" using put by (rule put_at_length)
      have pre_var: "take (length var) ?lhs = var"
      proof (cases "var = []")
        case False
        then have "length var \<le> length ?lhs" "take (length var) (?lhs @ 0x3d # entry_value e) = var"
          using match entry_split [OF e(1)] by auto
        then show ?thesis by simp
      qed simp
      let ?cmdv = "cmdv[found := InBuf pos]" and ?pos = "pos + length (?lhs @ [0])"
      have new: "stored_name (completes var all) buf' ?pos (InBuf pos)"
        using stored_name_new [OF put, of "completes var all"] e pre_var set_takeWhileD [of 0 "\<lambda>c. c \<noteq> 0x3d" e]
        by (auto simp: completes_def entry_name_def add.assoc)
      have "\<forall>k < found + 1. stored_name (completes var all) buf' ?pos (?cmdv ! k)"
        using Cons.prems(5) new found(1) stored_name_put [OF _ put]
        by (auto simp: nth_list_update less_Suc_eq)
      moreover have "?pos \<le> length buf'" using False len by simp
      moreover have "\<forall>e \<in> set es. entry_ok e \<and> e \<in> set all" using Cons.prems(1) by simp
      ultimately have "\<exists>f cmdv' buf'' pos'.
        env_complete_loop ((pre @ e @ [0]) @ entries_text es @ 0 # suf) var (int (length ?cmdv))
          (length (pre @ e @ [0])) (found + 1) ?cmdv (int (length buf') - int ?pos) ?pos buf'
          = Some (f, cmdv', buf'')
        \<and> f \<le> length ?cmdv - 1 \<and> length cmdv' = length ?cmdv \<and> length buf'' = length buf'
        \<and> (\<forall>k < f. cmdv' ! k = Ellipsis \<or> stored_name (completes var all) buf'' pos' (cmdv' ! k))"
        using Cons.prems(2) found(2) by (intro Cons.IH) simp_all
      then show ?thesis
        unfolding unf if_not_P [OF match] if_not_P [OF False] using found(1) put len
        by (simp add: algebra_simps)
    qed
  qed
qed

text \<open>Completion never leaves its arrays: given the real sizes of the pointer array (at least two
  slots) and of the text buffer, \<^verbatim>\<open>env_complete\<close> returns, the pointers end with a null pointer
  inside the array, and every pointer before it is the ellipsis or points to a terminated name of
  an existing variable that starts with the given prefix.\<close>

theorem env_complete_bounded:
  assumes "env_inv s es" "2 \<le> length cmdv"
  shows "\<exists>f cmdv' buf'. env_complete (env_area s) var (int (length cmdv)) cmdv (int (length buf)) buf
      = Some (f, cmdv', buf')
    \<and> f < length cmdv \<and> length cmdv' = length cmdv \<and> length buf' = length buf \<and> cmdv' ! f = NullPtr
    \<and> (\<forall>k < f. cmdv' ! k = Ellipsis
         \<or> (\<exists>p n. cmdv' ! k = InBuf p \<and> str_at buf' p = Some n \<and> completes var es n))"
proof -
  obtain rest where d: "env_area s = [] @ entries_text es @ 0 # rest"
    using assms(1) by (auto simp: env_inv_def env_holds_def env_rep_def env_area_def)
  have ok: "\<forall>e \<in> set es. entry_ok e \<and> e \<in> set es"
    using assms(1) by (auto simp: env_inv_def env_holds_def)
  let ?c = "cmdv[0 := NullPtr]"
  obtain f cmdv' buf' pos' where l:
    "env_complete_loop (env_area s) var (int (length ?c)) 0 0 ?c (int (length buf)) 0 buf = Some (f, cmdv', buf')"
    "f \<le> length ?c - 1" "length cmdv' = length ?c" "length buf' = length buf"
    "\<forall>k < f. cmdv' ! k = Ellipsis \<or> stored_name (completes var es) buf' pos' (cmdv' ! k)"
    using env_complete_loop_ok [OF ok, of ?c 0 0 buf var "[]" rest] assms(2) unfolding d by auto
  have f: "f < length cmdv" "cmdv \<noteq> []" using l(2) assms(2) by auto
  have "env_complete (env_area s) var (int (length cmdv)) cmdv (int (length buf)) buf
      = Some (f, cmdv'[f := NullPtr], buf')"
    using l(1,3) f by (simp add: env_complete_def)
  moreover have "cmdv' ! k = Ellipsis
      \<or> (\<exists>p n. cmdv' ! k = InBuf p \<and> str_at buf' p = Some n \<and> completes var es n)" if "k < f" for k
    using l(5) that stored_name_str_at [of "completes var es" buf' pos' "cmdv' ! k"] by metis
  ultimately show ?thesis using f l(3,4) by auto
qed

theorem env_complete_bounded_witness:
  "\<exists>f cmdv' buf'. env_complete (env_area small_env) [0x62] 2 [NullPtr, NullPtr] 1 [0] = Some (f, cmdv', buf')
    \<and> f < 2 \<and> cmdv' ! f = NullPtr"
  using env_complete_bounded [OF small_inv, of "[NullPtr, NullPtr]" "[0x62]" "[0]"] by auto



end
