(* ===== verification/EnvStore.thy ===== *)
theory EnvStore
  imports Prelude Crc Env
begin

text \<open>
  The NAND storage of the environment, \<^verbatim>\<open>common/env_nand.c\<close> (one copy, not embedded), with
  \<^verbatim>\<open>nand_erase_opts\<close> of \<^verbatim>\<open>drivers/mtd/nand/nand_util.c\<close>, and the choice between the stored and the default
  environment of \<^verbatim>\<open>env_relocate\<close>.  The NAND driver is a parameter: programming only clears bits, so what is
  saved can be read back because the area has been erased before.  The theorem is that a reload after a
  successful save gives the saved environment back.
\<close>

section \<open>Storage in NAND\<close>

text \<open>
  The NAND layer as the storage code sees it; the state of the chip is opaque.  The test for bad blocks is
  positive for a bad block and negative for an error.  A write returns whether it succeeded, a read that fails is
  \<^verbatim>\<open>None\<close>.  \<^verbatim>\<open>erase_block\<close> erases one block, with the driver's own check for bad blocks switched off if its first
  argument holds; \<^verbatim>\<open>write_oob\<close> writes the clean marker of JFFS2.
\<close>

record 'n nand_ops =
  erasesize :: nat
  oobavail :: nat
  nand_block_isbad :: "'n \<Rightarrow> nat \<Rightarrow> int"
  nand_write :: "nat \<Rightarrow> u8 list \<Rightarrow> 'n \<Rightarrow> bool \<times> 'n"
  nand_read :: "nat \<Rightarrow> nat \<Rightarrow> 'n \<Rightarrow> u8 list option"
  erase_block :: "bool \<Rightarrow> nat \<Rightarrow> 'n \<Rightarrow> int \<times> 'n"
  write_oob :: "nat \<Rightarrow> 'n \<Rightarrow> int \<times> 'n"
  scan_bbt :: "'n \<Rightarrow> 'n"

record nand_erase_options =
  opt_length :: nat
  opt_offset :: nat
  opt_jffs2 :: bool
  opt_scrub :: bool

text \<open>
  Erasing.  A block that cannot be erased is only reported on the console: the loop goes on and the result is
  still 0.  A block size of 0 would make this loop and the two below run forever.
\<close>

function erase_loop ::
    "'n nand_ops \<Rightarrow> nand_erase_options \<Rightarrow> nat \<Rightarrow> nat \<Rightarrow> 'n \<Rightarrow> (int \<times> 'n) option" where
  "erase_loop ops opts lim addr chip =
     (if addr < lim
      then if erasesize ops = 0 then None
        else if \<not> opt_scrub opts \<and> nand_block_isbad ops chip addr > 0
        then erase_loop ops opts lim (addr + erasesize ops) chip
        else if \<not> opt_scrub opts \<and> nand_block_isbad ops chip addr < 0 then Some (- 1, chip)
        else (case erase_block ops (opt_scrub opts) addr chip of
                (res, chip) \<Rightarrow>
                  erase_loop ops opts lim (addr + erasesize ops)
                    (if res = 0 \<and> opt_jffs2 opts \<and> 8 \<le> oobavail ops then snd (write_oob ops addr chip) else chip))
      else Some (0, chip))"
  by pat_completeness auto
termination
  by (relation "measure (\<lambda>(ops, opts, lim, addr, chip). lim - addr)") auto

declare erase_loop.simps [simp del]

definition nand_erase_opts :: "'n nand_ops \<Rightarrow> nand_erase_options \<Rightarrow> 'n \<Rightarrow> (int \<times> 'n) option" where
  "nand_erase_opts ops opts chip =
     (let erase_length = (if opt_length opts < erasesize ops then erasesize ops else opt_length opts)
      in map_option (\<lambda>(r, chip). (r, if opt_scrub opts then scan_bbt ops chip else chip))
           (erase_loop ops opts (opt_offset opts + erase_length) (opt_offset opts) chip))"

definition CONFIG_ENV_OFFSET :: nat where "CONFIG_ENV_OFFSET = 0x80000"

definition CONFIG_ENV_RANGE :: nat where "CONFIG_ENV_RANGE = CONFIG_ENV_SIZE"

function writeenv_loop ::
    "'n nand_ops \<Rightarrow> u8 list \<Rightarrow> nat \<Rightarrow> nat \<Rightarrow> nat \<Rightarrow> 'n \<Rightarrow> (int \<times> 'n) option" where
  "writeenv_loop ops buf lim amount_saved offset chip =
     (if amount_saved < CONFIG_ENV_SIZE \<and> offset < lim
      then if erasesize ops = 0 then None
        else if nand_block_isbad ops chip offset \<noteq> 0
        then writeenv_loop ops buf lim amount_saved (offset + erasesize ops) chip
        else let len = min (erasesize ops) CONFIG_ENV_SIZE
          in if length buf < amount_saved + len then None
             else (case nand_write ops offset (take len (drop amount_saved buf)) chip of
                     (ok, chip) \<Rightarrow>
                       if \<not> ok then Some (1, chip)
                       else writeenv_loop ops buf lim (amount_saved + len) (offset + erasesize ops) chip)
      else Some (if amount_saved \<noteq> CONFIG_ENV_SIZE then 1 else 0, chip))"
  by pat_completeness auto
termination
  by (relation "measure (\<lambda>(ops, buf, lim, amount, offset, chip). lim - offset)") auto

declare writeenv_loop.simps [simp del]

definition writeenv :: "'n nand_ops \<Rightarrow> nat \<Rightarrow> u8 list \<Rightarrow> 'n \<Rightarrow> (int \<times> 'n) option" where
  "writeenv ops offset buf chip = writeenv_loop ops buf (offset + CONFIG_ENV_RANGE) 0 offset chip"

function readenv_loop ::
    "'n nand_ops \<Rightarrow> 'n \<Rightarrow> nat \<Rightarrow> nat \<Rightarrow> nat \<Rightarrow> u8 list \<Rightarrow> (int \<times> u8 list) option" where
  "readenv_loop ops chip lim amount_loaded offset buf =
     (if amount_loaded < CONFIG_ENV_SIZE \<and> offset < lim
      then if erasesize ops = 0 then None
        else if nand_block_isbad ops chip offset \<noteq> 0
        then readenv_loop ops chip lim amount_loaded (offset + erasesize ops) buf
        else let len = min (erasesize ops) CONFIG_ENV_SIZE
          in (case nand_read ops offset len chip of
                None \<Rightarrow> Some (1, buf)
              | Some bs \<Rightarrow>
                  (case put_at buf amount_loaded bs of
                     None \<Rightarrow> None
                   | Some buf \<Rightarrow>
                       readenv_loop ops chip lim (amount_loaded + len) (offset + erasesize ops) buf))
      else Some (if amount_loaded \<noteq> CONFIG_ENV_SIZE then 1 else 0, buf))"
  by pat_completeness auto
termination
  by (relation "measure (\<lambda>(ops, chip, lim, amount, offset, buf). lim - offset)") auto

declare readenv_loop.simps [simp del]

definition readenv :: "'n nand_ops \<Rightarrow> nat \<Rightarrow> u8 list \<Rightarrow> 'n \<Rightarrow> (int \<times> u8 list) option" where
  "readenv ops offset buf chip = readenv_loop ops chip (offset + CONFIG_ENV_RANGE) 0 offset buf"

text \<open>The memory image of \<^verbatim>\<open>env_t\<close> on the little-endian target.\<close>

definition env_image :: "('c, 'z) env_state_scheme \<Rightarrow> u8 list" where
  "env_image s =
     [ucast (stored_crc s), ucast (drop_bit 8 (stored_crc s)), ucast (drop_bit 16 (stored_crc s)),
      ucast (drop_bit 24 (stored_crc s))] @ env_data s"

definition load_image :: "u8 list \<Rightarrow> ('c, 'z) env_state_scheme \<Rightarrow> ('c, 'z) env_state_scheme" where
  "load_image b s =
     s\<lparr>stored_crc := ucast (b ! 0) OR push_bit 8 (ucast (b ! 1)) OR push_bit 16 (ucast (b ! 2))
                  OR push_bit 24 (ucast (b ! 3)),
       env_data := drop 4 b\<rparr>"

definition env_erase_options :: nand_erase_options where
  "env_erase_options =
     \<lparr>opt_length = CONFIG_ENV_RANGE, opt_offset = CONFIG_ENV_OFFSET, opt_jffs2 = False, opt_scrub = False\<rparr>"

definition saveenv :: "'n nand_ops \<Rightarrow> ('c, 'z) env_state_scheme \<Rightarrow> 'n \<Rightarrow> (int \<times> 'n) option" where
  "saveenv ops s chip =
     (if CONFIG_ENV_RANGE < CONFIG_ENV_SIZE then Some (1, chip)
      else do {
        (r, chip) \<leftarrow> nand_erase_opts ops env_erase_options chip;
        if r \<noteq> 0 then Some (1, chip)
        else map_option (\<lambda>(r, chip). (if r \<noteq> 0 then 1 else 0, chip))
               (writeenv ops CONFIG_ENV_OFFSET (env_image s) chip)
      })"

definition do_saveenv :: "'n nand_ops \<Rightarrow> ('c, 'z) env_state_scheme \<Rightarrow> 'n \<Rightarrow> (int \<times> 'n) option" where
  "do_saveenv ops s chip = map_option (\<lambda>(r, chip). (if r \<noteq> 0 then 1 else 0, chip)) (saveenv ops s chip)"

definition env_relocate_spec ::
    "'n nand_ops \<Rightarrow> 'n \<Rightarrow> ('c, 'z) env_state_scheme \<Rightarrow> ('c, 'z) env_state_scheme option" where
  "env_relocate_spec ops chip s =
     map_option (\<lambda>(ret, b).
         let s = load_image b s
         in if ret \<noteq> 0 \<or> crc32 0 (take ENV_SIZE (env_data s)) \<noteq> stored_crc s then set_default_env s else s)
       (readenv ops CONFIG_ENV_OFFSET (env_image s) chip)"

definition env_relocate ::
    "'n nand_ops \<Rightarrow> 'n \<Rightarrow> ('c, 'z) env_state_scheme \<Rightarrow> ('c, 'z) env_state_scheme option" where
  "env_relocate ops chip s =
     (if \<not> env_valid s then Some (set_default_env s) else env_relocate_spec ops chip s)"

section \<open>Saving and reloading\<close>

text \<open>
  What the storage code relies on, for the bytes \<open>cell\<close> of a chip: a block that is not bad reads as its bytes
  (no bit errors); a write that reports success clears the bits that are clear in what is written, in these
  bytes only; erasing a block with success sets all its bits and leaves the others alone.  Neither changes
  which blocks are bad.
\<close>

definition nand_laws :: "'n nand_ops \<Rightarrow> ('n \<Rightarrow> nat \<Rightarrow> u8) \<Rightarrow> bool" where
  "nand_laws ops cell \<longleftrightarrow> 0 < erasesize ops
     \<and> (\<forall>off n c. nand_block_isbad ops c off = 0 \<longrightarrow> n \<le> erasesize ops \<longrightarrow>
          nand_read ops off n c = Some (map (cell c) [off ..< off + n]))
     \<and> (\<forall>off bs c c'. nand_write ops off bs c = (True, c') \<longrightarrow>
          nand_block_isbad ops c' = nand_block_isbad ops c
          \<and> cell c' = (\<lambda>a. if off \<le> a \<and> a < off + length bs then cell c a AND bs ! (a - off) else cell c a))
     \<and> (\<forall>scrub off r c c'. erase_block ops scrub off c = (r, c') \<longrightarrow>
          nand_block_isbad ops c' = nand_block_isbad ops c
          \<and> (r = 0 \<longrightarrow> cell c' = (\<lambda>a. if off \<le> a \<and> a < off + erasesize ops then 0xff else cell c a)))"

text \<open>No block that is not marked bad fails to be erased.\<close>

definition erasable :: "'n nand_ops \<Rightarrow> bool" where
  "erasable ops \<longleftrightarrow> (\<forall>off c. nand_block_isbad ops c off = 0 \<longrightarrow> fst (erase_block ops False off c) = 0)"

text \<open>The good blocks from an offset to a limit are erased.\<close>

definition clean :: "'n nand_ops \<Rightarrow> ('n \<Rightarrow> nat \<Rightarrow> u8) \<Rightarrow> 'n \<Rightarrow> nat \<Rightarrow> nat \<Rightarrow> bool" where
  "clean ops cell c off lim \<longleftrightarrow>
     (\<forall>k a. off + k * erasesize ops < lim \<longrightarrow> nand_block_isbad ops c (off + k * erasesize ops) = 0 \<longrightarrow>
        off + k * erasesize ops \<le> a \<longrightarrow> a < off + Suc k * erasesize ops \<longrightarrow> cell c a = 0xff)"

lemma clean_next: "clean ops cell c off lim \<Longrightarrow> clean ops cell c (off + erasesize ops) lim"
  unfolding clean_def
proof (intro allI impI)
  fix k a
  assume "\<forall>k a. off + k * erasesize ops < lim \<longrightarrow> nand_block_isbad ops c (off + k * erasesize ops) = 0 \<longrightarrow>
      off + k * erasesize ops \<le> a \<longrightarrow> a < off + Suc k * erasesize ops \<longrightarrow> cell c a = 0xff"
    "off + erasesize ops + k * erasesize ops < lim" "nand_block_isbad ops c (off + erasesize ops + k * erasesize ops) = 0"
    "off + erasesize ops + k * erasesize ops \<le> a" "a < off + erasesize ops + Suc k * erasesize ops"
  from this(1) [THEN spec [of _ "Suc k"], THEN spec [of _ a]] this(2-)
  show "cell c a = 0xff" by (simp add: ac_simps)
qed

lemma clean_block:
  "clean ops cell c off lim \<Longrightarrow> off < lim \<Longrightarrow> nand_block_isbad ops c off = 0 \<Longrightarrow> off \<le> a \<Longrightarrow>
   a < off + erasesize ops \<Longrightarrow> cell c a = 0xff"
  unfolding clean_def by (drule spec [of _ 0]) simp

lemma clean_first:
  assumes "clean ops cell c (off + erasesize ops) lim"
    and "nand_block_isbad ops c off = 0 \<Longrightarrow> \<forall>a. off \<le> a \<longrightarrow> a < off + erasesize ops \<longrightarrow> cell c a = 0xff"
  shows "clean ops cell c off lim"
  unfolding clean_def
proof (intro allI impI)
  fix k a
  assume *: "off + k * erasesize ops < lim" "nand_block_isbad ops c (off + k * erasesize ops) = 0"
    "off + k * erasesize ops \<le> a" "a < off + Suc k * erasesize ops"
  show "cell c a = 0xff"
  proof (cases k)
    case 0
    then show ?thesis using * assms(2) by simp
  next
    case (Suc j)
    then show ?thesis
      using * assms(1) [unfolded clean_def, THEN spec [of _ j], THEN spec [of _ a]] by (simp add: ac_simps)
  qed
qed

lemma clean_cong:
  "clean ops cell c off lim \<Longrightarrow> nand_block_isbad ops c' = nand_block_isbad ops c \<Longrightarrow>
   (\<forall>a. off \<le> a \<longrightarrow> cell c' a = cell c a) \<Longrightarrow> clean ops cell c' off lim"
  by (auto simp: clean_def)

lemma clean_mono: "clean ops cell c off lim \<Longrightarrow> lim' \<le> lim \<Longrightarrow> clean ops cell c off lim'"
  unfolding clean_def by (meson less_le_trans)

text \<open>Erasing leaves the good blocks of the area erased and what is in front of it as it was.\<close>

lemma erase_loop_cleans:
  "erase_loop ops opts lim addr c = Some (0, c') \<Longrightarrow> nand_laws ops cell \<Longrightarrow> erasable ops \<Longrightarrow>
    \<not> opt_scrub opts \<Longrightarrow> \<not> opt_jffs2 opts \<Longrightarrow>
    clean ops cell c' addr lim \<and> nand_block_isbad ops c' = nand_block_isbad ops c \<and> (\<forall>a<addr. cell c' a = cell c a)"
proof (induction ops opts lim addr c rule: erase_loop.induct)
  case (1 ops opts lim addr c)
  note laws = "1.prems"(2) and opts = "1.prems"(4,5)
  have es: "erasesize ops \<noteq> 0" using laws by (simp add: nand_laws_def)
  show ?case
  proof (cases "addr < lim")
    case False
    then show ?thesis using "1.prems"(1) by (subst (asm) erase_loop.simps) (simp add: clean_def)
  next
    case True
    consider (bad) "nand_block_isbad ops c addr > 0" | (error) "nand_block_isbad ops c addr < 0"
      | (good) "nand_block_isbad ops c addr = 0" by linarith
    then show ?thesis
    proof cases
      case bad
      have "erase_loop ops opts lim (addr + erasesize ops) c = Some (0, c')"
        using "1.prems"(1) True es bad opts by (subst (asm) erase_loop.simps) simp
      then have "clean ops cell c' (addr + erasesize ops) lim \<and> nand_block_isbad ops c' = nand_block_isbad ops c \<and>
          (\<forall>a<addr + erasesize ops. cell c' a = cell c a)"
        using "1.IH"(1) [OF True es _ _ laws "1.prems"(3) opts] bad opts by simp
      then show ?thesis using bad by (auto intro: clean_first)
    next
      case error
      then show ?thesis using "1.prems"(1) True es opts by (subst (asm) erase_loop.simps) simp
    next
      case good
      obtain r c1 where erase: "erase_block ops False addr c = (r, c1)" by fastforce
      then have "r = 0" using "1.prems"(3) good by (metis erasable_def fst_conv)
      then have c1: "nand_block_isbad ops c1 = nand_block_isbad ops c"
        "cell c1 = (\<lambda>a. if addr \<le> a \<and> a < addr + erasesize ops then 0xff else cell c a)"
        using laws erase unfolding nand_laws_def by blast+
      have "erase_loop ops opts lim (addr + erasesize ops) c1 = Some (0, c')"
        using "1.prems"(1) True es good opts erase by (subst (asm) erase_loop.simps) simp
      then have "clean ops cell c' (addr + erasesize ops) lim \<and> nand_block_isbad ops c' = nand_block_isbad ops c1 \<and>
          (\<forall>a<addr + erasesize ops. cell c' a = cell c1 a)"
        using "1.IH"(2) [OF True es _ _ _ _ laws "1.prems"(3) opts, of r c1] good opts erase by simp
      then show ?thesis using c1 by (auto intro: clean_first)
    qed
  qed
qed

lemma erase_opts_cleans:
  assumes "nand_erase_opts ops env_erase_options c = Some (0, c')" "nand_laws ops cell" "erasable ops"
  shows "clean ops cell c' CONFIG_ENV_OFFSET (CONFIG_ENV_OFFSET + CONFIG_ENV_RANGE)"
proof -
  let ?len = "if CONFIG_ENV_RANGE < erasesize ops then erasesize ops else CONFIG_ENV_RANGE"
  have "erase_loop ops env_erase_options (CONFIG_ENV_OFFSET + ?len) CONFIG_ENV_OFFSET c = Some (0, c')"
    using assms(1) by (auto simp: nand_erase_opts_def env_erase_options_def)
  from erase_loop_cleans [OF this assms(2,3)]
  have "clean ops cell c' CONFIG_ENV_OFFSET (CONFIG_ENV_OFFSET + ?len)"
    by (simp add: env_erase_options_def)
  then show ?thesis by (rule clean_mono) simp
qed

lemma writeenv_loop_step:
  "amount < CONFIG_ENV_SIZE \<Longrightarrow> off < lim \<Longrightarrow> erasesize ops \<noteq> 0 \<Longrightarrow> nand_block_isbad ops c off = 0
   \<Longrightarrow> writeenv_loop ops img lim amount off c = Some (0, c') \<Longrightarrow>
   \<exists>c1. nand_write ops off (take (min (erasesize ops) CONFIG_ENV_SIZE) (drop amount img)) c = (True, c1)
     \<and> amount + min (erasesize ops) CONFIG_ENV_SIZE \<le> length img
     \<and> writeenv_loop ops img lim (amount + min (erasesize ops) CONFIG_ENV_SIZE) (off + erasesize ops) c1
       = Some (0, c')"
  by (subst (asm) writeenv_loop.simps)
    (auto simp: Let_def not_less split: if_splits prod.splits)

lemma nand_write_cells:
  assumes "nand_laws ops cell" "nand_write ops off bs c = (True, c')"
  shows "nand_block_isbad ops c' = nand_block_isbad ops c"
    "cell c' = (\<lambda>a. if off \<le> a \<and> a < off + length bs then cell c a AND bs ! (a - off) else cell c a)"
  using assms unfolding nand_laws_def by blast+

lemma all_ones_and: "0xff AND b = (b :: u8)"
proof -
  have "(0xff :: u8) = - 1" by simp
  then show ?thesis by (simp only: and.left_neutral)
qed

text \<open>What is written over erased bytes is there.\<close>

lemma nand_write_stored:
  assumes "nand_laws ops cell" "nand_write ops off bs c = (True, c')" "\<forall>a. off \<le> a \<longrightarrow> a < off + length bs \<longrightarrow> cell c a = 0xff"
  shows "map (cell c') [off ..< off + length bs] = bs"
  using assms(3) by (intro nth_equalityI) (auto simp: nand_write_cells(2) [OF assms(1,2)] all_ones_and)

lemma writeenv_loop_done:
  "\<not> (amount < CONFIG_ENV_SIZE \<and> off < lim) \<Longrightarrow>
   writeenv_loop ops img lim amount off c = Some (if amount \<noteq> CONFIG_ENV_SIZE then 1 else 0, c)"
  by (subst writeenv_loop.simps) (simp only: if_False)

lemma writeenv_loop_bad:
  "amount < CONFIG_ENV_SIZE \<Longrightarrow> off < lim \<Longrightarrow> erasesize ops \<noteq> 0 \<Longrightarrow> nand_block_isbad ops c off \<noteq> 0
   \<Longrightarrow> writeenv_loop ops img lim amount off c = writeenv_loop ops img lim amount (off + erasesize ops) c"
  by (subst writeenv_loop.simps) simp

lemma writeenv_keeps:
  "writeenv_loop ops img lim amount off c = Some (0, c') \<Longrightarrow> nand_laws ops cell \<Longrightarrow>
    nand_block_isbad ops c' = nand_block_isbad ops c \<and> (\<forall>a<off. cell c' a = cell c a)"
proof (induction ops img lim amount off c rule: writeenv_loop.induct)
  case (1 ops img lim amount off c)
  have es: "erasesize ops \<noteq> 0" using "1.prems"(2) by (simp add: nand_laws_def)
  show ?case
  proof (cases "amount < CONFIG_ENV_SIZE \<and> off < lim")
    case False
    then show ?thesis using "1.prems"(1) writeenv_loop_done [OF False, of ops img c] by (auto split: if_splits)
  next
    case True
    show ?thesis
    proof (cases "nand_block_isbad ops c off = 0")
      case bad: False
      have "writeenv_loop ops img lim amount (off + erasesize ops) c = Some (0, c')"
        using writeenv_loop_bad [of amount off lim ops c img] True es bad "1.prems"(1) by simp
      then show ?thesis using "1.IH"(1) [OF True es bad _ "1.prems"(2)] by simp
    next
      case good: True
      then have ngood: "\<not> nand_block_isbad ops c off \<noteq> 0" by simp
      let ?len = "min (erasesize ops) CONFIG_ENV_SIZE"
      obtain c1 where c1: "nand_write ops off (take ?len (drop amount img)) c = (True, c1)"
        "amount + ?len \<le> length img"
        "writeenv_loop ops img lim (amount + ?len) (off + erasesize ops) c1 = Some (0, c')"
        using writeenv_loop_step [OF _ _ es good "1.prems"(1)] True by blast
      then have nlt: "\<not> length img < amount + ?len" by simp
      have "nand_block_isbad ops c' = nand_block_isbad ops c1 \<and> (\<forall>a<off + erasesize ops. cell c' a = cell c1 a)"
        using "1.IH"(2) [OF True es ngood refl nlt c1(1) [symmetric] _ c1(3) "1.prems"(2)] by simp
      then show ?thesis using nand_write_cells [OF "1.prems"(2) c1(1)] by auto
    qed
  qed
qed

lemma readenv_writeenv:
  "writeenv_loop ops img lim amount off c = Some (0, c') \<Longrightarrow> nand_laws ops cell \<Longrightarrow> clean ops cell c off lim \<Longrightarrow>
   length img = CONFIG_ENV_SIZE \<Longrightarrow> length buf = CONFIG_ENV_SIZE \<Longrightarrow> amount \<le> CONFIG_ENV_SIZE \<Longrightarrow>
   take amount buf = take amount img \<Longrightarrow> readenv_loop ops c' lim amount off buf = Some (0, img)"
proof (induction ops img lim amount off c arbitrary: buf rule: writeenv_loop.induct)
  case (1 ops img lim amount off c)
  note prems = "1.prems"
  have es: "erasesize ops \<noteq> 0" using prems(2) by (simp add: nand_laws_def)
  have bad': "nand_block_isbad ops c' = nand_block_isbad ops c"
    using writeenv_keeps [OF prems(1,2)] by simp
  show ?case
  proof (cases "amount < CONFIG_ENV_SIZE \<and> off < lim")
    case False
    then have "amount = CONFIG_ENV_SIZE"
      using prems(1) writeenv_loop_done [OF False, of ops img c] by (auto split: if_splits)
    with False prems show ?thesis by (subst readenv_loop.simps) simp
  next
    case True
    show ?thesis
    proof (cases "nand_block_isbad ops c off = 0")
      case bad: False
      have "writeenv_loop ops img lim amount (off + erasesize ops) c = Some (0, c')"
        using writeenv_loop_bad [of amount off lim ops c img] True es bad prems(1) by simp
      then have "readenv_loop ops c' lim amount (off + erasesize ops) buf = Some (0, img)"
        using "1.IH"(1) [OF True es bad _ prems(2) clean_next [OF prems(3)] prems(4-7)] by simp
      then show ?thesis using True es bad bad' by (subst readenv_loop.simps) simp
    next
      case good: True
      then have ngood: "\<not> nand_block_isbad ops c off \<noteq> 0" by simp
      let ?len = "min (erasesize ops) CONFIG_ENV_SIZE"
      let ?bs = "take ?len (drop amount img)"
      obtain c1 where c1: "nand_write ops off ?bs c = (True, c1)" "amount + ?len \<le> length img"
        "writeenv_loop ops img lim (amount + ?len) (off + erasesize ops) c1 = Some (0, c')"
        using writeenv_loop_step [OF _ _ es good prems(1)] True by blast
      then have nlt: "\<not> length img < amount + ?len" by simp
      have lbs: "length ?bs = ?len" using c1(2) by simp
      note w = nand_write_cells [OF prems(2) c1(1)]
      have "\<forall>a. off \<le> a \<longrightarrow> a < off + length ?bs \<longrightarrow> cell c a = 0xff"
        using clean_block [OF prems(3) _ good] True lbs by auto
      then have "map (cell c1) [off ..< off + ?len] = ?bs"
        using nand_write_stored [OF prems(2) c1(1)] lbs by metis
      moreover have "cell c' a = cell c1 a" if "a < off + erasesize ops" for a
        using writeenv_keeps [OF c1(3) prems(2)] that by simp
      then have "map (cell c') [off ..< off + ?len] = map (cell c1) [off ..< off + ?len]"
        by (intro map_cong refl) (simp add: min_def split: if_splits)
      moreover have "nand_read ops off ?len c' = Some (map (cell c') [off ..< off + ?len])"
        using prems(2) good bad' unfolding nand_laws_def by (metis min.cobounded1)
      ultimately have rd: "nand_read ops off ?len c' = Some ?bs" by simp
      define buf' where "buf' = take amount buf @ ?bs @ drop (amount + ?len) buf"
      have put: "put_at buf amount ?bs = Some buf'"
        using c1(2) prems(4,5) lbs by (simp add: put_at_def buf'_def)
      have same: "take (amount + ?len) buf' = take (amount + ?len) img"
        using prems(4-7) c1(2) lbs by (simp add: buf'_def take_add)
      have "clean ops cell c1 (off + erasesize ops) lim"
        using clean_next [OF prems(3)] w lbs by (rule_tac clean_cong [where c = c]) auto
      then have "readenv_loop ops c' lim (amount + ?len) (off + erasesize ops) buf' = Some (0, img)"
        using "1.IH"(2) [OF True es ngood refl nlt c1(1) [symmetric] _ c1(3) prems(2) _ prems(4), of buf']
          put_at_length [OF put] prems(4,5) c1(2) same by simp
      then show ?thesis
        using True es good bad' rd put
        by (subst readenv_loop.simps) (simp add: Let_def)
    qed
  qed
qed

lemma crc_bytes:
  fixes x :: u32
  shows "ucast (ucast x :: u8) OR push_bit 8 (ucast (ucast (drop_bit 8 x) :: u8))
     OR push_bit 16 (ucast (ucast (drop_bit 16 x) :: u8)) OR push_bit 24 (ucast (ucast (drop_bit 24 x) :: u8))
   = x"
proof (rule bit_word_eqI)
  fix n assume "n < LENGTH(32)"
  then consider "n < 8" | "8 \<le> n" "n < 16" | "16 \<le> n" "n < 24" | "24 \<le> n" "n < 32"
    by fastforce
  then show "bit ((ucast (ucast x :: u8) OR push_bit 8 (ucast (ucast (drop_bit 8 x) :: u8))
     OR push_bit 16 (ucast (ucast (drop_bit 16 x) :: u8))
     OR push_bit 24 (ucast (ucast (drop_bit 24 x) :: u8))) :: u32) n = bit x n"
    by cases (auto simp: bit_simps less_diff_conv2)
qed

lemma load_env_image:
  "load_image (env_image s) t = t\<lparr>stored_crc := stored_crc s, env_data := env_data s\<rparr>"
  using crc_bytes [of "stored_crc s"] by (simp add: load_image_def env_image_def ac_simps)

text \<open>
  A chip of bytes with blocks of half the area; programming clears bits, and the block behind the area is bad.\<close>

definition half_area_ops :: "(nat \<Rightarrow> u8) nand_ops" where
  "half_area_ops = \<lparr>erasesize = 0x40000, oobavail = 0, nand_block_isbad = (\<lambda>c off. if off = 0x100000 then 1 else 0),
     nand_write = (\<lambda>off bs c. (True, \<lambda>a. if off \<le> a \<and> a < off + length bs then c a AND bs ! (a - off) else c a)),
     nand_read = (\<lambda>off n c. Some (map c [off ..< off + n])),
     erase_block = (\<lambda>scrub off c. (0, \<lambda>a. if off \<le> a \<and> a < off + 0x40000 then 0xff else c a)),
     write_oob = (\<lambda>off c. (0, c)), scan_bbt = (\<lambda>c. c)\<rparr>"

lemma half_area_laws: "nand_laws half_area_ops (\<lambda>c. c)" "erasable half_area_ops"
  by (auto simp: nand_laws_def erasable_def half_area_ops_def)

lemma half_area_save:
  assumes "length d = ENV_SIZE"
  shows "\<exists>c. saveenv half_area_ops (plain_env d) (\<lambda>_. 0x5a) = Some (0, c)"
proof -
  have "length (env_image (plain_env d)) = CONFIG_ENV_SIZE"
    using assms by (simp add: env_image_def plain_env_def ENV_SIZE_def CONFIG_ENV_SIZE_def)
  then show ?thesis
    by (simp add: saveenv_def nand_erase_opts_def env_erase_options_def erase_loop.simps writeenv_def writeenv_loop.simps
        half_area_ops_def CONFIG_ENV_RANGE_def CONFIG_ENV_SIZE_def CONFIG_ENV_OFFSET_def)
qed

text \<open>
  The failure of an erase is not noticed: where no block can be erased and everything reads as 0, \<^verbatim>\<open>saveenv\<close>
  reports success and the chip still holds zeros.\<close>

lemma failed_erase_unnoticed:
  assumes "length d = ENV_SIZE"
  shows "saveenv (half_area_ops\<lparr>erase_block := \<lambda>scrub off c. (- 5, c)\<rparr>) (plain_env d) (\<lambda>_. 0) = Some (0, \<lambda>_. 0)"
proof -
  have "length (env_image (plain_env d)) = CONFIG_ENV_SIZE"
    using assms by (simp add: env_image_def plain_env_def ENV_SIZE_def CONFIG_ENV_SIZE_def)
  then show ?thesis
    by (simp add: saveenv_def nand_erase_opts_def env_erase_options_def erase_loop.simps writeenv_def writeenv_loop.simps
        half_area_ops_def CONFIG_ENV_RANGE_def CONFIG_ENV_SIZE_def CONFIG_ENV_OFFSET_def,
        simp add: fun_eq_iff)
qed

text \<open>C17:
  Saving and reloading: on a chip that programs by clearing bits and whose erases succeed, if \<^verbatim>\<open>saveenv\<close>
  reports success, then a boot that validates the stored area loads exactly the saved bytes and checksum,
  whatever was on the chip and in memory before; the default environment is not used.  (The area has no
  spare block, \<^verbatim>\<open>CONFIG_ENV_RANGE\<close> being \<^verbatim>\<open>CONFIG_ENV_SIZE\<close>, so with a bad block in it the save does not succeed.)\<close>

theorem saveenv_relocate:
  assumes "nand_laws ops cell" "erasable ops" "length (env_data s) = ENV_SIZE" "stored_crc s = crc32 0 (env_data s)"
    "saveenv ops s chip = Some (0, chip')" "env_valid t" "length (env_data t) = ENV_SIZE"
  shows "env_relocate ops chip' t = Some (t\<lparr>stored_crc := stored_crc s, env_data := env_data s\<rparr>)"
proof -
  have img: "length (env_image s) = CONFIG_ENV_SIZE" "length (env_image t) = CONFIG_ENV_SIZE"
    using assms(3,7) by (simp_all add: env_image_def ENV_SIZE_def CONFIG_ENV_SIZE_def)
  obtain c1 where c1: "nand_erase_opts ops env_erase_options chip = Some (0, c1)"
      "writeenv ops CONFIG_ENV_OFFSET (env_image s) c1 = Some (0, chip')"
    using assms(5) by (auto simp: saveenv_def split: if_splits Option.bind_splits)
  have "readenv ops CONFIG_ENV_OFFSET (env_image t) chip' = Some (0, env_image s)"
    using c1(2) unfolding writeenv_def readenv_def
    by (rule readenv_writeenv) (use assms(1) erase_opts_cleans [OF c1(1) assms(1,2)] img in auto)
  then show ?thesis
    using assms(3,4,6) by (simp add: env_relocate_def env_relocate_spec_def load_env_image)
qed

theorem saveenv_relocate_witness:
  "\<exists>chip'. saveenv half_area_ops (plain_env (replicate ENV_SIZE 7)) (\<lambda>_. 0x5a) = Some (0, chip')
    \<and> env_relocate half_area_ops chip' (plain_env (replicate ENV_SIZE 0))
      = Some ((plain_env (replicate ENV_SIZE 0))
          \<lparr>stored_crc := stored_crc (plain_env (replicate ENV_SIZE 7)),
           env_data := env_data (plain_env (replicate ENV_SIZE 7))\<rparr>)"
proof -
  obtain chip' where c: "saveenv half_area_ops (plain_env (replicate ENV_SIZE 7)) (\<lambda>_. 0x5a) = Some (0, chip')"
    using half_area_save [of "replicate ENV_SIZE 7"] by auto
  then show ?thesis
    using saveenv_relocate [OF half_area_laws _ _ c, of "plain_env (replicate ENV_SIZE 0)"]
    by (simp add: plain_env_def)
qed

end
