(* ===== verification/CString.thy ===== *)
theory CString
  imports Prelude
begin

text \<open>
  The string and memory functions of \<^verbatim>\<open>lib_generic/string.c\<close>.  Memory is one byte array and a
  pointer is an index into it, so that overlapping arguments alias as they do in C; address 0 is
  word-aligned.  \<^verbatim>\<open>None\<close> is an access outside the array.  A null result is \<^verbatim>\<open>Some None\<close>.
  The theorems characterise the copying functions also for overlapping areas, and searching and
  splitting by their results on strings.
\<close>

section \<open>Strings\<close>

function strcpy_loop :: "u8 list \<Rightarrow> nat \<Rightarrow> nat \<Rightarrow> u8 list option" where
  "strcpy_loop mem dest src =
     (case rd mem src of
        None \<Rightarrow> None
      | Some c \<Rightarrow>
          (case wr mem dest c of
             None \<Rightarrow> None
           | Some mem \<Rightarrow> if c \<noteq> 0 then strcpy_loop mem (dest + 1) (src + 1) else Some mem))"
  by pat_completeness auto
termination
  by (relation "measure (\<lambda>(mem, dest, src). length mem - src)") (auto simp: buf_simps)

declare strcpy_loop.simps [simp del]

definition strcpy :: "u8 list \<Rightarrow> nat \<Rightarrow> nat \<Rightarrow> u8 list option" where
  "strcpy mem dest src = strcpy_loop mem dest src"

fun strncpy :: "u8 list \<Rightarrow> nat \<Rightarrow> nat \<Rightarrow> nat \<Rightarrow> u8 list option" where
  "strncpy mem dest src 0 = Some mem"
| "strncpy mem dest src (Suc count) = do {
     c \<leftarrow> rd mem src;
     mem \<leftarrow> wr mem dest c;
     if c \<noteq> 0 then strncpy mem (dest + 1) (src + 1) count else Some mem
   }"

definition strcat :: "u8 list \<Rightarrow> nat \<Rightarrow> nat \<Rightarrow> u8 list option" where
  "strcat mem dest src = do { dest \<leftarrow> str_end mem dest; strcpy_loop mem dest src }"

text \<open>The count is decremented after each byte that is not the terminator.\<close>

fun strncat_loop :: "u8 list \<Rightarrow> nat \<Rightarrow> nat \<Rightarrow> nat \<Rightarrow> u8 list option" where
  "strncat_loop mem dest src 0 = Some mem"
| "strncat_loop mem dest src (Suc count) = do {
     c \<leftarrow> rd mem src;
     mem \<leftarrow> wr mem dest c;
     if c = 0 then Some mem
     else if count = 0 then wr mem (dest + 1) 0
     else strncat_loop mem (dest + 1) (src + 1) count
   }"

definition strncat :: "u8 list \<Rightarrow> nat \<Rightarrow> nat \<Rightarrow> nat \<Rightarrow> u8 list option" where
  "strncat mem dest src count =
     (if count \<noteq> 0 then do { dest \<leftarrow> str_end mem dest; strncat_loop mem dest src count } else Some mem)"

text \<open>The difference goes through a signed char.\<close>

function strcmp :: "u8 list \<Rightarrow> nat \<Rightarrow> nat \<Rightarrow> int option" where
  "strcmp mem cs ct =
     (case (rd mem cs, rd mem ct) of
        (Some a, Some b) \<Rightarrow>
          if a - b \<noteq> 0 \<or> a = 0 then Some (sint (a - b)) else strcmp mem (cs + 1) (ct + 1)
      | _ \<Rightarrow> None)"
  by pat_completeness auto
termination
  by (relation "measure (\<lambda>(mem, cs, ct). length mem - cs)") (auto simp: rd_def split: if_splits)

declare strcmp.simps [simp del]

fun strncmp_loop :: "u8 list \<Rightarrow> nat \<Rightarrow> nat \<Rightarrow> nat \<Rightarrow> u8 \<Rightarrow> int option" where
  "strncmp_loop mem cs ct 0 res = Some (sint res)"
| "strncmp_loop mem cs ct (Suc count) res = do {
     a \<leftarrow> rd mem cs;
     b \<leftarrow> rd mem ct;
     if a - b \<noteq> 0 \<or> a = 0 then Some (sint (a - b))
     else strncmp_loop mem (cs + 1) (ct + 1) count (a - b)
   }"

definition strncmp :: "u8 list \<Rightarrow> nat \<Rightarrow> nat \<Rightarrow> nat \<Rightarrow> int option" where
  "strncmp mem cs ct count = strncmp_loop mem cs ct count 0"

function strchr :: "u8 list \<Rightarrow> nat \<Rightarrow> u8 \<Rightarrow> nat option option" where
  "strchr mem s c =
     (case rd mem s of
        None \<Rightarrow> None
      | Some b \<Rightarrow> if b = c then Some (Some s) else if b = 0 then Some None else strchr mem (s + 1) c)"
  by pat_completeness auto
termination
  by (relation "measure (\<lambda>(mem, s, c). length mem - s)") (auto simp: buf_simps)

declare strchr.simps [simp del]

definition strlen :: "u8 list \<Rightarrow> nat \<Rightarrow> nat option" where
  "strlen mem s = map_option (\<lambda>e. e - s) (str_end mem s)"

text \<open>Scanning down from \<open>p = s + n\<close>.\<close>

fun strrchr_loop :: "u8 list \<Rightarrow> nat \<Rightarrow> nat \<Rightarrow> u8 \<Rightarrow> nat option option" where
  "strrchr_loop mem s n c = do {
     b \<leftarrow> rd mem (s + n);
     if b = c then Some (Some (s + n))
     else (case n of 0 \<Rightarrow> Some None | Suc n \<Rightarrow> strrchr_loop mem s n c)
   }"

declare strrchr_loop.simps [simp del]

definition strrchr :: "u8 list \<Rightarrow> nat \<Rightarrow> u8 \<Rightarrow> nat option option" where
  "strrchr mem s c = do { n \<leftarrow> strlen mem s; strrchr_loop mem s n c }"

fun strnlen_loop :: "u8 list \<Rightarrow> nat \<Rightarrow> nat \<Rightarrow> nat option" where
  "strnlen_loop mem sc 0 = Some sc"
| "strnlen_loop mem sc (Suc count) = do {
     c \<leftarrow> rd mem sc;
     if c \<noteq> 0 then strnlen_loop mem (sc + 1) count else Some sc
   }"

definition strnlen :: "u8 list \<Rightarrow> nat \<Rightarrow> nat \<Rightarrow> nat option" where
  "strnlen mem s count = map_option (\<lambda>e. e - s) (strnlen_loop mem s count)"

text \<open>\<^verbatim>\<open>malloc\<close> is a parameter: the address of a new block, or a null pointer.\<close>

definition strdup :: "(nat \<Rightarrow> nat option) \<Rightarrow> u8 list \<Rightarrow> nat option \<Rightarrow> (nat option \<times> u8 list) option" where
  "strdup malloc mem s =
     (case s of
        None \<Rightarrow> Some (None, mem)
      | Some s \<Rightarrow> do {
          n \<leftarrow> strlen mem s;
          case malloc (n + 1) of
            None \<Rightarrow> Some (None, mem)
          | Some new \<Rightarrow> map_option (\<lambda>mem. (Some new, mem)) (strcpy mem new s)
        })"

text \<open>Is the byte in the string at \<open>a\<close>?  The inner loop of the next two functions.\<close>

function in_string :: "u8 list \<Rightarrow> u8 \<Rightarrow> nat \<Rightarrow> bool option" where
  "in_string mem p a =
     (case rd mem a of
        None \<Rightarrow> None
      | Some b \<Rightarrow> if b = 0 then Some False else if p = b then Some True else in_string mem p (a + 1))"
  by pat_completeness auto
termination
  by (relation "measure (\<lambda>(mem, p, a). length mem - a)") (auto simp: buf_simps)

declare in_string.simps [simp del]

function strspn_loop :: "u8 list \<Rightarrow> nat \<Rightarrow> nat \<Rightarrow> nat \<Rightarrow> nat option" where
  "strspn_loop mem p accept count =
     (case rd mem p of
        None \<Rightarrow> None
      | Some c \<Rightarrow>
          if c = 0 then Some count
          else (case in_string mem c accept of
                  None \<Rightarrow> None
                | Some found \<Rightarrow>
                    if found then strspn_loop mem (p + 1) accept (count + 1) else Some count))"
  by pat_completeness auto
termination
  by (relation "measure (\<lambda>(mem, p, accept, count). length mem - p)") (auto simp: buf_simps)

declare strspn_loop.simps [simp del]

definition strspn :: "u8 list \<Rightarrow> nat \<Rightarrow> nat \<Rightarrow> nat option" where
  "strspn mem s accept = strspn_loop mem s accept 0"

function strpbrk :: "u8 list \<Rightarrow> nat \<Rightarrow> nat \<Rightarrow> nat option option" where
  "strpbrk mem cs ct =
     (case rd mem cs of
        None \<Rightarrow> None
      | Some c \<Rightarrow>
          if c = 0 then Some None
          else (case in_string mem c ct of
                  None \<Rightarrow> None
                | Some found \<Rightarrow> if found then Some (Some cs) else strpbrk mem (cs + 1) ct))"
  by pat_completeness auto
termination
  by (relation "measure (\<lambda>(mem, cs, ct). length mem - cs)") (auto simp: buf_simps)

declare strpbrk.simps [simp del]

text \<open>
  \<open>saved\<close> is the static pointer \<^verbatim>\<open>___strtok\<close>; the result is the token, the new static pointer and
  memory.
\<close>

definition strtok ::
    "u8 list \<Rightarrow> nat option \<Rightarrow> nat option \<Rightarrow> nat \<Rightarrow> (nat option \<times> nat option \<times> u8 list) option" where
  "strtok mem saved s ct =
     (case (case s of Some p \<Rightarrow> Some p | None \<Rightarrow> saved) of
        None \<Rightarrow> Some (None, saved, mem)
      | Some sbegin \<Rightarrow> do {
          n \<leftarrow> strspn mem sbegin ct;
          let sbegin = sbegin + n;
          c \<leftarrow> rd mem sbegin;
          if c = 0 then Some (None, None, mem)
          else do {
            send \<leftarrow> strpbrk mem sbegin ct;
            case send of
              None \<Rightarrow> Some (Some sbegin, None, mem)
            | Some e \<Rightarrow> do {
                b \<leftarrow> rd mem e;
                if b \<noteq> 0 then map_option (\<lambda>mem. (Some sbegin, Some (e + 1), mem)) (wr mem e 0)
                else Some (Some sbegin, Some e, mem)
              }
          }
        })"

text \<open>The result, the updated \<^verbatim>\<open>*s\<close> and memory.\<close>

definition strsep ::
    "u8 list \<Rightarrow> nat option \<Rightarrow> nat \<Rightarrow> (nat option \<times> nat option \<times> u8 list) option" where
  "strsep mem s ct =
     (case s of
        None \<Rightarrow> Some (None, None, mem)
      | Some sbegin \<Rightarrow> do {
          send \<leftarrow> strpbrk mem sbegin ct;
          case send of
            None \<Rightarrow> Some (Some sbegin, None, mem)
          | Some e \<Rightarrow> map_option (\<lambda>mem. (Some sbegin, Some (e + 1), mem)) (wr mem e 0)
        })"

function strswab_loop :: "u8 list \<Rightarrow> nat \<Rightarrow> u8 list option" where
  "strswab_loop mem p =
     (case rd mem p of
        None \<Rightarrow> None
      | Some a \<Rightarrow>
          if a = 0 then Some mem
          else (case rd mem (p + 1) of
                  None \<Rightarrow> None
                | Some b \<Rightarrow>
                    if b = 0 then Some mem
                    else strswab_loop (mem[p := b, p + 1 := a]) (p + 2)))"
  by pat_completeness auto
termination
  by (relation "measure (\<lambda>(mem, p). length mem - p)") (auto simp: buf_simps)

declare strswab_loop.simps [simp del]

definition strswab :: "u8 list \<Rightarrow> nat option \<Rightarrow> (nat option \<times> u8 list) option" where
  "strswab mem s =
     (case s of
        None \<Rightarrow> Some (None, mem)
      | Some s \<Rightarrow> do {
          c \<leftarrow> rd mem s;
          if c = 0 then Some (None, mem)
          else map_option (\<lambda>mem. (Some s, mem)) (strswab_loop mem s)
        })"

section \<open>Memory areas\<close>

text \<open>A word of memory as its four bytes, lowest address first.\<close>

definition rd_word :: "u8 list \<Rightarrow> nat \<Rightarrow> u8 list option" where
  "rd_word mem a = (if a + 4 \<le> length mem then Some (take 4 (drop a mem)) else None)"

definition word_aligned :: "nat \<Rightarrow> bool" where
  "word_aligned a \<longleftrightarrow> a mod 4 = 0"

text \<open>The fill word is built from the low byte of \<^verbatim>\<open>c\<close>.\<close>

definition fill_word :: "u8 \<Rightarrow> u32" where
  "fill_word c = foldl (\<lambda>cl i. push_bit 8 cl OR ucast c) 0 [0..<4]"

definition word_bytes :: "u32 \<Rightarrow> u8 list" where
  "word_bytes w = [ucast w, ucast (drop_bit 8 w), ucast (drop_bit 16 w), ucast (drop_bit 24 w)]"

function memset_words :: "u8 list \<Rightarrow> nat \<Rightarrow> u32 \<Rightarrow> nat \<Rightarrow> (u8 list \<times> nat \<times> nat) option" where
  "memset_words mem sl cl count =
     (if 4 \<le> count
      then (case put_at mem sl (word_bytes cl) of
              None \<Rightarrow> None
            | Some mem \<Rightarrow> memset_words mem (sl + 4) cl (count - 4))
      else Some (mem, sl, count))"
  by pat_completeness auto
termination
  by (relation "measure (\<lambda>(mem, sl, cl, count). count)") auto

declare memset_words.simps [simp del]

fun memset_bytes :: "u8 list \<Rightarrow> nat \<Rightarrow> u8 \<Rightarrow> nat \<Rightarrow> u8 list option" where
  "memset_bytes mem s8 c 0 = Some mem"
| "memset_bytes mem s8 c (Suc count) = do {
     mem \<leftarrow> wr mem s8 c;
     memset_bytes mem (s8 + 1) c count
   }"

definition memset :: "u8 list \<Rightarrow> nat \<Rightarrow> int \<Rightarrow> nat \<Rightarrow> u8 list option" where
  "memset mem s c count = do {
     (mem, s8, count) \<leftarrow>
       (if word_aligned s then memset_words mem s (fill_word (of_int c)) count
        else Some (mem, s, count));
     memset_bytes mem s8 (of_int c) count
   }"

text \<open>Forward and backward byte loops.\<close>

fun copy_up :: "u8 list \<Rightarrow> nat \<Rightarrow> nat \<Rightarrow> nat \<Rightarrow> u8 list option" where
  "copy_up mem dest src 0 = Some mem"
| "copy_up mem dest src (Suc count) = do {
     c \<leftarrow> rd mem src;
     mem \<leftarrow> wr mem dest c;
     copy_up mem (dest + 1) (src + 1) count
   }"

fun copy_down :: "u8 list \<Rightarrow> nat \<Rightarrow> nat \<Rightarrow> nat \<Rightarrow> u8 list option" where
  "copy_down mem dest src 0 = Some mem"
| "copy_down mem dest src (Suc count) = do {
     c \<leftarrow> rd mem (src + count);
     mem \<leftarrow> wr mem (dest + count) c;
     copy_down mem dest src count
   }"

definition bcopy :: "u8 list \<Rightarrow> nat \<Rightarrow> nat \<Rightarrow> nat \<Rightarrow> u8 list option" where
  "bcopy mem src dest count = copy_up mem dest src count"

function memcpy_words :: "u8 list \<Rightarrow> nat \<Rightarrow> nat \<Rightarrow> nat \<Rightarrow> (u8 list \<times> nat \<times> nat \<times> nat) option" where
  "memcpy_words mem dl sl count =
     (if 4 \<le> count
      then (case rd_word mem sl of
              None \<Rightarrow> None
            | Some w \<Rightarrow>
                (case put_at mem dl w of
                   None \<Rightarrow> None
                 | Some mem \<Rightarrow> memcpy_words mem (dl + 4) (sl + 4) (count - 4)))
      else Some (mem, dl, sl, count))"
  by pat_completeness auto
termination
  by (relation "measure (\<lambda>(mem, dl, sl, count). count)") auto

declare memcpy_words.simps [simp del]

definition memcpy :: "u8 list \<Rightarrow> nat \<Rightarrow> nat \<Rightarrow> nat \<Rightarrow> u8 list option" where
  "memcpy mem dest src count = do {
     (mem, d8, s8, count) \<leftarrow>
       (if word_aligned dest \<and> word_aligned src then memcpy_words mem dest src count
        else Some (mem, dest, src, count));
     copy_up mem d8 s8 count
   }"

definition memmove :: "u8 list \<Rightarrow> nat \<Rightarrow> nat \<Rightarrow> nat \<Rightarrow> u8 list option" where
  "memmove mem dest src count =
     (if dest \<le> src then copy_up mem dest src count else copy_down mem dest src count)"

fun memcmp :: "u8 list \<Rightarrow> nat \<Rightarrow> nat \<Rightarrow> nat \<Rightarrow> int option" where
  "memcmp mem cs ct 0 = Some 0"
| "memcmp mem cs ct (Suc count) = do {
     a \<leftarrow> rd mem cs;
     b \<leftarrow> rd mem ct;
     if a \<noteq> b then Some (uint a - uint b) else memcmp mem (cs + 1) (ct + 1) count
   }"

text \<open>\<^verbatim>\<open>c\<close> is compared as an \<^verbatim>\<open>int\<close> here, as an unsigned char in \<^verbatim>\<open>memchr\<close>.\<close>

fun memscan :: "u8 list \<Rightarrow> nat \<Rightarrow> int \<Rightarrow> nat \<Rightarrow> nat option" where
  "memscan mem p c 0 = Some p"
| "memscan mem p c (Suc sz) = do {
     b \<leftarrow> rd mem p;
     if uint b = c then Some p else memscan mem (p + 1) c sz
   }"

fun memchr :: "u8 list \<Rightarrow> nat \<Rightarrow> int \<Rightarrow> nat \<Rightarrow> nat option option" where
  "memchr mem p c 0 = Some None"
| "memchr mem p c (Suc n) = do {
     b \<leftarrow> rd mem p;
     if of_int c = b then Some (Some p) else memchr mem (p + 1) c n
   }"

function strstr_loop :: "u8 list \<Rightarrow> nat \<Rightarrow> nat \<Rightarrow> nat \<Rightarrow> nat \<Rightarrow> nat option option" where
  "strstr_loop mem s1 s2 l1 l2 =
     (if l2 \<le> l1
      then (case memcmp mem s1 s2 l2 of
              None \<Rightarrow> None
            | Some r \<Rightarrow>
                if r = 0 then Some (Some s1)
                else if l1 = 0 then Some None
                else strstr_loop mem (s1 + 1) s2 (l1 - 1) l2)
      else Some None)"
  by pat_completeness auto
termination
  by (relation "measure (\<lambda>(mem, s1, s2, l1, l2). l1)") auto

declare strstr_loop.simps [simp del]

definition strstr :: "u8 list \<Rightarrow> nat \<Rightarrow> nat \<Rightarrow> nat option option" where
  "strstr mem s1 s2 = do {
     l2 \<leftarrow> strlen mem s2;
     if l2 = 0 then Some (Some s1)
     else do { l1 \<leftarrow> strlen mem s1; strstr_loop mem s1 s2 l1 l2 }
   }"

section \<open>Copying\<close>

lemma put_at_step:
  assumes "d + Suc n \<le> length mem" "length xs = n"
  shows "put_at (mem[d := x]) (d + 1) xs = put_at mem d (x # xs)"
proof -
  have "take (Suc d) (mem[d := x]) = take d mem @ [x]"
    using assms(1) by (simp add: take_Suc_conv_app_nth)
  moreover have "drop (Suc (d + n)) (mem[d := x]) = drop (Suc (d + n)) mem" by simp
  ultimately show ?thesis using assms by (simp add: put_at_def)
qed

lemma copy_up_eq:
  "d + n \<le> length mem \<Longrightarrow> s + n \<le> length mem \<Longrightarrow> d \<le> s \<or> s + n \<le> d \<Longrightarrow>
     copy_up mem d s n = put_at mem d (take n (drop s mem))"
proof (induction n arbitrary: mem d s)
  case 0
  then show ?case by (simp add: put_at_def)
next
  case (Suc n)
  let ?m = "mem[d := mem ! s]"
  have drop_: "take n (drop (s + 1) ?m) = take n (drop (s + 1) mem)"
    using Suc.prems by (auto simp: list_eq_iff_nth_eq nth_list_update)
  have "copy_up mem d s (Suc n) = copy_up ?m (d + 1) (s + 1) n"
    using Suc.prems by simp
  also have "\<dots> = put_at ?m (d + 1) (take n (drop (s + 1) ?m))"
    using Suc.prems by (intro Suc.IH) auto
  also have "\<dots> = put_at mem d (mem ! s # take n (drop (s + 1) mem))"
    unfolding drop_ using Suc.prems by (intro put_at_step) simp_all
  also have "mem ! s # take n (drop (s + 1) mem) = take (Suc n) (drop s mem)"
    using Suc.prems by (simp add: take_drop_nth [of s])
  finally show ?case .
qed

lemma put_at_snoc:
  assumes "d + Suc n \<le> length mem" "length xs = n"
  shows "put_at (mem[d + n := x]) d xs = put_at mem d (xs @ [x])"
  using assms by (simp add: put_at_def drop_update_swap list_update_split)

lemma copy_down_eq:
  "d + n \<le> length mem \<Longrightarrow> s + n \<le> length mem \<Longrightarrow> s \<le> d \<Longrightarrow>
     copy_down mem d s n = put_at mem d (take n (drop s mem))"
proof (induction n arbitrary: mem)
  case 0
  then show ?case by (simp add: put_at_def)
next
  case (Suc n)
  let ?m = "mem[d + n := mem ! (s + n)]"
  have keep: "take n (drop s ?m) = take n (drop s mem)"
    using Suc.prems by (simp add: list_eq_iff_nth_eq)
  have "copy_down mem d s (Suc n) = copy_down ?m d s n"
    using Suc.prems by simp
  also have "\<dots> = put_at ?m d (take n (drop s ?m))"
    using Suc.prems by (intro Suc.IH) auto
  also have "\<dots> = put_at mem d (take n (drop s mem) @ [mem ! (s + n)])"
    unfolding keep using Suc.prems by (intro put_at_snoc) simp_all
  also have "take n (drop s mem) @ [mem ! (s + n)] = take (Suc n) (drop s mem)"
    using Suc.prems by (simp add: take_Suc_conv_app_nth)
  finally show ?case .
qed

lemma memmove_eq:
  assumes "dest + count \<le> length mem" "src + count \<le> length mem"
  shows "memmove mem dest src count = put_at mem dest (take count (drop src mem))"
  using assms by (simp add: memmove_def copy_up_eq copy_down_eq)

text \<open>\<^verbatim>\<open>memmove\<close> copies what the source held before the call, whether the areas are disjoint or
  overlap in either direction, and changes nothing else.\<close>

theorem memmove_copies:
  assumes "dest + count \<le> length mem" "src + count \<le> length mem"
  shows "memmove mem dest src count = put_at mem dest (take count (drop src mem))"
  using assms by (rule memmove_eq)

theorem memmove_copies_witness:
  "memmove [1, 2, 3, 4, 5] 1 0 4 = put_at [1, 2, 3, 4, 5] 1 (take 4 (drop 0 [1, 2, 3, 4, 5]))
   \<and> memmove [1, 2, 3, 4, 5 :: u8] 1 0 4 = Some [1, 1, 2, 3, 4]"
  using memmove_copies [of 1 4 "[1, 2, 3, 4, 5]" 0] by (simp add: put_at_def)

lemma copy_up_split:
  "copy_up mem d s (m + n) = (case copy_up mem d s m of None \<Rightarrow> None | Some mem \<Rightarrow> copy_up mem (d + m) (s + m) n)"
  by (induction m arbitrary: mem d s) (auto split: Option.bind_splits cong: option.case_cong)

lemma memcpy_words_eq:
  assumes "d + n \<le> length mem" "s + n \<le> length mem" "d \<le> s \<or> s + n \<le> d"
  shows "\<exists>mem' k. memcpy_words mem d s n = Some (mem', d + k, s + k, n - k) \<and> k \<le> n
    \<and> copy_up mem d s k = Some mem'"
  using assms
proof (induction mem d s n rule: memcpy_words.induct)
  case (1 mem d s n)
  show ?case
  proof (cases "4 \<le> n")
    case True
    let ?w = "take 4 (drop s mem)"
    have rw: "rd_word mem s = Some ?w" using "1.prems" True by (simp add: rd_word_def)
    obtain m1 where put: "put_at mem d ?w = Some m1" using "1.prems" True by (simp add: put_at_def)
    have len: "length m1 = length mem" using put by (rule put_at_length)
    have four: "copy_up mem d s 4 = Some m1"
      using "1.prems" True put by (subst copy_up_eq) auto
    obtain mem' k where IH: "memcpy_words m1 (d + 4) (s + 4) (n - 4) = Some (mem', d + 4 + k, s + 4 + k, n - 4 - k)"
      "k \<le> n - 4" "copy_up m1 (d + 4) (s + 4) k = Some mem'"
      using "1.IH" [OF True rw put] "1.prems" True len by auto
    have "memcpy_words mem d s n = Some (mem', d + (4 + k), s + (4 + k), n - (4 + k))"
      using IH(1) True rw put by (subst memcpy_words.simps) (simp add: add.assoc)
    moreover have "copy_up mem d s (4 + k) = Some mem'"
      using IH(3) four by (subst copy_up_split) simp
    ultimately show ?thesis using IH(2) True by (intro exI [of _ mem'] exI [of _ "4 + k"]) simp
  next
    case False
    then show ?thesis by (subst memcpy_words.simps) (auto intro!: exI [of _ 0])
  qed
qed

text \<open>The word-at-a-time \<^verbatim>\<open>memcpy\<close> gives the same memory as \<^verbatim>\<open>memmove\<close> whenever the areas do not
  overlap or the destination lies below the source, for every alignment and count.\<close>

theorem memcpy_eq_memmove:
  assumes "dest + count \<le> length mem" "src + count \<le> length mem" "dest \<le> src \<or> src + count \<le> dest"
  shows "memcpy mem dest src count = memmove mem dest src count"
proof -
  have "memcpy mem dest src count = copy_up mem dest src count"
  proof (cases "word_aligned dest \<and> word_aligned src")
    case True
    obtain mem' k where w: "memcpy_words mem dest src count = Some (mem', dest + k, src + k, count - k)"
      "k \<le> count" "copy_up mem dest src k = Some mem'"
      using memcpy_words_eq [OF assms] by blast
    have "copy_up mem dest src (k + (count - k)) = copy_up mem' (dest + k) (src + k) (count - k)"
      unfolding copy_up_split using w(3) by simp
    then show ?thesis using True w(1,2) by (simp add: memcpy_def)
  next
    case False
    then show ?thesis by (auto simp: memcpy_def)
  qed
  then show ?thesis
    using assms by (simp add: memmove_def copy_up_eq copy_down_eq)
qed

theorem memcpy_eq_memmove_witness: "memcpy (replicate 16 7) 0 4 9 = memmove (replicate 16 7) 0 4 9"
  by (rule memcpy_eq_memmove) simp_all

section \<open>Filling\<close>

lemma word_bytes_fill: "word_bytes (fill_word c) = replicate 4 c"
proof -
  have b: "ucast (drop_bit (8 * i) (fill_word c)) = c" if "i < 4" for i
  proof -
    have "i = 0 \<or> i = 1 \<or> i = 2 \<or> i = 3" using that by linarith
    then show ?thesis
      by (elim disjE; intro bit_word_eqI) (auto simp: fill_word_def bit_simps upt_rec)
  qed
  show ?thesis
    using b [of 0] b [of 1] b [of 2] b [of 3] by (simp add: word_bytes_def numeral_eq_Suc)
qed

lemma memset_bytes_eq:
  "s + n \<le> length mem \<Longrightarrow> memset_bytes mem s c n = put_at mem s (replicate n c)"
proof (induction n arbitrary: mem s)
  case 0
  then show ?case by (simp add: put_at_def)
next
  case (Suc n)
  have "memset_bytes mem s c (Suc n) = memset_bytes (mem[s := c]) (s + 1) c n"
    using Suc.prems by simp
  also have "\<dots> = put_at (mem[s := c]) (s + 1) (replicate n c)"
    using Suc.prems by (intro Suc.IH) simp
  also have "\<dots> = put_at mem s (c # replicate n c)"
    using Suc.prems by (intro put_at_step) simp_all
  finally show ?case by simp
qed

lemma put_at_put_at:
  assumes "s + length xs + length ys \<le> length mem" "put_at mem s xs = Some m1"
  shows "put_at m1 (s + length xs) ys = put_at mem s (xs @ ys)"
proof -
  have "m1 = take s mem @ xs @ drop (s + length xs) mem" "s \<le> length mem"
    using assms by (auto simp: put_at_def split: if_splits)
  then show ?thesis using assms(1) by (simp add: put_at_def add.assoc add.commute [of "length ys"])
qed

lemma memset_words_eq:
  assumes "s + n \<le> length mem"
  shows "\<exists>mem' k. memset_words mem s (fill_word c) n = Some (mem', s + k, n - k) \<and> k \<le> n
    \<and> put_at mem s (replicate k c) = Some mem'"
  using assms
proof (induction mem s "fill_word c" n rule: memset_words.induct)
  case (1 mem s n)
  show ?case
  proof (cases "4 \<le> n")
    case True
    obtain m1 where put: "put_at mem s (replicate 4 c) = Some m1"
      using "1.prems" True by (simp add: put_at_def)
    have len: "length m1 = length mem" using put by (rule put_at_length)
    obtain mem' k where IH: "memset_words m1 (s + 4) (fill_word c) (n - 4) = Some (mem', s + 4 + k, n - 4 - k)"
      "k \<le> n - 4" "put_at m1 (s + 4) (replicate k c) = Some mem'"
      using "1.hyps" [OF True, of m1] put "1.prems" True len unfolding word_bytes_fill by auto
    have "put_at mem s (replicate 4 c @ replicate k c) = Some mem'"
      using put_at_put_at [of s "replicate 4 c" "replicate k c" mem m1] put IH(2,3) "1.prems" True by simp
    then have "put_at mem s (replicate (4 + k) c) = Some mem'"
      by (simp add: replicate_add [symmetric] del: replicate_append_same)
    moreover have "memset_words mem s (fill_word c) n = Some (mem', s + (4 + k), n - (4 + k))"
      using IH(1) True put by (subst memset_words.simps) (simp add: word_bytes_fill add.assoc)
    ultimately show ?thesis using IH(2) True by (intro exI [of _ mem'] exI [of _ "4 + k"]) simp
  next
    case False
    then show ?thesis using "1.prems"
      by (subst memset_words.simps) (auto simp: put_at_def intro!: exI [of _ 0])
  qed
qed

lemma memset_fills:
  assumes "s + n \<le> length mem"
  shows "memset mem s c n = put_at mem s (replicate n (of_int c))"
proof (cases "word_aligned s")
  case True
  obtain mem' k where w: "memset_words mem s (fill_word (of_int c)) n = Some (mem', s + k, n - k)"
    "k \<le> n" "put_at mem s (replicate k (of_int c)) = Some mem'"
    using memset_words_eq [OF assms] by blast
  have len: "length mem' = length mem" using w(3) by (rule put_at_length)
  have "memset mem s c n = put_at mem' (s + k) (replicate (n - k) (of_int c))"
    using True w len assms by (simp add: memset_def memset_bytes_eq)
  also have "\<dots> = put_at mem s (replicate k (of_int c) @ replicate (n - k) (of_int c))"
    using put_at_put_at [of s "replicate k (of_int c)" "replicate (n - k) (of_int c)" mem mem'] w assms by simp
  also have "\<dots> = put_at mem s (replicate n (of_int c))"
    using w(2) by (simp flip: replicate_add)
  finally show ?thesis .
next
  case False
  then show ?thesis using assms by (simp add: memset_def memset_bytes_eq)
qed


section \<open>Comparing and searching\<close>

lemma str_at_rd:
  assumes "str_at mem p = Some a"
  shows "rd mem p = Some (case a of [] \<Rightarrow> 0 | c # _ \<Rightarrow> c)"
    and "a = c # a' \<Longrightarrow> c \<noteq> 0 \<and> str_at mem (p + 1) = Some a'"
proof -
  obtain j where j: "str_end mem p = Some j" "a = take (j - p) (drop p mem)"
    using assms by (auto simp: str_at_def)
  have b: "p \<le> j" "j < length mem" "mem ! j = 0" using str_end_bounds [OF j(1)] by auto
  have one: "rd mem p = Some 0 \<and> a = [] \<or>
      (\<exists>c. rd mem p = Some c \<and> c \<noteq> 0 \<and> str_end mem (p + 1) = Some j \<and> a = c # take (j - (p + 1)) (drop (p + 1) mem))"
  proof (cases "mem ! p = 0")
    case True
    then have "j = p" using j(1) b by (subst (asm) str_end.simps) simp
    then show ?thesis using True b j(2) by simp
  next
    case False
    then have "str_end mem (p + 1) = Some j" using j(1) b by (subst (asm) str_end.simps) simp
    moreover have "p + 1 \<le> j" using str_end_bounds [OF calculation] by simp
    then have "a = mem ! p # take (j - (p + 1)) (drop (p + 1) mem)"
      using j(2) b by (simp add: take_drop_nth [of p] take_Cons')
    ultimately show ?thesis using False b by simp
  qed
  then show "rd mem p = Some (case a of [] \<Rightarrow> 0 | c # _ \<Rightarrow> c)" by auto
  show "a = c # a' \<Longrightarrow> c \<noteq> 0 \<and> str_at mem (p + 1) = Some a'"
    using one by (auto simp: str_at_def)
qed

lemma str_at_length: "str_at mem p = Some a \<Longrightarrow> strlen mem p = Some (length a)"
  using str_end_bounds [of mem p] by (cases "str_end mem p") (auto simp: str_at_def strlen_def)

lemma str_at_nth:
  assumes "str_at mem p = Some a" "i < length a"
  shows "rd mem (p + i) = Some (a ! i)"
  using assms
proof (induction a arbitrary: p i)
  case (Cons c a)
  note s = str_at_rd [OF Cons.prems(1)]
  show ?case
  proof (cases i)
    case 0
    then show ?thesis using s(1) by simp
  next
    case (Suc k)
    then show ?thesis using Cons.IH [of "p + 1" k] s(2) Cons.prems(2) by simp
  qed
qed simp

lemma u8_diff_sint:
  assumes "a < 128" "b < (128 :: u8)"
  shows "sint (a - b) = uint a - uint b"
proof -
  have ab: "uint a < 128" "uint b < 128" "0 \<le> uint a" "0 \<le> uint b"
    using assms by (simp_all add: word_less_def)
  have "sint (a - b) = signed_take_bit 7 (uint a - uint b)"
    using sint_sbintrunc' [of "uint a - uint b", where 'a = 8]
    by (simp add: word_arith_wis [symmetric] of_int_uint)
  also have "\<dots> = uint a - uint b"
  proof (rule signed_take_bit_int_eq_self)
    have e: "(2 :: int) ^ 7 = 128" by simp
    show "- (2 ^ 7) \<le> uint a - uint b" unfolding e using ab by linarith
    show "uint a - uint b < 2 ^ 7" unfolding e using ab by linarith
  qed
  finally show ?thesis .
qed

lemma sint_zero_iff [simp]: "sint (w :: u8) = 0 \<longleftrightarrow> w = 0"
  by (rule signed_eq_0_iff)

lemma strcmp_strings:
  assumes "str_at mem cs = Some a" "str_at mem ct = Some b"
  shows "\<exists>r. strcmp mem cs ct = Some r \<and> (r = 0 \<longleftrightarrow> a = b)
    \<and> ((\<forall>c \<in> set a \<union> set b. c < 128) \<longrightarrow> (r < 0 \<longleftrightarrow> ord_class.lexordp a b))"
  using assms
proof (induction a arbitrary: b cs ct)
  case Nil
  note s = str_at_rd(1) [OF Nil.prems(1)] str_at_rd [OF Nil.prems(2)]
  show ?case
  proof (cases b)
    case Nil
    then show ?thesis using s by (simp add: strcmp.simps)
  next
    case (Cons d b')
    then have r: "strcmp mem cs ct = Some (sint (0 - d))" "d \<noteq> 0"
      using s by (simp_all add: strcmp.simps)
    moreover have "sint (0 - d) < 0" if "d < 128"
      using u8_diff_sint [of 0 d] that r(2) by (simp add: word_less_def uint_0_iff less_le)
    ultimately show ?thesis using Cons by (auto simp: sint_zero_iff)
  qed
next
  case (Cons c a)
  note sa = str_at_rd [OF Cons.prems(1)] and sb = str_at_rd [OF Cons.prems(2)]
  have c: "c \<noteq> 0" "str_at mem (cs + 1) = Some a" using sa(2) by auto
  show ?case
  proof (cases "\<exists>b'. b = c # b'")
    case True
    then obtain b' where b: "b = c # b'" by blast
    then have "strcmp mem cs ct = strcmp mem (cs + 1) (ct + 1)"
      using sa(1) sb(1) c(1) by (subst strcmp.simps) simp
    then show ?thesis using Cons.IH [of "cs + 1" "ct + 1" b'] c(2) sb(2) [of c b'] b by auto
  next
    case False
    define d where "d = (case b of [] \<Rightarrow> 0 | d # _ \<Rightarrow> d)"
    have cd: "c \<noteq> d" using False c(1) by (cases b) (auto simp: d_def)
    have r: "strcmp mem cs ct = Some (sint (c - d))"
      using sa(1) sb(1) cd by (subst strcmp.simps) (simp add: d_def)
    have lex: "ord_class.lexordp (c # a) b \<longleftrightarrow> c < d"
      using cd c(1) by (cases b) (auto simp: d_def)
    have "sint (c - d) < 0 \<longleftrightarrow> c < d" if "c < 128" "d < 128"
      using u8_diff_sint [OF that] by (simp add: word_less_def)
    moreover have "sint (c - d) \<noteq> 0" using cd by (simp add: sint_zero_iff)
    moreover have "c # a \<noteq> b" using False by auto
    moreover have "d < 128" if "\<forall>c \<in> set b. c < 128" using that by (cases b) (auto simp: d_def)
    ultimately show ?thesis using r lex by auto
  qed
qed

text \<open>
  \<^verbatim>\<open>strcmp\<close> on two terminated strings returns 0 exactly when they are equal, and for
  strings of 7-bit characters the sign of the result is the lexicographic order.\<close>

theorem strcmp_orders:
  assumes "str_at mem cs = Some a" "str_at mem ct = Some b"
  shows "\<exists>r. strcmp mem cs ct = Some r \<and> (r = 0 \<longleftrightarrow> a = b)
    \<and> ((\<forall>c \<in> set a \<union> set b. c < 128) \<longrightarrow> (r < 0 \<longleftrightarrow> ord_class.lexordp a b))"
  using strcmp_strings [OF assms] .

lemma str_at_literal: "0 \<notin> set s \<Longrightarrow> mem = pre @ s @ 0 # suf \<Longrightarrow> p = length pre \<Longrightarrow> str_at mem p = Some s"
  by (simp add: str_at_eq)

theorem strcmp_orders_witness: "\<exists>r. strcmp [0x61, 0x62, 0, 0x61, 0] 0 3 = Some r \<and> r \<noteq> 0 \<and> \<not> r < 0"
proof -
  have "str_at [0x61, 0x62, 0, 0x61, 0] 0 = Some [0x61, 0x62]"
    by (rule str_at_literal [of _ _ "[]" "[0x61, 0]"]) simp_all
  moreover have "str_at [0x61, 0x62, 0, 0x61, 0] 3 = Some [0x61]"
    by (rule str_at_literal [of _ _ "[0x61, 0x62, 0]" "[]"]) simp_all
  ultimately obtain r where "strcmp [0x61, 0x62, 0, 0x61, 0] 0 3 = Some r" "(r = 0) = ([0x61, 0x62 :: u8] = [0x61])"
    "(\<forall>c \<in> set [0x61, 0x62] \<union> set [0x61]. c < (128 :: u8)) \<longrightarrow> (r < 0) = ord_class.lexordp [0x61, 0x62 :: u8] [0x61]"
    using strcmp_orders by blast
  then show ?thesis by auto
qed

text \<open>Outside the 7-bit characters the sign can be wrong: 0xc8 is above 0x0a.\<close>

lemma strcmp_sign_wrong: "strcmp [0xc8, 0, 0x0a, 0] 0 2 = Some (- 66)"
  by (subst strcmp.simps) (simp add: rd_def)

lemma str_at_bytes:
  assumes "str_at mem p = Some a"
  shows "take (length a) (drop p mem) = a" "p + length a < length mem" "0 \<notin> set a"
proof -
  obtain j where j: "str_end mem p = Some j" "a = take (j - p) (drop p mem)"
    using assms by (auto simp: str_at_def)
  have b: "p \<le> j" "j < length mem" using str_end_bounds [OF j(1)] by auto
  then have "length a = j - p" using j(2) by simp
  then show "take (length a) (drop p mem) = a" "p + length a < length mem" using j(2) b by auto
  show "0 \<notin> set a"
    using assms
  proof (induction a arbitrary: p)
    case (Cons c a)
    then show ?case using str_at_rd(2) [OF Cons.prems, of c a] by auto
  qed simp
qed

lemma memcmp_areas:
  "p + n \<le> length mem \<Longrightarrow> q + n \<le> length mem \<Longrightarrow>
     \<exists>r. memcmp mem p q n = Some r \<and> (r = 0 \<longleftrightarrow> take n (drop p mem) = take n (drop q mem))"
proof (induction n arbitrary: p q)
  case (Suc n)
  then have "\<exists>r. memcmp mem (p + 1) (q + 1) n = Some r
      \<and> (r = 0 \<longleftrightarrow> take n (drop (p + 1) mem) = take n (drop (q + 1) mem))"
    by (intro Suc.IH) simp_all
  then show ?case
    using Suc.prems by (auto simp: take_drop_nth [of p] take_drop_nth [of q] dest: unsigned_word_eqI)
qed simp

lemma strstr_loop_find:
  assumes a: "str_at mem s1 = Some a" and b: "str_at mem s2 = Some b" "b \<noteq> []" and k: "k \<le> length a"
  shows "strstr_loop mem (s1 + k) s2 (length a - k) (length b)
    = Some (map_option ((+) s1) (find (\<lambda>i. take (length b) (drop i a) = b) [k..<length a + 1]))"
  using k
proof (induction "length a - k" arbitrary: k rule: less_induct)
  case less
  let ?P = "\<lambda>i. take (length b) (drop i a) = b"
  have upt: "[k..<length a + 1] = k # [k + 1..<length a + 1]"
    using less.prems by (simp add: upt_conv_Cons)
  show ?case
  proof (cases "length b \<le> length a - k")
    case True
    have pos: "k < length a" using True b(2) less.prems by (cases b) auto
    have "take (length b) (drop (s1 + k) mem) = take (length b) (drop k (take (length a) (drop s1 mem)))"
      using True by (simp add: drop_take add.commute min_def)
    then have area: "take (length b) (drop (s1 + k) mem) = take (length b) (drop k a)"
      using str_at_bytes(1) [OF a] by simp
    have "s1 + k + length b \<le> length mem"
      using True str_at_bytes(2) [OF a] less.prems by linarith
    then obtain r where r: "memcmp mem (s1 + k) s2 (length b) = Some r" "r = 0 \<longleftrightarrow> ?P k"
      using memcmp_areas [of "s1 + k" "length b" mem s2] area True str_at_bytes(1,2) [OF a]
        str_at_bytes(1,2) [OF b(1)] less.prems by auto
    show ?thesis
    proof (cases "?P k")
      case match: True
      then show ?thesis using r True upt by (subst strstr_loop.simps) simp
    next
      case False
      have "strstr_loop mem (s1 + k) s2 (length a - k) (length b)
          = strstr_loop mem (s1 + (k + 1)) s2 (length a - (k + 1)) (length b)"
        using r False True pos by (subst strstr_loop.simps) simp
      also have "\<dots> = Some (map_option ((+) s1) (find ?P [k + 1..<length a + 1]))"
        using pos by (intro less.hyps) auto
      finally show ?thesis using False upt by simp
    qed
  next
    case False
    have "\<not> ?P i" if "k \<le> i" for i
    proof
      assume "?P i"
      then have "length b = length (take (length b) (drop i a))" by simp
      also have "\<dots> \<le> length a - i" by simp
      also have "\<dots> \<le> length a - k" using that by simp
      finally show False using False by simp
    qed
    then have "find ?P [k..<length a + 1] = None" by (auto simp: find_None_iff)
    then show ?thesis using False by (subst strstr_loop.simps) simp
  qed
qed

text \<open>
  \<^verbatim>\<open>strstr\<close> returns the address of the first place where the second string occurs in the
  first one, and a null pointer when it occurs nowhere.\<close>

theorem strstr_first:
  assumes "str_at mem s1 = Some a" "str_at mem s2 = Some b"
  shows "strstr mem s1 s2
    = Some (map_option ((+) s1) (find (\<lambda>i. take (length b) (drop i a) = b) [0..<length a + 1]))"
proof (cases "b = []")
  case True
  then show ?thesis
    using str_at_length [OF assms(2)] by (simp add: strstr_def upt_conv_Cons del: upt_Suc)
next
  case False
  then show ?thesis
    using strstr_loop_find [OF assms False, of 0] str_at_length [OF assms(1)] str_at_length [OF assms(2)]
    by (simp add: strstr_def)
qed

theorem strstr_first_witness: "strstr [0x61, 0x62, 0x61, 0x62, 0, 0x62, 0] 0 5 = Some (Some 1)"
proof -
  have "str_at [0x61, 0x62, 0x61, 0x62, 0, 0x62, 0] 0 = Some [0x61, 0x62, 0x61, 0x62]"
    by (rule str_at_literal [of _ _ "[]" "[0x62, 0]"]) simp_all
  moreover have "str_at [0x61, 0x62, 0x61, 0x62, 0, 0x62, 0] 5 = Some [0x62]"
    by (rule str_at_literal [of _ _ "[0x61, 0x62, 0x61, 0x62, 0]" "[]"]) simp_all
  ultimately have "strstr [0x61, 0x62, 0x61, 0x62, 0, 0x62, 0] 0 5
      = Some (map_option ((+) 0) (find (\<lambda>i. take (length [0x62 :: u8]) (drop i [0x61, 0x62, 0x61, 0x62 :: u8]) = [0x62])
          [0..<length [0x61, 0x62, 0x61, 0x62 :: u8] + 1]))"
    by (rule strstr_first)
  then show ?thesis by (simp add: upt_rec)
qed

end
