(* ===== verification/LineEdit.thy ===== *)
theory LineEdit
  imports Prelude CString
begin

text \<open>
  The command line editor of \<^verbatim>\<open>common/main.c\<close> (\<^verbatim>\<open>CONFIG_CMDLINE_EDITING\<close>): the history ring and
  \<^verbatim>\<open>cread_line\<close> key by key.  The state is the edit buffer with its two indices, the pending
  escape sequence, the history, and everything sent to the terminal.  Completion is a parameter.
  The theorems show that every key stays inside a buffer one byte larger than the limit, that
  the editing keys implement an editor on a line split at the cursor while the terminal shows
  exactly that line, and that the buffer of the code, which is not larger than the limit, is
  overrun by one byte.
\<close>

section \<open>History\<close>

definition HIST_MAX :: nat where "HIST_MAX = 20"
definition HIST_SIZE :: nat where "HIST_SIZE = 256"

record hist =
  hist_max :: nat
  hist_add_idx :: nat
  hist_cur :: int
  hist_num :: u32
  hist_list :: "u8 list list"

definition hist_init :: hist where
  "hist_init = \<lparr>hist_max = 0, hist_add_idx = 0, hist_cur = - 1, hist_num = 0,
     hist_list = replicate HIST_MAX []\<rparr>"

text \<open>A line that does not fit its row overruns the row.\<close>

definition cread_add_to_hist :: "u8 list \<Rightarrow> hist \<Rightarrow> hist option" where
  "cread_add_to_hist line h =
     (if HIST_SIZE < length line + 1 \<or> length (hist_list h) \<le> hist_add_idx h then None
      else let lines = (hist_list h)[hist_add_idx h := line];
               add_idx = hist_add_idx h + 1;
               add_idx = (if HIST_MAX \<le> add_idx then 0 else add_idx)
           in Some (h\<lparr>hist_list := lines, hist_add_idx := add_idx,
                hist_max := (if hist_max h < add_idx then add_idx else hist_max h),
                hist_num := hist_num h + 1\<rparr>))"

definition hist_prev :: "hist \<Rightarrow> u8 list option \<times> hist" where
  "hist_prev h =
     (if hist_cur h < 0 then (None, h)
      else let cur = hist_cur h - 1;
               cur = (if cur < 0 then int (hist_max h) else cur)
           in if cur = int (hist_add_idx h) then (None, h)
              else (Some (hist_list h ! nat cur), h\<lparr>hist_cur := cur\<rparr>))"

definition hist_next :: "hist \<Rightarrow> u8 list option \<times> hist" where
  "hist_next h =
     (if hist_cur h < 0 \<or> hist_cur h = int (hist_add_idx h) then (None, h)
      else let cur = hist_cur h + 1;
               cur = (if int (hist_max h) < cur then 0 else cur)
           in (Some (if cur = int (hist_add_idx h) then [] else hist_list h ! nat cur), h\<lparr>hist_cur := cur\<rparr>))"

section \<open>Editing\<close>

record cread =
  ebuf :: "u8 list"
  num :: nat
  eol_num :: nat
  insert_mode :: bool
  esc_len :: nat
  esc_save :: "u8 list"
  history :: hist
  tty :: "u8 list"

text \<open>What \<^verbatim>\<open>printf ("%.*s", n, buf + i)\<close> writes.\<close>

definition putnstr :: "u8 list \<Rightarrow> nat \<Rightarrow> nat \<Rightarrow> u8 list" where
  "putnstr buf i n = takeWhile (\<lambda>c. c \<noteq> 0) (take n (drop i buf))"

definition emit :: "u8 list \<Rightarrow> cread \<Rightarrow> cread" where
  "emit out st = st\<lparr>tty := tty st @ out\<rparr>"

definition getcmd_cbeep :: "cread \<Rightarrow> cread" where
  "getcmd_cbeep st = emit [0x07] st"

definition cread_add_char :: "nat \<Rightarrow> bool \<Rightarrow> u8 \<Rightarrow> cread \<Rightarrow> cread option" where
  "cread_add_char lim ins ichar st =
     (let grow = (ins \<or> num st = eol_num st)
      in if grow \<and> lim - 1 < eol_num st then Some (getcmd_cbeep st)
         else let eol = (if grow then eol_num st + 1 else eol_num st)
              in if ins
                 then do {
                   let wlen = eol - num st;
                   buf \<leftarrow> (if 1 < wlen then memmove (ebuf st) (num st + 1) (num st) (wlen - 1)
                           else Some (ebuf st));
                   buf \<leftarrow> wr buf (num st) ichar;
                   Some (emit (putnstr buf (num st) wlen @ replicate (wlen - 1) 0x08)
                          (st\<lparr>ebuf := buf, num := num st + 1, eol_num := eol\<rparr>))
                 }
                 else do {
                   buf \<leftarrow> wr (ebuf st) (num st) ichar;
                   Some (emit (putnstr buf (num st) 1)
                          (st\<lparr>ebuf := buf, num := num st + 1, eol_num := eol\<rparr>))
                 })"

fun cread_add_str :: "nat \<Rightarrow> bool \<Rightarrow> u8 list \<Rightarrow> cread \<Rightarrow> cread option" where
  "cread_add_str lim ins [] st = Some st"
| "cread_add_str lim ins (c # str) st = do {
     st \<leftarrow> cread_add_char lim ins c st;
     cread_add_str lim ins str st
   }"

definition beginning_of_line :: "cread \<Rightarrow> cread" where
  "beginning_of_line st = emit (replicate (num st) 0x08) (st\<lparr>num := 0\<rparr>)"

definition erase_to_eol :: "cread \<Rightarrow> cread" where
  "erase_to_eol st =
     (if num st < eol_num st
      then let n = eol_num st - num st
           in emit (replicate n 0x20 @ replicate n 0x08) (st\<lparr>eol_num := num st\<rparr>)
      else st)"

definition refresh_to_eol :: "cread \<Rightarrow> cread" where
  "refresh_to_eol st =
     (if num st < eol_num st
      then emit (putnstr (ebuf st) (num st) (eol_num st - num st)) (st\<lparr>num := eol_num st\<rparr>)
      else st)"

text \<open>\<^verbatim>\<open>^D\<close> and the delete keys.\<close>

definition cread_delete_at :: "cread \<Rightarrow> cread option" where
  "cread_delete_at st =
     (if num st < eol_num st
      then do {
        let wlen = eol_num st - num st - 1;
        buf \<leftarrow> (if wlen \<noteq> 0 then memmove (ebuf st) (num st) (num st + 1) wlen else Some (ebuf st));
        let out = (if wlen \<noteq> 0 then putnstr buf (num st) wlen else []);
        Some (emit (out @ [0x20] @ replicate (wlen + 1) 0x08)
               (st\<lparr>ebuf := buf, eol_num := eol_num st - 1\<rparr>))
      }
      else Some st)"

definition cread_backspace :: "cread \<Rightarrow> cread option" where
  "cread_backspace st =
     (if num st \<noteq> 0
      then do {
        let wlen = eol_num st - num st;
        let n = num st - 1;
        buf \<leftarrow> memmove (ebuf st) n (n + 1) wlen;
        Some (emit ([0x08] @ putnstr buf n wlen @ [0x20] @ replicate (wlen + 1) 0x08)
               (st\<lparr>ebuf := buf, num := n, eol_num := eol_num st - 1\<rparr>))
      }
      else Some st)"

text \<open>Recalling a history line; \<open>up\<close> is \<^verbatim>\<open>^P\<close>.\<close>

definition cread_recall :: "bool \<Rightarrow> cread \<Rightarrow> cread option" where
  "cread_recall up st =
     (let (hline, h) = (if up then hist_prev (history st) else hist_next (history st));
          st = st\<lparr>esc_len := 0, history := h\<rparr>
      in case hline of
           None \<Rightarrow> Some (getcmd_cbeep st)
         | Some line \<Rightarrow>
             let st = erase_to_eol (beginning_of_line st)
             in map_option (\<lambda>buf. refresh_to_eol (st\<lparr>ebuf := buf, eol_num := length line\<rparr>))
                  (put_at (ebuf st) 0 (line @ [0])))"

text \<open>
  Completion gets the terminated buffer, the index and the output column; when it completes it
  returns the new buffer, the new index and what it printed, otherwise the return is 0 and nothing has
  changed (\<^verbatim>\<open>Some None\<close>).  An access outside its memory (\<^verbatim>\<open>None\<close>) is one of the editor.
\<close>

type_synonym completer = "u8 list \<Rightarrow> u8 list \<Rightarrow> nat \<Rightarrow> nat \<Rightarrow> (u8 list \<times> nat \<times> u8 list) option option"

definition cread_tab :: "completer \<Rightarrow> u8 list \<Rightarrow> cread \<Rightarrow> cread option" where
  "cread_tab complete prompt st =
     (if num st < eol_num st then Some (getcmd_cbeep st)
      else do {
        buf \<leftarrow> wr (ebuf st) (num st) 0;
        r \<leftarrow> complete prompt buf (num st) (length prompt + eol_num st);
        Some (case r of
                None \<Rightarrow> st\<lparr>ebuf := buf\<rparr>
              | Some (buf, num2, out) \<Rightarrow>
                  emit out (st\<lparr>ebuf := buf, num := num2,
                    eol_num := nat (int (eol_num st) + (int num2 - int (num st)))\<rparr>))
      })"

datatype key_result = Editing cread | Entered cread | Interrupted cread

text \<open>The letter of an escape sequence becomes the control key it stands for.\<close>

definition esc_key :: "u8 \<Rightarrow> u8 option" where
  "esc_key c =
     (if c = 0x44 then Some 0x02
      else if c = 0x43 then Some 0x06
      else if c = 0x48 then Some 0x01
      else if c = 0x41 then Some 0x10
      else if c = 0x42 then Some 0x0e
      else None)"

text \<open>The main switch.\<close>

definition cread_switch ::
    "completer \<Rightarrow> u8 list \<Rightarrow> nat \<Rightarrow> u8 \<Rightarrow> cread \<Rightarrow> key_result option" where
  "cread_switch complete prompt lim ichar st =
     (if ichar = 0x1b
      then Some (Editing (if esc_len st = 0
                          then st\<lparr>esc_save := (esc_save st)[0 := ichar], esc_len := 1\<rparr>
                          else emit (ascii ''impossible condition #876'' @ [0x0a]) (st\<lparr>esc_len := 0\<rparr>)))
      else if ichar = 0x01 then Some (Editing (beginning_of_line st))
      else if ichar = 0x03 then map_option (\<lambda>buf. Interrupted (st\<lparr>ebuf := buf\<rparr>)) (wr (ebuf st) 0 0)
      else if ichar = 0x06
      then (if num st < eol_num st
            then map_option (\<lambda>c. Editing (emit [c] (st\<lparr>num := num st + 1\<rparr>))) (rd (ebuf st) (num st))
            else Some (Editing st))
      else if ichar = 0x02
      then Some (Editing (if num st \<noteq> 0 then emit [0x08] (st\<lparr>num := num st - 1\<rparr>) else st))
      else if ichar = 0x04 then map_option Editing (cread_delete_at st)
      else if ichar = 0x0b then Some (Editing (erase_to_eol st))
      else if ichar = 0x05 then Some (Editing (refresh_to_eol st))
      else if ichar = 0x0f then Some (Editing (st\<lparr>insert_mode := \<not> insert_mode st\<rparr>))
      else if ichar = 0x18 \<or> ichar = 0x15
      then Some (Editing (erase_to_eol (beginning_of_line st)))
      else if ichar = 0xff \<or> ichar = 0x7f \<or> ichar = 0x08 then map_option Editing (cread_backspace st)
      else if ichar = 0x10 then map_option Editing (cread_recall True st)
      else if ichar = 0x0e then map_option Editing (cread_recall False st)
      else if ichar = 0x09 then map_option Editing (cread_tab complete prompt st)
      else map_option Editing (cread_add_char lim (insert_mode st) ichar st))"

text \<open>One character from the console, escape sequences included.\<close>

definition cread_key ::
    "completer \<Rightarrow> u8 list \<Rightarrow> nat \<Rightarrow> u8 \<Rightarrow> cread \<Rightarrow> key_result option" where
  "cread_key complete prompt lim ichar st =
     (if ichar = 0x0a \<or> ichar = 0x0d then Some (Entered (emit [0x0a] st))
      else if esc_len st = 0 then cread_switch complete prompt lim ichar st
      else if esc_len st = 1
      then (if ichar = 0x5b
            then Some (Editing (st\<lparr>esc_save := (esc_save st)[1 := ichar], esc_len := 2\<rparr>))
            else map_option (\<lambda>st. Editing (st\<lparr>esc_len := 0\<rparr>))
                   (cread_add_str lim (insert_mode st) (take 1 (esc_save st)) st))
      else (case esc_key ichar of
              Some key \<Rightarrow> cread_switch complete prompt lim key (st\<lparr>esc_len := 0\<rparr>)
            | None \<Rightarrow>
                let st = st\<lparr>esc_save := (esc_save st)[esc_len st := ichar], esc_len := esc_len st + 1\<rparr>
                in map_option (\<lambda>st. Editing (st\<lparr>esc_len := 0\<rparr>))
                     (cread_add_str lim (insert_mode st) (take (esc_len st) (esc_save st)) st)))"

text \<open>
  The loop over the characters that arrive, and what follows it: \<^verbatim>\<open>Some (Inl st)\<close> is still
  reading, \<^verbatim>\<open>Some (Inr (rc, len, st))\<close> has returned.
\<close>

definition cread_finish :: "cread \<Rightarrow> (int \<times> nat \<times> cread) option" where
  "cread_finish st = do {
     buf \<leftarrow> wr (ebuf st) (eol_num st) 0;
     let line = takeWhile (\<lambda>c. c \<noteq> 0) buf;
     h \<leftarrow> (if line \<noteq> [] \<and> hd line \<noteq> 0x21 then cread_add_to_hist line (history st)
          else Some (history st));
     Some (0, eol_num st, st\<lparr>ebuf := buf, history := h\<lparr>hist_cur := int (hist_add_idx h)\<rparr>\<rparr>)
   }"

fun cread_loop ::
    "completer \<Rightarrow> u8 list \<Rightarrow> nat \<Rightarrow> u8 list \<Rightarrow> cread \<Rightarrow> (cread + int \<times> nat \<times> cread) option" where
  "cread_loop complete prompt lim [] st = Some (Inl st)"
| "cread_loop complete prompt lim (c # keys) st = do {
     r \<leftarrow> cread_key complete prompt lim c st;
     case r of
       Editing st \<Rightarrow> cread_loop complete prompt lim keys st
     | Entered st \<Rightarrow> map_option Inr (cread_finish st)
     | Interrupted st \<Rightarrow> Some (Inr (- 1, lim, st))
   }"

text \<open>The bytes already in the buffer are fed back through \<^verbatim>\<open>cread_add_str\<close> from the buffer itself.\<close>

fun cread_preload :: "nat \<Rightarrow> nat \<Rightarrow> nat \<Rightarrow> cread \<Rightarrow> cread option" where
  "cread_preload lim i 0 st = Some st"
| "cread_preload lim i (Suc n) st = do {
     c \<leftarrow> rd (ebuf st) i;
     st \<leftarrow> cread_add_char lim True c st;
     cread_preload lim (i + 1) n st
   }"

definition cread_line ::
    "completer \<Rightarrow> u8 list \<Rightarrow> nat \<Rightarrow> hist \<Rightarrow> u8 list \<Rightarrow> u8 list \<Rightarrow> (cread + int \<times> nat \<times> cread) option" where
  "cread_line complete prompt lim h buf keys = do {
     init_len \<leftarrow> strlen buf 0;
     let st = \<lparr>ebuf = buf, num = 0, eol_num = 0, insert_mode = True, esc_len = 0,
               esc_save = replicate 8 0, history = h, tty = []\<rparr>;
     st \<leftarrow> cread_preload lim 0 init_len st;
     cread_loop complete prompt lim keys st
   }"

definition MAX_CMDBUF_SIZE :: nat where "MAX_CMDBUF_SIZE = 256"
definition CONFIG_SYS_CBSIZE :: nat where "CONFIG_SYS_CBSIZE = 256"

text \<open>\<^verbatim>\<open>readline_into_buffer\<close> after relocation with the history set up, and \<^verbatim>\<open>readline\<close>.\<close>

definition readline_into_buffer ::
    "completer \<Rightarrow> u8 list \<Rightarrow> hist \<Rightarrow> u8 list \<Rightarrow> u8 list \<Rightarrow> (int \<times> cread) option option" where
  "readline_into_buffer complete prompt h buf keys =
     map_option (\<lambda>r. case r of
         Inl st \<Rightarrow> None
       | Inr (rc, len, st) \<Rightarrow> Some (if rc < 0 then rc else int len, st))
       (cread_line complete prompt MAX_CMDBUF_SIZE h buf keys)"

definition readline ::
    "completer \<Rightarrow> u8 list \<Rightarrow> hist \<Rightarrow> u8 list \<Rightarrow> u8 list \<Rightarrow> (int \<times> cread) option option" where
  "readline complete prompt h console_buffer keys = do {
     console_buffer \<leftarrow> wr console_buffer 0 0;
     readline_into_buffer complete prompt h console_buffer keys
   }"

section \<open>The terminal\<close>

text \<open>The row under the cursor: a backspace moves left, a bell does nothing, the rest overwrites.\<close>

fun tty_put :: "u8 list \<times> nat \<Rightarrow> u8 \<Rightarrow> u8 list \<times> nat" where
  "tty_put (row, cur) c =
     (if c = 0x08 then (row, cur - 1)
      else if c = 0x07 then (row, cur)
      else (if cur < length row then row[cur := c] else row @ [c], cur + 1))"

definition tty_run :: "u8 list \<times> nat \<Rightarrow> u8 list \<Rightarrow> u8 list \<times> nat" where
  "tty_run = foldl tty_put"

lemma tty_run_simps [simp]:
  "tty_run s [] = s" "tty_run s (c # out) = tty_run (tty_put s c) out"
  "tty_run s (out @ out') = tty_run (tty_run s out) out'"
  by (simp_all add: tty_run_def)

lemma tty_run_back: "tty_run (row, cur) (replicate n 0x08) = (row, cur - n)"
  by (induction n arbitrary: cur) auto

definition printable :: "u8 \<Rightarrow> bool" where
  "printable c \<longleftrightarrow> 0x20 \<le> c"

lemma printable_not: "printable c \<Longrightarrow> c \<noteq> 0 \<and> c \<noteq> 0x07 \<and> c \<noteq> 0x08"
  by (auto simp: printable_def)

lemma tty_run_text:
  "\<forall>c \<in> set s. printable c \<Longrightarrow> length s = length mid \<Longrightarrow>
     tty_run (pre @ mid @ post, length pre) s = (pre @ s @ post, length pre + length s)"
proof (induction s arbitrary: pre mid)
  case (Cons c s)
  then obtain d mid' where mid: "mid = d # mid'" by (cases mid) auto
  have "tty_put (pre @ mid @ post, length pre) c = ((pre @ [c]) @ mid' @ post, length (pre @ [c]))"
    using Cons.prems(1) mid printable_not [of c] by (auto simp: nth_append)
  moreover have "tty_run ((pre @ [c]) @ mid' @ post, length (pre @ [c])) s
      = ((pre @ [c]) @ s @ post, length (pre @ [c]) + length s)"
    using Cons.prems mid by (intro Cons.IH) auto
  ultimately show ?case by simp
qed simp

text \<open>Writing at the end of the row extends it with as many cells as are needed.\<close>

lemma tty_run_text_blanks:
  assumes "\<forall>c \<in> set s. printable c" "length s = length r + k"
  shows "tty_run (l @ r @ replicate m 0x20, length l) s
    = (l @ s @ replicate (m - k) 0x20, length l + length s)"
proof (cases "k \<le> m")
  case True
  then have "replicate m (0x20 :: u8) = replicate k 0x20 @ replicate (m - k) 0x20"
    by (simp flip: replicate_add)
  then show ?thesis
    using tty_run_text [of s "r @ replicate k 0x20" l "replicate (m - k) 0x20"] assms by simp
next
  case False
  have ext: "tty_run (row, length row) t = (row @ t, length row + length t)"
    if "\<forall>c \<in> set t. printable c" for row t
    using that
  proof (induction t arbitrary: row)
    case (Cons c t)
    then show ?case using printable_not [of c] Cons.IH [of "row @ [c]"] by auto
  qed simp
  let ?a = "take (length r + m) s" and ?b = "drop (length r + m) s"
  have "tty_run (l @ (r @ replicate m 0x20) @ [], length l) ?a = (l @ ?a @ [], length l + length ?a)"
    using assms False by (intro tty_run_text) (auto dest: in_set_takeD)
  moreover have "tty_run (l @ ?a, length (l @ ?a)) ?b = ((l @ ?a) @ ?b, length (l @ ?a) + length ?b)"
    using assms by (intro ext) (auto dest: in_set_dropD)
  moreover have "tty_run (l @ r @ replicate m 0x20, length l) s
      = tty_run (tty_run (l @ r @ replicate m 0x20, length l) ?a) ?b"
    by (simp flip: tty_run_simps(3))
  ultimately show ?thesis using False assms(2) by simp
qed


section \<open>An editor on a line split at the cursor\<close>

text \<open>Insert mode, the text left of the cursor, the text at and right of it.\<close>

type_synonym edit = "bool \<times> u8 list \<times> u8 list"

fun edit_step :: "nat \<Rightarrow> u8 \<Rightarrow> edit \<Rightarrow> edit" where
  "edit_step lim c (ins, l, r) =
     (if c = 0x01 then (ins, [], l @ r)
      else if c = 0x05 then (ins, l @ r, [])
      else if c = 0x02 then (if l = [] then (ins, l, r) else (ins, butlast l, last l # r))
      else if c = 0x06 then (if r = [] then (ins, l, r) else (ins, l @ [hd r], tl r))
      else if c = 0x04 then (ins, l, tl r)
      else if c = 0x0b then (ins, l, [])
      else if c = 0x15 \<or> c = 0x18 then (ins, [], [])
      else if c = 0x08 \<or> c = 0x7f \<or> c = 0xff then (if l = [] then (ins, l, r) else (ins, butlast l, r))
      else if c = 0x0f then (\<not> ins, l, r)
      else if ins \<or> r = []
      then (if length l + length r < lim then (ins, l @ [c], r) else (ins, l, r))
      else (ins, l @ [c], tl r))"

definition edit_char :: "u8 \<Rightarrow> bool" where
  "edit_char c \<longleftrightarrow> printable c \<or> c \<in> {0x01, 0x02, 0x04, 0x05, 0x06, 0x08, 0x0b, 0x0f, 0x15, 0x18}"

text \<open>
  The state holds the line \<open>l @ r\<close> with the cursor after \<open>l\<close>, and the terminal shows it, followed
  by blanks, with its cursor at the same place.
\<close>

definition edit_ok :: "nat \<Rightarrow> cread \<Rightarrow> edit \<Rightarrow> bool" where
  "edit_ok lim st e \<longleftrightarrow>
     (case e of (ins, l, r) \<Rightarrow>
        (\<exists>rest. ebuf st = l @ r @ rest) \<and> lim < length (ebuf st) \<and> insert_mode st = ins
        \<and> num st = length l \<and> eol_num st = length l + length r \<and> length l + length r \<le> lim
        \<and> (\<forall>c \<in> set (l @ r). printable c) \<and> 0 < lim \<and> esc_len st = 0
        \<and> (\<exists>k. tty_run ([], 0) (tty st) = (l @ r @ replicate k 0x20, length l)))"

lemma edit_okI:
  assumes "ebuf st = l @ r @ rest" "lim < length (ebuf st)" "insert_mode st = ins"
    "num st = length l" "eol_num st = length l + length r" "length l + length r \<le> lim"
    "\<forall>c \<in> set (l @ r). printable c" "0 < lim" "esc_len st = 0"
    "tty_run ([], 0) (tty st) = (l @ r @ replicate k 0x20, length l)"
  shows "edit_ok lim st (ins, l, r)"
  using assms unfolding edit_ok_def by auto

lemma edit_okE:
  assumes "edit_ok lim st (ins, l, r)"
  obtains rest k where "ebuf st = l @ r @ rest" "lim < length (ebuf st)" "insert_mode st = ins"
    "num st = length l" "eol_num st = length l + length r" "length l + length r \<le> lim"
    "\<forall>c \<in> set (l @ r). printable c" "0 < lim" "esc_len st = 0"
    "tty_run ([], 0) (tty st) = (l @ r @ replicate k 0x20, length l)"
  using assms unfolding edit_ok_def by auto

lemma putnstr_text:
  "\<forall>c \<in> set s. printable c \<Longrightarrow> putnstr (l @ s @ rest) (length l) (length s) = s"
  by (auto simp: putnstr_def takeWhile_eq_all_conv dest: printable_not)

lemma shift_right:
  "(if 1 < length r + 1 then memmove (l @ r @ x # rest) (length l + 1) (length l) (length r)
    else Some (l @ r @ x # rest)) \<bind> (\<lambda>buf. wr buf (length l) c) = Some (l @ c # r @ rest)"
proof (cases r)
  case Nil
  then show ?thesis by (simp add: wr_append)
next
  case (Cons d r')
  have "memmove (l @ r @ x # rest) (length l + 1) (length l) (length r)
      = put_at ((l @ [d]) @ (r' @ [x]) @ rest) (length (l @ [d])) r"
    using Cons by (subst memmove_eq) simp_all
  also have "\<dots> = Some ((l @ [d]) @ r @ rest)"
    by (rule put_at_append) (simp add: Cons)
  finally show ?thesis using Cons wr_append [of l d "r @ rest" c] by simp
qed

lemma shift_left:
  "\<exists>rest'. memmove (l @ d # r @ rest) (length l) (length l + 1) (length r) = Some (l @ r @ rest')
     \<and> length rest' = length rest + 1"
proof -
  have "memmove (l @ d # r @ rest) (length l) (length l + 1) (length r)
      = put_at (l @ take (length r) (d # r) @ (drop (length r) (d # r) @ rest)) (length l) r"
    by (subst memmove_eq) (simp_all flip: append_assoc)
  also have "\<dots> = Some (l @ r @ (drop (length r) (d # r) @ rest))"
    by (rule put_at_append) simp
  finally show ?thesis by (intro exI [of _ "drop (length r) (d # r) @ rest"]) simp
qed

lemma emit_simps [simp]:
  "ebuf (emit out st) = ebuf st" "num (emit out st) = num st" "eol_num (emit out st) = eol_num st"
  "insert_mode (emit out st) = insert_mode st" "esc_len (emit out st) = esc_len st"
  "esc_save (emit out st) = esc_save st"
  "history (emit out st) = history st" "tty (emit out st) = tty st @ out"
  by (simp_all add: emit_def)

lemma edit_insert:
  assumes "edit_ok lim st (ins, l, r)" "printable c" "ins \<or> r = []"
  shows "\<exists>st'. cread_add_char lim ins c st = Some st'
    \<and> edit_ok lim st' (if length l + length r < lim then (ins, l @ [c], r) else (ins, l, r))"
  using assms(1)
proof (rule edit_okE)
  fix rest k
  assume s: "ebuf st = l @ r @ rest" "lim < length (ebuf st)" "insert_mode st = ins"
    "num st = length l" "eol_num st = length l + length r" "length l + length r \<le> lim"
    "\<forall>c \<in> set (l @ r). printable c" "0 < lim" "esc_len st = 0"
    "tty_run ([], 0) (tty st) = (l @ r @ replicate k 0x20, length l)"
  show ?thesis
  proof (cases "length l + length r < lim")
    case False
    have "edit_ok lim (getcmd_cbeep st) (ins, l, r)"
      using s by (intro edit_okI [where rest = rest and k = k]) (simp_all add: getcmd_cbeep_def)
    moreover have "cread_add_char lim ins c st = Some (getcmd_cbeep st)"
      using False s assms(3) by (auto simp: cread_add_char_def)
    ultimately show ?thesis using False by simp
  next
    case True
    then obtain x rest' where rest: "rest = x # rest'" using s(1,2) by (cases rest) auto
    have pr: "\<forall>d \<in> set (c # r). printable d" using s(7) assms(2) by simp
    define st' where "st' = emit ((c # r) @ replicate (length r) 0x08)
      (st\<lparr>ebuf := l @ c # r @ rest', num := length l + 1, eol_num := length l + length r + 1\<rparr>)"
    have "cread_add_char lim ins c st = Some st'"
    proof (cases ins)
      case t: True
      have p: "putnstr (l @ (c # r) @ rest') (length l) (length (c # r)) = c # r"
        using pr by (rule putnstr_text)
      show ?thesis
        using t True s(4,5) shift_right [of r l x rest' c] p
        by (auto simp: cread_add_char_def s(1) rest st'_def bind_eq_Some_conv split: if_splits)
    next
      case False
      then have "r = []" using assms(3) by simp
      then show ?thesis
        using False True s(4,5) wr_append [of l x rest' c] putnstr_text [of "[c]" l rest'] assms(2)
        by (simp add: cread_add_char_def s(1) rest st'_def)
    qed
    moreover have "edit_ok lim st' (ins, l @ [c], r)"
    proof (rule edit_okI [where rest = rest' and k = "k - 1"])
      have "tty_run (l @ r @ replicate k 0x20, length l) (c # r)
          = (l @ (c # r) @ replicate (k - 1) 0x20, length l + length (c # r))"
        using pr by (intro tty_run_text_blanks) simp_all
      moreover have "tty st' = tty st @ (c # r) @ replicate (length r) 0x08" by (simp add: st'_def)
      ultimately show "tty_run ([], 0) (tty st') = ((l @ [c]) @ r @ replicate (k - 1) 0x20, length (l @ [c]))"
        by (simp only: tty_run_simps(3) s(10)) (simp add: tty_run_back)
    qed (use s True assms(2) rest in \<open>auto simp: st'_def\<close>)
    ultimately show ?thesis using True by auto
  qed
qed

lemma edit_overwrite:
  assumes "edit_ok lim st (False, l, r)" "printable c" "r \<noteq> []"
  shows "\<exists>st'. cread_add_char lim False c st = Some st' \<and> edit_ok lim st' (False, l @ [c], tl r)"
  using assms(1)
proof (rule edit_okE)
  fix rest k
  assume s: "ebuf st = l @ r @ rest" "lim < length (ebuf st)" "insert_mode st = False"
    "num st = length l" "eol_num st = length l + length r" "length l + length r \<le> lim"
    "\<forall>c \<in> set (l @ r). printable c" "0 < lim" "esc_len st = 0"
    "tty_run ([], 0) (tty st) = (l @ r @ replicate k 0x20, length l)"
  obtain d r' where r: "r = d # r'" using assms(3) by (cases r) auto
  define st' where "st' = emit [c] (st\<lparr>ebuf := l @ c # r' @ rest, num := length l + 1, eol_num := length l + length r\<rparr>)"
  have "cread_add_char lim False c st = Some st'"
    using s(4,5) wr_append [of l d "r' @ rest" c] putnstr_text [of "[c]" l "r' @ rest"] assms(2)
    by (simp add: cread_add_char_def s(1) r st'_def)
  moreover have "edit_ok lim st' (False, l @ [c], tl r)"
  proof (rule edit_okI [where rest = rest and k = k])
    have "tty_run (l @ [d] @ (r' @ replicate k 0x20), length l) [c]
        = (l @ [c] @ (r' @ replicate k 0x20), length l + length [c])"
      using assms(2) by (intro tty_run_text) simp_all
    then show "tty_run ([], 0) (tty st') = ((l @ [c]) @ tl r @ replicate k 0x20, length (l @ [c]))"
      using s(10) r by (simp add: st'_def)
  qed (use s assms(2) r in \<open>auto simp: st'_def\<close>)
  ultimately show ?thesis by blast
qed

lemma edit_home:
  assumes "edit_ok lim st (ins, l, r)"
  shows "edit_ok lim (beginning_of_line st) (ins, [], l @ r)"
  using assms
proof (rule edit_okE)
  fix rest k
  assume s: "ebuf st = l @ r @ rest" "lim < length (ebuf st)" "insert_mode st = ins"
    "num st = length l" "eol_num st = length l + length r" "length l + length r \<le> lim"
    "\<forall>c \<in> set (l @ r). printable c" "0 < lim" "esc_len st = 0"
    "tty_run ([], 0) (tty st) = (l @ r @ replicate k 0x20, length l)"
  then show ?thesis
    by (intro edit_okI [where rest = rest and k = k]) (auto simp: beginning_of_line_def tty_run_back)
qed

lemma edit_erase:
  assumes "edit_ok lim st (ins, l, r)"
  shows "edit_ok lim (erase_to_eol st) (ins, l, [])"
  using assms
proof (rule edit_okE)
  fix rest k
  assume s: "ebuf st = l @ r @ rest" "lim < length (ebuf st)" "insert_mode st = ins"
    "num st = length l" "eol_num st = length l + length r" "length l + length r \<le> lim"
    "\<forall>c \<in> set (l @ r). printable c" "0 < lim" "esc_len st = 0"
    "tty_run ([], 0) (tty st) = (l @ r @ replicate k 0x20, length l)"
  have "tty_run (l @ r @ replicate k 0x20, length l) (replicate (length r) 0x20)
      = (l @ replicate (length r) 0x20 @ replicate k 0x20, length l + length (replicate (length r) (0x20 :: u8)))"
    by (intro tty_run_text) (simp_all add: printable_def)
  then have "tty_run (l @ r @ replicate k 0x20, length l) (replicate (length r) 0x20 @ replicate (length r) 0x08)
      = (l @ replicate (length r + k) 0x20, length l)"
    by (simp add: tty_run_back replicate_add)
  then show ?thesis
    using s by (intro edit_okI [where rest = "r @ rest" and k = "length r + k"])
      (auto simp: erase_to_eol_def Let_def)
qed

lemma edit_end:
  assumes "edit_ok lim st (ins, l, r)"
  shows "edit_ok lim (refresh_to_eol st) (ins, l @ r, [])"
  using assms
proof (rule edit_okE)
  fix rest k
  assume s: "ebuf st = l @ r @ rest" "lim < length (ebuf st)" "insert_mode st = ins"
    "num st = length l" "eol_num st = length l + length r" "length l + length r \<le> lim"
    "\<forall>c \<in> set (l @ r). printable c" "0 < lim" "esc_len st = 0"
    "tty_run ([], 0) (tty st) = (l @ r @ replicate k 0x20, length l)"
  have "tty_run (l @ r @ replicate k 0x20, length l) r = (l @ r @ replicate k 0x20, length l + length r)"
    using s(7) by (intro tty_run_text) simp_all
  moreover have "putnstr (l @ r @ rest) (length l) (length r) = r"
    using s(7) by (intro putnstr_text) simp
  ultimately show ?thesis
    using s by (intro edit_okI [where rest = rest and k = k]) (auto simp: refresh_to_eol_def)
qed

lemma tty_retype:
  assumes "\<forall>c \<in> set r. printable c"
  shows "tty_run (l @ d # r @ replicate k 0x20, length l) (r @ [0x20] @ replicate (length r + 1) 0x08)
    = (l @ r @ replicate (k + 1) 0x20, length l)"
proof -
  have "tty_run (l @ (d # r) @ replicate k 0x20, length l) (r @ [0x20])
      = (l @ (r @ [0x20]) @ replicate k 0x20, length l + length (r @ [0x20 :: u8]))"
    using assms by (intro tty_run_text) (auto simp: printable_def)
  then have "tty_run (l @ d # r @ replicate k 0x20, length l) ((r @ [0x20]) @ replicate (length r + 1) 0x08)
      = (l @ r @ replicate (k + 1) 0x20, length l)"
    by (simp only: tty_run_simps(3) append_Cons append_Nil tty_run_back) simp
  then show ?thesis by simp
qed

lemma edit_delete:
  assumes "edit_ok lim st (ins, l, r)"
  shows "\<exists>st'. cread_delete_at st = Some st' \<and> edit_ok lim st' (ins, l, tl r)"
  using assms
proof (rule edit_okE)
  fix rest k
  assume s: "ebuf st = l @ r @ rest" "lim < length (ebuf st)" "insert_mode st = ins"
    "num st = length l" "eol_num st = length l + length r" "length l + length r \<le> lim"
    "\<forall>c \<in> set (l @ r). printable c" "0 < lim" "esc_len st = 0"
    "tty_run ([], 0) (tty st) = (l @ r @ replicate k 0x20, length l)"
  show ?thesis
  proof (cases r)
    case Nil
    then show ?thesis using assms s by (simp add: cread_delete_at_def)
  next
    case (Cons d r')
    obtain rest' where m: "memmove (l @ d # r' @ rest) (length l) (length l + 1) (length r') = Some (l @ r' @ rest')"
      "length rest' = length rest + 1"
      using shift_left by blast
    define rest'' where "rest'' = (if r' = [] then d # rest else rest')"
    define st' where "st' = emit (r' @ [0x20] @ replicate (length r' + 1) 0x08)
      (st\<lparr>ebuf := l @ r' @ rest'', eol_num := length l + length r'\<rparr>)"
    have "cread_delete_at st = Some st'"
      using s(4,5) m(1) putnstr_text [of r' l rest'] s(7) Cons
      by (auto simp: cread_delete_at_def Let_def s(1) st'_def rest''_def)
    moreover have "edit_ok lim st' (ins, l, tl r)"
      using s Cons m(2) tty_retype [of r' l d k]
      by (intro edit_okI [where rest = rest'' and k = "k + 1"]) (auto simp: st'_def rest''_def)
    ultimately show ?thesis by blast
  qed
qed

lemma edit_backspace:
  assumes "edit_ok lim st (ins, l, r)"
  shows "\<exists>st'. cread_backspace st = Some st' \<and> edit_ok lim st' (if l = [] then (ins, l, r) else (ins, butlast l, r))"
  using assms
proof (rule edit_okE)
  fix rest k
  assume s: "ebuf st = l @ r @ rest" "lim < length (ebuf st)" "insert_mode st = ins"
    "num st = length l" "eol_num st = length l + length r" "length l + length r \<le> lim"
    "\<forall>c \<in> set (l @ r). printable c" "0 < lim" "esc_len st = 0"
    "tty_run ([], 0) (tty st) = (l @ r @ replicate k 0x20, length l)"
  show ?thesis
  proof (cases l rule: rev_cases)
    case Nil
    then show ?thesis using assms s by (simp add: cread_backspace_def)
  next
    case (snoc l' d)
    obtain rest' where m: "memmove (l' @ d # r @ rest) (length l') (length l' + 1) (length r) = Some (l' @ r @ rest')"
      "length rest' = length rest + 1"
      using shift_left by blast
    define st' where "st' = emit (0x08 # r @ [0x20] @ replicate (length r + 1) 0x08)
      (st\<lparr>ebuf := l' @ r @ rest', num := length l', eol_num := length l' + length r\<rparr>)"
    have "cread_backspace st = Some st'"
      using s(4,5) m(1) putnstr_text [of r l' rest'] s(7) snoc
      by (simp add: cread_backspace_def Let_def s(1) st'_def)
    moreover have "edit_ok lim st' (ins, l', r)"
      using s snoc m(2) tty_retype [of r l' d k]
      by (intro edit_okI [where rest = rest' and k = "k + 1"]) (auto simp: st'_def)
    ultimately show ?thesis using snoc by auto
  qed
qed

text \<open>The keys that move the cursor by one.\<close>

lemma edit_left:
  assumes "edit_ok lim st (ins, l, r)" "l \<noteq> []"
  shows "edit_ok lim (emit [0x08] (st\<lparr>num := num st - 1\<rparr>)) (ins, butlast l, last l # r)"
  using assms(1)
proof (rule edit_okE)
  fix rest k
  assume s: "ebuf st = l @ r @ rest" "lim < length (ebuf st)" "insert_mode st = ins"
    "num st = length l" "eol_num st = length l + length r" "length l + length r \<le> lim"
    "\<forall>c \<in> set (l @ r). printable c" "0 < lim" "esc_len st = 0"
    "tty_run ([], 0) (tty st) = (l @ r @ replicate k 0x20, length l)"
  obtain l' d where l: "l = l' @ [d]" using assms(2) by (cases l rule: rev_cases) auto
  show ?thesis
    using s l by (intro edit_okI [where rest = rest and k = k]) auto
qed

lemma edit_right:
  assumes "edit_ok lim st (ins, l, d # r)"
  shows "rd (ebuf st) (num st) = Some d"
    and "edit_ok lim (emit [d] (st\<lparr>num := num st + 1\<rparr>)) (ins, l @ [d], r)"
proof -
  obtain rest k where s: "ebuf st = l @ (d # r) @ rest" "lim < length (ebuf st)" "insert_mode st = ins"
    "num st = length l" "eol_num st = length l + length (d # r)" "length l + length (d # r) \<le> lim"
    "\<forall>c \<in> set (l @ (d # r)). printable c" "0 < lim" "esc_len st = 0"
    "tty_run ([], 0) (tty st) = (l @ (d # r) @ replicate k 0x20, length l)"
    using assms by (rule edit_okE) blast
  show "rd (ebuf st) (num st) = Some d" using s(1,4) by simp
  have "tty_run (l @ [d] @ (r @ replicate k 0x20), length l) [d]
      = (l @ [d] @ (r @ replicate k 0x20), length l + length [d])"
    using s(7) by (intro tty_run_text) simp_all
  then show "edit_ok lim (emit [d] (st\<lparr>num := num st + 1\<rparr>)) (ins, l @ [d], r)"
    using s by (intro edit_okI [where rest = rest and k = k]) auto
qed

lemma edit_esc: "edit_ok lim st e \<Longrightarrow> esc_len st = 0"
  by (auto simp: edit_ok_def split: prod.splits)

lemma edit_num: "edit_ok lim st (ins, l, r) \<Longrightarrow> num st = length l \<and> eol_num st = length l + length r \<and> insert_mode st = ins"
  by (auto simp: edit_ok_def)

lemma edit_toggle: "edit_ok lim st (ins, l, r) \<Longrightarrow> edit_ok lim (st\<lparr>insert_mode := \<not> insert_mode st\<rparr>) (\<not> ins, l, r)"
  by (auto simp: edit_ok_def)

lemma not_printable_control:
  "printable c \<Longrightarrow> c \<notin> {0x01, 0x02, 0x03, 0x04, 0x05, 0x06, 0x08, 0x09, 0x0a, 0x0b, 0x0d, 0x0e, 0x0f, 0x10, 0x15, 0x18, 0x1b}"
  by (auto simp: printable_def word_le_nat_alt)

lemma cread_key_edit:
  assumes "edit_ok lim st (ins, l, r)" "edit_char c"
  shows "\<exists>st'. cread_key complete prompt lim c st = Some (Editing st') \<and> edit_ok lim st' (edit_step lim c (ins, l, r))"
proof -
  note nums = edit_num [OF assms(1)] and esc = edit_esc [OF assms(1)]
  have key: "cread_key complete prompt lim c st = cread_switch complete prompt lim c st"
    using assms(2) esc not_printable_control [of c] by (auto simp: cread_key_def edit_char_def)
  consider (home) "c = 0x01" | (fin) "c = 0x05" | (left) "c = 0x02" | (right) "c = 0x06" | (del) "c = 0x04"
    | (kill) "c = 0x0b" | (clear) "c = 0x15 \<or> c = 0x18" | (bs) "c = 0x08 \<or> c = 0x7f \<or> c = 0xff" | (toggle) "c = 0x0f"
    | (char) "printable c" "c \<noteq> 0x7f" "c \<noteq> 0xff"
    using assms(2) by (auto simp: edit_char_def)
  then show ?thesis
  proof cases
    case home
    then show ?thesis using key edit_home [OF assms(1)] by (simp add: cread_switch_def)
  next
    case fin
    then show ?thesis using key edit_end [OF assms(1)] by (simp add: cread_switch_def)
  next
    case left
    then show ?thesis using key nums assms(1) edit_left [OF assms(1)]
      by (cases "l = []") (simp_all add: cread_switch_def)
  next
    case right
    show ?thesis
    proof (cases r)
      case Nil
      then show ?thesis using right key nums assms(1) by (simp add: cread_switch_def)
    next
      case (Cons d r')
      then show ?thesis
        using right key nums edit_right [of lim st ins l d r'] assms(1) by (simp add: cread_switch_def)
    qed
  next
    case del
    obtain st' where "cread_delete_at st = Some st'" "edit_ok lim st' (ins, l, tl r)"
      using edit_delete [OF assms(1)] by blast
    then show ?thesis using key del by (simp add: cread_switch_def)
  next
    case kill
    then show ?thesis using key edit_erase [OF assms(1)] by (simp add: cread_switch_def)
  next
    case clear
    have "edit_ok lim (erase_to_eol (beginning_of_line st)) (ins, [], [])"
      using edit_erase [OF edit_home [OF assms(1)]] .
    moreover have "cread_switch complete prompt lim c st
        = Some (Editing (erase_to_eol (beginning_of_line st)))"
      using clear by (elim disjE) (simp_all add: cread_switch_def)
    moreover have "edit_step lim c (ins, l, r) = (ins, [], [])"
      using clear by (elim disjE) simp_all
    ultimately show ?thesis using key by simp
  next
    case bs
    obtain st' where st': "cread_backspace st = Some st'"
      "edit_ok lim st' (if l = [] then (ins, l, r) else (ins, butlast l, r))"
      using edit_backspace [OF assms(1)] by blast
    moreover have "cread_switch complete prompt lim c st = Some (Editing st')"
      using bs st'(1) by (elim disjE) (simp_all add: cread_switch_def)
    moreover have "edit_step lim c (ins, l, r) = (if l = [] then (ins, l, r) else (ins, butlast l, r))"
      using bs by (elim disjE) simp_all
    ultimately show ?thesis using key by simp
  next
    case toggle
    then show ?thesis using key edit_toggle [OF assms(1)] nums by (simp add: cread_switch_def)
  next
    case char
    note ctl = not_printable_control [OF char(1)]
    have sw: "cread_switch complete prompt lim c st = map_option Editing (cread_add_char lim ins c st)"
      using ctl char nums by (simp add: cread_switch_def)
    have step: "edit_step lim c (ins, l, r) =
       (if ins \<or> r = []
        then (if length l + length r < lim then (ins, l @ [c], r) else (ins, l, r))
        else (ins, l @ [c], tl r))"
      using ctl char by simp
    have "\<exists>st'. cread_add_char lim ins c st = Some st' \<and> edit_ok lim st' (edit_step lim c (ins, l, r))"
    proof (cases "ins \<or> r = []")
      case True
      then show ?thesis unfolding step using edit_insert [OF assms(1) char(1) True] by (simp only: if_True)
    next
      case False
      then have "ins = False" by simp
      with False show ?thesis
        unfolding step using edit_overwrite [of lim st l r c] assms(1) char(1) by simp
    qed
    then obtain st' where "cread_add_char lim ins c st = Some st'" "edit_ok lim st' (edit_step lim c (ins, l, r))"
      by blast
    then show ?thesis unfolding key sw by (intro exI [of _ st']) simp
  qed
qed

text \<open>C19:
  The key handler implements a plain editor on a line split at the cursor: after any sequence of
  printable characters and editing keys, in insert or overwrite mode, the buffer holds exactly the
  text that the editor holds, within the limit, and the bytes sent to the terminal have drawn
  exactly this text with the cursor at the editing position.\<close>

theorem cread_loop_edits:
  assumes "edit_ok lim st e" "\<forall>c \<in> set keys. edit_char c"
  shows "\<exists>st'. cread_loop complete prompt lim keys st = Some (Inl st') \<and> edit_ok lim st' (fold (edit_step lim) keys e)"
  using assms
proof (induction keys arbitrary: st e)
  case (Cons c keys)
  obtain ins l r where e: "e = (ins, l, r)" by (cases e)
  obtain st' where st': "cread_key complete prompt lim c st = Some (Editing st')"
    "edit_ok lim st' (edit_step lim c e)"
    using cread_key_edit [of lim st ins l r c complete prompt] Cons.prems unfolding e by auto
  from Cons.IH [OF st'(2)] Cons.prems(2) st'(1) show ?case by simp
qed simp

definition fresh_cread :: "nat \<Rightarrow> hist \<Rightarrow> cread" where
  "fresh_cread n h = \<lparr>ebuf = replicate n 0, num = 0, eol_num = 0, insert_mode = True, esc_len = 0,
     esc_save = replicate 8 0, history = h, tty = []\<rparr>"

lemma fresh_ok: "0 < lim \<Longrightarrow> lim < n \<Longrightarrow> edit_ok lim (fresh_cread n h) (True, [], [])"
  by (intro edit_okI [where rest = "replicate n 0" and k = 0]) (simp_all add: fresh_cread_def)

theorem cread_loop_edits_witness:
  "\<exists>st'. cread_loop (\<lambda>_ _ _ _. Some None) [] 4 [0x61, 0x62, 0x02, 0x63] (fresh_cread 8 hist_init) = Some (Inl st')
    \<and> edit_ok 4 st' (True, [0x61, 0x63], [0x62])"
  using cread_loop_edits [OF fresh_ok [of 4 8 hist_init], of "[0x61, 0x62, 0x02, 0x63]" "\<lambda>_ _ _ _. Some None" "[]"]
  by (simp add: edit_char_def printable_def)


section \<open>Every key stays in bounds\<close>

definition hist_ok :: "nat \<Rightarrow> hist \<Rightarrow> bool" where
  "hist_ok lim h \<longleftrightarrow> length (hist_list h) = HIST_MAX \<and> hist_add_idx h < HIST_MAX \<and> hist_max h < HIST_MAX
     \<and> hist_cur h < int HIST_MAX \<and> (\<forall>line \<in> set (hist_list h). length line \<le> lim)"

definition cread_ok :: "nat \<Rightarrow> cread \<Rightarrow> bool" where
  "cread_ok lim st \<longleftrightarrow> num st \<le> eol_num st \<and> eol_num st \<le> lim \<and> lim < length (ebuf st) \<and> 0 < lim
     \<and> esc_len st \<le> 2 \<and> length (esc_save st) = 8 \<and> hist_ok lim (history st)"

text \<open>What the editor needs of completion: the buffer keeps its size, the index its limit.\<close>

definition completer_ok :: "nat \<Rightarrow> completer \<Rightarrow> bool" where
  "completer_ok lim complete \<longleftrightarrow>
     (\<forall>prompt buf n col buf' n' out. n \<le> lim \<longrightarrow> complete prompt buf n col = Some (Some (buf', n', out))
        \<longrightarrow> length buf' = length buf \<and> n' \<le> lim)"

text \<open>The call that TAB makes, and whether it is defined.\<close>

definition tab_defined :: "completer \<Rightarrow> u8 list \<Rightarrow> cread \<Rightarrow> bool" where
  "tab_defined complete prompt st \<longleftrightarrow>
     num st < eol_num st \<or> complete prompt ((ebuf st)[num st := 0]) (num st) (length prompt + eol_num st) \<noteq> None"

lemma hist_init_ok: "hist_ok lim hist_init"
  by (simp add: hist_ok_def hist_init_def HIST_MAX_def)

lemma add_to_hist_ok:
  assumes "hist_ok lim h" "length line \<le> lim" "lim < HIST_SIZE"
  obtains h' where "cread_add_to_hist line h = Some h'" "hist_ok lim h'"
proof -
  have h: "length (hist_list h) = HIST_MAX" "hist_add_idx h < HIST_MAX" "hist_max h < HIST_MAX"
    "\<forall>l \<in> set (hist_list h). length l \<le> lim"
    using assms(1) by (auto simp: hist_ok_def)
  let ?lines = "(hist_list h)[hist_add_idx h := line]"
  have lines: "\<forall>l \<in> set ?lines. length l \<le> lim"
    using set_update_subset_insert [of "hist_list h" "hist_add_idx h" line] h(4) assms(2) by blast
  define add where "add = (if HIST_MAX \<le> hist_add_idx h + 1 then 0 else hist_add_idx h + 1)"
  have add: "add < HIST_MAX" by (simp add: add_def HIST_MAX_def)
  define h' where "h' = h\<lparr>hist_list := ?lines, hist_add_idx := add,
    hist_max := (if hist_max h < add then add else hist_max h), hist_num := hist_num h + 1\<rparr>"
  have "cread_add_to_hist line h = Some h'"
    using h(1,2) assms(2,3) by (simp add: cread_add_to_hist_def Let_def h'_def add_def)
  moreover have "hist_ok lim h'"
    using assms(1) lines add by (simp add: hist_ok_def h'_def)
  ultimately show ?thesis by (rule that)
qed

lemma hist_prev_ok:
  assumes "hist_ok lim h" "hist_prev h = (l, h')"
  shows "hist_ok lim h' \<and> (\<forall>line. l = Some line \<longrightarrow> length line \<le> lim)"
proof -
  have nth: "length (hist_list h ! nat i) \<le> lim" if "0 \<le> i" "i < int HIST_MAX" for i
    using assms(1) that by (auto simp: hist_ok_def nat_less_iff)
  then show ?thesis
    using assms by (auto simp: hist_prev_def hist_ok_def Let_def split: if_splits)
qed

lemma hist_next_ok:
  assumes "hist_ok lim h" "hist_next h = (l, h')"
  shows "hist_ok lim h' \<and> (\<forall>line. l = Some line \<longrightarrow> length line \<le> lim)"
proof -
  have nth: "length (hist_list h ! nat i) \<le> lim" if "0 \<le> i" "i < int HIST_MAX" for i
    using assms(1) that by (auto simp: hist_ok_def nat_less_iff)
  then show ?thesis
    using assms by (auto simp: hist_next_def hist_ok_def Let_def split: if_splits)
qed

lemma memmove_Some:
  assumes "d + n \<le> length mem" "s + n \<le> length mem"
  shows "\<exists>mem'. memmove mem d s n = Some mem' \<and> length mem' = length mem"
proof -
  obtain mem' where "put_at mem d (take n (drop s mem)) = Some mem'"
    using assms by (auto simp: put_at_def)
  then show ?thesis using memmove_eq [OF assms] put_at_length by auto
qed

lemma add_char_ok:
  assumes "cread_ok lim st"
  obtains st' where "cread_add_char lim ins c st = Some st'" "cread_ok lim st'" "esc_save st' = esc_save st"
    "esc_len st' = esc_len st"
proof -
  have b: "num st \<le> eol_num st" "eol_num st \<le> lim" "lim < length (ebuf st)" "0 < lim"
    using assms by (auto simp: cread_ok_def)
  define grow where "grow = (ins \<or> num st = eol_num st)"
  have "\<exists>st'. cread_add_char lim ins c st = Some st' \<and> cread_ok lim st' \<and> esc_save st' = esc_save st
    \<and> esc_len st' = esc_len st"
  proof (cases "grow \<and> lim - 1 < eol_num st")
    case True
    then show ?thesis
      using assms by (auto simp: cread_add_char_def grow_def getcmd_cbeep_def cread_ok_def)
  next
    case False
    show ?thesis
    proof (cases ins)
      case True
      with False have e: "eol_num st < lim" using b by (auto simp: grow_def)
      have n: "num st < length (ebuf st)" and nlt: "\<not> lim - Suc 0 < eol_num st" using b e by auto
      show ?thesis
      proof (cases "num st = eol_num st")
        case eq: True
        show ?thesis
          using True eq n nlt e assms by (simp add: cread_add_char_def Let_def cread_ok_def)
      next
        case False
        have "\<exists>buf. memmove (ebuf st) (Suc (num st)) (num st) (eol_num st - num st) = Some buf
          \<and> length buf = length (ebuf st)"
          using b e False by (intro memmove_Some) simp_all
        then obtain buf where "memmove (ebuf st) (Suc (num st)) (num st) (eol_num st - num st) = Some buf"
          "length buf = length (ebuf st)" by blast
        moreover have "Suc 0 < Suc (eol_num st) - num st" using b(1) False by simp
        ultimately show ?thesis
          using True n nlt e assms by (simp add: cread_add_char_def Let_def cread_ok_def)
      qed
    next
      case ov: False
      show ?thesis
        using ov False b assms unfolding cread_add_char_def Let_def
        by (auto simp: grow_def cread_ok_def)
    qed
  qed
  then show ?thesis using that by blast
qed

lemma add_str_ok:
  assumes "cread_ok lim st"
  obtains st' where "cread_add_str lim ins str st = Some st'" "cread_ok lim st'" "esc_save st' = esc_save st"
    "esc_len st' = esc_len st"
proof -
  have "\<exists>st'. cread_add_str lim ins str st = Some st' \<and> cread_ok lim st' \<and> esc_save st' = esc_save st
    \<and> esc_len st' = esc_len st"
    using assms
  proof (induction str arbitrary: st)
    case (Cons c str)
    obtain s1 where "cread_add_char lim ins c st = Some s1" "cread_ok lim s1" "esc_save s1 = esc_save st"
      "esc_len s1 = esc_len st"
      using add_char_ok [OF Cons.prems] .
    then show ?case using Cons.IH [of s1] by auto
  qed simp
  then show ?thesis using that by blast
qed

lemma bol_ok: "cread_ok lim st \<Longrightarrow> cread_ok lim (beginning_of_line st)"
  by (simp add: cread_ok_def beginning_of_line_def)

lemma erase_ok: "cread_ok lim st \<Longrightarrow> cread_ok lim (erase_to_eol st)"
  by (simp add: cread_ok_def erase_to_eol_def Let_def)

lemma refresh_ok: "cread_ok lim st \<Longrightarrow> cread_ok lim (refresh_to_eol st)"
  by (simp add: cread_ok_def refresh_to_eol_def)

lemma delete_ok:
  assumes "cread_ok lim st"
  shows "\<exists>st'. cread_delete_at st = Some st' \<and> cread_ok lim st'"
proof (cases "num st < eol_num st")
  case True
  have b: "eol_num st \<le> lim" "lim < length (ebuf st)" using assms by (auto simp: cread_ok_def)
  have "\<exists>buf. memmove (ebuf st) (num st) (num st + 1) (eol_num st - num st - 1) = Some buf
    \<and> length buf = length (ebuf st)"
    using True b by (intro memmove_Some) simp_all
  then obtain buf where "memmove (ebuf st) (num st) (num st + 1) (eol_num st - num st - 1) = Some buf"
    "length buf = length (ebuf st)" by blast
  then show ?thesis using True assms by (auto simp: cread_delete_at_def Let_def cread_ok_def)
next
  case False
  then show ?thesis using assms by (simp add: cread_delete_at_def)
qed

lemma backspace_ok:
  assumes "cread_ok lim st"
  shows "\<exists>st'. cread_backspace st = Some st' \<and> cread_ok lim st'"
proof (cases "num st = 0")
  case False
  have b: "num st \<le> eol_num st" "eol_num st \<le> lim" "lim < length (ebuf st)" using assms by (auto simp: cread_ok_def)
  have "\<exists>buf. memmove (ebuf st) (num st - 1) (num st - 1 + 1) (eol_num st - num st) = Some buf
    \<and> length buf = length (ebuf st)"
    using False b by (intro memmove_Some) simp_all
  then obtain buf where "memmove (ebuf st) (num st - 1) (num st - 1 + 1) (eol_num st - num st) = Some buf"
    "length buf = length (ebuf st)" by blast
  then show ?thesis using False assms by (auto simp: cread_backspace_def Let_def cread_ok_def)
next
  case True
  then show ?thesis using assms by (simp add: cread_backspace_def)
qed

lemma recall_ok:
  assumes "cread_ok lim st"
  shows "\<exists>st'. cread_recall up st = Some st' \<and> cread_ok lim st'"
proof -
  obtain l h where lh: "(if up then hist_prev (history st) else hist_next (history st)) = (l, h)" by fastforce
  have h: "hist_ok lim h" "\<forall>line. l = Some line \<longrightarrow> length line \<le> lim"
    using lh assms hist_prev_ok [of lim "history st" l h] hist_next_ok [of lim "history st" l h]
    by (auto simp: cread_ok_def split: if_splits)
  let ?st = "st\<lparr>esc_len := 0, history := h\<rparr>"
  have ok: "cread_ok lim ?st" using assms h(1) by (simp add: cread_ok_def)
  show ?thesis
  proof (cases l)
    case None
    have "cread_ok lim (getcmd_cbeep ?st)" using ok by (simp add: getcmd_cbeep_def cread_ok_def)
    then show ?thesis using lh None by (simp add: cread_recall_def)
  next
    case (Some line)
    let ?s2 = "erase_to_eol (beginning_of_line ?st)"
    have ok2: "cread_ok lim ?s2" by (intro erase_ok bol_ok ok)
    have buf2: "ebuf ?s2 = ebuf st" "num ?s2 = 0"
      by (simp_all add: erase_to_eol_def beginning_of_line_def Let_def)
    have len: "length line + 1 \<le> length (ebuf st)" using h(2) Some assms by (auto simp: cread_ok_def)
    then obtain buf where put: "put_at (ebuf st) 0 (line @ [0]) = Some buf" by (auto simp: put_at_def)
    have "cread_ok lim (?s2\<lparr>ebuf := buf, eol_num := length line\<rparr>)"
      using ok2 put_at_length [OF put] h(2) Some buf2 by (simp add: cread_ok_def)
    then have "cread_ok lim (refresh_to_eol (?s2\<lparr>ebuf := buf, eol_num := length line\<rparr>))"
      by (rule refresh_ok)
    then show ?thesis using lh Some put buf2(1) by (simp add: cread_recall_def Let_def)
  qed
qed

lemma tab_ok:
  assumes "cread_ok lim st" "completer_ok lim complete" "tab_defined complete prompt st"
  shows "\<exists>st'. cread_tab complete prompt st = Some st' \<and> cread_ok lim st'"
proof (cases "num st < eol_num st")
  case True
  then show ?thesis using assms(1) by (simp add: cread_tab_def getcmd_cbeep_def cread_ok_def)
next
  case False
  have n: "num st = eol_num st" "num st \<le> lim" "num st < length (ebuf st)"
    using False assms(1) by (auto simp: cread_ok_def)
  let ?buf = "(ebuf st)[num st := 0]"
  obtain r where c: "complete prompt ?buf (num st) (length prompt + eol_num st) = Some r"
    using assms(3) False by (auto simp: tab_defined_def)
  show ?thesis
  proof (cases r)
    case None
    then show ?thesis using False c n assms(1) by (simp add: cread_tab_def cread_ok_def)
  next
    case (Some x)
    obtain buf' n' out where x: "x = (buf', n', out)" by (cases x)
    have "length buf' = length (ebuf st)" "n' \<le> lim"
      using assms(2) c Some n(2) unfolding completer_ok_def x by (metis length_list_update)+
    then show ?thesis using c Some x False n assms(1) by (simp add: cread_tab_def cread_ok_def)
  qed
qed

text \<open>A key was handled, in bounds, and the line is not finished.\<close>

definition key_ok :: "nat \<Rightarrow> key_result option \<Rightarrow> bool" where
  "key_ok lim x \<longleftrightarrow> (\<exists>st. x = Some (Editing st) \<and> cread_ok lim st) \<or> (\<exists>st. x = Some (Interrupted st))"

lemma key_ok_if: "(P \<Longrightarrow> key_ok lim a) \<Longrightarrow> (\<not> P \<Longrightarrow> key_ok lim b) \<Longrightarrow> key_ok lim (if P then a else b)"
  by simp

lemma key_okI: "cread_ok lim st \<Longrightarrow> key_ok lim (Some (Editing st))"
  by (simp add: key_ok_def)

lemma key_ok_map: "\<exists>st'. x = Some st' \<and> cread_ok lim st' \<Longrightarrow> key_ok lim (map_option Editing x)"
  by (auto simp: key_ok_def)

lemma switch_ok:
  assumes "cread_ok lim st" "completer_ok lim complete" "c = 0x09 \<Longrightarrow> tab_defined complete prompt st"
  shows "key_ok lim (cread_switch complete prompt lim c st)"
proof -
  have b: "num st \<le> eol_num st" "eol_num st \<le> lim" "lim < length (ebuf st)" using assms(1) by (auto simp: cread_ok_def)
  have ac: "\<exists>st'. cread_add_char lim (insert_mode st) c st = Some st' \<and> cread_ok lim st'"
    using add_char_ok [OF assms(1), of "insert_mode st" c] by blast
  show ?thesis
    unfolding cread_switch_def
  proof (intro key_ok_if)
    show "key_ok lim (map_option (\<lambda>buf. Interrupted (st\<lparr>ebuf := buf\<rparr>)) (wr (ebuf st) 0 0))"
      using b by (auto simp: key_ok_def wr_def)
    show "key_ok lim (map_option (\<lambda>c. Editing (emit [c] (st\<lparr>num := num st + 1\<rparr>))) (rd (ebuf st) (num st)))"
      if "num st < eol_num st"
      using that b assms(1) by (auto simp: key_ok_def cread_ok_def rd_def)
  qed (use assms(1) ac in \<open>auto intro!: key_okI key_ok_map bol_ok erase_ok refresh_ok delete_ok backspace_ok
        recall_ok tab_ok [OF assms(1,2)] simp: assms(3) cread_ok_def [of lim "st\<lparr>esc_len := 0\<rparr>"]
        cread_ok_def [of lim "st\<lparr>esc_save := _, esc_len := _\<rparr>"] cread_ok_def [of lim "emit _ _"]
        cread_ok_def [of lim "st\<lparr>insert_mode := _\<rparr>"] cread_ok_def [of lim st]\<close>)
qed


text \<open>The pending escape sequence does not concern the insertion of characters.\<close>

lemma add_char_esc:
  "cread_add_char lim ins c (st\<lparr>esc_len := k\<rparr>)
     = map_option (\<lambda>s. s\<lparr>esc_len := k\<rparr>) (cread_add_char lim ins c st)"
  by (cases "ins \<or> num st = eol_num st"; cases "lim - 1 < eol_num st"; cases ins)
    (auto simp: cread_add_char_def getcmd_cbeep_def emit_def Let_def map_option_bind intro!: Option.bind_cong)

lemma add_str_esc:
  "cread_add_str lim ins str (st\<lparr>esc_len := k\<rparr>)
     = map_option (\<lambda>s. s\<lparr>esc_len := k\<rparr>) (cread_add_str lim ins str st)"
proof (induction str arbitrary: st)
  case (Cons c str)
  then show ?case by (cases "cread_add_char lim ins c st") (simp_all add: add_char_esc)
qed simp

lemma flush_ok:
  assumes "cread_ok lim st"
  shows "key_ok lim (map_option (\<lambda>s. Editing (s\<lparr>esc_len := 0\<rparr>)) (cread_add_str lim ins str (st\<lparr>esc_len := k\<rparr>)))"
proof -
  obtain s' where "cread_add_str lim ins str st = Some s'" "cread_ok lim s'" using add_str_ok [OF assms] by blast
  then show ?thesis by (simp add: add_str_esc key_ok_def cread_ok_def)
qed

lemma flush_ok0:
  assumes "cread_ok lim st"
  shows "key_ok lim (map_option (\<lambda>s. Editing (s\<lparr>esc_len := 0\<rparr>)) (cread_add_str lim ins str st))"
  using flush_ok [OF assms, of ins str "esc_len st"] by simp

lemma esc_key_not_tab: "esc_key c = Some key \<Longrightarrow> key \<noteq> 0x09"
  by (auto simp: esc_key_def split: if_splits)

lemma cread_key_ok:
  assumes "cread_ok lim st" "completer_ok lim complete" "c = 0x09 \<Longrightarrow> tab_defined complete prompt st"
  shows "(\<exists>st'. cread_key complete prompt lim c st = Some (Entered st') \<and> cread_ok lim st')
    \<or> key_ok lim (cread_key complete prompt lim c st)"
proof (cases "c = 0x0a \<or> c = 0x0d")
  case True
  have "cread_ok lim (emit [0x0a] st)" using assms(1) by (simp add: cread_ok_def)
  then show ?thesis using True by (simp add: cread_key_def)
next
  case nl: False
  have esc: "esc_len st = 0 \<or> esc_len st = 1 \<or> esc_len st = 2" using assms(1) unfolding cread_ok_def by linarith
  consider "esc_len st = 0" | "esc_len st = 1" "c = 0x5b" | "esc_len st = 1" "c \<noteq> 0x5b" | "esc_len st = 2"
    using esc by metis
  then have "key_ok lim (cread_key complete prompt lim c st)"
  proof cases
    case 1
    then show ?thesis using nl switch_ok [OF assms] by (simp add: cread_key_def)
  next
    case 2
    have "cread_ok lim (st\<lparr>esc_save := (esc_save st)[1 := c], esc_len := 2\<rparr>)"
      using assms(1) by (simp add: cread_ok_def)
    then show ?thesis using 2 nl by (simp add: cread_key_def key_okI)
  next
    case 3
    then show ?thesis using nl flush_ok0 [OF assms(1)] by (simp add: cread_key_def)
  next
    case 4
    show ?thesis
    proof (cases "esc_key c")
      case None
      have "cread_ok lim (st\<lparr>esc_save := (esc_save st)[2 := c]\<rparr>)" using assms(1) by (simp add: cread_ok_def)
      from flush_ok [OF this, of "insert_mode st" "take 3 ((esc_save st)[2 := c])" 3]
      show ?thesis using nl 4 None by (simp add: cread_key_def Let_def)
    next
      case (Some key)
      have "cread_ok lim (st\<lparr>esc_len := 0\<rparr>)" using assms(1) by (simp add: cread_ok_def)
      then show ?thesis using nl 4 Some esc_key_not_tab [OF Some] switch_ok [OF _ assms(2)] by (simp add: cread_key_def)
    qed
  qed
  then show ?thesis by blast
qed

lemma takeWhile_stop: "n < length xs \<Longrightarrow> \<not> P (xs ! n) \<Longrightarrow> length (takeWhile P xs) \<le> n"
  by (metis leI nth_mem set_takeWhileD takeWhile_nth)

lemma cread_finish_ok:
  assumes "cread_ok lim st" "lim < HIST_SIZE"
  shows "\<exists>st'. cread_finish st = Some (0, eol_num st, st') \<and> cread_ok lim st'"
proof -
  have b: "eol_num st < length (ebuf st)" "eol_num st \<le> lim" "hist_ok lim (history st)"
    using assms(1) by (auto simp: cread_ok_def)
  define buf where "buf = (ebuf st)[eol_num st := 0]"
  define line where "line = takeWhile (\<lambda>c. c \<noteq> 0) buf"
  have w: "wr (ebuf st) (eol_num st) 0 = Some buf" using b(1) by (simp add: buf_def wr_def)
  have len: "length line \<le> eol_num st"
    unfolding line_def by (rule takeWhile_stop) (use b(1) in \<open>simp_all add: buf_def\<close>)
  have "length line \<le> lim" using len b(2) by simp
  from add_to_hist_ok [OF b(3) this assms(2)] obtain h0 where
    "cread_add_to_hist line (history st) = Some h0" "hist_ok lim h0" .
  then obtain h where h: "(if line \<noteq> [] \<and> hd line \<noteq> 0x21 then cread_add_to_hist line (history st)
      else Some (history st)) = Some h" "hist_ok lim h"
    using b(3) by (cases "line \<noteq> [] \<and> hd line \<noteq> 0x21") auto
  have "hist_ok lim (h\<lparr>hist_cur := int (hist_add_idx h)\<rparr>)" using h(2) by (simp add: hist_ok_def)
  then have "cread_ok lim (st\<lparr>ebuf := buf, history := h\<lparr>hist_cur := int (hist_add_idx h)\<rparr>\<rparr>)"
    using assms(1) by (simp add: cread_ok_def buf_def)
  moreover have "cread_finish st = Some (0, eol_num st, st\<lparr>ebuf := buf, history := h\<lparr>hist_cur := int (hist_add_idx h)\<rparr>\<rparr>)"
    unfolding cread_finish_def w Let_def line_def [symmetric] bind.bind_lunit h(1) ..
  ultimately show ?thesis by blast
qed

text \<open>The editor stays in bounds up to a TAB at which completion does not.\<close>

lemma cread_loop_safe_lemma:
  assumes "cread_ok lim st" "lim < HIST_SIZE" "completer_ok lim complete"
  shows "(\<exists>r. cread_loop complete prompt lim keys st = Some r
      \<and> (case r of Inl st' \<Rightarrow> cread_ok lim st' | Inr (rc, len, st') \<Rightarrow> len \<le> lim))
    \<or> (\<exists>keys1 keys2 st'. keys = keys1 @ 0x09 # keys2 \<and> cread_loop complete prompt lim keys1 st = Some (Inl st')
      \<and> cread_ok lim st' \<and> \<not> tab_defined complete prompt st')"
  using assms(1)
proof (induction keys arbitrary: st)
  case (Cons c keys)
  show ?case
  proof (cases "c = 0x09 \<and> \<not> tab_defined complete prompt st")
    case True
    then show ?thesis using Cons.prems
      by (intro disjI2 exI [of _ "[]"] exI [of _ keys] exI [of _ st]) simp
  next
    case False
    then have "(\<exists>st'. cread_key complete prompt lim c st = Some (Entered st') \<and> cread_ok lim st')
        \<or> key_ok lim (cread_key complete prompt lim c st)"
      by (intro cread_key_ok [OF Cons.prems assms(3)]) blast
    then show ?thesis
    proof
      assume "\<exists>st'. cread_key complete prompt lim c st = Some (Entered st') \<and> cread_ok lim st'"
      then obtain st' where k: "cread_key complete prompt lim c st = Some (Entered st')" "cread_ok lim st'" by blast
      obtain st'' where "cread_finish st' = Some (0, eol_num st', st'')"
        using cread_finish_ok [OF k(2) assms(2)] by blast
      then show ?thesis using k by (simp add: cread_ok_def)
    next
      assume "key_ok lim (cread_key complete prompt lim c st)"
      then consider st' where "cread_key complete prompt lim c st = Some (Editing st')" "cread_ok lim st'"
        | st' where "cread_key complete prompt lim c st = Some (Interrupted st')"
        by (auto simp: key_ok_def)
      then show ?thesis
      proof cases
        case (1 st')
        from Cons.IH [OF 1(2)] show ?thesis
        proof
          assume "\<exists>keys1 keys2 st''. keys = keys1 @ 0x09 # keys2 \<and> cread_loop complete prompt lim keys1 st' = Some (Inl st'')
            \<and> cread_ok lim st'' \<and> \<not> tab_defined complete prompt st''"
          then obtain keys1 keys2 st'' where "keys = keys1 @ 0x09 # keys2"
            "cread_loop complete prompt lim keys1 st' = Some (Inl st'')" "cread_ok lim st''" "\<not> tab_defined complete prompt st''"
            by blast
          then show ?thesis using 1(1)
            by (intro disjI2 exI [of _ "c # keys1"] exI [of _ keys2] exI [of _ st'']) simp
        qed (use 1(1) in simp)
      next
        case 2
        then show ?thesis by simp
      qed
    qed
  qed
qed simp

text \<open>Bounds of the editor: with a limit below the size of a history row and a buffer larger than
  the limit, no sequence of characters whatever (escape sequences, history, completion, control
  characters, binary input) makes it touch memory outside the buffer, the history or the escape
  array, as long as completion does not do so itself; a finished line is never longer than the limit.\<close>

theorem cread_loop_safe:
  assumes "cread_ok lim st" "lim < HIST_SIZE" "completer_ok lim complete"
    and "\<And>keys1 keys2 st'. keys = keys1 @ 0x09 # keys2 \<Longrightarrow> cread_loop complete prompt lim keys1 st = Some (Inl st')
      \<Longrightarrow> tab_defined complete prompt st'"
  shows "\<exists>r. cread_loop complete prompt lim keys st = Some r
    \<and> (case r of Inl st' \<Rightarrow> cread_ok lim st' | Inr (rc, len, st') \<Rightarrow> len \<le> lim)"
  using cread_loop_safe_lemma [OF assms(1-3), of prompt keys] assms(4) by blast

lemma fresh_cread_ok: "0 < lim \<Longrightarrow> lim < n \<Longrightarrow> cread_ok lim (fresh_cread n hist_init)"
  by (simp add: cread_ok_def fresh_cread_def hist_init_ok)

theorem cread_loop_safe_witness:
  "\<exists>r. cread_loop (\<lambda>_ _ _ _. Some None) [] 255 [0x61, 0x1b, 0x5b, 0x41, 0x0d] (fresh_cread 256 hist_init) = Some r"
proof -
  have "completer_ok 255 (\<lambda>_ _ _ _. Some None)" by (simp add: completer_ok_def)
  then show ?thesis
    using cread_loop_safe [OF fresh_cread_ok [of 255 256], of "\<lambda>_ _ _ _. Some None" "[0x61, 0x1b, 0x5b, 0x41, 0x0d]" "[]"]
    by (auto simp: HIST_SIZE_def tab_defined_def)
qed

section \<open>The overrun\<close>

definition plain_char :: "u8 \<Rightarrow> bool" where
  "plain_char c \<longleftrightarrow> printable c \<and> c \<noteq> 0x7f \<and> c \<noteq> 0xff"

lemma cread_loop_append:
  "cread_loop complete prompt lim (xs @ ys) st = (case cread_loop complete prompt lim xs st of
      None \<Rightarrow> None | Some (Inl st) \<Rightarrow> cread_loop complete prompt lim ys st | Some (Inr r) \<Rightarrow> Some (Inr r))"
  by (induction xs arbitrary: st) (auto split: Option.bind_splits key_result.splits option.splits)

lemma typed:
  assumes "\<forall>c \<in> set ks. plain_char c" "length ks \<le> lim" "length (ebuf st) = lim" "num st = 0" "eol_num st = 0"
    "insert_mode st" "esc_len st = 0"
  shows "\<exists>st'. cread_loop complete prompt lim ks st = Some (Inl st') \<and> num st' = length ks
    \<and> eol_num st' = length ks \<and> length (ebuf st') = lim \<and> insert_mode st' \<and> esc_len st' = 0"
  using assms
proof (induction ks rule: rev_induct)
  case (snoc c ks)
  obtain st' where st': "cread_loop complete prompt lim ks st = Some (Inl st')" "num st' = length ks"
    "eol_num st' = length ks" "length (ebuf st') = lim" "insert_mode st'" "esc_len st' = 0"
    using snoc by auto
  have c: "printable c" "c \<noteq> 0x7f" "c \<noteq> 0xff" using snoc.prems(1) by (auto simp: plain_char_def)
  note ctl = not_printable_control [OF c(1)]
  have key: "cread_key complete prompt lim c st' = map_option Editing (cread_add_char lim True c st')"
    using ctl c st'(5,6) by (simp add: cread_key_def cread_switch_def)
  have "\<exists>s. cread_add_char lim True c st' = Some s \<and> num s = length ks + 1 \<and> eol_num s = length ks + 1
    \<and> length (ebuf s) = lim \<and> insert_mode s \<and> esc_len s = 0"
  proof -
    have "length ks < lim" "\<not> lim - Suc 0 < length ks" using snoc.prems(2) by auto
    then show ?thesis using st' by (simp add: cread_add_char_def Let_def)
  qed
  then show ?case using key st'(1) by (auto simp: cread_loop_append)
qed simp

text \<open>With the sizes of the code the editor overruns its buffer: the limit passed is 256 and so is the
  size of the console buffer, so after 256 characters the terminator of the line is written one
  byte past the end.\<close>

theorem readline_overrun:
  assumes "length keys = 256" "\<forall>c \<in> set keys. plain_char c" "length console_buffer = CONFIG_SYS_CBSIZE"
  shows "readline complete prompt h console_buffer (keys @ [0x0d]) = None"
proof -
  let ?buf = "console_buffer[0 := 0]"
  let ?st = "\<lparr>ebuf = ?buf, num = 0, eol_num = 0, insert_mode = True, esc_len = 0,
    esc_save = replicate 8 0, history = h, tty = []\<rparr>"
  have ne: "console_buffer \<noteq> []" using assms(3) by (auto simp: CONFIG_SYS_CBSIZE_def)
  then have "str_end ?buf 0 = Some 0" by (cases console_buffer) (simp_all add: str_end.simps)
  then have len0: "strlen ?buf 0 = Some 0" by (simp add: strlen_def)
  obtain st' where st': "cread_loop complete prompt 256 keys ?st = Some (Inl st')" "eol_num st' = 256"
    "length (ebuf st') = 256"
    using typed [of keys 256 ?st complete prompt] assms by (auto simp: CONFIG_SYS_CBSIZE_def)
  have "cread_finish (emit [0x0a] st') = None"
    using st'(2,3) by (simp add: cread_finish_def wr_def)
  then have "cread_loop complete prompt 256 (keys @ [0x0d]) ?st = None"
    using st'(1) by (simp add: cread_loop_append cread_key_def)
  then show ?thesis
    using ne len0 by (simp add: readline_def readline_into_buffer_def cread_line_def MAX_CMDBUF_SIZE_def)
qed

theorem readline_overrun_witness:
  "readline (\<lambda>_ _ _ _. Some None) [] hist_init (replicate 256 0) (replicate 256 0x61 @ [0x0d]) = None"
  by (rule readline_overrun) (simp_all add: plain_char_def printable_def CONFIG_SYS_CBSIZE_def)


end
