(* ===== verification/CmdParse.thy ===== *)
theory CmdParse
  imports Prelude CString LineEdit
begin

text \<open>
  How a command line is taken apart: \<^verbatim>\<open>process_macros\<close> and \<^verbatim>\<open>parse_line\<close> of \<^verbatim>\<open>common/main.c\<close>, the
  same splitting in \<^verbatim>\<open>make_argv\<close>, and the search of the command table in \<^verbatim>\<open>common/command.c\<close>.
  Buffers are byte lists with checked accesses; strings that are only read (the name of a
  command, the value of a variable) are their bytes without the terminating 0.  The theorems
  show that the arguments are the words of the line, that quotes, escapes and variables mean
  what they should and never overrun the output buffer, and which table entry a name selects.
\<close>

section \<open>Splitting at blanks\<close>

definition CONFIG_SYS_MAXARGS :: nat where "CONFIG_SYS_MAXARGS = 16"

definition blank :: "u8 \<Rightarrow> bool" where
  "blank c \<longleftrightarrow> c = 0x20 \<or> c = 0x09"

function skip_white :: "u8 list \<Rightarrow> nat \<Rightarrow> nat option" where
  "skip_white line p =
     (case rd line p of None \<Rightarrow> None | Some c \<Rightarrow> if blank c then skip_white line (p + 1) else Some p)"
  by pat_completeness auto
termination
  by (relation "measure (\<lambda>(line, p). length line - p)") (auto simp: buf_simps)

function skip_arg :: "u8 list \<Rightarrow> nat \<Rightarrow> nat option" where
  "skip_arg line p =
     (case rd line p of
        None \<Rightarrow> None
      | Some c \<Rightarrow> if c \<noteq> 0 \<and> \<not> blank c then skip_arg line (p + 1) else Some p)"
  by pat_completeness auto
termination
  by (relation "measure (\<lambda>(line, p). length line - p)") (auto simp: buf_simps)

declare skip_white.simps [simp del] skip_arg.simps [simp del]

text \<open>
  \<open>argv\<close> is the array of pointers, indices into \<open>line\<close> or null.  The result is the number of
  arguments, the array and the line with terminators.  When the loop ends because \<open>nargs\<close> has
  reached the maximum nothing is written behind the last argument.
\<close>

function parse_line_loop ::
    "u8 list \<Rightarrow> nat \<Rightarrow> nat option list \<Rightarrow> nat \<Rightarrow> (nat \<times> nat option list \<times> u8 list) option" where
  "parse_line_loop line p argv nargs =
     (if nargs < CONFIG_SYS_MAXARGS
      then do {
        p \<leftarrow> skip_white line p;
        c \<leftarrow> rd line p;
        if c = 0 then map_option (\<lambda>argv. (nargs, argv, line)) (wr argv nargs None)
        else do {
          argv \<leftarrow> wr argv nargs (Some p);
          e \<leftarrow> skip_arg line p;
          c \<leftarrow> rd line e;
          if c = 0 then map_option (\<lambda>argv. (nargs + 1, argv, line)) (wr argv (nargs + 1) None)
          else do {
            line \<leftarrow> wr line e 0;
            parse_line_loop line (e + 1) argv (nargs + 1)
          }
        }
      }
      else Some (nargs, argv, line))"
  by pat_completeness auto
termination
  by (relation "measure (\<lambda>(line, p, argv, nargs). CONFIG_SYS_MAXARGS - nargs)") auto

declare parse_line_loop.simps [simp del]

definition parse_line :: "u8 list \<Rightarrow> nat option list \<Rightarrow> (nat \<times> nat option list \<times> u8 list) option" where
  "parse_line line argv = parse_line_loop line 0 argv 0"

text \<open>The variant of the completion code, which keeps the last slot for the null pointer.\<close>

function make_argv_loop ::
    "u8 list \<Rightarrow> nat \<Rightarrow> nat \<Rightarrow> nat option list \<Rightarrow> nat \<Rightarrow> (nat \<times> nat option list \<times> u8 list) option" where
  "make_argv_loop s p argvsz argv argc =
     (if argc < argvsz - 1
      then do {
        p \<leftarrow> skip_white s p;
        c \<leftarrow> rd s p;
        if c = 0 then Some (argc, argv, s)
        else do {
          argv \<leftarrow> wr argv argc (Some p);
          e \<leftarrow> skip_arg s p;
          c \<leftarrow> rd s e;
          if c = 0 then Some (argc + 1, argv, s)
          else do {
            s \<leftarrow> wr s e 0;
            make_argv_loop s (e + 1) argvsz argv (argc + 1)
          }
        }
      }
      else Some (argc, argv, s))"
  by pat_completeness auto
termination
  by (relation "measure (\<lambda>(s, p, argvsz, argv, argc). argvsz - 1 - argc)") auto

declare make_argv_loop.simps [simp del]

definition make_argv ::
    "u8 list \<Rightarrow> nat \<Rightarrow> nat option list \<Rightarrow> (nat \<times> nat option list \<times> u8 list) option" where
  "make_argv s argvsz argv = do {
     (argc, argv, s) \<leftarrow> make_argv_loop s 0 argvsz argv 0;
     argv \<leftarrow> wr argv argc None;
     Some (argc, argv, s)
   }"

section \<open>Variables, quotes and escapes\<close>

text \<open>
  The locals of \<^verbatim>\<open>process_macros\<close>: the read index and the characters left, the output buffer with
  its index and the room left, the state, the previous character, and where the name of the
  variable starts.
\<close>

record macros =
  m_in :: nat
  m_cnt :: nat
  m_out :: "u8 list"
  m_pos :: nat
  m_left :: nat
  m_state :: nat
  m_prev :: u8
  m_var :: nat

definition macro_put :: "u8 \<Rightarrow> macros \<Rightarrow> macros option" where
  "macro_put c st = do {
     out \<leftarrow> wr (m_out st) (m_pos st) c;
     Some (st\<lparr>m_out := out, m_pos := m_pos st + 1, m_left := m_left st - 1\<rparr>)
   }"

fun macro_value :: "u8 list \<Rightarrow> macros \<Rightarrow> macros option" where
  "macro_value [] st = Some st"
| "macro_value (c # v) st =
     (if m_left st = 0 then Some st else do { st \<leftarrow> macro_put c st; macro_value v st })"

text \<open>The lookup of variables returns the bytes of the value; its outer \<^verbatim>\<open>None\<close> is undefined.\<close>

type_synonym lookup = "u8 list \<Rightarrow> u8 list option option"

text \<open>The switch.  The name goes through a local buffer of \<^verbatim>\<open>CONFIG_SYS_CBSIZE\<close> bytes.\<close>

definition macro_char :: "lookup \<Rightarrow> u8 list \<Rightarrow> u8 \<Rightarrow> macros \<Rightarrow> macros option" where
  "macro_char look mem c st =
     (if m_state st = 0
      then (if c = 0x27 \<and> m_prev st \<noteq> 0x5c then Some (st\<lparr>m_state := 3\<rparr>)
            else if c = 0x24 \<and> m_prev st \<noteq> 0x5c then Some (st\<lparr>m_state := 1\<rparr>)
            else macro_put c st)
      else if m_state st = 1
      then (if c = 0x28 \<or> c = 0x7b then Some (st\<lparr>m_state := 2, m_var := m_in st\<rparr>)
            else do {
              st \<leftarrow> macro_put 0x24 (st\<lparr>m_state := 0\<rparr>);
              if m_left st \<noteq> 0 then macro_put c st else Some st
            })
      else if m_state st = 2
      then (if c = 0x29 \<or> c = 0x7d
            then do {
              let envcnt = m_in st - m_var st - 1;
              envname \<leftarrow> (if envcnt < CONFIG_SYS_CBSIZE then Some (take envcnt (drop (m_var st) mem)) else None);
              envval \<leftarrow> look envname;
              st \<leftarrow> (case envval of None \<Rightarrow> Some st | Some v \<Rightarrow> macro_value v st);
              Some (st\<lparr>m_state := 0\<rparr>)
            }
            else Some st)
      else (if c = 0x27 \<and> m_prev st \<noteq> 0x5c then Some (st\<lparr>m_state := 0\<rparr>) else macro_put c st))"

text \<open>One pass of the loop; \<^verbatim>\<open>Inr\<close> is the \<^verbatim>\<open>break\<close> at a backslash that ends the input.\<close>

definition macro_step :: "lookup \<Rightarrow> u8 list \<Rightarrow> macros \<Rightarrow> (macros + macros) option" where
  "macro_step look mem st = do {
     c \<leftarrow> rd mem (m_in st);
     let st = st\<lparr>m_in := m_in st + 1, m_cnt := m_cnt st - 1\<rparr>;
     if m_state st \<noteq> 3 \<and> c = 0x5c \<and> m_prev st \<noteq> 0x5c
     then (if m_cnt st = 0 then Some (Inr st)
           else do {
             let st = st\<lparr>m_cnt := m_cnt st - 1, m_prev := c\<rparr>;
             c \<leftarrow> rd mem (m_in st);
             st \<leftarrow> macro_char look mem c (st\<lparr>m_in := m_in st + 1\<rparr>);
             Some (Inl (st\<lparr>m_prev := c\<rparr>))
           })
     else do {
       st \<leftarrow> macro_char look mem c st;
       Some (Inl (st\<lparr>m_prev := c\<rparr>))
     }
   }"

lemma macro_put_cnt: "macro_put c st = Some st' \<Longrightarrow> m_cnt st' = m_cnt st \<and> m_in st' = m_in st"
  by (auto simp: macro_put_def buf_simps split: Option.bind_splits)

lemma macro_value_cnt: "macro_value v st = Some st' \<Longrightarrow> m_cnt st' = m_cnt st \<and> m_in st' = m_in st"
proof (induction v arbitrary: st)
  case (Cons c v)
  then show ?case by (auto split: if_splits Option.bind_splits dest: macro_put_cnt)
qed simp

lemma macro_char_cnt: "macro_char look mem c st = Some st' \<Longrightarrow> m_cnt st' = m_cnt st \<and> m_in st' = m_in st"
  by (auto simp: macro_char_def Let_def split: if_splits Option.bind_splits option.splits
      dest!: macro_put_cnt macro_value_cnt)

lemma macro_step_less:
  "macro_step look mem st = Some (Inl st') \<Longrightarrow> m_cnt st \<noteq> 0 \<Longrightarrow> m_cnt st' < m_cnt st"
  by (auto simp: macro_step_def Let_def split: if_splits Option.bind_splits dest!: macro_char_cnt)

function macro_loop :: "lookup \<Rightarrow> u8 list \<Rightarrow> macros \<Rightarrow> macros option" where
  "macro_loop look mem st =
     (if m_cnt st \<noteq> 0 \<and> m_left st \<noteq> 0
      then (case macro_step look mem st of
              None \<Rightarrow> None
            | Some (Inr st) \<Rightarrow> Some st
            | Some (Inl st) \<Rightarrow> macro_loop look mem st)
      else Some st)"
  by pat_completeness auto
termination
  by (relation "measure (\<lambda>(look, mem, st). m_cnt st)") (auto dest: macro_step_less)

declare macro_loop.simps [simp del]

text \<open>\<open>output\<close> is the buffer of the caller, the result its contents afterwards.\<close>

definition process_macros :: "lookup \<Rightarrow> u8 list \<Rightarrow> nat \<Rightarrow> u8 list \<Rightarrow> u8 list option" where
  "process_macros look mem input output = do {
     inputcnt \<leftarrow> strlen mem input;
     st \<leftarrow> macro_loop look mem \<lparr>m_in = input, m_cnt = inputcnt, m_out = output, m_pos = 0,
              m_left = CONFIG_SYS_CBSIZE, m_state = 0, m_prev = 0, m_var = 0\<rparr>;
     if m_left st \<noteq> 0 then wr (m_out st) (m_pos st) 0 else wr (m_out st) (m_pos st - 1) 0
   }"

section \<open>The command table\<close>

datatype 'c cmd_fn = DoRun | is_bootd: DoBootd | OtherCmd 'c

record 'c cmd_tbl =
  cmd_name :: "u8 list"
  maxargs :: nat
  repeatable :: int
  cmd :: "'c cmd_fn"

text \<open>\<^verbatim>\<open>strncmp\<close> of two separate strings: both are laid out in one memory.\<close>

definition strncmp_strings :: "u8 list \<Rightarrow> u8 list \<Rightarrow> nat \<Rightarrow> int option" where
  "strncmp_strings a b n = strncmp (a @ 0 # b @ [0]) 0 (length a + 1) n"

text \<open>The length of a name without its size suffix.\<close>

definition cmd_len :: "u8 list \<Rightarrow> nat option" where
  "cmd_len name = do {
     p \<leftarrow> strchr (name @ [0]) 0 0x2e;
     case p of None \<Rightarrow> strlen (name @ [0]) 0 | Some p \<Rightarrow> Some p
   }"

text \<open>The result is the index of the entry; \<open>temp\<close> is \<^verbatim>\<open>cmdtp_temp\<close>.\<close>

fun find_cmd_loop ::
    "u8 list \<Rightarrow> nat \<Rightarrow> 'c cmd_tbl list \<Rightarrow> nat \<Rightarrow> nat \<Rightarrow> nat \<Rightarrow> nat option option" where
  "find_cmd_loop name len [] i temp n_found = Some (if n_found = 1 then Some temp else None)"
| "find_cmd_loop name len (e # table) i temp n_found = do {
     r \<leftarrow> strncmp_strings name (cmd_name e) len;
     if r = 0
     then (if len = length (cmd_name e) then Some (Some i)
           else find_cmd_loop name len table (i + 1) i (n_found + 1))
     else find_cmd_loop name len table (i + 1) temp n_found
   }"

definition find_cmd_tbl :: "u8 list \<Rightarrow> 'c cmd_tbl list \<Rightarrow> nat option option" where
  "find_cmd_tbl name table = do {
     len \<leftarrow> cmd_len name;
     find_cmd_loop name len table 0 0 0
   }"


section \<open>The words of a line\<close>

function words :: "u8 list \<Rightarrow> u8 list list" where
  "words s =
     (case dropWhile blank s of
        [] \<Rightarrow> []
      | c # s' \<Rightarrow> (c # takeWhile (\<lambda>c. \<not> blank c) s') # words (dropWhile (\<lambda>c. \<not> blank c) s'))"
  by pat_completeness auto
termination
proof (relation "measure length", simp_all)
  fix s c s' assume "dropWhile blank s = c # s'"
  then have "length (c # s') \<le> length s" by (metis length_dropWhile_le)
  then show "length (dropWhile (\<lambda>c. \<not> blank c) s') < length s"
    by (metis Suc_le_lessD le_trans length_Cons length_dropWhile_le not_less_eq_eq)
qed

declare words.simps [simp del]

lemma takeWhile_all: "\<forall>c \<in> set w. P c \<Longrightarrow> takeWhile P (w @ b # s) = w @ takeWhile P (b # s)"
  by (induction w) auto

lemma dropWhile_all: "\<forall>c \<in> set w. P c \<Longrightarrow> dropWhile P (w @ s) = dropWhile P s"
  by (induction w) auto

lemma words_blank: "\<forall>c \<in> set s. blank c \<Longrightarrow> words s = []"
  by (subst words.simps) (simp add: dropWhile_eq_Nil_conv [THEN iffD2])

lemma words_word:
  assumes "\<forall>c \<in> set ws. blank c" "\<forall>c \<in> set w. \<not> blank c" "w \<noteq> []"
  shows "words (ws @ w) = [w]"
proof (cases w)
  case (Cons c v)
  have "dropWhile blank (ws @ w) = w" using assms Cons by (simp add: dropWhile_all)
  moreover have dw: "takeWhile (\<lambda>c. \<not> blank c) v = v" "dropWhile (\<lambda>c. \<not> blank c) v = []"
    using assms(2) Cons by (simp_all add: takeWhile_eq_all_conv)
  ultimately show ?thesis unfolding words.simps [of "ws @ w"] by (simp add: Cons dw words_blank)
qed (use assms in simp)

lemma words_blank_first: "blank b \<Longrightarrow> words (b # s) = words s"
  by (subst (1 2) words.simps) simp

lemma words_step:
  assumes "\<forall>c \<in> set ws. blank c" "\<forall>c \<in> set w. \<not> blank c" "w \<noteq> []" "blank b"
  shows "words (ws @ w @ b # s) = w # words s"
proof (cases w)
  case (Cons c v)
  have "dropWhile blank (ws @ w @ b # s) = w @ b # s" using assms Cons by (simp add: dropWhile_all)
  moreover have "takeWhile (\<lambda>c. \<not> blank c) (v @ b # s) = v" "dropWhile (\<lambda>c. \<not> blank c) (v @ b # s) = b # s"
    using assms Cons by (simp_all add: takeWhile_all dropWhile_all)
  ultimately show ?thesis unfolding words.simps [of "ws @ w @ b # s"] by (simp add: Cons words_blank_first [OF assms(4)])
qed (use assms in simp)

lemma words_cases:
  obtains (none) "\<forall>c \<in> set s. blank c" "words s = []"
  | (last) ws w where "s = ws @ w" "\<forall>c \<in> set ws. blank c" "\<forall>c \<in> set w. \<not> blank c" "w \<noteq> []" "words s = [w]"
  | (more) ws w b s' where "s = ws @ w @ b # s'" "\<forall>c \<in> set ws. blank c" "\<forall>c \<in> set w. \<not> blank c"
      "w \<noteq> []" "blank b" "words s = w # words s'"
proof -
  define ws r where "ws = takeWhile blank s" and "r = dropWhile blank s"
  have s: "s = ws @ r" by (simp add: ws_def r_def)
  have bw: "\<forall>c \<in> set ws. blank c" by (auto simp: ws_def dest: set_takeWhileD)
  define w q where "w = takeWhile (\<lambda>c. \<not> blank c) r" and "q = dropWhile (\<lambda>c. \<not> blank c) r"
  have r: "r = w @ q" by (simp add: w_def q_def)
  have nb: "\<forall>c \<in> set w. \<not> blank c" by (auto simp: w_def dest: set_takeWhileD)
  show thesis
  proof (cases r)
    case Nil
    then show thesis using none s bw words_blank by auto
  next
    case (Cons c r')
    then have "\<not> blank c" unfolding r_def using hd_dropWhile [of blank s] by simp
    then have "w \<noteq> []" using Cons by (simp add: w_def)
    show thesis
    proof (cases q)
      case Nil
      then show thesis using last [of ws w] s r bw nb \<open>w \<noteq> []\<close> words_word by simp
    next
      case (Cons b q')
      then have "blank b" unfolding q_def using hd_dropWhile [of "\<lambda>c. \<not> blank c" r] by simp
      then show thesis using more [of ws w b q'] s r bw nb \<open>w \<noteq> []\<close> words_step Cons by simp
    qed
  qed
qed

lemma skip_white_eq:
  "\<forall>c \<in> set ws. blank c \<Longrightarrow> \<not> blank c \<Longrightarrow>
   skip_white (pre @ ws @ c # suf) (length pre) = Some (length pre + length ws)"
proof (induction ws arbitrary: pre)
  case Nil
  then show ?case by (subst skip_white.simps) simp
next
  case (Cons b ws)
  have "skip_white ((pre @ [b]) @ ws @ c # suf) (length (pre @ [b])) = Some (length (pre @ [b]) + length ws)"
    by (rule Cons.IH) (use Cons.prems in simp_all)
  then show ?case using Cons.prems by (subst skip_white.simps) simp
qed

lemma skip_arg_eq:
  "\<forall>c \<in> set w. \<not> blank c \<and> c \<noteq> 0 \<Longrightarrow> c = 0 \<or> blank c \<Longrightarrow>
   skip_arg (pre @ w @ c # suf) (length pre) = Some (length pre + length w)"
proof (induction w arbitrary: pre)
  case Nil
  then show ?case by (subst skip_arg.simps) auto
next
  case (Cons b w)
  have "skip_arg ((pre @ [b]) @ w @ c # suf) (length (pre @ [b])) = Some (length (pre @ [b]) + length w)"
    by (rule Cons.IH) (use Cons.prems in simp_all)
  then show ?case using Cons.prems by (subst skip_arg.simps) simp
qed

lemma blank_zero [simp]: "\<not> blank 0"
  by (simp add: blank_def)

text \<open>What the loop does with the three shapes of a line.\<close>

lemma parse_blank:
  assumes "\<forall>c \<in> set s. blank c" "nargs < CONFIG_SYS_MAXARGS" "nargs < length argv"
  shows "parse_line_loop (pre @ s @ 0 # suf) (length pre) argv nargs = Some (nargs, argv[nargs := None], pre @ s @ 0 # suf)"
proof -
  have "rd (pre @ s @ 0 # suf) (length pre + length s) = Some 0" by (simp add: rd_off)
  then show ?thesis using assms by (subst parse_line_loop.simps) (simp add: skip_white_eq)
qed

lemma parse_word:
  assumes "\<forall>c \<in> set ws. blank c" "\<forall>c \<in> set w. \<not> blank c \<and> c \<noteq> 0" "w \<noteq> []"
    "c = 0 \<or> blank c" "nargs < CONFIG_SYS_MAXARGS" "nargs + 1 < length argv"
  shows "parse_line_loop (pre @ ws @ w @ c # suf) (length pre) argv nargs =
    (if c = 0
     then Some (nargs + 1, argv[nargs := Some (length pre + length ws), nargs + 1 := None], pre @ ws @ w @ c # suf)
     else parse_line_loop (pre @ ws @ w @ 0 # suf) (length pre + length ws + length w + 1)
            (argv[nargs := Some (length pre + length ws)]) (nargs + 1))"
proof -
  let ?line = "pre @ ws @ w @ c # suf"
  obtain d w' where w: "w = d # w'" using assms(3) by (cases w) auto
  have sw: "skip_white ?line (length pre) = Some (length pre + length ws)"
    using skip_white_eq [of ws d pre "w' @ c # suf"] assms(1,2) by (simp add: w)
  have rw: "rd ?line (length pre + length ws) = Some d" by (simp add: w rd_off)
  have sa: "skip_arg ?line (length pre + length ws) = Some (length pre + length ws + length w)"
    using skip_arg_eq [OF assms(2,4), of "pre @ ws" suf] by simp
  have re: "rd ?line (length pre + length ws + length w) = Some c"
    using rd_at [of "pre @ ws @ w" c suf] by (simp add: add.assoc)
  have we: "wr ?line (length pre + length ws + length w) 0 = Some (pre @ ws @ w @ 0 # suf)"
    using wr_append [of "pre @ ws @ w" c suf 0] by (simp add: add.assoc)
  show ?thesis
    using assms(2,5,6) sw rw sa re we w
    by (subst parse_line_loop.simps) (simp add: add.assoc)
qed

definition args_ok :: "u8 list list \<Rightarrow> nat option list \<Rightarrow> nat \<Rightarrow> nat \<Rightarrow> u8 list \<Rightarrow> bool" where
  "args_ok ws argv k n line \<longleftrightarrow>
     (\<forall>i < n. \<exists>p. argv ! (k + i) = Some p \<and> str_at line p = Some (ws ! i))"

definition parses ::
    "(nat \<times> nat option list \<times> u8 list) option \<Rightarrow> nat \<Rightarrow> nat option list \<Rightarrow> u8 list list \<Rightarrow> u8 list \<Rightarrow> nat \<Rightarrow> bool" where
  "parses res nargs argv ws pre k \<longleftrightarrow>
     (\<exists>argv' tl. let n = min CONFIG_SYS_MAXARGS (nargs + length ws) in res = Some (n, argv', pre @ tl)
        \<and> length argv' = CONFIG_SYS_MAXARGS + 1 \<and> length tl = k \<and> take nargs argv' = take nargs argv
        \<and> args_ok ws argv' nargs (n - nargs) (pre @ tl)
        \<and> (nargs + length ws < CONFIG_SYS_MAXARGS \<longrightarrow> argv' ! n = None))"

lemma parse_line_loop_words:
  assumes "0 \<notin> set s" "nargs \<le> CONFIG_SYS_MAXARGS" "length argv = CONFIG_SYS_MAXARGS + 1"
  shows "parses (parse_line_loop (pre @ s @ 0 # suf) (length pre) argv nargs) nargs argv (words s) pre
    (length (s @ 0 # suf))"
  using assms
proof (induction s arbitrary: pre argv nargs rule: length_induct)
  case (1 s)
  note IH = "1.IH" and zero = "1.prems"(1) and len = "1.prems"(3)
  show ?case
  proof (cases "nargs < CONFIG_SYS_MAXARGS")
    case False
    then have "nargs = CONFIG_SYS_MAXARGS" using "1.prems"(2) by simp
    then show ?thesis
      using len by (subst parse_line_loop.simps) (simp add: parses_def args_ok_def)
  next
    case True
    then have room: "nargs < length argv" "nargs + 1 < length argv" using len by simp_all
    show ?thesis
    proof (cases s rule: words_cases)
      case none
      then show ?thesis
        using True room len by (simp add: parse_blank parses_def args_ok_def)
    next
      case (last ws w)
      have "\<forall>c \<in> set w. \<not> blank c \<and> c \<noteq> 0" using last zero by auto
      then have "parse_line_loop (pre @ s @ 0 # suf) (length pre) argv nargs
        = Some (nargs + 1, argv[nargs := Some (length pre + length ws), nargs + 1 := None], pre @ s @ 0 # suf)"
        using parse_word [of ws w 0 nargs argv pre suf] last True room by simp
      moreover have "str_at (pre @ s @ 0 # suf) (length pre + length ws) = Some w"
        using str_at_eq [of w "pre @ ws" suf] last zero by simp
      ultimately show ?thesis
        using last True room len by (auto simp: parses_def args_ok_def)
    next
      case (more ws w b s')
      have nz: "\<forall>c \<in> set w. \<not> blank c \<and> c \<noteq> 0" "b \<noteq> 0" using more zero by auto
      let ?pre = "pre @ ws @ w @ [0]" and ?argv = "argv[nargs := Some (length pre + length ws)]"
      have step: "parse_line_loop (pre @ s @ 0 # suf) (length pre) argv nargs
        = parse_line_loop (?pre @ s' @ 0 # suf) (length ?pre) ?argv (nargs + 1)"
        using parse_word [of ws w b nargs argv pre "s' @ 0 # suf"] more True room nz by (simp add: add.assoc)
      have "length s' < length s" "0 \<notin> set s'" using more zero by auto
      then have "parses (parse_line_loop (?pre @ s' @ 0 # suf) (length ?pre) ?argv (nargs + 1))
        (nargs + 1) ?argv (words s') ?pre (length (s' @ 0 # suf))"
        using IH [rule_format, of s' "nargs + 1" ?argv ?pre] True len by simp
      then obtain argv' tl where ih:
        "parse_line_loop (?pre @ s' @ 0 # suf) (length ?pre) ?argv (nargs + 1)
          = Some (min CONFIG_SYS_MAXARGS (nargs + length (words s)), argv', ?pre @ tl)"
        "length argv' = CONFIG_SYS_MAXARGS + 1" "length tl = length (s' @ 0 # suf)"
        "take (nargs + 1) argv' = take (nargs + 1) ?argv"
        "args_ok (words s') argv' (nargs + 1) (min CONFIG_SYS_MAXARGS (nargs + length (words s)) - (nargs + 1)) (?pre @ tl)"
        "nargs + length (words s) < CONFIG_SYS_MAXARGS \<longrightarrow> argv' ! min CONFIG_SYS_MAXARGS (nargs + length (words s)) = None"
        unfolding parses_def Let_def more(6) by auto
      have here: "argv' ! nargs = Some (length pre + length ws)"
        using ih(4) room by (metis length_list_update less_add_one nth_list_update_eq nth_take)
      have str: "str_at (?pre @ tl) (length pre + length ws) = Some w"
        using str_at_eq [of w "pre @ ws" tl] nz by auto
      have keep: "take nargs argv' = take nargs argv"
        using arg_cong [OF ih(4), of "take nargs"] by (simp add: min_def)
      have "args_ok (words s) argv' nargs (min CONFIG_SYS_MAXARGS (nargs + length (words s)) - nargs) (?pre @ tl)"
        unfolding args_ok_def
      proof (intro allI impI)
        fix i assume i: "i < min CONFIG_SYS_MAXARGS (nargs + length (words s)) - nargs"
        show "\<exists>p. argv' ! (nargs + i) = Some p \<and> str_at (?pre @ tl) p = Some (words s ! i)"
        proof (cases i)
          case 0
          then show ?thesis using here str more(6) by simp
        next
          case (Suc j)
          then have "j < min CONFIG_SYS_MAXARGS (nargs + length (words s)) - (nargs + 1)" using i by simp
          then show ?thesis using ih(5) Suc more(6) unfolding args_ok_def by simp
        qed
      qed
      then show ?thesis
        unfolding parses_def Let_def step ih(1) using ih(2,3,6) keep more(1)
        by (intro exI [of _ argv'] exI [of _ "ws @ w @ 0 # tl"]) simp
    qed
  qed
qed


text \<open>The arguments a command sees: the strings its pointers lead to.\<close>

definition arg_strings :: "u8 list \<Rightarrow> nat option list \<Rightarrow> nat \<Rightarrow> u8 list list option" where
  "arg_strings line argv n = those (map (\<lambda>p. p \<bind> str_at line) (take n argv))"

lemma those_map_Some: "(\<And>x. x \<in> set xs \<Longrightarrow> f x = Some (g x)) \<Longrightarrow> those (map f xs) = Some (map g xs)"
  by (induction xs) auto

lemma those_nth:
  "length xs = length ys \<Longrightarrow> (\<And>i. i < length ys \<Longrightarrow> xs ! i = Some (ys ! i)) \<Longrightarrow> those xs = Some ys"
proof (induction xs ys rule: list_induct2)
  case (Cons x xs y ys)
  have "x = Some y" using Cons.prems [of 0] by simp
  moreover have "xs ! i = Some (ys ! i)" if "i < length ys" for i using Cons.prems [of "Suc i"] that by simp
  ultimately show ?case using Cons.IH by simp
qed simp

lemma parse_line_lemma:
  assumes "0 \<notin> set s" "length argv = CONFIG_SYS_MAXARGS + 1"
  shows "\<exists>argv' line'. parse_line (s @ 0 # suf) argv
      = Some (min CONFIG_SYS_MAXARGS (length (words s)), argv', line')
    \<and> length line' = length (s @ 0 # suf) \<and> length argv' = CONFIG_SYS_MAXARGS + 1
    \<and> arg_strings line' argv' (min CONFIG_SYS_MAXARGS (length (words s))) = Some (take CONFIG_SYS_MAXARGS (words s))
    \<and> (length (words s) < CONFIG_SYS_MAXARGS \<longrightarrow> argv' ! length (words s) = None)"
proof -
  define n where "n = min CONFIG_SYS_MAXARGS (length (words s))"
  obtain argv' tl where r: "parse_line (s @ 0 # suf) argv = Some (n, argv', tl)"
    "length argv' = CONFIG_SYS_MAXARGS + 1" "length tl = length (s @ 0 # suf)" "args_ok (words s) argv' 0 n tl"
    "length (words s) < CONFIG_SYS_MAXARGS \<longrightarrow> argv' ! n = None"
    using parse_line_loop_words [OF assms(1) _ assms(2), of 0 "[]" suf]
    unfolding parses_def Let_def parse_line_def n_def by auto
  have "arg_strings tl argv' n = Some (take n (words s))"
    unfolding arg_strings_def
  proof (rule those_nth)
    show "length (map (\<lambda>p. p \<bind> str_at tl) (take n argv')) = length (take n (words s))"
      using r(2) by (simp add: n_def)
    fix i assume "i < length (take n (words s))"
    then show "map (\<lambda>p. p \<bind> str_at tl) (take n argv') ! i = Some (take n (words s) ! i)"
      using r(2,4) by (auto simp: args_ok_def n_def)
  qed
  moreover have "take n (words s) = take CONFIG_SYS_MAXARGS (words s)" by (simp add: n_def min_def)
  ultimately show ?thesis using r unfolding n_def by (intro exI [of _ argv'] exI [of _ tl]) (simp add: min_def)
qed

text \<open>C26:
  Splitting a line: the arguments are the words of the line, at most 16 of them, each terminated
  inside the line buffer; with fewer than 16 the pointer after the last one is null.\<close>

theorem parse_line_words:
  assumes "0 \<notin> set s" "length argv = CONFIG_SYS_MAXARGS + 1"
  shows "\<exists>argv' line'. parse_line (s @ 0 # suf) argv
      = Some (min CONFIG_SYS_MAXARGS (length (words s)), argv', line')
    \<and> length line' = length (s @ 0 # suf) \<and> length argv' = CONFIG_SYS_MAXARGS + 1
    \<and> arg_strings line' argv' (min CONFIG_SYS_MAXARGS (length (words s))) = Some (take CONFIG_SYS_MAXARGS (words s))
    \<and> (length (words s) < CONFIG_SYS_MAXARGS \<longrightarrow> argv' ! length (words s) = None)"
  using assms by (rule parse_line_lemma)

lemma words_example: "words (ascii '' go  1'') = [ascii ''go'', ascii ''1'']"
proof -
  have "words (ascii '' go  1'') = words ([0x20] @ ascii ''go'' @ 0x20 # [0x20] @ ascii ''1'')"
    by (simp add: ascii_def)
  also have "\<dots> = [ascii ''go'', ascii ''1'']"
    by (subst words_step) (simp_all add: ascii_def blank_def words_word del: append_Cons)
  finally show ?thesis .
qed

theorem parse_line_words_witness:
  "\<exists>argv' line'. parse_line (ascii '' go  1'' @ [0]) (replicate 17 (Some 99)) = Some (2, argv', line')
    \<and> arg_strings line' argv' 2 = Some [ascii ''go'', ascii ''1''] \<and> argv' ! 2 = None"
proof -
  have "0 \<notin> set (ascii '' go  1'')" "length (replicate 17 (Some (99::nat))) = CONFIG_SYS_MAXARGS + 1"
    by (simp_all add: ascii_def CONFIG_SYS_MAXARGS_def)
  from parse_line_words [OF this, of "[]"] show ?thesis
    unfolding words_example by (auto simp: CONFIG_SYS_MAXARGS_def numeral_2_eq_2)
qed

text \<open>
  Completion splits the same way; it also terminates the pointer array when there are as many
  arguments as fit.
\<close>

lemma make_argv_eq_parse_line:
  assumes "length argv = CONFIG_SYS_MAXARGS + 1"
  shows "make_argv s (CONFIG_SYS_MAXARGS + 1) argv
    = map_option (\<lambda>(n, argv, s). (n, argv[n := None], s)) (parse_line s argv)"
proof -
  have "n \<le> CONFIG_SYS_MAXARGS \<Longrightarrow> length argv = CONFIG_SYS_MAXARGS + 1 \<Longrightarrow>
    (make_argv_loop s p (CONFIG_SYS_MAXARGS + 1) argv n \<bind> (\<lambda>(argc, argv, s).
       wr argv argc None \<bind> (\<lambda>argv. Some (argc, argv, s))))
    = map_option (\<lambda>(n, argv, s). (n, argv[n := None], s)) (parse_line_loop s p argv n)" for p n argv
  proof (induction s p argv n rule: parse_line_loop.induct)
    case (1 s p argv n)
    show ?case
    proof (cases "n < CONFIG_SYS_MAXARGS")
      case False
      then show ?thesis using "1.prems"
        by (subst parse_line_loop.simps, subst make_argv_loop.simps) simp
    next
      case True
      then have l: "n < length argv" "Suc n < length argv" using "1.prems" by simp_all
      show ?thesis
      proof (cases "skip_white s p")
        case None
        then show ?thesis using True by (subst parse_line_loop.simps, subst make_argv_loop.simps) simp
      next
        case (Some q)
        show ?thesis
        proof (cases "rd s q")
          case None
          then show ?thesis using True Some by (subst parse_line_loop.simps, subst make_argv_loop.simps) simp
        next
          case c: (Some c)
          have wa: "wr argv n (Some q) = Some (argv[n := Some q])" using l by simp
          show ?thesis
          proof (cases "c = 0 \<or> skip_arg s q = None")
            case True
            then show ?thesis using \<open>n < CONFIG_SYS_MAXARGS\<close> Some c l
              by (subst parse_line_loop.simps, subst make_argv_loop.simps) auto
          next
            case False
            then obtain e where e: "c \<noteq> 0" "skip_arg s q = Some e" by auto
            show ?thesis
            proof (cases "rd s e")
              case None
              then show ?thesis using True Some c e wa
                by (subst parse_line_loop.simps, subst make_argv_loop.simps) simp
            next
              case d: (Some d)
              then have w: "wr s e 0 = Some (s[e := 0])" by (auto simp: buf_simps wr_def)
              show ?thesis
                using "1.IH" [OF True Some c e(1) wa e(2) d _ w] "1.prems" True Some c e d w wa l
                by (subst parse_line_loop.simps, subst make_argv_loop.simps) auto
            qed
          qed
        qed
      qed
    qed
  qed
  from this [of 0 argv 0] assms show ?thesis by (simp add: make_argv_def parse_line_def)
qed

section \<open>Looking up a command\<close>

lemma strncmp_loop_prefix:
  assumes "0 \<notin> set a" "0 \<notin> set b" "n \<le> length a"
  shows "\<exists>r. strncmp_loop (pre @ a @ mid @ b @ 0 # suf) (length pre) (length pre + length a + length mid) n 0 = Some r
    \<and> (r = 0 \<longleftrightarrow> n \<le> length b \<and> take n a = take n b)"
  using assms
proof (induction n arbitrary: pre a mid b)
  case (Suc n)
  then obtain c a' where a: "a = c # a'" by (cases a) auto
  let ?mem = "pre @ a @ mid @ b @ 0 # suf"
  have ra: "rd ?mem (length pre) = Some c" by (simp add: a)
  show ?case
  proof (cases b)
    case Nil
    have rb: "rd ?mem (length pre + length a + length mid) = Some 0"
      using rd_at [of "pre @ a @ mid" 0 suf] Nil by (simp add: add.assoc)
    have "c \<noteq> 0" using Suc.prems a by auto
    then show ?thesis using ra rb Nil by simp
  next
    case (Cons d b')
    have rb: "rd ?mem (length pre + length a + length mid) = Some d"
      using rd_at [of "pre @ a @ mid" d "b' @ 0 # suf"] Cons by (simp add: add.assoc)
    show ?thesis
    proof (cases "c = d")
      case False
      then show ?thesis using ra rb a Cons by simp
    next
      case True
      have "?mem = (pre @ [c]) @ a' @ (mid @ [d]) @ b' @ 0 # suf" using a Cons by simp
      moreover have "\<exists>r. strncmp_loop ((pre @ [c]) @ a' @ (mid @ [d]) @ b' @ 0 # suf) (length (pre @ [c]))
          (length (pre @ [c]) + length a' + length (mid @ [d])) n 0 = Some r
        \<and> (r = 0 \<longleftrightarrow> n \<le> length b' \<and> take n a' = take n b')"
        by (rule Suc.IH) (use Suc.prems a Cons in auto)
      moreover have "c \<noteq> 0" using Suc.prems a by auto
      ultimately show ?thesis using ra rb True a Cons by (simp add: add.assoc)
    qed
  qed
qed simp

lemma strncmp_strings_prefix:
  assumes "0 \<notin> set a" "0 \<notin> set b" "n \<le> length a"
  obtains r where "strncmp_strings a b n = Some r" "r = 0 \<longleftrightarrow> n \<le> length b \<and> take n a = take n b"
  using strncmp_loop_prefix [OF assms, of "[]" "[0]" "[]"] unfolding strncmp_strings_def strncmp_def by auto

lemma strchr_string:
  assumes "0 \<notin> set s" "c \<noteq> 0"
  shows "strchr (pre @ s @ 0 # suf) (length pre) c
    = Some (if c \<in> set s then Some (length pre + length (takeWhile (\<lambda>d. d \<noteq> c) s)) else None)"
  using assms
proof (induction s arbitrary: pre)
  case Nil
  then show ?case by (subst strchr.simps) simp
next
  case (Cons d s)
  have "strchr ((pre @ [d]) @ s @ 0 # suf) (length (pre @ [d])) c
    = Some (if c \<in> set s then Some (length (pre @ [d]) + length (takeWhile (\<lambda>d. d \<noteq> c) s)) else None)"
    by (rule Cons.IH) (use Cons.prems in auto)
  then show ?case using Cons.prems by (subst strchr.simps) auto
qed

definition cmd_key :: "u8 list \<Rightarrow> u8 list" where
  "cmd_key name = takeWhile (\<lambda>d. d \<noteq> 0x2e) name"

lemma cmd_len_eq: "0 \<notin> set name \<Longrightarrow> cmd_len name = Some (length (cmd_key name))"
proof -
  assume z: "0 \<notin> set name"
  have all: "takeWhile (\<lambda>d. d \<noteq> 0x2e) name = name" if "0x2e \<notin> set name"
    using that by (auto simp: takeWhile_eq_all_conv)
  show ?thesis
    using strchr_string [OF z, of "0x2e" "[]" "[]"] str_end_string [OF z, of "[]"]
    by (cases "0x2e \<in> set name") (simp_all add: all cmd_len_def cmd_key_def strlen_def)
qed

definition key_matches :: "u8 list \<Rightarrow> 'c cmd_tbl \<Rightarrow> bool" where
  "key_matches key e \<longleftrightarrow> take (length key) (cmd_name e) = key"

definition table_ok :: "'c cmd_tbl list \<Rightarrow> bool" where
  "table_ok table \<longleftrightarrow> (\<forall>e \<in> set table. 0 \<notin> set (cmd_name e))"

definition find_spec :: "u8 list \<Rightarrow> (nat \<times> 'c cmd_tbl) list \<Rightarrow> nat \<Rightarrow> nat \<Rightarrow> nat option" where
  "find_spec key es temp k =
     (case find (\<lambda>(i, e). cmd_name e = key) es of
        Some (i, e) \<Rightarrow> Some i
      | None \<Rightarrow> (let ms = filter (\<lambda>(i, e). key_matches key e) es
                in if k + length ms = 1 then Some (last (temp # map fst ms)) else None))"

lemma find_cmd_loop_spec:
  assumes "0 \<notin> set name" "table_ok table" "key = take len name" "len \<le> length name"
  shows "find_cmd_loop name len table i temp k = Some (find_spec key (enumerate i table) temp k)"
  using assms(2)
proof (induction table arbitrary: i temp k)
  case Nil
  then show ?case by (simp add: find_spec_def)
next
  case (Cons e table)
  have z: "0 \<notin> set (cmd_name e)" and ok: "table_ok table" using Cons.prems by (auto simp: table_ok_def)
  obtain r where r: "strncmp_strings name (cmd_name e) len = Some r"
    "r = 0 \<longleftrightarrow> len \<le> length (cmd_name e) \<and> take len name = take len (cmd_name e)"
    using strncmp_strings_prefix [OF assms(1) z assms(4)] .
  have len: "length key = len" using assms(3,4) by simp
  have m: "key_matches key e \<longleftrightarrow> r = 0"
    using r(2) assms(3,4) len unfolding key_matches_def by (metis length_take min.absorb_iff2)
  have x: "cmd_name e = key \<longleftrightarrow> r = 0 \<and> len = length (cmd_name e)"
    using r(2) assms(3,4) len by (metis order_refl take_all_iff)
  show ?case
    using r(1) m x Cons.IH [OF ok]
    by (cases "find (\<lambda>(i, e). cmd_name e = key) (enumerate (Suc i) table)") (auto simp: find_spec_def Let_def)
qed

lemma find_cmd_lemma:
  assumes "0 \<notin> set name" "table_ok table"
  shows "find_cmd_tbl name table = Some
    (case find (\<lambda>(i, e). cmd_name e = cmd_key name) (enumerate 0 table) of
       Some (i, e) \<Rightarrow> Some i
     | None \<Rightarrow> (case filter (\<lambda>(i, e). key_matches (cmd_key name) e) (enumerate 0 table) of
                 [(i, e)] \<Rightarrow> Some i
               | _ \<Rightarrow> None))"
proof -
  have key: "cmd_key name = take (length (cmd_key name)) name" "length (cmd_key name) \<le> length name"
    by (simp_all add: cmd_key_def takeWhile_eq_take [symmetric] length_takeWhile_le)
  show ?thesis
    using find_cmd_loop_spec [OF assms key(1,2), of 0 0 0] cmd_len_eq [OF assms(1)]
    by (simp add: find_cmd_tbl_def find_spec_def Let_def split: option.splits list.splits)
qed

text \<open>
  Looking up a command: the name up to its first dot selects the first entry with exactly this
  name; without one it selects the only entry whose name it abbreviates, and nothing when there
  are several or none.\<close>

theorem find_cmd_tbl_selects:
  assumes "0 \<notin> set name" "table_ok table"
  shows "find_cmd_tbl name table = Some
    (case find (\<lambda>(i, e). cmd_name e = cmd_key name) (enumerate 0 table) of
       Some (i, e) \<Rightarrow> Some i
     | None \<Rightarrow> (case filter (\<lambda>(i, e). key_matches (cmd_key name) e) (enumerate 0 table) of
                 [(i, e)] \<Rightarrow> Some i
               | _ \<Rightarrow> None))"
  using assms by (rule find_cmd_lemma)

definition entry :: "string \<Rightarrow> unit cmd_tbl" where
  "entry n = \<lparr>cmd_name = ascii n, maxargs = 16, repeatable = 1, cmd = OtherCmd ()\<rparr>"

theorem find_cmd_tbl_selects_witness:
  "find_cmd_tbl (ascii ''cp.b'') [entry ''cmp'', entry ''cp'', entry ''cpu''] = Some (Some 1)
    \<and> find_cmd_tbl (ascii ''c'') [entry ''cmp'', entry ''cp'', entry ''cpu''] = Some None"
  using find_cmd_tbl_selects [of "ascii ''cp.b''" "[entry ''cmp'', entry ''cp'', entry ''cpu'']"]
    find_cmd_tbl_selects [of "ascii ''c''" "[entry ''cmp'', entry ''cp'', entry ''cpu'']"]
  by (simp add: ascii_def entry_def table_ok_def cmd_key_def key_matches_def)


section \<open>What a line means\<close>

text \<open>
  A line in pieces: text without special characters, a variable in round or curly brackets, a
  quoted text, and a character after a backslash.
\<close>

datatype piece = Plain "u8 list" | Variable bool "u8 list" | is_Quoted: Quoted "u8 list" | Escaped u8

fun render_piece :: "piece \<Rightarrow> u8 list" where
  "render_piece (Plain s) = s"
| "render_piece (Variable curly n) = [0x24, if curly then 0x7b else 0x28] @ n @ [if curly then 0x7d else 0x29]"
| "render_piece (Quoted s) = 0x27 # s @ [0x27]"
| "render_piece (Escaped c) = [0x5c, c]"

fun piece_ok :: "piece \<Rightarrow> bool" where
  "piece_ok (Plain s) \<longleftrightarrow> set s \<inter> {0, 0x24, 0x27, 0x5c} = {}"
| "piece_ok (Variable curly n) \<longleftrightarrow> set n \<inter> {0, 0x29, 0x7d, 0x5c} = {}"
| "piece_ok (Quoted s) \<longleftrightarrow> set s \<inter> {0, 0x27} = {} \<and> (s = [] \<or> last s \<noteq> 0x5c)"
| "piece_ok (Escaped c) \<longleftrightarrow> c \<noteq> 0 \<and> c \<noteq> 0x5c"

fun piece_value :: "(u8 list \<rightharpoonup> u8 list) \<Rightarrow> piece \<Rightarrow> u8 list" where
  "piece_value vars (Plain s) = s"
| "piece_value vars (Variable curly n) = (case vars n of None \<Rightarrow> [] | Some v \<Rightarrow> v)"
| "piece_value vars (Quoted s) = s"
| "piece_value vars (Escaped c) = [c]"

definition render :: "piece list \<Rightarrow> u8 list" where
  "render ps = concat (map render_piece ps)"

definition line_value :: "(u8 list \<rightharpoonup> u8 list) \<Rightarrow> piece list \<Rightarrow> u8 list" where
  "line_value vars ps = concat (map (piece_value vars) ps)"

text \<open>The state in front of \<open>rest\<close> with \<open>out\<close> written and \<open>free\<close> bytes of the buffer left.\<close>

definition mst :: "u8 list \<Rightarrow> u8 list \<Rightarrow> u8 list \<Rightarrow> u8 list \<Rightarrow> nat \<Rightarrow> u8 \<Rightarrow> nat \<Rightarrow> macros" where
  "mst pre rest out free state prev var = \<lparr>m_in = length pre, m_cnt = length rest, m_out = out @ free,
     m_pos = length out, m_left = length free, m_state = state, m_prev = prev, m_var = var\<rparr>"

lemma mst_put:
  "macro_put c (mst pre rest out (f # free) state prev var) = Some (mst pre rest (out @ [c]) free state prev var)"
  by (simp add: mst_def macro_put_def wr_append)

lemma macro_loop_char:
  assumes "mem = pre @ c # rest @ suf" "free \<noteq> []" "state = 3 \<or> c \<noteq> 0x5c"
    "macro_char look mem c (mst (pre @ [c]) rest out free state prev var) = Some st"
  shows "macro_loop look mem (mst pre (c # rest) out free state prev var) = macro_loop look mem (st\<lparr>m_prev := c\<rparr>)"
proof -
  have "macro_step look mem (mst pre (c # rest) out free state prev var) = Some (Inl (st\<lparr>m_prev := c\<rparr>))"
    using assms(1,3,4) by (auto simp: macro_step_def mst_def)
  then show ?thesis using assms(2) by (subst macro_loop.simps) (simp add: mst_def)
qed

lemma mst_prev [simp]: "(mst pre rest out free state prev var)\<lparr>m_prev := c\<rparr> = mst pre rest out free state c var"
  by (simp add: mst_def)

lemma macro_loop_state0:
  assumes "mem = pre @ s @ rest @ suf" "set s \<inter> {0, 0x24, 0x27, 0x5c} = {}" "length s < length free" "prev \<noteq> 0x5c"
  shows "\<exists>prev'. prev' \<noteq> 0x5c \<and> macro_loop look mem (mst pre (s @ rest) out free 0 prev var)
    = macro_loop look mem (mst (pre @ s) rest (out @ s) (drop (length s) free) 0 prev' var)"
  using assms
proof (induction s arbitrary: pre out free prev)
  case (Cons c s)
  then obtain f free' where free: "free = f # free'" by (cases free) auto
  have "macro_char look mem c (mst (pre @ [c]) (s @ rest) out free 0 prev var)
    = Some (mst (pre @ [c]) (s @ rest) (out @ [c]) free' 0 prev var)"
    using Cons.prems(2) by (simp add: macro_char_def free mst_put) (simp add: mst_def)
  with Cons.prems have "macro_loop look mem (mst pre ((c # s) @ rest) out free 0 prev var)
    = macro_loop look mem (mst (pre @ [c]) (s @ rest) (out @ [c]) free' 0 c var)"
    by (simp add: macro_loop_char [where suf = suf] free)
  moreover have "\<exists>prev'. prev' \<noteq> 0x5c \<and> macro_loop look mem (mst (pre @ [c]) (s @ rest) (out @ [c]) free' 0 c var)
    = macro_loop look mem (mst ((pre @ [c]) @ s) rest ((out @ [c]) @ s) (drop (length s) free') 0 prev' var)"
    by (rule Cons.IH) (use Cons.prems free in auto)
  ultimately show ?case by (simp add: free)
qed auto

lemma macro_loop_state3:
  assumes "mem = pre @ s @ 0x27 # rest @ suf" "set s \<inter> {0, 0x27} = {}" "length s < length free"
    "last (prev # s) \<noteq> 0x5c"
  shows "macro_loop look mem (mst pre (s @ 0x27 # rest) out free 3 prev var)
    = macro_loop look mem (mst (pre @ s @ [0x27]) rest (out @ s) (drop (length s) free) 0 0x27 var)"
  using assms
proof (induction s arbitrary: pre out free prev)
  case Nil
  have "macro_char look mem 0x27 (mst (pre @ [0x27]) rest out free 3 prev var) = Some (mst (pre @ [0x27]) rest out free 0 prev var)"
    using Nil.prems by (simp add: macro_char_def mst_def)
  with Nil.prems show ?case by (simp add: macro_loop_char [where suf = suf])
next
  case (Cons c s)
  then obtain f free' where free: "free = f # free'" by (cases free) auto
  have "macro_char look mem c (mst (pre @ [c]) (s @ 0x27 # rest) out free 3 prev var)
    = Some (mst (pre @ [c]) (s @ 0x27 # rest) (out @ [c]) free' 3 prev var)"
    using Cons.prems(2) by (simp add: macro_char_def free mst_put) (simp add: mst_def)
  with Cons.prems have "macro_loop look mem (mst pre ((c # s) @ 0x27 # rest) out free 3 prev var)
    = macro_loop look mem (mst (pre @ [c]) (s @ 0x27 # rest) (out @ [c]) free' 3 c var)"
    by (simp add: macro_loop_char [where suf = suf] free)
  also have "\<dots> = macro_loop look mem (mst ((pre @ [c]) @ s @ [0x27]) rest ((out @ [c]) @ s) (drop (length s) free') 0 0x27 var)"
    by (rule Cons.IH) (use Cons.prems free in auto)
  finally show ?case by (simp add: free)
qed

lemma macro_loop_name:
  assumes "mem = pre @ n @ rest @ suf" "set n \<inter> {0, 0x29, 0x7d, 0x5c} = {}" "free \<noteq> []" "prev \<noteq> 0x5c"
  shows "\<exists>prev'. prev' \<noteq> 0x5c \<and> macro_loop look mem (mst pre (n @ rest) out free 2 prev var)
    = macro_loop look mem (mst (pre @ n) rest out free 2 prev' var)"
  using assms
proof (induction n arbitrary: pre prev)
  case (Cons c n)
  have "macro_char look mem c (mst (pre @ [c]) (n @ rest) out free 2 prev var)
    = Some (mst (pre @ [c]) (n @ rest) out free 2 prev var)"
    using Cons.prems(2) by (simp add: macro_char_def mst_def)
  with Cons.prems have "macro_loop look mem (mst pre ((c # n) @ rest) out free 2 prev var)
    = macro_loop look mem (mst (pre @ [c]) (n @ rest) out free 2 c var)"
    by (simp add: macro_loop_char [where suf = suf])
  moreover have "\<exists>prev'. prev' \<noteq> 0x5c \<and> macro_loop look mem (mst (pre @ [c]) (n @ rest) out free 2 c var)
    = macro_loop look mem (mst ((pre @ [c]) @ n) rest out free 2 prev' var)"
    by (rule Cons.IH) (use Cons.prems in auto)
  ultimately show ?case by simp
qed auto

lemma macro_value_fits:
  "length v \<le> length free \<Longrightarrow> macro_value v (mst pre rest out free state prev var)
    = Some (mst pre rest (out @ v) (drop (length v) free) state prev var)"
proof (induction v arbitrary: out free)
  case (Cons c v)
  then obtain f free' where "free = f # free'" by (cases free) auto
  then show ?case using Cons by (simp add: mst_put) (simp add: mst_def)
qed simp


lemma macro_loop_variable:
  assumes mem: "mem = pre @ render_piece (Variable curly n) @ rest @ suf"
    and n: "set n \<inter> {0, 0x29, 0x7d, 0x5c} = {}" "length n < CONFIG_SYS_CBSIZE" "look n = Some (vars n)"
    and fit: "length (piece_value vars (Variable curly n)) < length free" and prev: "prev \<noteq> 0x5c"
  shows "\<exists>prev' var'. prev' \<noteq> 0x5c \<and> macro_loop look mem (mst pre (render_piece (Variable curly n) @ rest) out free 0 prev var)
    = macro_loop look mem (mst (pre @ render_piece (Variable curly n)) rest (out @ piece_value vars (Variable curly n))
        (drop (length (piece_value vars (Variable curly n))) free) 0 prev' var')"
proof -
  define op cl where "op = (if curly then 0x7b else 0x28 :: u8)" and "cl = (if curly then 0x7d else 0x29 :: u8)"
  let ?pre = "pre @ [0x24, op]" and ?v = "piece_value vars (Variable curly n)"
  have free: "free \<noteq> []" using fit by auto
  have mem': "mem = pre @ 0x24 # (op # n @ cl # rest) @ suf" using mem by (simp add: op_def cl_def)
  have "macro_char look mem 0x24 (mst (pre @ [0x24]) (op # n @ cl # rest) out free 0 prev var)
    = Some (mst (pre @ [0x24]) (op # n @ cl # rest) out free 1 prev var)"
    using prev by (simp add: macro_char_def mst_def)
  then have "macro_loop look mem (mst pre (0x24 # op # n @ cl # rest) out free 0 prev var)
    = macro_loop look mem (mst (pre @ [0x24]) (op # n @ cl # rest) out free 1 0x24 var)"
    using macro_loop_char [OF mem' free, of 0 look out prev var] by simp
  also have "macro_char look mem op (mst ((pre @ [0x24]) @ [op]) (n @ cl # rest) out free 1 0x24 var)
    = Some (mst ?pre (n @ cl # rest) out free 2 0x24 (length ?pre))"
    by (simp add: macro_char_def mst_def op_def)
  then have "macro_loop look mem (mst (pre @ [0x24]) (op # n @ cl # rest) out free 1 0x24 var)
    = macro_loop look mem (mst ?pre (n @ cl # rest) out free 2 op (length ?pre))"
    using macro_loop_char [where pre = "pre @ [0x24]" and c = op and rest = "n @ cl # rest" and suf = suf
        and state = 1 and free = free and mem = mem] mem' free by (simp add: op_def)
  also
  have memn: "mem = ?pre @ n @ (cl # rest) @ suf" using mem' by simp
  have "op \<noteq> 0x5c" by (simp add: op_def)
  from macro_loop_name [OF memn n(1) free this]
  obtain prev' where p: "macro_loop look mem (mst ?pre (n @ cl # rest) out free 2 op (length ?pre))
    = macro_loop look mem (mst (?pre @ n) (cl # rest) out free 2 prev' (length ?pre))" by blast
  note p
  also have "macro_char look mem cl (mst ((?pre @ n) @ [cl]) rest out free 2 prev' (length ?pre))
    = Some (mst ((?pre @ n) @ [cl]) rest (out @ ?v) (drop (length ?v) free) 0 prev' (length ?pre))"
  proof -
    have "take (length n) (drop (length ?pre) mem) = n" using mem' by simp
    moreover have "macro_value ?v (mst ((?pre @ n) @ [cl]) rest out free 2 prev' (length ?pre))
      = Some (mst ((?pre @ n) @ [cl]) rest (out @ ?v) (drop (length ?v) free) 2 prev' (length ?pre))"
      using fit by (intro macro_value_fits) simp
    ultimately show ?thesis
      using n(2,3) by (cases "vars n") (simp_all add: macro_char_def cl_def, simp_all add: mst_def)
  qed
  then have "macro_loop look mem (mst (?pre @ n) (cl # rest) out free 2 prev' (length ?pre))
    = macro_loop look mem (mst ((?pre @ n) @ [cl]) rest (out @ ?v) (drop (length ?v) free) 0 cl (length ?pre))"
    using macro_loop_char [where pre = "?pre @ n" and c = cl and rest = rest and suf = suf
        and state = 2 and free = free and mem = mem] mem' free by (simp add: cl_def)
  finally show ?thesis
    by (intro exI [of _ cl] exI [of _ "length ?pre"]) (simp add: op_def cl_def)
qed

lemma macro_loop_piece:
  assumes mem: "mem = pre @ render_piece p @ rest @ suf" and ok: "piece_ok p"
    and look: "\<And>b n. p = Variable b n \<Longrightarrow> look n = Some (vars n) \<and> length n < CONFIG_SYS_CBSIZE"
    and fit: "length (piece_value vars p) < length free" and prev: "prev \<noteq> 0x5c"
  shows "\<exists>prev' var'. prev' \<noteq> 0x5c \<and> macro_loop look mem (mst pre (render_piece p @ rest) out free 0 prev var)
    = macro_loop look mem (mst (pre @ render_piece p) rest (out @ piece_value vars p)
        (drop (length (piece_value vars p)) free) 0 prev' var')"
proof (cases p)
  case (Plain s)
  then show ?thesis
    using macro_loop_state0 [of mem pre s rest suf free prev look out var] assms by auto
next
  case (Variable b n)
  then show ?thesis using macro_loop_variable [of mem pre b n rest suf look vars free prev out var] assms by simp
next
  case (Quoted s)
  have free: "free \<noteq> []" using fit by auto
  have "macro_char look mem 0x27 (mst (pre @ [0x27]) (s @ 0x27 # rest) out free 0 prev var)
    = Some (mst (pre @ [0x27]) (s @ 0x27 # rest) out free 3 prev var)"
    using prev by (simp add: macro_char_def mst_def)
  then have "macro_loop look mem (mst pre (0x27 # s @ 0x27 # rest) out free 0 prev var)
    = macro_loop look mem (mst (pre @ [0x27]) (s @ 0x27 # rest) out free 3 0x27 var)"
    using macro_loop_char [where pre = pre and c = "0x27" and rest = "s @ 0x27 # rest" and suf = suf
        and state = 0 and free = free and mem = mem] mem Quoted free by simp
  also have "\<dots> = macro_loop look mem (mst ((pre @ [0x27]) @ s @ [0x27]) rest (out @ s) (drop (length s) free) 0 0x27 var)"
    by (rule macro_loop_state3) (use mem Quoted ok fit in auto)
  finally show ?thesis using Quoted by (intro exI [of _ "0x27"] exI [of _ var]) simp
next
  case (Escaped c)
  then obtain f free' where free: "free = f # free'" using fit by (cases free) auto
  have "macro_char look mem c (mst (pre @ [0x5c, c]) rest out free 0 0x5c var)
    = Some (mst (pre @ [0x5c, c]) rest (out @ [c]) free' 0 0x5c var)"
    by (simp add: macro_char_def free mst_put) (simp add: mst_def)
  moreover have "rd mem (Suc (length pre)) = Some c" using rd_at [of "pre @ [0x5c]" c "rest @ suf"] mem Escaped by simp
  ultimately have "macro_step look mem (mst pre (0x5c # c # rest) out free 0 prev var)
    = Some (Inl (mst (pre @ [0x5c, c]) rest (out @ [c]) free' 0 c var))"
    using mem Escaped prev by (simp add: macro_step_def mst_def)
  then have "macro_loop look mem (mst pre (0x5c # c # rest) out free 0 prev var)
    = macro_loop look mem (mst (pre @ [0x5c, c]) rest (out @ [c]) free' 0 c var)"
    by (subst macro_loop.simps) (simp add: mst_def free)
  then show ?thesis using Escaped free ok by (intro exI [of _ c] exI [of _ var]) simp
qed

lemma macro_loop_pieces:
  assumes "mem = pre @ render ps @ suf" "\<forall>p \<in> set ps. piece_ok p"
    "\<forall>b n. Variable b n \<in> set ps \<longrightarrow> look n = Some (vars n) \<and> length n < CONFIG_SYS_CBSIZE"
    "length (line_value vars ps) < length free" "prev \<noteq> 0x5c"
  shows "\<exists>prev' var'. macro_loop look mem (mst pre (render ps) out free 0 prev var)
    = Some (mst (pre @ render ps) [] (out @ line_value vars ps) (drop (length (line_value vars ps)) free) 0 prev' var')"
  using assms
proof (induction ps arbitrary: pre out free prev var)
  case Nil
  show ?case
    by (intro exI [of _ prev] exI [of _ var], subst macro_loop.simps) (simp add: render_def line_value_def mst_def)
next
  case (Cons p ps)
  let ?v = "piece_value vars p"
  have r: "render (p # ps) = render_piece p @ render ps" "line_value vars (p # ps) = ?v @ line_value vars ps"
    by (simp_all add: render_def line_value_def)
  obtain prev1 var1 where 1: "prev1 \<noteq> 0x5c" "macro_loop look mem (mst pre (render_piece p @ render ps) out free 0 prev var)
    = macro_loop look mem (mst (pre @ render_piece p) (render ps) (out @ ?v) (drop (length ?v) free) 0 prev1 var1)"
    using macro_loop_piece [of mem pre p "render ps" suf look vars free prev out var] Cons.prems by (auto simp: r)
  moreover have "\<exists>prev' var'. macro_loop look mem (mst (pre @ render_piece p) (render ps) (out @ ?v) (drop (length ?v) free) 0 prev1 var1)
    = Some (mst ((pre @ render_piece p) @ render ps) [] ((out @ ?v) @ line_value vars ps)
        (drop (length (line_value vars ps)) (drop (length ?v) free)) 0 prev' var')"
    by (rule Cons.IH) (use Cons.prems 1(1) in \<open>auto simp: r\<close>)
  ultimately show ?case by (simp add: r add.commute)
qed

lemma piece_nonzero: "piece_ok p \<Longrightarrow> 0 \<notin> set (render_piece p)"
  by (cases p) auto

lemma variable_length: "Variable b n \<in> set ps \<Longrightarrow> length n < length (render ps)"
  by (induction ps) (auto simp: render_def)

lemma process_macros_expands_lemma:
  assumes "\<forall>p \<in> set ps. piece_ok p" "\<forall>b n. Variable b n \<in> set ps \<longrightarrow> look n = Some (vars n)"
    "length (render ps) < CONFIG_SYS_CBSIZE" "length (line_value vars ps) < CONFIG_SYS_CBSIZE"
    "length output = CONFIG_SYS_CBSIZE"
  shows "process_macros look (pre @ render ps @ 0 # suf) (length pre) output
    = Some (line_value vars ps @ 0 # drop (length (line_value vars ps) + 1) output)"
proof -
  let ?mem = "pre @ render ps @ 0 # suf" and ?v = "line_value vars ps"
  have "0 \<notin> set (render ps)" using assms(1) piece_nonzero by (auto simp: render_def)
  then have "strlen ?mem (length pre) = Some (length (render ps))" by (simp add: strlen_def str_end_at)
  moreover have "\<lparr>m_in = length pre, m_cnt = length (render ps), m_out = output, m_pos = 0,
      m_left = CONFIG_SYS_CBSIZE, m_state = 0, m_prev = 0, m_var = 0\<rparr> = mst pre (render ps) [] output 0 0 0"
    using assms(5) by (simp add: mst_def)
  moreover have "\<exists>prev' var'. macro_loop look ?mem (mst pre (render ps) [] output 0 0 0)
    = Some (mst (pre @ render ps) [] ([] @ ?v) (drop (length ?v) output) 0 prev' var')"
    by (rule macro_loop_pieces) (use assms in \<open>auto dest: variable_length\<close>)
  then obtain prev' var' where "macro_loop look ?mem (mst pre (render ps) [] output 0 0 0)
    = Some (mst (pre @ render ps) [] ?v (drop (length ?v) output) 0 prev' var')" by auto
  moreover obtain f free where f: "drop (length ?v) output = f # free" "free = drop (length ?v + 1) output"
    using assms(4,5) by (metis Cons_nth_drop_Suc Suc_eq_plus1)
  ultimately show ?thesis by (simp add: process_macros_def mst_def wr_append)
qed

text \<open>C30:
  Variables, quotes and escapes: a line made of plain text, variables in either kind of bracket,
  quoted text and escaped characters becomes the concatenation of their meanings, terminated,
  and the rest of the output buffer is left alone, whenever the result fits.\<close>

theorem process_macros_expands:
  assumes "\<forall>p \<in> set ps. piece_ok p" "\<forall>b n. Variable b n \<in> set ps \<longrightarrow> look n = Some (vars n)"
    "length (render ps) < CONFIG_SYS_CBSIZE" "length (line_value vars ps) < CONFIG_SYS_CBSIZE"
    "length output = CONFIG_SYS_CBSIZE"
  shows "process_macros look (pre @ render ps @ 0 # suf) (length pre) output
    = Some (line_value vars ps @ 0 # drop (length (line_value vars ps) + 1) output)"
  using assms by (rule process_macros_expands_lemma)

theorem process_macros_expands_witness:
  "process_macros (\<lambda>n. Some (if n = [0x61] then Some [0x31] else None)) (ascii ''x${a}$(b)y'' @ [0]) 0 (replicate 256 7)
    = Some (ascii ''x1y'' @ 0 # replicate 252 7)"
proof -
  let ?ps = "[Plain [0x78], Variable True [0x61], Variable False [0x62], Plain [0x79]]"
  have "render ?ps = ascii ''x${a}$(b)y''"
    "line_value (\<lambda>n. if n = [0x61] then Some [0x31] else None) ?ps = ascii ''x1y''"
    by (simp_all add: render_def line_value_def ascii_def)
  then show ?thesis
    using process_macros_expands [of ?ps "\<lambda>n. Some (if n = [0x61] then Some [0x31] else None)"
        "\<lambda>n. if n = [0x61] then Some [0x31] else None" "replicate 256 7" "[]" "[]"]
    by (simp add: CONFIG_SYS_CBSIZE_def ascii_def)
qed


section \<open>The output buffer\<close>

text \<open>The input is \<open>mem\<close> between \<open>lo\<close> and \<open>hi\<close>; the indices and the room left fit together.\<close>

definition macro_inv :: "u8 list \<Rightarrow> nat \<Rightarrow> nat \<Rightarrow> macros \<Rightarrow> bool" where
  "macro_inv mem lo hi st \<longleftrightarrow> lo \<le> m_in st \<and> m_in st + m_cnt st = hi \<and> hi < length mem \<and> hi < lo + CONFIG_SYS_CBSIZE
     \<and> (\<forall>i. lo \<le> i \<and> i < hi \<longrightarrow> mem ! i \<noteq> 0)
     \<and> m_pos st + m_left st = CONFIG_SYS_CBSIZE \<and> length (m_out st) = CONFIG_SYS_CBSIZE
     \<and> (m_state st = 2 \<longrightarrow> lo \<le> m_var st)"

definition total_lookup :: "lookup \<Rightarrow> bool" where
  "total_lookup look \<longleftrightarrow> (\<forall>n. 0 \<notin> set n \<longrightarrow> look n \<noteq> None)"

lemma macro_put_inv:
  assumes "macro_inv mem lo hi st" "m_left st \<noteq> 0"
  obtains st' where "macro_put c st = Some st'" "macro_inv mem lo hi st'" "m_state st' = m_state st"
  using assms by (auto simp: macro_put_def macro_inv_def)

lemma macro_value_inv:
  "macro_inv mem lo hi st \<Longrightarrow> \<exists>st'. macro_value v st = Some st' \<and> macro_inv mem lo hi st'"
proof (induction v arbitrary: st)
  case (Cons c v)
  show ?case
  proof (cases "m_left st = 0")
    case False
    obtain st1 where "macro_put c st = Some st1" "macro_inv mem lo hi st1"
      using macro_put_inv [OF Cons.prems False] .
    then show ?thesis using Cons.IH [of st1] False by simp
  qed (use Cons.prems in simp)
qed simp

lemma macro_inv_state: "macro_inv mem lo hi st \<Longrightarrow> k \<noteq> 2 \<Longrightarrow> macro_inv mem lo hi (st\<lparr>m_state := k\<rparr>)"
  by (simp add: macro_inv_def)

lemma macro_inv_prev [simp]: "macro_inv mem lo hi (st\<lparr>m_prev := c\<rparr>) = macro_inv mem lo hi st"
  by (simp add: macro_inv_def)

text \<open>A step that goes well.\<close>

definition runs :: "u8 list \<Rightarrow> nat \<Rightarrow> nat \<Rightarrow> macros option \<Rightarrow> bool" where
  "runs mem lo hi r \<longleftrightarrow> (\<exists>st. r = Some st \<and> macro_inv mem lo hi st)"

lemma runs_if: "(P \<Longrightarrow> runs mem lo hi a) \<Longrightarrow> (\<not> P \<Longrightarrow> runs mem lo hi b) \<Longrightarrow> runs mem lo hi (if P then a else b)"
  by simp

lemma runs_Some: "macro_inv mem lo hi st \<Longrightarrow> runs mem lo hi (Some st)"
  by (simp add: runs_def)

lemma runs_put: "macro_inv mem lo hi st \<Longrightarrow> m_left st \<noteq> 0 \<Longrightarrow> runs mem lo hi (macro_put c st)"
  by (metis macro_put_inv runs_def)

lemma runs_dollar:
  assumes "macro_inv mem lo hi st" "m_left st \<noteq> 0"
  shows "runs mem lo hi (do { st \<leftarrow> macro_put 0x24 (st\<lparr>m_state := 0\<rparr>); if m_left st \<noteq> 0 then macro_put c st else Some st })"
proof -
  have i: "macro_inv mem lo hi (st\<lparr>m_state := 0\<rparr>)" using macro_inv_state [OF assms(1), of 0] by simp
  have l: "m_left (st\<lparr>m_state := 0\<rparr>) \<noteq> 0" using assms(2) by simp
  obtain st1 where st1: "macro_put 0x24 (st\<lparr>m_state := 0\<rparr>) = Some st1" "macro_inv mem lo hi st1"
    using macro_put_inv [OF i l, of "0x24"] by blast
  show ?thesis
    unfolding st1(1) Option.bind.simps by (rule runs_if) (simp_all add: runs_put runs_Some st1(2))
qed

lemma runs_variable:
  assumes "macro_inv mem lo hi st" "total_lookup look" "m_state st = 2"
  shows "runs mem lo hi (do {
    let envcnt = m_in st - m_var st - 1;
    envname \<leftarrow> (if envcnt < CONFIG_SYS_CBSIZE then Some (take envcnt (drop (m_var st) mem)) else None);
    envval \<leftarrow> look envname;
    st \<leftarrow> (case envval of None \<Rightarrow> Some st | Some v \<Rightarrow> macro_value v st);
    Some (st\<lparr>m_state := 0\<rparr>) })"
proof -
  let ?n = "m_in st - m_var st - 1"
  have b: "lo \<le> m_var st" "m_in st \<le> hi" "hi < length mem" "hi < lo + CONFIG_SYS_CBSIZE"
    "\<forall>i. lo \<le> i \<and> i < hi \<longrightarrow> mem ! i \<noteq> 0"
    using assms(1,3) by (auto simp: macro_inv_def)
  have n: "?n < CONFIG_SYS_CBSIZE" using b by (simp add: CONFIG_SYS_CBSIZE_def)
  have "0 \<notin> set (take ?n (drop (m_var st) mem))"
    using b by (auto simp: in_set_conv_nth)
  then obtain v where v: "look (take ?n (drop (m_var st) mem)) = Some v"
    using assms(2) by (auto simp: total_lookup_def)
  obtain st1 where st1: "(case v of None \<Rightarrow> Some st | Some v \<Rightarrow> macro_value v st) = Some st1" "macro_inv mem lo hi st1"
    using macro_value_inv [OF assms(1)] assms(1) by (cases v) auto
  show ?thesis
    using n v st1 macro_inv_state [OF st1(2), of 0] by (simp add: runs_def)
qed

lemma macro_char_inv:
  assumes "macro_inv mem lo hi st" "m_left st \<noteq> 0" "total_lookup look"
  shows "runs mem lo hi (macro_char look mem c st)"
proof -
  have "macro_inv mem lo hi (st\<lparr>m_state := 2, m_var := m_in st\<rparr>)" using assms(1) by (simp add: macro_inv_def)
  then show ?thesis
    unfolding macro_char_def
    by (intro runs_if runs_put runs_dollar runs_variable runs_Some macro_inv_state assms) simp_all
qed

lemma macro_step_inv:
  assumes "macro_inv mem lo hi st" "m_left st \<noteq> 0" "m_cnt st \<noteq> 0" "total_lookup look"
  shows "\<exists>r. macro_step look mem st = Some r \<and> macro_inv mem lo hi (case r of Inl st \<Rightarrow> st | Inr st \<Rightarrow> st)"
proof -
  have b: "m_in st < hi" "hi < length mem" using assms(1,3) by (auto simp: macro_inv_def)
  let ?c = "mem ! m_in st" and ?st = "st\<lparr>m_in := m_in st + 1, m_cnt := m_cnt st - 1\<rparr>"
  have c: "rd mem (m_in st) = Some ?c" using b by simp
  have inv: "macro_inv mem lo hi ?st" using assms(1,3) by (auto simp: macro_inv_def)
  show ?thesis
  proof (cases "m_state st \<noteq> 3 \<and> ?c = 0x5c \<and> m_prev st \<noteq> 0x5c")
    case False
    obtain st1 where "macro_char look mem ?c ?st = Some st1" "macro_inv mem lo hi st1"
      using macro_char_inv [OF inv _ assms(4), of ?c] assms(2) by (auto simp: runs_def)
    then show ?thesis using False c by (auto simp: macro_step_def)
  next
    case esc: True
    show ?thesis
    proof (cases "m_cnt st - 1 = 0")
      case True
      then show ?thesis using esc c inv by (auto simp: macro_step_def)
    next
      case False
      let ?st2 = "?st\<lparr>m_cnt := m_cnt st - 1 - 1, m_prev := ?c, m_in := m_in st + 1 + 1\<rparr>"
      have inv2: "macro_inv mem lo hi ?st2" using inv False by (auto simp: macro_inv_def)
      have "m_in st + 1 < length mem" using inv False by (auto simp: macro_inv_def)
      then have d: "rd mem (m_in st + 1) = Some (mem ! (m_in st + 1))" by simp
      obtain st1 where "macro_char look mem (mem ! (m_in st + 1)) ?st2 = Some st1" "macro_inv mem lo hi st1"
        using macro_char_inv [OF inv2 _ assms(4), of "mem ! (m_in st + 1)"] assms(2) by (auto simp: runs_def)
      then show ?thesis using esc c d False by (auto simp: macro_step_def)
    qed
  qed
qed

lemma macro_loop_inv:
  "macro_inv mem lo hi st \<Longrightarrow> total_lookup look \<Longrightarrow> \<exists>st'. macro_loop look mem st = Some st' \<and> macro_inv mem lo hi st'"
proof (induction look mem st rule: macro_loop.induct)
  case (1 look mem st)
  show ?case
  proof (cases "m_cnt st \<noteq> 0 \<and> m_left st \<noteq> 0")
    case False
    then show ?thesis using "1.prems" by (subst macro_loop.simps) auto
  next
    case True
    obtain r where r: "macro_step look mem st = Some r" "macro_inv mem lo hi (case r of Inl st \<Rightarrow> st | Inr st \<Rightarrow> st)"
      using macro_step_inv [OF "1.prems"(1) _ _ "1.prems"(2)] True by blast
    then show ?thesis
      using "1.IH" [OF True r(1)] "1.prems"(2) True by (subst macro_loop.simps) (cases r; simp)
  qed
qed

lemma process_macros_safe_lemma:
  assumes "total_lookup look" "0 \<notin> set s" "length s < CONFIG_SYS_CBSIZE" "length output = CONFIG_SYS_CBSIZE"
  shows "\<exists>output' t rest. process_macros look (pre @ s @ 0 # suf) (length pre) output = Some output'
    \<and> length output' = CONFIG_SYS_CBSIZE \<and> output' = t @ 0 # rest \<and> 0 \<notin> set t"
proof -
  let ?mem = "pre @ s @ 0 # suf"
  let ?st = "\<lparr>m_in = length pre, m_cnt = length s, m_out = output, m_pos = 0,
      m_left = CONFIG_SYS_CBSIZE, m_state = 0, m_prev = 0, m_var = 0\<rparr>"
  have "macro_inv ?mem (length pre) (length pre + length s) ?st"
    using assms(2,3,4) by (auto simp: macro_inv_def nth_append)
      (metis add_diff_cancel_left' add_diff_inverse_nat linorder_not_le nat_add_left_cancel_less nth_mem)
  then obtain st where st: "macro_loop look ?mem ?st = Some st" "macro_inv ?mem (length pre) (length pre + length s) st"
    using macro_loop_inv assms(1) by blast
  define k where "k = (if m_left st \<noteq> 0 then m_pos st else m_pos st - 1)"
  have k: "k < length (m_out st)" "length (m_out st) = CONFIG_SYS_CBSIZE"
    using st(2) by (auto simp: macro_inv_def k_def CONFIG_SYS_CBSIZE_def)
  have "process_macros look ?mem (length pre) output = Some ((m_out st)[k := 0])"
    using st(1) k str_end_at [OF assms(2), of pre suf]
    by (cases "m_left st = 0") (simp_all add: process_macros_def strlen_def k_def)
  moreover have "0 \<in> set ((m_out st)[k := 0])" using k(1) by (rule set_update_memI)
  then obtain t rest where "(m_out st)[k := 0] = t @ 0 # rest" "0 \<notin> set t" by (metis split_list_first)
  ultimately show ?thesis using k(2) by (metis length_list_update)
qed

text \<open>C35:
  Bounds of the expansion: for every line shorter than the console buffer, with unbalanced quotes
  and brackets, stray backslashes and values of any length, nothing is read or written outside
  the buffers, and what is left in the output buffer is a terminated string.\<close>

theorem process_macros_safe:
  assumes "total_lookup look" "0 \<notin> set s" "length s < CONFIG_SYS_CBSIZE" "length output = CONFIG_SYS_CBSIZE"
  shows "\<exists>output' t rest. process_macros look (pre @ s @ 0 # suf) (length pre) output = Some output'
    \<and> length output' = CONFIG_SYS_CBSIZE \<and> output' = t @ 0 # rest \<and> 0 \<notin> set t"
  using assms by (rule process_macros_safe_lemma)

theorem process_macros_safe_witness:
  "\<exists>output'. process_macros (\<lambda>n. Some (Some (replicate 999 0x78))) (ascii ''${a}${'' @ [0]) 0 (replicate 256 0) = Some output'
    \<and> length output' = 256"
  using process_macros_safe [of "\<lambda>n. Some (Some (replicate 999 0x78))" "ascii ''${a}${''" "replicate 256 0" "[]" "[]"]
  by (auto simp: total_lookup_def CONFIG_SYS_CBSIZE_def ascii_def)


end
