(* ===== verification/Shell.thy ===== *)
theory Shell
  imports Prelude CmdParse Env
begin

text \<open>
  The command interpreter of \<^verbatim>\<open>common/main.c\<close>: \<^verbatim>\<open>run_command\<close> with \<^verbatim>\<open>run\<close> and \<^verbatim>\<open>boot\<close>, the
  countdown \<^verbatim>\<open>abortboot\<close>, and \<^verbatim>\<open>main_loop\<close>.  The state is the environment of theory Env with
  the Ctrl-C flag of \<^verbatim>\<open>common/console.c\<close> and the locals of \<^verbatim>\<open>main_loop\<close> that live across
  iterations.  Commands other than \<^verbatim>\<open>run\<close> and \<^verbatim>\<open>boot\<close> are a parameter.  Messages to the console
  are not part of the result.  The theorems show that a command line built from commands means
  what the commands mean one after the other, that the interpreter returns, and when the machine
  boots by itself.
\<close>

section \<open>Running a command line\<close>

record 'c shell = "'c env_state" +
  ctrlc_was_pressed :: bool
  lastcommand :: "u8 list"
  last_rc :: int

definition clear_ctrlc :: "'c shell \<Rightarrow> 'c shell" where
  "clear_ctrlc s = s\<lparr>ctrlc_was_pressed := False\<rparr>"

definition had_ctrlc :: "'c shell \<Rightarrow> bool" where
  "had_ctrlc s = ctrlc_was_pressed s"

definition CMD_FLAG_REPEAT :: u32 where "CMD_FLAG_REPEAT = 1"
definition CMD_FLAG_BOOTD :: u32 where "CMD_FLAG_BOOTD = 2"

text \<open>
  The search for a separator from \<open>str\<close> on.  A quote looks at the character before it, even when
  it is the first one of the buffer.
\<close>

function sep_scan :: "u8 list \<Rightarrow> nat \<Rightarrow> bool \<Rightarrow> nat \<Rightarrow> nat option" where
  "sep_scan mem str inquotes sep =
     (case rd mem sep of
        None \<Rightarrow> None
      | Some c \<Rightarrow>
          if c = 0 then Some sep
          else if c = 0x27 \<and> sep = 0 then None
          else (let escaped = (sep \<noteq> 0 \<and> mem ! (sep - 1) = 0x5c);
                    inquotes = (if c = 0x27 \<and> \<not> escaped then \<not> inquotes else inquotes)
                in if \<not> inquotes \<and> c = 0x3b \<and> sep \<noteq> str \<and> \<not> escaped then Some sep
                   else sep_scan mem str inquotes (sep + 1)))"
  by pat_completeness auto
termination
  by (relation "measure (\<lambda>(mem, str, inquotes, sep). length mem - sep)") (auto simp: buf_simps)

declare sep_scan.simps [simp del]

lemma sep_scan_bounds:
  "sep_scan mem str inq i = Some j \<Longrightarrow> i \<le> j \<and> j < length mem \<and> (j = str \<longrightarrow> mem ! j = 0)"
proof (induction mem str inq i rule: sep_scan.induct)
  case (1 mem str inq i)
  from "1.prems" obtain c where c: "rd mem i = Some c" by (subst (asm) sep_scan.simps) (auto split: option.splits)
  show ?case
  proof (cases "c = 0")
    case True
    then show ?thesis using "1.prems" c by (subst (asm) sep_scan.simps) (auto simp: buf_simps)
  next
    case False
    then show ?thesis
      using "1.prems" c "1.IH" [OF c False _ refl refl]
      by (subst (asm) sep_scan.simps) (auto simp: buf_simps Let_def split: if_splits)
  qed
qed

lemma sep_scan_after:
  "sep_scan mem str inq str = Some j \<Longrightarrow> mem ! str \<noteq> 0 \<Longrightarrow> str < j \<and> j < length mem"
  using sep_scan_bounds [of mem str inq str j] by (cases "j = str") auto

type_synonym ('c, 's) call = "'c cmd_tbl \<Rightarrow> u32 \<Rightarrow> u8 list list \<Rightarrow> 's \<Rightarrow> (int \<times> 's) option"

text \<open>
  One token, which starts at \<open>token\<close> in the command buffer.  \<^verbatim>\<open>Inl\<close> is the next pass with the new
  \<^verbatim>\<open>flag\<close>, \<^verbatim>\<open>repeatable\<close> and \<^verbatim>\<open>rc\<close>, \<^verbatim>\<open>Inr\<close> the return after Ctrl-C.  The two local buffers are
  written before they are read.
\<close>

definition run_token ::
    "('c, 'd shell) call \<Rightarrow> 'c cmd_tbl list \<Rightarrow> u8 list \<Rightarrow> nat \<Rightarrow> u32 \<Rightarrow> int \<Rightarrow> int \<Rightarrow> 'd shell
     \<Rightarrow> ((u32 \<times> int \<times> int \<times> 'd shell) + (int \<times> 'd shell)) option" where
  "run_token call table mem token flag rpt rc s = do {
     finaltoken \<leftarrow> process_macros (getenv_string s) mem token (replicate CONFIG_SYS_CBSIZE 0);
     (argc, argv, finaltoken) \<leftarrow> parse_line finaltoken (replicate (CONFIG_SYS_MAXARGS + 1) None);
     if argc = 0 then Some (Inl (flag, rpt, - 1, s))
     else do {
       args \<leftarrow> arg_strings finaltoken argv argc;
       cmdtp \<leftarrow> find_cmd_tbl (hd args) table;
       case cmdtp of
         None \<Rightarrow> Some (Inl (flag, rpt, - 1, s))
       | Some i \<Rightarrow>
           if maxargs (table ! i) < argc then Some (Inl (flag, rpt, - 1, s))
           else if is_bootd (cmd (table ! i)) \<and> flag AND CMD_FLAG_BOOTD \<noteq> 0 then Some (Inl (flag, rpt, - 1, s))
           else do {
             let flag = (if is_bootd (cmd (table ! i)) then flag OR CMD_FLAG_BOOTD else flag);
             (r, s) \<leftarrow> call (table ! i) flag args s;
             let rc = (if r \<noteq> 0 then - 1 else rc);
             let rpt = rpt AND repeatable (table ! i);
             Some (if had_ctrlc s then Inr (- 1, s) else Inl (flag, rpt, rc, s))
           }
     }
   }"

function run_segments ::
    "('c, 'd shell) call \<Rightarrow> 'c cmd_tbl list \<Rightarrow> u8 list \<Rightarrow> nat \<Rightarrow> u32 \<Rightarrow> int \<Rightarrow> int \<Rightarrow> 'd shell
     \<Rightarrow> (int \<times> 'd shell) option" where
  "run_segments call table mem str flag rpt rc s =
     (case rd mem str of
        None \<Rightarrow> None
      | Some c \<Rightarrow>
          if c = 0 then Some (if rc \<noteq> 0 then rc else rpt, s)
          else (case sep_scan mem str False str of
                  None \<Rightarrow> None
                | Some sep \<Rightarrow>
                    let nxt = (if mem ! sep \<noteq> 0 then sep + 1 else sep);
                        mem = mem[sep := 0]
                    in case run_token call table mem str flag rpt rc s of
                         None \<Rightarrow> None
                       | Some (Inr r) \<Rightarrow> Some r
                       | Some (Inl (flag, rpt, rc, s)) \<Rightarrow> run_segments call table mem nxt flag rpt rc s))"
  by pat_completeness auto
termination
  by (relation "measure (\<lambda>(call, table, mem, str, flag, rpt, rc, s). length mem - str)")
    (auto simp: buf_simps dest!: sep_scan_after)

declare run_segments.simps [simp del]

text \<open>
  The two commands that call the interpreter again.  The first argument of \<^verbatim>\<open>run\<close> is \<^verbatim>\<open>run_command\<close>.
\<close>

type_synonym 's runner = "u8 list option \<Rightarrow> u32 \<Rightarrow> 's \<Rightarrow> (int \<times> 's) option"

fun run_vars :: "'d shell runner \<Rightarrow> u32 \<Rightarrow> u8 list list \<Rightarrow> 'd shell \<Rightarrow> (int \<times> 'd shell) option" where
  "run_vars run flag [] s = Some (0, s)"
| "run_vars run flag (name # names) s = do {
     arg \<leftarrow> getenv_string s name;
     case arg of
       None \<Rightarrow> Some (1, s)
     | Some arg \<Rightarrow> do {
         (r, s) \<leftarrow> run (Some arg) flag s;
         if r = - 1 then Some (1, s) else run_vars run flag names s
       }
   }"

definition do_run :: "'d shell runner \<Rightarrow> u32 \<Rightarrow> u8 list list \<Rightarrow> 'd shell \<Rightarrow> (int \<times> 'd shell) option" where
  "do_run run flag argv s = (if length argv < 2 then Some (1, s) else run_vars run flag (tl argv) s)"

definition do_bootd :: "'d shell runner \<Rightarrow> u32 \<Rightarrow> 'd shell \<Rightarrow> (int \<times> 'd shell) option" where
  "do_bootd run flag s = do {
     arg \<leftarrow> getenv_string s (ascii ''bootcmd'');
     (r, s) \<leftarrow> run arg flag s;
     Some (if r < 0 then 1 else 0, s)
   }"

type_synonym ('c, 'd) exec = "'c \<Rightarrow> u32 \<Rightarrow> u8 list list \<Rightarrow> 'd shell \<Rightarrow> (int \<times> 'd shell) option"

definition call_cmd :: "('c, 'd) exec \<Rightarrow> 'd shell runner \<Rightarrow> ('c, 'd shell) call" where
  "call_cmd exec run cmdtp flag argv s =
     (case cmd cmdtp of
        DoRun \<Rightarrow> do_run run flag argv s
      | DoBootd \<Rightarrow> do_bootd run flag s
      | OtherCmd c \<Rightarrow> exec c flag argv s)"

text \<open>
  The first argument is the number of nested calls the stack has room for; a deeper nesting
  overruns the stack and is undefined.
\<close>

fun run_command ::
    "nat \<Rightarrow> ('c, 'd) exec \<Rightarrow> 'c cmd_tbl list \<Rightarrow> 'd shell runner" where
  "run_command 0 exec table line flag s = None"
| "run_command (Suc n) exec table line flag s =
     (let s = clear_ctrlc s
      in case line of
           None \<Rightarrow> Some (- 1, s)
         | Some line \<Rightarrow>
             if line = [] \<or> CONFIG_SYS_CBSIZE \<le> length line then Some (- 1, s)
             else run_segments (call_cmd exec (run_command n exec table)) table (line @ [0]) 0 flag 1 0 s)"

section \<open>The main loop\<close>

text \<open>
  \<open>tstc k\<close> is the \<open>k\<close>-th answer of the console; polls are 10 ms apart.  The result is whether a
  key was pressed and the number of polls.
\<close>

fun poll_second :: "(nat \<Rightarrow> bool) \<Rightarrow> nat \<Rightarrow> nat \<Rightarrow> bool \<times> nat" where
  "poll_second tstc 0 k = (False, k)"
| "poll_second tstc (Suc i) k = (if tstc k then (True, k + 1) else poll_second tstc i (k + 1))"

fun abortboot :: "(nat \<Rightarrow> bool) \<Rightarrow> nat \<Rightarrow> nat \<Rightarrow> bool \<times> nat" where
  "abortboot tstc 0 k = (False, k)"
| "abortboot tstc (Suc bootdelay) k =
     (let (abort, k) = poll_second tstc 100 k
      in if abort then (True, k) else abortboot tstc bootdelay k)"

definition CONFIG_BOOTDELAY :: int where "CONFIG_BOOTDELAY = 4"

text \<open>Everything before the prompt: the partition table, the countdown and the boot command.\<close>

definition main_boot ::
    "'d shell runner \<Rightarrow> (nat \<Rightarrow> bool) \<Rightarrow> 'd shell \<Rightarrow> 'd shell option" where
  "main_boot run tstc s = do {
     parts \<leftarrow> getenv_string s (ascii ''mtdparts'');
     s \<leftarrow> (if parts = None then map_option snd (run (Some (ascii ''mtdparts default'')) 0 s) else Some s);
     delay \<leftarrow> getenv_string s (ascii ''bootdelay'');
     let bootdelay = (case delay of None \<Rightarrow> CONFIG_BOOTDELAY | Some d \<Rightarrow> sint (fst (simple_strtol d 10)));
     bootcmd \<leftarrow> getenv_string s (ascii ''bootcmd'');
     if 0 \<le> bootdelay \<and> bootcmd \<noteq> None \<and> \<not> fst (abortboot tstc (nat bootdelay) 0)
     then map_option snd (run bootcmd 0 s)
     else Some s
   }"

text \<open>
  One pass of the loop after \<^verbatim>\<open>readline\<close> has returned \<open>len\<close> with \<open>line\<close> in the console buffer.
\<close>

definition main_step :: "'d shell runner \<Rightarrow> int \<Rightarrow> u8 list \<Rightarrow> 'd shell \<Rightarrow> 'd shell option" where
  "main_step run len line s = do {
     let flag = (if len = 0 then CMD_FLAG_REPEAT else 0);
     let s = (if 0 < len then s\<lparr>lastcommand := line\<rparr> else s);
     s \<leftarrow> (if len = - 1 then Some s
          else map_option (\<lambda>(rc, s). s\<lparr>last_rc := rc\<rparr>) (run (Some (lastcommand s)) flag s));
     Some (if last_rc s \<le> 0 then s\<lparr>lastcommand := []\<rparr> else s)
   }"


section \<open>Starting by itself\<close>

lemma poll_second_eq:
  "poll_second tstc i k = (if \<exists>j < i. tstc (k + j) then (True, Suc (k + (LEAST j. tstc (k + j)))) else (False, k + i))"
proof (induction i arbitrary: k)
  case (Suc i)
  show ?case
  proof (cases "tstc k")
    case True
    then have "(LEAST j. tstc (k + j)) = 0" by (intro Least_equality) simp_all
    then show ?thesis using True by (auto intro: exI [of _ 0])
  next
    case False
    have ex: "(\<exists>j < Suc i. tstc (k + j)) \<longleftrightarrow> (\<exists>j < i. tstc (Suc k + j))"
      using False by (metis Suc_less_eq add_Suc_shift gr0_conv_Suc not_gr_zero add.right_neutral less_Suc_eq_0_disj)
    have "(LEAST j. tstc (k + j)) = Suc (LEAST j. tstc (Suc k + j))" if "\<exists>j < i. tstc (Suc k + j)"
    proof -
      from that obtain j where "tstc (Suc k + j)" by blast
      then have "tstc (k + Suc j)" by simp
      then show ?thesis using Least_Suc [of "\<lambda>j. tstc (k + j)" "Suc j"] False by simp
    qed
    then show ?thesis using False Suc.IH [of "Suc k"] ex by auto
  qed
qed simp

lemma abortboot_eq:
  "abortboot tstc d k = (if \<exists>j < 100 * d. tstc (k + j) then (True, Suc (k + (LEAST j. tstc (k + j)))) else (False, k + 100 * d))"
proof (induction d arbitrary: k)
  case (Suc d)
  show ?case
  proof (cases "\<exists>j < 100. tstc (k + j)")
    case True
    then obtain j where "j < 100" "tstc (k + j)" by blast
    then have "\<exists>j < 100 * Suc d. tstc (k + j)" by (intro exI [of _ j]) simp
    then show ?thesis using True by (simp add: poll_second_eq)
  next
    case False
    have ex: "(\<exists>j < 100 * Suc d. tstc (k + j)) \<longleftrightarrow> (\<exists>j < 100 * d. tstc (k + 100 + j))"
    proof
      assume "\<exists>j < 100 * Suc d. tstc (k + j)"
      then obtain j where j: "j < 100 * Suc d" "tstc (k + j)" by blast
      then have "100 \<le> j" using False by (meson not_le)
      then show "\<exists>j < 100 * d. tstc (k + 100 + j)" using j by (intro exI [of _ "j - 100"]) auto
    next
      assume "\<exists>j < 100 * d. tstc (k + 100 + j)"
      then obtain j where "j < 100 * d" "tstc (k + (100 + j))" by (auto simp: add.assoc)
      then show "\<exists>j < 100 * Suc d. tstc (k + j)" by (intro exI [of _ "100 + j"]) simp
    qed
    have "(LEAST j. tstc (k + j)) = 100 + (LEAST j. tstc (k + 100 + j))" if "\<exists>j < 100 * d. tstc (k + 100 + j)"
    proof (rule Least_equality)
      show "tstc (k + (100 + (LEAST j. tstc (k + 100 + j))))"
        using that LeastI_ex [of "\<lambda>j. tstc (k + 100 + j)"] by (auto simp: add.assoc)
      fix y assume y: "tstc (k + y)"
      then have "100 \<le> y" using False by (meson not_le)
      then have "tstc (k + 100 + (y - 100))" using y by simp
      then have "(LEAST j. tstc (k + 100 + j)) \<le> y - 100" by (rule Least_le)
      then show "100 + (LEAST j. tstc (k + 100 + j)) \<le> y" using \<open>100 \<le> y\<close> by simp
    qed
    then show ?thesis using False ex Suc.IH [of "k + 100"] by (auto simp: poll_second_eq)
  qed
qed simp

text \<open>C38:
  Unattended start: with the partition table set, a boot command and a delay of \<open>d\<close> seconds in the
  environment (or the default), the boot command is run if and only if no key arrives during the
  \<open>100 * d\<close> polls of the countdown; otherwise the prompt comes up with the state unchanged.\<close>

theorem main_boot_unattended:
  assumes "getenv_string s (ascii ''mtdparts'') = Some (Some parts)"
    and "getenv_string s (ascii ''bootcmd'') = Some (Some boot)"
    and "getenv_string s (ascii ''bootdelay'') = Some delay"
    and "d = (case delay of None \<Rightarrow> CONFIG_BOOTDELAY | Some v \<Rightarrow> sint (fst (simple_strtol v 10)))" "0 \<le> d"
  shows "main_boot (run_command n exec table) tstc s
    = (if \<exists>j < 100 * nat d. tstc j then Some s else map_option snd (run_command n exec table (Some boot) 0 s))"
  using assms by (auto simp: main_boot_def abortboot_eq Let_def)

text \<open>A state for examples.\<close>

definition demo_entries :: "u8 list list" where
  "demo_entries = [ascii ''mtdparts=x'', ascii ''bootcmd=version'']"

definition demo_shell :: "unit shell" where
  "demo_shell = \<lparr>env_valid = True, default_env = [0x3d, 0, 0, 0], stored_crc = 0,
     env_data = entries_text demo_entries @ 0 # replicate (ENV_SIZE - 28) 0,
     env_id = 1, baudrate = 115200, ip_addr = 0, load_addr = 0, boot_file = replicate 128 0,
     con_in = [], console = (), ctrlc_was_pressed = False, lastcommand = [], last_rc = 1\<rparr>"

lemma demo_abs: "env_abs demo_shell (env_map demo_entries)"
proof -
  have "env_inv demo_shell demo_entries"
    by (auto simp: env_inv_def demo_shell_def env_holds_def env_rep_def demo_entries_def
        entry_ok_def entry_name_def ENV_SIZE_def CONFIG_ENV_SIZE_def)
  then show ?thesis by (auto simp: env_abs_def)
qed

lemma demo_lookups:
  "getenv_string demo_shell (ascii ''mtdparts'') = Some (Some [0x78])"
  "getenv_string demo_shell (ascii ''bootcmd'') = Some (Some (ascii ''version''))"
  "getenv_string demo_shell (ascii ''bootdelay'') = Some None"
  by (subst getenv_string_abs [OF demo_abs];
      simp add: env_map_def demo_entries_def entry_name_def entry_value_def)+

section \<open>Separators\<close>

text \<open>What may stand in a piece of a command between two separators.\<close>

fun sep_free :: "piece \<Rightarrow> bool" where
  "sep_free (Plain s) \<longleftrightarrow> 0x3b \<notin> set s"
| "sep_free (Variable curly n) \<longleftrightarrow> set n \<inter> {0x27, 0x3b} = {}"
| "sep_free (Quoted s) \<longleftrightarrow> True"
| "sep_free (Escaped c) \<longleftrightarrow> True"

lemma sep_scan_skip:
  assumes "mem = pre @ c # suf" "c \<noteq> 0" "c = 0x27 \<Longrightarrow> pre \<noteq> [] \<and> last pre = 0x5c"
    "c = 0x3b \<Longrightarrow> inq \<or> (pre \<noteq> [] \<and> last pre = 0x5c)"
  shows "sep_scan mem str inq (length pre) = sep_scan mem str inq (Suc (length pre))"
proof -
  have last: "pre \<noteq> [] \<Longrightarrow> mem ! (length pre - 1) = last pre" using assms(1) by (simp add: nth_append last_conv_nth)
  then show ?thesis
    using assms by (subst sep_scan.simps) (auto simp: Let_def)
qed

lemma sep_scan_skips:
  assumes "mem = pre @ s @ suf" "\<forall>c \<in> set s. c \<noteq> 0 \<and> c \<noteq> 0x27 \<and> (inq \<or> c \<noteq> 0x3b)"
  shows "sep_scan mem str inq (length pre) = sep_scan mem str inq (length (pre @ s))"
  using assms
proof (induction s arbitrary: pre)
  case (Cons c s)
  have "sep_scan mem str inq (length pre) = sep_scan mem str inq (Suc (length pre))"
    by (rule sep_scan_skip [where c = c and suf = "s @ suf"]) (use Cons.prems in auto)
  also have "\<dots> = sep_scan mem str inq (length ((pre @ [c]) @ s))"
    using Cons.IH [of "pre @ [c]"] Cons.prems by simp
  finally show ?case by simp
qed simp

lemma sep_scan_quote:
  assumes "mem = pre @ 0x27 # suf" "pre \<noteq> []" "last pre \<noteq> 0x5c"
  shows "sep_scan mem str inq (length pre) = sep_scan mem str (\<not> inq) (Suc (length pre))"
proof -
  have "mem ! (length pre - 1) = last pre" using assms by (simp add: nth_append last_conv_nth)
  then show ?thesis using assms by (subst sep_scan.simps) (simp add: Let_def)
qed

lemma sep_scan_piece:
  assumes mem: "mem = pre @ render_piece p @ suf" and ok: "piece_ok p" "sep_free p"
    and pre: "pre = [] \<Longrightarrow> \<not> is_Quoted p" "pre = [] \<or> last pre \<noteq> 0x5c"
  shows "sep_scan mem str False (length pre) = sep_scan mem str False (length (pre @ render_piece p))"
proof (cases p)
  case (Plain s)
  then show ?thesis using sep_scan_skips [of mem pre s suf False str] assms by auto
next
  case (Variable b n)
  then show ?thesis using sep_scan_skips [of mem pre "render_piece p" suf False str] assms by (cases b) auto
next
  case (Quoted s)
  then have ne: "pre \<noteq> []" "last pre \<noteq> 0x5c" using pre by auto
  have "sep_scan mem str False (length pre) = sep_scan mem str True (length (pre @ [0x27]))"
    using sep_scan_quote [of mem pre "s @ [0x27] @ suf" str False] mem Quoted ne by simp
  also have "\<dots> = sep_scan mem str True (length ((pre @ [0x27]) @ s))"
    by (rule sep_scan_skips [where suf = "0x27 # suf"]) (use mem Quoted ok in auto)
  also have "\<dots> = sep_scan mem str False (Suc (length ((pre @ [0x27]) @ s)))"
  proof -
    have "last ((pre @ [0x27]) @ s) \<noteq> 0x5c" using ok Quoted by (cases s) auto
    then show ?thesis using sep_scan_quote [of mem "(pre @ [0x27]) @ s" suf str True] mem Quoted by simp
  qed
  finally show ?thesis using Quoted by simp
next
  case (Escaped c)
  have "sep_scan mem str False (length pre) = sep_scan mem str False (Suc (length pre))"
    by (rule sep_scan_skip [where c = "0x5c" and suf = "c # suf"]) (use mem Escaped in simp_all)
  also have "\<dots> = sep_scan mem str False (Suc (length (pre @ [0x5c])))"
    using sep_scan_skip [of mem "pre @ [0x5c]" c suf False str] mem Escaped ok by simp
  finally show ?thesis using Escaped by simp
qed

lemma render_piece_last: "piece_ok p \<Longrightarrow> render_piece p \<noteq> [] \<Longrightarrow> last (render_piece p) \<noteq> 0x5c"
  by (cases p) (auto dest: last_in_set)

lemma sep_scan_pieces:
  assumes "mem = pre @ render ps @ suf" "\<forall>p \<in> set ps. piece_ok p \<and> sep_free p"
    "pre = [] \<Longrightarrow> ps \<noteq> [] \<Longrightarrow> \<not> is_Quoted (hd ps)" "pre = [] \<or> last pre \<noteq> 0x5c" "Plain [] \<notin> set ps"
  shows "sep_scan mem str False (length pre) = sep_scan mem str False (length (pre @ render ps))
    \<and> (pre @ render ps = [] \<or> last (pre @ render ps) \<noteq> 0x5c)"
  using assms
proof (induction ps arbitrary: pre)
  case (Cons p ps)
  have r: "render (p # ps) = render_piece p @ render ps" by (simp add: render_def)
  have ne: "render_piece p \<noteq> []" using Cons.prems(5) by (cases p) auto
  have "sep_scan mem str False (length pre) = sep_scan mem str False (length (pre @ render_piece p))"
    by (rule sep_scan_piece) (use Cons.prems r in auto)
  moreover have "sep_scan mem str False (length (pre @ render_piece p)) = sep_scan mem str False (length ((pre @ render_piece p) @ render ps))
    \<and> ((pre @ render_piece p) @ render ps = [] \<or> last ((pre @ render_piece p) @ render ps) \<noteq> 0x5c)"
    by (rule Cons.IH) (use Cons.prems r ne render_piece_last in auto)
  ultimately show ?case by (simp add: r)
qed (simp add: render_def)


section \<open>The meaning of a command line\<close>

definition var_of :: "'d shell \<Rightarrow> u8 list \<rightharpoonup> u8 list" where
  "var_of s n = (case getenv_string s n of None \<Rightarrow> None | Some v \<Rightarrow> v)"

definition lookups_defined :: "'d shell \<Rightarrow> piece list \<Rightarrow> bool" where
  "lookups_defined s ps \<longleftrightarrow>
     list_all (\<lambda>p. case p of Variable b n \<Rightarrow> getenv_string s n \<noteq> None | _ \<Rightarrow> True) ps"

definition select_cmd :: "u8 list \<Rightarrow> 'c cmd_tbl list \<Rightarrow> nat option" where
  "select_cmd name table =
     (case find (\<lambda>(i, e). cmd_name e = cmd_key name) (enumerate 0 table) of
        Some (i, e) \<Rightarrow> Some i
      | None \<Rightarrow> (case filter (\<lambda>(i, e). key_matches (cmd_key name) e) (enumerate 0 table) of
                  [(i, e)] \<Rightarrow> Some i
                | _ \<Rightarrow> None))"

text \<open>
  One command: the line is expanded, its words are the arguments, the first one selects the
  command.  Outside the specification (\<^verbatim>\<open>None\<close>): undefined lookups, expansions that do not fit the
  buffer, and more words than there are argument slots.
\<close>

definition token_meaning ::
    "('c, 'd shell) call \<Rightarrow> 'c cmd_tbl list \<Rightarrow> piece list \<Rightarrow> u32 \<Rightarrow> int \<Rightarrow> int \<Rightarrow> 'd shell
     \<Rightarrow> ((u32 \<times> int \<times> int \<times> 'd shell) + (int \<times> 'd shell)) option" where
  "token_meaning call table ps flag rpt rc s =
     (let line = line_value (var_of s) ps; args = words line
      in if \<not> lookups_defined s ps \<or> CONFIG_SYS_CBSIZE \<le> length line \<or> CONFIG_SYS_MAXARGS < length args then None
         else if args = [] then Some (Inl (flag, rpt, - 1, s))
         else (case select_cmd (hd args) table of
                 None \<Rightarrow> Some (Inl (flag, rpt, - 1, s))
               | Some i \<Rightarrow>
                   let e = table ! i; boot = is_bootd (cmd e)
                   in if maxargs e < length args \<or> boot \<and> flag AND CMD_FLAG_BOOTD \<noteq> 0
                      then Some (Inl (flag, rpt, - 1, s))
                      else (let flag = (if boot then flag OR CMD_FLAG_BOOTD else flag)
                            in case call e flag args s of
                                 None \<Rightarrow> None
                               | Some (r, s) \<Rightarrow>
                                   if had_ctrlc s then Some (Inr (- 1, s))
                                   else Some (Inl (flag, rpt AND repeatable e, if r \<noteq> 0 then - 1 else rc, s)))))"

fun meaning ::
    "('c, 'd shell) call \<Rightarrow> 'c cmd_tbl list \<Rightarrow> piece list list \<Rightarrow> u32 \<Rightarrow> int \<Rightarrow> int \<Rightarrow> 'd shell \<Rightarrow> (int \<times> 'd shell) option" where
  "meaning call table [] flag rpt rc s = Some (if rc \<noteq> 0 then rc else rpt, s)"
| "meaning call table (ps # pss) flag rpt rc s =
     (case token_meaning call table ps flag rpt rc s of
        None \<Rightarrow> None
      | Some (Inr r) \<Rightarrow> Some r
      | Some (Inl (flag, rpt, rc, s)) \<Rightarrow> meaning call table pss flag rpt rc s)"

fun command_line :: "piece list list \<Rightarrow> u8 list" where
  "command_line [] = []"
| "command_line [ps] = render ps"
| "command_line (ps # pss) = render ps @ 0x3b # command_line pss"

definition segment_ok :: "piece list \<Rightarrow> bool" where
  "segment_ok ps \<longleftrightarrow> ps \<noteq> [] \<and> Plain [] \<notin> set ps \<and> (\<forall>p \<in> set ps. piece_ok p \<and> sep_free p)"

lemma str_at_nonzero: "str_at b i = Some v \<Longrightarrow> 0 \<notin> set v"
proof -
  assume a: "str_at b i = Some v"
  then obtain j where j: "str_end b i = Some j" "v = take (j - i) (drop i b)" by (auto simp: str_at_def)
  have "\<forall>k. i \<le> k \<and> k < j \<longrightarrow> b ! k \<noteq> 0" using j(1)
  proof (induction b i rule: str_end.induct)
    case (1 b i)
    then show ?case
      by (subst (asm) (2) str_end.simps)
        (auto simp: buf_simps split: option.splits if_splits, metis Suc_leI le_neq_implies_less)
  qed
  moreover have "j < length b" "i \<le> j" using str_end_bounds [OF j(1)] by auto
  ultimately show ?thesis using j(2) by (auto simp: in_set_conv_nth)
qed

lemma var_of_nonzero: "var_of s n = Some v \<Longrightarrow> 0 \<notin> set v"
  by (auto simp: var_of_def getenv_string_def dest: str_at_nonzero split: option.splits)

lemma line_value_nonzero: "\<forall>p \<in> set ps. piece_ok p \<Longrightarrow> 0 \<notin> set (line_value (var_of s) ps)"
proof -
  have "piece_ok p \<Longrightarrow> 0 \<notin> set (piece_value (var_of s) p)" for p
    by (cases p) (auto split: option.splits dest: var_of_nonzero var_of_nonzero [OF sym])
  then show "\<forall>p \<in> set ps. piece_ok p \<Longrightarrow> ?thesis" by (auto simp: line_value_def)
qed

lemma words_subset: "w \<in> set (words s) \<Longrightarrow> set w \<subseteq> set s"
proof (induction s rule: length_induct)
  case (1 s)
  show ?case
  proof (cases s rule: words_cases)
    case (more ws w' b s')
    then have "w \<in> set (words s') \<longrightarrow> set w \<subseteq> set s'" using 1 by simp
    moreover have "w = w' \<or> w \<in> set (words s')" using 1(2) more by simp
    ultimately show ?thesis using more(1) by auto
  qed (use 1 in auto)
qed

lemma arg_strings_nonzero: "arg_strings line argv n = Some args \<Longrightarrow> \<forall>a \<in> set args. 0 \<notin> set a"
proof -
  have "those (map (\<lambda>p. p \<bind> str_at line) ps) = Some args \<Longrightarrow> \<forall>a \<in> set args. 0 \<notin> set a" for ps args
    by (induction ps arbitrary: args) (auto split: option.splits Option.bind_splits dest: str_at_nonzero)
  then show "arg_strings line argv n = Some args \<Longrightarrow> ?thesis" by (auto simp: arg_strings_def)
qed

lemma run_token_meaning:
  assumes "\<forall>p \<in> set ps. piece_ok p" "length (render ps) < CONFIG_SYS_CBSIZE" "table_ok table"
    "token_meaning call table ps flag rpt rc s = Some r"
  shows "run_token call table (pre @ render ps @ 0 # suf) (length pre) flag rpt rc s = Some r"
proof -
  define line args where "line = line_value (var_of s) ps" and "args = words line"
  have def: "lookups_defined s ps" "length line < CONFIG_SYS_CBSIZE" "length args \<le> CONFIG_SYS_MAXARGS"
    using assms(4) by (auto simp: token_meaning_def Let_def line_def args_def split: if_splits)
  have z: "0 \<notin> set line" using assms(1) by (simp add: line_def line_value_nonzero)
  have "\<forall>b n. Variable b n \<in> set ps \<longrightarrow> getenv_string s n = Some (var_of s n)"
    using def(1) by (auto simp: lookups_defined_def list_all_iff var_of_def split: option.splits)
  then have pm: "process_macros (getenv_string s) (pre @ render ps @ 0 # suf) (length pre) (replicate CONFIG_SYS_CBSIZE 0)
    = Some (line @ 0 # replicate (CONFIG_SYS_CBSIZE - (length line + 1)) 0)"
    using process_macros_expands_lemma [OF assms(1) _ assms(2), of "getenv_string s" "var_of s"] def(2)
    by (simp add: line_def)
  obtain argv' line' where pl: "parse_line (line @ 0 # replicate (CONFIG_SYS_CBSIZE - (length line + 1)) 0)
      (replicate (CONFIG_SYS_MAXARGS + 1) None) = Some (length args, argv', line')"
    "arg_strings line' argv' (length args) = Some args"
    using parse_line_lemma [OF z, of "replicate (CONFIG_SYS_MAXARGS + 1) None"
        "replicate (CONFIG_SYS_CBSIZE - (length line + 1)) 0"] def(3)
    by (auto simp: args_def min_absorb2)
  show ?thesis
  proof (cases args)
    case Nil
    then show ?thesis
      using assms(4) pm pl def by (simp add: run_token_def token_meaning_def Let_def flip: line_def args_def)
  next
    case (Cons name rest)
    then have "0 \<notin> set name" using words_subset [of name line] z by (auto simp: args_def)
    then have fc: "find_cmd_tbl (hd args) table = Some (select_cmd (hd args) table)"
      using find_cmd_lemma [OF _ assms(3)] Cons by (simp add: select_cmd_def)
    show ?thesis
      using assms(4) pm pl fc def Cons
      by (cases "select_cmd (hd args) table")
        (auto simp: run_token_def token_meaning_def Let_def split: if_splits option.splits simp flip: line_def args_def)
  qed
qed

lemma run_segments_meaning:
  assumes "\<forall>ps \<in> set pss. segment_ok ps" "table_ok table" "length (command_line pss) < CONFIG_SYS_CBSIZE"
    "pre = [] \<Longrightarrow> pss \<noteq> [] \<Longrightarrow> \<not> is_Quoted (hd (hd pss))" "pre = [] \<or> last pre \<noteq> 0x5c"
    "meaning call table pss flag rpt rc s = Some r"
  shows "run_segments call table (pre @ command_line pss @ [0]) (length pre) flag rpt rc s = Some r"
  using assms
proof (induction pss arbitrary: pre flag rpt rc s)
  case Nil
  then show ?case by (subst run_segments.simps) simp
next
  case (Cons ps pss)
  define tl where "tl = (if pss = [] then [] else command_line pss @ [0])"
  define sep where "sep = (if pss = [] then 0 else 0x3b :: u8)"
  have cl: "command_line (ps # pss) @ [0] = render ps @ sep # tl"
    by (cases pss) (simp_all add: tl_def sep_def)
  have seg: "segment_ok ps" using Cons.prems by simp
  have len: "length (render ps) < CONFIG_SYS_CBSIZE" using Cons.prems(3) by (cases pss) auto
  obtain c rs where r: "render ps = c # rs" "c \<noteq> 0" "c \<noteq> 0x3b"
  proof -
    obtain p ps' where ps: "ps = p # ps'" using seg by (cases ps) (auto simp: segment_ok_def)
    then have "piece_ok p" "sep_free p" "p \<noteq> Plain []" using seg by (auto simp: segment_ok_def)
    then have "\<exists>c rs. render_piece p = c # rs \<and> c \<noteq> 0 \<and> c \<noteq> 0x3b"
      by (cases p; cases "render_piece p") auto
    then show thesis using that by (auto simp: ps render_def)
  qed
  let ?mem = "pre @ render ps @ sep # tl" and ?e = "length (pre @ render ps)"
  have scan: "sep_scan ?mem (length pre) False (length pre) = sep_scan ?mem (length pre) False ?e"
    "last (pre @ render ps) \<noteq> 0x5c"
    using sep_scan_pieces [of ?mem pre ps "sep # tl" "length pre"] Cons.prems seg r(1)
    by (auto simp: segment_ok_def)
  have "?mem ! (?e - 1) = last (pre @ render ps)"
    using nth_append [of "pre @ render ps" "sep # tl" "?e - 1"] last_conv_nth [of "pre @ render ps"] r(1) by simp
  then have at: "?mem ! ?e = sep" "?e \<noteq> length pre" "?mem ! (?e - 1) \<noteq> 0x5c"
    using r(1) scan(2) nth_append_length [of "pre @ render ps" sep tl] by simp_all
  have fin: "sep_scan ?mem (length pre) False (length pre) = Some ?e"
    unfolding scan(1) using at rd_at [of "pre @ render ps" sep tl]
    by (subst sep_scan.simps) (auto simp: sep_def Let_def)
  have upd: "?mem[?e := 0] = pre @ render ps @ 0 # tl"
    using list_update_length [of "pre @ render ps" sep tl 0] by simp
  have rdc: "rd (pre @ command_line (ps # pss) @ [0]) (length pre) = Some c" unfolding cl by (simp add: r(1))
  from Cons.prems(6) obtain t where t: "token_meaning call table ps flag rpt rc s = Some t" by (auto split: option.splits)
  have tok: "run_token call table (pre @ render ps @ 0 # tl) (length pre) flag rpt rc s = Some t"
    by (rule run_token_meaning [OF _ len Cons.prems(2) t]) (use seg in \<open>simp add: segment_ok_def\<close>)
  let ?nxt = "if sep \<noteq> 0 then ?e + 1 else ?e"
  have step: "run_segments call table (pre @ command_line (ps # pss) @ [0]) (length pre) flag rpt rc s
    = (case t of Inr r \<Rightarrow> Some r | Inl (flag, rpt, rc, s) \<Rightarrow> run_segments call table (pre @ render ps @ 0 # tl) ?nxt flag rpt rc s)"
    using rdc r(2) fin tok upd at(1) unfolding cl
    by (subst run_segments.simps) (simp add: Let_def split: sum.split)
  show ?case
  proof (cases t)
    case (Inr r')
    then show ?thesis using step t Cons.prems(6) by simp
  next
    case (Inl x)
    obtain flag' rpt' rc' s' where x: "x = (flag', rpt', rc', s')" by (cases x)
    have m: "meaning call table pss flag' rpt' rc' s' = Some r" using Cons.prems(6) t Inl x by simp
    show ?thesis
    proof (cases pss)
      case Nil
      have "rd (pre @ render ps @ [0]) ?e = Some 0" using rd_at [of "pre @ render ps" 0 "[]"] by simp
      then show ?thesis using step Inl x m Nil by (subst (asm) (2) run_segments.simps) (simp add: sep_def tl_def)
    next
      case (Cons ps' pss')
      have "run_segments call table ((pre @ render ps @ [0]) @ command_line pss @ [0]) (length (pre @ render ps @ [0])) flag' rpt' rc' s'
        = Some r"
        by (rule Cons.IH) (use Cons.prems m Cons in auto)
      then show ?thesis using step Inl x Cons by (simp add: sep_def tl_def)
    qed
  qed
qed


lemma command_line_not_Nil: "pss \<noteq> [] \<Longrightarrow> \<forall>ps \<in> set pss. segment_ok ps \<Longrightarrow> command_line pss \<noteq> []"
proof (cases pss)
  case (Cons ps pss')
  assume "\<forall>ps \<in> set pss. segment_ok ps"
  then obtain p ps' where ps: "ps = p # ps'" "p \<noteq> Plain []" using Cons by (cases ps) (auto simp: segment_ok_def)
  then have "render_piece p \<noteq> []" by (cases p) auto
  then show ?thesis using Cons ps by (cases pss') (auto simp: render_def)
qed simp

lemma run_command_meaning_lemma:
  assumes "pss \<noteq> []" "\<forall>ps \<in> set pss. segment_ok ps" "\<not> is_Quoted (hd (hd pss))" "table_ok table"
    "length (command_line pss) < CONFIG_SYS_CBSIZE"
    "meaning (call_cmd exec (run_command n exec table)) table pss flag 1 0 (clear_ctrlc s) = Some r"
  shows "run_command (Suc n) exec table (Some (command_line pss)) flag s = Some r"
  using run_segments_meaning [OF assms(2,4,5) _ _ assms(6), of "[]"] assms(1,3,5)
    command_line_not_Nil [OF assms(1,2)]
  by (simp add: Let_def)

text \<open>C3:
  A command line means its commands one after the other: for commands made of text, variables,
  quotes and escapes, separated by semicolons, \<open>run_command\<close> does what the specification says
  whenever the specification is defined: it expands each command in the state the previous ones
  left, selects the table entry, checks the argument count and the boot recursion, calls it,
  stops at Ctrl-C, and returns -1 after any failure, else whether all commands may be repeated.\<close>

theorem run_command_meaning:
  assumes "pss \<noteq> []" "\<forall>ps \<in> set pss. segment_ok ps" "\<not> is_Quoted (hd (hd pss))" "table_ok table"
    "length (command_line pss) < CONFIG_SYS_CBSIZE"
    "meaning (call_cmd exec (run_command n exec table)) table pss flag 1 0 (clear_ctrlc s) = Some r"
  shows "run_command (Suc n) exec table (Some (command_line pss)) flag s = Some r"
  by (rule run_command_meaning_lemma [OF assms])

section \<open>What every command line keeps\<close>

text \<open>
  The contract between the interpreter and the commands: what the commands and the Ctrl-C flag
  keep, every command line keeps, however deep it nests.
\<close>

locale command_set =
  fixes exec :: "('c, 'd) exec" and good :: "'d shell \<Rightarrow> bool"
  assumes exec_keeps: "good s \<Longrightarrow> c_strings argv \<Longrightarrow> exec c flag argv s = Some (r, s') \<Longrightarrow> good s'"
    and ctrlc_keeps: "good s \<Longrightarrow> good (s\<lparr>ctrlc_was_pressed := b\<rparr>)"
begin

definition keeps :: "'d shell runner \<Rightarrow> bool" where
  "keeps run \<longleftrightarrow> (\<forall>line flag s r s'. good s \<longrightarrow> run line flag s = Some (r, s') \<longrightarrow> good s')"

lemma keepsD: "keeps run \<Longrightarrow> good s \<Longrightarrow> run line flag s = Some (r, s') \<Longrightarrow> good s'"
  unfolding keeps_def by blast

lemma run_vars_keeps: "keeps run \<Longrightarrow> good s \<Longrightarrow> run_vars run flag names s = Some (r, s') \<Longrightarrow> good s'"
proof (induction names arbitrary: s)
  case (Cons name names)
  then show ?case
    by (auto split: Option.bind_splits option.splits if_splits dest: keepsD)
qed simp

lemma call_keeps:
  assumes "keeps run" "good s" "c_strings argv" "call_cmd exec run e flag argv s = Some (r, s')"
  shows "good s'"
  using assms run_vars_keeps [OF assms(1,2)]
  by (cases "cmd e")
    (auto simp: call_cmd_def do_run_def do_bootd_def split: if_splits Option.bind_splits dest: exec_keeps keepsD)

lemma run_token_keeps:
  assumes "keeps run" "good s" "run_token (call_cmd exec run) table mem token flag rpt rc s = Some x"
  shows "case x of Inl (flag, rpt, rc, s') \<Rightarrow> good s' | Inr (rc, s') \<Rightarrow> good s'"
proof -
  from assms(3) obtain out argc argv line where 1:
    "process_macros (getenv_string s) mem token (replicate CONFIG_SYS_CBSIZE 0) = Some out"
    "parse_line out (replicate (CONFIG_SYS_MAXARGS + 1) None) = Some (argc, argv, line)"
    by (auto simp: run_token_def split: Option.bind_splits)
  show ?thesis
  proof (cases "argc = 0")
    case True
    then show ?thesis using assms(2,3) 1 by (auto simp: run_token_def)
  next
    case False
    then obtain args i where 2: "arg_strings line argv argc = Some args" "find_cmd_tbl (hd args) table = Some i"
      using assms(3) 1 by (auto simp: run_token_def split: Option.bind_splits)
    have c: "c_strings args" using arg_strings_nonzero [OF 2(1)] by (simp add: c_strings_def)
    show ?thesis
      using assms(2,3) 1 2 False call_keeps [OF assms(1,2) c]
      by (auto simp: run_token_def Let_def split: option.splits if_splits Option.bind_splits)
  qed
qed

lemma run_segments_keeps:
  assumes "keeps run"
  shows "good s \<Longrightarrow> run_segments (call_cmd exec run) table mem str flag rpt rc s = Some (r, s') \<Longrightarrow> good s'"
proof (induction "call_cmd exec run" table mem str flag rpt rc s rule: run_segments.induct)
  case (1 table mem str flag rpt rc s)
  from "1.prems"(2) obtain c where c: "rd mem str = Some c"
    by (subst (asm) run_segments.simps) (auto split: option.splits)
  show ?case
  proof (cases "c = 0")
    case True
    then show ?thesis using "1.prems" c by (subst (asm) run_segments.simps) auto
  next
    case False
    with "1.prems"(2) c obtain sep where sep: "sep_scan mem str False str = Some sep"
      by (subst (asm) run_segments.simps) (auto split: option.splits)
    with "1.prems"(2) c False obtain x where
      x: "run_token (call_cmd exec run) table (mem[sep := 0]) str flag rpt rc s = Some x"
      by (subst (asm) run_segments.simps) (auto simp: Let_def split: option.splits)
    note k = run_token_keeps [OF assms "1.prems"(1) x]
    show ?thesis
    proof (cases x)
      case (Inr y)
      then show ?thesis using "1.prems" c False sep x k by (subst (asm) run_segments.simps) (auto simp: Let_def)
    next
      case (Inl y)
      obtain flag' rpt' rc' s1 where y: "y = (flag', rpt', rc', s1)" by (cases y)
      have "run_segments (call_cmd exec run) table (mem[sep := 0]) (if mem ! sep \<noteq> 0 then sep + 1 else sep) flag' rpt' rc' s1
        = Some (r, s')"
        using "1.prems"(2) c False sep x Inl y by (subst (asm) run_segments.simps) (simp add: Let_def)
      moreover have "good s1" using k Inl y by simp
      ultimately show ?thesis
        using "1.hyps" [OF c False sep refl refl x Inl y [symmetric] refl refl] by simp
    qed
  qed
qed

lemma run_command_keeps: "keeps (run_command n exec table)"
proof (induction n)
  case (Suc n)
  show ?case
    unfolding keeps_def
  proof (intro allI impI)
    fix line flag s r s' assume "good s" "run_command (Suc n) exec table line flag s = Some (r, s')"
    moreover have "good (clear_ctrlc s)" unfolding clear_ctrlc_def by (rule ctrlc_keeps) fact
    ultimately show "good s'"
      by (auto simp: Let_def split: option.splits if_splits dest: run_segments_keeps [OF Suc.IH])
  qed
qed (simp add: keeps_def)

lemma map_snd_keeps: "keeps run \<Longrightarrow> good s \<Longrightarrow> map_option snd (run line flag s) = Some s' \<Longrightarrow> good s'"
  by (auto dest: keepsD)

lemma main_boot_keeps: "good s \<Longrightarrow> main_boot (run_command n exec table) tstc s = Some s' \<Longrightarrow> good s'"
  unfolding main_boot_def Let_def
  by (auto split: Option.bind_splits if_splits dest: keepsD [OF run_command_keeps])

end


section \<open>The environment behind the shell\<close>

text \<open>With the locals of the main loop in the contract, whole sessions keep it.\<close>

locale session = command_set +
  assumes last_keeps: "good s \<Longrightarrow> good (s\<lparr>lastcommand := l\<rparr>)"
    and rc_keeps: "good s \<Longrightarrow> good (s\<lparr>last_rc := r\<rparr>)"
begin

lemma main_step_keeps:
  assumes "good s" "main_step (run_command n exec table) len line s = Some s'"
  shows "good s'"
proof -
  define s1 where "s1 = (if 0 < len then s\<lparr>lastcommand := line\<rparr> else s)"
  have g1: "good s1" using assms(1) by (simp add: s1_def last_keeps)
  define r where "r = (if len = - 1 then Some s1
      else map_option (\<lambda>(rc, s). s\<lparr>last_rc := rc\<rparr>)
        (run_command n exec table (Some (lastcommand s1)) (if len = 0 then CMD_FLAG_REPEAT else 0) s1))"
  have "main_step (run_command n exec table) len line s
    = r \<bind> (\<lambda>s. Some (if last_rc s \<le> 0 then s\<lparr>lastcommand := []\<rparr> else s))"
    by (simp only: main_step_def Let_def s1_def r_def)
  then obtain s2 where s2: "r = Some s2" "s' = (if last_rc s2 \<le> 0 then s2\<lparr>lastcommand := []\<rparr> else s2)"
    using assms(2) by (cases r) auto
  have "good s2"
    using s2(1) g1 by (auto simp: r_def split: if_splits intro!: rc_keeps dest: keepsD [OF run_command_keeps])
  then show ?thesis using s2(2) by (simp add: last_keeps)
qed

end

text \<open>The two commands on variables, as commands of the shell.  \<open>pressed\<close> tells when Ctrl-C was seen.\<close>

datatype env_cmd = Printenv | Setenv

definition note_ctrlc :: "bool \<Rightarrow> 'd shell \<Rightarrow> 'd shell" where
  "note_ctrlc p s = s\<lparr>ctrlc_was_pressed := ctrlc_was_pressed s \<or> p\<rparr>"

definition env_exec ::
    "(nat \<Rightarrow> u8 list \<Rightarrow> 'd \<Rightarrow> int \<times> 'd) \<Rightarrow> (nat \<Rightarrow> nat \<Rightarrow> bool) \<Rightarrow> (u8 list list \<Rightarrow> bool) \<Rightarrow> (env_cmd, 'd) exec" where
  "env_exec ca poll pressed c flag argv s =
     (case c of
        Printenv \<Rightarrow> map_option (\<lambda>(r, out). (r, note_ctrlc (pressed argv) s)) (do_printenv poll argv (env_area s))
      | Setenv \<Rightarrow> map_option (\<lambda>(r, s). (r, note_ctrlc (pressed argv) s)) (do_setenv_cmd ca argv s))"

definition env_wf :: "'d shell \<Rightarrow> bool" where
  "env_wf s \<longleftrightarrow> (\<exists>m. env_abs s m)"

lemma env_abs_locals [simp]:
  "env_abs (s\<lparr>ctrlc_was_pressed := b\<rparr>) m = env_abs s m"
  "env_abs (s\<lparr>lastcommand := l\<rparr>) m = env_abs s m"
  "env_abs (s\<lparr>last_rc := r\<rparr>) m = env_abs s m"
  by (simp_all add: env_abs_def env_inv_def)

lemma env_exec_wf:
  "env_wf s \<Longrightarrow> c_strings argv \<Longrightarrow> env_exec ca poll pressed c flag argv s = Some (r, s') \<Longrightarrow> env_wf s'"
  by (cases c)
    (auto simp: env_exec_def env_wf_def note_ctrlc_def do_setenv_cmd_def split: if_splits dest: do_setenv_abs)

interpretation env_session: session "env_exec ca poll pressed" env_wf for ca poll pressed
  by unfold_locales (auto simp: env_wf_def intro: env_exec_wf [unfolded env_wf_def])

text \<open>
  The states at the prompt: what the start leaves, and what each line typed leaves, whatever
  \<^verbatim>\<open>readline\<close> returned.  Theory Script shows what they keep for a table with the commands modelled there.
\<close>

inductive at_prompt :: "'d shell runner \<Rightarrow> 'd shell \<Rightarrow> 'd shell \<Rightarrow> bool"
  for run :: "'d shell runner" and s0 :: "'d shell"
where
  booted: "main_boot run tstc s0 = Some s \<Longrightarrow> at_prompt run s0 s"
| typed: "at_prompt run s0 s \<Longrightarrow> main_step run len line s = Some s' \<Longrightarrow> at_prompt run s0 s'"

inductive_cases at_promptE [elim]: "at_prompt run s0 s"

text \<open>What every command line keeps holds at every prompt.\<close>

lemma at_prompt_keeps:
  assumes "session exec good" "good s0" "at_prompt (run_command n exec table) s0 s"
  shows "good s"
  using assms(3)
proof (induction rule: at_prompt.induct)
  case (booted tstc s)
  from assms(1) have "command_set exec good" by (rule session.axioms)
  then show ?case using assms(2) booted by (rule command_set.main_boot_keeps)
next
  case (typed s len line s')
  show ?case by (rule session.main_step_keeps [OF assms(1) typed.IH typed.hyps(2)])
qed

section \<open>Returning\<close>

lemma envmatch_before_eq:
  "envmatch env n i = Some r \<Longrightarrow> envmatch env (n @ 0x3d # n') i = Some r"
proof (induction n arbitrary: i)
  case Nil
  then show ?case by (auto split: option.splits if_splits)
next
  case (Cons c n)
  then show ?case by (auto split: option.splits if_splits)
qed

lemma getenv_scan_before_eq:
  "getenv_scan env n i = Some r \<Longrightarrow> getenv_scan env (n @ 0x3d # n') i = Some r"
proof (induction env n i rule: getenv_scan.induct)
  case (1 env n i)
  obtain c where c: "rd env i = Some c" using "1.prems" by (subst (asm) getenv_scan.simps) (auto split: option.splits)
  show ?case
  proof (cases "c = 0 \<or> getenv_end env i = Some None")
    case True
    then show ?thesis using "1.prems" c by (subst (asm) getenv_scan.simps, subst getenv_scan.simps) auto
  next
    case False
    then obtain nxt where nxt: "getenv_end env i = Some (Some nxt)"
      using "1.prems" c by (subst (asm) getenv_scan.simps) (auto split: option.splits)
    then obtain m where m: "envmatch env n i = Some m"
      using "1.prems" c False by (subst (asm) getenv_scan.simps) (auto split: option.splits)
    show ?thesis
      using "1.prems" "1.IH" [OF c _ nxt refl m] False c nxt m envmatch_before_eq [OF m]
      by (subst (asm) getenv_scan.simps, subst getenv_scan.simps) (auto split: option.splits)
  qed
qed

lemma getenv_string_total:
  assumes "env_abs s m"
  shows "total_lookup (getenv_string s)"
  unfolding total_lookup_def
proof (intro allI impI)
  fix n :: "u8 list" assume z: "0 \<notin> set n"
  define k where "k = takeWhile (\<lambda>c. c \<noteq> 0x3d) n"
  have k: "0 \<notin> set k" "0x3d \<notin> set k" using z by (auto simp: k_def dest: set_takeWhileD)
  then have gk: "getenv_string s k \<noteq> None" using getenv_string_abs [OF assms] by simp
  show "getenv_string s n \<noteq> None"
  proof (cases "0x3d \<in> set n")
    case False
    then show ?thesis using getenv_string_abs [OF assms z] by simp
  next
    case True
    then have d: "dropWhile (\<lambda>c. c \<noteq> 0x3d) n \<noteq> []" by (auto simp: dropWhile_eq_Nil_conv)
    then obtain n' where "dropWhile (\<lambda>c. c \<noteq> 0x3d) n = 0x3d # n'"
      using hd_dropWhile [OF d] by (metis list.collapse)
    then have n: "n = k @ 0x3d # n'" unfolding k_def by (metis takeWhile_dropWhile_id)
    from gk obtain r where r: "getenv_scan (env_area s) k 0 = Some r"
      by (auto simp: getenv_string_def getenv_def split: option.splits)
    then have "getenv_scan (env_area s) n 0 = Some r" unfolding n by (rule getenv_scan_before_eq)
    then show ?thesis using gk r by (simp add: getenv_string_def getenv_def)
  qed
qed

lemma find_cmd_bound:
  assumes "0 \<notin> set name" "table_ok table" "find_cmd_tbl name table = Some (Some i)"
  shows "i < length table"
proof -
  let ?P = "\<lambda>(i, e). cmd_name e = cmd_key name" and ?Q = "\<lambda>(i, e). key_matches (cmd_key name) e"
  have "\<exists>e. (i, e) \<in> set (enumerate 0 table)"
  proof (cases "find ?P (enumerate 0 table)")
    case (Some p)
    then have "p \<in> set (enumerate 0 table)" unfolding find_Some_iff by (metis nth_mem)
    moreover obtain j e where p: "p = (j, e)" by (cases p)
    moreover have "j = i" using assms(3) Some find_cmd_lemma [OF assms(1,2)] p by simp
    ultimately show ?thesis by blast
  next
    case None
    then have "\<exists>e. filter ?Q (enumerate 0 table) = [(i, e)]"
      using assms(3) find_cmd_lemma [OF assms(1,2)] by (auto split: list.splits prod.splits)
    then obtain e where "filter ?Q (enumerate 0 table) = [(i, e)]" by blast
    then have "(i, e) \<in> set (filter ?Q (enumerate 0 table))" by simp
    then show ?thesis by auto
  qed
  then show ?thesis by (auto simp: in_set_enumerate_eq)
qed

lemma sep_scan_total:
  "mem = t @ 0 # rest \<Longrightarrow> i \<le> length t \<Longrightarrow> (i = 0 \<longrightarrow> mem ! 0 \<noteq> 0x27)
   \<Longrightarrow> \<exists>j. sep_scan mem str inq i = Some j \<and> i \<le> j \<and> j \<le> length t"
proof (induction mem str inq i rule: sep_scan.induct)
  case (1 mem str inq i)
  have c: "rd mem i = Some (mem ! i)" using "1.prems" by simp
  show ?case
  proof (cases "mem ! i = 0")
    case True
    then show ?thesis using c "1.prems" by (subst sep_scan.simps) auto
  next
    case False
    then have lt: "i < length t" using "1.prems" by (metis le_neq_implies_less nth_append_length)
    have q: "\<not> (mem ! i = 0x27 \<and> i = 0)" using "1.prems"(3) by metis
    show ?thesis
      using "1.IH" [OF c False q refl refl] "1.prems" lt c False q
      by (subst sep_scan.simps) (auto simp: Let_def dest: Suc_leD)
  qed
qed

text \<open>Commands that always return, in states where every lookup is defined.\<close>

locale total_commands = command_set +
  assumes exec_total: "good s \<Longrightarrow> c_strings argv \<Longrightarrow> exec c flag argv s \<noteq> None"
    and lookup_total: "good s \<Longrightarrow> total_lookup (getenv_string s)"
begin

lemma run_token_total:
  assumes "table_ok table" "\<forall>e \<in> set table. \<exists>c. cmd e = OtherCmd c" "good s" "0 \<notin> set line" "length line < CONFIG_SYS_CBSIZE"
  shows "run_token (call_cmd exec run) table (pre @ line @ 0 # suf) (length pre) flag rpt rc s \<noteq> None"
proof -
  obtain t rest where pm: "process_macros (getenv_string s) (pre @ line @ 0 # suf) (length pre) (replicate CONFIG_SYS_CBSIZE 0)
    = Some (t @ 0 # rest)" "0 \<notin> set t"
    using process_macros_safe_lemma [OF lookup_total [OF assms(3)] assms(4,5), of "replicate CONFIG_SYS_CBSIZE 0" pre suf] by auto
  define n where "n = min CONFIG_SYS_MAXARGS (length (words t))"
  obtain argv line' where pl: "parse_line (t @ 0 # rest) (replicate (CONFIG_SYS_MAXARGS + 1) None) = Some (n, argv, line')"
    "arg_strings line' argv n = Some (take CONFIG_SYS_MAXARGS (words t))"
    using parse_line_lemma [OF pm(2), of "replicate (CONFIG_SYS_MAXARGS + 1) None" rest] by (auto simp: n_def)
  show ?thesis
  proof (cases "n = 0")
    case True
    then show ?thesis using pm pl by (simp add: run_token_def)
  next
    case False
    define args where "args = take CONFIG_SYS_MAXARGS (words t)"
    have ne: "args \<noteq> []" using False by (auto simp: args_def n_def CONFIG_SYS_MAXARGS_def)
    have z: "\<forall>a \<in> set args. 0 \<notin> set a" using arg_strings_nonzero [OF pl(2)] by (simp add: args_def)
    then have zh: "0 \<notin> set (hd args)" using ne by simp
    obtain fi where f: "find_cmd_tbl (hd args) table = Some fi" using find_cmd_lemma [OF zh assms(1)] by blast
    show ?thesis
    proof (cases fi)
      case None
      then show ?thesis using pm pl f False by (simp add: run_token_def args_def)
    next
      case (Some i)
      then have "i < length table" using find_cmd_bound [OF zh assms(1)] f by simp
      then obtain c where c: "cmd (table ! i) = OtherCmd c" using assms(2) nth_mem by blast
      have "exec c flag args s \<noteq> None" using exec_total [OF assms(3)] z by (simp add: c_strings_def)
      then show ?thesis
        using pm pl f False Some c by (auto simp: run_token_def call_cmd_def Let_def simp flip: args_def)
    qed
  qed
qed

lemma run_segments_total:
  assumes "table_ok table" "\<forall>e \<in> set table. \<exists>c. cmd e = OtherCmd c" "keeps run"
  shows "good s \<Longrightarrow> 0 \<notin> set line \<Longrightarrow> length line < CONFIG_SYS_CBSIZE \<Longrightarrow> (pre = [] \<longrightarrow> take 1 line \<noteq> [0x27])
    \<Longrightarrow> run_segments (call_cmd exec run) table (pre @ line @ 0 # suf) (length pre) flag rpt rc s \<noteq> None"
proof (induction "length line" arbitrary: line pre flag rpt rc s rule: less_induct)
  case less
  show ?case
  proof (cases line)
    case Nil
    then show ?thesis by (subst run_segments.simps) simp
  next
    case (Cons c line')
    let ?mem = "pre @ line @ 0 # suf" and ?str = "length pre"
    have "c \<noteq> 0" using less.prems Cons by auto
    have q: "?str = 0 \<longrightarrow> ?mem ! 0 \<noteq> 0x27" using less.prems(4) Cons by auto
    obtain j where j: "sep_scan ?mem ?str False ?str = Some j" "?str \<le> j" "j \<le> length (pre @ line)"
      using sep_scan_total [of ?mem "pre @ line" suf ?str ?str False] q by auto
    then have after: "?str < j" using sep_scan_after [OF j(1)] \<open>c \<noteq> 0\<close> Cons by simp
    define k where "k = j - ?str"
    define l1 l2 where "l1 = take k line" and "l2 = drop k line"
    have line: "line = l1 @ l2" "length l1 = k" "j = ?str + k" using j(2,3) by (simp_all add: l1_def l2_def k_def)
    have tok: "\<exists>x. run_token (call_cmd exec run) table (pre @ l1 @ 0 # tl) ?str flag rpt rc s = Some x" for tl
      using run_token_total [OF assms(1,2) less.prems(1), of l1 run pre tl flag rpt rc] less.prems line by auto
    have rdc: "rd ?mem ?str = Some c" using Cons by simp
    show ?thesis
    proof (cases l2)
      case Nil
      have z: "?mem ! j = 0" "?mem[j := 0] = pre @ l1 @ 0 # suf"
        using line Nil nth_append_length [of "pre @ l1" 0 suf] list_update_length [of "pre @ l1" 0 suf 0] by simp_all
      obtain x where x: "run_token (call_cmd exec run) table (pre @ l1 @ 0 # suf) ?str flag rpt rc s = Some x" using tok by blast
      have e: "rd (pre @ l1 @ 0 # suf) j = Some 0" using rd_at [of "pre @ l1" 0 suf] line by simp
      have "run_segments (call_cmd exec run) table (pre @ l1 @ 0 # suf) j f r' rc' s' \<noteq> None" for f r' rc' s'
        using e by (subst run_segments.simps) simp
      then show ?thesis
        using rdc \<open>c \<noteq> 0\<close> j(1) z x by (subst run_segments.simps) (simp add: Let_def split: sum.split)
    next
      case (Cons d l3)
      have z: "?mem ! j = d" "?mem[j := 0] = pre @ l1 @ 0 # l3 @ 0 # suf" "d \<noteq> 0"
        using line Cons nth_append_length [of "pre @ l1" d "l3 @ 0 # suf"]
          list_update_length [of "pre @ l1" d "l3 @ 0 # suf" 0] less.prems(2) by auto
      obtain x where x: "run_token (call_cmd exec run) table (pre @ l1 @ 0 # l3 @ 0 # suf) ?str flag rpt rc s = Some x" using tok by blast
      have k: "case x of Inl (flag, rpt, rc, s') \<Rightarrow> good s' | Inr (rc, s') \<Rightarrow> good s'"
        by (rule run_token_keeps [OF assms(3) less.prems(1) x])
      have "run_segments (call_cmd exec run) table ((pre @ l1 @ [0]) @ l3 @ 0 # suf) (length (pre @ l1 @ [0])) f r' rc' s' \<noteq> None"
        if "good s'" for f r' rc' s'
        by (rule less.hyps) (use that less.prems line Cons in auto)
      moreover have "length (pre @ l1 @ [0]) = j + 1" using line by simp
      ultimately show ?thesis
        using rdc \<open>c \<noteq> 0\<close> j(1) z x k by (subst run_segments.simps) (auto simp: Let_def split: sum.split)
    qed
  qed
qed

lemma run_command_returns_lemma:
  assumes "table_ok table" "\<forall>e \<in> set table. \<exists>c. cmd e = OtherCmd c" "good s" "0 \<notin> set line" "take 1 line \<noteq> [0x27]"
  shows "\<exists>r s'. run_command (Suc n) exec table (Some line) flag s = Some (r, s') \<and> good s'"
proof -
  have g: "good (clear_ctrlc s)" unfolding clear_ctrlc_def by (rule ctrlc_keeps) fact
  have "run_command (Suc n) exec table (Some line) flag s \<noteq> None"
    using run_segments_total [OF assms(1,2) run_command_keeps g assms(4), of "[]" n table "[]"] assms(5)
    by (auto simp: Let_def)
  then obtain r s' where "run_command (Suc n) exec table (Some line) flag s = Some (r, s')" by auto
  then show ?thesis using keepsD [OF run_command_keeps assms(3)] by blast
qed

end


section \<open>Two commands that always return\<close>

text \<open>One argument of \<^verbatim>\<open>echo\<close>: what is printed, and whether a newline still follows.\<close>

function echo_arg :: "u8 list \<Rightarrow> u8 list \<times> bool" where
  "echo_arg p =
     (case p of
        [] \<Rightarrow> ([], True)
      | c # p \<Rightarrow>
          if c = 0x5c \<and> p \<noteq> [] \<and> hd p = 0x63 then (fst (echo_arg (tl p)), False)
          else (let (out, nl) = echo_arg p in (c # out, nl)))"
  by pat_completeness auto
termination
  by (relation "measure length") auto

declare echo_arg.simps [simp del]

definition do_echo :: "u8 list list \<Rightarrow> int \<times> u8 list" where
  "do_echo argv =
     (let outs = map echo_arg (tl argv);
          text = concat (map (\<lambda>(i, out, nl). (if i > 0 then [0x20] else []) @ out) (enumerate 0 outs))
      in (0, text @ (if list_all snd outs then [0x0a] else [])))"

definition do_version :: "u8 list \<Rightarrow> int \<times> u8 list" where
  "do_version version_string = (0, 0x0a # version_string @ [0x0a])"

datatype plain_cmd = Echo | Version

definition plain_exec :: "u8 list \<Rightarrow> (plain_cmd, 'd) exec" where
  "plain_exec version_string c flag argv s =
     (case c of
        Echo \<Rightarrow> (let (r, out) = do_echo argv in Some (r, s))
      | Version \<Rightarrow> (let (r, out) = do_version version_string in Some (r, s)))"

definition plain_table :: "plain_cmd cmd_tbl list" where
  "plain_table =
     [\<lparr>cmd_name = ascii ''echo'', maxargs = CONFIG_SYS_MAXARGS, repeatable = 1, cmd = OtherCmd Echo\<rparr>,
      \<lparr>cmd_name = ascii ''version'', maxargs = 1, repeatable = 1, cmd = OtherCmd Version\<rparr>]"

lemma plain_exec_eq: "plain_exec v c flag argv s = Some (0, s)"
  by (cases c) (simp_all add: plain_exec_def do_echo_def do_version_def Let_def)

interpretation plain: total_commands "plain_exec v" env_wf for v
  by unfold_locales (auto simp: env_wf_def plain_exec_eq intro: getenv_string_total)

lemma plain_table_ok: "table_ok plain_table" "\<forall>e \<in> set plain_table. \<exists>c. cmd e = OtherCmd c"
  by (simp_all add: table_ok_def plain_table_def)

text \<open>C37:
  The interpreter returns: with commands that return and keep a contract under which every lookup
  is defined, any line at all that does not begin with a quote is taken apart, expanded, looked
  up and run without touching memory outside the buffers, and a result code comes back.\<close>

theorem run_command_returns:
  assumes "\<forall>s argv c flag r s'. good s \<longrightarrow> c_strings argv \<longrightarrow> exec c flag argv s = Some (r, s') \<longrightarrow> good s'"
    and "\<forall>s argv c flag. good s \<longrightarrow> c_strings argv \<longrightarrow> exec c flag argv s \<noteq> None"
    and "\<forall>s. good s \<longrightarrow> total_lookup (getenv_string s)" "\<forall>s b. good s \<longrightarrow> good (s\<lparr>ctrlc_was_pressed := b\<rparr>)"
    and "table_ok table" "\<forall>e \<in> set table. \<exists>c. cmd e = OtherCmd c"
    and "good s" "0 \<notin> set line" "take 1 line \<noteq> [0x27]"
  shows "\<exists>r s'. run_command (Suc n) exec table (Some line) flag s = Some (r, s') \<and> good s'"
proof -
  have t: "total_commands exec good"
    by unfold_locales (use assms(1-4) in blast)+
  show ?thesis by (rule total_commands.run_command_returns_lemma [OF t assms(5-9)])
qed

theorem run_command_returns_witness:
  "\<exists>r s'. run_command 1 (plain_exec []) plain_table (Some (ascii ''echo ${bootcmd};nonsense;$(x'')) 0 demo_shell = Some (r, s')"
  using run_command_returns [of env_wf "plain_exec []" plain_table demo_shell "ascii ''echo ${bootcmd};nonsense;$(x''" 0 0]
    plain_table_ok demo_abs
  by (auto simp: env_wf_def plain_exec_eq intro: getenv_string_total)

theorem run_command_meaning_witness:
  "run_command 1 (plain_exec []) plain_table (Some (ascii ''version;vers'')) 0 demo_shell = Some (1, demo_shell)"
proof -
  let ?pss = "[[Plain (ascii ''version'')], [Plain (ascii ''vers'')]]"
  have w: "words (ascii ''version'') = [ascii ''version'']" "words (ascii ''vers'') = [ascii ''vers'']"
    using words_word [of "[]" "ascii ''version''"] words_word [of "[]" "ascii ''vers''"] by (simp_all add: blank_def)
  have "clear_ctrlc demo_shell = demo_shell" by (simp add: clear_ctrlc_def demo_shell_def)
  moreover have "select_cmd (ascii ''version'') plain_table = Some 1" "select_cmd (ascii ''vers'') plain_table = Some 1"
    by (simp_all add: select_cmd_def plain_table_def cmd_key_def key_matches_def)
  ultimately have "meaning (call_cmd (plain_exec []) (run_command 0 (plain_exec []) plain_table)) plain_table ?pss 0 1 0 (clear_ctrlc demo_shell)
    = Some (1, demo_shell)"
    using w
    by (simp add: token_meaning_def lookups_defined_def line_value_def CONFIG_SYS_CBSIZE_def CONFIG_SYS_MAXARGS_def
        plain_table_def call_cmd_def plain_exec_eq had_ctrlc_def demo_shell_def Let_def)
  moreover have "\<forall>ps \<in> set ?pss. segment_ok ps" by (simp add: segment_ok_def)
  moreover have "command_line ?pss = ascii ''version;vers''" by (simp add: render_def)
  ultimately show ?thesis
    using run_command_meaning [of ?pss plain_table "plain_exec []" 0 0 demo_shell "(1, demo_shell)"] plain_table_ok(1)
    by (simp add: CONFIG_SYS_CBSIZE_def)
qed

theorem main_boot_unattended_witness:
  "main_boot (run_command 1 (plain_exec []) plain_table) (\<lambda>k. k = 7) demo_shell = Some demo_shell
    \<and> main_boot (run_command 1 (plain_exec []) plain_table) (\<lambda>k. k = 400) demo_shell
      = map_option snd (run_command 1 (plain_exec []) plain_table (Some (ascii ''version'')) 0 demo_shell)"
proof -
  have d: "CONFIG_BOOTDELAY = (case None of None \<Rightarrow> CONFIG_BOOTDELAY | Some v \<Rightarrow> sint (fst (simple_strtol v 10)))"
    "0 \<le> CONFIG_BOOTDELAY" "nat CONFIG_BOOTDELAY = 4" by (simp_all add: CONFIG_BOOTDELAY_def)
  have "\<exists>j < 400. j = (7 :: nat)" by (intro exI [of _ 7]) simp
  then show ?thesis
    using main_boot_unattended [OF demo_lookups d(1,2), of 1 "plain_exec []" plain_table "\<lambda>k. k = 7"]
      main_boot_unattended [OF demo_lookups d(1,2), of 1 "plain_exec []" plain_table "\<lambda>k. k = 400"] d(3)
    by simp
qed

end
