(* ===== verification/Complete.thy ===== *)
theory Complete
  imports Prelude CmdParse LineEdit Env
begin

text \<open>
  Completion of a command line by TAB: \<^verbatim>\<open>cmd_auto_complete\<close> of \<^verbatim>\<open>common/command.c\<close> with its
  helpers, on top of the splitting of theory CmdParse and the name completion of theory Env.  The
  theorems show that it meets the contract the line editor needs, so that with a limit below the size of the
  buffer the editor with the real completion stays inside its buffers up to a TAB at which completion itself
  reads outside its strings, and what a unique match adds to the line, where it reads behind the name.
\<close>

section \<open>Candidates\<close>

text \<open>
  \<open>cmdv\<close> is an array of \<open>length cmdv\<close> slots, each a string or a null pointer.  A name list that
  does not fit ends with the ellipsis.
\<close>

definition ellipsis :: "u8 list" where "ellipsis = ascii ''...''"

fun match_names :: "(u8 list \<Rightarrow> bool) \<Rightarrow> nat \<Rightarrow> u8 list list \<Rightarrow> nat \<Rightarrow> u8 list option list
    \<Rightarrow> (nat \<times> u8 list option list) option" where
  "match_names P maxv [] n_found cmdv = Some (n_found, cmdv)"
| "match_names P maxv (name # names) n_found cmdv =
     (if \<not> P name then match_names P maxv names n_found cmdv
      else if maxv - 2 \<le> n_found then map_option (\<lambda>cmdv. (n_found + 1, cmdv)) (wr cmdv n_found (Some ellipsis))
      else do {
        cmdv \<leftarrow> wr cmdv n_found (Some name);
        match_names P maxv names (n_found + 1) cmdv
      })"

definition space_char :: "u8 \<Rightarrow> bool" where
  "space_char c \<longleftrightarrow> c = 0 \<or> c = 0x20 \<or> c = 0x09"

text \<open>The pointers that \<^verbatim>\<open>env_complete\<close> stores, as strings.\<close>

definition ptr_string :: "u8 list \<Rightarrow> cmd_ptr \<Rightarrow> u8 list option option" where
  "ptr_string buf p =
     (case p of NullPtr \<Rightarrow> Some None | Ellipsis \<Rightarrow> Some (Some ellipsis) | InBuf i \<Rightarrow> map_option Some (str_at buf i))"

definition VAR_TMP_BUF :: nat where "VAR_TMP_BUF = 512"

definition var_complete ::
    "u8 list \<Rightarrow> u8 list list \<Rightarrow> u8 \<Rightarrow> nat \<Rightarrow> u8 list option list \<Rightarrow> (nat \<times> u8 list option list) option" where
  "var_complete env argv last_char maxv cmdv =
     (let space = space_char last_char;
          names = (\<lambda>var. do {
            (n, ptrs, buf) \<leftarrow> env_complete env var (int maxv) (replicate maxv NullPtr) (int VAR_TMP_BUF) (replicate VAR_TMP_BUF 0);
            cmdv \<leftarrow> those (map (ptr_string buf) ptrs);
            Some (n, cmdv)
          })
      in if space \<and> length argv = 1 then names []
         else if \<not> space \<and> length argv = 2 then names (argv ! 1)
         else Some (0, cmdv))"

text \<open>
  The indices of the entries whose arguments \<^verbatim>\<open>var_complete\<close> completes: what
  \<^verbatim>\<open>install_auto_complete\<close> finds in the table.
\<close>

definition install_auto_complete :: "'c cmd_tbl list \<Rightarrow> nat list option" where
  "install_auto_complete table = do {
     a \<leftarrow> find_cmd_tbl (ascii ''printenv'') table;
     b \<leftarrow> find_cmd_tbl (ascii ''setenv'') table;
     c \<leftarrow> find_cmd_tbl (ascii ''run'') table;
     Some (List.map_filter (\<lambda>i. i) [a, b, c])
   }"

definition complete_cmdv ::
    "'c cmd_tbl list \<Rightarrow> nat list \<Rightarrow> u8 list \<Rightarrow> u8 list list \<Rightarrow> u8 \<Rightarrow> nat \<Rightarrow> u8 list option list
     \<Rightarrow> (int \<times> u8 list option list) option" where
  "complete_cmdv table hooks env argv last_char maxv cmdv =
     (if maxv < 2 then Some (- 2, cmdv)
      else do {
        cmdv \<leftarrow> wr cmdv 0 None;
        case argv of
          [] \<Rightarrow> do {
            (n_found, cmdv) \<leftarrow> match_names (\<lambda>_. True) maxv (map cmd_name table) 0 cmdv;
            cmdv \<leftarrow> wr cmdv n_found None;
            Some (int n_found, cmdv)
          }
        | name # rest \<Rightarrow>
            if rest \<noteq> [] \<or> space_char last_char
            then do {
              cmdtp \<leftarrow> find_cmd_tbl name table;
              case cmdtp of
                None \<Rightarrow> map_option (\<lambda>cmdv. (0, cmdv)) (wr cmdv 0 None)
              | Some i \<Rightarrow>
                  if i \<notin> set hooks then map_option (\<lambda>cmdv. (0, cmdv)) (wr cmdv 0 None)
                  else map_option (\<lambda>(n, cmdv). (int n, cmdv)) (var_complete env argv last_char maxv cmdv)
            }
            else do {
              len \<leftarrow> cmd_len name;
              (n_found, cmdv) \<leftarrow> match_names (\<lambda>e. len \<le> length e \<and> take len name = take len e) maxv
                (map cmd_name table) 0 cmdv;
              cmdv \<leftarrow> wr cmdv n_found None;
              Some (int n_found, cmdv)
            }
      })"

text \<open>The strings before the first null pointer.\<close>

fun cmdv_strings :: "u8 list option list \<Rightarrow> u8 list list option" where
  "cmdv_strings [] = None"
| "cmdv_strings (None # cmdv) = Some []"
| "cmdv_strings (Some s # cmdv) = map_option (\<lambda>ss. s # ss) (cmdv_strings cmdv)"

section \<open>Common prefix and printing\<close>

fun prefix_len :: "nat \<Rightarrow> u8 list \<Rightarrow> u8 list \<Rightarrow> nat" where
  "prefix_len (Suc len) (c # s) (d # t) = (if c = d then Suc (prefix_len len s t) else 0)"
| "prefix_len _ _ _ = 0"

definition find_common_prefix :: "u8 list list \<Rightarrow> nat" where
  "find_common_prefix argv =
     (case argv of
        [] \<Rightarrow> 0
      | anchor # argv \<Rightarrow> foldl (\<lambda>len t. prefix_len len anchor t) (length anchor) argv)"

text \<open>\<open>i\<close> is the output column; \<open>ll\<close> and \<open>sl\<close> the lengths of leader and separator.\<close>

fun print_args :: "u8 list \<Rightarrow> u8 list \<Rightarrow> int \<Rightarrow> int \<Rightarrow> u8 list list \<Rightarrow> u8 list" where
  "print_args leader sep linemax i [] = [0x0a]"
| "print_args leader sep linemax i (a # argv) =
     (let len = int (length a + length sep)
      in if linemax \<le> i + len
         then 0x0a # leader @ a @ print_args leader sep linemax (int (length leader) - int (length sep) + len) argv
         else sep @ a @ print_args leader sep linemax (i + len) argv)"

definition print_argv :: "u8 list \<Rightarrow> u8 list \<Rightarrow> int \<Rightarrow> u8 list list \<Rightarrow> u8 list" where
  "print_argv leader sep linemax argv = print_args leader sep linemax linemax argv"

section \<open>The handler\<close>

definition CONFIG_SYS_PROMPT :: "u8 list" where "CONFIG_SYS_PROMPT = ascii ''yixi-sha# ''"
definition CMDV_SIZE :: nat where "CMDV_SIZE = 20"

text \<open>
  What is to be inserted: \<^verbatim>\<open>s\<close> with the separator, or nothing.  \<open>i\<close> is the number of candidates and
  \<open>word\<close> the last argument, if there is one.
\<close>

definition completion_text ::
    "int \<Rightarrow> u8 list list \<Rightarrow> u8 list list \<Rightarrow> (u8 list \<times> bool) option option" where
  "completion_text i cands argv =
     (if i = 1
      then (if argv = [] \<or> cands = [] \<or> length (hd cands) < length (last argv) then None
            else Some (Some (drop (length (last argv)) (hd cands), True)))
      else if 1 < i \<and> find_common_prefix cands \<noteq> 0
      then (if argv = [] then None
            else let k = length (last argv); j = int (find_common_prefix cands) - int k
                 in if 0 < j then Some (Some (take (nat j) (drop k (hd cands)), False)) else Some None)
      else Some None)"

text \<open>
  The buffer, the index and what is printed; \<^verbatim>\<open>None\<close> inside is the return with 0.  The text is
  written behind the string in the buffer, the index moves by its length.
\<close>

definition cmd_auto_complete ::
    "'c cmd_tbl list \<Rightarrow> nat list \<Rightarrow> u8 list \<Rightarrow> u8 list \<Rightarrow> u8 list \<Rightarrow> nat
     \<Rightarrow> (u8 list \<times> nat \<times> u8 list) option option" where
  "cmd_auto_complete table hooks env prompt buf n =
     (if prompt \<noteq> CONFIG_SYS_PROMPT then Some None
      else do {
        cnt \<leftarrow> strlen buf 0;
        let last_char = (if 1 \<le> cnt then buf ! (cnt - 1) else 0);
        tmp_buf \<leftarrow> put_at (replicate CONFIG_SYS_CBSIZE 0) 0 (take (cnt + 1) buf);
        (argc, argv, tmp_buf) \<leftarrow> make_argv tmp_buf (CONFIG_SYS_MAXARGS + 1) (replicate (CONFIG_SYS_MAXARGS + 1) None);
        args \<leftarrow> arg_strings tmp_buf argv argc;
        (i, cmdv) \<leftarrow> complete_cmdv table hooks env args last_char CMDV_SIZE (replicate CMDV_SIZE None);
        if i = 0 then Some (if 1 < argc then None else Some (buf, n, [0x07]))
        else do {
          cands \<leftarrow> cmdv_strings cmdv;
          ins \<leftarrow> completion_text i cands args;
          case ins of
            None \<Rightarrow> Some (Some (buf, n, print_argv (ascii ''  '') (ascii '' '') 78 cands @ prompt @ take cnt buf))
          | Some (s, unique) \<Rightarrow>
              let s = (if unique then s @ [0x20] else s)
              in if CONFIG_SYS_CBSIZE - 2 \<le> n + length s then Some (Some (buf, n, [0x07]))
                 else map_option (\<lambda>buf. Some (buf, n + length s, if unique then s else s @ [0x07]))
                        (put_at buf cnt (s @ [0]))
        }
      })"


section \<open>The contract with the line editor\<close>

text \<open>
  What is inserted goes behind the text that is there, the buffer keeps its size, and the index
  stays below the size of the console buffer.
\<close>

lemma cmd_auto_complete_keeps:
  assumes "cmd_auto_complete table hooks env prompt buf n = Some (Some (buf', n', out))"
  shows "length buf' = length buf \<and> (n' = n \<and> buf' = buf \<or> n \<le> n' \<and> n' < CONFIG_SYS_CBSIZE - 2
    \<and> (\<exists>cnt. strlen buf 0 = Some cnt \<and> take cnt buf' = take cnt buf))"
proof -
  have put: "put_at b c s = Some b' \<Longrightarrow> take c b' = take c b" for b :: "u8 list" and c s b'
    by (auto simp: put_at_def split: if_splits)
  have "n' = n \<and> buf' = buf \<or> (\<exists>cnt s. strlen buf 0 = Some cnt \<and> put_at buf cnt s = Some buf' \<and> n \<le> n'
    \<and> n' < CONFIG_SYS_CBSIZE - 2)"
    using assms
    by (auto simp: cmd_auto_complete_def Let_def split: if_splits Option.bind_splits option.splits)
  then show ?thesis using put put_at_length by blast
qed

text \<open>The handler as the completion parameter of the editor.\<close>

definition completer_of :: "'c cmd_tbl list \<Rightarrow> nat list \<Rightarrow> u8 list \<Rightarrow> completer" where
  "completer_of table hooks env prompt buf n col = cmd_auto_complete table hooks env prompt buf n"

locale completion =
  fixes lim :: nat and complete :: completer
  assumes contract: "completer_ok lim complete" and limit: "lim < HIST_SIZE"
begin

lemma editor_safe:
  "cread_ok lim st \<Longrightarrow> (\<exists>r. cread_loop complete prompt lim keys st = Some r
      \<and> (case r of Inl st' \<Rightarrow> cread_ok lim st' | Inr (rc, len, st') \<Rightarrow> len \<le> lim))
    \<or> (\<exists>keys1 keys2 st'. keys = keys1 @ 0x09 # keys2 \<and> cread_loop complete prompt lim keys1 st = Some (Inl st')
      \<and> cread_ok lim st' \<and> \<not> tab_defined complete prompt st')"
  by (rule cread_loop_safe_lemma [OF _ limit contract])

end

text \<open>
  The limit of the board is 256, for which the contract of the editor cannot be met; 255 is the largest one for
  its buffers.\<close>

interpretation command_completion: completion 255 "completer_of table hooks env" for table hooks env
proof
  show "completer_ok 255 (completer_of table hooks env)"
    unfolding completer_ok_def completer_of_def
  proof (intro allI impI)
    fix prompt buf n col buf' n' out
    assume n: "n \<le> 255" and r: "cmd_auto_complete table hooks env prompt buf n = Some (Some (buf', n', out))"
    from cmd_auto_complete_keeps [OF r] n show "length buf' = length buf \<and> n' \<le> 255"
      by (auto simp: CONFIG_SYS_CBSIZE_def)
  qed
qed (simp add: HIST_SIZE_def)

text \<open>
  The editor with the real completion, with the limit of 255 characters for which its buffer is large enough:
  whatever is typed, it stays inside its buffer and its history and returns at most 255 characters, or TAB has
  been pressed where the handler itself is undefined.\<close>

theorem editor_with_completion_safe:
  assumes "cread_ok 255 st"
  shows "(\<exists>r. cread_loop (completer_of table hooks env) prompt 255 keys st = Some r
      \<and> (case r of Inl st' \<Rightarrow> cread_ok 255 st' | Inr (rc, len, st') \<Rightarrow> len \<le> 255))
    \<or> (\<exists>keys1 keys2 st'. keys = keys1 @ 0x09 # keys2
      \<and> cread_loop (completer_of table hooks env) prompt 255 keys1 st = Some (Inl st')
      \<and> \<not> tab_defined (completer_of table hooks env) prompt st')"
  using command_completion.editor_safe [OF assms] by blast

section \<open>A unique match\<close>

lemma match_names_filter:
  "n + length (filter P names) < maxv - 1 \<Longrightarrow> maxv \<le> length cmdv \<Longrightarrow>
   \<exists>cmdv'. match_names P maxv names n cmdv = Some (n + length (filter P names), cmdv') \<and> length cmdv' = length cmdv
     \<and> take n cmdv' = take n cmdv \<and> take (length (filter P names)) (drop n cmdv') = map Some (filter P names)"
proof (induction names arbitrary: n cmdv)
  case (Cons a names)
  show ?case
  proof (cases "P a")
    case False
    then show ?thesis using Cons by simp
  next
    case True
    then have b: "n < length cmdv" "\<not> maxv - 2 \<le> n" using Cons.prems by auto
    have "Suc n + length (filter P names) < maxv - 1" using Cons.prems True by simp
    then obtain cmdv' where ih: "match_names P maxv names (Suc n) (cmdv[n := Some a]) = Some (Suc n + length (filter P names), cmdv')"
      "length cmdv' = length cmdv" "take (Suc n) cmdv' = take (Suc n) (cmdv[n := Some a])"
      "take (length (filter P names)) (drop (Suc n) cmdv') = map Some (filter P names)"
      using Cons.IH [of "Suc n" "cmdv[n := Some a]"] Cons.prems(2) by auto
    have "cmdv' ! n = Some a" using ih(2,3) b(1) by (metis length_list_update lessI nth_list_update_eq nth_take)
    then have "drop n cmdv' = Some a # drop (Suc n) cmdv'" using ih(2) b(1) by (simp add: Cons_nth_drop_Suc [symmetric])
    moreover have "take n cmdv' = take n cmdv" using arg_cong [OF ih(3), of "take n"] by (simp add: min_def)
    ultimately show ?thesis using True b ih by simp
  qed
qed simp

lemma cmdv_strings_one:
  "take 1 cmdv = [Some s] \<Longrightarrow> 2 \<le> length cmdv \<Longrightarrow> cmdv_strings (cmdv[1 := None]) = Some [s]"
  by (cases cmdv; cases "tl cmdv") auto

text \<open>C40:
  TAB behind a single word for which, up to its first dot, exactly one command is found, with room for the
  result: as long as the word is not longer than the name of the command, the line gets the rest of the name from
  the length of the word on and a blank, the index moves behind it and just the added text is printed; without a dot
  the line is then the name and a blank.  A longer word (\<^verbatim>\<open>cp.bin\<close> for \<^verbatim>\<open>cp\<close>) makes the handler read behind the
  end of the name.\<close>

theorem unique_completion:
  assumes "table_ok table" "name \<noteq> []" "\<forall>c \<in> set name. c \<noteq> 0 \<and> \<not> blank c" "length name < CONFIG_SYS_CBSIZE"
    "filter (key_matches (cmd_key name)) table = [e]" "length (cmd_name e) + 3 < CONFIG_SYS_CBSIZE"
    "length (cmd_name e) + 2 \<le> length (name @ 0 # suf)"
  shows "cmd_auto_complete table hooks env CONFIG_SYS_PROMPT (name @ 0 # suf) (length name)
    = (if length name \<le> length (cmd_name e)
       then Some (Some (name @ drop (length name) (cmd_name e) @ [0x20, 0] @ drop (length (cmd_name e) + 2) (name @ 0 # suf),
              length (cmd_name e) + 1, drop (length name) (cmd_name e) @ [0x20]))
       else None) \<and>
    (0x2e \<notin> set name \<longrightarrow> name @ drop (length name) (cmd_name e) = cmd_name e)"
proof -
  let ?buf = "name @ 0 # suf" and ?n = "length name" and ?e = "cmd_name e" and ?k = "length (cmd_key name)"
  have z: "0 \<notin> set name" using assms(3) by auto
  have "e \<in> set (filter (key_matches (cmd_key name)) table)" using assms(5) by simp
  then have em: "key_matches (cmd_key name) e" by simp
  have dotless: "name @ drop ?n ?e = ?e" if "0x2e \<notin> set name"
  proof -
    have "cmd_key name = name" using that unfolding cmd_key_def takeWhile_eq_all_conv by metis
    then have "take ?n ?e = name" using em unfolding key_matches_def by simp
    then show ?thesis by (metis append_take_drop_id)
  qed
  have len: "strlen ?buf 0 = Some ?n" using str_end_string [OF z, of suf] by (simp add: strlen_def)
  have last: "?buf ! (?n - 1) = last name" "\<not> space_char (last name)"
    using assms(2,3) by (auto simp: nth_append last_conv_nth space_char_def blank_def)
  define tmp where "tmp = name @ 0 # replicate (CONFIG_SYS_CBSIZE - (?n + 1)) 0"
  have tmp: "put_at (replicate CONFIG_SYS_CBSIZE 0) 0 (take (?n + 1) ?buf) = Some tmp"
    using assms(4) by (simp add: put_at_def tmp_def)
  have w: "words name = [name]" using words_word [of "[]" name] assms(2,3) by auto
  obtain argv line where pl: "parse_line tmp (replicate (CONFIG_SYS_MAXARGS + 1) None) = Some (1, argv, line)"
    "arg_strings line argv 1 = Some [name]" "length argv = CONFIG_SYS_MAXARGS + 1"
    using parse_line_lemma [OF z, of "replicate (CONFIG_SYS_MAXARGS + 1) None" "replicate (CONFIG_SYS_CBSIZE - (?n + 1)) 0"]
    by (auto simp: w tmp_def CONFIG_SYS_MAXARGS_def)
  have ma: "make_argv tmp (CONFIG_SYS_MAXARGS + 1) (replicate (CONFIG_SYS_MAXARGS + 1) None) = Some (1, argv[1 := None], line)"
    using make_argv_eq_parse_line [of "replicate (CONFIG_SYS_MAXARGS + 1) None" tmp] pl(1) by simp
  have as: "arg_strings line (argv[1 := None]) 1 = Some [name]" using pl(2) by (simp add: arg_strings_def)
  have key: "cmd_len name = Some ?k" by (rule cmd_len_eq [OF z])
  let ?P = "\<lambda>e. ?k \<le> length e \<and> take ?k name = take ?k e"
  have tk: "take ?k name = cmd_key name" unfolding cmd_key_def by (metis takeWhile_eq_take)
  have "filter ?P (map cmd_name table) = map cmd_name (filter (key_matches (cmd_key name)) table)"
    unfolding filter_map comp_def tk
    by (rule arg_cong [where f = "map cmd_name"], rule filter_cong) (auto simp: key_matches_def, metis length_take min.absorb_iff2)
  then have f: "filter ?P (map cmd_name table) = [?e]" using assms(5) by simp
  obtain cmdv where mn: "match_names ?P CMDV_SIZE (map cmd_name table) 0 (replicate CMDV_SIZE None) = Some (1, cmdv)"
    "length cmdv = CMDV_SIZE" "take 1 cmdv = [Some ?e]"
    using match_names_filter [of 0 ?P "map cmd_name table" CMDV_SIZE "replicate CMDV_SIZE None"] unfolding f
    by (auto simp: CMDV_SIZE_def)
  have c0: "(replicate CMDV_SIZE (None :: u8 list option))[0 := None] = replicate CMDV_SIZE None" "0 < CMDV_SIZE" "\<not> CMDV_SIZE < 2"
    by (simp_all add: CMDV_SIZE_def numeral_eq_Suc)
  have cc: "complete_cmdv table hooks env [name] (last name) CMDV_SIZE (replicate CMDV_SIZE None) = Some (1, cmdv[1 := None])"
    using mn last(2) key c0 by (simp add: complete_cmdv_def)
  have cs: "cmdv_strings (cmdv[1 := None]) = Some [?e]" using cmdv_strings_one mn(2,3) by (simp add: CMDV_SIZE_def)
  have ct: "completion_text 1 [?e] [name] = (if ?n \<le> length ?e then Some (Some (drop ?n ?e, True)) else None)"
    by (simp add: completion_text_def)
  have fit: "\<not> CONFIG_SYS_CBSIZE - 2 \<le> Suc (length ?e)" using assms(6) by simp
  have run: "cmd_auto_complete table hooks env CONFIG_SYS_PROMPT ?buf ?n =
      (if ?n \<le> length ?e
       then map_option (\<lambda>buf. Some (buf, length ?e + 1, drop ?n ?e @ [0x20])) (put_at ?buf ?n ((drop ?n ?e @ [0x20]) @ [0]))
       else None)"
    unfolding cmd_auto_complete_def
    using len last tmp ma as cc cs ct assms(2) fit by (auto simp: Let_def Suc_le_eq)
  have "put_at ?buf ?n ((drop ?n ?e @ [0x20]) @ [0]) = Some (name @ drop ?n ?e @ [0x20, 0] @ drop (length ?e + 2) ?buf)"
    if "?n \<le> length ?e"
  proof -
    have "?n + length ((drop ?n ?e @ [0x20]) @ [0]) = length ?e + 2" using that by simp
    then show ?thesis using assms(7) by (simp add: put_at_def)
  qed
  with run dotless show ?thesis by simp
qed

theorem unique_completion_witness:
  "cmd_auto_complete [entry ''go'', entry ''help''] [] [] CONFIG_SYS_PROMPT (ascii ''he'' @ replicate 10 0) 2
    = Some (Some (ascii ''help '' @ replicate 7 0, 5, ascii ''lp '')) \<and>
   cmd_auto_complete [entry ''go'', entry ''help''] [] [] CONFIG_SYS_PROMPT (ascii ''go.b'' @ replicate 10 0) 4 = None"
proof
  have "table_ok [entry ''go'', entry ''help'']" "ascii ''he'' \<noteq> []"
    "\<forall>c \<in> set (ascii ''he''). c \<noteq> 0 \<and> \<not> blank c" "length (ascii ''he'') < CONFIG_SYS_CBSIZE"
    "filter (key_matches (cmd_key (ascii ''he''))) [entry ''go'', entry ''help''] = [entry ''help'']"
    "length (cmd_name (entry ''help'')) + 3 < CONFIG_SYS_CBSIZE"
    "length (cmd_name (entry ''help'')) + 2 \<le> length (ascii ''he'' @ 0 # replicate 9 0)"
    by (simp_all add: entry_def table_ok_def key_matches_def cmd_key_def blank_def CONFIG_SYS_CBSIZE_def)
  from unique_completion [OF this, of "[]" "[]"]
  show "cmd_auto_complete [entry ''go'', entry ''help''] [] [] CONFIG_SYS_PROMPT (ascii ''he'' @ replicate 10 0) 2
    = Some (Some (ascii ''help '' @ replicate 7 0, 5, ascii ''lp ''))"
    by (simp add: entry_def numeral_eq_Suc)
next
  have "table_ok [entry ''go'', entry ''help'']" "ascii ''go.b'' \<noteq> []"
    "\<forall>c \<in> set (ascii ''go.b''). c \<noteq> 0 \<and> \<not> blank c" "length (ascii ''go.b'') < CONFIG_SYS_CBSIZE"
    "filter (key_matches (cmd_key (ascii ''go.b''))) [entry ''go'', entry ''help''] = [entry ''go'']"
    "length (cmd_name (entry ''go'')) + 3 < CONFIG_SYS_CBSIZE"
    "length (cmd_name (entry ''go'')) + 2 \<le> length (ascii ''go.b'' @ 0 # replicate 9 0)"
    by (simp_all add: entry_def table_ok_def key_matches_def cmd_key_def blank_def CONFIG_SYS_CBSIZE_def)
  from unique_completion [OF this, of "[]" "[]"]
  show "cmd_auto_complete [entry ''go'', entry ''help''] [] [] CONFIG_SYS_PROMPT (ascii ''go.b'' @ replicate 10 0) 4 = None"
    by (simp add: entry_def numeral_eq_Suc)
qed

end
