(* ===== verification/Net.thy ===== *)
theory Net
  imports Prelude CString Vsprintf
begin

text \<open>
  The frame layer of \<^verbatim>\<open>net/net.c\<close> as configured (IPv4 without reassembly, no UDP checksum, ping):
  Ethernet, VLAN, ARP, IP, ICMP echo and UDP headers, built by the sending and taken apart by the
  receiving functions, on buffers of bytes.  An access outside a buffer is \<^verbatim>\<open>None\<close>.  The call of the
  current packet handler, always the last action, is part of the result.  The theorems show the
  checksum to be the Internet checksum, that a datagram sent is the datagram received, that address
  resolution only delays it, and which frames make the receiver leave its buffer.
\<close>

section \<open>State\<close>

text \<open>
  Internet addresses are words as the little-endian processor loads them, the VLAN numbers in
  network order.  \<^verbatim>\<open>NetArpWaitPacketMAC\<close> points to one of the arrays that hold an address.
\<close>

datatype ether_ptr = ServerEther | PingMac | BcastAddr

record net =
  NetOurEther :: "u8 list"
  NetServerEther :: "u8 list"
  ping_mac :: "u8 list"
  NetOurIP :: u32
  NetServerIP :: u32
  NetOurSubnetMask :: u32
  NetOurGatewayIP :: u32
  NetPingIP :: u32
  NetOurVLAN :: u16
  NetOurNativeVLAN :: u16
  NetIPID :: u32
  PingSeqNo :: u16
  NetTxPacket :: "u8 list"
  NetArpWaitPacketIP :: u32
  NetArpWaitReplyIP :: u32
  NetArpWaitPacketMAC :: "ether_ptr option"
  NetArpWaitTxPacket :: "u8 list"
  NetArpWaitTxPacketSize :: nat
  NetArpWaitTimerStart :: u32
  NetArpWaitTry :: int
  frames :: "u8 list list"

definition ETHER_HDR_SIZE :: nat where "ETHER_HDR_SIZE = 14"
definition E802_HDR_SIZE :: nat where "E802_HDR_SIZE = 22"
definition VLAN_ETHER_HDR_SIZE :: nat where "VLAN_ETHER_HDR_SIZE = 18"
definition IP_HDR_SIZE :: nat where "IP_HDR_SIZE = 28"
definition IP_HDR_SIZE_NO_UDP :: nat where "IP_HDR_SIZE_NO_UDP = 20"
definition ARP_HDR_SIZE :: nat where "ARP_HDR_SIZE = 28"
definition PROT_IP :: u16 where "PROT_IP = 0x0800"
definition PROT_ARP :: u16 where "PROT_ARP = 0x0806"
definition PROT_RARP :: u16 where "PROT_RARP = 0x8035"
definition PROT_VLAN :: u16 where "PROT_VLAN = 0x8100"
definition VLAN_NONE :: u16 where "VLAN_NONE = 4095"
definition VLAN_IDMASK :: u16 where "VLAN_IDMASK = 0x0fff"
definition NetBcastAddr :: "u8 list" where "NetBcastAddr = replicate 6 0xff"
definition NetEtherNullAddr :: "u8 list" where "NetEtherNullAddr = replicate 6 0"
definition ARP_TIMEOUT :: u32 where "ARP_TIMEOUT = 5000"
definition ARP_TIMEOUT_COUNT :: int where "ARP_TIMEOUT_COUNT = 20"
definition PKTSIZE_ALIGN :: nat where "PKTSIZE_ALIGN = 1536"

lemmas net_constants = ETHER_HDR_SIZE_def E802_HDR_SIZE_def VLAN_ETHER_HDR_SIZE_def IP_HDR_SIZE_def
  IP_HDR_SIZE_NO_UDP_def ARP_HDR_SIZE_def PKTSIZE_ALIGN_def

lemmas net_protocols = PROT_IP_def PROT_ARP_def PROT_RARP_def PROT_VLAN_def

section \<open>Bytes\<close>

text \<open>Fields in network order, halfwords and addresses as the processor stores them.\<close>

definition net16 :: "u16 \<Rightarrow> u8 list" where
  "net16 x = [ucast (drop_bit 8 x), ucast x]"

definition native16 :: "u16 \<Rightarrow> u8 list" where
  "native16 x = [ucast x, ucast (drop_bit 8 x)]"

definition rd_net16 :: "u8 list \<Rightarrow> nat \<Rightarrow> u16 option" where
  "rd_net16 b i = do { h \<leftarrow> rd b i; l \<leftarrow> rd b (i + 1); Some (push_bit 8 (ucast h) OR ucast l) }"

definition ntohs :: "u16 \<Rightarrow> u16" where
  "ntohs x = push_bit 8 x OR drop_bit 8 x"

definition slice :: "u8 list \<Rightarrow> nat \<Rightarrow> nat \<Rightarrow> u8 list option" where
  "slice b i n = (if i + n \<le> length b then Some (take n (drop i b)) else None)"

definition NetReadIP :: "u8 list \<Rightarrow> nat \<Rightarrow> u32 option" where
  "NetReadIP b i = do {
     b0 \<leftarrow> rd b i; b1 \<leftarrow> rd b (i + 1); b2 \<leftarrow> rd b (i + 2); b3 \<leftarrow> rd b (i + 3);
     Some (ucast b0 OR push_bit 8 (ucast b1) OR push_bit 16 (ucast b2) OR push_bit 24 (ucast b3))
   }"

section \<open>The checksum\<close>

fun cksum_loop :: "u8 list \<Rightarrow> nat \<Rightarrow> nat \<Rightarrow> u32 \<Rightarrow> u32 option" where
  "cksum_loop b i 0 xsum = Some xsum"
| "cksum_loop b i (Suc n) xsum = do {
     l \<leftarrow> rd b i; h \<leftarrow> rd b (i + 1);
     cksum_loop b (i + 2) n (xsum + (ucast l OR push_bit 8 (ucast h)))
   }"

definition fold_sum :: "u32 \<Rightarrow> u32" where
  "fold_sum xsum = (xsum AND 0xffff) + drop_bit 16 xsum"

definition NetCksum :: "u8 list \<Rightarrow> nat \<Rightarrow> nat \<Rightarrow> u32 option" where
  "NetCksum b i len = map_option (\<lambda>x. fold_sum (fold_sum x) AND 0xffff) (cksum_loop b i len 0)"

definition NetCksumOk :: "u8 list \<Rightarrow> nat \<Rightarrow> nat \<Rightarrow> bool option" where
  "NetCksumOk b i len = map_option (\<lambda>c. (c + 1) AND 0xfffe = 0) (NetCksum b i len)"

section \<open>Headers\<close>

definition our_vlan :: "net \<Rightarrow> u16" where
  "our_vlan st = (let v = ntohs (NetOurVLAN st) in if v = 0xffff then VLAN_NONE else v)"

definition NetEthHdrSize :: "net \<Rightarrow> nat" where
  "NetEthHdrSize st = (if our_vlan st AND VLAN_IDMASK = VLAN_NONE then ETHER_HDR_SIZE else VLAN_ETHER_HDR_SIZE)"

definition NetSetEther :: "u8 list \<Rightarrow> u8 list \<Rightarrow> u16 \<Rightarrow> net \<Rightarrow> (u8 list \<times> nat) option" where
  "NetSetEther xet addr prot st = do {
     b \<leftarrow> put_at xet 0 addr;
     b \<leftarrow> put_at b 6 (NetOurEther st);
     if our_vlan st AND VLAN_IDMASK = VLAN_NONE
     then do { b \<leftarrow> put_at b 12 (net16 prot); Some (b, ETHER_HDR_SIZE) }
     else do {
       b \<leftarrow> put_at b 12 (net16 PROT_VLAN @ net16 (our_vlan st AND VLAN_IDMASK) @ net16 prot);
       Some (b, VLAN_ETHER_HDR_SIZE)
     }
   }"

definition NetSetIP :: "u8 list \<Rightarrow> nat \<Rightarrow> u32 \<Rightarrow> u16 \<Rightarrow> u16 \<Rightarrow> nat \<Rightarrow> net \<Rightarrow> (u8 list \<times> net) option" where
  "NetSetIP b ip dest dport sport len st = do {
     b \<leftarrow> (if odd len then put_at b (ip + IP_HDR_SIZE + len) [0] else Some b);
     b \<leftarrow> put_at b ip ([0x45, 0] @ net16 (of_nat (IP_HDR_SIZE + len)) @ net16 (ucast (NetIPID st)) @ net16 0x4000
           @ [255, 17, 0, 0] @ word_bytes (NetOurIP st) @ word_bytes dest
           @ net16 sport @ net16 dport @ net16 (of_nat (8 + len)) @ [0, 0]);
     c \<leftarrow> NetCksum b ip (IP_HDR_SIZE_NO_UDP div 2);
     b \<leftarrow> put_at b (ip + 10) (native16 (NOT (ucast c)));
     Some (b, st\<lparr>NetIPID := NetIPID st + 1\<rparr>)
   }"

definition eth_send :: "u8 list \<Rightarrow> nat \<Rightarrow> net \<Rightarrow> net option" where
  "eth_send b n st = map_option (\<lambda>f. st\<lparr>frames := frames st @ [f]\<rparr>) (slice b 0 n)"

section \<open>Address resolution\<close>

definition ArpRequest :: "net \<Rightarrow> net option" where
  "ArpRequest st = do {
     (b, n) \<leftarrow> NetSetEther (NetTxPacket st) NetBcastAddr PROT_ARP st;
     let reply = (if NetArpWaitPacketIP st AND NetOurSubnetMask st \<noteq> NetOurIP st AND NetOurSubnetMask st
                  then if NetOurGatewayIP st = 0 then NetArpWaitPacketIP st else NetOurGatewayIP st
                  else NetArpWaitPacketIP st);
     b \<leftarrow> put_at b n (net16 1 @ net16 PROT_IP @ [6, 4] @ net16 1 @ NetOurEther st @ word_bytes (NetOurIP st)
           @ replicate 6 0 @ word_bytes reply);
     eth_send b (n + ARP_HDR_SIZE) (st\<lparr>NetTxPacket := b, NetArpWaitReplyIP := reply\<rparr>)
   }"

text \<open>The second component asks for \<^verbatim>\<open>NetStartAgain\<close>.\<close>

definition ArpTimeoutCheck :: "u32 \<Rightarrow> net \<Rightarrow> (net \<times> bool) option" where
  "ArpTimeoutCheck t st =
     (if NetArpWaitPacketIP st = 0 then Some (st, False)
      else if ARP_TIMEOUT < t - NetArpWaitTimerStart st
      then (let try = NetArpWaitTry st + 1
            in if ARP_TIMEOUT_COUNT \<le> try then Some (st\<lparr>NetArpWaitTry := 0\<rparr>, True)
               else map_option (\<lambda>st. (st, False)) (ArpRequest (st\<lparr>NetArpWaitTry := try, NetArpWaitTimerStart := t\<rparr>)))
      else Some (st, False))"

section \<open>Sending\<close>

definition ether_at :: "ether_ptr \<Rightarrow> net \<Rightarrow> u8 list" where
  "ether_at p st = (case p of ServerEther \<Rightarrow> NetServerEther st | PingMac \<Rightarrow> ping_mac st | BcastAddr \<Rightarrow> NetBcastAddr)"

text \<open>\<open>now\<close> is \<^verbatim>\<open>get_timer(0)\<close>; the flag is the return value, set when the packet waits.\<close>

definition NetSendUDPPacket ::
    "u32 \<Rightarrow> ether_ptr \<Rightarrow> u32 \<Rightarrow> u16 \<Rightarrow> u16 \<Rightarrow> nat \<Rightarrow> net \<Rightarrow> (net \<times> bool) option" where
  "NetSendUDPPacket now ether dest dport sport len st =
     (let dest = (if dest = 0 then 0xffffffff else dest);
          ether = (if dest = 0xffffffff then BcastAddr else ether)
      in if ether_at ether st = NetEtherNullAddr
         then do {
           let st = st\<lparr>NetArpWaitPacketIP := dest, NetArpWaitPacketMAC := Some ether\<rparr>;
           (b, n) \<leftarrow> NetSetEther (NetArpWaitTxPacket st) (ether_at ether st) PROT_IP st;
           (b, st) \<leftarrow> NetSetIP b n dest dport sport len st;
           payload \<leftarrow> slice (NetTxPacket st) (n + IP_HDR_SIZE) len;
           b \<leftarrow> put_at b (n + IP_HDR_SIZE) payload;
           st \<leftarrow> ArpRequest (st\<lparr>NetArpWaitTxPacket := b, NetArpWaitTxPacketSize := n + IP_HDR_SIZE + len,
                               NetArpWaitTry := 1, NetArpWaitTimerStart := now\<rparr>);
           Some (st, True)
         }
         else do {
           (b, n) \<leftarrow> NetSetEther (NetTxPacket st) (ether_at ether st) PROT_IP st;
           (b, st) \<leftarrow> NetSetIP b n dest dport sport len st;
           st \<leftarrow> eth_send b (n + IP_HDR_SIZE + len) (st\<lparr>NetTxPacket := b\<rparr>);
           Some (st, False)
         })"

definition PingSend :: "u32 \<Rightarrow> net \<Rightarrow> net option" where
  "PingSend now st = do {
     let st = st\<lparr>ping_mac := NetEtherNullAddr, NetArpWaitPacketIP := NetPingIP st, NetArpWaitPacketMAC := Some PingMac\<rparr>;
     (b, n) \<leftarrow> NetSetEther (NetArpWaitTxPacket st) (ping_mac st) PROT_IP st;
     b \<leftarrow> put_at b n ([0x45, 0] @ net16 (of_nat (IP_HDR_SIZE_NO_UDP + 8)) @ net16 (ucast (NetIPID st)) @ net16 0x4000
           @ [255, 1, 0, 0] @ word_bytes (NetOurIP st) @ word_bytes (NetPingIP st));
     c \<leftarrow> NetCksum b n (IP_HDR_SIZE_NO_UDP div 2);
     b \<leftarrow> put_at b (n + 10) (native16 (NOT (ucast c)));
     b \<leftarrow> put_at b (n + 20) (net16 0x0800 @ [0, 0, 0, 0] @ net16 (PingSeqNo st));
     c \<leftarrow> NetCksum b (n + 20) (8 div 2);
     b \<leftarrow> put_at b (n + 22) (native16 (NOT (ucast c)));
     ArpRequest (st\<lparr>NetIPID := NetIPID st + 1, PingSeqNo := PingSeqNo st + 1, NetArpWaitTxPacket := b,
       NetArpWaitTxPacketSize := n + IP_HDR_SIZE_NO_UDP + 8, NetArpWaitTry := 1, NetArpWaitTimerStart := now\<rparr>)
   }"

section \<open>Receiving\<close>

text \<open>
  The call of the handler: the offset of its packet in the receive buffer or a null pointer, and
  the three numbers.
\<close>

type_synonym handler_call = "nat option \<times> u32 \<times> u32 \<times> u32"

definition set_ether :: "ether_ptr \<Rightarrow> u8 list \<Rightarrow> net \<Rightarrow> net" where
  "set_ether p mac st =
     (case p of ServerEther \<Rightarrow> st\<lparr>NetServerEther := mac\<rparr> | PingMac \<Rightarrow> st\<lparr>ping_mac := mac\<rparr> | BcastAddr \<Rightarrow> st)"

definition receive_arp_request :: "u8 list \<Rightarrow> nat \<Rightarrow> net \<Rightarrow> net option" where
  "receive_arp_request rx arp st = do {
     src \<leftarrow> slice rx 6 6;
     (b, n) \<leftarrow> NetSetEther rx src PROT_ARP st;
     b \<leftarrow> put_at b (arp + 6) (net16 2);
     sha \<leftarrow> slice b (arp + 8) 6;
     b \<leftarrow> put_at b (arp + 18) sha;
     spa \<leftarrow> slice b (arp + 14) 4;
     b \<leftarrow> put_at b (arp + 24) spa;
     b \<leftarrow> put_at b (arp + 8) (NetOurEther st @ word_bytes (NetOurIP st));
     eth_send b (n + ARP_HDR_SIZE) st
   }"

definition receive_arp_reply :: "u8 list \<Rightarrow> nat \<Rightarrow> net \<Rightarrow> net option" where
  "receive_arp_reply rx arp st =
     (case NetArpWaitPacketMAC st of
        None \<Rightarrow> Some st
      | Some p \<Rightarrow>
          if NetArpWaitPacketIP st = 0 then Some st
          else do {
            tmp \<leftarrow> NetReadIP rx (arp + 14);
            if tmp = NetArpWaitReplyIP st
            then do {
              mac \<leftarrow> slice rx (arp + 8) 6;
              let st = set_ether p mac st;
              b \<leftarrow> put_at (NetArpWaitTxPacket st) 0 (ether_at p st);
              st \<leftarrow> eth_send b (NetArpWaitTxPacketSize st) (st\<lparr>NetArpWaitTxPacket := b\<rparr>);
              Some (st\<lparr>NetArpWaitPacketIP := 0, NetArpWaitTxPacketSize := 0, NetArpWaitPacketMAC := None\<rparr>)
            }
            else Some st
          })"

definition receive_arp :: "u8 list \<Rightarrow> nat \<Rightarrow> int \<Rightarrow> net \<Rightarrow> net option" where
  "receive_arp rx arp len st =
     (if len < int ARP_HDR_SIZE then Some st
      else do {
        hrd \<leftarrow> rd_net16 rx arp; pro \<leftarrow> rd_net16 rx (arp + 2); hln \<leftarrow> rd rx (arp + 4); pln \<leftarrow> rd rx (arp + 5);
        if hrd \<noteq> 1 \<or> pro \<noteq> PROT_IP \<or> hln \<noteq> 6 \<or> pln \<noteq> 4 \<or> NetOurIP st = 0 then Some st
        else do {
          tpa \<leftarrow> NetReadIP rx (arp + 24);
          if tpa \<noteq> NetOurIP st then Some st
          else do {
            opcode \<leftarrow> rd_net16 rx (arp + 6);
            if opcode = 1 then receive_arp_request rx arp st
            else if opcode = 2 then receive_arp_reply rx arp st
            else Some st
          }
        }
      })"

definition receive_rarp :: "u8 list \<Rightarrow> nat \<Rightarrow> int \<Rightarrow> net \<Rightarrow> (net \<times> handler_call option) option" where
  "receive_rarp rx arp len st =
     (if len < int ARP_HDR_SIZE then Some (st, None)
      else do {
        opcode \<leftarrow> rd_net16 rx (arp + 6);
        hrd \<leftarrow> rd_net16 rx arp; pro \<leftarrow> rd_net16 rx (arp + 2); hln \<leftarrow> rd rx (arp + 4); pln \<leftarrow> rd rx (arp + 5);
        if opcode \<noteq> 4 \<or> hrd \<noteq> 1 \<or> pro \<noteq> PROT_IP \<or> hln \<noteq> 6 \<or> pln \<noteq> 4 then Some (st, None)
        else do {
          tpa \<leftarrow> NetReadIP rx (arp + 24);
          spa \<leftarrow> NetReadIP rx (arp + 14);
          sha \<leftarrow> slice rx (arp + 8) 6;
          Some (st\<lparr>NetOurIP := tpa, NetServerIP := (if NetServerIP st = 0 then spa else NetServerIP st),
                  NetServerEther := sha\<rparr>, Some (None, 0, 0, 0))
        }
      })"

text \<open>
  The answer to an echo request.  The number of halfwords is computed in unsigned arithmetic.
\<close>

definition icmp_halfwords :: "u16 \<Rightarrow> nat" where
  "icmp_halfwords len = unat (drop_bit 1 (ucast len - of_nat IP_HDR_SIZE_NO_UDP :: u32))"

definition ping_reply :: "u8 list \<Rightarrow> nat \<Rightarrow> u16 \<Rightarrow> net \<Rightarrow> net option" where
  "ping_reply rx ip len st = do {
     src \<leftarrow> slice rx 6 6;
     b \<leftarrow> put_at rx 0 src;
     b \<leftarrow> put_at b 6 (NetOurEther st);
     b \<leftarrow> put_at b (ip + 10) [0, 0];
     b \<leftarrow> put_at b (ip + 6) [0, 0];
     sender \<leftarrow> slice b (ip + 12) 4;
     b \<leftarrow> put_at b (ip + 16) sender;
     b \<leftarrow> put_at b (ip + 12) (word_bytes (NetOurIP st));
     c \<leftarrow> NetCksum b ip (IP_HDR_SIZE_NO_UDP div 2);
     b \<leftarrow> put_at b (ip + 10) (native16 (NOT (ucast c)));
     b \<leftarrow> put_at b (ip + 20) [0];
     b \<leftarrow> put_at b (ip + 22) [0, 0];
     c \<leftarrow> NetCksum b (ip + 20) (icmp_halfwords len);
     b \<leftarrow> put_at b (ip + 22) (native16 (NOT (ucast c)));
     eth_send b (ETHER_HDR_SIZE + unat len) st
   }"

definition receive_icmp :: "u8 list \<Rightarrow> nat \<Rightarrow> u16 \<Rightarrow> net \<Rightarrow> (net \<times> handler_call option) option" where
  "receive_icmp rx ip len st = do {
     type \<leftarrow> rd rx (ip + 20);
     if type = 0 then Some (st, Some (Some ip, 0, 0, 0))
     else if type = 8 then map_option (\<lambda>st. (st, None)) (ping_reply rx ip len st)
     else Some (st, None)
   }"

text \<open>
  The header size is unsigned, so a negative length passes the first test; the second one is signed.
\<close>

definition receive_ip :: "u8 list \<Rightarrow> nat \<Rightarrow> int \<Rightarrow> net \<Rightarrow> (net \<times> handler_call option) option" where
  "receive_ip rx ip len st =
     (if (of_int len :: u32) < of_nat IP_HDR_SIZE then Some (st, None)
      else do {
        total \<leftarrow> rd_net16 rx (ip + 2);
        if len < int (unat total) then Some (st, None)
        else do {
          hl_v \<leftarrow> rd rx ip;
          if hl_v AND 0xf0 \<noteq> 0x40 \<or> 5 < hl_v AND 0x0f then Some (st, None)
          else do {
            ok \<leftarrow> NetCksumOk rx ip (IP_HDR_SIZE_NO_UDP div 2);
            dst \<leftarrow> NetReadIP rx (ip + 16);
            off \<leftarrow> rd_net16 rx (ip + 6);
            p \<leftarrow> rd rx (ip + 9);
            if \<not> ok then Some (st, None)
            else if NetOurIP st \<noteq> 0 \<and> dst \<noteq> NetOurIP st \<and> dst \<noteq> 0xffffffff then Some (st, None)
            else if off AND 0x3fff \<noteq> 0 then Some (st, None)
            else if p = 1 then receive_icmp rx ip total st
            else if p \<noteq> 17 then Some (st, None)
            else do {
              udst \<leftarrow> rd_net16 rx (ip + 22);
              usrc \<leftarrow> rd_net16 rx (ip + 20);
              ulen \<leftarrow> rd_net16 rx (ip + 24);
              Some (st, Some (Some (ip + IP_HDR_SIZE), ucast udst, ucast usrc, ucast ulen - 8))
            }
          }
        }
      })"

text \<open>The protocol, where its header starts, the length left and the VLAN; \<open>Some None\<close> drops the frame.\<close>

definition frame_protocol :: "u8 list \<Rightarrow> int \<Rightarrow> net \<Rightarrow> (u16 \<times> nat \<times> int \<times> u16) option option" where
  "frame_protocol rx len st = do {
     x \<leftarrow> rd_net16 rx 12;
     if x < 1514
     then map_option (\<lambda>x. Some (x, E802_HDR_SIZE, len - int E802_HDR_SIZE, VLAN_NONE)) (rd_net16 rx 20)
     else if x \<noteq> PROT_VLAN then Some (Some (x, ETHER_HDR_SIZE, len - int ETHER_HDR_SIZE, VLAN_NONE))
     else if len < int VLAN_ETHER_HDR_SIZE then Some None
     else if ntohs (NetOurVLAN st) AND VLAN_IDMASK = VLAN_NONE then Some None
     else do {
       cti \<leftarrow> rd_net16 rx 14;
       x \<leftarrow> rd_net16 rx 16;
       Some (Some (x, VLAN_ETHER_HDR_SIZE, len - int VLAN_ETHER_HDR_SIZE, cti AND VLAN_IDMASK))
     }
   }"

definition vlan_matches :: "net \<Rightarrow> u16 \<Rightarrow> bool" where
  "vlan_matches st vlanid =
     (let mynvlanid = (let v = ntohs (NetOurNativeVLAN st) in if v = 0xffff then VLAN_NONE else v);
          vlanid = (if vlanid = VLAN_NONE then mynvlanid AND VLAN_IDMASK else vlanid)
      in our_vlan st AND VLAN_IDMASK = VLAN_NONE \<or> vlanid = our_vlan st AND VLAN_IDMASK)"

definition NetReceive :: "u8 list \<Rightarrow> int \<Rightarrow> net \<Rightarrow> (net \<times> handler_call option) option" where
  "NetReceive rx len st =
     (if len < int ETHER_HDR_SIZE then Some (st, None)
      else do {
        frame \<leftarrow> frame_protocol rx len st;
        (case frame of
           None \<Rightarrow> Some (st, None)
         | Some (x, ip, len, vlanid) \<Rightarrow>
             if \<not> vlan_matches st vlanid then Some (st, None)
             else if x = PROT_ARP then map_option (\<lambda>st. (st, None)) (receive_arp rx ip len st)
             else if x = PROT_RARP then receive_rarp rx ip len st
             else if x = PROT_IP then receive_ip rx ip len st
             else Some (st, None))
      })"

section \<open>The checksum is the Internet checksum\<close>

fun halfsum :: "u8 list \<Rightarrow> nat" where
  "halfsum (l # h # bs) = unat l + 256 * unat h + halfsum bs"
| "halfsum bs = 0"

lemma unat_halfword: "unat (ucast (l :: u8) OR push_bit 8 (ucast (h :: u8)) :: u32) = unat l + 256 * unat h"
proof -
  have "(ucast l OR push_bit 8 (ucast h) :: u32) = ucast l + push_bit 8 (ucast h)"
    by (rule disjunctive_add [symmetric]) (auto simp: bit_push_bit_iff bit_unsigned_iff not_le dest: bit_imp_le_length)
  moreover have "push_bit 8 (ucast h :: u32) = of_nat (256 * unat h)"
    by (simp add: push_bit_eq_mult mult.commute)
  ultimately have "(ucast l OR push_bit 8 (ucast h) :: u32) = of_nat (unat l + 256 * unat h)"
    by simp
  moreover have "unat l + 256 * unat h < 4294967296"
    using unat_u8_less [of h] unat_u8_less [of l] by linarith
  ultimately show ?thesis
    by (simp only: unat_of_nat_u32)
qed

lemma halfsum_le: "halfsum bs \<le> length bs div 2 * 65535"
proof (induction bs rule: halfsum.induct)
  case (1 l h bs)
  have "unat l + 256 * unat h \<le> 65535"
    using unat_u8_less [of h] unat_u8_less [of l] by linarith
  with 1 show ?case
    by simp
qed auto

lemma cksum_loop_eq:
  "i + 2 * n \<le> length b \<Longrightarrow> unat x + n * 65535 < 2 ^ 32
    \<Longrightarrow> cksum_loop b i n x = Some (of_nat (unat x + halfsum (take (2 * n) (drop i b))))"
proof (induction b i n x rule: cksum_loop.induct)
  case (1 b i x)
  then show ?case
    by simp
next
  case (2 b i n x)
  define w where "w = (ucast (b ! i) OR push_bit 8 (ucast (b ! Suc i)) :: u32)"
  have w: "unat w = unat (b ! i) + 256 * unat (b ! Suc i)"
    by (simp add: w_def unat_halfword)
  then have w_le: "unat w \<le> 65535"
    using unat_u8_less [of "b ! i"] unat_u8_less [of "b ! Suc i"] by linarith
  then have sum: "unat (x + w) = unat x + unat w"
    using "2.prems" by (simp add: unat_word_ariths)
  have cons: "take (2 * Suc n) (drop i b) = b ! i # b ! Suc i # take (2 * n) (drop (i + 2) b)"
    using "2.prems" by (simp add: take_drop_nth [of i] take_drop_nth [of "Suc i"])
  have bound: "unat (x + w) + n * 65535 < 2 ^ 32"
    using "2.prems" sum w_le by simp
  have "cksum_loop b i (Suc n) x = cksum_loop b (i + 2) n (x + w)"
    using "2.prems" by (simp add: w_def)
  also have "\<dots> = Some (of_nat (unat (x + w) + halfsum (take (2 * n) (drop (i + 2) b))))"
    using "2.IH" [of "b ! i" "b ! Suc i"] "2.prems" bound by (simp add: w_def)
  finally show ?case
    unfolding cons sum w halfsum.simps by (simp only: add.assoc)
qed

lemma cksum_loop_None: "0 < n \<Longrightarrow> length b < i + 2 * n \<Longrightarrow> cksum_loop b i n x = None"
proof (induction b i n x rule: cksum_loop.induct)
  case (2 b i n x)
  then show ?case
    by (cases "n = 0") (auto simp: rd_def split: bind_splits)
qed simp

lemma unat_fold_sum: "unat (fold_sum x) = unat x mod 65536 + unat x div 65536"
proof -
  have "unat (x AND 0xffff) = unat x mod 65536"
    using unat_and_mask [of x 16] by (simp add: mask_eq_exp_minus_1)
  moreover have "unat (drop_bit 16 x) = unat x div 65536"
    by (simp add: unat_drop)
  moreover have "unat x div 65536 < 65536"
    using unat_u32_less [of x] by linarith
  ultimately show ?thesis
    by (simp add: fold_sum_def unat_word_ariths)
qed

text \<open>The representative of a sum modulo 65535, with 0 only for 0.\<close>

definition ones_sum :: "nat \<Rightarrow> nat" where
  "ones_sum s = (if s = 0 then 0 else (s - 1) mod 65535 + 1)"

lemma ones_sum_split:
  assumes "s = 65535 * q + r + 1" "r < 65535"
  shows "ones_sum s = r + 1"
  using assms by (simp add: ones_sum_def)

lemma fold_twice: "unat (fold_sum (fold_sum x) AND 0xffff) = ones_sum (unat x)"
proof -
  define s where "s = unat x"
  define a b where "a = s div 65536" and "b = s mod 65536"
  have s: "s = 65536 * a + b" "b < 65536" "a < 65536"
    using unat_u32_less [of x] unfolding a_def b_def s_def by (simp, simp, linarith)
  have two: "unat (fold_sum (fold_sum x)) = (a + b) mod 65536 + (a + b) div 65536"
    by (simp add: unat_fold_sum a_def b_def s_def add.commute)
  have once: "(a + b) mod 65536 + (a + b) div 65536 = ones_sum s"
  proof (cases "a + b < 65536")
    case True
    then show ?thesis
      using s ones_sum_split [of s a "a + b - 1"] by (cases "s = 0") (auto simp: ones_sum_def)
  next
    case False
    then have "(a + b) mod 65536 = a + b - 65536" "(a + b) div 65536 = 1"
      using s by (auto simp: mod_if div_if)
    then show ?thesis
      using s False ones_sum_split [of s "a + 1" "a + b - 65536"] by auto
  qed
  have "ones_sum s < 65536"
    by (simp add: ones_sum_def less_Suc_eq_le Suc_le_eq)
  then show ?thesis
    using unat_and_mask [of "fold_sum (fold_sum x)" 16] two once by (simp add: mask_eq_exp_minus_1 s_def)
qed

lemma NetCksum_eq:
  assumes "i + 2 * n \<le> length b" "n \<le> 65535"
  shows "NetCksum b i n = Some (of_nat (ones_sum (halfsum (take (2 * n) (drop i b)))))"
proof -
  define s where "s = halfsum (take (2 * n) (drop i b))"
  have "s \<le> n * 65535"
    using halfsum_le [of "take (2 * n) (drop i b)"] assms(1) by (simp add: s_def min_absorb2)
  also have "\<dots> \<le> 65535 * 65535"
    using assms(2) by simp
  finally have "s < 4294967296"
    by simp
  then have "unat (of_nat s :: u32) = s"
    by simp
  then have "fold_sum (fold_sum (of_nat s)) AND 0xffff = of_nat (ones_sum s)"
    by (metis fold_twice u32_of_unat)
  then show ?thesis
    using cksum_loop_eq [OF assms(1), of 0] assms(2) by (simp add: NetCksum_def s_def)
qed

lemma ones_sum_le: "ones_sum s \<le> 65535"
  by (simp add: ones_sum_def Suc_le_eq)

lemma and_fffe_eq_0: "(x :: u32) AND 0xfffe = 0 \<longleftrightarrow> unat x div 2 mod 32768 = 0"
proof -
  have eq: "(0xfffe :: u32) = push_bit 1 (mask 15)"
    by (simp add: mask_eq_exp_minus_1 push_bit_eq_mult)
  have shift: "x AND push_bit k m = push_bit k (drop_bit k x AND m)" for k m
    by (rule bit_word_eqI) (auto simp: bit_eval bit_drop_bit_eq)
  have "x AND 0xfffe = push_bit 1 (drop_bit 1 x AND mask 15)"
    unfolding eq by (rule shift)
  moreover have "unat (push_bit 1 (drop_bit 1 x AND mask 15)) = 2 * (unat x div 2 mod 32768)"
    by (simp add: push_bit_eq_mult unat_word_ariths unat_and_mask unat_drop)
  ultimately have "unat (x AND 0xfffe) = 2 * (unat x div 2 mod 32768)"
    by simp
  then show ?thesis
    by (metis mult_eq_0_iff unat_eq_0 zero_neq_numeral)
qed

lemma ones_sum_dvd: "ones_sum s = 0 \<or> ones_sum s = 65535 \<longleftrightarrow> 65535 dvd s"
proof (cases "s = 0")
  case False
  define q r where "q = (s - 1) div 65535" and "r = (s - 1) mod 65535"
  have s: "s = 65535 * q + (r + 1)" "r < 65535"
    using False by (simp_all add: q_def r_def)
  then have "65535 dvd s \<longleftrightarrow> 65535 dvd r + 1"
    by (metis dvd_add_right_iff dvd_triv_left)
  also have "\<dots> \<longleftrightarrow> r + 1 = 65535"
    using s(2) by (auto dest: dvd_imp_le)
  finally show ?thesis
    using s ones_sum_split [of s q r] by auto
qed (simp add: ones_sum_def)

lemma NetCksumOk_lemma:
  assumes "i + 2 * n \<le> length b" "n \<le> 65535"
  shows "NetCksumOk b i n = Some (65535 dvd halfsum (take (2 * n) (drop i b)))"
proof -
  define s where "s = halfsum (take (2 * n) (drop i b))"
  have u: "unat (of_nat (ones_sum s) + 1 :: u32) = ones_sum s + 1"
    using ones_sum_le [of s] by (simp add: unat_word_ariths)
  have "(of_nat (ones_sum s) + 1 :: u32) AND 0xfffe = 0 \<longleftrightarrow> (ones_sum s + 1) div 2 mod 32768 = 0"
    unfolding and_fffe_eq_0 u ..
  also have "\<dots> \<longleftrightarrow> ones_sum s = 0 \<or> ones_sum s = 65535"
  proof -
    have "(ones_sum s + 1) div 2 \<le> 32768"
      using ones_sum_le [of s] by simp
    then have "(ones_sum s + 1) div 2 mod 32768 = 0 \<longleftrightarrow> (ones_sum s + 1) div 2 = 0 \<or> (ones_sum s + 1) div 2 = 32768"
      by (cases "(ones_sum s + 1) div 2 = 32768") auto
    then show ?thesis
      using ones_sum_le [of s] by linarith
  qed
  also have "\<dots> \<longleftrightarrow> 65535 dvd s"
    by (rule ones_sum_dvd)
  finally show ?thesis
    unfolding NetCksumOk_def NetCksum_eq [OF assms] s_def by simp
qed


section \<open>What the headers are\<close>

definition net_ok :: "net \<Rightarrow> bool" where
  "net_ok st \<longleftrightarrow> length (NetOurEther st) = 6 \<and> length (NetServerEther st) = 6 \<and> length (ping_mac st) = 6 \<and>
     length (NetTxPacket st) = PKTSIZE_ALIGN \<and> length (NetArpWaitTxPacket st) = PKTSIZE_ALIGN \<and>
     NetArpWaitTxPacketSize st \<le> PKTSIZE_ALIGN"

definition ether_header :: "u8 list \<Rightarrow> u16 \<Rightarrow> net \<Rightarrow> u8 list" where
  "ether_header addr prot st = addr @ NetOurEther st @
     (if our_vlan st AND VLAN_IDMASK = VLAN_NONE then net16 prot
      else net16 PROT_VLAN @ net16 (our_vlan st AND VLAN_IDMASK) @ net16 prot)"

definition ip_fields :: "u32 \<Rightarrow> u16 \<Rightarrow> u16 \<Rightarrow> nat \<Rightarrow> net \<Rightarrow> u8 list \<Rightarrow> u8 list" where
  "ip_fields dest dport sport len st ck =
     [0x45, 0] @ net16 (of_nat (IP_HDR_SIZE + len)) @ net16 (ucast (NetIPID st)) @ net16 0x4000 @ [255, 17] @ ck
       @ word_bytes (NetOurIP st) @ word_bytes dest @ net16 sport @ net16 dport @ net16 (of_nat (8 + len)) @ [0, 0]"

definition ip_header :: "u32 \<Rightarrow> u16 \<Rightarrow> u16 \<Rightarrow> nat \<Rightarrow> net \<Rightarrow> u8 list" where
  "ip_header dest dport sport len st = ip_fields dest dport sport len st
     (native16 (NOT (of_nat (ones_sum (halfsum (take 20 (ip_fields dest dport sport len st [0, 0])))))))"

definition datagram :: "u8 list \<Rightarrow> u32 \<Rightarrow> u16 \<Rightarrow> u16 \<Rightarrow> u8 list \<Rightarrow> net \<Rightarrow> u8 list" where
  "datagram addr dest dport sport body st =
     ether_header addr PROT_IP st @ ip_header dest dport sport (length body) st @ body"

lemma net_lengths [simp]:
  "length (net16 x) = 2" "length (native16 x) = 2" "length (word_bytes w) = 4"
  by (simp_all add: net16_def native16_def word_bytes_def)

lemma NetEthHdrSize_le: "NetEthHdrSize st \<le> 18" "14 \<le> NetEthHdrSize st"
  by (simp_all add: NetEthHdrSize_def net_constants)

lemma ether_header_length:
  "length addr = 6 \<Longrightarrow> length (NetOurEther st) = 6 \<Longrightarrow> length (ether_header addr prot st) = NetEthHdrSize st"
  by (simp add: ether_header_def NetEthHdrSize_def net_constants)

lemma ip_fields_length: "length ck = 2 \<Longrightarrow> length (ip_fields dest dport sport len st ck) = 28"
  by (simp add: ip_fields_def)

lemma ip_header_length: "length (ip_header dest dport sport len st) = 28"
  by (simp add: ip_header_def ip_fields_length)

lemma NetSetEther_eq:
  assumes "length addr = 6" "length (NetOurEther st) = 6" "18 \<le> length xet"
  shows "NetSetEther xet addr prot st =
    Some (ether_header addr prot st @ drop (NetEthHdrSize st) xet, NetEthHdrSize st)"
  using assms by (simp add: NetSetEther_def put_at_def ether_header_def NetEthHdrSize_def net_constants)

lemma NetCksum_header:
  assumes "length h = 20" "i = length pre"
  shows "NetCksum (pre @ h @ post) i 10 = Some (of_nat (ones_sum (halfsum h)))"
  using NetCksum_eq [of i 10 "pre @ h @ post"] assms by simp

lemma put_at_middle:
  assumes "length mid = length xs" "i = length pre"
  shows "put_at (pre @ mid @ post) i xs = Some (pre @ xs @ post)"
  using put_at_append [OF assms(1), of pre post] assms(2) by simp

lemma put_at_beyond:
  assumes "length pre \<le> i" "i + length xs \<le> length pre + length post"
  shows "put_at (pre @ post) i xs = map_option (\<lambda>p. pre @ p) (put_at post (i - length pre) xs)"
  using assms by (simp add: put_at_def)

lemma u16_of_nat: "(ucast (of_nat n :: u32) :: u16) = of_nat n"
  by (simp add: word_unat_eq_iff unsigned_ucast_eq unsigned_of_nat take_bit_take_bit)

text \<open>The header lands in front of what follows it; an odd length also clears one byte behind the data.\<close>

lemma NetSetIP_eq:
  assumes "28 + len + 1 \<le> length post" "ip = length pre"
  shows "NetSetIP (pre @ post) ip dest dport sport len st =
    Some (pre @ ip_header dest dport sport len st @ drop 28 (if odd len then post[28 + len := 0] else post),
          st\<lparr>NetIPID := NetIPID st + 1\<rparr>)"
proof -
  define f where "f ck = ip_fields dest dport sport len st ck" for ck
  define post' where "post' = (if odd len then post[28 + len := 0] else post)"
  define mid where "mid = take 28 post'"
  define rest where "rest = drop 28 post'"
  have split: "post' = mid @ rest" "length mid = 28"
    using assms(1) by (simp_all add: mid_def rest_def post'_def)
  have zero: "(if odd len then put_at (pre @ post) (ip + 28 + len) [0] else Some (pre @ post)) = Some (pre @ mid @ rest)"
    using assms by (simp add: split(1) [symmetric] post'_def put_at_def list_update_append upd_conv_take_nth_drop)
  have fields: "put_at (pre @ mid @ rest) ip (f [0, 0]) = Some (pre @ f [0, 0] @ rest)"
    using split(2) assms(2) by (intro put_at_middle) (simp_all add: f_def ip_fields_length)
  define c :: u32 where "c = of_nat (ones_sum (halfsum (take 20 (f [0, 0]))))"
  have "f [0, 0] = take 20 (f [0, 0]) @ drop 20 (f [0, 0])" "length (take 20 (f [0, 0])) = 20"
    by (simp_all add: f_def ip_fields_length)
  then have ck: "NetCksum (pre @ f [0, 0] @ rest) ip 10 = Some c"
    unfolding c_def using NetCksum_header [of "take 20 (f [0, 0])" ip pre "drop 20 (f [0, 0]) @ rest"] assms(2)
    by (metis append_assoc append_take_drop_id)
  have seal: "put_at (pre @ f [0, 0] @ rest) (ip + 10) (native16 (NOT (ucast c))) =
      Some (pre @ f (native16 (NOT (ucast c))) @ rest)"
    using assms(2) by (simp add: f_def ip_fields_def put_at_def)
  have lit: "[0x45, 0] @ net16 (of_nat (IP_HDR_SIZE + len)) @ net16 (ucast (NetIPID st)) @ net16 0x4000
      @ [255, 17, 0, 0] @ word_bytes (NetOurIP st) @ word_bytes dest
      @ net16 sport @ net16 dport @ net16 (of_nat (8 + len)) @ [0, 0] = f [0, 0]"
    by (simp add: f_def ip_fields_def)
  have sizes: "IP_HDR_SIZE = 28" "IP_HDR_SIZE_NO_UDP div 2 = 10"
    by (simp_all add: net_constants)
  have header: "ip_header dest dport sport len st = f (native16 (NOT (ucast c)))"
    by (simp add: ip_header_def f_def c_def u16_of_nat)
  show ?thesis
    unfolding NetSetIP_def lit unfolding sizes header zero post'_def [symmetric] rest_def [symmetric]
    by (simp add: fields ck seal)
qed


section \<open>Reading what was written\<close>

named_theorems frame_simps

lemma join16 [frame_simps]: "push_bit 8 (ucast (ucast (drop_bit 8 x) :: u8)) OR ucast (ucast x :: u8) = (x :: u16)"
  by (rule bit_word_eqI) (auto simp: bit_eval bit_ucast_iff bit_drop_bit_eq)

lemma join32 [frame_simps]:
  "ucast (ucast w :: u8) OR push_bit 8 (ucast (ucast (drop_bit 8 w) :: u8)) OR
     push_bit 16 (ucast (ucast (drop_bit 16 w) :: u8)) OR push_bit 24 (ucast (ucast (drop_bit 24 w) :: u8)) = (w :: u32)"
proof (rule bit_word_eqI)
  fix n
  assume "n < LENGTH(32)"
  then consider "n < 8" | "8 \<le> n \<and> n < 16" | "16 \<le> n \<and> n < 24" | "24 \<le> n \<and> n < 32"
    by force
  then show "bit (ucast (ucast w :: u8) OR push_bit 8 (ucast (ucast (drop_bit 8 w) :: u8)) OR
     push_bit 16 (ucast (ucast (drop_bit 16 w) :: u8)) OR push_bit 24 (ucast (ucast (drop_bit 24 w) :: u8)) :: u32) n = bit w n"
    by cases (auto simp: bit_eval bit_ucast_iff bit_drop_bit_eq)
qed

lemma rd_suffix [frame_simps]: "rd (pre @ suf) (length pre + k) = rd suf k" "rd (pre @ suf) (length pre) = rd suf 0"
  using rd_off [of pre suf k] rd_off [of pre suf 0] by simp_all

lemma rd_net16_suffix [frame_simps]:
  "rd_net16 (pre @ suf) (length pre + k) = rd_net16 suf k" "rd_net16 (pre @ suf) (length pre) = rd_net16 suf 0"
  using rd_off [of pre suf "k + 1"] rd_off [of pre suf k] rd_off [of pre suf 1] rd_off [of pre suf 0]
  by (simp_all add: rd_net16_def add.assoc)

lemma NetReadIP_suffix [frame_simps]:
  "NetReadIP (pre @ suf) (length pre + k) = NetReadIP suf k"
  using rd_off [of pre suf "k + 3"] rd_off [of pre suf "k + 2"] rd_off [of pre suf "k + 1"] rd_off [of pre suf k]
  by (simp add: NetReadIP_def add.assoc)

lemma halfsum_native16: "halfsum (native16 w) = unat w"
proof -
  have "unat w div 256 < 256"
    using unat_u16_less [of w] by linarith
  then have "unat (ucast w :: u8) = unat w mod 256" "unat (ucast (drop_bit 8 w) :: u8) = unat w div 256"
    by (simp_all add: unsigned_ucast_eq take_bit_eq_mod unsigned_drop_bit_eq drop_bit_eq_div unat_div)
  then show ?thesis
    by (simp add: native16_def)
qed

lemma unat_not_u16:
  assumes "m \<le> 65535"
  shows "unat (NOT (of_nat m :: u16)) = 65535 - m"
proof -
  have "NOT (of_nat m :: u16) = of_nat (65535 - m)"
    using assms by (simp add: not_eq_complement of_nat_diff)
  then show ?thesis
    by (simp only: unat_of_nat_u16)
qed

lemma sealed_sum: "65535 dvd s + (65535 - ones_sum s)"
proof (cases "s = 0")
  case False
  define q r where "q = (s - 1) div 65535" and "r = (s - 1) mod 65535"
  have s: "s = 65535 * q + r + 1" "r < 65535"
    using False by (simp_all add: q_def r_def)
  then have "s + (65535 - ones_sum s) = 65535 * (q + 1)"
    using ones_sum_split [OF s] by simp
  then show ?thesis
    by (simp only: dvd_triv_left)
qed (simp add: ones_sum_def)

lemma ip_header_sum: "65535 dvd halfsum (take 20 (ip_header dest dport sport len st))"
proof -
  have field: "halfsum (take 20 (ip_fields dest dport sport len st (native16 w))) =
      halfsum (take 20 (ip_fields dest dport sport len st [0, 0])) + halfsum (native16 w)" for w
    by (simp add: ip_fields_def net16_def word_bytes_def native16_def)
  show ?thesis
    unfolding ip_header_def field halfsum_native16 by (simp only: unat_not_u16 [OF ones_sum_le] sealed_sum)
qed

section \<open>Sending\<close>

definition udp_payload :: "net \<Rightarrow> nat \<Rightarrow> u8 list" where
  "udp_payload st len = take len (drop (NetEthHdrSize st + IP_HDR_SIZE) (NetTxPacket st))"

definition real_dest :: "u32 \<Rightarrow> u32" where
  "real_dest dest = (if dest = 0 then 0xffffffff else dest)"

definition real_ether :: "u32 \<Rightarrow> ether_ptr \<Rightarrow> ether_ptr" where
  "real_ether dest ether = (if real_dest dest = 0xffffffff then BcastAddr else ether)"

lemma ether_at_length: "net_ok st \<Longrightarrow> length (ether_at p st) = 6"
  by (simp add: net_ok_def ether_at_def NetBcastAddr_def split: ether_ptr.split)

lemma net_ok_ether: "net_ok st \<Longrightarrow> length (NetOurEther st) = 6"
  by (simp add: net_ok_def)

lemma header_state [frame_simps]:
  "ether_header addr prot (st\<lparr>NetIPID := x\<rparr>) = ether_header addr prot st"
  "ether_header addr prot (st\<lparr>NetArpWaitPacketIP := y, NetArpWaitPacketMAC := z\<rparr>) = ether_header addr prot st"
  by (simp_all add: ether_header_def our_vlan_def)

lemma take_datagram:
  assumes "length e = n" "length h = 28" "28 + len < length post"
  shows "slice (e @ h @ drop 28 (if odd len then post[28 + len := 0] else post)) 0 (n + 28 + len) =
    Some (e @ h @ take len (drop 28 post))"
proof -
  have "take len (drop 28 (post[28 + len := 0])) = take len (drop 28 post)"
    by (simp add: drop_update_swap)
  then show ?thesis
    using assms by (auto simp: slice_def)
qed

lemma send_direct:
  assumes "net_ok st" "ether_at (real_ether dest ether) st \<noteq> NetEtherNullAddr"
    and "NetEthHdrSize st + 28 + len < PKTSIZE_ALIGN"
  shows "\<exists>b. NetSendUDPPacket now ether dest dport sport len st =
    Some (st\<lparr>NetIPID := NetIPID st + 1, NetTxPacket := b, frames := frames st @
      [datagram (ether_at (real_ether dest ether) st) (real_dest dest) dport sport (udp_payload st len) st]\<rparr>, False) \<and>
    length b = PKTSIZE_ALIGN"
proof -
  define addr n where "addr = ether_at (real_ether dest ether) st" and "n = NetEthHdrSize st"
  define e where "e = ether_header addr PROT_IP st"
  define post where "post = drop n (NetTxPacket st)"
  define b where "b = e @ ip_header (real_dest dest) dport sport len st @
    drop 28 (if odd len then post[28 + len := 0] else post)"
  have e: "length e = n"
    unfolding e_def n_def by (rule ether_header_length) (use assms(1) in \<open>simp_all add: addr_def ether_at_length net_ok_def\<close>)
  have ether: "NetSetEther (NetTxPacket st) addr PROT_IP st = Some (e @ post, n)"
    unfolding e_def post_def n_def
    by (rule NetSetEther_eq) (use assms(1) in \<open>simp_all add: addr_def ether_at_length net_ok_def PKTSIZE_ALIGN_def\<close>)
  have post: "28 + len < length post"
    using assms(1,3) by (simp add: post_def n_def net_ok_def)
  have ip: "NetSetIP (e @ post) n (real_dest dest) dport sport len st = Some (b, st\<lparr>NetIPID := NetIPID st + 1\<rparr>)"
    unfolding b_def by (rule NetSetIP_eq) (use post e in simp_all)
  have payload: "take len (drop 28 post) = udp_payload st len"
    by (simp add: post_def udp_payload_def n_def IP_HDR_SIZE_def add.commute)
  have "length (udp_payload st len) = len"
    using post by (simp add: payload [symmetric])
  then have frame: "slice b 0 (n + 28 + len) =
      Some (datagram addr (real_dest dest) dport sport (udp_payload st len) st)"
    using take_datagram [OF e ip_header_length post] by (simp add: b_def datagram_def e_def payload)
  have "length b = PKTSIZE_ALIGN"
    using assms(1) e post by (simp add: b_def ip_header_length post_def net_ok_def)
  moreover have "addr \<noteq> NetEtherNullAddr"
    using assms(2) by (simp add: addr_def)
  ultimately show ?thesis
    using ether ip frame
    by (intro exI [of _ b]) (simp add: NetSendUDPPacket_def real_dest_def [symmetric] real_ether_def [symmetric] addr_def [symmetric]
        Let_def eth_send_def IP_HDR_SIZE_def)
qed


section \<open>Receiving\<close>

lemma net16_suffix: "rd_net16 (pre @ net16 x @ post) (length pre) = Some x"
  unfolding rd_net16_suffix by (simp add: rd_net16_def net16_def join16)

lemma net16_suffix_at: "length pre = i \<Longrightarrow> rd_net16 (pre @ net16 x @ post) i = Some x"
  using net16_suffix by blast

lemma frame_protocol_header:
  assumes "length addr = 6" "length (NetOurEther st) = 6" "\<not> prot < 1514" "prot \<noteq> PROT_VLAN"
    and vlan: "our_vlan st2 AND VLAN_IDMASK = our_vlan st AND VLAN_IDMASK"
    and "int (NetEthHdrSize st) \<le> len"
  shows "\<exists>v. frame_protocol (ether_header addr prot st @ suf) len st2 =
    Some (Some (prot, NetEthHdrSize st, len - int (NetEthHdrSize st), v)) \<and> vlan_matches st2 v"
proof (cases "our_vlan st AND VLAN_IDMASK = VLAN_NONE")
  case True
  have "rd_net16 (ether_header addr prot st @ suf) 12 = Some prot"
    using net16_suffix_at [of "addr @ NetOurEther st" 12 prot suf] assms(1,2) True by (simp add: ether_header_def)
  then show ?thesis
    using assms True by (simp add: frame_protocol_def NetEthHdrSize_def vlan_matches_def)
next
  case False
  define v where "v = our_vlan st AND VLAN_IDMASK"
  have rd: "rd_net16 (ether_header addr prot st @ suf) 12 = Some PROT_VLAN"
      "rd_net16 (ether_header addr prot st @ suf) 14 = Some v"
      "rd_net16 (ether_header addr prot st @ suf) 16 = Some prot"
    using net16_suffix_at [of "addr @ NetOurEther st" 12 PROT_VLAN "net16 v @ net16 prot @ suf"]
      net16_suffix_at [of "addr @ NetOurEther st @ net16 PROT_VLAN" 14 v "net16 prot @ suf"]
      net16_suffix_at [of "addr @ NetOurEther st @ net16 PROT_VLAN @ net16 v" 16 prot suf] assms(1,2) False
    by (simp_all add: ether_header_def v_def)
  have "ntohs (NetOurVLAN st2) AND VLAN_IDMASK \<noteq> VLAN_NONE"
    using False vlan by (auto simp: our_vlan_def Let_def VLAN_NONE_def VLAN_IDMASK_def split: if_splits)
  moreover have "v AND VLAN_IDMASK = v"
    by (simp add: v_def and.assoc)
  ultimately show ?thesis
    using assms False rd by (auto simp: frame_protocol_def NetEthHdrSize_def vlan_matches_def v_def PROT_VLAN_def)
qed

lemma ip_header_fields:
  fixes dest sport dport n st e body
  defines "rx \<equiv> e @ ip_header dest dport sport n st @ body"
  shows "rd_net16 rx (length e + 2) = Some (of_nat (IP_HDR_SIZE + n))" "rd rx (length e) = Some 0x45"
    "NetReadIP rx (length e + 16) = Some dest" "rd_net16 rx (length e + 6) = Some 0x4000"
    "rd rx (length e + 9) = Some 17" "rd_net16 rx (length e + 22) = Some dport"
    "rd_net16 rx (length e + 20) = Some sport" "rd_net16 rx (length e + 24) = Some (of_nat (8 + n))"
  unfolding rx_def frame_simps
  by (simp_all add: ip_header_def ip_fields_def net16_def native16_def word_bytes_def rd_net16_def NetReadIP_def
      rd_def join16 join32 del: of_nat_add)

lemma receive_datagram:
  assumes "int (28 + n) \<le> len" "len < 2 ^ 31" "28 + n < 65536"
    and "NetOurIP st2 = 0 \<or> NetOurIP st2 = dest \<or> dest = 0xffffffff"
  shows "receive_ip (e @ ip_header dest dport sport n st @ body) (length e) len st2 =
    Some (st2, Some (Some (length e + IP_HDR_SIZE), ucast dport, ucast sport, of_nat n))"
proof -
  have ok: "NetCksumOk (e @ ip_header dest dport sport n st @ body) (length e) 10 = Some True"
    using NetCksumOk_lemma [of "length e" 10 "e @ ip_header dest dport sport n st @ body"] ip_header_sum
    by (simp add: ip_header_length)
  have long: "\<not> (of_int len :: u32) < 28"
  proof -
    have "len = int (nat len)" "nat len < 4294967296" "28 \<le> nat len"
      using assms(1,2) by auto
    then have "unat (of_int len :: u32) = nat len"
      by (metis of_int_of_nat_eq unat_of_nat_u32)
    then show ?thesis
      using \<open>28 \<le> nat len\<close> by (simp add: word_less_nat_alt)
  qed
  have total: "unat (of_nat (28 + n) :: u16) = 28 + n" "unat (of_nat (8 + n) :: u16) = 8 + n"
    using assms(3) by (simp_all del: of_nat_add)
  then have "(ucast (of_nat (8 + n) :: u16) :: u32) = of_nat (8 + n)"
    by (intro u32_of_unat) (simp only: unat_ucast_u16_u32)
  then have ulen: "(ucast (of_nat (8 + n) :: u16) :: u32) - 8 = of_nat n"
    by simp
  have "\<not> len < uint (of_nat (28 + n) :: u16)"
    using assms(1) total(1) by (metis int_nat_eq linorder_not_less unat_eq_nat_uint uint_nonnegative)
  then show ?thesis
    using assms ok long total
    by (auto simp: receive_ip_def ip_header_fields IP_HDR_SIZE_NO_UDP_def ulen IP_HDR_SIZE_def
        simp del: of_nat_add add_2_eq_Suc')
qed

lemma datagram_accepted:
  assumes lens: "length addr = 6" "length (NetOurEther st) = 6"
    and "NetEthHdrSize st + 28 + length body < PKTSIZE_ALIGN" "length body + extra < 65536"
    and "our_vlan st2 AND VLAN_IDMASK = our_vlan st AND VLAN_IDMASK"
    and "NetOurIP st2 = 0 \<or> NetOurIP st2 = dest \<or> dest = 0xffffffff"
  shows "NetReceive (datagram addr dest dport sport body st @ rest)
      (int (length (datagram addr dest dport sport body st) + extra)) st2 =
    Some (st2, Some (Some (NetEthHdrSize st + IP_HDR_SIZE), ucast dport, ucast sport, of_nat (length body)))"
    "slice (datagram addr dest dport sport body st @ rest) (NetEthHdrSize st + IP_HDR_SIZE) (length body) = Some body"
proof -
  define e where "e = ether_header addr PROT_IP st"
  define n where "n = NetEthHdrSize st"
  have e: "length e = n"
    unfolding e_def n_def by (rule ether_header_length [OF lens])
  define frame where "frame = datagram addr dest dport sport body st"
  have frame: "frame @ r = e @ ip_header dest dport sport (length body) st @ body @ r" for r
    by (simp add: frame_def datagram_def e_def)
  have length: "length frame = n + 28 + length body"
    using frame [of "[]"] by (simp add: e ip_header_length)
  obtain v where v: "frame_protocol (frame @ rest) (int (length frame + extra)) st2 =
      Some (Some (PROT_IP, n, int (28 + length body + extra), v))" "vlan_matches st2 v"
    using frame_protocol_header [OF lens, of PROT_IP st2 "int (length frame + extra)"
        "ip_header dest dport sport (length body) st @ body @ rest"] assms(5) length
    by (auto simp: net_protocols frame e_def n_def)
  have "receive_ip (frame @ rest) n (int (28 + length body + extra)) st2 =
      Some (st2, Some (Some (n + IP_HDR_SIZE), ucast dport, ucast sport, of_nat (length body)))"
    unfolding frame e [symmetric] by (rule receive_datagram) (use assms in \<open>simp_all add: PKTSIZE_ALIGN_def\<close>)
  moreover have "\<not> int (length frame + extra) < int ETHER_HDR_SIZE"
    using NetEthHdrSize_le [of st] by (simp add: length n_def ETHER_HDR_SIZE_def)
  ultimately show "NetReceive (datagram addr dest dport sport body st @ rest)
      (int (length (datagram addr dest dport sport body st) + extra)) st2 =
    Some (st2, Some (Some (NetEthHdrSize st + IP_HDR_SIZE), ucast dport, ucast sport, of_nat (length body)))"
    using v unfolding frame_def [symmetric] n_def [symmetric] by (simp add: NetReceive_def net_protocols)
  show "slice (datagram addr dest dport sport body st @ rest) (NetEthHdrSize st + IP_HDR_SIZE) (length body) = Some body"
    unfolding frame_def [symmetric] n_def [symmetric]
    by (simp add: slice_def frame e ip_header_length IP_HDR_SIZE_def)
qed

lemma payload_slice:
  assumes "net_ok st" "NetEthHdrSize st + 28 + len < PKTSIZE_ALIGN"
  shows "length (udp_payload st len) = len"
    "slice (NetTxPacket st) (NetEthHdrSize st + IP_HDR_SIZE) len = Some (udp_payload st len)"
  using assms by (simp_all add: udp_payload_def slice_def net_ok_def IP_HDR_SIZE_def)

text \<open>A machine at rest, for the examples.\<close>

definition host :: "u8 list \<Rightarrow> u32 \<Rightarrow> net" where
  "host mac ip = \<lparr>NetOurEther = mac, NetServerEther = NetEtherNullAddr, ping_mac = NetEtherNullAddr, NetOurIP = ip,
     NetServerIP = 2, NetOurSubnetMask = 0, NetOurGatewayIP = 0, NetPingIP = 0, NetOurVLAN = 0xffff,
     NetOurNativeVLAN = 0xffff, NetIPID = 0, PingSeqNo = 0, NetTxPacket = replicate 1536 0, NetArpWaitPacketIP = 0,
     NetArpWaitReplyIP = 0, NetArpWaitPacketMAC = None, NetArpWaitTxPacket = replicate 1536 0,
     NetArpWaitTxPacketSize = 0, NetArpWaitTimerStart = 0, NetArpWaitTry = 0, frames = []\<rparr>"

lemma host_ok: "length mac = 6 \<Longrightarrow> net_ok (host mac ip)"
  by (simp add: net_ok_def host_def NetEtherNullAddr_def PKTSIZE_ALIGN_def)

lemma host_vlan: "our_vlan (host mac ip) = VLAN_NONE"
proof -
  have "ntohs 0xffff = 0xffff"
    by (simp add: ntohs_def push_bit_eq_mult drop_bit_eq_div)
  then show ?thesis
    by (simp add: our_vlan_def host_def)
qed

text \<open>C18:
  What \<^verbatim>\<open>NetSendUDPPacket\<close> transmits, possibly followed by other bytes of the receive buffer, is what
  \<^verbatim>\<open>NetReceive\<close> of a machine with the destination's address and the same VLAN hands to its handler:
  the same bytes, the same ports and the same length, with nothing else changed.
\<close>

theorem datagram_received:
  assumes "net_ok st" "ether_at (real_ether dest ether) st \<noteq> NetEtherNullAddr"
    and "NetEthHdrSize st + 28 + len < PKTSIZE_ALIGN" "len + extra < 65536"
    and "our_vlan st2 AND VLAN_IDMASK = our_vlan st AND VLAN_IDMASK"
    and "NetOurIP st2 = 0 \<or> NetOurIP st2 = real_dest dest \<or> real_dest dest = 0xffffffff"
  shows "\<exists>st' frame. NetSendUDPPacket now ether dest dport sport len st = Some (st', False) \<and>
    frames st' = frames st @ [frame] \<and>
    (let p = NetEthHdrSize st + IP_HDR_SIZE
     in NetReceive (frame @ rest) (int (length frame + extra)) st2 =
          Some (st2, Some (Some p, ucast dport, ucast sport, of_nat len)) \<and>
        slice (frame @ rest) p len = slice (NetTxPacket st) p len)"
proof -
  note body = payload_slice [OF assms(1,3)]
  note accept = datagram_accepted [OF ether_at_length [OF assms(1)] net_ok_ether [OF assms(1)], of "udp_payload st len" extra st2]
  show ?thesis
    using send_direct [OF assms(1,2,3), of now dport sport] assms(3-) accept
    unfolding body Let_def by fastforce
qed

theorem datagram_received_witness:
  "\<exists>st' frame. NetSendUDPPacket 0 ServerEther 0 69 2000 5 (host [0, 1, 2, 3, 4, 5] 1) = Some (st', False) \<and>
    frames st' = frames (host [0, 1, 2, 3, 4, 5] 1) @ [frame] \<and>
    (let p = NetEthHdrSize (host [0, 1, 2, 3, 4, 5] 1) + IP_HDR_SIZE
     in NetReceive (frame @ [0]) (int (length frame + 0)) (host [9, 9, 9, 9, 9, 9] 7) =
          Some (host [9, 9, 9, 9, 9, 9] 7, Some (Some p, ucast (69 :: u16), ucast (2000 :: u16), of_nat 5)) \<and>
        slice (frame @ [0]) p 5 = slice (NetTxPacket (host [0, 1, 2, 3, 4, 5] 1)) p 5)"
proof (rule datagram_received)
  show "ether_at (real_ether 0 ServerEther) (host [0, 1, 2, 3, 4, 5] 1) \<noteq> NetEtherNullAddr"
    by (simp add: real_ether_def real_dest_def ether_at_def NetBcastAddr_def NetEtherNullAddr_def)
  show "NetEthHdrSize (host [0, 1, 2, 3, 4, 5] 1) + 28 + 5 < PKTSIZE_ALIGN"
    using NetEthHdrSize_le(1) [of "host [0, 1, 2, 3, 4, 5] 1"] by (simp add: PKTSIZE_ALIGN_def)
qed (simp_all add: host_ok host_vlan real_dest_def)

section \<open>Which frames stay inside the buffers\<close>

text \<open>A computation that returns a value with a property.\<close>

definition returns :: "'a option \<Rightarrow> ('a \<Rightarrow> bool) \<Rightarrow> bool" where
  "returns m Q \<longleftrightarrow> (\<exists>x. m = Some x \<and> Q x)"

lemma returns_bind: "returns m P \<Longrightarrow> (\<And>x. P x \<Longrightarrow> returns (f x) Q) \<Longrightarrow> returns (m \<bind> f) Q"
  by (auto simp: returns_def)

lemma returns_Some [simp]: "returns (Some x) Q \<longleftrightarrow> Q x"
  by (simp add: returns_def)

lemma returns_map [simp]: "returns (map_option f m) Q \<longleftrightarrow> returns m (\<lambda>x. Q (f x))"
  by (auto simp: returns_def)

lemma returns_weaken: "returns m P \<Longrightarrow> (\<And>x. P x \<Longrightarrow> Q x) \<Longrightarrow> returns m Q"
  by (auto simp: returns_def)

lemma returns_rd: "i < length b \<Longrightarrow> returns (rd b i) (\<lambda>x. rd b i = Some x)"
  by (simp add: returns_def)

lemma returns_rd_net16: "i + 1 < length b \<Longrightarrow> returns (rd_net16 b i) (\<lambda>x. rd_net16 b i = Some x)"
  by (simp add: returns_def rd_net16_def)

lemma returns_rd_net16_True: "i + 1 < length b \<Longrightarrow> returns (rd_net16 b i) (\<lambda>_. True)"
  by (simp add: returns_def rd_net16_def)

lemma returns_NetReadIP: "i + 3 < length b \<Longrightarrow> returns (NetReadIP b i) (\<lambda>_. True)"
  by (simp add: returns_def NetReadIP_def)

lemma returns_put_at: "i + length xs \<le> length b \<Longrightarrow> returns (put_at b i xs) (\<lambda>b'. length b' = length b)"
  by (simp add: returns_def put_at_def)

lemma returns_slice: "i + n \<le> length b \<Longrightarrow> returns (slice b i n) (\<lambda>s. length s = n)"
  by (simp add: returns_def slice_def)

lemma returns_NetCksum: "i + 2 * n \<le> length b \<Longrightarrow> n \<le> 65535 \<Longrightarrow> returns (NetCksum b i n) (\<lambda>_. True)"
  by (simp add: returns_def NetCksum_eq)

lemma returns_NetCksumOk: "i + 2 * n \<le> length b \<Longrightarrow> n \<le> 65535 \<Longrightarrow> returns (NetCksumOk b i n) (\<lambda>_. True)"
  by (simp add: returns_def NetCksumOk_lemma)

lemma returns_NetSetEther:
  "length addr = 6 \<Longrightarrow> length (NetOurEther st) = 6 \<Longrightarrow> 18 \<le> length b
    \<Longrightarrow> returns (NetSetEther b addr prot st) (\<lambda>(b', n). length b' = length b \<and> n = NetEthHdrSize st)"
  using NetEthHdrSize_le [of st] by (simp add: returns_def NetSetEther_eq ether_header_length)

lemma returns_eth_send: "n \<le> length b \<Longrightarrow> net_ok st \<Longrightarrow> returns (eth_send b n st) net_ok"
  by (simp add: returns_def eth_send_def slice_def net_ok_def)

lemmas returns_steps = returns_rd returns_rd_net16 returns_NetReadIP returns_put_at returns_slice returns_NetCksum
  returns_NetCksumOk returns_NetSetEther returns_eth_send

lemma returns_arp_request:
  assumes "net_ok st" "length rx = PKTSIZE_ALIGN" "arp \<le> 22"
  shows "returns (receive_arp_request rx arp st) net_ok"
  unfolding receive_arp_request_def
  apply (rule returns_bind, rule returns_slice)
  using assms apply (simp add: net_constants)
  apply (rule returns_bind, rule returns_NetSetEther)
  using assms apply (simp_all add: net_constants net_ok_ether split: prod.split)
  apply (intro allI impI)
  apply (rule returns_bind, rule returns_put_at, simp)
  apply (rule returns_bind, rule returns_slice, simp)
  apply (rule returns_bind, rule returns_put_at, simp)
  apply (rule returns_bind, rule returns_slice, simp)
  apply (rule returns_bind, rule returns_put_at, simp)
  apply (rule returns_bind, rule returns_put_at, simp add: net_ok_ether)
  apply (rule returns_eth_send)
  using NetEthHdrSize_le [of st] apply simp_all
  done

lemma set_ether_ok: "net_ok st \<Longrightarrow> length mac = 6 \<Longrightarrow> net_ok (set_ether p mac st)"
  by (cases p) (simp_all add: net_ok_def set_ether_def)

lemma returns_arp_reply:
  assumes "net_ok st" "length rx = PKTSIZE_ALIGN" "arp \<le> 22"
  shows "returns (receive_arp_reply rx arp st) net_ok"
proof -
  have send: "returns (eth_send b (NetArpWaitTxPacketSize (set_ether p mac st)) (set_ether p mac st\<lparr>NetArpWaitTxPacket := b\<rparr>))
      net_ok" if "length mac = 6" "length b = PKTSIZE_ALIGN" for b p mac
    using set_ether_ok [OF assms(1) that(1), of p] that(2)
    by (intro returns_eth_send) (simp_all add: net_ok_def)
  have clear: "net_ok s \<Longrightarrow> net_ok (s\<lparr>NetArpWaitPacketIP := 0, NetArpWaitTxPacketSize := 0, NetArpWaitPacketMAC := None\<rparr>)" for s
    by (simp add: net_ok_def)
  have tx: "length (NetArpWaitTxPacket (set_ether p mac st)) = PKTSIZE_ALIGN" for p mac
    using assms(1) by (cases p) (simp_all add: net_ok_def set_ether_def)
  show ?thesis
    unfolding receive_arp_reply_def Let_def
    using assms by (auto intro!: returns_bind [OF returns_NetReadIP] returns_bind [OF returns_slice]
        returns_bind [OF returns_put_at] returns_bind [OF send] clear
        simp: net_constants ether_at_length set_ether_ok tx split: option.split)
qed

lemma returns_arp:
  assumes "net_ok st" "length rx = PKTSIZE_ALIGN" "arp \<le> 22"
  shows "returns (receive_arp rx arp len st) net_ok"
  unfolding receive_arp_def
  using assms returns_arp_request [OF assms] returns_arp_reply [OF assms]
  by (auto intro!: returns_bind [OF returns_rd_net16] returns_bind [OF returns_rd] returns_bind [OF returns_NetReadIP]
      simp: net_constants)

lemma returns_rarp:
  assumes "net_ok st" "length rx = PKTSIZE_ALIGN" "arp \<le> 22"
  shows "returns (receive_rarp rx arp len st) (\<lambda>(st', c). net_ok st')"
  unfolding receive_rarp_def
  using assms
  by (auto intro!: returns_bind [OF returns_rd_net16] returns_bind [OF returns_rd] returns_bind [OF returns_NetReadIP]
      returns_bind [OF returns_slice] simp: net_constants net_ok_def)

lemma icmp_halfwords_eq: "20 \<le> len \<Longrightarrow> icmp_halfwords len = (unat len - 20) div 2"
  by (simp add: icmp_halfwords_def IP_HDR_SIZE_NO_UDP_def unat_drop unat_sub word_le_nat_alt)

lemma returns_ping_reply:
  assumes "net_ok st" "length rx = PKTSIZE_ALIGN" "14 \<le> ip" "ip \<le> 22" "20 \<le> len" "ip + unat len \<le> PKTSIZE_ALIGN"
  shows "returns (ping_reply rx ip len st) net_ok"
proof -
  have half: "icmp_halfwords len \<le> 65535" "ip + 20 + 2 * icmp_halfwords len \<le> PKTSIZE_ALIGN"
    using assms(5,6) unat_u16_less [of len] by (auto simp: icmp_halfwords_eq word_le_nat_alt PKTSIZE_ALIGN_def)
  show ?thesis
    unfolding ping_reply_def
    using assms half net_ok_ether [OF assms(1)]
    by (auto intro!: returns_bind [OF returns_slice] returns_bind [OF returns_put_at] returns_bind [OF returns_NetCksum]
        returns_eth_send simp: net_constants)
qed

lemma returns_ip:
  assumes "net_ok st" "length rx = PKTSIZE_ALIGN" "14 \<le> ip" "ip \<le> 22" "int ip + len \<le> int PKTSIZE_ALIGN"
    and "\<And>t. rd_net16 rx (ip + 2) = Some t \<Longrightarrow> 20 \<le> t"
  shows "returns (receive_ip rx ip len st) (\<lambda>(st', c). net_ok st')"
proof -
  have ping: "returns (ping_reply rx ip t st) net_ok" if "rd_net16 rx (ip + 2) = Some t" "\<not> len < int (unat t)" for t
    using returns_ping_reply [of st rx ip t] assms that by auto
  show ?thesis
    unfolding receive_ip_def receive_icmp_def
    using assms
    by (auto intro!: returns_bind [OF returns_rd_net16] returns_bind [OF returns_rd] returns_bind [OF returns_NetReadIP]
        returns_bind [OF returns_NetCksumOk] ping [simplified] simp: net_constants)
qed




lemma bind_None: "(\<And>x. m = Some x \<Longrightarrow> P x) \<Longrightarrow> (\<And>x. P x \<Longrightarrow> f x = None) \<Longrightarrow> m \<bind> f = None"
  by (cases m) auto

lemma put_then_None:
  "(\<And>b'. length b' = length b \<Longrightarrow> f b' = None) \<Longrightarrow> put_at b i xs \<bind> f = None"
  using put_at_length [of b i xs] by (rule bind_None)

text \<open>An echo request whose header says that the datagram is shorter than its own header passes every
  check, and the answer's checksum then runs over two gigabytes: it leaves the receive buffer.
\<close>

theorem short_echo_overruns:
  assumes "length rx = PKTSIZE_ALIGN" "28 \<le> len" "len \<le> int PKTSIZE_ALIGN"
    and header: "rd rx ip = Some 0x45" "rd_net16 rx (ip + 2) = Some tot" "tot < 20"
      "NetCksumOk rx ip 10 = Some True" "NetReadIP rx (ip + 16) = Some (NetOurIP st)"
      "rd_net16 rx (ip + 6) = Some 0" "rd rx (ip + 9) = Some 1" "rd rx (ip + 20) = Some 8"
  shows "receive_ip rx ip len st = None"
proof -
  define t where "t = unat tot"
  have t: "t < 20"
    using header(3) by (simp add: t_def word_less_nat_alt)
  have "\<not> (20 :: u32) \<le> ucast tot"
    using t by (simp add: word_le_nat_alt t_def)
  then have "unat (ucast tot - 20 :: u32) = 2 ^ 32 + t - 20"
    by (simp add: unat_sub_if_size word_size t_def word_le_nat_alt)
  then have big: "PKTSIZE_ALIGN < 2 * icmp_halfwords tot"
    by (simp add: icmp_halfwords_def unat_drop IP_HDR_SIZE_NO_UDP_def PKTSIZE_ALIGN_def)
  have reply: "ping_reply rx ip tot st = None"
    unfolding ping_reply_def
    apply (rule bind_None [where P = "\<lambda>_. True"], simp)
    apply (rule put_then_None)+
    apply (rule bind_None [where P = "\<lambda>_. True"], simp)
    apply (rule put_then_None)+
    apply (rule bind_None [where P = "\<lambda>_. True"], simp)
    apply (rule put_then_None)+
    apply (rule bind_None [where P = "\<lambda>_. False"])
    using big assms(1) by (simp_all add: NetCksum_def cksum_loop_None)
  have "len = int (nat len)" "nat len < 4294967296" "28 \<le> nat len"
    using assms(2,3) by (auto simp: PKTSIZE_ALIGN_def)
  then have "unat (of_int len :: u32) = nat len"
    by (metis of_int_of_nat_eq unat_of_nat_u32)
  then have "\<not> (of_int len :: u32) < 28"
    using \<open>28 \<le> nat len\<close> by (simp add: word_less_nat_alt)
  moreover have "\<not> len < int t"
    using assms(2) t by simp
  ultimately show ?thesis
    using header reply by (simp add: receive_ip_def receive_icmp_def IP_HDR_SIZE_def IP_HDR_SIZE_NO_UDP_def t_def
        del: add_2_eq_Suc')
qed

theorem short_echo_overruns_witness:
  "receive_ip ([0, 0, 0, 0, 0, 0, 0, 0, 0, 0, 0, 0, 0, 0, 69, 0, 0, 0, 0, 0, 0, 0, 64, 1, 111, 253, 10, 0, 0, 1, 1, 0, 0, 0, 8] @ replicate 1501 0) 14 46
     (host [0, 1, 2, 3, 4, 5] 1) = None"
proof (rule short_echo_overruns [where tot = 0])
  show "NetCksumOk ([0, 0, 0, 0, 0, 0, 0, 0, 0, 0, 0, 0, 0, 0, 69, 0, 0, 0, 0, 0, 0, 0, 64, 1, 111, 253, 10, 0, 0, 1, 1, 0, 0, 0, 8] @ replicate 1501 0) 14 10 = Some True"
    by (subst NetCksumOk_lemma) simp_all
qed (simp_all add: PKTSIZE_ALIGN_def host_def rd_net16_def NetReadIP_def rd_def nth_append)



section \<open>Address resolution between two machines\<close>

definition arp_frame :: "u8 list \<Rightarrow> u16 \<Rightarrow> u8 list \<Rightarrow> u32 \<Rightarrow> u8 list \<Rightarrow> u32 \<Rightarrow> net \<Rightarrow> u8 list" where
  "arp_frame addr opcode sha spa tha tpa st = ether_header addr PROT_ARP st @
     net16 1 @ net16 PROT_IP @ [6, 4] @ net16 opcode @ sha @ word_bytes spa @ tha @ word_bytes tpa"

definition reply_ip :: "net \<Rightarrow> u32" where
  "reply_ip st =
     (if NetArpWaitPacketIP st AND NetOurSubnetMask st \<noteq> NetOurIP st AND NetOurSubnetMask st
      then if NetOurGatewayIP st = 0 then NetArpWaitPacketIP st else NetOurGatewayIP st
      else NetArpWaitPacketIP st)"

lemma arp_frame_length:
  "length addr = 6 \<Longrightarrow> length (NetOurEther st) = 6 \<Longrightarrow> length sha = 6 \<Longrightarrow> length tha = 6
    \<Longrightarrow> length (arp_frame addr opcode sha spa tha tpa st) = NetEthHdrSize st + 28"
  by (simp add: arp_frame_def ether_header_length)

lemma ArpRequest_eq:
  assumes "net_ok st"
  shows "\<exists>b. ArpRequest st = Some (st\<lparr>NetTxPacket := b, NetArpWaitReplyIP := reply_ip st, frames := frames st @
      [arp_frame NetBcastAddr 1 (NetOurEther st) (NetOurIP st) NetEtherNullAddr (reply_ip st) st]\<rparr>) \<and>
    length b = PKTSIZE_ALIGN"
proof -
  define e n where "e = ether_header NetBcastAddr PROT_ARP st" and "n = NetEthHdrSize st"
  define arp where "arp = net16 1 @ net16 PROT_IP @ [6, 4] @ net16 1 @ NetOurEther st @ word_bytes (NetOurIP st)
    @ replicate 6 0 @ word_bytes (reply_ip st)"
  have lens: "length (NetOurEther st) = 6" "length (NetTxPacket st) = 1536" "n \<le> 18"
    using assms NetEthHdrSize_le [of st] by (simp_all add: net_ok_def PKTSIZE_ALIGN_def n_def)
  have e: "length e = n"
    unfolding e_def n_def by (rule ether_header_length) (simp_all add: lens NetBcastAddr_def)
  have arp: "length arp = 28"
    by (simp add: arp_def lens)
  define b where "b = e @ arp @ drop (n + 28) (NetTxPacket st)"
  have head: "NetSetEther (NetTxPacket st) NetBcastAddr PROT_ARP st = Some (e @ drop n (NetTxPacket st), n)"
    unfolding e_def n_def by (rule NetSetEther_eq) (simp_all add: lens NetBcastAddr_def)
  have body: "put_at (e @ drop n (NetTxPacket st)) n arp = Some b"
    using lens by (simp add: put_at_def b_def e arp add.commute)
  have frame: "slice b 0 (n + 28) = Some (arp_frame NetBcastAddr 1 (NetOurEther st) (NetOurIP st) NetEtherNullAddr (reply_ip st) st)"
    using lens by (simp add: slice_def b_def e arp arp_frame_def e_def [symmetric] NetEtherNullAddr_def)
      (simp add: arp_def)
  have "length b = PKTSIZE_ALIGN"
    using lens by (simp add: b_def e arp PKTSIZE_ALIGN_def)
  then show ?thesis
    unfolding ArpRequest_def Let_def reply_ip_def [symmetric] unfolding arp_def [symmetric]
    by (intro exI [of _ b]) (simp add: head body frame eth_send_def ARP_HDR_SIZE_def)
qed

lemma slice_at: "length pre = i \<Longrightarrow> length mid = n \<Longrightarrow> slice (pre @ mid @ post) i n = Some mid"
  by (simp add: slice_def)

lemma NetReadIP_at:
  assumes "length pre = i"
  shows "NetReadIP (pre @ word_bytes w @ post) i = Some w"
proof -
  have "NetReadIP (word_bytes w @ post) 0 = Some w"
    by (simp add: NetReadIP_def word_bytes_def rd_def join32)
  then show ?thesis
    using NetReadIP_suffix [of pre "word_bytes w @ post" 0] assms by simp
qed

lemma arp_fields:
  fixes e opcode sha spa tha tpa rest
  assumes "length sha = 6" "length tha = 6"
  defines "rx \<equiv> e @ net16 1 @ net16 PROT_IP @ [6, 4] @ net16 opcode @ sha @ word_bytes spa @ tha @ word_bytes tpa @ rest"
  shows "rd_net16 rx (length e) = Some 1" "rd_net16 rx (length e + 2) = Some PROT_IP" "rd rx (length e + 4) = Some 6"
    "rd rx (length e + 5) = Some 4" "rd_net16 rx (length e + 6) = Some opcode" "NetReadIP rx (length e + 14) = Some spa"
    "NetReadIP rx (length e + 24) = Some tpa" "slice rx (length e + 8) 6 = Some sha"
proof -
  have head: "rx = (e @ net16 1 @ net16 PROT_IP @ [6, 4] @ net16 opcode) @ sha @ word_bytes spa @ tha @ word_bytes tpa @ rest"
    by (simp add: rx_def)
  show "rd_net16 rx (length e) = Some 1" "rd_net16 rx (length e + 2) = Some PROT_IP"
    "rd_net16 rx (length e + 6) = Some opcode"
    using net16_suffix [of e 1 "net16 PROT_IP @ [6, 4] @ net16 opcode @ sha @ word_bytes spa @ tha @ word_bytes tpa @ rest"]
      net16_suffix_at [of "e @ net16 1" "length e + 2" PROT_IP "[6, 4] @ net16 opcode @ sha @ word_bytes spa @ tha @ word_bytes tpa @ rest"]
      net16_suffix_at [of "e @ net16 1 @ net16 PROT_IP @ [6, 4]" "length e + 6" opcode "sha @ word_bytes spa @ tha @ word_bytes tpa @ rest"]
    by (simp_all add: rx_def)
  show "rd rx (length e + 4) = Some 6" "rd rx (length e + 5) = Some 4"
    unfolding rx_def frame_simps by (simp_all add: rd_def net16_def)
  show "slice rx (length e + 8) 6 = Some sha"
    unfolding head by (rule slice_at) (simp_all add: assms)
  show "NetReadIP rx (length e + 14) = Some spa"
    using NetReadIP_at [of "e @ net16 1 @ net16 PROT_IP @ [6, 4] @ net16 opcode @ sha" "length e + 14" spa
        "tha @ word_bytes tpa @ rest"] assms by (simp add: rx_def)
  show "NetReadIP rx (length e + 24) = Some tpa"
    using NetReadIP_at [of "e @ net16 1 @ net16 PROT_IP @ [6, 4] @ net16 opcode @ sha @ word_bytes spa @ tha" "length e + 24" tpa
        rest] assms by (simp add: rx_def)
qed

lemma arp_request_answered:
  assumes "net_ok b" "length (NetOurEther a) = 6" "length tha = 6" "length addr = 6"
    and vlan: "our_vlan b AND VLAN_IDMASK = our_vlan a AND VLAN_IDMASK"
    and "NetOurIP b \<noteq> 0"
  shows "NetReceive (arp_frame addr 1 (NetOurEther a) spa tha (NetOurIP b) a @ rest) (int (NetEthHdrSize a + 28 + extra)) b =
    Some (b\<lparr>frames := frames b @ [arp_frame (NetOurEther a) 2 (NetOurEther b) (NetOurIP b) (NetOurEther a) spa b]\<rparr>, None)"
proof -
  define sha where "sha = NetOurEther a"
  have lens: "length sha = 6" "length tha = 6" "length (NetOurEther b) = 6"
    using assms by (simp_all add: sha_def net_ok_def)
  define e where "e = ether_header addr PROT_ARP a"
  define n where "n = NetEthHdrSize a"
  have n: "NetEthHdrSize b = n" "14 \<le> n" "n \<le> 18"
    using vlan NetEthHdrSize_le [of a] by (simp_all add: NetEthHdrSize_def n_def)
  have e: "length e = n"
    unfolding e_def n_def by (rule ether_header_length) (use assms in simp_all)
  define rx where "rx = e @ net16 1 @ net16 PROT_IP @ [6, 4] @ net16 1 @ sha @ word_bytes spa @ tha
    @ word_bytes (NetOurIP b) @ rest"
  have frame: "arp_frame addr 1 sha spa tha (NetOurIP b) a @ rest = rx"
    by (simp add: arp_frame_def e_def rx_def)
  note fields = arp_fields [OF lens(1,2), of e 1 spa "NetOurIP b" rest, folded rx_def]
  obtain v where v: "frame_protocol rx (int (n + 28 + extra)) b = Some (Some (PROT_ARP, n, int (28 + extra), v))"
      "vlan_matches b v"
    using frame_protocol_header [of addr a PROT_ARP b "int (n + 28 + extra)"
        "net16 1 @ net16 PROT_IP @ [6, 4] @ net16 1 @ sha @ word_bytes spa @ tha @ word_bytes (NetOurIP b) @ rest"]
      assms by (auto simp: net_protocols rx_def e_def n_def)
  have src: "slice rx 6 6 = Some sha"
    using assms lens by (simp add: rx_def e_def ether_header_def slice_def sha_def)
  define e' where "e' = ether_header sha PROT_ARP b"
  have e': "length e' = n"
    unfolding e'_def n(1) [symmetric] by (rule ether_header_length) (use lens in simp_all)
  have head: "NetSetEther rx sha PROT_ARP b = Some (e' @ drop n rx, n)"
    unfolding e'_def n(1) [symmetric]
    by (rule NetSetEther_eq) (use lens e n in \<open>simp_all add: rx_def\<close>)
  have "drop n rx = net16 1 @ net16 PROT_IP @ [6, 4] @ net16 1 @ sha @ word_bytes spa @ tha @ word_bytes (NetOurIP b) @ rest"
    by (simp add: rx_def e)
  then have start: "NetSetEther rx sha PROT_ARP b = Some (e' @ net16 1 @ net16 PROT_IP @ [6, 4] @ net16 1 @ sha @
      word_bytes spa @ tha @ word_bytes (NetOurIP b) @ rest, n)"
    by (simp add: head)
  define h where "h = e' @ net16 1 @ net16 PROT_IP @ [6, 4] @ net16 2"
  have opcode: "put_at (e' @ net16 1 @ net16 PROT_IP @ 6 # 4 # net16 1 @ r) (n + 6) (net16 2) = Some (h @ r)" for r
    using put_at_middle [of "net16 1" "net16 2" "n + 6" "e' @ net16 1 @ net16 PROT_IP @ [6, 4]" r]
    by (simp add: h_def e')
  have h: "length h = n + 8"
    by (simp add: h_def e')
  have steps: "slice (h @ sha @ r) (n + 8) 6 = Some sha"
      "put_at (h @ sha @ word_bytes spa @ tha @ r) (n + 18) sha = Some (h @ sha @ word_bytes spa @ sha @ r)"
      "slice (h @ sha @ word_bytes spa @ r) (n + 14) 4 = Some (word_bytes spa)"
      "put_at (h @ sha @ word_bytes spa @ sha @ word_bytes q @ r) (n + 24) (word_bytes spa) =
        Some (h @ sha @ word_bytes spa @ sha @ word_bytes spa @ r)"
      "put_at (h @ sha @ word_bytes spa @ r) (n + 8) (NetOurEther b @ word_bytes (NetOurIP b)) =
        Some (h @ NetOurEther b @ word_bytes (NetOurIP b) @ r)" for r q
    using slice_at [of h "n + 8" sha 6 r] slice_at [of "h @ sha" "n + 14" "word_bytes spa" 4 r]
      put_at_middle [of tha sha "n + 18" "h @ sha @ word_bytes spa" r]
      put_at_middle [of "word_bytes q" "word_bytes spa" "n + 24" "h @ sha @ word_bytes spa @ sha" r]
      put_at_middle [of "sha @ word_bytes spa" "NetOurEther b @ word_bytes (NetOurIP b)" "n + 8" h r]
    by (simp_all add: h lens)
  have "slice (h @ NetOurEther b @ word_bytes (NetOurIP b) @ sha @ word_bytes spa @ rest) 0 (n + 28) =
      Some (arp_frame sha 2 (NetOurEther b) (NetOurIP b) sha spa b)"
    using slice_at [of "[]" 0 "h @ NetOurEther b @ word_bytes (NetOurIP b) @ sha @ word_bytes spa" "n + 28" rest]
    by (simp add: h lens arp_frame_def e'_def) (simp add: h_def e'_def)
  then have "receive_arp_request rx n b =
      Some (b\<lparr>frames := frames b @ [arp_frame sha 2 (NetOurEther b) (NetOurIP b) sha spa b]\<rparr>)"
    by (simp add: receive_arp_request_def src start opcode steps eth_send_def ARP_HDR_SIZE_def)
  then have "receive_arp rx n (int (28 + extra)) b =
      Some (b\<lparr>frames := frames b @ [arp_frame sha 2 (NetOurEther b) (NetOurIP b) sha spa b]\<rparr>)"
    using fields assms by (simp add: receive_arp_def e ARP_HDR_SIZE_def del: add_2_eq_Suc')
  moreover have "\<not> int (n + 28 + extra) < int ETHER_HDR_SIZE"
    by (simp add: ETHER_HDR_SIZE_def)
  ultimately show ?thesis
    using v unfolding sha_def [symmetric] frame n_def [symmetric] by (simp add: NetReceive_def)
qed

lemma arp_reply_taken:
  assumes "net_ok a" "length (NetOurEther b) = 6" "length tha = 6" "length addr = 6"
    and vlan: "our_vlan a AND VLAN_IDMASK = our_vlan b AND VLAN_IDMASK"
    and "NetOurIP a \<noteq> 0" "NetArpWaitPacketIP a \<noteq> 0" "NetArpWaitPacketMAC a = Some p" "p \<noteq> BcastAddr"
    and "NetArpWaitReplyIP a = spa"
  shows "NetReceive (arp_frame addr 2 (NetOurEther b) spa tha (NetOurIP a) b @ rest) (int (NetEthHdrSize b + 28 + extra)) a =
    Some ((set_ether p (NetOurEther b) a)\<lparr>NetArpWaitTxPacket := (NetOurEther b) @ drop 6 (NetArpWaitTxPacket a), NetArpWaitPacketIP := 0,
      NetArpWaitTxPacketSize := 0, NetArpWaitPacketMAC := None,
      frames := frames a @ [take (NetArpWaitTxPacketSize a) ((NetOurEther b) @ drop 6 (NetArpWaitTxPacket a))]\<rparr>, None)"
proof -
  define e where "e = ether_header addr PROT_ARP b"
  define n where "n = NetEthHdrSize b"
  define sha where "sha = NetOurEther b"
  have sha: "length sha = 6"
    using assms by (simp add: sha_def)
  have e: "length e = n"
    unfolding e_def n_def by (rule ether_header_length) (use assms in simp_all)
  define rx where "rx = e @ net16 1 @ net16 PROT_IP @ [6, 4] @ net16 2 @ sha @ word_bytes spa @ tha
    @ word_bytes (NetOurIP a) @ rest"
  have frame: "arp_frame addr 2 sha spa tha (NetOurIP a) b @ rest = rx"
    by (simp add: arp_frame_def e_def rx_def)
  note fields = arp_fields [OF sha assms(3), of e 2 spa "NetOurIP a" rest, folded rx_def]
  obtain v where v: "frame_protocol rx (int (n + 28 + extra)) a = Some (Some (PROT_ARP, n, int (28 + extra), v))"
      "vlan_matches a v"
    using frame_protocol_header [of addr b PROT_ARP a "int (n + 28 + extra)"
        "net16 1 @ net16 PROT_IP @ [6, 4] @ net16 2 @ sha @ word_bytes spa @ tha @ word_bytes (NetOurIP a) @ rest"]
      assms by (auto simp: net_protocols rx_def e_def n_def)
  have mac: "ether_at p (set_ether p sha a) = sha" "NetArpWaitTxPacket (set_ether p sha a) = NetArpWaitTxPacket a"
      "NetArpWaitTxPacketSize (set_ether p sha a) = NetArpWaitTxPacketSize a" "frames (set_ether p sha a) = frames a"
    using assms(9) by (cases p; simp add: ether_at_def set_ether_def)+
  have tx: "length (NetArpWaitTxPacket a) = 1536" "NetArpWaitTxPacketSize a \<le> 1536"
    using assms(1) by (simp_all add: net_ok_def PKTSIZE_ALIGN_def)
  have "receive_arp_reply rx n a = Some ((set_ether p sha a)\<lparr>NetArpWaitTxPacket := sha @ drop 6 (NetArpWaitTxPacket a),
      frames := frames a @ [take (NetArpWaitTxPacketSize a) (sha @ drop 6 (NetArpWaitTxPacket a))],
      NetArpWaitPacketIP := 0, NetArpWaitTxPacketSize := 0, NetArpWaitPacketMAC := None\<rparr>)"
    using assms fields sha tx
    by (simp add: receive_arp_reply_def e mac eth_send_def Let_def) (simp add: slice_def put_at_def)
  then have "receive_arp rx n (int (28 + extra)) a = \<dots>"
    using fields assms by (simp add: receive_arp_def e ARP_HDR_SIZE_def del: add_2_eq_Suc')
  moreover have "\<not> int (n + 28 + extra) < int ETHER_HDR_SIZE"
    using NetEthHdrSize_le [of b] by (simp add: ETHER_HDR_SIZE_def n_def)
  ultimately show ?thesis
    using v unfolding sha_def [symmetric] frame n_def [symmetric] by (simp add: NetReceive_def)
qed

lemma send_waiting:
  assumes "net_ok st" "ether_at (real_ether dest ether) st = NetEtherNullAddr"
    and "NetEthHdrSize st + 28 + len < PKTSIZE_ALIGN"
  defines "wait \<equiv> st\<lparr>NetArpWaitPacketIP := real_dest dest\<rparr>"
  shows "\<exists>b w st'. NetSendUDPPacket now ether dest dport sport len st = Some (st', True) \<and>
    st' = st\<lparr>NetArpWaitPacketIP := real_dest dest, NetArpWaitReplyIP := reply_ip wait,
      NetArpWaitPacketMAC := Some (real_ether dest ether), NetIPID := NetIPID st + 1, NetArpWaitTxPacket := w,
      NetArpWaitTxPacketSize := NetEthHdrSize st + 28 + len, NetArpWaitTry := 1, NetArpWaitTimerStart := now,
      NetTxPacket := b, frames := frames st @
        [arp_frame NetBcastAddr 1 (NetOurEther st) (NetOurIP st) NetEtherNullAddr (reply_ip wait) st]\<rparr> \<and>
    net_ok st' \<and>
    (\<forall>mac. length mac = 6 \<longrightarrow> take (NetEthHdrSize st + 28 + len) (mac @ drop 6 w) =
      datagram mac (real_dest dest) dport sport (udp_payload st len) st)"
proof -
  define addr n where "addr = ether_at (real_ether dest ether) st" and "n = NetEthHdrSize st"
  define e where "e = ether_header addr PROT_IP st"
  define post where "post = drop n (NetArpWaitTxPacket st)"
  define body where "body = udp_payload st len"
  define p where "p = drop 28 (if odd len then post[28 + len := 0] else post)"
  have n: "n \<le> 18" "14 \<le> n"
    using NetEthHdrSize_le [of st] by (simp_all add: n_def)
  have addr: "length addr = 6" "length (NetOurEther st) = 6" "addr = NetEtherNullAddr"
    unfolding addr_def by (rule ether_at_length [OF assms(1)], rule net_ok_ether [OF assms(1)], rule assms(2))
  have e: "length e = n"
    unfolding e_def n_def by (rule ether_header_length [OF addr(1,2)])
  have post: "28 + len + 1 \<le> length post" "length post + n = 1536"
    using assms(1,3) n by (simp_all add: post_def n_def net_ok_def PKTSIZE_ALIGN_def)
  have p: "length p + n + 28 = 1536" "len \<le> length p"
  proof -
    have "length p = length post - 28"
      by (simp add: p_def)
    then show "length p + n + 28 = 1536" "len \<le> length p"
      using post by linarith+
  qed
  have body: "length body = len"
    using assms(1,3) by (simp add: body_def udp_payload_def net_ok_def IP_HDR_SIZE_def)
  have payload: "slice (NetTxPacket st) (n + IP_HDR_SIZE) len = Some body"
    using assms(1,3) by (simp add: slice_def body_def udp_payload_def net_ok_def IP_HDR_SIZE_def n_def)
  define s where "s = st\<lparr>NetArpWaitPacketIP := real_dest dest, NetArpWaitPacketMAC := Some (real_ether dest ether)\<rparr>"
  have same: "ether_header addr prot s = ether_header addr prot st"
      "ip_header (real_dest dest) dport sport len s = ip_header (real_dest dest) dport sport len st" for addr prot
    by (simp_all add: s_def ether_header_def our_vlan_def ip_header_def ip_fields_def)
  have ether: "NetSetEther (NetArpWaitTxPacket st) addr PROT_IP s = Some (e @ post, n)"
    using NetSetEther_eq [of addr s "NetArpWaitTxPacket st" PROT_IP] addr assms(1)
    by (simp add: same) (simp add: s_def e_def post_def n_def NetEthHdrSize_def our_vlan_def net_ok_def PKTSIZE_ALIGN_def)
  have ip: "NetSetIP (e @ post) n (real_dest dest) dport sport len s =
      Some (e @ ip_header (real_dest dest) dport sport len st @ p, s\<lparr>NetIPID := NetIPID st + 1\<rparr>)"
    using NetSetIP_eq [OF post(1), of n e "real_dest dest" dport sport s] e by (simp add: p_def same) (simp add: s_def)
  define w where "w = e @ ip_header (real_dest dest) dport sport len st @ body @ drop len p"
  have copy: "put_at (e @ ip_header (real_dest dest) dport sport len st @ p) (n + IP_HDR_SIZE) body = Some w"
    using put_at_middle [of "take len p" body "n + 28" "e @ ip_header (real_dest dest) dport sport len st" "drop len p"]
      p body e by (simp add: w_def ip_header_length IP_HDR_SIZE_def)
  define r where "r = s\<lparr>NetIPID := NetIPID st + 1, NetArpWaitTxPacket := w, NetArpWaitTxPacketSize := n + 28 + len,
    NetArpWaitTry := 1, NetArpWaitTimerStart := now\<rparr>"
  have w: "length w = PKTSIZE_ALIGN"
    using p e body by (simp add: w_def ip_header_length PKTSIZE_ALIGN_def)
  then have "net_ok r"
    using assms(1,3) by (simp add: r_def s_def net_ok_def n_def)
  then obtain b where b: "ArpRequest r = Some (r\<lparr>NetTxPacket := b, NetArpWaitReplyIP := reply_ip r, frames := frames r @
      [arp_frame NetBcastAddr 1 (NetOurEther r) (NetOurIP r) NetEtherNullAddr (reply_ip r) r]\<rparr>)" "length b = PKTSIZE_ALIGN"
    using ArpRequest_eq by blast
  have r: "reply_ip r = reply_ip wait" "arp_frame NetBcastAddr 1 (NetOurEther r) (NetOurIP r) NetEtherNullAddr (reply_ip r) r =
      arp_frame NetBcastAddr 1 (NetOurEther st) (NetOurIP st) NetEtherNullAddr (reply_ip wait) st"
    by (simp_all add: reply_ip_def r_def s_def wait_def arp_frame_def ether_header_def our_vlan_def)
  have send: "NetSendUDPPacket now ether dest dport sport len st =
      Some (r\<lparr>NetTxPacket := b, NetArpWaitReplyIP := reply_ip r, frames := frames r @
        [arp_frame NetBcastAddr 1 (NetOurEther r) (NetOurIP r) NetEtherNullAddr (reply_ip r) r]\<rparr>, True)"
  proof -
    have "ether_at (real_ether dest ether) s = addr" "NetArpWaitTxPacket s = NetArpWaitTxPacket st"
        "NetTxPacket s = NetTxPacket st"
      by (simp_all add: s_def ether_at_def addr_def cong: ether_ptr.case_cong)
    then show ?thesis
      unfolding NetSendUDPPacket_def real_dest_def [symmetric] real_ether_def [symmetric] Let_def
      using addr(3) ether ip payload copy b(1)
      by (simp add: addr_def [symmetric] s_def [symmetric] IP_HDR_SIZE_def r_def [symmetric])
  qed
  have frame: "take (n + 28 + len) (mac @ drop 6 w) = datagram mac (real_dest dest) dport sport body st"
    if "length mac = 6" for mac
    using that addr e body
    by (simp add: w_def datagram_def ip_header_length e_def ether_header_def n_def)
  have eq: "r\<lparr>NetTxPacket := b, NetArpWaitReplyIP := reply_ip r, frames := frames r @
      [arp_frame NetBcastAddr 1 (NetOurEther r) (NetOurIP r) NetEtherNullAddr (reply_ip r) r]\<rparr> =
    st\<lparr>NetArpWaitPacketIP := real_dest dest, NetArpWaitReplyIP := reply_ip wait,
      NetArpWaitPacketMAC := Some (real_ether dest ether), NetIPID := NetIPID st + 1, NetArpWaitTxPacket := w,
      NetArpWaitTxPacketSize := n + 28 + len, NetArpWaitTry := 1, NetArpWaitTimerStart := now,
      NetTxPacket := b, frames := frames st @
        [arp_frame NetBcastAddr 1 (NetOurEther st) (NetOurIP st) NetEtherNullAddr (reply_ip wait) st]\<rparr>" (is "_ = ?st'")
    unfolding r(1) by (simp add: r_def s_def arp_frame_def ether_header_def our_vlan_def)
  have "net_ok ?st'"
    using assms(1,3) w b(2) by (simp add: net_ok_def n_def)
  with send frame show ?thesis
    unfolding eq n_def body_def by blast
qed

text \<open>C6:
  The whole exchange when the server's address is unknown: the datagram is kept and a request goes
  out, the machine with the wanted address answers it, the answer releases the datagram, and the
  other machine's handler gets exactly the bytes, ports and length that were sent; afterwards the
  address is known and nothing waits.
\<close>

theorem address_resolution_delivers:
  assumes "net_ok a" "net_ok b" "NetServerEther a = NetEtherNullAddr" "NetEthHdrSize a + 28 + len < PKTSIZE_ALIGN"
    and vlan: "our_vlan b AND VLAN_IDMASK = our_vlan a AND VLAN_IDMASK"
    and ip: "NetOurIP a \<noteq> 0" "dest \<noteq> 0" "dest \<noteq> 0xffffffff" "NetOurIP b = dest"
      "dest AND NetOurSubnetMask a = NetOurIP a AND NetOurSubnetMask a"
  shows "\<exists>a1 b1 a2 request answer datagram.
    NetSendUDPPacket now ServerEther dest dport sport len a = Some (a1, True) \<and> frames a1 = frames a @ [request] \<and>
    NetReceive (request @ r1) (int (length request)) b = Some (b1, None) \<and> frames b1 = frames b @ [answer] \<and>
    NetReceive (answer @ r2) (int (length answer)) a1 = Some (a2, None) \<and> frames a2 = frames a1 @ [datagram] \<and>
    (let p = NetEthHdrSize a + IP_HDR_SIZE
     in NetReceive (datagram @ r3) (int (length datagram)) b1 =
          Some (b1, Some (Some p, ucast dport, ucast sport, of_nat len)) \<and>
        slice (datagram @ r3) p len = slice (NetTxPacket a) p len) \<and>
    NetServerEther a2 = NetOurEther b \<and> NetArpWaitPacketIP a2 = 0"
proof -
  have real: "real_dest dest = dest" "real_ether dest ServerEther = ServerEther"
    using ip by (simp_all add: real_dest_def real_ether_def)
  have reply: "reply_ip (a\<lparr>NetArpWaitPacketIP := dest\<rparr>) = dest"
    using ip by (simp add: reply_ip_def)
  define request where "request = arp_frame NetBcastAddr 1 (NetOurEther a) (NetOurIP a) NetEtherNullAddr dest a"
  obtain b' w a1 where send: "NetSendUDPPacket now ServerEther dest dport sport len a = Some (a1, True)"
    and a1: "a1 = a\<lparr>NetArpWaitPacketIP := dest, NetArpWaitReplyIP := dest,
      NetArpWaitPacketMAC := Some ServerEther, NetIPID := NetIPID a + 1, NetArpWaitTxPacket := w,
      NetArpWaitTxPacketSize := NetEthHdrSize a + 28 + len, NetArpWaitTry := 1, NetArpWaitTimerStart := now,
      NetTxPacket := b', frames := frames a @ [request]\<rparr>" and ok: "net_ok a1"
    and wait: "length mac = 6 \<Longrightarrow> take (NetEthHdrSize a + 28 + len) (mac @ drop 6 w) =
      datagram mac dest dport sport (udp_payload a len) a" for mac
    using send_waiting [OF assms(1) _ assms(4), of dest ServerEther now dport sport] assms(3)
    unfolding real reply request_def by (auto simp: ether_at_def)
  have ether: "length (NetOurEther a) = 6" "length (NetOurEther b) = 6"
    using assms(1,2) by (simp_all add: net_ok_def)
  define answer where "answer = arp_frame (NetOurEther a) 2 (NetOurEther b) dest (NetOurEther a) (NetOurIP a) b"
  define b1 where "b1 = b\<lparr>frames := frames b @ [answer]\<rparr>"
  have size: "length request = NetEthHdrSize a + 28" "length answer = NetEthHdrSize b + 28"
    unfolding request_def answer_def
    by (rule arp_frame_length; simp add: ether NetBcastAddr_def NetEtherNullAddr_def)+
  have lens: "length NetEtherNullAddr = 6" "length NetBcastAddr = 6"
    by (simp_all add: NetEtherNullAddr_def NetBcastAddr_def)
  have asked: "NetReceive (request @ r1) (int (length request)) b = Some (b1, None)"
    using arp_request_answered [OF assms(2) ether(1) lens vlan, of "NetOurIP a" r1 0] ip
    unfolding size unfolding request_def b1_def answer_def by simp
  define frame where "frame = datagram (NetOurEther b) dest dport sport (udp_payload a len) a"
  define a2 where "a2 = a1\<lparr>NetServerEther := NetOurEther b, NetArpWaitTxPacket := NetOurEther b @ drop 6 w,
    NetArpWaitPacketIP := 0, NetArpWaitTxPacketSize := 0, NetArpWaitPacketMAC := None, frames := frames a1 @ [frame]\<rparr>"
  have answered: "NetReceive (answer @ r2) (int (length answer)) a1 = Some (a2, None)"
    using arp_reply_taken [OF ok ether(2) ether(1) ether(1), of ServerEther dest r2 0] vlan ip wait [OF ether(2)]
    unfolding size by (simp add: a1 answer_def a2_def set_ether_def our_vlan_def frame_def)
  note body = payload_slice [OF assms(1,4)]
  have "our_vlan b1 AND VLAN_IDMASK = our_vlan a AND VLAN_IDMASK" "NetOurIP b1 = dest"
    using vlan ip by (simp_all add: b1_def our_vlan_def)
  then have "NetReceive (frame @ r3) (int (length frame)) b1 =
        Some (b1, Some (Some (NetEthHdrSize a + IP_HDR_SIZE), ucast dport, ucast sport, of_nat len))"
      "slice (frame @ r3) (NetEthHdrSize a + IP_HDR_SIZE) len = slice (NetTxPacket a) (NetEthHdrSize a + IP_HDR_SIZE) len"
    using datagram_accepted [OF ether(2) ether(1), of "udp_payload a len" 0 b1 dest dport sport r3] assms(4)
    unfolding frame_def body by (simp_all add: PKTSIZE_ALIGN_def)
  moreover have "frames a1 = frames a @ [request]" "frames b1 = frames b @ [answer]" "frames a2 = frames a1 @ [frame]"
      "NetServerEther a2 = NetOurEther b" "NetArpWaitPacketIP a2 = 0"
    by (simp_all add: a1 b1_def a2_def)
  ultimately show ?thesis
    unfolding Let_def using send asked answered by blast
qed



theorem address_resolution_delivers_witness:
  "\<exists>a1 b1 a2 request answer datagram.
    NetSendUDPPacket 0 ServerEther 7 69 2000 5 (host [0, 1, 2, 3, 4, 5] 1) = Some (a1, True) \<and>
    frames a1 = frames (host [0, 1, 2, 3, 4, 5] 1) @ [request] \<and>
    NetReceive (request @ []) (int (length request)) (host [9, 8, 7, 6, 5, 4] 7) = Some (b1, None) \<and>
    frames b1 = frames (host [9, 8, 7, 6, 5, 4] 7) @ [answer] \<and>
    NetReceive (answer @ []) (int (length answer)) a1 = Some (a2, None) \<and> frames a2 = frames a1 @ [datagram] \<and>
    (let p = NetEthHdrSize (host [0, 1, 2, 3, 4, 5] 1) + IP_HDR_SIZE
     in NetReceive (datagram @ []) (int (length datagram)) b1 =
          Some (b1, Some (Some p, ucast (69 :: u16), ucast (2000 :: u16), of_nat 5)) \<and>
        slice (datagram @ []) p 5 = slice (NetTxPacket (host [0, 1, 2, 3, 4, 5] 1)) p 5) \<and>
    NetServerEther a2 = NetOurEther (host [9, 8, 7, 6, 5, 4] 7) \<and> NetArpWaitPacketIP a2 = 0"
proof (rule address_resolution_delivers)
  show "NetEthHdrSize (host [0, 1, 2, 3, 4, 5] 1) + 28 + 5 < PKTSIZE_ALIGN"
    using NetEthHdrSize_le(1) [of "host [0, 1, 2, 3, 4, 5] 1"] by (simp add: PKTSIZE_ALIGN_def)
qed (simp_all add: host_ok host_vlan, simp_all add: host_def)

section \<open>Lengths the receiver does not check\<close>

text \<open>
  The UDP length is taken as it is: below 8 the length the handler is told wraps around.
\<close>

lemma short_udp_length:
  assumes "28 \<le> len" "len < 2 ^ 31"
    and "rd rx ip = Some 0x45" "rd_net16 rx (ip + 2) = Some tot" "int (unat tot) \<le> len"
      "NetCksumOk rx ip 10 = Some True" "NetReadIP rx (ip + 16) = Some (NetOurIP st)"
      "rd_net16 rx (ip + 6) = Some 0" "rd rx (ip + 9) = Some 17"
      "rd_net16 rx (ip + 20) = Some sport" "rd_net16 rx (ip + 22) = Some dport" "rd_net16 rx (ip + 24) = Some ulen"
    and "ulen < 8"
  shows "\<exists>n. receive_ip rx ip len st = Some (st, Some (Some (ip + IP_HDR_SIZE), ucast dport, ucast sport, n)) \<and>
    2 ^ 32 - 8 \<le> unat n"
proof -
  have "len = int (nat len)" "nat len < 4294967296" "28 \<le> nat len"
    using assms(1,2) by auto
  then have "unat (of_int len :: u32) = nat len"
    by (metis of_int_of_nat_eq unat_of_nat_u32)
  then have "\<not> (of_int len :: u32) < 28"
    using \<open>28 \<le> nat len\<close> by (simp add: word_less_nat_alt)
  moreover have "\<not> len < int (unat tot)"
    using assms(5) by simp
  ultimately have "receive_ip rx ip len st =
      Some (st, Some (Some (ip + IP_HDR_SIZE), ucast dport, ucast sport, ucast ulen - 8))"
    using assms by (simp add: receive_ip_def IP_HDR_SIZE_def IP_HDR_SIZE_NO_UDP_def del: add_2_eq_Suc')
  moreover have "\<not> (8 :: u32) \<le> ucast ulen"
    using assms(13) by (simp add: word_le_nat_alt word_less_nat_alt)
  then have "unat (ucast ulen - 8 :: u32) = 2 ^ 32 + unat ulen - 8"
    by (simp add: unat_sub_if_size word_size word_le_nat_alt)
  ultimately show ?thesis
    by simp
qed

end
