(* ===== verification/Tftp.thy ===== *)
theory Tftp
  imports Prelude CString Env
begin

text \<open>
  The TFTP client \<^verbatim>\<open>net/tftp.c\<close> as configured (no multicast, no size option, RAM as destination),
  with the timer, the restart and the end of the loop of \<^verbatim>\<open>net/net.c\<close> it depends on.  Packets and
  timer expiries are events; the packets sent are recorded.  Memory is a map from addresses to
  bytes, 32-bit arithmetic wraps as in the code.  The theorems show that a transfer completes and
  leaves the file in memory under loss, duplication and stray packets, with block numbers that
  wrap around.
\<close>

section \<open>State\<close>

datatype tftp_state = STATE_RRQ | STATE_DATA | STATE_TOO_LARGE | STATE_BAD_MAGIC | STATE_OACK

datatype net_state = NETLOOP_CONTINUE | NETLOOP_RESTART | NETLOOP_SUCCESS | NETLOOP_FAIL

datatype handler = TftpH | StartAgainH

record packet_out =
  to_ip :: u32
  to_port :: u32
  from_port :: u32
  payload :: "u8 list"

record tftp =
  TftpServerIP :: u32
  TftpServerPort :: u32
  TftpOurPort :: u32
  TftpTimeoutCount :: int
  TftpTimeoutCountMax :: int
  TftpTimeoutMSecs :: u32
  TftpBlock :: u32
  TftpLastBlock :: u32
  TftpBlockWrap :: u32
  TftpBlockWrapOffset :: u32
  TftpState :: tftp_state
  TftpBlkSize :: u16
  TftpBlkSizeOption :: u16
  tftp_filename :: "u8 list"
  NetBootFileXferSize :: u32
  load_address :: u32
  ram :: "u32 \<Rightarrow> u8"
  NetState :: net_state
  NetTryCount :: nat
  rx_handler :: handler
  timer :: "(u32 \<times> handler) option"
  sent :: "packet_out list"

definition TIMEOUT :: u32 where "TIMEOUT = 5000"
definition TIMEOUT_COUNT :: int where "TIMEOUT_COUNT = 20 * 2"
definition WELL_KNOWN_PORT :: u32 where "WELL_KNOWN_PORT = 69"
definition TFTP_BLOCK_SIZE :: u16 where "TFTP_BLOCK_SIZE = 512"
definition TFTP_SEQUENCE_SIZE :: u32 where "TFTP_SEQUENCE_SIZE = push_bit 16 1"
definition MAX_LEN :: nat where "MAX_LEN = 128"

section \<open>What the client uses of the network loop\<close>

definition NetSetTimeout :: "u32 \<Rightarrow> handler \<Rightarrow> tftp \<Rightarrow> tftp" where
  "NetSetTimeout iv f st = st\<lparr>timer := (if iv = 0 then None else Some (iv, f))\<rparr>"

text \<open>
  \<open>nretry\<close> is the variable \<^verbatim>\<open>netretry\<close>; \<open>wrap\<close> and \<open>dev\<close> are \<^verbatim>\<open>NetRestartWrap\<close> after another device has
  been tried and \<^verbatim>\<open>NetDevExists\<close>.
\<close>

record net_env =
  nretry :: "u8 list option"
  wrap :: bool
  dev :: bool

definition NetStartAgain :: "net_env \<Rightarrow> tftp \<Rightarrow> tftp" where
  "NetStartAgain ne st =
     (let (forever, retrycnt) =
        (case nretry ne of
           None \<Rightarrow> (True, 0)
         | Some v \<Rightarrow>
             if v = ascii ''yes'' then (True, 0)
             else if v = ascii ''no'' then (False, 0)
             else if v = ascii ''once'' then (False, 1)
             else (False, unat (fst (simple_strtoul v 0))))
      in if \<not> forever \<and> retrycnt \<le> NetTryCount st then st\<lparr>NetState := NETLOOP_FAIL\<rparr>
         else let st = st\<lparr>NetTryCount := NetTryCount st + 1\<rparr>
              in if wrap ne
                 then (if dev ne then (NetSetTimeout 10000 StartAgainH st)\<lparr>rx_handler := StartAgainH\<rparr>
                       else st\<lparr>NetState := NETLOOP_FAIL\<rparr>)
                 else st\<lparr>NetState := NETLOOP_RESTART\<rparr>)"

section \<open>Storing and sending\<close>

definition ram_write :: "(u32 \<Rightarrow> u8) \<Rightarrow> u32 \<Rightarrow> u8 list \<Rightarrow> u32 \<Rightarrow> u8" where
  "ram_write m a bs = (\<lambda>x. if unat (x - a) < length bs then bs ! unat (x - a) else m x)"

definition store_block :: "u32 \<Rightarrow> u8 list \<Rightarrow> tftp \<Rightarrow> tftp" where
  "store_block block src st =
     (let offset = block * ucast (TftpBlkSize st) + TftpBlockWrapOffset st;
          newsize = offset + of_nat (length src)
      in st\<lparr>ram := ram_write (ram st) (load_address st + offset) src,
            NetBootFileXferSize := (if NetBootFileXferSize st < newsize then newsize else NetBootFileXferSize st)\<rparr>)"

definition be16 :: "u32 \<Rightarrow> u8 list" where
  "be16 x = [ucast (drop_bit 8 x), ucast x]"

text \<open>The option block size goes through \<^verbatim>\<open>sprintf\<close>.\<close>

definition tftp_packet :: "tftp \<Rightarrow> u8 list option" where
  "tftp_packet st =
     (case TftpState st of
        STATE_RRQ \<Rightarrow> do {
          t \<leftarrow> printf_text (ascii ''%lu'') [VInt (TIMEOUT div 1000)];
          b \<leftarrow> printf_text (ascii ''blksize%c%d%c'') [VInt 0, VInt (ucast (TftpBlkSizeOption st)), VInt 0];
          Some (be16 1 @ tftp_filename st @ [0] @ ascii ''octet'' @ [0] @ ascii ''timeout'' @ [0] @ t @ [0] @ b)
        }
      | STATE_OACK \<Rightarrow> Some (be16 4 @ be16 (TftpBlock st))
      | STATE_DATA \<Rightarrow> Some (be16 4 @ be16 (TftpBlock st))
      | STATE_TOO_LARGE \<Rightarrow> Some (be16 5 @ be16 3 @ ascii ''File too large'' @ [0])
      | STATE_BAD_MAGIC \<Rightarrow> Some (be16 5 @ be16 2 @ ascii ''File has bad magic'' @ [0]))"

definition TftpSend :: "tftp \<Rightarrow> tftp option" where
  "TftpSend st = map_option (\<lambda>p. st\<lparr>sent := sent st @
     [\<lparr>to_ip = TftpServerIP st, to_port = TftpServerPort st, from_port = TftpOurPort st, payload = p\<rparr>]\<rparr>)
     (tftp_packet st)"

section \<open>Receiving\<close>

definition ntohs_at :: "u8 list \<Rightarrow> nat \<Rightarrow> u32 option" where
  "ntohs_at pkt i = do {
     h \<leftarrow> rd pkt i;
     l \<leftarrow> rd pkt (i + 1);
     Some (push_bit 8 (ucast h) OR ucast l)
   }"

text \<open>
  The options of an acknowledgement; \<open>opt\<close> is the packet behind the opcode, \<open>len\<close> the bytes received.
  The comparison with the literal runs in one memory, the literal first.
\<close>

definition at_option :: "u8 list \<Rightarrow> nat \<Rightarrow> bool option" where
  "at_option opt i = map_option (\<lambda>r. r = 0) (strcmp (ascii ''blksize'' @ [0] @ opt) (8 + i) 0)"

function oack_options :: "u8 list \<Rightarrow> nat \<Rightarrow> nat \<Rightarrow> u16 \<Rightarrow> u16 option" where
  "oack_options opt len i blksize =
     (if i + 8 < len
      then (case at_option opt i of
              None \<Rightarrow> None
            | Some hit \<Rightarrow>
                oack_options opt len (i + 1)
                  (if hit then ucast (fst (simple_strtoul (drop (i + 8) opt) 10)) else blksize))
      else Some blksize)"
  by pat_completeness auto
termination
  by (relation "measure (\<lambda>(opt, len, i, b). len - i)") auto

declare oack_options.simps [simp del]

text \<open>
  The data branch; \<open>len\<close> counts the bytes behind the block number and \<open>data\<close> is the memory there, to the end of
  the buffer.  Only \<^verbatim>\<open>store_block\<close> reads it.\<close>

definition tftp_data :: "net_env \<Rightarrow> u32 \<Rightarrow> u8 list \<Rightarrow> nat \<Rightarrow> tftp \<Rightarrow> tftp option" where
  "tftp_data ne src data len st =
     (let st = (if TftpBlock st = 0
                then st\<lparr>TftpBlockWrap := TftpBlockWrap st + 1,
                        TftpBlockWrapOffset := TftpBlockWrapOffset st + ucast (TftpBlkSize st) * TFTP_SEQUENCE_SIZE\<rparr>
                else st);
          first = (TftpState st = STATE_RRQ \<or> TftpState st = STATE_OACK);
          st = (if first
                then st\<lparr>TftpState := STATE_DATA, TftpServerPort := src, TftpLastBlock := 0, TftpBlockWrap := 0,
                        TftpBlockWrapOffset := 0\<rparr>
                else st)
      in if first \<and> TftpBlock st \<noteq> 1 then Some (NetStartAgain ne st)
         else if TftpBlock st = TftpLastBlock st then Some st
         else do {
           let st = st\<lparr>TftpLastBlock := TftpBlock st, TftpTimeoutMSecs := TIMEOUT, TftpTimeoutCountMax := TIMEOUT_COUNT\<rparr>;
           let st = NetSetTimeout (TftpTimeoutMSecs st) TftpH st;
           body \<leftarrow> (if len \<le> length data then Some (take len data) else None);
           let st = store_block (TftpBlock st - 1) body st;
           st \<leftarrow> TftpSend st;
           Some (if len < unat (TftpBlkSize st) then st\<lparr>NetState := NETLOOP_SUCCESS\<rparr> else st)
         })"

definition TftpHandler :: "net_env \<Rightarrow> u8 list \<Rightarrow> u32 \<Rightarrow> u32 \<Rightarrow> nat \<Rightarrow> tftp \<Rightarrow> tftp option" where
  "TftpHandler ne pkt dest src len st =
     (if dest \<noteq> TftpOurPort st then Some st
      else if TftpState st \<noteq> STATE_RRQ \<and> src \<noteq> TftpServerPort st then Some st
      else if len < 2 then Some st
      else do {
        let len = len - 2;
        proto \<leftarrow> ntohs_at pkt 0;
        if proto = 6
        then do {
          let st = st\<lparr>TftpState := STATE_OACK, TftpServerPort := src\<rparr>;
          b \<leftarrow> oack_options (drop 2 pkt) len 0 (TftpBlkSize st);
          TftpSend (st\<lparr>TftpBlkSize := b\<rparr>)
        }
        else if proto = 3
        then (if len < 2 then Some st
              else do {
                let len = len - 2;
                block \<leftarrow> ntohs_at pkt 2;
                tftp_data ne src (drop 4 pkt) len (st\<lparr>TftpBlock := block\<rparr>)
              })
        else if proto = 5 then Some (NetStartAgain ne st)
        else Some st
      })"

definition TftpTimeout :: "net_env \<Rightarrow> tftp \<Rightarrow> tftp option" where
  "TftpTimeout ne st =
     (let st = st\<lparr>TftpTimeoutCount := TftpTimeoutCount st + 1\<rparr>
      in if TftpTimeoutCountMax st < TftpTimeoutCount st then Some (NetStartAgain ne st)
         else TftpSend (NetSetTimeout (TftpTimeoutMSecs st) TftpH st))"

section \<open>Starting\<close>

text \<open>
  The variables and globals \<^verbatim>\<open>TftpStart\<close> reads: \<^verbatim>\<open>tftpblocksize\<close>, \<^verbatim>\<open>NetServerIP\<close>, \<^verbatim>\<open>NetOurIP\<close>,
  \<^verbatim>\<open>BootFile\<close>, \<^verbatim>\<open>TftpRRQTimeoutMSecs\<close>, \<^verbatim>\<open>TftpRRQTimeoutCountMax\<close> and the time.
\<close>

record tftp_boot =
  blocksize_var :: "u8 list option"
  NetServerIP :: u32
  NetOurIP :: u32
  BootFile :: "u8 list"
  RRQTimeoutMSecs :: u32
  RRQTimeoutCountMax :: int
  now :: u32

definition tftp_name :: "tftp_boot \<Rightarrow> (u32 \<times> u8 list) option" where
  "tftp_name b =
     (if BootFile b = []
      then map_option (\<lambda>f. (NetServerIP b, take (MAX_LEN - 1) f))
             (printf_text (ascii ''%02lX%02lX%02lX%02lX.img'')
               [VInt (NetOurIP b AND 0xFF), VInt (drop_bit 8 (NetOurIP b) AND 0xFF),
                VInt (drop_bit 16 (NetOurIP b) AND 0xFF), VInt (drop_bit 24 (NetOurIP b) AND 0xFF)])
      else (case dropWhile (\<lambda>c. c \<noteq> 0x3a) (BootFile b) of
              [] \<Rightarrow> Some (NetServerIP b, take (MAX_LEN - 1) (BootFile b))
            | _ # name \<Rightarrow> Some (htonl (ip_octets 4 (BootFile b) 0), take (MAX_LEN - 1) name)))"

definition TftpStart :: "tftp_boot \<Rightarrow> tftp \<Rightarrow> tftp option" where
  "TftpStart b st = do {
     let st = st\<lparr>TftpBlkSizeOption := (case blocksize_var b of
                    None \<Rightarrow> TftpBlkSizeOption st | Some v \<Rightarrow> ucast (fst (simple_strtol v 10)))\<rparr>;
     (ip, name) \<leftarrow> tftp_name b;
     let st = st\<lparr>TftpServerIP := ip, tftp_filename := name, TftpTimeoutMSecs := RRQTimeoutMSecs b,
                 TftpTimeoutCountMax := RRQTimeoutCountMax b\<rparr>;
     let st = (NetSetTimeout (TftpTimeoutMSecs st) TftpH st)\<lparr>rx_handler := TftpH\<rparr>;
     TftpSend (st\<lparr>TftpServerPort := WELL_KNOWN_PORT, TftpTimeoutCount := 0, TftpState := STATE_RRQ,
       TftpOurPort := 1024 + now b mod 3072, TftpBlock := 0, TftpBlkSize := TFTP_BLOCK_SIZE\<rparr>)
   }"

section \<open>The loop\<close>

text \<open>
  One iteration of the loop of \<^verbatim>\<open>NetLoop\<close>: the packets \<^verbatim>\<open>eth_rx\<close> hands over, each with its ports and
  length, then the timer if its time is up, then a look at \<^verbatim>\<open>NetState\<close>.  Which packets arrive and
  when the timer is due are the events.
\<close>

datatype net_event = Receive "u8 list" u32 u32 nat | TimerFires

definition call_handler :: "net_env \<Rightarrow> u8 list \<Rightarrow> u32 \<Rightarrow> u32 \<Rightarrow> nat \<Rightarrow> tftp \<Rightarrow> tftp option" where
  "call_handler ne pkt dest src len st =
     (case rx_handler st of TftpH \<Rightarrow> TftpHandler ne pkt dest src len st | StartAgainH \<Rightarrow> Some st)"

definition startAgainTimeout :: "tftp \<Rightarrow> tftp" where
  "startAgainTimeout st = st\<lparr>NetState := NETLOOP_RESTART\<rparr>"

definition run_timer :: "net_env \<Rightarrow> tftp \<Rightarrow> tftp option" where
  "run_timer ne st =
     (case timer st of
        None \<Rightarrow> Some st
      | Some (_, h) \<Rightarrow>
          (let st = st\<lparr>timer := None\<rparr>
           in case h of TftpH \<Rightarrow> TftpTimeout ne st | StartAgainH \<Rightarrow> Some (startAgainTimeout st)))"

fun net_events :: "net_env \<Rightarrow> net_event list \<Rightarrow> tftp \<Rightarrow> tftp option" where
  "net_events ne [] st = Some st"
| "net_events ne (Receive pkt dest src len # evs) st = do {
     st \<leftarrow> call_handler ne pkt dest src len st;
     net_events ne evs st
   }"
| "net_events ne (TimerFires # evs) st = do { st \<leftarrow> run_timer ne st; net_events ne evs st }"

type_synonym iteration = "(u8 list \<times> u32 \<times> u32 \<times> nat) list \<times> bool"

definition iteration_events :: "iteration \<Rightarrow> net_event list" where
  "iteration_events it =
     map (\<lambda>(pkt, dest, src, len). Receive pkt dest src len) (fst it) @ (if snd it then [TimerFires] else [])"

fun net_loop :: "net_env \<Rightarrow> iteration list \<Rightarrow> tftp \<Rightarrow> tftp option" where
  "net_loop ne [] st = Some st"
| "net_loop ne (it # its) st = do {
     st \<leftarrow> net_events ne (iteration_events it) st;
     if NetState st = NETLOOP_CONTINUE then net_loop ne its st else Some st
   }"

section \<open>Requests can always be sent\<close>

lemmas format_eval = printf_text_def vsprintf_def directive_def parse_width_def parse_precision_def
  parse_qualifier_def convert_def int_conversion_def is_digit_def ascii_def pad_def

lemma tftp_packet_Some: "\<exists>p. tftp_packet st = Some p"
  by (cases "TftpState st")
    (simp_all add: tftp_packet_def format_eval of_char_def Let_def split: prod.splits)


section \<open>What a server delivers\<close>

text \<open>
  The blocks of a file, numbered from 1; the last one is short, possibly empty.
\<close>

definition blocks :: "u8 list \<Rightarrow> nat \<Rightarrow> nat" where
  "blocks contents blk = length contents div blk + 1"

definition chunk :: "u8 list \<Rightarrow> nat \<Rightarrow> nat \<Rightarrow> u8 list" where
  "chunk contents blk k = take blk (drop ((k - 1) * blk) contents)"

definition wire_number :: "nat \<Rightarrow> u32" where
  "wire_number k = of_nat (k mod 65536)"

definition data_packet :: "u8 list \<Rightarrow> nat \<Rightarrow> nat \<Rightarrow> u8 list" where
  "data_packet contents blk k = be16 3 @ be16 (wire_number k) @ chunk contents blk k"

text \<open>
  Events in which a server delivers a file in lockstep after \<open>k\<close> of its blocks have arrived: the
  next block, or the last one again; packets to other ports, from other sources and without an
  opcode; and at most \<open>t\<close> timeouts.  A packet may be padded.
\<close>

inductive delivers :: "u8 list \<Rightarrow> nat \<Rightarrow> u32 \<Rightarrow> u32 \<Rightarrow> nat \<Rightarrow> nat \<Rightarrow> net_event list \<Rightarrow> bool"
  for contents :: "u8 list" and blk :: nat and our server :: u32 where
  finished: "delivers contents blk our server (blocks contents blk) t []"
| next_block: "k < blocks contents blk \<Longrightarrow> delivers contents blk our server (Suc k) t evs
    \<Longrightarrow> delivers contents blk our server k t
         (Receive (data_packet contents blk (Suc k) @ padding) our server (length (data_packet contents blk (Suc k))) # evs)"
| same_block: "0 < k \<Longrightarrow> k mod 65536 \<noteq> 0 \<Longrightarrow> delivers contents blk our server k t evs
    \<Longrightarrow> delivers contents blk our server k t
         (Receive (data_packet contents blk k @ padding) our server (length (data_packet contents blk k)) # evs)"
| other_port: "dest \<noteq> our \<Longrightarrow> delivers contents blk our server k t evs
    \<Longrightarrow> delivers contents blk our server k t (Receive pkt dest src len # evs)"
| other_source: "0 < k \<Longrightarrow> src \<noteq> server \<Longrightarrow> delivers contents blk our server k t evs
    \<Longrightarrow> delivers contents blk our server k t (Receive pkt dest src len # evs)"
| too_short: "len < 2 \<Longrightarrow> delivers contents blk our server k t evs
    \<Longrightarrow> delivers contents blk our server k t (Receive pkt dest src len # evs)"
| timeout: "delivers contents blk our server k t evs \<Longrightarrow> delivers contents blk our server k (Suc t) (TimerFires # evs)"

inductive_cases delivers_Nil: "delivers contents blk our server k t []"
inductive_cases delivers_Receive: "delivers contents blk our server k t (Receive pkt dest src len # evs)"
inductive_cases delivers_Timer: "delivers contents blk our server k t (TimerFires # evs)"

section \<open>Packets and memory\<close>

named_theorems tftp_simps

lemma be16_length [simp]: "length (be16 x) = 2"
  by (simp add: be16_def)

lemma ntohs_be16: "ntohs_at (be16 x @ r) 0 = Some (x AND mask 16)"
proof -
  have "push_bit 8 (ucast (ucast (drop_bit 8 x) :: u8)) OR ucast (ucast x :: u8) = x AND mask 16" for x :: u32
    by (rule bit_word_eqI) (auto simp: bit_eval bit_ucast_iff bit_drop_bit_eq bit_mask_iff)
  then show ?thesis
    by (simp add: ntohs_at_def be16_def rd_def)
qed

lemma ntohs_off: "ntohs_at (pre @ suf) (length pre) = ntohs_at suf 0"
  by (simp add: ntohs_at_def rd_def nth_append)

lemma unat_wire_number: "unat (wire_number k) = k mod 65536"
  using mod_less_divisor [of 65536 k] by (simp add: wire_number_def)

lemma wire_number_mask: "wire_number k AND mask 16 = wire_number k"
  by (rule word_unat_eq_iff [THEN iffD2]) (simp add: unat_and_mask unat_wire_number)

lemma wire_number_eq_0: "wire_number k = 0 \<longleftrightarrow> k mod 65536 = 0"
  by (metis unat_wire_number unat_eq_0)

lemma wire_number_Suc_neq: "wire_number (Suc k) \<noteq> wire_number k"
proof
  assume "wire_number (Suc k) = wire_number k"
  then have "Suc k mod 65536 = k mod 65536"
    by (metis unat_wire_number)
  then show False
    by (simp add: mod_Suc split: if_splits)
qed

text \<open>The destination of a block, in 32-bit arithmetic.\<close>

definition wrap_offset :: "nat \<Rightarrow> nat \<Rightarrow> u32" where
  "wrap_offset blk k = of_nat (k div 65536 * 65536 * blk)"

lemma wrap_offset_Suc:
  "wrap_offset blk (Suc k) =
     (if Suc k mod 65536 = 0 then wrap_offset blk k + of_nat (65536 * blk) else wrap_offset blk k)"
proof -
  have "Suc k div 65536 = (if Suc k mod 65536 = 0 then Suc (k div 65536) else k div 65536)"
    by (rule div_Suc)
  then have eq: "Suc k div 65536 * 65536 * blk =
      (if Suc k mod 65536 = 0 then k div 65536 * 65536 * blk + 65536 * blk else k div 65536 * 65536 * blk)"
    by (simp only: mult_Suc add_mult_distrib add.commute split: if_split) simp
  show ?thesis
    unfolding wrap_offset_def eq by (simp only: of_nat_add split: if_split) simp
qed

lemma block_offset:
  "(wire_number (Suc k) - 1) * of_nat blk + wrap_offset blk (Suc k) = of_nat (k * blk)"
proof -
  have eq: "Suc k mod M * blk + Suc k div M * M * blk = blk + k * blk" for M
    by (simp only: add_mult_distrib [symmetric] mod_div_mult_eq mult_Suc)
  have "wire_number (Suc k) * of_nat blk + wrap_offset blk (Suc k) = of_nat blk + of_nat (k * blk)"
    unfolding wire_number_def wrap_offset_def of_nat_mult [symmetric] of_nat_add [symmetric] eq ..
  then show ?thesis
    by (simp only: left_diff_distrib mult_1 diff_add_eq) (simp only: add_diff_cancel_left')
qed

lemma ram_write_append:
  assumes "length xs + length ys \<le> 2 ^ 32"
  shows "ram_write (ram_write m a xs) (a + of_nat (length xs)) ys = ram_write m a (xs @ ys)"
proof
  fix x :: u32
  show "ram_write (ram_write m a xs) (a + of_nat (length xs)) ys x = ram_write m a (xs @ ys) x"
  proof (cases "unat (x - a) < length xs")
    case True
    have "\<not> unat (x - (a + of_nat (length xs))) < length ys"
    proof (cases "length xs < 2 ^ 32")
      case less: True
      then have "unat ((x - a) - of_nat (length xs)) = 2 ^ 32 + unat (x - a) - length xs"
        using True by (simp add: unat_sub_if_size word_size)
      then show ?thesis
        using assms by (simp add: diff_diff_add)
    next
      case False
      then show ?thesis
        using assms by simp
    qed
    then show ?thesis
      using True by (simp add: ram_write_def nth_append)
  next
    case False
    then have "length xs < 4294967296"
      using unat_u32_less [of "x - a"] by linarith
    then have "unat (of_nat (length xs) :: u32) = length xs"
      by simp
    then have "unat ((x - a) - of_nat (length xs)) = unat (x - a) - length xs"
      using False by (simp add: unat_sub_if_size)
    then have "unat (x - (a + of_nat (length xs))) = unat (x - a) - length xs"
      by (simp add: diff_diff_add)
    then show ?thesis
      using False by (auto simp: ram_write_def nth_append)
  qed
qed

lemma ram_write_Nil [simp]: "ram_write m a [] = m"
  by (simp add: ram_write_def)

section \<open>The invariant of a transfer\<close>

lemma chunk_append: "take (k * blk) contents @ chunk contents blk (Suc k) = take (Suc k * blk) contents"
  using take_add [of "k * blk" blk contents] by (simp add: chunk_def add.commute)

lemma before_last:
  assumes "0 < blk" "k < blocks contents blk"
  shows "k * blk \<le> length contents"
proof -
  have "k * blk \<le> length contents div blk * blk"
    using assms by (simp add: blocks_def)
  also have "\<dots> \<le> length contents"
    by simp
  finally show ?thesis .
qed

lemma chunk_short:
  assumes "0 < blk" "k < blocks contents blk"
  shows "length (chunk contents blk (Suc k)) < blk \<longleftrightarrow> Suc k = blocks contents blk"
proof -
  have "length (chunk contents blk (Suc k)) < blk \<longleftrightarrow> length contents < Suc k * blk"
    using before_last [OF assms] by (auto simp: chunk_def min_def)
  also have "\<dots> \<longleftrightarrow> length contents div blk < Suc k"
    using assms(1) by (simp add: div_less_iff_less_mult)
  finally show ?thesis
    using assms(2) by (auto simp: blocks_def)
qed

lemma all_blocks: "0 < blk \<Longrightarrow> take (blocks contents blk * blk) contents = contents"
  using dividend_less_div_times [of blk "length contents"] by (simp add: blocks_def algebra_simps)



definition acknowledged :: "u32 \<Rightarrow> nat \<Rightarrow> tftp \<Rightarrow> bool" where
  "acknowledged server k st \<longleftrightarrow>
     sent st \<noteq> [] \<and> to_port (last (sent st)) = server \<and> payload (last (sent st)) = be16 4 @ be16 (wire_number k)"

text \<open>After \<open>k\<close> blocks, with \<open>t\<close> timeouts to spare; \<open>st0\<close> is the state the transfer started in.\<close>

definition transfer_inv :: "u8 list \<Rightarrow> nat \<Rightarrow> tftp \<Rightarrow> u32 \<Rightarrow> nat \<Rightarrow> nat \<Rightarrow> tftp \<Rightarrow> bool" where
  "transfer_inv contents blk st0 server k t st \<longleftrightarrow>
     TftpOurPort st = TftpOurPort st0 \<and> load_address st = load_address st0 \<and> rx_handler st = TftpH \<and>
     (\<forall>iv h. timer st = Some (iv, h) \<longrightarrow> h = TftpH) \<and>
     k \<le> blocks contents blk \<and>
     NetState st = (if k < blocks contents blk then NETLOOP_CONTINUE else NETLOOP_SUCCESS) \<and>
     TftpBlkSize st = of_nat blk \<and>
     TftpTimeoutCount st + int t \<le> min TIMEOUT_COUNT (TftpTimeoutCountMax st) \<and>
     ram st = ram_write (ram st0) (load_address st0) (take (k * blk) contents) \<and>
     NetBootFileXferSize st = of_nat (min (k * blk) (length contents)) \<and>
     (if k = 0 then TftpState st = STATE_RRQ \<or> TftpState st = STATE_OACK \<and> TftpServerPort st = server
      else TftpState st = STATE_DATA \<and> TftpServerPort st = server \<and> TftpBlock st = wire_number k \<and>
        TftpLastBlock st = wire_number k \<and> TftpBlockWrapOffset st = wrap_offset blk k \<and> acknowledged server k st)"

lemma store_next:
  assumes "TftpBlkSize st = of_nat blk" "blk < 65536" "0 < blk" "length contents < 2 ^ 32" "k < blocks contents blk"
    and "TftpBlockWrapOffset st = wrap_offset blk (Suc k)"
    and "ram st = ram_write m (load_address st) (take (k * blk) contents)"
    and "NetBootFileXferSize st = of_nat (k * blk)"
  shows "store_block (wire_number (Suc k) - 1) (chunk contents blk (Suc k)) st =
    st\<lparr>ram := ram_write m (load_address st) (take (Suc k * blk) contents),
       NetBootFileXferSize := of_nat (min (Suc k * blk) (length contents))\<rparr>"
proof -
  define a where "a = k * blk"
  define c where "c = chunk contents blk (Suc k)"
  have le: "a \<le> length contents"
    using before_last [OF assms(3,5)] by (simp add: a_def)
  have whole: "take a contents @ c = take (Suc k * blk) contents"
    unfolding a_def c_def by (rule chunk_append)
  have len: "a + length c = min (Suc k * blk) (length contents)"
    using arg_cong [OF whole, of length] le by simp
  have size: "(ucast (TftpBlkSize st) :: u32) = of_nat blk"
    using assms(1,2) by (intro word_unat_eq_iff [THEN iffD2]) simp
  have off: "(wire_number (Suc k) - 1) * ucast (TftpBlkSize st) + TftpBlockWrapOffset st = of_nat a"
    unfolding size assms(6) a_def by (rule block_offset)
  have bound: "a + length c < 2 ^ 32"
    using len assms(4) by linarith
  have mem: "ram_write (ram st) (load_address st + of_nat a) c = ram_write m (load_address st) (take (Suc k * blk) contents)"
    using ram_write_append [of "take a contents" c m "load_address st"] le bound assms(7) whole
    by (simp add: a_def)
  have new: "(if (of_nat a :: u32) < of_nat a + of_nat (length c) then of_nat a + of_nat (length c) else of_nat a) =
      (of_nat (a + length c) :: u32)"
    using bound by (auto simp: word_less_nat_alt simp flip: of_nat_add)
  show ?thesis
    unfolding store_block_def Let_def off c_def [symmetric] mem
    using new assms(8) by (auto simp: a_def [symmetric] len)
qed

lemma tftp_data_padding:
  "tftp_data ne src (body @ padding) (length body) st = tftp_data ne src body (length body) st"
proof -
  have body: "(if length body \<le> length (body @ padding) then Some (take (length body) (body @ padding)) else None)
      = (if length body \<le> length body then Some (take (length body) body) else None)"
    by simp
  show ?thesis unfolding tftp_data_def body ..
qed

lemma handler_data:
  "TftpHandler ne (be16 3 @ be16 (wire_number k) @ body @ padding) dest src (length (be16 3 @ be16 (wire_number k) @ body)) st =
     (if dest \<noteq> TftpOurPort st then Some st
      else if TftpState st \<noteq> STATE_RRQ \<and> src \<noteq> TftpServerPort st then Some st
      else tftp_data ne src body (length body) (st\<lparr>TftpBlock := wire_number k\<rparr>))"
proof -
  have code: "ntohs_at (be16 3 @ be16 (wire_number k) @ body @ padding) 0 = Some 3"
    by (simp add: ntohs_be16 mask_eq_exp_minus_1)
  have number: "ntohs_at (be16 3 @ be16 (wire_number k) @ body @ padding) 2 = Some (wire_number k)"
    using ntohs_off [of "be16 3" "be16 (wire_number k) @ body @ padding"]
    by (simp add: ntohs_be16 wire_number_mask)
  show ?thesis
    by (simp add: TftpHandler_def code number tftp_data_padding Let_def)
qed

lemma acknowledgement:
  "TftpState st = STATE_DATA \<Longrightarrow> TftpSend st = Some (st\<lparr>sent := sent st @
     [\<lparr>to_ip = TftpServerIP st, to_port = TftpServerPort st, from_port = TftpOurPort st,
       payload = be16 4 @ be16 (TftpBlock st)\<rparr>]\<rparr>)"
  by (simp add: TftpSend_def tftp_packet_def)

lemma store_block_keeps [tftp_simps]:
  "TftpState (store_block b c st) = TftpState st" "TftpBlkSize (store_block b c st) = TftpBlkSize st"
  by (simp_all add: store_block_def Let_def)

text \<open>An accepted block: what the data branch does after its checks.\<close>

definition accept_block :: "u8 list \<Rightarrow> tftp \<Rightarrow> tftp option" where
  "accept_block body st =
     do { st \<leftarrow> TftpSend (store_block (TftpBlock st - 1) body
            (st\<lparr>TftpLastBlock := TftpBlock st, TftpTimeoutMSecs := TIMEOUT, TftpTimeoutCountMax := TIMEOUT_COUNT,
                timer := Some (TIMEOUT, TftpH)\<rparr>));
          Some (if length body < unat (TftpBlkSize st) then st\<lparr>NetState := NETLOOP_SUCCESS\<rparr> else st) }"

lemma tftp_data_first:
  assumes "TftpState st = STATE_RRQ \<or> TftpState st = STATE_OACK" "TftpBlock st = 1"
  shows "tftp_data ne src body (length body) st = accept_block body (st\<lparr>TftpState := STATE_DATA, TftpServerPort := src,
    TftpLastBlock := 0, TftpBlockWrap := 0, TftpBlockWrapOffset := 0\<rparr>)"
  using assms by (simp add: tftp_data_def accept_block_def Let_def NetSetTimeout_def TIMEOUT_def)

lemma tftp_data_later:
  assumes "TftpState st = STATE_DATA" "TftpBlock st \<noteq> TftpLastBlock st"
  shows "tftp_data ne src body (length body) st = accept_block body
    (if TftpBlock st = 0
     then st\<lparr>TftpBlockWrap := TftpBlockWrap st + 1,
             TftpBlockWrapOffset := TftpBlockWrapOffset st + ucast (TftpBlkSize st) * TFTP_SEQUENCE_SIZE\<rparr>
     else st)"
  using assms by (auto simp: tftp_data_def accept_block_def Let_def NetSetTimeout_def TIMEOUT_def)

text \<open>Accepting the next block of the file, whatever the counters of wraps say.\<close>

lemma accept_next:
  assumes "0 < blk" "blk < 65536" "length contents < 2 ^ 32" "k < blocks contents blk"
    and same: "TftpOurPort st = TftpOurPort st0" "load_address st = load_address st0" "rx_handler st = TftpH"
      "NetState st = NETLOOP_CONTINUE" "TftpBlkSize st = of_nat blk"
    and data: "TftpState st = STATE_DATA" "TftpServerPort st = server" "TftpBlock st = wire_number (Suc k)"
      "TftpBlockWrapOffset st = wrap_offset blk (Suc k)"
    and time: "TftpTimeoutCount st + int t \<le> TIMEOUT_COUNT"
    and ram: "ram st = ram_write (ram st0) (load_address st0) (take (k * blk) contents)"
    and xfer: "NetBootFileXferSize st = of_nat (k * blk)"
  shows "\<exists>st'. accept_block (chunk contents blk (Suc k)) st = Some st' \<and>
    transfer_inv contents blk st0 server (Suc k) t st'"
proof -
  define st1 where "st1 = st\<lparr>TftpLastBlock := TftpBlock st, TftpTimeoutMSecs := TIMEOUT,
    TftpTimeoutCountMax := TIMEOUT_COUNT, timer := Some (TIMEOUT, TftpH)\<rparr>"
  have blk: "unat (TftpBlkSize st) = blk"
    using same(5) assms(2) by simp
  have "store_block (wire_number (Suc k) - 1) (chunk contents blk (Suc k)) st1 =
      st1\<lparr>ram := ram_write (ram st0) (load_address st0) (take (Suc k * blk) contents),
          NetBootFileXferSize := of_nat (min (Suc k * blk) (length contents))\<rparr>"
    unfolding same(2) [symmetric]
    by (rule trans [OF store_next [where m = "ram st0"]]) (use assms in \<open>simp_all add: st1_def\<close>)
  then have run: "accept_block (chunk contents blk (Suc k)) st =
      do { st' \<leftarrow> TftpSend (st1\<lparr>ram := ram_write (ram st0) (load_address st0) (take (Suc k * blk) contents),
             NetBootFileXferSize := of_nat (min (Suc k * blk) (length contents))\<rparr>);
           Some (if length (chunk contents blk (Suc k)) < unat (TftpBlkSize st')
                 then st'\<lparr>NetState := NETLOOP_SUCCESS\<rparr> else st') }"
    using data(3) by (simp add: accept_block_def st1_def)
  have "Suc k \<le> blocks contents blk"
    using assms(4) by simp
  then show ?thesis
    using same data time chunk_short [OF assms(1,4)] blk
    by (simp add: run acknowledgement st1_def transfer_inv_def acknowledged_def) 
qed

lemma data_next:
  assumes inv: "transfer_inv contents blk st0 server k t st" and less: "k < blocks contents blk"
    and blk: "0 < blk" "blk < 65536" "length contents < 2 ^ 32"
  shows "\<exists>st'. tftp_data ne server (chunk contents blk (Suc k)) (length (chunk contents blk (Suc k))) (st\<lparr>TftpBlock := wire_number (Suc k)\<rparr>) = Some st' \<and>
    transfer_inv contents blk st0 server (Suc k) t st'"
proof -
  have xfer: "min (k * blk) (length contents) = k * blk"
    using before_last [OF blk(1) less] by simp
  show ?thesis
  proof (cases "k = 0")
    case True
    have first: "wire_number (Suc k) = 1" "wrap_offset blk (Suc k) = 0"
      using True by (simp_all add: wire_number_def wrap_offset_def)
    have state: "TftpState st = STATE_RRQ \<or> TftpState st = STATE_OACK"
      using inv True by (auto simp: transfer_inv_def)
    show ?thesis
      by (subst tftp_data_first, use state first in simp, use first in simp, rule accept_next)
        (use inv less blk first xfer in \<open>simp_all add: transfer_inv_def\<close>)
  next
    case False
    have state: "TftpState st = STATE_DATA" "wire_number (Suc k) \<noteq> TftpLastBlock st"
      using inv False wire_number_Suc_neq [of k] by (auto simp: transfer_inv_def)
    have "(ucast (TftpBlkSize st) :: u32) = of_nat blk"
      using inv blk(2) by (intro word_unat_eq_iff [THEN iffD2]) (simp add: transfer_inv_def)
    then have size: "(ucast (TftpBlkSize st) :: u32) * TFTP_SEQUENCE_SIZE = of_nat (65536 * blk)"
      by (simp add: TFTP_SEQUENCE_SIZE_def mult.commute)
    have offset: "wrap_offset blk (Suc k) = (if wire_number (Suc k) = 0
        then TftpBlockWrapOffset st + ucast (TftpBlkSize st) * TFTP_SEQUENCE_SIZE else TftpBlockWrapOffset st)"
      using inv False unfolding wrap_offset_Suc wire_number_eq_0 size by (simp add: transfer_inv_def)
    show ?thesis
      by (subst tftp_data_later, use state in simp, use state in simp, rule accept_next)
        (use inv less blk False offset xfer in \<open>auto simp: transfer_inv_def\<close>)
  qed
qed


section \<open>Every event keeps the invariant\<close>

lemma same_block_ignored:
  assumes "transfer_inv contents blk st0 server k t st" "0 < k" "k mod 65536 \<noteq> 0"
  shows "tftp_data ne server body (length body) (st\<lparr>TftpBlock := wire_number k\<rparr>) = Some st"
proof -
  have "wire_number k \<noteq> 0"
    using assms(3) by (simp add: wire_number_eq_0)
  moreover have "st\<lparr>TftpBlock := wire_number k\<rparr> = st"
    using assms(1,2) by (cases st) (simp add: transfer_inv_def)
  ultimately show ?thesis
    using assms(1,2) by (simp add: tftp_data_def transfer_inv_def Let_def)
qed

lemma tftp_packet_keeps [tftp_simps]:
  "tftp_packet (st\<lparr>timer := x\<rparr>) = tftp_packet st" "tftp_packet (st\<lparr>TftpTimeoutCount := c\<rparr>) = tftp_packet st"
  by (simp_all add: tftp_packet_def cong: tftp_state.case_cong)

lemma timer_keeps:
  assumes "transfer_inv contents blk st0 server k (Suc t) st"
  shows "\<exists>st'. run_timer ne st = Some st' \<and> transfer_inv contents blk st0 server k t st'"
proof (cases "timer st")
  case None
  then show ?thesis
    using assms by (auto simp: run_timer_def transfer_inv_def)
next
  case (Some e)
  then obtain iv where timer: "timer st = Some (iv, TftpH)"
    using assms by (cases e) (auto simp: transfer_inv_def)
  obtain p where p: "tftp_packet st = Some p"
    using tftp_packet_Some by blast
  have run: "run_timer ne st = TftpSend (NetSetTimeout (TftpTimeoutMSecs st) TftpH
      (st\<lparr>timer := None, TftpTimeoutCount := TftpTimeoutCount st + 1\<rparr>))"
    using assms timer by (simp add: run_timer_def TftpTimeout_def transfer_inv_def Let_def)
  show ?thesis
  proof (cases "k = 0")
    case True
    then show ?thesis
      using assms p by (simp add: run TftpSend_def tftp_simps NetSetTimeout_def transfer_inv_def)
  next
    case False
    then show ?thesis
      using assms by (simp add: run acknowledgement NetSetTimeout_def transfer_inv_def acknowledged_def)
  qed
qed

lemma server_packet:
  assumes "transfer_inv contents blk st0 server k t st"
  shows "TftpHandler ne (data_packet contents blk j @ padding) (TftpOurPort st0) server
      (length (data_packet contents blk j)) st =
    tftp_data ne server (chunk contents blk j) (length (chunk contents blk j)) (st\<lparr>TftpBlock := wire_number j\<rparr>)"
proof -
  have "TftpOurPort st0 = TftpOurPort st" "TftpState st = STATE_RRQ \<or> server = TftpServerPort st"
    using assms by (auto simp: transfer_inv_def split: if_splits)
  then show ?thesis
    by (auto simp only: data_packet_def append_assoc handler_data if_False simp_thms)
qed

lemma ignored_packet:
  "dest \<noteq> TftpOurPort st \<or> TftpState st \<noteq> STATE_RRQ \<and> src \<noteq> TftpServerPort st \<or> len < 2
    \<Longrightarrow> TftpHandler ne pkt dest src len st = Some st"
  by (auto simp: TftpHandler_def)

lemma receive_keeps:
  assumes "delivers contents blk (TftpOurPort st0) server k t (Receive pkt dest src len # evs)"
    and inv: "transfer_inv contents blk st0 server k t st"
    and blk: "0 < blk" "blk < 65536" "length contents < 2 ^ 32"
  shows "\<exists>k' st'. call_handler ne pkt dest src len st = Some st' \<and> transfer_inv contents blk st0 server k' t st' \<and>
    delivers contents blk (TftpOurPort st0) server k' t evs"
proof -
  have handler: "call_handler ne p d r l st = TftpHandler ne p d r l st" for p d r l
    using inv by (simp add: call_handler_def transfer_inv_def)
  have port: "TftpOurPort st = TftpOurPort st0"
    using inv by (simp add: transfer_inv_def)
  show ?thesis
    using assms(1)
  proof (cases rule: delivers.cases)
    case (next_block padding)
    then have "k < blocks contents blk"
      by simp
    from data_next [OF inv this blk, of ne] next_block show ?thesis
      by (simp only: handler server_packet [OF inv]) blast
  next
    case (same_block padding)
    then have "0 < k" "k mod 65536 \<noteq> 0"
      by simp_all
    from same_block_ignored [OF inv this, of ne] same_block inv show ?thesis
      by (simp only: handler server_packet [OF inv]) blast
  next
    case other_port
    then show ?thesis
      using inv by (metis handler ignored_packet port)
  next
    case other_source
    then have "TftpState st \<noteq> STATE_RRQ \<and> src \<noteq> TftpServerPort st"
      using inv by (simp add: transfer_inv_def)
    then show ?thesis
      using inv other_source by (metis handler ignored_packet)
  next
    case too_short
    then show ?thesis
      using inv by (metis handler ignored_packet)
  qed
qed

lemma events_keep:
  assumes "delivers contents blk (TftpOurPort st0) server k t (evs @ rest)"
    and "transfer_inv contents blk st0 server k t st"
    and blk: "0 < blk" "blk < 65536" "length contents < 2 ^ 32"
  shows "\<exists>k' t' st'. net_events ne evs st = Some st' \<and> transfer_inv contents blk st0 server k' t' st' \<and>
    delivers contents blk (TftpOurPort st0) server k' t' rest"
  using assms(1,2)
proof (induction evs arbitrary: k t st)
  case Nil
  then show ?case
    by auto
next
  case (Cons ev evs)
  show ?case
  proof (cases ev)
    case (Receive pkt dest src len)
    then obtain k' st' where "call_handler ne pkt dest src len st = Some st'"
        "transfer_inv contents blk st0 server k' t st'" "delivers contents blk (TftpOurPort st0) server k' t (evs @ rest)"
      using receive_keeps [OF _ Cons.prems(2) blk] Cons.prems(1) by fastforce
    then show ?thesis
      using Cons.IH Receive by simp
  next
    case TimerFires
    then obtain u where "t = Suc u" "delivers contents blk (TftpOurPort st0) server k u (evs @ rest)"
      using Cons.prems(1) by (auto elim: delivers_Timer)
    then show ?thesis
      using Cons.IH timer_keeps [of contents blk st0 server k u st ne] Cons.prems(2) TimerFires by fastforce
  qed
qed

section \<open>A transfer completes\<close>

text \<open>A request has been sent, or its options have been acknowledged by the server.\<close>

definition waiting :: "u32 \<Rightarrow> nat \<Rightarrow> tftp \<Rightarrow> bool" where
  "waiting server t st \<longleftrightarrow>
     rx_handler st = TftpH \<and> (\<forall>iv h. timer st = Some (iv, h) \<longrightarrow> h = TftpH) \<and> NetState st = NETLOOP_CONTINUE \<and>
     NetBootFileXferSize st = 0 \<and> TftpTimeoutCount st + int t \<le> min TIMEOUT_COUNT (TftpTimeoutCountMax st) \<and>
     (TftpState st = STATE_RRQ \<or> TftpState st = STATE_OACK \<and> TftpServerPort st = server)"

lemma waiting_inv:
  "waiting server t st \<Longrightarrow> unat (TftpBlkSize st) = blk \<Longrightarrow> transfer_inv contents blk st server 0 t st"
  by (auto simp: waiting_def transfer_inv_def blocks_def)

lemma start_waits:
  assumes "TftpStart b st = Some st'" "NetState st = NETLOOP_CONTINUE" "NetBootFileXferSize st = 0"
    and "int t \<le> min TIMEOUT_COUNT (RRQTimeoutCountMax b)"
  shows "waiting server t st' \<and> TftpBlkSize st' = TFTP_BLOCK_SIZE"
  using assms by (auto simp: TftpStart_def TftpSend_def waiting_def NetSetTimeout_def Let_def
      split: option.splits bind_splits if_splits)

lemma loop_delivers:
  assumes "delivers contents blk (TftpOurPort st0) server k t (concat (map iteration_events its))"
    and "transfer_inv contents blk st0 server k t st" "k < blocks contents blk"
    and blk: "0 < blk" "blk < 65536" "length contents < 2 ^ 32"
  shows "\<exists>t' st'. net_loop ne its st = Some st' \<and> transfer_inv contents blk st0 server (blocks contents blk) t' st'"
  using assms(1-3)
proof (induction its arbitrary: k t st)
  case Nil
  then show ?case
    by (auto elim: delivers_Nil)
next
  case (Cons it its)
  obtain k' t' st' where step: "net_events ne (iteration_events it) st = Some st'"
      "transfer_inv contents blk st0 server k' t' st'"
      "delivers contents blk (TftpOurPort st0) server k' t' (concat (map iteration_events its))"
    using events_keep [OF _ Cons.prems(2) blk] Cons.prems(1) by fastforce
  show ?case
  proof (cases "k' < blocks contents blk")
    case True
    then show ?thesis
      using step Cons.IH [OF step(3,2) True] by (simp add: transfer_inv_def)
  next
    case False
    then have "k' = blocks contents blk" "NetState st' = NETLOOP_SUCCESS"
      using step(2) by (auto simp: transfer_inv_def)
    then show ?thesis
      using step(1,2) by auto
  qed
qed


text \<open>A file of three bytes in blocks of two, with a repeated block, a stray packet and a timeout.\<close>

definition example_client :: tftp where
  "example_client = \<lparr>TftpServerIP = 1, TftpServerPort = 1030, TftpOurPort = 2000, TftpTimeoutCount = 0,
     TftpTimeoutCountMax = 2, TftpTimeoutMSecs = TIMEOUT, TftpBlock = 0, TftpLastBlock = 0, TftpBlockWrap = 0,
     TftpBlockWrapOffset = 0, TftpState = STATE_OACK, TftpBlkSize = 2, TftpBlkSizeOption = 2, tftp_filename = [0x78],
     NetBootFileXferSize = 0, load_address = 0x30000000, ram = (\<lambda>_. 0), NetState = NETLOOP_CONTINUE,
     NetTryCount = 0, rx_handler = TftpH, timer = Some (TIMEOUT, TftpH), sent = []\<rparr>"

definition example_iterations :: "iteration list" where
  "example_iterations =
     [([([0, 3, 0, 1, 7, 8, 0, 0], 2000, 1030, 6), ([0, 3, 0, 1], 2001, 1030, 4)], True),
      ([([0, 3, 0, 1, 7, 8], 2000, 1030, 6)], False),
      ([([0, 3, 0, 2, 9], 2000, 1030, 5)], False)]"

lemma example_delivers:
  "delivers [7, 8, 9] 2 2000 1030 0 1 (concat (map iteration_events example_iterations))"
proof -
  have packets: "data_packet [7, 8, 9] 2 (Suc 0) = [0, 3, 0, 1, 7, 8]" "data_packet [7, 8, 9] 2 (Suc (Suc 0)) = [0, 3, 0, 2, 9]"
    by (simp_all add: data_packet_def be16_def chunk_def wire_number_def)
  have lengths: "length (data_packet [7, 8, 9] 2 (Suc 0)) = 6" "length (data_packet [7, 8, 9] 2 (Suc (Suc 0))) = 5"
    by (simp_all add: packets)
  have count: "blocks [7, 8, 9 :: u8] 2 = 2"
    by (simp add: blocks_def)
  have five: "delivers [7, 8, 9] 2 2000 1030 (Suc (Suc 0)) 0 []"
    using finished [of "[7, 8, 9]" 2 2000 1030 0] unfolding count by (simp only: numeral_2_eq_2)
  have four: "delivers [7, 8, 9] 2 2000 1030 (Suc 0) 0 [Receive [0, 3, 0, 2, 9] 2000 1030 5]"
    using next_block [OF _ five, where padding = "[]"] unfolding lengths unfolding packets count by simp
  have three: "delivers [7, 8, 9] 2 2000 1030 (Suc 0) 0
      [Receive [0, 3, 0, 1, 7, 8] 2000 1030 6, Receive [0, 3, 0, 2, 9] 2000 1030 5]"
    using same_block [OF _ _ four, where padding = "[]"] unfolding lengths unfolding packets by simp
  have two: "delivers [7, 8, 9] 2 2000 1030 (Suc 0) 1
      [Receive [0, 3, 0, 1] 2001 1030 4, TimerFires, Receive [0, 3, 0, 1, 7, 8] 2000 1030 6,
       Receive [0, 3, 0, 2, 9] 2000 1030 5]"
    using other_port [OF _ timeout [OF three]] by simp
  show ?thesis
    using next_block [OF _ two, where padding = "[0, 0]"] unfolding lengths unfolding packets count
    by (simp add: example_iterations_def iteration_events_def)
qed




end
