(* ===== verification/NandUtil.thy ===== *)
theory NandUtil
  imports Prelude
begin

text \<open>
  Reading and writing around bad blocks, \<^verbatim>\<open>drivers/mtd/nand/nand_util.c\<close>.  The driver below is a
  parameter: which blocks it reports as bad, and reads and writes that return a code, the number of
  bytes done and the chip.  The theorems show that what is written is read back, that only good
  blocks are touched as long as there are enough of them, and what happens when there are not.
\<close>

section \<open>The code\<close>

text \<open>
  Sizes and offsets are numbers below \<^verbatim>\<open>2 ^ 32\<close>, the erase and page sizes powers of 2, so that the
  masks of the code are remainders.
\<close>

record 'n nand_info =
  nand_size :: nat
  nand_erasesize :: nat
  writesize :: nat
  oobsize :: nat
  rw_oob :: nat
  block_isbad :: "'n \<Rightarrow> nat \<Rightarrow> bool"
  write_op :: "nat \<Rightarrow> nat \<Rightarrow> u8 list \<Rightarrow> 'n \<Rightarrow> int \<times> nat \<times> 'n"
  read_op :: "nat \<Rightarrow> nat \<Rightarrow> 'n \<Rightarrow> int \<times> nat \<times> u8 list"

definition EINVAL :: int where "EINVAL = 22"
definition EUCLEAN :: int where "EUCLEAN = 117"

definition block_start :: "'n nand_info \<Rightarrow> nat \<Rightarrow> nat" where
  "block_start nand offset = offset - offset mod nand_erasesize nand"

lemma block_step:
  "0 < es \<Longrightarrow> off + es - off mod es < sz \<Longrightarrow> sz - (off + es - off mod es) < sz - off" for es :: nat
  using mod_less_divisor [of es off] by linarith

text \<open>An erase size of 0 would keep the loop where it is.\<close>

function len_incl_bad_loop :: "'n nand_info \<Rightarrow> 'n \<Rightarrow> nat \<Rightarrow> nat \<Rightarrow> nat \<Rightarrow> nat \<Rightarrow> nat option" where
  "len_incl_bad_loop nand chip len offset len_incl_bad len_excl_bad =
     (if nand_erasesize nand = 0 then None
      else if len_excl_bad < len
      then (let block_len = nand_erasesize nand - offset mod nand_erasesize nand;
                len_excl_bad = (if block_isbad nand chip (block_start nand offset) then len_excl_bad
                                else len_excl_bad + block_len);
                len_incl_bad = len_incl_bad + block_len
            in if nand_size nand \<le> offset + block_len then Some len_incl_bad
               else len_incl_bad_loop nand chip len (offset + block_len) len_incl_bad len_excl_bad)
      else Some len_incl_bad)"
  by pat_completeness auto
termination
  by (relation "measure (\<lambda>(nand, chip, len, offset, i, e). nand_size nand - offset)") (auto simp: not_le intro: block_step)

declare len_incl_bad_loop.simps [simp del]

definition get_len_incl_bad :: "'n nand_info \<Rightarrow> 'n \<Rightarrow> nat \<Rightarrow> nat \<Rightarrow> nat option" where
  "get_len_incl_bad nand chip offset len = len_incl_bad_loop nand chip len offset 0 0"

text \<open>
  The loops have no bound of their own: \<^verbatim>\<open>None\<close> also stands for a loop that does not end.  The
  message at the end of each turn divides by \<^verbatim>\<open>*length/100\<close>; for a length below 100 that is a division by
  0, which on this machine hangs in \<^verbatim>\<open>__div0\<close>.  The result is the return value, \<^verbatim>\<open>*length\<close>, the chip and \<^verbatim>\<open>skip_fb\<close>.
\<close>

partial_function (option) write_skip_loop ::
    "'n nand_info \<Rightarrow> u8 list \<Rightarrow> nat \<Rightarrow> nat \<Rightarrow> nat \<Rightarrow> nat \<Rightarrow> nat \<Rightarrow> 'n \<Rightarrow> (int \<times> nat \<times> 'n \<times> nat) option" where
  "write_skip_loop nand buf len left offset p skip_fb chip =
     (if left = 0 then Some (0, len, chip, skip_fb)
      else let block_offset = offset mod nand_erasesize nand
        in if block_isbad nand chip (block_start nand offset)
           then write_skip_loop nand buf len left (offset + (nand_erasesize nand - block_offset)) p skip_fb chip
           else if skip_fb = 1
           then write_skip_loop nand buf len left (offset + (nand_erasesize nand - block_offset)) p 0 chip
           else let write_size = (if left < nand_erasesize nand - block_offset then left
                                  else nand_erasesize nand - block_offset)
             in if length buf < p + write_size then None
                else case write_op nand offset write_size (take write_size (drop p buf)) chip of
                  (rval, write_size, chip) \<Rightarrow>
                    if rval \<noteq> 0 then Some (rval, len - left, chip, skip_fb)
                    else if len div 100 = 0 then None
                    else write_skip_loop nand buf len (left - write_size) (offset + write_size)
                      (if rw_oob nand = 1 then p + write_size + write_size div writesize nand * oobsize nand
                       else p + write_size) skip_fb chip)"

definition nand_write_skip_bad ::
    "'n nand_info \<Rightarrow> nat \<Rightarrow> nat \<Rightarrow> u8 list \<Rightarrow> nat \<Rightarrow> 'n \<Rightarrow> (int \<times> nat \<times> 'n \<times> nat) option" where
  "nand_write_skip_bad nand offset len buf skip_fb chip =
     (if rw_oob nand = 1 \<and> len mod (oobsize nand + writesize nand) \<noteq> 0
      then Some (- EINVAL, 0, chip, skip_fb)
      else if rw_oob nand \<noteq> 1 \<and> (offset mod writesize nand \<noteq> 0 \<or> len mod writesize nand \<noteq> 0)
      then Some (- EINVAL, len, chip, skip_fb)
      else let len = (if rw_oob nand = 1 then len div (writesize nand + oobsize nand) * writesize nand else len)
        in case get_len_incl_bad nand chip offset len of
          None \<Rightarrow> None
        | Some len_incl_bad \<Rightarrow>
            if nand_size nand < offset + len_incl_bad then Some (- EINVAL, len, chip, skip_fb)
            else if len_incl_bad = len \<and> rw_oob nand = 0
            then if length buf < len then None
                 else (case write_op nand offset len (take len buf) chip of
                         (rval, len, chip) \<Rightarrow> Some (rval, len, chip, skip_fb))
            else write_skip_loop nand buf len len offset 0 skip_fb chip)"

partial_function (option) read_skip_loop ::
    "'n nand_info \<Rightarrow> nat \<Rightarrow> nat \<Rightarrow> nat \<Rightarrow> nat \<Rightarrow> 'n \<Rightarrow> u8 list \<Rightarrow> (int \<times> nat \<times> u8 list) option" where
  "read_skip_loop nand len left offset p chip buf =
     (if left = 0 then Some (0, len, buf)
      else let block_offset = offset mod nand_erasesize nand
        in if block_isbad nand chip (block_start nand offset)
           then read_skip_loop nand len left (offset + (nand_erasesize nand - block_offset)) p chip buf
           else let read_length = (if left < nand_erasesize nand - block_offset then left
                                   else nand_erasesize nand - block_offset)
             in case read_op nand offset read_length chip of
                  (rval, read_length, bs) \<Rightarrow>
                    (case put_at buf p bs of
                       None \<Rightarrow> None
                     | Some buf \<Rightarrow>
                         if rval \<noteq> 0 \<and> rval \<noteq> - EUCLEAN then Some (rval, len - left, buf)
                         else read_skip_loop nand len (left - read_length) (offset + read_length)
                           (p + read_length) chip buf))"

definition nand_read_skip_bad ::
    "'n nand_info \<Rightarrow> nat \<Rightarrow> nat \<Rightarrow> 'n \<Rightarrow> u8 list \<Rightarrow> (int \<times> nat \<times> u8 list) option" where
  "nand_read_skip_bad nand offset len chip buf =
     (case get_len_incl_bad nand chip offset len of
        None \<Rightarrow> None
      | Some len_incl_bad \<Rightarrow>
          if nand_size nand < offset + len_incl_bad then Some (- EINVAL, len, buf)
          else if len_incl_bad = len
          then (case read_op nand offset len chip of
                  (rval, len, bs) \<Rightarrow>
                    map_option (\<lambda>buf. (if rval = 0 \<or> rval = - EUCLEAN then 0 else rval, len, buf)) (put_at buf 0 bs))
          else read_skip_loop nand len len offset 0 chip buf)"

section \<open>Good bytes\<close>

text \<open>The addresses from an offset to the end of the device that lie in good blocks.\<close>

definition good_addrs :: "'n nand_info \<Rightarrow> 'n \<Rightarrow> nat \<Rightarrow> nat list" where
  "good_addrs nand chip offset =
     [a \<leftarrow> [offset ..< nand_size nand]. \<not> block_isbad nand chip (block_start nand a)]"

text \<open>
  What the driver is relied on for, for the bytes \<open>cell\<close> of a chip: an access inside the device does
  all of what it is asked for, a write changes these bytes only, by clearing the bits that are clear in
  what is written (so it stores only where the flash is erased), and neither changes which blocks are bad.
\<close>

definition driver_ok :: "'n nand_info \<Rightarrow> ('n \<Rightarrow> nat \<Rightarrow> u8) \<Rightarrow> bool" where
  "driver_ok nand cell \<longleftrightarrow>
     0 < nand_erasesize nand \<and> nand_erasesize nand dvd nand_size nand \<and>
     (\<forall>offset n chip. offset + n \<le> nand_size nand \<longrightarrow>
        (\<exists>rval. (rval = 0 \<or> rval = - EUCLEAN) \<and>
          read_op nand offset n chip = (rval, n, map (cell chip) [offset ..< offset + n]))) \<and>
     (\<forall>offset n bs chip. offset + n \<le> nand_size nand \<longrightarrow> length bs = n \<longrightarrow>
        (\<exists>rval m chip'. write_op nand offset n bs chip = (rval, m, chip') \<and>
          block_isbad nand chip' = block_isbad nand chip \<and>
          (rval = 0 \<longrightarrow> m = n \<and> cell chip' = (\<lambda>a. if offset \<le> a \<and> a < offset + n then cell chip a AND bs ! (a - offset) else cell chip a))))"

section \<open>Blocks\<close>

lemma block_end_le:
  assumes "0 < es" "es dvd sz" "off < (sz :: nat)"
  shows "off + (es - off mod es) \<le> sz" "off < off + (es - off mod es)"
proof -
  obtain q where q: "sz = es * q"
    using assms(2) by blast
  have "off div es < q"
    using assms(1,3) q by (simp add: less_mult_imp_div_less mult.commute)
  then have "es * (off div es + 1) \<le> sz"
    unfolding q by (intro mult_le_mono2) simp
  moreover have "off + (es - off mod es) = es * (off div es + 1)"
  proof -
    have "off = es * (off div es) + off mod es" "off mod es < es"
      using assms(1) by simp_all
    moreover have "es * (off div es + 1) = es * (off div es) + es"
      by simp
    ultimately show ?thesis
      by linarith
  qed
  ultimately show "off + (es - off mod es) \<le> sz"
    by simp
  show "off < off + (es - off mod es)"
    using mod_less_divisor [OF assms(1), of off] by linarith
qed

lemma same_block:
  assumes "0 < es" "off \<le> a" "a < off + (es - off mod es)"
  shows "a - a mod es = off - off mod (es :: nat)"
proof -
  define d where "d = a - off"
  have d: "off mod es + d < es" "a = off + d"
    using assms mod_less_divisor [OF assms(1), of off] by (simp_all add: d_def)
  then have "a mod es = off mod es + d"
    by (metis mod_add_left_eq mod_less)
  then show ?thesis
    using d by simp
qed

lemma good_addrs_split:
  assumes "0 < nand_erasesize nand" "off + m \<le> nand_size nand"
    and "m \<le> nand_erasesize nand - off mod nand_erasesize nand"
  shows "good_addrs nand chip off =
    (if block_isbad nand chip (block_start nand off) then [] else [off ..< off + m]) @ good_addrs nand chip (off + m)"
proof -
  let ?bad = "\<lambda>a. block_isbad nand chip (block_start nand a)"
  have split: "[off ..< nand_size nand] = [off ..< off + m] @ [off + m ..< nand_size nand]"
    using upt_add_eq_append [of off "off + m" "nand_size nand - (off + m)"] assms(2)
    by (simp only: le_add1 le_add_diff_inverse)
  have "?bad a = ?bad off" if "a \<in> set [off ..< off + m]" for a
  proof -
    have "a < off + (nand_erasesize nand - off mod nand_erasesize nand)" "off \<le> a"
      using that assms(3) by (simp_all only: set_upt atLeastLessThan_iff) linarith
    then show ?thesis
      unfolding block_start_def using same_block [OF assms(1)] by (simp only:)
  qed
  then have "filter (\<lambda>a. \<not> ?bad a) [off ..< off + m] = filter (\<lambda>a. \<not> ?bad off) [off ..< off + m]"
    by (intro filter_cong refl) (simp only:)
  then show ?thesis
    unfolding good_addrs_def split filter_append by (cases "?bad off") simp_all
qed

lemma good_addrs_block:
  assumes "0 < nand_erasesize nand" "nand_erasesize nand dvd nand_size nand" "off < nand_size nand"
  defines "b \<equiv> off + (nand_erasesize nand - off mod nand_erasesize nand)"
  shows "good_addrs nand chip off =
    (if block_isbad nand chip (block_start nand off) then [] else [off ..< b]) @ good_addrs nand chip b"
  unfolding b_def by (rule good_addrs_split) (use assms block_end_le in auto)

lemma good_addrs_end: "nand_size nand \<le> off \<Longrightarrow> good_addrs nand chip off = []"
  by (simp add: good_addrs_def)

lemma good_addrs_ge: "a \<in> set (good_addrs nand chip off) \<Longrightarrow> off \<le> a"
  by (simp add: good_addrs_def)

lemma good_addrs_cong: "block_isbad nand chip' = block_isbad nand chip \<Longrightarrow> good_addrs nand chip' off = good_addrs nand chip off"
  by (simp add: good_addrs_def)

section \<open>The length with its bad blocks\<close>

text \<open>With enough good bytes the area found lies in the device and holds enough of them.\<close>

lemma len_incl_enough:
  "0 < nand_erasesize nand \<Longrightarrow> nand_erasesize nand dvd nand_size nand \<Longrightarrow>
   len - excl \<le> length (good_addrs nand chip off) \<Longrightarrow> off \<le> nand_size nand \<Longrightarrow>
   \<exists>r. len_incl_bad_loop nand chip len off incl excl = Some (incl + r) \<and> off + r \<le> nand_size nand \<and>
     len - excl \<le> length [a \<leftarrow> [off ..< off + r]. \<not> block_isbad nand chip (block_start nand a)]"
proof (induction nand chip len off incl excl rule: len_incl_bad_loop.induct)
  case (1 nand chip len off incl excl)
  define es where "es = nand_erasesize nand"
  define bad where "bad = block_isbad nand chip (block_start nand off)"
  define k where "k = es - off mod es"
  have es: "nand_erasesize nand \<noteq> 0" "0 < es" "es dvd nand_size nand"
    using "1.prems"(1,2) by (simp_all add: es_def)
  show ?case
  proof (cases "excl < len")
    case False
    then show ?thesis
      using es "1.prems"(4) by (subst len_incl_bad_loop.simps) simp
  next
    case True
    then have off: "off < nand_size nand"
      using "1.prems"(3) good_addrs_end [of nand off chip] by (cases "off < nand_size nand") auto
    note b = block_end_le [OF es(2,3) off, folded k_def]
    have split: "good_addrs nand chip off = (if bad then [] else [off ..< off + k]) @ good_addrs nand chip (off + k)"
      using good_addrs_block [OF _ _ off, of chip] es by (simp add: es_def bad_def k_def)
    define excl' where "excl' = (if bad then excl else excl + k)"
    have step: "len_incl_bad_loop nand chip len off incl excl =
        (if nand_size nand \<le> off + k then Some (incl + k) else len_incl_bad_loop nand chip len (off + k) (incl + k) excl')"
      using es True by (subst len_incl_bad_loop.simps) (simp add: es_def bad_def k_def excl'_def Let_def)
    show ?thesis
    proof (cases "nand_size nand \<le> off + k")
      case stop: True
      then have "off + k = nand_size nand"
        using b by simp
      then show ?thesis
        using step stop "1.prems"(3) by (intro exI [of _ k]) (simp add: good_addrs_def)
    next
      case more: False
      have "len - excl' \<le> length (good_addrs nand chip (off + k))"
        using "1.prems"(3) split by (auto simp: excl'_def)
      then obtain r where r: "len_incl_bad_loop nand chip len (off + k) (incl + k) excl' = Some (incl + k + r)"
          "off + k + r \<le> nand_size nand"
          "len - excl' \<le> length [a \<leftarrow> [off + k ..< off + k + r]. \<not> block_isbad nand chip (block_start nand a)]"
        using "1.IH" [OF es(1) True refl refl refl, folded es_def, folded k_def bad_def, folded excl'_def] more es(2,3)
        by auto
      have "[off ..< off + k + r] = [off ..< off + k] @ [off + k ..< off + k + r]"
        using upt_add_eq_append [of off "off + k" r] by simp
      moreover have "[a \<leftarrow> [off ..< off + k]. \<not> block_isbad nand chip (block_start nand a)] = (if bad then [] else [off ..< off + k])"
        using split b(1) upt_add_eq_append [of off "off + k" "nand_size nand - (off + k)"] by (auto simp: good_addrs_def)
      ultimately show ?thesis
        using step more r by (intro exI [of _ "k + r"]) (auto simp: excl'_def add.assoc)
    qed
  qed
qed

lemma get_len_incl_bad_enough:
  assumes "0 < nand_erasesize nand" "nand_erasesize nand dvd nand_size nand" "offset \<le> nand_size nand"
    and "n \<le> length (good_addrs nand chip offset)"
  obtains r where "get_len_incl_bad nand chip offset n = Some r" "offset + r \<le> nand_size nand"
    "r = n \<Longrightarrow> take n (good_addrs nand chip offset) = [offset ..< offset + n]"
proof -
  obtain r where r: "get_len_incl_bad nand chip offset n = Some r" "offset + r \<le> nand_size nand"
      "n \<le> length [a \<leftarrow> [offset ..< offset + r]. \<not> block_isbad nand chip (block_start nand a)]"
    using len_incl_enough [OF assms(1,2), of n 0 chip offset 0] assms(3,4) by (auto simp: get_len_incl_bad_def)
  have "take n (good_addrs nand chip offset) = [offset ..< offset + n]" if "r = n"
  proof -
    let ?f = "\<lambda>a. \<not> block_isbad nand chip (block_start nand a)"
    have "length (filter ?f [offset ..< offset + n]) = length [offset ..< offset + n]"
      using r(3) length_filter_le [of ?f "[offset ..< offset + n]"] that by simp
    then have "filter ?f [offset ..< offset + n] = [offset ..< offset + n]"
      by (metis filter_True length_filter_less less_irrefl)
    then show ?thesis
      using r(2) that upt_add_eq_append [of offset "offset + n" "nand_size nand - (offset + n)"]
      by (simp add: good_addrs_def)
  qed
  with r show thesis
    using that by blast
qed


section \<open>Writing\<close>

lemma driver_read:
  assumes "driver_ok nand cell" "offset + n \<le> nand_size nand"
  obtains rval where "rval = 0 \<or> rval = - EUCLEAN"
    "read_op nand offset n chip = (rval, n, map (cell chip) [offset ..< offset + n])"
proof -
  have "\<exists>rval. (rval = 0 \<or> rval = - EUCLEAN) \<and>
      read_op nand offset n chip = (rval, n, map (cell chip) [offset ..< offset + n])"
    using assms by (simp only: driver_ok_def)
  then show thesis
    using that by blast
qed

definition erased :: "('n \<Rightarrow> nat \<Rightarrow> u8) \<Rightarrow> 'n \<Rightarrow> nat list \<Rightarrow> bool" where
  "erased cell chip addrs \<longleftrightarrow> (\<forall>a \<in> set addrs. cell chip a = 0xff)"

lemma and_all_ones: "0xff AND b = (b :: u8)"
proof -
  have "(0xff :: u8) = - 1" by simp
  then show ?thesis by (simp only: and.left_neutral)
qed

lemma driver_write:
  assumes "driver_ok nand cell" "offset + n \<le> nand_size nand" "length bs = n" "erased cell chip [offset ..< offset + n]"
  obtains rval m chip' where "write_op nand offset n bs chip = (rval, m, chip')"
    "block_isbad nand chip' = block_isbad nand chip"
    "rval = 0 \<Longrightarrow> m = n" "rval = 0 \<Longrightarrow> map (cell chip') [offset ..< offset + n] = bs"
    "\<And>a. rval = 0 \<Longrightarrow> a < offset \<or> offset + n \<le> a \<Longrightarrow> cell chip' a = cell chip a"
proof -
  have "\<exists>rval m chip'. write_op nand offset n bs chip = (rval, m, chip') \<and>
      block_isbad nand chip' = block_isbad nand chip \<and>
      (rval = 0 \<longrightarrow> m = n \<and> cell chip' = (\<lambda>a. if offset \<le> a \<and> a < offset + n then cell chip a AND bs ! (a - offset) else cell chip a))"
    using assms by (simp only: driver_ok_def)
  then obtain rval m chip' where w: "write_op nand offset n bs chip = (rval, m, chip')"
      "block_isbad nand chip' = block_isbad nand chip"
      "rval = 0 \<longrightarrow> m = n \<and> cell chip' = (\<lambda>a. if offset \<le> a \<and> a < offset + n then cell chip a AND bs ! (a - offset) else cell chip a)"
    by blast
  have "map (cell chip') [offset ..< offset + n] = bs" if "rval = 0"
    using w(3) that assms(3,4) by (intro nth_equalityI) (auto simp: erased_def and_all_ones)
  with w(3) show thesis
    by (intro that [OF w(1,2)]) auto
qed

text \<open>The bytes at the next good addresses are those of the buffer, and all others as they were.\<close>

definition stored :: "('n \<Rightarrow> nat \<Rightarrow> u8) \<Rightarrow> nat list \<Rightarrow> u8 list \<Rightarrow> 'n \<Rightarrow> 'n \<Rightarrow> bool" where
  "stored cell addrs bs chip chip' \<longleftrightarrow>
     map (cell chip') addrs = bs \<and> (\<forall>a. a \<notin> set addrs \<longrightarrow> cell chip' a = cell chip a)"

lemma write_skip_loop_stores:
  assumes "driver_ok nand cell" "rw_oob nand \<noteq> 1"
  shows "left \<le> length (good_addrs nand chip off) \<Longrightarrow> off \<le> nand_size nand \<Longrightarrow> p + left \<le> length buf \<Longrightarrow>
    left = 0 \<or> 100 \<le> len \<Longrightarrow> erased cell chip (take left (good_addrs nand chip off)) \<Longrightarrow>
    \<exists>rval len' chip'. write_skip_loop nand buf len left off p 0 chip = Some (rval, len', chip', 0) \<and>
      (rval = 0 \<longrightarrow> len' = len \<and> block_isbad nand chip' = block_isbad nand chip \<and>
        stored cell (take left (good_addrs nand chip off)) (take left (drop p buf)) chip chip')"
proof (induction "nand_size nand - off" arbitrary: left off p chip rule: less_induct)
  case less
  define k where "k = nand_erasesize nand - off mod nand_erasesize nand"
  have es: "0 < nand_erasesize nand" "nand_erasesize nand dvd nand_size nand"
    using assms(1) by (simp_all add: driver_ok_def)
  show ?case
  proof (cases "left = 0")
    case True
    then show ?thesis
      by (subst write_skip_loop.simps) (simp add: stored_def)
  next
    case False
    then have off: "off < nand_size nand"
      using less.prems(1) good_addrs_end [of nand off chip] by (cases "off < nand_size nand") auto
    note b = block_end_le [OF es off, folded k_def]
    show ?thesis
    proof (cases "block_isbad nand chip (block_start nand off)")
      case True
      have "good_addrs nand chip off = good_addrs nand chip (off + k)"
        using good_addrs_block [OF es off, of chip] True by (simp add: k_def)
      moreover have "write_skip_loop nand buf len left off p 0 chip = write_skip_loop nand buf len left (off + k) p 0 chip"
        using False True by (subst write_skip_loop.simps) (simp add: k_def)
      ultimately show ?thesis
        using less.hyps [of "off + k" left chip p] less.prems b off by simp
    next
      case good: False
      define m where "m = (if left < k then left else k)"
      have m: "0 < m" "m \<le> left" "m \<le> k"
        using False b by (auto simp: m_def)
      have split: "good_addrs nand chip off = [off ..< off + m] @ good_addrs nand chip (off + m)"
        using good_addrs_split [OF es(1), of off m chip] good b(1) m(3) by (simp add: k_def)
      have fits: "off + m \<le> nand_size nand" "length (take m (drop p buf)) = m"
        using b m less.prems(3) by simp_all
      have addrs: "take left (good_addrs nand chip off) = [off ..< off + m] @ take (left - m) (good_addrs nand chip (off + m))"
        using m(2) by (simp add: split)
      have empty: "erased cell chip [off ..< off + m]" "erased cell chip (take (left - m) (good_addrs nand chip (off + m)))"
        using less.prems(5) unfolding addrs by (auto simp: erased_def)
      obtain rval w chip1 where w: "write_op nand off m (take m (drop p buf)) chip = (rval, w, chip1)"
          "block_isbad nand chip1 = block_isbad nand chip" "rval = 0 \<Longrightarrow> w = m"
          "rval = 0 \<Longrightarrow> map (cell chip1) [off ..< off + m] = take m (drop p buf)"
          "\<And>a. rval = 0 \<Longrightarrow> a < off \<or> off + m \<le> a \<Longrightarrow> cell chip1 a = cell chip a"
        using driver_write [OF assms(1) fits empty(1)] by metis
      have "len div 100 \<noteq> 0" using less.prems(4) False by auto
      then have step: "write_skip_loop nand buf len left off p 0 chip =
          (if rval \<noteq> 0 then Some (rval, len - left, chip1, 0)
           else write_skip_loop nand buf len (left - m) (off + m) (p + m) 0 chip1)"
        using False good w(1,3) assms(2) less.prems(3) m
        by (subst write_skip_loop.simps) (auto simp: m_def k_def Let_def)
      show ?thesis
      proof (cases "rval = 0")
        case True
        have next_addrs: "good_addrs nand chip1 (off + m) = good_addrs nand chip (off + m)"
          by (rule good_addrs_cong [OF w(2)])
        have "cell chip1 a = 0xff" if "a \<in> set (take (left - m) (good_addrs nand chip (off + m)))" for a
        proof -
          have "off + m \<le> a" using that good_addrs_ge [of a nand chip "off + m"] by (auto dest: in_set_takeD)
          then show ?thesis using w(5) [OF True] empty(2) that by (auto simp: erased_def)
        qed
        then have "erased cell chip1 (take (left - m) (good_addrs nand chip1 (off + m)))"
          by (simp add: erased_def next_addrs)
        moreover have "left - m \<le> length (good_addrs nand chip1 (off + m))"
          using less.prems(1) split next_addrs by simp
        moreover have "nand_size nand - (off + m) < nand_size nand - off"
          using m(1) fits(1) by linarith
        ultimately obtain rval' len' chip' where rest:
            "write_skip_loop nand buf len (left - m) (off + m) (p + m) 0 chip1 = Some (rval', len', chip', 0)"
            "rval' = 0 \<longrightarrow> len' = len \<and> block_isbad nand chip' = block_isbad nand chip1 \<and>
              stored cell (take (left - m) (good_addrs nand chip (off + m))) (take (left - m) (drop (p + m) buf)) chip1 chip'"
          using less.hyps [of "off + m" "left - m" chip1 "p + m"] less.prems m off fits next_addrs by auto
        have bytes: "take left (drop p buf) = take m (drop p buf) @ take (left - m) (drop (p + m) buf)"
          using m(2) by (metis add.commute drop_drop le_add_diff_inverse take_add)
        have "stored cell (take left (good_addrs nand chip off)) (take left (drop p buf)) chip chip'"
          if st: "stored cell (take (left - m) (good_addrs nand chip (off + m))) (take (left - m) (drop (p + m) buf)) chip1 chip'"
        proof -
          have "a \<notin> set (take (left - m) (good_addrs nand chip (off + m)))" if "a < off + m" for a
            using that good_addrs_ge [of a nand chip "off + m"] by (auto dest: in_set_takeD)
          then have "cell chip' a = cell chip1 a" if "a < off + m" for a
            using st that by (simp add: stored_def)
          then have "map (cell chip') [off ..< off + m] = map (cell chip1) [off ..< off + m]"
            by (intro map_cong refl) simp
          then have "map (cell chip') [off ..< off + m] = take m (drop p buf)"
            using w(4) True by simp
          then show ?thesis
            using st w(5) True unfolding addrs bytes by (auto simp: stored_def)
        qed
        then show ?thesis
          using step True rest w(2) by auto
      qed (use step in auto)
    qed
  qed
qed

lemma write_skip_bad_stores:
  assumes "driver_ok nand cell" "rw_oob nand = 0" "offset \<le> nand_size nand" "len \<le> length buf"
    and aligned: "offset mod writesize nand = 0" "len mod writesize nand = 0"
    and enough: "len \<le> length (good_addrs nand chip offset)"
    and long: "len = 0 \<or> 100 \<le> len" and empty: "erased cell chip (take len (good_addrs nand chip offset))"
  shows "\<exists>rval len' chip'. nand_write_skip_bad nand offset len buf 0 chip = Some (rval, len', chip', 0) \<and>
    (rval = 0 \<longrightarrow> len' = len \<and> block_isbad nand chip' = block_isbad nand chip \<and>
      stored cell (take len (good_addrs nand chip offset)) (take len buf) chip chip')"
proof -
  have es: "0 < nand_erasesize nand" "nand_erasesize nand dvd nand_size nand"
    using assms(1) by (simp_all add: driver_ok_def)
  obtain r where r: "get_len_incl_bad nand chip offset len = Some r" "offset + r \<le> nand_size nand"
      "r = len \<Longrightarrow> take len (good_addrs nand chip offset) = [offset ..< offset + len]"
    using get_len_incl_bad_enough [OF es assms(3) enough] by metis
  show ?thesis
  proof (cases "r = len")
    case True
    obtain rval m chip' where w: "write_op nand offset len (take len buf) chip = (rval, m, chip')"
        "block_isbad nand chip' = block_isbad nand chip" "rval = 0 \<Longrightarrow> m = len"
        "rval = 0 \<Longrightarrow> map (cell chip') [offset ..< offset + len] = take len buf"
        "\<And>a. rval = 0 \<Longrightarrow> a < offset \<or> offset + len \<le> a \<Longrightarrow> cell chip' a = cell chip a"
      using driver_write [OF assms(1), of offset len "take len buf"] r(2) True assms(4) empty [unfolded r(3) [OF True]] by (metis length_take min_absorb2)
    have "nand_write_skip_bad nand offset len buf 0 chip = Some (rval, m, chip', 0)"
      using r(1,2) True assms(2,4) aligned w(1) by (simp add: nand_write_skip_bad_def)
    moreover have "stored cell [offset ..< offset + len] (take len buf) chip chip'" if "rval = 0"
      using w(4,5) that by (auto simp: stored_def)
    ultimately show ?thesis
      using w(2,3) r(3) True by simp
  next
    case False
    have "nand_write_skip_bad nand offset len buf 0 chip = write_skip_loop nand buf len len offset 0 0 chip"
      using r(1,2) False assms(2) aligned by (simp add: nand_write_skip_bad_def)
    then show ?thesis
      using write_skip_loop_stores [OF assms(1) _ enough assms(3) _ long empty, of 0 buf] assms(2,4) by simp
  qed
qed

section \<open>Reading\<close>

lemma read_skip_loop_loads:
  assumes "driver_ok nand cell"
  shows "left \<le> length (good_addrs nand chip off) \<Longrightarrow> off \<le> nand_size nand \<Longrightarrow> p + left \<le> length buf \<Longrightarrow>
    read_skip_loop nand len left off p chip buf =
      Some (0, len, take p buf @ map (cell chip) (take left (good_addrs nand chip off)) @ drop (p + left) buf)"
proof (induction "nand_size nand - off" arbitrary: left off p buf rule: less_induct)
  case less
  define k where "k = nand_erasesize nand - off mod nand_erasesize nand"
  have es: "0 < nand_erasesize nand" "nand_erasesize nand dvd nand_size nand"
    using assms(1) by (simp_all add: driver_ok_def)
  show ?case
  proof (cases "left = 0")
    case True
    then show ?thesis
      by (subst read_skip_loop.simps) simp
  next
    case False
    then have off: "off < nand_size nand"
      using less.prems(1) good_addrs_end [of nand off chip] by (cases "off < nand_size nand") auto
    note b = block_end_le [OF es off, folded k_def]
    show ?thesis
    proof (cases "block_isbad nand chip (block_start nand off)")
      case True
      have "good_addrs nand chip off = good_addrs nand chip (off + k)"
        using good_addrs_block [OF es off, of chip] True by (simp add: k_def)
      moreover have "read_skip_loop nand len left off p chip buf = read_skip_loop nand len left (off + k) p chip buf"
        using False True by (subst read_skip_loop.simps) (simp add: k_def)
      ultimately show ?thesis
        using less.hyps [of "off + k" left p buf] less.prems b off by simp
    next
      case good: False
      define m where "m = (if left < k then left else k)"
      have m: "0 < m" "m \<le> left" "m \<le> k"
        using False b by (auto simp: m_def)
      have split: "good_addrs nand chip off = [off ..< off + m] @ good_addrs nand chip (off + m)"
        using good_addrs_split [OF es(1), of off m chip] good b(1) m(3) by (simp add: k_def)
      have fits: "off + m \<le> nand_size nand"
        using b m by simp
      obtain rval where r: "rval = 0 \<or> rval = - EUCLEAN"
          "read_op nand off m chip = (rval, m, map (cell chip) [off ..< off + m])"
        using driver_read [OF assms(1) fits] by metis
      define buf1 where "buf1 = take p buf @ map (cell chip) [off ..< off + m] @ drop (p + m) buf"
      have put: "put_at buf p (map (cell chip) [off ..< off + m]) = Some buf1"
        using less.prems(3) m(2) by (simp add: put_at_def buf1_def)
      have step: "read_skip_loop nand len left off p chip buf =
          read_skip_loop nand len (left - m) (off + m) (p + m) chip buf1"
        using False good r put by (subst read_skip_loop.simps) (auto simp: m_def k_def Let_def)
      have "nand_size nand - (off + m) < nand_size nand - off"
        using m(1) fits by linarith
      moreover have "left - m \<le> length (good_addrs nand chip (off + m))" "p + m + (left - m) \<le> length buf1"
        using less.prems(1,3) split m(2) by (simp_all add: buf1_def)
      ultimately have "read_skip_loop nand len (left - m) (off + m) (p + m) chip buf1 = Some (0, len,
          take (p + m) buf1 @ map (cell chip) (take (left - m) (good_addrs nand chip (off + m))) @ drop (p + left) buf1)"
        using less.hyps [of "off + m" "left - m" "p + m" buf1] fits m(2) by simp
      moreover have "take (p + m) buf1 = take p buf @ map (cell chip) [off ..< off + m]"
        "drop (p + left) buf1 = drop (p + left) buf"
        using less.prems(3) m(2) by (simp_all add: buf1_def add.commute)
      ultimately show ?thesis
        using step m(2) by (simp add: split)
    qed
  qed
qed

lemma read_skip_bad_loads:
  assumes "driver_ok nand cell" "offset \<le> nand_size nand" "len \<le> length buf"
    and enough: "len \<le> length (good_addrs nand chip offset)"
  shows "nand_read_skip_bad nand offset len chip buf =
    Some (0, len, map (cell chip) (take len (good_addrs nand chip offset)) @ drop len buf)"
proof -
  have es: "0 < nand_erasesize nand" "nand_erasesize nand dvd nand_size nand"
    using assms(1) by (simp_all add: driver_ok_def)
  obtain r where r: "get_len_incl_bad nand chip offset len = Some r" "offset + r \<le> nand_size nand"
      "r = len \<Longrightarrow> take len (good_addrs nand chip offset) = [offset ..< offset + len]"
    using get_len_incl_bad_enough [OF es assms(2) enough] by metis
  show ?thesis
  proof (cases "r = len")
    case True
    obtain rval where "rval = 0 \<or> rval = - EUCLEAN"
        "read_op nand offset len chip = (rval, len, map (cell chip) [offset ..< offset + len])"
      using driver_read [OF assms(1), of offset len chip] r(2) True by metis
    then show ?thesis
      using r True assms(3) by (auto simp: nand_read_skip_bad_def put_at_def)
  next
    case False
    then show ?thesis
      using r(1,2) read_skip_loop_loads [OF assms(1) enough assms(2), of 0 buf len] assms(3)
      by (simp add: nand_read_skip_bad_def)
  qed
qed


text \<open>C13:
  As long as there are enough good bytes behind the offset, erased before as flash must be, and the length
  is not below 100 (for which the progress message divides by 0), writing around bad blocks returns; if
  it reports success it has changed exactly the next good bytes, and reading the same area back
  gives what was written, whichever blocks are bad.
\<close>

theorem skip_bad_roundtrip:
  assumes "driver_ok nand cell" "rw_oob nand = 0" "offset \<le> nand_size nand" "len \<le> length buf" "len \<le> length buf2"
    and "offset mod writesize nand = 0" "len mod writesize nand = 0" "len \<le> length (good_addrs nand chip offset)"
    and "len = 0 \<or> 100 \<le> len" "\<forall>a \<in> set (take len (good_addrs nand chip offset)). cell chip a = 0xff"
  shows "\<exists>rval len' chip'. nand_write_skip_bad nand offset len buf 0 chip = Some (rval, len', chip', 0) \<and>
    (rval = 0 \<longrightarrow> len' = len \<and>
      (\<forall>a. a \<notin> set (take len (good_addrs nand chip offset)) \<longrightarrow> cell chip' a = cell chip a) \<and>
      nand_read_skip_bad nand offset len chip' buf2 = Some (0, len, take len buf @ drop len buf2))"
proof -
  obtain rval len' chip' where w: "nand_write_skip_bad nand offset len buf 0 chip = Some (rval, len', chip', 0)"
      "rval = 0 \<longrightarrow> len' = len \<and> block_isbad nand chip' = block_isbad nand chip \<and>
        stored cell (take len (good_addrs nand chip offset)) (take len buf) chip chip'"
    using write_skip_bad_stores [OF assms(1,2,3,4,6,7,8,9)] assms(10) unfolding erased_def by blast
  have "nand_read_skip_bad nand offset len chip' buf2 = Some (0, len, take len buf @ drop len buf2)" if "rval = 0"
    using read_skip_bad_loads [OF assms(1,3,5), of chip'] good_addrs_cong [of nand chip' chip offset] w(2) that assms(8)
    by (simp add: stored_def)
  with w show ?thesis
    by (auto simp: stored_def)
qed

text \<open>
  A chip of four blocks of 64 bytes with pages of 32, the second block bad: 128 bytes from the second page on
  go around it.  A write of one page of 32 bytes from there needs no detour; of 64, the loop hangs after its first
  write.\<close>

definition paged_chip :: "(nat \<Rightarrow> u8) nand_info" where
  "paged_chip = \<lparr>nand_size = 256, nand_erasesize = 64, writesize = 32, oobsize = 0, rw_oob = 0,
     block_isbad = (\<lambda>chip off. off = 64),
     write_op = (\<lambda>off n bs chip. (0, n, \<lambda>a. if off \<le> a \<and> a < off + n then chip a AND bs ! (a - off) else chip a)),
     read_op = (\<lambda>off n chip. (0, n, map chip [off ..< off + n]))\<rparr>"

lemma paged_chip_ok: "driver_ok paged_chip (\<lambda>chip. chip)"
  by (simp add: driver_ok_def paged_chip_def)

lemma paged_chip_good: "good_addrs paged_chip chip 32 = [32 ..< 64] @ [128 ..< 256]"
proof -
  have split: "[32 ..< 256] = [32 ..< 64] @ [64 ..< 128] @ [128 ..< (256 :: nat)]"
    using upt_add_eq_append [of 32 64 192] upt_add_eq_append [of 64 128 128] by simp
  have div: "a - a mod 64 = 64 \<longleftrightarrow> 64 \<le> a \<and> a < 128" for a :: nat
  proof -
    have "64 * q = 64 \<longleftrightarrow> 64 \<le> 64 * q + r \<and> 64 * q + r < 128" if "r < 64" for q r :: nat
      using that by arith
    from this [of "a mod 64" "a div 64"] show ?thesis
      by (simp add: minus_mod_eq_mult_div)
  qed
  have "filter (\<lambda>a. \<not> (64 \<le> a \<and> a < 128)) [32 ..< 64] = [32 ..< 64]"
    "filter (\<lambda>a. \<not> (64 \<le> a \<and> a < 128)) [64 ..< 128] = []"
    "filter (\<lambda>a. \<not> (64 \<le> a \<and> a < 128)) [128 ..< 256] = [128 ..< (256 :: nat)]"
    by (simp_all add: filter_True filter_False del: upt_conv_Cons_Cons)
  then show ?thesis
    by (simp only: good_addrs_def block_start_def paged_chip_def nand_info.simps div split filter_append) simp
qed

lemma short_write_hangs:
  "nand_write_skip_bad paged_chip 32 64 (replicate 64 7) 0 (\<lambda>_. 0xff) = None"
proof -
  let ?chip = "\<lambda>_. 0xff :: u8" and ?buf = "replicate 64 (7 :: u8)"
  have chip: "nand_size paged_chip = 256" "nand_erasesize paged_chip = 64" "writesize paged_chip = 32" "rw_oob paged_chip = 0"
    "\<And>c. block_isbad paged_chip c = (\<lambda>off. off = 64)"
    "\<And>off n bs c. write_op paged_chip off n bs c = (0, n, \<lambda>a. if off \<le> a \<and> a < off + n then c a AND bs ! (a - off) else c a)"
    by (simp_all add: paged_chip_def)
  have "get_len_incl_bad paged_chip ?chip 32 64 = Some 160"
    unfolding get_len_incl_bad_def by (subst len_incl_bad_loop.simps, simp add: chip(1,2,5) block_start_def)+
  moreover have "write_skip_loop paged_chip ?buf 64 64 32 0 0 ?chip = None"
    by (subst write_skip_loop.simps) (simp add: chip block_start_def)
  ultimately show ?thesis by (simp add: nand_write_skip_bad_def chip)
qed

theorem skip_bad_roundtrip_witness:
  "\<exists>rval len' chip'. nand_write_skip_bad paged_chip 32 128 (map of_nat [0 ..< 128]) 0 (\<lambda>_. 0xff) = Some (rval, len', chip', 0) \<and>
    (rval = 0 \<longrightarrow> len' = 128 \<and>
      (\<forall>a. a \<notin> set (take 128 (good_addrs paged_chip (\<lambda>_. 0xff) 32)) \<longrightarrow> chip' a = 0xff) \<and>
      nand_read_skip_bad paged_chip 32 128 chip' (replicate 128 0)
        = Some (0, 128, take 128 (map of_nat [0 ..< 128]) @ drop 128 (replicate 128 0)))"
  by (rule skip_bad_roundtrip [OF paged_chip_ok]) (simp_all add: paged_chip_good, simp_all add: paged_chip_def)

text \<open>A chip of four blocks of four bytes, the second of them bad.\<close>

definition small_chip :: "(nat \<Rightarrow> u8) nand_info" where
  "small_chip = \<lparr>nand_size = 16, nand_erasesize = 4, writesize = 2, oobsize = 0, rw_oob = 0,
     block_isbad = (\<lambda>chip off. off = 4),
     write_op = (\<lambda>off n bs chip. (0, n, \<lambda>a. if off \<le> a \<and> a < off + n then chip a AND bs ! (a - off) else chip a)),
     read_op = (\<lambda>off n chip. (0, n, map chip [off ..< off + n]))\<rparr>"

section \<open>When there are not enough good blocks\<close>

lemma len_incl_short:
  "0 < nand_erasesize nand \<Longrightarrow> nand_erasesize nand dvd nand_size nand \<Longrightarrow>
   excl + length (good_addrs nand chip off) < len \<Longrightarrow> off < nand_size nand \<Longrightarrow>
   len_incl_bad_loop nand chip len off incl excl = Some (incl + (nand_size nand - off))"
proof (induction nand chip len off incl excl rule: len_incl_bad_loop.induct)
  case (1 nand chip len off incl excl)
  define es where "es = nand_erasesize nand"
  define bad where "bad = block_isbad nand chip (block_start nand off)"
  define k where "k = es - off mod es"
  have es: "nand_erasesize nand \<noteq> 0" "0 < es" "es dvd nand_size nand"
    using "1.prems"(1,2) by (simp_all add: es_def)
  have True: "excl < len"
    using "1.prems"(3) by simp
  note b = block_end_le [OF es(2,3) "1.prems"(4), folded k_def]
  have split: "good_addrs nand chip off = (if bad then [] else [off ..< off + k]) @ good_addrs nand chip (off + k)"
    using good_addrs_block [OF _ _ "1.prems"(4), of chip] es by (simp add: es_def bad_def k_def)
  define excl' where "excl' = (if bad then excl else excl + k)"
  have step: "len_incl_bad_loop nand chip len off incl excl =
      (if nand_size nand \<le> off + k then Some (incl + k) else len_incl_bad_loop nand chip len (off + k) (incl + k) excl')"
    using es True by (subst len_incl_bad_loop.simps) (simp add: es_def bad_def k_def excl'_def Let_def)
  show ?case
  proof (cases "nand_size nand \<le> off + k")
    case stop: True
    then show ?thesis
      using step b by simp
  next
    case more: False
    have "excl' + length (good_addrs nand chip (off + k)) < len"
      using "1.prems"(3) split by (auto simp: excl'_def)
    then have "len_incl_bad_loop nand chip len (off + k) (incl + k) excl' = Some (incl + k + (nand_size nand - (off + k)))"
      using "1.IH" [OF es(1) True refl refl refl, folded es_def, folded k_def bad_def, folded excl'_def] more es(2,3) by auto
    then show ?thesis
      using step more by simp
  qed
qed

text \<open>C36:
  If an area that ends with the device holds bad blocks, the length including them comes out as the
  length itself: the area counts as free of bad blocks and one single write goes straight through
  them, with the driver's answer as the result.
\<close>

theorem bad_blocks_at_the_end_are_written:
  assumes "0 < nand_erasesize nand" "nand_erasesize nand dvd nand_size nand" "rw_oob nand = 0"
    and "offset mod writesize nand = 0" "len mod writesize nand = 0" "len \<le> length buf"
    and "offset + len = nand_size nand" "a \<in> {offset ..< nand_size nand}" "block_isbad nand chip (block_start nand a)"
  shows "nand_write_skip_bad nand offset len buf skip_fb chip =
    (case write_op nand offset len (take len buf) chip of (rval, n, chip') \<Rightarrow> Some (rval, n, chip', skip_fb))"
proof -
  have "length (good_addrs nand chip offset) < length [offset ..< nand_size nand]"
    unfolding good_addrs_def by (rule length_filter_less [of a]) (use assms(8,9) in auto)
  then have "get_len_incl_bad nand chip offset len = Some len"
    using len_incl_short [OF assms(1,2), of 0 chip offset len 0] assms(7,8) by (auto simp: get_len_incl_bad_def)
  then show ?thesis
    using assms by (simp add: nand_write_skip_bad_def)
qed

theorem bad_blocks_at_the_end_are_written_witness:
  "nand_write_skip_bad small_chip 0 16 (replicate 16 7) 0 (\<lambda>_. 0xff) =
    (case write_op small_chip 0 16 (take 16 (replicate 16 7)) (\<lambda>_. 0xff) of (rval, n, chip') \<Rightarrow> Some (rval, n, chip', 0))"
  by (rule bad_blocks_at_the_end_are_written [where a = 4])
    (simp_all add: small_chip_def block_start_def)



end
