(* ===== verification/Ram.thy ===== *)
theory Ram
  imports Env CString
begin

text \<open>
  The address space the loaders work on: a partial function from 32-bit addresses to bytes, where
  \<^verbatim>\<open>None\<close> is an address without memory behind it, whose access is a fault.  Address arithmetic wraps as
  on the machine.  A block of memory is loaded and stored byte by byte; \<^verbatim>\<open>memmove\<close> and \<^verbatim>\<open>memcpy\<close>
  between blocks are a load followed by a store, which is what \<^verbatim>\<open>memmove\<close> guarantees
  (\<^verbatim>\<open>CString\<close>).  The closed forms below reduce every proof about blocks to one comparison of offsets.
\<close>

type_synonym ram = "u32 \<Rightarrow> u8 option"

fun ram_load :: "ram \<Rightarrow> u32 \<Rightarrow> nat \<Rightarrow> u8 list option" where
  "ram_load m a 0 = Some []"
| "ram_load m a (Suc n) = do {
     b \<leftarrow> m a;
     bs \<leftarrow> ram_load m (a + 1) n;
     Some (b # bs)
   }"

fun ram_store :: "ram \<Rightarrow> u32 \<Rightarrow> u8 list \<Rightarrow> ram option" where
  "ram_store m a [] = Some m"
| "ram_store m a (b # bs) = (if m a = None then None else ram_store (m(a \<mapsto> b)) (a + 1) bs)"

definition ram_memmove :: "ram \<Rightarrow> u32 \<Rightarrow> u32 \<Rightarrow> u32 \<Rightarrow> ram option" where
  "ram_memmove m dst src n = do {
     bs \<leftarrow> ram_load m src (unat n);
     ram_store m dst bs
   }"

text \<open>A word of memory, lowest byte first.\<close>

definition bytes_word :: "u8 list \<Rightarrow> u32" where
  "bytes_word bs = ucast (bs ! 0) OR push_bit 8 (ucast (bs ! 1)) OR push_bit 16 (ucast (bs ! 2))
     OR push_bit 24 (ucast (bs ! 3))"

definition ram_word :: "ram \<Rightarrow> u32 \<Rightarrow> u32 option" where
  "ram_word m a = map_option bytes_word (ram_load m a 4)"

definition ram_set_word :: "ram \<Rightarrow> u32 \<Rightarrow> u32 \<Rightarrow> ram option" where
  "ram_set_word m a w = ram_store m a (word_bytes w)"

section \<open>Words and their bytes\<close>

lemma word_bytes_length [simp]: "length (word_bytes w) = 4"
  by (simp add: word_bytes_def)

lemma bytes_word_bytes [simp]: "bytes_word (word_bytes w) = w"
proof (rule bit_word_eqI)
  fix n :: nat assume "n < LENGTH(32)"
  then consider "n < 8" | "8 \<le> n" "n < 16" | "16 \<le> n" "n < 24" | "24 \<le> n" "n < 32"
    by fastforce
  then show "bit (bytes_word (word_bytes w)) n = bit w n"
    by cases (auto simp: bytes_word_def word_bytes_def bit_simps less_diff_conv2)
qed

lemma word_bytes_word: "length bs = 4 \<Longrightarrow> word_bytes (bytes_word bs) = bs"
proof -
  assume "length bs = 4"
  then obtain a b c d where bs: "bs = [a, b, c, d]"
    by (auto simp: numeral_eq_Suc length_Suc_conv)
  show ?thesis
    unfolding bs word_bytes_def bytes_word_def
    by (auto intro!: bit_word_eqI simp: bit_simps)
qed

lemma htonl_bits:
  assumes "n < 32"
  shows "bit (htonl w) n = bit w (if n < 8 then 24 + n else if n < 16 then 8 + n else if n < 24 then n - 8 else n - 24)"
proof -
  have m: "(0x00ff0000 :: u32) = push_bit 16 (mask 8)" "(0x0000ff00 :: u32) = push_bit 8 (mask 8)"
    by (simp_all add: mask_eq_exp_minus_1)
  from assms consider "n < 8" | "8 \<le> n" "n < 16" | "16 \<le> n" "n < 24" | "24 \<le> n"
    by fastforce
  then show ?thesis
    using assms unfolding htonl_def m by cases (auto simp: bit_simps less_diff_conv2)
qed

lemma htonl_htonl [simp]: "htonl (htonl w) = w"
proof (rule bit_word_eqI)
  fix n :: nat assume "n < LENGTH(32)"
  then consider "n < 8" | "8 \<le> n" "n < 16" | "16 \<le> n" "n < 24" | "24 \<le> n" "n < 32"
    by fastforce
  then show "bit (htonl (htonl w)) n = bit w n"
    by cases (simp_all add: htonl_bits)
qed


lemma htonl_eq_iff: "htonl a = htonl b \<longleftrightarrow> a = b"
  by (metis htonl_htonl)

section \<open>Blocks of memory\<close>

lemma ram_load_eq:
  "ram_load m a n = Some bs \<longleftrightarrow> length bs = n \<and> (\<forall>i<n. m (a + of_nat i) = Some (bs ! i))"
proof (induction n arbitrary: a bs)
  case (Suc n)
  show ?case
  proof (cases bs)
    case (Cons b bs')
    have shift: "(\<forall>i<Suc n. m (a + of_nat i) = Some (bs ! i)) \<longleftrightarrow>
        m a = Some b \<and> (\<forall>i<n. m (a + 1 + of_nat i) = Some (bs' ! i))"
      unfolding Cons by (subst All_less_Suc2) (simp add: add.assoc)
    show ?thesis
      using Suc.IH [of "a + 1" bs'] unfolding shift by (auto simp: Cons bind_eq_Some_conv)
  qed (auto simp: bind_eq_Some_conv)
qed auto

lemma ram_load_length: "ram_load m a n = Some bs \<Longrightarrow> length bs = n"
  by (simp add: ram_load_eq)

lemma ram_load_append:
  "ram_load m a (n + k) = do { xs \<leftarrow> ram_load m a n; ys \<leftarrow> ram_load m (a + of_nat n) k; Some (xs @ ys) }"
  by (induction n arbitrary: a) (auto simp: bind_eq_None_conv add.assoc split: bind_splits)

lemma ram_load_appendI:
  "ram_load m a (length (xs @ ys)) = Some (xs @ ys) \<longleftrightarrow>
     ram_load m a (length xs) = Some xs \<and> ram_load m (a + of_nat (length xs)) (length ys) = Some ys"
  by (auto simp: ram_load_append bind_eq_Some_conv dest: ram_load_length)

text \<open>An address at offset less than \<open>n\<close> from \<open>a\<close>; a block may wrap around the end of memory.\<close>

definition in_block :: "u32 \<Rightarrow> nat \<Rightarrow> u32 \<Rightarrow> bool" where
  "in_block a n x \<longleftrightarrow> unat (x - a) < n"

lemma in_block_offset:
  "in_block a n x \<longleftrightarrow> (\<exists>i<n. x = a + of_nat i \<and> i < 2 ^ 32)"
proof
  assume "in_block a n x"
  then show "\<exists>i<n. x = a + of_nat i \<and> i < 2 ^ 32"
    by (intro exI [of _ "unat (x - a)"]) (simp add: in_block_def)
qed (auto simp: in_block_def)

lemma ram_store_eq:
  assumes "length bs \<le> 2 ^ 32"
  shows "ram_store m a bs =
    (if \<forall>i<length bs. m (a + of_nat i) \<noteq> None
     then Some (\<lambda>x. if in_block a (length bs) x then Some (bs ! unat (x - a)) else m x)
     else None)"
  using assms
proof (induction bs arbitrary: m a)
  case (Cons b bs)
  let ?m = "m(a \<mapsto> b)"
  have dom: "(\<forall>i<length (b # bs). m (a + of_nat i) \<noteq> None) \<longleftrightarrow>
      m a \<noteq> None \<and> (\<forall>i<length bs. ?m (a + 1 + of_nat i) \<noteq> None)"
    by (subst length_Cons, subst All_less_Suc2) (auto simp: add.assoc, metis add.right_neutral)
  have off: "unat (x - a) = Suc (unat (x - (a + 1)))" if "x \<noteq> a" for x :: u32
  proof -
    have "x - a = 1 + (x - (a + 1))" by simp
    moreover have "1 + (x - (a + 1)) \<noteq> 0" using that by (metis calculation right_minus_eq)
    ultimately show ?thesis by (metis unatSuc)
  qed
  have out: "\<not> in_block (a + 1) (length bs) a"
  proof -
    have "a - (a + 1) = (- 1 :: u32)" by simp
    moreover have "unat (- 1 :: u32) = 4294967295" by (simp add: unsigned_minus_1_eq_mask mask_eq_exp_minus_1)
    ultimately have "unat (a - (a + 1)) = 4294967295" by simp
    then show ?thesis using Cons.prems by (simp add: in_block_def)
  qed
  have eq: "(\<lambda>x. if in_block (a + 1) (length bs) x then Some (bs ! unat (x - (a + 1))) else ?m x) =
      (\<lambda>x. if in_block a (length (b # bs)) x then Some ((b # bs) ! unat (x - a)) else m x)"
  proof
    fix x
    show "(if in_block (a + 1) (length bs) x then Some (bs ! unat (x - (a + 1))) else ?m x) =
        (if in_block a (length (b # bs)) x then Some ((b # bs) ! unat (x - a)) else m x)"
      using out off [of x] by (cases "x = a") (auto simp: in_block_def)
  qed
  have "length bs \<le> 2 ^ 32" using Cons.prems by simp
  note IH = Cons.IH [OF this, of ?m "a + 1"]
  show ?case
    unfolding dom ram_store.simps IH eq by (simp only: if_bool_eq_conj de_Morgan_conj not_not simp_thms split: if_split) blast?
qed (simp add: in_block_def)


lemma ram_store_dom:
  "ram_store m a bs = Some m' \<Longrightarrow> m' x = None \<longleftrightarrow> m x = None"
proof (induction bs arbitrary: m a)
  case (Cons b bs)
  then have "m a \<noteq> None" by (simp split: if_splits)
  then have "ram_store (m(a \<mapsto> b)) (a + 1) bs = Some m'" using Cons.prems by (simp split: if_splits)
  from Cons.IH [OF this] \<open>m a \<noteq> None\<close> show ?case by (cases "x = a") auto
qed simp

lemma ram_store_SomeD:
  assumes "ram_store m a bs = Some m'" "length bs \<le> 2 ^ 32"
  shows "m' x = (if in_block a (length bs) x then Some (bs ! unat (x - a)) else m x)"
proof -
  have "m' = (\<lambda>x. if in_block a (length bs) x then Some (bs ! unat (x - a)) else m x)"
    using assms(1) unfolding ram_store_eq [OF assms(2)] by (auto split: if_split_asm)
  then show ?thesis by simp
qed

lemma ram_store_total:
  "\<forall>i<length bs. m (a + of_nat i) \<noteq> None \<Longrightarrow> \<exists>m'. ram_store m a bs = Some m'"
proof (induction bs arbitrary: m a)
  case (Cons b bs)
  have "m (a + of_nat i) \<noteq> None" if "i < Suc (length bs)" for i
    using Cons.prems that by simp
  from this [of 0] this [of "Suc _"] have m: "m a \<noteq> None" "i < length bs \<Longrightarrow> m (a + 1 + of_nat i) \<noteq> None" for i
    by (simp_all add: add.assoc)
  then have "\<exists>m'. ram_store (m(a \<mapsto> b)) (a + 1) bs = Some m'"
    by (intro Cons.IH) simp
  with m(1) show ?case by simp
qed simp

lemma in_block_le: "n \<le> l \<Longrightarrow> in_block a n x \<Longrightarrow> in_block a l x"
  by (simp add: in_block_def)

lemma in_block_part:
  assumes "in_block (a + of_nat k) n x" "k + n \<le> l" "l \<le> 2 ^ 32"
  shows "in_block a l x"
proof -
  have lt: "unat (x - (a + of_nat k)) < n" using assms(1) by (simp add: in_block_def)
  have "x - a = (x - (a + of_nat k)) + of_nat k" by simp
  then have "unat (x - a) = unat (x - (a + of_nat k)) + k"
    using lt assms(2,3) unat_word_ariths(1) [of "x - (a + of_nat k)" "of_nat k"] by simp
  then show ?thesis using lt assms(2) by (simp add: in_block_def)
qed

lemma ram_store_append:
  "ram_store m a (xs @ ys) = do { m \<leftarrow> ram_store m a xs; ram_store m (a + of_nat (length xs)) ys }"
  by (induction xs arbitrary: m a) (simp_all add: add.assoc)

text \<open>What was stored is read back, and a disjoint block is untouched.\<close>

lemma ram_load_stored:
  assumes "ram_store m a bs = Some m'" "length bs \<le> 2 ^ 32"
  shows "ram_load m' a (length bs) = Some bs"
  unfolding ram_load_eq
proof (intro conjI allI impI refl)
  fix i assume "i < length bs"
  then have "i < 4294967296" using assms(2) by simp
  then show "m' (a + of_nat i) = Some (bs ! i)"
    using ram_store_SomeD [OF assms] \<open>i < length bs\<close> by (simp add: in_block_def)
qed

definition disjoint_blocks :: "u32 \<Rightarrow> nat \<Rightarrow> u32 \<Rightarrow> nat \<Rightarrow> bool" where
  "disjoint_blocks a n b k \<longleftrightarrow> (\<forall>x. \<not> (in_block a n x \<and> in_block b k x))"

lemma ram_load_other:
  assumes "ram_store m a bs = Some m'" "length bs \<le> 2 ^ 32" "k \<le> 2 ^ 32"
    and "disjoint_blocks a (length bs) b k"
  shows "ram_load m' b k = ram_load m b k"
proof -
  have "m' (b + of_nat i) = m (b + of_nat i)" if "i < k" for i
  proof -
    have "i < 4294967296" using that assms(3) by simp
    then have "in_block b k (b + of_nat i)" using that by (simp add: in_block_def)
    then show ?thesis
      using assms(4) ram_store_SomeD [OF assms(1,2)] by (auto simp: disjoint_blocks_def)
  qed
  then have "ram_load m' b k = Some ys \<longleftrightarrow> ram_load m b k = Some ys" for ys
    by (auto simp: ram_load_eq)
  then show ?thesis by (metis not_Some_eq)
qed

lemma disjoint_blocksI:
  assumes "unat a + n \<le> unat b \<or> unat b + k \<le> unat a" "unat a + n \<le> 2 ^ 32" "unat b + k \<le> 2 ^ 32"
  shows "disjoint_blocks a n b k"
proof -
  have pos: "unat a \<le> unat x \<and> unat x < unat a + n" if x: "in_block a n x" and n: "unat a + n \<le> 2 ^ 32" for a n x
  proof -
    obtain i where "i < n" "x = a + of_nat i" using x unfolding in_block_offset by blast
    moreover from this have "unat x = unat a + i"
      using n by (simp add: unat_word_ariths unat_of_nat)
    ultimately show ?thesis by simp
  qed
  have False if "in_block a n x" "in_block b k x" for x
    using pos [OF that(1) assms(2)] pos [OF that(2) assms(3)] assms(1) by linarith
  then show ?thesis by (auto simp: disjoint_blocks_def)
qed

lemma ram_word_set:
  assumes "ram_set_word m a w = Some m'"
  shows "ram_word m' a = Some w"
  using ram_load_stored [OF assms [unfolded ram_set_word_def]]
  by (simp add: ram_word_def)

end
