(* ===== verification/Image.thy ===== *)
theory Image
  imports Ram
begin

text \<open>
  Images in the legacy format: the header of \<^verbatim>\<open>include/image.h\<close>, the checks of \<^verbatim>\<open>common/image.c\<close> on
  an image in memory, and the part of \<^verbatim>\<open>tools/mkimage.c\<close> and \<^verbatim>\<open>tools/default_image.c\<close> that writes
  them.  The theorems relate the two: what \<^verbatim>\<open>mkimage\<close> writes is accepted by the boot loader, the files
  packed into it are found again, and a damaged image is refused.
\<close>

section \<open>The header\<close>

text \<open>The fields hold the bytes as they lie in memory, read as little-endian words.\<close>

record image_header =
  ih_magic :: u32
  ih_hcrc :: u32
  ih_time :: u32
  ih_size :: u32
  ih_load :: u32
  ih_ep :: u32
  ih_dcrc :: u32
  ih_os :: u8
  ih_arch :: u8
  ih_type :: u8
  ih_comp :: u8
  ih_name :: "u8 list"

definition IH_MAGIC :: u32 where "IH_MAGIC = 0x27051956"
definition IH_NMLEN :: nat where "IH_NMLEN = 32"
definition image_get_header_size :: nat where "image_get_header_size = 64"

definition IH_OS_NETBSD :: u8 where "IH_OS_NETBSD = 2"
definition IH_OS_LINUX :: u8 where "IH_OS_LINUX = 5"
definition IH_OS_VXWORKS :: u8 where "IH_OS_VXWORKS = 14"
definition IH_OS_QNX :: u8 where "IH_OS_QNX = 16"
definition IH_OS_U_BOOT :: u8 where "IH_OS_U_BOOT = 17"
definition IH_OS_RTEMS :: u8 where "IH_OS_RTEMS = 18"
definition IH_ARCH_ARM :: u8 where "IH_ARCH_ARM = 2"
definition IH_TYPE_STANDALONE :: u8 where "IH_TYPE_STANDALONE = 1"
definition IH_TYPE_KERNEL :: u8 where "IH_TYPE_KERNEL = 2"
definition IH_TYPE_RAMDISK :: u8 where "IH_TYPE_RAMDISK = 3"
definition IH_TYPE_MULTI :: u8 where "IH_TYPE_MULTI = 4"
definition IH_TYPE_SCRIPT :: u8 where "IH_TYPE_SCRIPT = 6"
definition IH_TYPE_FLATDT :: u8 where "IH_TYPE_FLATDT = 8"
definition IH_COMP_NONE :: u8 where "IH_COMP_NONE = 0"
definition IH_COMP_GZIP :: u8 where "IH_COMP_GZIP = 1"

text \<open>The object as bytes, and back.\<close>

definition header_bytes :: "image_header \<Rightarrow> u8 list" where
  "header_bytes h =
     word_bytes (ih_magic h) @ word_bytes (ih_hcrc h) @ word_bytes (ih_time h) @ word_bytes (ih_size h) @
     word_bytes (ih_load h) @ word_bytes (ih_ep h) @ word_bytes (ih_dcrc h) @
     [ih_os h, ih_arch h, ih_type h, ih_comp h] @ ih_name h"

definition bytes_header :: "u8 list \<Rightarrow> image_header" where
  "bytes_header bs =
     \<lparr>ih_magic = bytes_word (take 4 bs), ih_hcrc = bytes_word (take 4 (drop 4 bs)),
      ih_time = bytes_word (take 4 (drop 8 bs)), ih_size = bytes_word (take 4 (drop 12 bs)),
      ih_load = bytes_word (take 4 (drop 16 bs)), ih_ep = bytes_word (take 4 (drop 20 bs)),
      ih_dcrc = bytes_word (take 4 (drop 24 bs)), ih_os = bs ! 28, ih_arch = bs ! 29,
      ih_type = bs ! 30, ih_comp = bs ! 31, ih_name = drop 32 bs\<rparr>"

definition ram_header :: "ram \<Rightarrow> u32 \<Rightarrow> image_header option" where
  "ram_header m a = map_option bytes_header (ram_load m a image_get_header_size)"

definition uimage_to_cpu :: "u32 \<Rightarrow> u32" where "uimage_to_cpu x = htonl x"
definition cpu_to_uimage :: "u32 \<Rightarrow> u32" where "cpu_to_uimage x = htonl x"

definition image_get_magic :: "image_header \<Rightarrow> u32" where "image_get_magic h = uimage_to_cpu (ih_magic h)"
definition image_get_hcrc :: "image_header \<Rightarrow> u32" where "image_get_hcrc h = uimage_to_cpu (ih_hcrc h)"
definition image_get_size :: "image_header \<Rightarrow> u32" where "image_get_size h = uimage_to_cpu (ih_size h)"
definition image_get_load :: "image_header \<Rightarrow> u32" where "image_get_load h = uimage_to_cpu (ih_load h)"
definition image_get_ep :: "image_header \<Rightarrow> u32" where "image_get_ep h = uimage_to_cpu (ih_ep h)"
definition image_get_dcrc :: "image_header \<Rightarrow> u32" where "image_get_dcrc h = uimage_to_cpu (ih_dcrc h)"

definition image_get_data :: "u32 \<Rightarrow> u32" where
  "image_get_data hdr = hdr + of_nat image_get_header_size"

definition image_get_image_size :: "image_header \<Rightarrow> u32" where
  "image_get_image_size h = image_get_size h + of_nat image_get_header_size"

definition image_get_image_end :: "u32 \<Rightarrow> image_header \<Rightarrow> u32" where
  "image_get_image_end hdr h = hdr + image_get_image_size h"

definition image_set_magic :: "image_header \<Rightarrow> u32 \<Rightarrow> image_header" where
  "image_set_magic h v = h\<lparr>ih_magic := cpu_to_uimage v\<rparr>"
definition image_set_hcrc :: "image_header \<Rightarrow> u32 \<Rightarrow> image_header" where
  "image_set_hcrc h v = h\<lparr>ih_hcrc := cpu_to_uimage v\<rparr>"
definition image_set_time :: "image_header \<Rightarrow> u32 \<Rightarrow> image_header" where
  "image_set_time h v = h\<lparr>ih_time := cpu_to_uimage v\<rparr>"
definition image_set_size :: "image_header \<Rightarrow> u32 \<Rightarrow> image_header" where
  "image_set_size h v = h\<lparr>ih_size := cpu_to_uimage v\<rparr>"
definition image_set_load :: "image_header \<Rightarrow> u32 \<Rightarrow> image_header" where
  "image_set_load h v = h\<lparr>ih_load := cpu_to_uimage v\<rparr>"
definition image_set_ep :: "image_header \<Rightarrow> u32 \<Rightarrow> image_header" where
  "image_set_ep h v = h\<lparr>ih_ep := cpu_to_uimage v\<rparr>"
definition image_set_dcrc :: "image_header \<Rightarrow> u32 \<Rightarrow> image_header" where
  "image_set_dcrc h v = h\<lparr>ih_dcrc := cpu_to_uimage v\<rparr>"

text \<open>On the host: the \<^verbatim>\<open>strncpy\<close> of the C standard, which fills the field with zeros.\<close>

definition image_set_name :: "image_header \<Rightarrow> u8 list \<Rightarrow> image_header" where
  "image_set_name h name = h\<lparr>ih_name := take IH_NMLEN (name @ replicate IH_NMLEN 0)\<rparr>"

section \<open>Checks\<close>

definition image_check_magic :: "ram \<Rightarrow> u32 \<Rightarrow> bool option" where
  "image_check_magic m hdr = map_option (\<lambda>w. uimage_to_cpu w = IH_MAGIC) (ram_word m hdr)"

definition image_check_hcrc :: "image_header \<Rightarrow> bool" where
  "image_check_hcrc hdr \<longleftrightarrow>
     (let header = image_set_hcrc hdr 0
      in crc32 0 (header_bytes header) = image_get_hcrc hdr)"

text \<open>Without a watchdog \<^verbatim>\<open>crc32_wd\<close> is one call of \<^verbatim>\<open>crc32\<close>.\<close>

definition image_check_dcrc :: "ram \<Rightarrow> u32 \<Rightarrow> image_header \<Rightarrow> bool option" where
  "image_check_dcrc m a hdr = do {
     dat \<leftarrow> ram_load m (image_get_data a) (unat (image_get_size hdr));
     Some (crc32 0 dat = image_get_dcrc hdr)
   }"

partial_function (option) multi_count_loop :: "ram \<Rightarrow> u32 \<Rightarrow> u32 \<Rightarrow> u32 option" where
  "multi_count_loop m sz i =
     (case ram_word m (sz + 4 * i) of
        None \<Rightarrow> None
      | Some w \<Rightarrow> if w = 0 then Some i else multi_count_loop m sz (i + 1))"

definition image_multi_count :: "ram \<Rightarrow> u32 \<Rightarrow> u32 option" where
  "image_multi_count m hdr = multi_count_loop m (image_get_data hdr) 0"

text \<open>\<^verbatim>\<open>offset\<close> after \<open>i\<close> turns of the loop.\<close>

primrec multi_offset :: "ram \<Rightarrow> u32 \<Rightarrow> nat \<Rightarrow> u32 option" where
  "multi_offset m sz 0 = Some 0"
| "multi_offset m sz (Suc i) = do {
     offset \<leftarrow> multi_offset m sz i;
     w \<leftarrow> ram_word m (sz + 4 * of_nat i);
     Some (offset + ((uimage_to_cpu w + 3) AND NOT 3))
   }"

definition image_multi_getimg :: "ram \<Rightarrow> u32 \<Rightarrow> u32 \<Rightarrow> (u32 \<times> u32) option" where
  "image_multi_getimg m hdr idx = do {
     count \<leftarrow> image_multi_count m hdr;
     let sz = image_get_data hdr;
     let img_data = image_get_data hdr + (count + 1) * 4;
     if idx < count
     then do {
       w \<leftarrow> ram_word m (sz + 4 * idx);
       offset \<leftarrow> multi_offset m sz (unat idx);
       Some (img_data + offset, uimage_to_cpu w)
     }
     else Some (0, 0)
   }"

text \<open>
  Of the listing only the table of components is kept, which is read from memory whatever the
  checks still to come would say.
\<close>

fun list_components :: "ram \<Rightarrow> u32 \<Rightarrow> nat \<Rightarrow> u32 \<Rightarrow> (u32 \<times> u32) list option" where
  "list_components m hdr 0 i = Some []"
| "list_components m hdr (Suc n) i = do {
     c \<leftarrow> image_multi_getimg m hdr i;
     cs \<leftarrow> list_components m hdr n (i + 1);
     Some (c # cs)
   }"

definition image_print_contents :: "ram \<Rightarrow> u32 \<Rightarrow> image_header \<Rightarrow> (u32 \<times> u32) list option" where
  "image_print_contents m a hdr =
     (if ih_type hdr = IH_TYPE_MULTI \<or> ih_type hdr = IH_TYPE_SCRIPT
      then do {
        count \<leftarrow> image_multi_count m a;
        list_components m a (unat count) 0
      }
      else Some [])"

text \<open>The result \<^verbatim>\<open>Some None\<close> is the null pointer.\<close>

definition image_get_kernel :: "ram \<Rightarrow> u32 \<Rightarrow> bool \<Rightarrow> image_header option option" where
  "image_get_kernel m img_addr verify = do {
     ok \<leftarrow> image_check_magic m img_addr;
     if \<not> ok then Some None
     else do {
       hdr \<leftarrow> ram_header m img_addr;
       if \<not> image_check_hcrc hdr then Some None
       else do {
         _ \<leftarrow> image_print_contents m img_addr hdr;
         ok \<leftarrow> (if verify then image_check_dcrc m img_addr hdr else Some True);
         if \<not> ok then Some None
         else if ih_arch hdr \<noteq> IH_ARCH_ARM then Some None
         else Some (Some hdr)
       }
     }
   }"

definition image_get_ramdisk :: "ram \<Rightarrow> u32 \<Rightarrow> u8 \<Rightarrow> bool \<Rightarrow> image_header option option" where
  "image_get_ramdisk m rd_addr arch verify = do {
     ok \<leftarrow> image_check_magic m rd_addr;
     if \<not> ok then Some None
     else do {
       hdr \<leftarrow> ram_header m rd_addr;
       if \<not> image_check_hcrc hdr then Some None
       else do {
         _ \<leftarrow> image_print_contents m rd_addr hdr;
         ok \<leftarrow> (if verify then image_check_dcrc m rd_addr hdr else Some True);
         if \<not> ok then Some None
         else if ih_os hdr \<noteq> IH_OS_LINUX \<or> ih_arch hdr \<noteq> arch \<or> ih_type hdr \<noteq> IH_TYPE_RAMDISK
         then Some None
         else Some (Some hdr)
       }
     }
   }"

definition IMAGE_FORMAT_INVALID :: u32 where "IMAGE_FORMAT_INVALID = 0"
definition IMAGE_FORMAT_LEGACY :: u32 where "IMAGE_FORMAT_LEGACY = 1"

definition genimg_get_format :: "ram \<Rightarrow> u32 \<Rightarrow> u32 option" where
  "genimg_get_format m a =
     map_option (\<lambda>ok. if ok then IMAGE_FORMAT_LEGACY else IMAGE_FORMAT_INVALID) (image_check_magic m a)"

text \<open>\<^verbatim>\<open>iminfo\<close> for one address.\<close>

definition image_info :: "ram \<Rightarrow> u32 \<Rightarrow> int option" where
  "image_info m a = do {
     format \<leftarrow> genimg_get_format m a;
     if format \<noteq> IMAGE_FORMAT_LEGACY then Some 1
     else do {
       hdr \<leftarrow> ram_header m a;
       if \<not> image_check_hcrc hdr then Some 1
       else do {
         _ \<leftarrow> image_print_contents m a hdr;
         ok \<leftarrow> image_check_dcrc m a hdr;
         Some (if ok then 0 else 1)
       }
     }
   }"

fun iminfo_loop :: "ram \<Rightarrow> u8 list list \<Rightarrow> int \<Rightarrow> int option" where
  "iminfo_loop m [] rcode = Some rcode"
| "iminfo_loop m (arg # args) rcode = do {
     r \<leftarrow> image_info m (fst (simple_strtoul arg 16));
     iminfo_loop m args (if r \<noteq> 0 then 1 else rcode)
   }"

definition do_iminfo :: "ram \<Rightarrow> u8 list list \<Rightarrow> ('c, 'z) env_state_scheme \<Rightarrow> int option" where
  "do_iminfo m argv s =
     (if length argv < 2 then image_info m (load_addr s) else iminfo_loop m (tl argv) 0)"

definition getenv_yesno :: "('c, 'z) env_state_scheme \<Rightarrow> u8 list \<Rightarrow> bool option" where
  "getenv_yesno s var = do {
     v \<leftarrow> getenv_string s var;
     Some (case v of None \<Rightarrow> True | Some v \<Rightarrow> deref v \<noteq> 0x6e)
   }"

section \<open>Names\<close>

type_synonym table_entry = "int \<times> u8 list option \<times> u8 list"

fun get_table_entry_name :: "table_entry list \<Rightarrow> u8 list \<Rightarrow> int \<Rightarrow> u8 list option" where
  "get_table_entry_name [] msg i = None"
| "get_table_entry_name ((n, _, lname) # table) msg i =
     (if n < 0 then Some msg else if n = i then Some lname else get_table_entry_name table msg i)"

fun get_table_entry_id :: "table_entry list \<Rightarrow> u8 list \<Rightarrow> int option" where
  "get_table_entry_id [] name = None"
| "get_table_entry_id ((n, sname, _) # table) name =
     (if n < 0 then Some (- 1) else if sname = Some name then Some n else get_table_entry_id table name)"

definition uimage_arch :: "table_entry list" where
  "uimage_arch = [
     (0, None, ascii ''Invalid ARCH''), (1, Some (ascii ''alpha''), ascii ''Alpha''),
     (2, Some (ascii ''arm''), ascii ''ARM''), (3, Some (ascii ''x86''), ascii ''Intel x86''),
     (4, Some (ascii ''ia64''), ascii ''IA64''), (12, Some (ascii ''m68k''), ascii ''M68K''),
     (14, Some (ascii ''microblaze''), ascii ''MicroBlaze''), (5, Some (ascii ''mips''), ascii ''MIPS''),
     (6, Some (ascii ''mips64''), ascii ''MIPS 64 Bit''), (13, Some (ascii ''nios''), ascii ''NIOS''),
     (15, Some (ascii ''nios2''), ascii ''NIOS II''), (7, Some (ascii ''powerpc''), ascii ''PowerPC''),
     (7, Some (ascii ''ppc''), ascii ''PowerPC''), (8, Some (ascii ''s390''), ascii ''IBM S390''),
     (9, Some (ascii ''sh''), ascii ''SuperH''), (10, Some (ascii ''sparc''), ascii ''SPARC''),
     (11, Some (ascii ''sparc64''), ascii ''SPARC 64 Bit''), (16, Some (ascii ''blackfin''), ascii ''Blackfin''),
     (17, Some (ascii ''avr32''), ascii ''AVR32''), (- 1, Some [], [])]"

definition uimage_os :: "table_entry list" where
  "uimage_os = [
     (0, None, ascii ''Invalid OS''), (5, Some (ascii ''linux''), ascii ''Linux''),
     (2, Some (ascii ''netbsd''), ascii ''NetBSD''), (18, Some (ascii ''rtems''), ascii ''RTEMS''),
     (17, Some (ascii ''u-boot''), ascii ''U-Boot''), (16, Some (ascii ''qnx''), ascii ''QNX''),
     (14, Some (ascii ''vxworks''), ascii ''VxWorks''), (- 1, Some [], [])]"

definition uimage_type :: "table_entry list" where
  "uimage_type = [
     (0, None, ascii ''Invalid Image''), (7, Some (ascii ''filesystem''), ascii ''Filesystem Image''),
     (5, Some (ascii ''firmware''), ascii ''Firmware''), (2, Some (ascii ''kernel''), ascii ''Kernel Image''),
     (4, Some (ascii ''multi''), ascii ''Multi-File Image''), (3, Some (ascii ''ramdisk''), ascii ''RAMDisk Image''),
     (6, Some (ascii ''script''), ascii ''Script''), (1, Some (ascii ''standalone''), ascii ''Standalone Program''),
     (8, Some (ascii ''flat_dt''), ascii ''Flat Device Tree''),
     (9, Some (ascii ''kwbimage''), ascii ''Kirkwood Boot Image''), (- 1, Some [], [])]"

definition uimage_comp :: "table_entry list" where
  "uimage_comp = [
     (0, Some (ascii ''none''), ascii ''uncompressed''), (2, Some (ascii ''bzip2''), ascii ''bzip2 compressed''),
     (1, Some (ascii ''gzip''), ascii ''gzip compressed''), (3, Some (ascii ''lzma''), ascii ''lzma compressed''),
     (- 1, Some [], [])]"

section \<open>Writing an image\<close>

record mkimage_params =
  p_eflag :: bool
  p_xflag :: bool
  p_os :: u8
  p_arch :: u8
  p_type :: u8
  p_comp :: u8
  p_addr :: u32
  p_ep :: u32
  p_imagename :: "u8 list option"

definition image_check_image_types :: "u8 \<Rightarrow> bool" where
  "image_check_image_types type \<longleftrightarrow> 0 < type \<and> type < IH_TYPE_FLATDT"

text \<open>
  \<open>f\<close> is the file with its dummy header; an absent name is a null pointer given to \<^verbatim>\<open>strncpy\<close>.
\<close>

definition image_set_header :: "mkimage_params \<Rightarrow> u32 \<Rightarrow> u8 list \<Rightarrow> u8 list option" where
  "image_set_header params mtime f = do {
     let dat = drop image_get_header_size f;
     let checksum = crc32 0 dat;
     let hdr = bytes_header (take image_get_header_size f);
     let hdr = image_set_magic hdr IH_MAGIC;
     let hdr = image_set_time hdr mtime;
     let hdr = image_set_size hdr (of_nat (length f - image_get_header_size));
     let hdr = image_set_load hdr (p_addr params);
     let hdr = image_set_ep hdr (p_ep params);
     let hdr = image_set_dcrc hdr checksum;
     let hdr = hdr\<lparr>ih_os := p_os params, ih_arch := p_arch params, ih_type := p_type params, ih_comp := p_comp params\<rparr>;
     name \<leftarrow> p_imagename params;
     let hdr = image_set_name hdr name;
     let checksum = crc32 0 (header_bytes hdr);
     Some (header_bytes (image_set_hcrc hdr checksum) @ dat)
   }"

text \<open>
  The bytes \<^verbatim>\<open>copy_file\<close> appends; \<^verbatim>\<open>None\<close> is the exit with an error.  An empty file cannot be mapped: \<^verbatim>\<open>mmap\<close> with
  a length of 0 fails.
\<close>

definition copy_file :: "bool \<Rightarrow> u8 list \<Rightarrow> bool \<Rightarrow> u8 list option" where
  "copy_file xflag f padding =
     (if f = [] then None
      else if xflag \<and> (length f < image_get_header_size \<or> (\<exists>c \<in> set (take image_get_header_size f). c \<noteq> 0xff)) then None
      else let dat = (if xflag then drop image_get_header_size f else f);
               tail = length dat mod 4
           in Some (dat @ (if padding \<and> tail \<noteq> 0 then replicate (4 - tail) 0 else [])))"

fun copy_files :: "bool \<Rightarrow> u8 list list \<Rightarrow> u8 list option" where
  "copy_files xflag [] = None"
| "copy_files xflag [f] = copy_file xflag f False"
| "copy_files xflag (f # g # fs) = do {
     dat \<leftarrow> copy_file xflag f True;
     rest \<leftarrow> copy_files xflag (g # fs);
     Some (dat @ rest)
   }"

definition size_table :: "u8 list list \<Rightarrow> u8 list" where
  "size_table fs = concat (map (\<lambda>f. word_bytes (cpu_to_uimage (of_nat (length f)))) fs) @ word_bytes 0"

text \<open>The checks of the options; without \<^verbatim>\<open>-e\<close> the entry point follows from the load address.\<close>

definition mkimage_options :: "mkimage_params \<Rightarrow> mkimage_params option" where
  "mkimage_options params =
     (if \<not> image_check_image_types (p_type params) then None
      else let params = (if p_eflag params then params
                         else params\<lparr>p_ep := p_addr params
                                + (if p_xflag params then of_nat image_get_header_size else 0)\<rparr>)
           in if p_xflag params \<and> p_ep params \<noteq> p_addr params + of_nat image_get_header_size then None
              else Some params)"

definition mkimage :: "mkimage_params \<Rightarrow> u32 \<Rightarrow> u8 list list \<Rightarrow> u8 list option" where
  "mkimage params mtime fs = do {
     params \<leftarrow> mkimage_options params;
     body \<leftarrow> (if p_type params = IH_TYPE_MULTI \<or> p_type params = IH_TYPE_SCRIPT
              then map_option (\<lambda>dat. size_table fs @ dat) (copy_files (p_xflag params) fs)
              else (case fs of [f] \<Rightarrow> copy_file (p_xflag params) f False | _ \<Rightarrow> None));
     image_set_header params mtime (replicate image_get_header_size 0 @ body)
   }"

text \<open>\<^verbatim>\<open>mkimage -l\<close>; the codes of \<^verbatim>\<open>libfdt.h\<close>.\<close>

definition image_verify_header :: "u8 list \<Rightarrow> int" where
  "image_verify_header f =
     (let hdr = bytes_header (take image_get_header_size f)
      in if uimage_to_cpu (ih_magic hdr) \<noteq> IH_MAGIC then - 9
         else let checksum = uimage_to_cpu (ih_hcrc hdr);
                  hdr = hdr\<lparr>ih_hcrc := cpu_to_uimage 0\<rparr>
              in if crc32 0 (header_bytes hdr) \<noteq> checksum then - 7
                 else let checksum = uimage_to_cpu (ih_dcrc hdr)
                      in if crc32 0 (drop image_get_header_size f) \<noteq> checksum then - 11 else 0)"

section \<open>Header and bytes\<close>

lemma header_bytes_length: "length (header_bytes h) = 32 + length (ih_name h)"
  by (simp add: header_bytes_def)

lemma bytes_header_bytes:
  assumes "length (ih_name h) = 32"
  shows "bytes_header (header_bytes h @ rest) = h\<lparr>ih_name := ih_name h @ rest\<rparr>"
  by (simp add: bytes_header_def header_bytes_def nth_append)

lemma bytes_header_own: "bytes_header (header_bytes h) = h"
  by (simp add: bytes_header_def header_bytes_def nth_append)

lemma uimage_simps [simp]:
  "uimage_to_cpu (cpu_to_uimage x) = x" "cpu_to_uimage (uimage_to_cpu x) = x"
  by (simp_all add: uimage_to_cpu_def cpu_to_uimage_def)

section \<open>What is written\<close>

definition built_header :: "mkimage_params \<Rightarrow> u32 \<Rightarrow> u8 list \<Rightarrow> u8 list \<Rightarrow> image_header" where
  "built_header p mtime name body =
     \<lparr>ih_magic = cpu_to_uimage IH_MAGIC, ih_hcrc = 0, ih_time = cpu_to_uimage mtime,
      ih_size = cpu_to_uimage (of_nat (length body)), ih_load = cpu_to_uimage (p_addr p),
      ih_ep = cpu_to_uimage (p_ep p), ih_dcrc = cpu_to_uimage (crc32 0 body), ih_os = p_os p,
      ih_arch = p_arch p, ih_type = p_type p, ih_comp = p_comp p,
      ih_name = take 32 (name @ replicate 32 0)\<rparr>"

definition sealed :: "image_header \<Rightarrow> image_header" where
  "sealed h = image_set_hcrc h (crc32 0 (header_bytes h))"

lemma built_header_simps [simp]:
  "ih_os (built_header p t nm body) = p_os p" "ih_arch (built_header p t nm body) = p_arch p"
  "ih_type (built_header p t nm body) = p_type p" "ih_comp (built_header p t nm body) = p_comp p"
  "image_get_magic (built_header p t nm body) = IH_MAGIC"
  "image_get_size (built_header p t nm body) = of_nat (length body)"
  "image_get_load (built_header p t nm body) = p_addr p" "image_get_ep (built_header p t nm body) = p_ep p"
  "image_get_dcrc (built_header p t nm body) = crc32 0 body"
  "length (ih_name (built_header p t nm body)) = 32" "ih_hcrc (built_header p t nm body) = 0"
  by (simp_all add: built_header_def image_get_magic_def image_get_size_def image_get_load_def
      image_get_ep_def image_get_dcrc_def)

lemma sealed_simps [simp]:
  "ih_os (sealed h) = ih_os h" "ih_arch (sealed h) = ih_arch h" "ih_type (sealed h) = ih_type h"
  "ih_comp (sealed h) = ih_comp h" "ih_name (sealed h) = ih_name h"
  "image_get_magic (sealed h) = image_get_magic h" "image_get_size (sealed h) = image_get_size h"
  "image_get_load (sealed h) = image_get_load h" "image_get_ep (sealed h) = image_get_ep h"
  "image_get_dcrc (sealed h) = image_get_dcrc h"
  by (simp_all add: sealed_def image_set_hcrc_def image_get_magic_def image_get_size_def
      image_get_load_def image_get_ep_def image_get_dcrc_def)

lemma htonl_0 [simp]: "htonl 0 = 0"
  by (simp add: htonl_def)

lemma sealed_checks: "ih_hcrc h = 0 \<Longrightarrow> image_check_hcrc (sealed h)"
  by (cases h) (simp add: image_check_hcrc_def sealed_def image_set_hcrc_def image_get_hcrc_def Let_def
      cpu_to_uimage_def uimage_to_cpu_def)

lemma bytes_header_zero:
  "bytes_header (replicate 64 0) = \<lparr>ih_magic = 0, ih_hcrc = 0, ih_time = 0, ih_size = 0, ih_load = 0,
     ih_ep = 0, ih_dcrc = 0, ih_os = 0, ih_arch = 0, ih_type = 0, ih_comp = 0, ih_name = replicate 32 0\<rparr>"
  by (simp add: bytes_header_def bytes_word_def)

lemma image_set_header_eq:
  "image_set_header p t (replicate 64 0 @ body) =
     map_option (\<lambda>nm. header_bytes (sealed (built_header p t nm body)) @ body) (p_imagename p)"
  by (cases "p_imagename p")
    (simp_all add: image_set_header_def image_get_header_size_def bytes_header_zero Let_def sealed_def
      built_header_def image_set_magic_def image_set_time_def image_set_size_def image_set_load_def
      image_set_ep_def image_set_dcrc_def image_set_name_def IH_NMLEN_def)

definition mkimage_body :: "mkimage_params \<Rightarrow> u8 list list \<Rightarrow> u8 list option" where
  "mkimage_body p fs =
     (if p_type p = IH_TYPE_MULTI \<or> p_type p = IH_TYPE_SCRIPT
      then map_option (\<lambda>dat. size_table fs @ dat) (copy_files (p_xflag p) fs)
      else (case fs of [f] \<Rightarrow> copy_file (p_xflag p) f False | _ \<Rightarrow> None))"

definition entry_point :: "mkimage_params \<Rightarrow> u32" where
  "entry_point p = (if p_eflag p then p_ep p else p_addr p + (if p_xflag p then 64 else 0))"

lemma mkimage_unfold:
  "mkimage params mtime fs =
     (if \<not> image_check_image_types (p_type params) then None
      else let params = (if p_eflag params then params
                         else params\<lparr>p_ep := p_addr params
                                + (if p_xflag params then of_nat image_get_header_size else 0)\<rparr>)
           in if p_xflag params \<and> p_ep params \<noteq> p_addr params + of_nat image_get_header_size then None
              else do {
                body \<leftarrow> (if p_type params = IH_TYPE_MULTI \<or> p_type params = IH_TYPE_SCRIPT
                         then map_option (\<lambda>dat. size_table fs @ dat) (copy_files (p_xflag params) fs)
                         else (case fs of [f] \<Rightarrow> copy_file (p_xflag params) f False | _ \<Rightarrow> None));
                image_set_header params mtime (replicate image_get_header_size 0 @ body)
              })"
  by (simp add: mkimage_def mkimage_options_def Let_def)

lemma mkimage_SomeD:
  assumes "mkimage p t fs = Some img"
  obtains h nm body where "mkimage_body p fs = Some body" "p_imagename p = Some nm"
    "h = sealed (built_header (p\<lparr>p_ep := entry_point p\<rparr>) t nm body)" "img = header_bytes h @ body"
    "image_check_image_types (p_type p)"
proof -
  let ?p = "p\<lparr>p_ep := entry_point p\<rparr>"
  have p: "(if p_eflag p then p else p\<lparr>p_ep := p_addr p + (if p_xflag p then of_nat image_get_header_size else 0)\<rparr>) = ?p"
    by (simp add: entry_point_def image_get_header_size_def)
  have body: "mkimage_body ?p fs = mkimage_body p fs"
    unfolding mkimage_body_def by (auto split: list.splits)
  show ?thesis
    using assms that
    unfolding mkimage_unfold Let_def p mkimage_body_def [of ?p, symmetric] body
    by (auto simp: image_set_header_eq image_get_header_size_def bind_eq_Some_conv split: if_splits)
qed

section \<open>Tables of sizes in memory\<close>

lemma unat_round4:
  fixes x :: u32
  shows "unat (x AND - 4) = unat x div 4 * 4"
proof -
  have four: "(- 4 :: u32) = NOT 3" by simp
  have three: "(3 :: u32) = mask 2" by (simp add: mask_eq_exp_minus_1)
  have "x = (x AND NOT 3) + (x AND 3)"
    by (subst disjunctive_add) (auto simp: bit_simps intro!: bit_word_eqI)
  moreover have "x AND 3 = take_bit 2 x" by (simp add: three take_bit_eq_mask)
  ultimately have "x AND NOT 3 = x - take_bit 2 x" by (metis add_diff_cancel_right')
  moreover have "unat (take_bit 2 x) = unat x mod 4"
    unfolding unsigned_take_bit_eq by (simp add: take_bit_eq_mod)
  moreover have "take_bit 2 x \<le> x"
    by (simp add: word_le_nat_alt unsigned_take_bit_eq take_bit_nat_less_eq_self)
  ultimately show ?thesis
    unfolding four by (simp only: unat_sub minus_mod_eq_div_mult)
qed

definition round4 :: "nat \<Rightarrow> nat" where
  "round4 n = (n + 3) div 4 * 4"

lemma round4_word: "n + 3 < 2 ^ 32 \<Longrightarrow> (of_nat n + 3) AND - 4 = (of_nat (round4 n) :: u32)"
proof -
  assume n: "n + 3 < 2 ^ 32"
  have "unat (of_nat n + 3 :: u32) = n + 3"
    using n by (simp add: unat_word_ariths)
  then have "unat ((of_nat n + 3 :: u32) AND - 4) = round4 n"
    by (simp add: unat_round4 round4_def)
  moreover have "round4 n \<le> n + 3" by (simp add: round4_def)
  ultimately show ?thesis using n by (simp add: word_unat_eq_iff)
qed

lemma multi_count_loop_eq:
  assumes "\<forall>i<k. \<exists>w. ram_word m (sz + 4 * of_nat i) = Some w \<and> w \<noteq> 0"
    and "ram_word m (sz + 4 * of_nat k) = Some 0" and "j \<le> k"
  shows "multi_count_loop m sz (of_nat j) = Some (of_nat k)"
  using assms(3)
proof (induction "k - j" arbitrary: j)
  case 0
  then show ?case using assms(2) by (subst multi_count_loop.simps) simp
next
  case (Suc n)
  then have "j < k" by simp
  then obtain w where w: "ram_word m (sz + 4 * of_nat j) = Some w" "w \<noteq> 0"
    using assms(1) by blast
  have "multi_count_loop m sz (of_nat (Suc j)) = Some (of_nat k)"
    using Suc \<open>j < k\<close> by (intro Suc.hyps(1)) auto
  with w show ?case by (subst multi_count_loop.simps) (simp add: add.commute)
qed

lemma multi_offset_eq:
  assumes "\<forall>i<k. ram_word m (sz + 4 * of_nat i) = Some (cpu_to_uimage (of_nat (ls ! i)))"
    and "\<forall>i<k. ls ! i + 3 < 2 ^ 32" and "k \<le> length ls"
  shows "multi_offset m sz k = Some (of_nat (sum_list (map round4 (take k ls))))"
  using assms
  by (induction k) (simp_all add: round4_word take_Suc_conv_app_nth)

section \<open>An image in memory\<close>

lemma ram_load_take:
  assumes "ram_load m a n = Some bs" "k \<le> n"
  shows "ram_load m a k = Some (take k bs)"
  using assms by (simp add: ram_load_eq)

lemma ram_load_drop:
  assumes "ram_load m a n = Some bs" "k + l \<le> n"
  shows "ram_load m (a + of_nat k) l = Some (take l (drop k bs))"
proof -
  have "\<forall>i<n. m (a + of_nat i) = Some (bs ! i)" "length bs = n" using assms(1) by (simp_all add: ram_load_eq)
  moreover from this have "m (a + of_nat k + of_nat i) = Some (bs ! (k + i))" if "i < l" for i
    using assms(2) that by (metis add.assoc add_less_cancel_left less_le_trans of_nat_add)
  ultimately show ?thesis
    using assms(2) by (simp add: ram_load_eq)
qed

definition holds :: "ram \<Rightarrow> u32 \<Rightarrow> u8 list \<Rightarrow> bool" where
  "holds m a bs \<longleftrightarrow> ram_load m a (length bs) = Some bs"

lemma holds_append: "holds m a (xs @ ys) \<longleftrightarrow> holds m a xs \<and> holds m (a + of_nat (length xs)) ys"
  by (simp add: holds_def ram_load_appendI [simplified])

lemma holds_word: "holds m a (word_bytes w) \<Longrightarrow> ram_word m a = Some w"
  by (simp add: holds_def ram_word_def)

lemma holds_header:
  assumes "holds m a (header_bytes h @ body)" "length (ih_name h) = 32"
  shows "ram_header m a = Some h" "ram_word m a = Some (ih_magic h)"
    "image_check_magic m a = Some (image_get_magic h = IH_MAGIC)"
    "holds m (image_get_data a) body"
proof -
  have len: "length (header_bytes h) = 64" using assms(2) by (simp add: header_bytes_length)
  have hb: "holds m a (header_bytes h)" using assms(1) by (simp add: holds_append)
  show "ram_header m a = Some h"
    using hb len by (simp add: ram_header_def image_get_header_size_def holds_def bytes_header_own)
  show w: "ram_word m a = Some (ih_magic h)"
    using assms(1) by (intro holds_word) (simp add: holds_append header_bytes_def)
  then show "image_check_magic m a = Some (image_get_magic h = IH_MAGIC)"
    by (simp add: image_check_magic_def image_get_magic_def)
  show "holds m (image_get_data a) body"
    using assms(1) len by (simp add: holds_append image_get_data_def image_get_header_size_def)
qed

lemma holds_size_table:
  assumes "holds m a (size_table fs @ rest)"
  shows "i < length fs \<Longrightarrow> ram_word m (a + 4 * of_nat i) = Some (cpu_to_uimage (of_nat (length (fs ! i))))"
    and "ram_word m (a + 4 * of_nat (length fs)) = Some 0"
    and "holds m (a + 4 * of_nat (length fs) + 4) rest"
proof -
  have table: "holds m a (concat (map (\<lambda>f. word_bytes (cpu_to_uimage (of_nat (length f)))) fs) @ more) \<Longrightarrow>
      (\<forall>i<length fs. ram_word m (a + 4 * of_nat i) = Some (cpu_to_uimage (of_nat (length (fs ! i))))) \<and>
      holds m (a + 4 * of_nat (length fs)) more" for more
  proof (induction fs arbitrary: a)
    case (Cons f fs)
    from Cons.prems have w: "holds m a (word_bytes (cpu_to_uimage (of_nat (length f))))"
      and "holds m (a + 4) (concat (map (\<lambda>f. word_bytes (cpu_to_uimage (of_nat (length f)))) fs) @ more)"
      by (simp_all add: holds_append)
    from Cons.IH [OF this(2)] holds_word [OF w] show ?case
      by (auto simp: All_less_Suc2 algebra_simps)
  qed simp
  from assms have "holds m a (concat (map (\<lambda>f. word_bytes (cpu_to_uimage (of_nat (length f)))) fs) @ word_bytes 0 @ rest)"
    by (simp add: size_table_def)
  note t = table [OF this]
  then show "i < length fs \<Longrightarrow> ram_word m (a + 4 * of_nat i) = Some (cpu_to_uimage (of_nat (length (fs ! i))))"
    by blast
  from t have z: "holds m (a + 4 * of_nat (length fs)) (word_bytes 0 @ rest)" by simp
  then show "ram_word m (a + 4 * of_nat (length fs)) = Some 0"
    by (simp add: holds_append holds_word)
  from z show "holds m (a + 4 * of_nat (length fs) + 4) rest"
    by (simp add: holds_append)
qed

lemma cpu_to_uimage_0: "cpu_to_uimage w = 0 \<longleftrightarrow> w = 0"
  by (metis cpu_to_uimage_def htonl_0 htonl_htonl)

text \<open>The table ends at the first empty file, at the latest after the last one.\<close>

lemma size_table_count:
  assumes "holds m (image_get_data a) (size_table fs @ rest)" "\<forall>f \<in> set fs. length f < 2 ^ 32"
  obtains k where "k \<le> length fs" "image_multi_count m a = Some (of_nat k)"
    "\<forall>i<k. fs ! i \<noteq> []" "k = length fs \<or> fs ! k = []"
proof -
  define k where "k = length (takeWhile (\<lambda>f. f \<noteq> []) fs)"
  have k: "k \<le> length fs" unfolding k_def by (rule length_takeWhile_le)
  have ne: "\<forall>i<k. fs ! i \<noteq> []"
  proof (intro allI impI)
    fix i assume "i < k"
    then have i: "i < length (takeWhile (\<lambda>f. f \<noteq> []) fs)" by (simp add: k_def)
    from nth_mem [OF i] takeWhile_nth [OF i] show "fs ! i \<noteq> []" by (metis set_takeWhileD)
  qed
  have stop: "k = length fs \<or> fs ! k = []"
    using k nth_length_takeWhile [where P = "\<lambda>f. f \<noteq> []" and xs = fs] unfolding k_def by (auto simp: le_less)
  have "\<forall>i<k. \<exists>w. ram_word m (image_get_data a + 4 * of_nat i) = Some w \<and> w \<noteq> 0"
  proof (intro allI impI exI conjI)
    fix i assume i: "i < k"
    show "ram_word m (image_get_data a + 4 * of_nat i) = Some (cpu_to_uimage (of_nat (length (fs ! i))))"
      using holds_size_table(1) [OF assms(1), of i] i k by simp
    have "length (fs ! i) < 4294967296" using assms(2) i k by (simp add: all_set_conv_all_nth)
    then have "unat (of_nat (length (fs ! i)) :: u32) \<noteq> 0" using ne i by simp
    then show "cpu_to_uimage (of_nat (length (fs ! i)) :: u32) \<noteq> 0"
      unfolding cpu_to_uimage_0 by (metis unat_0)
  qed
  moreover have "ram_word m (image_get_data a + 4 * of_nat k) = Some 0"
    using holds_size_table(1) [OF assms(1), of k] holds_size_table(2) [OF assms(1)] stop k by (cases "k = length fs") (auto simp: cpu_to_uimage_0)
  ultimately have "image_multi_count m a = Some (of_nat k)"
    using multi_count_loop_eq [of k m "image_get_data a" 0] by (simp add: image_multi_count_def)
  then show ?thesis using that k ne stop by blast
qed

lemma multi_getimg_eq:
  assumes "holds m (image_get_data a) (size_table fs @ rest)" "\<forall>f \<in> set fs. length f + 3 < 2 ^ 32"
    and "image_multi_count m a = Some (of_nat k)" "k \<le> length fs" "length fs < 2 ^ 32"
    and "i < k"
  shows "image_multi_getimg m a (of_nat i) =
    Some (image_get_data a + 4 * of_nat k + 4 + of_nat (sum_list (map (round4 \<circ> length) (take i fs))),
      of_nat (length (fs ! i)))"
proof -
  have table: "\<forall>j<i. ram_word m (image_get_data a + 4 * of_nat j) = Some (cpu_to_uimage (of_nat (map length fs ! j)))"
    using holds_size_table(1) [OF assms(1)] assms(4,6) by simp
  have off: "multi_offset m (image_get_data a) i = Some (of_nat (sum_list (map (round4 \<circ> length) (take i fs))))"
    using multi_offset_eq [OF table] assms(2,4,6) by (simp add: take_map)
  have lt: "(of_nat i :: u32) < of_nat k" "unat (of_nat i :: u32) = i"
    using assms(4,5,6) by (simp_all add: word_less_nat_alt)
  show ?thesis
    using holds_size_table(1) [OF assms(1), of i] assms(3,4,6) lt off
    by (simp add: image_multi_getimg_def Let_def algebra_simps)
qed

lemma list_components_defined:
  assumes "holds m (image_get_data a) (size_table fs @ rest)" "\<forall>f \<in> set fs. length f + 3 < 2 ^ 32"
    and "image_multi_count m a = Some (of_nat k)" "k \<le> length fs" "length fs < 2 ^ 32"
  shows "i + n \<le> k \<Longrightarrow> \<exists>cs. list_components m a n (of_nat i) = Some cs"
proof (induction n arbitrary: i)
  case (Suc n)
  then obtain cs where "list_components m a n (of_nat (Suc i)) = Some cs"
    using Suc.IH [of "Suc i"] by auto
  moreover have "i < k" using Suc.prems by simp
  ultimately show ?case
    using multi_getimg_eq [OF assms, of i] by (simp add: add.commute)
qed simp

section \<open>Written and accepted\<close>

lemma copy_file_length: "copy_file x f pd = Some dat \<Longrightarrow> length f \<le> length dat + 64"
  by (auto simp: copy_file_def Let_def image_get_header_size_def split: if_splits)

lemma copy_files_length: "copy_files x fs = Some dat \<Longrightarrow> f \<in> set fs \<Longrightarrow> length f \<le> length dat + 64"
proof (induction x fs arbitrary: dat rule: copy_files.induct)
  case (3 x f' g fs)
  then show ?case
    by (fastforce simp: bind_eq_Some_conv dest: copy_file_length)
qed (auto dest: copy_file_length)

lemma size_table_length: "length (size_table fs) = 4 * length fs + 4"
  by (simp add: size_table_def length_concat o_def sum_list_triv)

lemma multi_body:
  assumes "mkimage_body p fs = Some body" "p_type p = IH_TYPE_MULTI \<or> p_type p = IH_TYPE_SCRIPT"
    and "length body + 64 \<le> 2 ^ 32"
  obtains dat where "copy_files (p_xflag p) fs = Some dat" "body = size_table fs @ dat"
    "\<forall>f \<in> set fs. length f + 3 < 2 ^ 32" "length fs < 2 ^ 32"
proof -
  obtain dat where dat: "copy_files (p_xflag p) fs = Some dat" "body = size_table fs @ dat"
    using assms(1,2) by (auto simp: mkimage_body_def)
  have f: "length f \<le> length dat + 64" if "f \<in> set fs" for f
    using copy_files_length [OF dat(1) that] .
  have "fs \<noteq> []" using dat(1) by auto
  then have "1 \<le> length fs" by (cases fs) simp_all
  moreover have "4 * length fs + 4 + length dat + 64 \<le> 2 ^ 32"
    using assms(3) dat(2) by (simp add: size_table_length)
  ultimately have "\<forall>f \<in> set fs. length f + 3 < 2 ^ 32" "length fs < 2 ^ 32"
    using f by (auto dest!: f)
  with dat show ?thesis by (rule that)
qed

lemma image_print_contents_defined:
  assumes "mkimage_body p fs = Some body" "length body + 64 \<le> 2 ^ 32"
    and "holds m (image_get_data a) body" "ih_type h = p_type p"
  shows "\<exists>cs. image_print_contents m a h = Some cs"
proof (cases "p_type p = IH_TYPE_MULTI \<or> p_type p = IH_TYPE_SCRIPT")
  case True
  obtain dat where dat: "body = size_table fs @ dat" "\<forall>f \<in> set fs. length f + 3 < 2 ^ 32" "length fs < 2 ^ 32"
    using multi_body [OF assms(1) True assms(2)] by metis
  have short: "\<forall>f \<in> set fs. length f < 2 ^ 32" using dat(2) by fastforce
  obtain k where k: "k \<le> length fs" "image_multi_count m a = Some (of_nat k)"
    using size_table_count [OF assms(3) [unfolded dat(1)] short] by metis
  have "unat (of_nat k :: u32) = k" using k(1) dat(3) by simp
  then show ?thesis
    using list_components_defined [OF assms(3) [unfolded dat(1)] dat(2) k(2,1) dat(3), of 0 k] True k(2) assms(4)
    by (simp add: image_print_contents_def)
next
  case False
  then show ?thesis using assms(4) by (simp add: image_print_contents_def)
qed

lemma mkimage_in_memory:
  assumes "mkimage p t fs = Some img" "ram_load m a (length img) = Some img" "length img \<le> 2 ^ 32"
  obtains h body where "ram_header m a = Some h" "image_check_magic m a = Some True" "image_check_hcrc h"
    "image_check_dcrc m a h = Some True" "\<exists>cs. image_print_contents m a h = Some cs"
    "ih_arch h = p_arch p" "ih_type h = p_type p" "ih_os h = p_os p" "ih_comp h = p_comp p"
    "image_get_load h = p_addr p" "image_get_ep h = entry_point p" "unat (image_get_size h) = length body"
    "img = header_bytes h @ body" "mkimage_body p fs = Some body" "holds m (image_get_data a) body"
    "length (header_bytes h) = 64" "image_get_magic h = IH_MAGIC"
proof -
  obtain h nm body where body: "mkimage_body p fs = Some body"
    and h: "h = sealed (built_header (p\<lparr>p_ep := entry_point p\<rparr>) t nm body)" and img: "img = header_bytes h @ body"
    using mkimage_SomeD [OF assms(1)] by metis
  have len: "length (ih_name h) = 32" "length (header_bytes h) = 64"
    by (simp_all add: h header_bytes_length)
  have m: "holds m a (header_bytes h @ body)" using assms(2) img by (simp add: holds_def)
  note hm = holds_header [OF m len(1)]
  have sz: "unat (image_get_size h) = length body" using assms(3) len by (simp add: h img)
  have dcrc: "image_check_dcrc m a h = Some True"
    using hm(4) sz by (simp add: image_check_dcrc_def holds_def) (simp add: h)
  have pc: "\<exists>cs. image_print_contents m a h = Some cs"
    using assms(3) len img hm(4) by (intro image_print_contents_defined [OF body]) (simp_all add: h)
  show ?thesis
    by (rule that [of h body])
      (use hm sz dcrc pc body img len in \<open>simp_all add: h sealed_checks\<close>)
qed

text \<open>C14:
  What \<^verbatim>\<open>mkimage\<close> writes is accepted wherever it lies in memory, by \<^verbatim>\<open>bootm\<close> (for its architecture, with or
  without verification), by \<^verbatim>\<open>iminfo\<close> and by \<^verbatim>\<open>mkimage -l\<close>, and the header gives back the
  parameters and the extent of the payload.\<close>

theorem mkimage_accepted:
  assumes "mkimage p mtime fs = Some img" "ram_load m a (length img) = Some img" "length img \<le> 2 ^ 32"
    and "p_arch p = IH_ARCH_ARM"
  shows "\<exists>hdr. image_get_kernel m a verify = Some (Some hdr) \<and> image_info m a = Some 0 \<and> image_verify_header img = 0
    \<and> ih_type hdr = p_type p \<and> ih_os hdr = p_os p \<and> ih_comp hdr = p_comp p \<and> image_get_load hdr = p_addr p
    \<and> image_get_ep hdr = entry_point p
    \<and> ram_load m (image_get_data a) (unat (image_get_size hdr)) = Some (drop 64 img)"
proof -
  obtain h body where h: "ram_header m a = Some h" "image_check_magic m a = Some True" "image_check_hcrc h"
    "image_check_dcrc m a h = Some True" "\<exists>cs. image_print_contents m a h = Some cs"
    "ih_arch h = p_arch p" "ih_type h = p_type p" "ih_os h = p_os p" "ih_comp h = p_comp p"
    "image_get_load h = p_addr p" "image_get_ep h = entry_point p" "unat (image_get_size h) = length body"
    "img = header_bytes h @ body" "holds m (image_get_data a) body" "length (header_bytes h) = 64"
    "image_get_magic h = IH_MAGIC"
    using mkimage_in_memory [OF assms(1-3)] by metis
  have magic: "uimage_to_cpu (ih_magic h) = IH_MAGIC"
    using h(16) by (simp add: image_get_magic_def)
  have "image_verify_header img = 0"
    using h(3,4,12,14,15) magic
    by (simp add: image_verify_header_def h(13) image_get_header_size_def bytes_header_own Let_def
        image_check_hcrc_def image_set_hcrc_def image_get_hcrc_def image_check_dcrc_def holds_def image_get_dcrc_def)
  then show ?thesis
    using h assms(4)
    by (auto simp: image_get_kernel_def image_info_def genimg_get_format_def IMAGE_FORMAT_LEGACY_def
        IMAGE_FORMAT_INVALID_def holds_def)
qed

lemma copy_file_pads:
  "copy_file False f pd = Some dat \<Longrightarrow> \<exists>z. dat = f @ z \<and> (pd \<longrightarrow> length dat = round4 (length f))"
proof -
  assume d: "copy_file False f pd = Some dat"
  have "n mod 4 \<noteq> 0 \<Longrightarrow> n + 4 - n mod 4 = (n + 3) div 4 * 4" "n mod 4 = 0 \<Longrightarrow> (n + 3) div 4 * 4 = n" for n :: nat
    by presburger+
  then show ?thesis
    using d by (auto simp: copy_file_def Let_def round4_def split: if_splits)
qed

lemma copy_files_holds:
  assumes "copy_files False fs = Some dat" "holds m a dat" "i < length fs"
  shows "holds m (a + of_nat (sum_list (map (round4 \<circ> length) (take i fs)))) (fs ! i)"
  using assms
proof (induction False fs arbitrary: a dat i rule: copy_files.induct)
  case (2 f)
  then show ?case using copy_file_pads [of f False dat] by (auto simp: holds_append)
next
  case (3 f g fs)
  then obtain d rest where d: "copy_file False f True = Some d" "copy_files False (g # fs) = Some rest" "dat = d @ rest"
    by (auto simp: bind_eq_Some_conv)
  obtain z where z: "d = f @ z" "length d = round4 (length f)"
    using copy_file_pads [OF d(1)] by auto
  have h: "holds m a f" "holds m (a + of_nat (round4 (length f))) rest"
  proof -
    have "holds m a d" "holds m (a + of_nat (length d)) rest"
      using "3.prems"(2) unfolding d(3) holds_append by blast+
    then show "holds m a f" "holds m (a + of_nat (round4 (length f))) rest"
      unfolding z(2) unfolding z(1) holds_append by blast+
  qed
  show ?case
  proof (cases i)
    case 0
    with h(1) show ?thesis by simp
  next
    case (Suc j)
    then show ?thesis
      using "3.hyps" [OF d(1,2) h(2), of j] "3.prems"(3) by (simp add: add.assoc)
  qed
qed simp

text \<open>C28:
  Every file packed into a multi-file image is found again: \<^verbatim>\<open>image_multi_getimg\<close> returns the address and
  length of exactly its bytes, for any number of files and any lengths (none of them empty).\<close>

theorem multi_file_found:
  assumes "mkimage p mtime fs = Some img" "ram_load m a (length img) = Some img" "length img \<le> 2 ^ 32"
    and "p_type p = IH_TYPE_MULTI" "\<not> p_xflag p" "\<forall>f \<in> set fs. f \<noteq> []" "i < length fs"
  shows "\<exists>d. image_multi_getimg m a (of_nat i) = Some (d, of_nat (length (fs ! i))) \<and>
    ram_load m d (length (fs ! i)) = Some (fs ! i)"
proof -
  obtain h body where body: "mkimage_body p fs = Some body" "holds m (image_get_data a) body"
    "img = header_bytes h @ body" "length (header_bytes h) = 64"
    using mkimage_in_memory [OF assms(1-3)] by metis
  obtain dat where dat: "copy_files False fs = Some dat" "body = size_table fs @ dat"
    "\<forall>f \<in> set fs. length f + 3 < 2 ^ 32" "length fs < 2 ^ 32"
    using multi_body [OF body(1)] assms(3,4,5) body(3,4) by auto
  note m = body(2) [unfolded dat(2)]
  have short: "\<forall>f \<in> set fs. length f < 2 ^ 32" using dat(3) by fastforce
  obtain k where k: "k \<le> length fs" "image_multi_count m a = Some (of_nat k)" "k = length fs \<or> fs ! k = []"
    using size_table_count [OF m short] by metis
  then have all: "k = length fs" using assms(6) by (metis le_neq_implies_less nth_mem)
  have "holds m (image_get_data a + 4 * of_nat (length fs) + 4 + of_nat (sum_list (map (round4 \<circ> length) (take i fs)))) (fs ! i)"
    by (rule copy_files_holds [OF dat(1) holds_size_table(3) [OF m] assms(7)])
  with multi_getimg_eq [OF m dat(3) k(2,1) dat(4), of i] assms(7) show ?thesis
    by (auto simp: all holds_def)
qed

definition place :: "u32 \<Rightarrow> u8 list \<Rightarrow> ram" where
  "place a bs x = (if in_block a (length bs) x then Some (bs ! unat (x - a)) else None)"

lemma ram_load_place: "length bs \<le> 2 ^ 32 \<Longrightarrow> ram_load (place a bs) a (length bs) = Some bs"
  by (auto simp: ram_load_eq place_def in_block_def)

definition sample_params :: "u8 \<Rightarrow> mkimage_params" where
  "sample_params type = \<lparr>p_eflag = True, p_xflag = False, p_os = IH_OS_LINUX, p_arch = IH_ARCH_ARM, p_type = type,
     p_comp = IH_COMP_NONE, p_addr = 0x30008000, p_ep = 0x30008000, p_imagename = Some (ascii ''kernel'')\<rparr>"

lemma sample_image:
  assumes "type \<in> {IH_TYPE_STANDALONE, IH_TYPE_KERNEL, IH_TYPE_RAMDISK}" "dat \<noteq> []"
  shows "\<exists>img. mkimage (sample_params type) 0 [dat] = Some img \<and> length img = 64 + length dat \<and> drop 64 img = dat"
  using assms
  by (auto simp: mkimage_unfold sample_params_def image_check_image_types_def IH_TYPE_STANDALONE_def IH_TYPE_KERNEL_def
      IH_TYPE_RAMDISK_def IH_TYPE_MULTI_def IH_TYPE_SCRIPT_def IH_TYPE_FLATDT_def image_get_header_size_def
      image_set_header_eq copy_file_def header_bytes_length)

lemma sample_multi:
  "\<exists>img. mkimage (sample_params IH_TYPE_MULTI) 0 [[1, 2, 3], [4, 5]] = Some img \<and> length img = 82"
  by (auto simp: mkimage_unfold sample_params_def image_check_image_types_def IH_TYPE_MULTI_def IH_TYPE_FLATDT_def
      image_get_header_size_def image_set_header_eq copy_file_def header_bytes_length size_table_length)

theorem mkimage_accepted_witness:
  "\<exists>img hdr. image_get_kernel (place 0x32000000 img) 0x32000000 True = Some (Some hdr) \<and>
    ram_load (place 0x32000000 img) (image_get_data 0x32000000) (unat (image_get_size hdr)) = Some [1, 2, 3]"
proof -
  obtain img where img: "mkimage (sample_params IH_TYPE_KERNEL) 0 [[1, 2, 3]] = Some img" "length img = 67"
    "drop 64 img = [1, 2, 3]"
    using sample_image [of IH_TYPE_KERNEL "[1, 2, 3]"] by auto
  have "ram_load (place 0x32000000 img) 0x32000000 (length img) = Some img"
    using img(2) by (intro ram_load_place) simp
  from mkimage_accepted [OF img(1) this, of True] img(2,3) show ?thesis
    by (auto simp: sample_params_def)
qed

theorem multi_file_found_witness:
  "\<exists>img d. image_multi_getimg (place 0x32000000 img) 0x32000000 (of_nat 1) = Some (d, 2) \<and>
    ram_load (place 0x32000000 img) d 2 = Some [4, 5]"
proof -
  obtain img where img: "mkimage (sample_params IH_TYPE_MULTI) 0 [[1, 2, 3], [4, 5]] = Some img" "length img = 82"
    using sample_multi by auto
  have mem: "ram_load (place 0x32000000 img) 0x32000000 (length img) = Some img"
    using img(2) by (intro ram_load_place) simp
  obtain d where d: "image_multi_getimg (place 0x32000000 img) 0x32000000 (of_nat 1) = Some (d, 2)"
      "ram_load (place 0x32000000 img) d (length [4 :: u8, 5]) = Some [4, 5]"
    using multi_file_found [OF img(1) mem, of 1] img(2) by (auto simp: sample_params_def)
  moreover have "length [4 :: u8, 5] = 2" by simp
  ultimately show ?thesis by metis
qed

text \<open>C21:
  With verification on, no damage confined to four consecutive bytes of the payload gets an image past
  \<^verbatim>\<open>image_get_kernel\<close>: the image is refused.  In a table of sizes such a damage can also lead the
  listing that precedes the check out of memory.\<close>

theorem damaged_payload_refused:
  assumes "mkimage p mtime fs = Some (hdr @ xs @ e @ ys)" "length hdr = 64"
    and "length e = length e'" "length e \<le> 4" "e \<noteq> e'"
    and "ram_load m a (length (hdr @ xs @ e' @ ys)) = Some (hdr @ xs @ e' @ ys)" "length (hdr @ xs @ e' @ ys) \<le> 2 ^ 32"
  shows "image_get_kernel m a True = Some None \<or>
    (p_type p = IH_TYPE_MULTI \<or> p_type p = IH_TYPE_SCRIPT) \<and> image_get_kernel m a True = None"
proof -
  obtain h nm body where h: "h = sealed (built_header (p\<lparr>p_ep := entry_point p\<rparr>) mtime nm body)"
    and img: "hdr @ xs @ e @ ys = header_bytes h @ body"
    using mkimage_SomeD [OF assms(1)] by metis
  have len: "length (ih_name h) = 32" by (simp add: h)
  have split: "hdr = header_bytes h" "body = xs @ e @ ys"
    using img assms(2) len by (simp_all add: append_eq_append_conv header_bytes_length)
  have m: "holds m a (header_bytes h @ xs @ e' @ ys)" using assms(6) split(1) by (simp add: holds_def)
  note hm = holds_header [OF m len]
  have magic: "image_check_magic m a = Some True" using hm(3) by (simp add: h)
  have sz: "unat (image_get_size h) = length (xs @ e' @ ys)"
    using assms(2,3,7) by (simp add: h split(2) del: of_nat_add)
  have "image_check_dcrc m a h = Some (crc32 0 (xs @ e' @ ys) = crc32 0 (xs @ e @ ys))"
    using hm(4) sz by (simp add: image_check_dcrc_def holds_def) (simp add: h split(2))
  also have "\<dots> = Some False" using crc32_burst [OF assms(3-5), of 0 xs ys] by simp
  finally have bad: "image_check_dcrc m a h = Some False" .
  have type: "ih_type h = p_type p" "image_check_hcrc h" by (simp_all add: h sealed_checks)
  show ?thesis
  proof (cases "image_print_contents m a h")
    case None
    then have "p_type p = IH_TYPE_MULTI \<or> p_type p = IH_TYPE_SCRIPT"
      using type(1) by (auto simp: image_print_contents_def split: if_splits)
    then show ?thesis using None magic hm(1) type(2) by (simp add: image_get_kernel_def)
  qed (use bad magic hm(1) type(2) in \<open>simp add: image_get_kernel_def\<close>)
qed

theorem damaged_payload_refused_witness:
  "\<exists>img. image_get_kernel (place 0x32000000 (take 64 img @ [1, 7, 3])) 0x32000000 True = Some None \<and>
    mkimage (sample_params IH_TYPE_KERNEL) 0 [[1, 2, 3]] = Some img"
proof -
  obtain img where img: "mkimage (sample_params IH_TYPE_KERNEL) 0 [[1, 2, 3]] = Some img" "length img = 67"
    "drop 64 img = [1, 2, 3]"
    using sample_image [of IH_TYPE_KERNEL "[1, 2, 3]"] by auto
  have eq: "mkimage (sample_params IH_TYPE_KERNEL) 0 [[1, 2, 3]] = Some (take 64 img @ [1] @ [2] @ [3])"
    using img(1,3) append_take_drop_id [of 64 img] by simp
  have "ram_load (place 0x32000000 (take 64 img @ [1] @ [7] @ [3])) 0x32000000 (length (take 64 img @ [1] @ [7] @ [3])) =
      Some (take 64 img @ [1] @ [7] @ [3])"
    using img(2) by (intro ram_load_place) simp
  from damaged_payload_refused [OF eq _ _ _ _ this] img show ?thesis
    by (simp add: sample_params_def IH_TYPE_KERNEL_def IH_TYPE_MULTI_def IH_TYPE_SCRIPT_def)
qed

end
