(* ===== verification/Elf.thy ===== *)
theory Elf
  imports Ram
begin

text \<open>
  Starting ELF files, \<^verbatim>\<open>common/cmd_elf.c\<close>: the check of the header, the loader, which copies the
  allocated sections to their addresses, \<^verbatim>\<open>bootelf\<close> and \<^verbatim>\<open>bootvx\<close>.  The commands end in the entry point
  (\<^verbatim>\<open>Inr\<close>) or return (\<^verbatim>\<open>Inl\<close>).  The theorems show what the loader leaves in memory and that \<^verbatim>\<open>bootvx\<close>
  without \<^verbatim>\<open>bootargs\<close> reads over the end of its buffer.
\<close>

section \<open>Copying\<close>

text \<open>
  \<^verbatim>\<open>memcpy\<close> copies upwards, by words when both addresses are aligned; the order is visible
  only when the target starts inside the source, where the distance is a multiple of the word, so
  the copy by bytes has the same result.
\<close>

fun ram_memcpy :: "ram \<Rightarrow> u32 \<Rightarrow> u32 \<Rightarrow> nat \<Rightarrow> ram option" where
  "ram_memcpy m dst src 0 = Some m"
| "ram_memcpy m dst src (Suc n) = do {
     b \<leftarrow> m src;
     if m dst = None then None else ram_memcpy (m(dst \<mapsto> b)) (dst + 1) (src + 1) n
   }"

fun ram_memset :: "ram \<Rightarrow> u32 \<Rightarrow> u8 \<Rightarrow> nat \<Rightarrow> ram option" where
  "ram_memset m a c 0 = Some m"
| "ram_memset m a c (Suc n) = (if m a = None then None else ram_memset (m(a \<mapsto> c)) (a + 1) c n)"

definition ram_half :: "ram \<Rightarrow> u32 \<Rightarrow> u16 option" where
  "ram_half m a = map_option (\<lambda>bs. ucast (bs ! 0) OR push_bit 8 (ucast (bs ! 1))) (ram_load m a 2)"

section \<open>The loader\<close>

definition SHF_ALLOC :: u32 where "SHF_ALLOC = 2"
definition SHT_NOBITS :: u32 where "SHT_NOBITS = 8"
definition SHT_STRTAB :: u32 where "SHT_STRTAB = 3"
definition ET_EXEC :: u16 where "ET_EXEC = 2"

fun ident_matches :: "ram \<Rightarrow> u32 \<Rightarrow> u8 list \<Rightarrow> bool option" where
  "ident_matches m a [] = Some True"
| "ident_matches m a (c # cs) = do {
     b \<leftarrow> m a;
     if b \<noteq> c then Some False else ident_matches m (a + 1) cs
   }"

definition valid_elf_image :: "ram \<Rightarrow> u32 \<Rightarrow> bool option" where
  "valid_elf_image m addr = do {
     elf \<leftarrow> ident_matches m addr [0x7f, 0x45, 0x4c, 0x46];
     if \<not> elf then Some False
     else do {
       e_type \<leftarrow> ram_half m (addr + 16);
       Some (e_type = ET_EXEC)
     }
   }"

record shdr =
  sh_type :: u32
  sh_flags :: u32
  sh_addr :: u32
  sh_offset :: u32
  sh_size :: u32

text \<open>The header of section \<open>i\<close>; the offset of the table is read each time.\<close>

definition section_header :: "ram \<Rightarrow> u32 \<Rightarrow> u32 \<Rightarrow> shdr option" where
  "section_header m addr i = do {
     e_shoff \<leftarrow> ram_word m (addr + 32);
     let a = addr + e_shoff + i * 40;
     ty \<leftarrow> ram_word m (a + 4);
     flags \<leftarrow> ram_word m (a + 8);
     saddr \<leftarrow> ram_word m (a + 12);
     offset \<leftarrow> ram_word m (a + 16);
     len \<leftarrow> ram_word m (a + 20);
     Some \<lparr>sh_type = ty, sh_flags = flags, sh_addr = saddr, sh_offset = offset, sh_size = len\<rparr>
   }"

definition load_section :: "ram \<Rightarrow> u32 \<Rightarrow> shdr \<Rightarrow> ram option" where
  "load_section m addr s =
     (if sh_flags s AND SHF_ALLOC = 0 \<or> sh_addr s = 0 \<or> sh_size s = 0 then Some m
      else if sh_type s = SHT_NOBITS then ram_memset m (sh_addr s) 0 (unat (sh_size s))
      else ram_memcpy m (sh_addr s) (addr + sh_offset s) (unat (sh_size s)))"

function load_sections :: "ram \<Rightarrow> u32 \<Rightarrow> nat \<Rightarrow> ram option" where
  "load_sections m addr i =
     (case ram_half m (addr + 48) of
        None \<Rightarrow> None
      | Some e_shnum \<Rightarrow>
          if unat e_shnum \<le> i then Some m
          else (case section_header m addr (of_nat i) of
                  None \<Rightarrow> None
                | Some s \<Rightarrow>
                    (case load_section m addr s of
                       None \<Rightarrow> None
                     | Some m \<Rightarrow> load_sections m addr (i + 1))))"
  by pat_completeness auto
termination
proof (relation "measure (\<lambda>(m, addr, i). 65536 - i)", simp)
  fix m :: ram and addr i and e :: u16 and s m'
  assume "\<not> unat e \<le> i"
  then have "i < 65536" using unat_u16_less [of e] by linarith
  then show "((m', addr, i + 1), m, addr, i) \<in> measure (\<lambda>(m, addr, i). 65536 - i)" by simp
qed

declare load_sections.simps [simp del]

text \<open>The names of the sections are only printed; their table is looked at first.\<close>

definition load_elf_image :: "ram \<Rightarrow> u32 \<Rightarrow> (u32 \<times> ram) option" where
  "load_elf_image m addr = do {
     e_shstrndx \<leftarrow> ram_half m (addr + 50);
     _ \<leftarrow> section_header m addr (ucast e_shstrndx);
     m \<leftarrow> load_sections m addr 0;
     e_entry \<leftarrow> ram_word m (addr + 24);
     Some (e_entry, m)
   }"

definition do_bootelf :: "ram \<Rightarrow> u8 list list \<Rightarrow> ('c, 'z) env_state_scheme \<Rightarrow> ((int + u32) \<times> ram) option" where
  "do_bootelf m argv s = do {
     let addr = (if length argv < 2 then load_addr s else fst (simple_strtoul (argv ! 1) 16));
     ok \<leftarrow> valid_elf_image m addr;
     if \<not> ok then Some (Inl 1, m)
     else do {
       (entry, m) \<leftarrow> load_elf_image m addr;
       Some (Inr entry, m)
     }
   }"

section \<open>VxWorks\<close>

definition CONFIG_SYS_VXWORKS_BOOT_ADDR :: u32 where "CONFIG_SYS_VXWORKS_BOOT_ADDR = 0x4200"

text \<open>A piece of the boot line appended to \<^verbatim>\<open>build_buf\<close> at its terminator.\<close>

definition append_field :: "u8 list \<Rightarrow> u8 list \<Rightarrow> u8 list \<Rightarrow> u8 list \<Rightarrow> u8 list option" where
  "append_field pre v post buf = do {
     n \<leftarrow> str_end buf 0;
     put_at buf n (pre @ v @ post @ [0])
   }"

definition optional_field ::
    "('c, 'z) env_state_scheme \<Rightarrow> string \<Rightarrow> string \<Rightarrow> u8 list \<Rightarrow> u8 list option" where
  "optional_field s var pre buf = do {
     v \<leftarrow> getenv_string s (ascii var);
     case v of None \<Rightarrow> Some buf | Some v \<Rightarrow> append_field (ascii pre) v [0x20] buf
   }"

definition boot_line :: "('c, 'z) env_state_scheme \<Rightarrow> u8 list \<Rightarrow> u8 list option" where
  "boot_line s build_buf = do {
     buf \<leftarrow> put_at build_buf 0 (ascii ''eth(0,0)'' @ [0]);
     v \<leftarrow> getenv_string s (ascii ''bootfile'');
     buf \<leftarrow> append_field (ascii ''srv:'') (case v of None \<Rightarrow> ascii ''file'' | Some v \<Rightarrow> v) [0x20] buf;
     buf \<leftarrow> optional_field s ''ipaddr'' ''e='' buf;
     buf \<leftarrow> optional_field s ''serverip'' ''h='' buf;
     optional_field s ''hostname'' ''tn='' buf
   }"

text \<open>The copy of \<^verbatim>\<open>max(strlen(line), 255)\<close> bytes from offset \<open>i\<close> of the object the line lies in.\<close>

definition copy_boot_line :: "ram \<Rightarrow> u32 \<Rightarrow> u8 list \<Rightarrow> nat \<Rightarrow> ram option" where
  "copy_boot_line m bootaddr buf i = do {
     e \<leftarrow> str_end buf i;
     let n = max (e - i) 255;
     if length buf < i + n then None else ram_store m bootaddr (take n (drop i buf))
   }"

text \<open>\<open>netloop\<close> is the TFTP transfer; \<open>build_buf\<close> the bytes the stack buffer starts with.\<close>

definition do_bootvx ::
    "(ram \<Rightarrow> (int \<times> ram) option) \<Rightarrow> u8 list \<Rightarrow> ram \<Rightarrow> u8 list list \<Rightarrow> ('c, 'z) env_state_scheme
     \<Rightarrow> ((int + u32) \<times> ram) option" where
  "do_bootvx netloop build_buf m argv s = do {
     let addr = (if length argv < 2 then load_addr s else fst (simple_strtoul (argv ! 1) 16));
     (r, m) \<leftarrow> (if length argv = 2 \<and> argv ! 1 = ascii ''tftp'' then netloop m else Some (1, m));
     if r \<le> 0 then Some (Inl 1, m)
     else do {
       b \<leftarrow> getenv_string s (ascii ''bootaddr'');
       let bootaddr = (case b of None \<Rightarrow> CONFIG_SYS_VXWORKS_BOOT_ADDR | Some v \<Rightarrow> fst (simple_strtoul v 16));
       bootline \<leftarrow> getenv s (ascii ''bootargs'');
       m \<leftarrow> (case bootline of
               Some i \<Rightarrow> copy_boot_line m bootaddr (env_area s) i
             | None \<Rightarrow> boot_line s build_buf \<bind> (\<lambda>buf. copy_boot_line m bootaddr buf 0));
       ok \<leftarrow> valid_elf_image m addr;
       (addr, m) \<leftarrow> (if ok then load_elf_image m addr else Some (addr, m));
       Some (Inr addr, m)
     }
   }"

section \<open>Copies and blocks\<close>

lemma ram_memset_store: "ram_memset m a c n = ram_store m a (replicate n c)"
  by (induction n arbitrary: m a) simp_all

lemma in_block_Suc: "in_block (a + 1) n x \<Longrightarrow> n < 2 ^ 32 \<Longrightarrow> in_block a (Suc n) x \<and> x \<noteq> a"
proof -
  assume x: "in_block (a + 1) n x" and n: "n < 2 ^ 32"
  then obtain i where i: "i < n" "x = a + 1 + of_nat i" by (auto simp: in_block_offset)
  then have "x - a = of_nat (Suc i)" by simp
  moreover have "unat (of_nat (Suc i) :: u32) = Suc i" using i n by (simp del: of_nat_Suc)
  ultimately have "unat (x - a) = Suc i" by simp
  then show ?thesis using i(1) by (auto simp: in_block_def)
qed

lemma ram_load_upd: "\<not> in_block a n x \<Longrightarrow> n \<le> 2 ^ 32 \<Longrightarrow> ram_load (m(x \<mapsto> b)) a n = ram_load m a n"
proof (induction n arbitrary: a)
  case (Suc n)
  have "a \<noteq> x" using Suc.prems(1) by (auto simp: in_block_def)
  moreover have "\<not> in_block (a + 1) n x"
    using Suc.prems in_block_Suc [of a n x] by auto
  ultimately show ?case using Suc by simp
qed simp

lemma ram_memcpy_eq:
  assumes "disjoint_blocks dst n src n" "n \<le> 2 ^ 32"
  shows "ram_memcpy m dst src n = ram_load m src n \<bind> ram_store m dst"
  using assms
proof (induction n arbitrary: m dst src)
  case (Suc n)
  have n: "n < 2 ^ 32" using Suc.prems(2) by simp
  have "in_block dst (Suc n) dst" by (simp add: in_block_def)
  then have "\<not> in_block (src + 1) n dst"
    using Suc.prems(1) in_block_Suc [OF _ n, of src dst] by (auto simp: disjoint_blocks_def)
  then have upd: "ram_load (m(dst \<mapsto> b)) (src + 1) n = ram_load m (src + 1) n" for b
    using n by (intro ram_load_upd) simp_all
  have "disjoint_blocks (dst + 1) n (src + 1) n"
    using Suc.prems(1) in_block_Suc [OF _ n] unfolding disjoint_blocks_def by blast
  then have IH: "ram_memcpy m' (dst + 1) (src + 1) n = ram_load m' (src + 1) n \<bind> ram_store m' (dst + 1)" for m'
    using Suc.IH n by simp
  show ?case
    by (cases "m src"; cases "m dst"; cases "ram_load m (src + 1) n") (simp_all add: IH upd)
qed simp

section \<open>What is loaded\<close>

definition agree :: "u32 \<Rightarrow> nat \<Rightarrow> ram \<Rightarrow> ram \<Rightarrow> bool" where
  "agree a n m m' \<longleftrightarrow> (\<forall>x. in_block a n x \<longrightarrow> m' x = m x)"

lemma agree_load:
  assumes "agree a n m m'" "off + k \<le> n" "n \<le> 2 ^ 32"
  shows "ram_load m' (a + of_nat off) k = ram_load m (a + of_nat off) k"
proof -
  have "m' (a + of_nat off + of_nat i) = m (a + of_nat off + of_nat i)" if "i < k" for i
  proof -
    have "unat (of_nat (off + i) :: u32) = off + i" using that assms(2,3) by (simp del: of_nat_add)
    then have "in_block a n (a + of_nat off + of_nat i)"
      using that assms(2) by (simp add: in_block_def add.assoc)
    then show ?thesis using assms(1) by (simp add: agree_def)
  qed
  then have "ram_load m' (a + of_nat off) k = Some ys \<longleftrightarrow> ram_load m (a + of_nat off) k = Some ys" for ys
    by (auto simp: ram_load_eq)
  then show ?thesis by (metis not_Some_eq)
qed

lemma agree_word:
  assumes "agree a n m m'" "off + 4 \<le> n" "n \<le> 2 ^ 32" "b = a + of_nat off"
  shows "ram_word m' b = ram_word m b"
  using agree_load [OF assms(1-3)] by (simp add: ram_word_def assms(4))

lemma agree_section:
  assumes "agree a n m m'" "n \<le> 2 ^ 32" "36 \<le> n" "ram_word m (a + 32) = Some shoff" "unat shoff + 40 * i + 40 \<le> n"
  shows "section_header m' a (of_nat i) = section_header m a (of_nat i)"
proof -
  have off: "ram_word m' (a + 32) = ram_word m (a + 32)"
    using assms(3) by (intro agree_word [OF assms(1) _ assms(2), of 32]) simp_all
  have field: "ram_word m' (a + shoff + of_nat i * 40 + of_nat k) = ram_word m (a + shoff + of_nat i * 40 + of_nat k)"
    if "k + 4 \<le> 40" for k
    using assms(5) that
    by (intro agree_word [OF assms(1) _ assms(2), of "unat shoff + 40 * i + k"]) (simp_all add: algebra_simps)
  show ?thesis
    using field [of 4] field [of 8] field [of 12] field [of 16] field [of 20] off assms(4)
    by (simp add: section_header_def Let_def)
qed

definition is_loaded :: "shdr \<Rightarrow> bool" where
  "is_loaded s \<longleftrightarrow> sh_flags s AND SHF_ALLOC \<noteq> 0 \<and> sh_addr s \<noteq> 0 \<and> sh_size s \<noteq> 0"

abbreviation target :: "shdr \<Rightarrow> u32 \<Rightarrow> bool" where
  "target s \<equiv> in_block (sh_addr s) (unat (sh_size s))"

definition section_bytes :: "ram \<Rightarrow> u32 \<Rightarrow> shdr \<Rightarrow> u8 list" where
  "section_bytes m addr s =
     (if sh_type s = SHT_NOBITS then replicate (unat (sh_size s)) 0
      else the (ram_load m (addr + sh_offset s) (unat (sh_size s))))"

text \<open>A file of \<open>n\<close> bytes at \<open>addr\<close> with sections \<open>ss\<close>, whose targets are memory outside the file and apart.\<close>

definition elf_at :: "ram \<Rightarrow> u32 \<Rightarrow> nat \<Rightarrow> shdr list \<Rightarrow> u32 \<Rightarrow> bool" where
  "elf_at m addr n ss entry \<longleftrightarrow>
     n \<le> 2 ^ 32 \<and> 52 \<le> n \<and> length ss < 65536 \<and> ram_half m (addr + 48) = Some (of_nat (length ss)) \<and>
     (\<exists>shoff strndx. ram_word m (addr + 32) = Some shoff \<and> unat shoff + 40 * length ss \<le> n \<and>
       ram_half m (addr + 50) = Some strndx \<and> unat strndx < length ss) \<and>
     (\<forall>i<length ss. section_header m addr (of_nat i) = Some (ss ! i)) \<and> ram_word m (addr + 24) = Some entry"

definition targets_ok :: "ram \<Rightarrow> u32 \<Rightarrow> nat \<Rightarrow> shdr list \<Rightarrow> bool" where
  "targets_ok m addr n ss \<longleftrightarrow>
     (\<forall>s \<in> set ss. is_loaded s \<longrightarrow>
        (\<forall>x. target s x \<longrightarrow> m x \<noteq> None \<and> \<not> in_block addr n x) \<and>
        (sh_type s \<noteq> SHT_NOBITS \<longrightarrow> unat (sh_offset s) + unat (sh_size s) \<le> n \<and>
           ram_load m (addr + sh_offset s) (unat (sh_size s)) \<noteq> None)) \<and>
     (\<forall>i<length ss. \<forall>j<i. is_loaded (ss ! i) \<longrightarrow> is_loaded (ss ! j) \<longrightarrow>
        disjoint_blocks (sh_addr (ss ! i)) (unat (sh_size (ss ! i))) (sh_addr (ss ! j)) (unat (sh_size (ss ! j))))"

lemma section_bytes_length:
  assumes "targets_ok m addr n ss" "s \<in> set ss" "is_loaded s"
  shows "length (section_bytes m addr s) = unat (sh_size s)"
proof (cases "sh_type s = SHT_NOBITS")
  case False
  then obtain bs where "ram_load m (addr + sh_offset s) (unat (sh_size s)) = Some bs"
    using assms unfolding targets_ok_def by blast
  then show ?thesis using False by (simp add: section_bytes_def ram_load_length)
qed (simp add: section_bytes_def)

lemma load_section_eq:
  assumes ok: "targets_ok m addr n ss" "s \<in> set ss" "n \<le> 2 ^ 32" and m': "agree addr n m m'"
    and dom: "\<forall>x. m' x = None \<longleftrightarrow> m x = None"
  shows "load_section m' addr s =
    Some (\<lambda>x. if is_loaded s \<and> target s x then Some (section_bytes m addr s ! unat (x - sh_addr s)) else m' x)"
proof (cases "is_loaded s")
  case False
  then show ?thesis by (auto simp: load_section_def is_loaded_def)
next
  case True
  let ?n = "unat (sh_size s)" and ?bs = "section_bytes m addr s"
  have len: "length ?bs = ?n" by (rule section_bytes_length [OF ok(1,2) True])
  have small: "length ?bs \<le> 2 ^ 32" using len by (simp add: less_imp_le)
  have mapped: "\<forall>i<length ?bs. m' (sh_addr s + of_nat i) \<noteq> None"
  proof (intro allI impI)
    fix i assume i: "i < length ?bs"
    then have "i < 4294967296" using len unat_u32_less [of "sh_size s"] by linarith
    then have "target s (sh_addr s + of_nat i)"
      using i len by (simp add: in_block_def)
    then show "m' (sh_addr s + of_nat i) \<noteq> None" using ok True dom by (auto simp: targets_ok_def)
  qed
  have store: "ram_store m' (sh_addr s) ?bs = Some (\<lambda>x. if target s x then Some (?bs ! unat (x - sh_addr s)) else m' x)"
    using ram_store_eq [OF small, of m' "sh_addr s"] mapped by (simp add: len)
  have "load_section m' addr s = ram_store m' (sh_addr s) ?bs"
  proof (cases "sh_type s = SHT_NOBITS")
    case True
    then show ?thesis
      using \<open>is_loaded s\<close> by (simp add: load_section_def is_loaded_def ram_memset_store section_bytes_def)
  next
    case False
    then have in_file: "unat (sh_offset s) + ?n \<le> n" "ram_load m (addr + sh_offset s) ?n = Some ?bs"
      using ok \<open>is_loaded s\<close> by (auto simp: targets_ok_def section_bytes_def)
    have "disjoint_blocks (sh_addr s) ?n (addr + sh_offset s) ?n"
      unfolding disjoint_blocks_def
    proof (intro allI notI, elim conjE)
      fix x assume x: "target s x" "in_block (addr + sh_offset s) ?n x"
      then obtain i where i: "i < ?n" "x = addr + sh_offset s + of_nat i" by (auto simp: in_block_offset)
      have "x - addr = of_nat (unat (sh_offset s) + i)" by (simp add: i(2))
      moreover have "unat (of_nat (unat (sh_offset s) + i) :: u32) = unat (sh_offset s) + i"
        using i(1) in_file(1) ok(3) by (intro unat_of_nat_u32) simp
      ultimately have "in_block addr n x" using i(1) in_file(1) by (simp add: in_block_def)
      then show False using ok(1,2) \<open>is_loaded s\<close> x(1) by (auto simp: targets_ok_def)
    qed
    moreover have "ram_load m' (addr + sh_offset s) ?n = Some ?bs"
      using agree_load [OF m' in_file(1) ok(3)] in_file(2) by simp
    ultimately show ?thesis
      using False \<open>is_loaded s\<close> by (simp add: load_section_def is_loaded_def ram_memcpy_eq less_imp_le)
  qed
  with store show ?thesis using True by simp
qed

text \<open>Memory after the first \<open>i\<close> sections.\<close>

definition loaded_upto :: "ram \<Rightarrow> u32 \<Rightarrow> shdr list \<Rightarrow> nat \<Rightarrow> ram \<Rightarrow> bool" where
  "loaded_upto m addr ss i m' \<longleftrightarrow>
     (\<forall>x. m' x = None \<longleftrightarrow> m x = None) \<and>
     (\<forall>j<i. is_loaded (ss ! j) \<longrightarrow>
        (\<forall>x. target (ss ! j) x \<longrightarrow> m' x = Some (section_bytes m addr (ss ! j) ! unat (x - sh_addr (ss ! j))))) \<and>
     (\<forall>x. (\<forall>j<i. is_loaded (ss ! j) \<longrightarrow> \<not> target (ss ! j) x) \<longrightarrow> m' x = m x)"

lemma loaded_upto_agree:
  assumes "loaded_upto m addr ss i m'" "targets_ok m addr n ss" "i \<le> length ss"
  shows "agree addr n m m'"
  unfolding agree_def
proof (intro allI impI)
  fix x assume x: "in_block addr n x"
  have "\<not> target (ss ! j) x" if "j < i" "is_loaded (ss ! j)" for j
    using that assms(2,3) x by (auto simp: targets_ok_def)
  then show "m' x = m x" using assms(1) by (simp add: loaded_upto_def)
qed

lemma load_sections_loaded:
  assumes elf: "elf_at m addr n ss entry" "targets_ok m addr n ss"
  shows "loaded_upto m addr ss i m' \<Longrightarrow> i \<le> length ss \<Longrightarrow>
    \<exists>m''. load_sections m' addr i = Some m'' \<and> loaded_upto m addr ss (length ss) m''"
proof (induction "length ss - i" arbitrary: i m')
  case base: 0
  have n: "n \<le> 2 ^ 32" "52 \<le> n" using elf(1) by (simp_all add: elf_at_def)
  have "ram_half m' (addr + 48) = ram_half m (addr + 48)"
    using agree_load [OF loaded_upto_agree [OF base.prems(1) elf(2) base.prems(2)], of 48 2] n by (simp add: ram_half_def)
  then have "ram_half m' (addr + 48) = Some (of_nat (length ss))" "length ss < 65536"
    using elf(1) by (simp_all add: elf_at_def)
  then show ?case
    using base by (subst load_sections.simps) simp
next
  case (Suc k)
  then have i: "i < length ss" and k: "k = length ss - Suc i" by simp_all
  note ag = loaded_upto_agree [OF Suc.prems(1) elf(2) Suc.prems(2)]
  have n: "n \<le> 2 ^ 32" "52 \<le> n" "length ss < 65536" using elf(1) by (simp_all add: elf_at_def)
  obtain shoff where shoff: "ram_word m (addr + 32) = Some shoff" "unat shoff + 40 * length ss \<le> n"
    using elf(1) by (auto simp: elf_at_def)
  have half: "ram_half m' (addr + 48) = Some (of_nat (length ss))"
    using agree_load [OF ag, of 48 2] n elf(1) by (simp add: ram_half_def elf_at_def)
  have hdr: "section_header m' addr (of_nat i) = Some (ss ! i)"
    using agree_section [OF ag n(1) _ shoff(1), of i] i shoff(2) n(2) elf(1) by (simp add: elf_at_def)
  have dom: "\<forall>x. m' x = None \<longleftrightarrow> m x = None" using Suc.prems(1) by (simp add: loaded_upto_def)
  let ?m = "\<lambda>x. if is_loaded (ss ! i) \<and> target (ss ! i) x
    then Some (section_bytes m addr (ss ! i) ! unat (x - sh_addr (ss ! i))) else m' x"
  have sec: "load_section m' addr (ss ! i) = Some ?m"
    by (rule load_section_eq [OF elf(2) _ n(1) ag dom]) (use i in simp)
  have "loaded_upto m addr ss (Suc i) ?m"
    unfolding loaded_upto_def
  proof (intro conjI allI impI)
    fix x show "(?m x = None) = (m x = None)"
      using dom elf(2) i by (auto simp: targets_ok_def)
  next
    fix j x assume j: "j < Suc i" "is_loaded (ss ! j)" "target (ss ! j) x"
    show "?m x = Some (section_bytes m addr (ss ! j) ! unat (x - sh_addr (ss ! j)))"
    proof (cases "j = i")
      case False
      then have "j < i" using j(1) by simp
      then have "\<not> (is_loaded (ss ! i) \<and> target (ss ! i) x)"
        using elf(2) i j unfolding targets_ok_def disjoint_blocks_def by blast
      then show ?thesis using Suc.prems(1) \<open>j < i\<close> j by (auto simp: loaded_upto_def)
    qed (use j in simp)
  next
    fix x assume "\<forall>j<Suc i. is_loaded (ss ! j) \<longrightarrow> \<not> target (ss ! j) x"
    then show "?m x = m x" using Suc.prems(1) by (auto simp: loaded_upto_def)
  qed
  then obtain m'' where "load_sections ?m addr (i + 1) = Some m''" "loaded_upto m addr ss (length ss) m''"
    using Suc.hyps(1) [of "Suc i" ?m] k i by auto
  with half hdr sec i n(3) show ?case
    by (subst load_sections.simps) simp
qed


text \<open>C27:
  Whatever the sections of an ELF file in memory are, if their targets are memory, apart from each
  other and from the file, \<^verbatim>\<open>load_elf_image\<close> returns the entry point, and then every allocated section
  lies at its address, the ones without contents cleared, and no other byte of memory has changed.\<close>

theorem elf_sections_loaded:
  assumes "elf_at m addr n ss entry" "targets_ok m addr n ss"
  shows "\<exists>m'. load_elf_image m addr = Some (entry, m') \<and>
    (\<forall>s \<in> set ss. is_loaded s \<longrightarrow> ram_load m' (sh_addr s) (unat (sh_size s)) = Some (section_bytes m addr s)) \<and>
    (\<forall>x. (\<forall>s \<in> set ss. is_loaded s \<longrightarrow> \<not> target s x) \<longrightarrow> m' x = m x)"
proof -
  have "loaded_upto m addr ss 0 m" by (simp add: loaded_upto_def)
  then obtain m' where m': "load_sections m addr 0 = Some m'" "loaded_upto m addr ss (length ss) m'"
    using load_sections_loaded [OF assms, of 0 m] by auto
  have n: "n \<le> 2 ^ 32" "52 \<le> n" using assms(1) by (simp_all add: elf_at_def)
  obtain strndx where strndx: "ram_half m (addr + 50) = Some strndx" "unat strndx < length ss"
    using assms(1) by (auto simp: elf_at_def)
  have "section_header m addr (of_nat (unat strndx)) = Some (ss ! unat strndx)"
    using assms(1) strndx(2) unfolding elf_at_def by blast
  moreover have "(of_nat (unat strndx) :: u32) = ucast strndx"
    by (simp add: word_unat_eq_iff less_trans [OF unat_u16_less])
  moreover have "ram_word m' (addr + 24) = Some entry"
    using agree_word [OF loaded_upto_agree [OF m'(2) assms(2)], of 24 "addr + 24"] n assms(1) by (simp add: elf_at_def)
  ultimately have load: "load_elf_image m addr = Some (entry, m')"
    using strndx(1) m'(1) by (simp add: load_elf_image_def)
  have sec: "ram_load m' (sh_addr s) (unat (sh_size s)) = Some (section_bytes m addr s)"
    if s: "s \<in> set ss" "is_loaded s" for s
    unfolding ram_load_eq
  proof (intro conjI allI impI)
    show len: "length (section_bytes m addr s) = unat (sh_size s)"
      by (rule section_bytes_length [OF assms(2) s])
    fix i assume i: "i < unat (sh_size s)"
    then have "i < 4294967296" using unat_u32_less [of "sh_size s"] by linarith
    then have u: "unat (of_nat i :: u32) = i" by simp
    obtain j where "j < length ss" "s = ss ! j" using s(1) by (auto simp: in_set_conv_nth)
    then show "m' (sh_addr s + of_nat i) = Some (section_bytes m addr s ! i)"
      using m'(2) s(2) i u by (auto simp: loaded_upto_def in_block_def)
  qed
  have rest: "m' x = m x" if "\<forall>s \<in> set ss. is_loaded s \<longrightarrow> \<not> target s x" for x
    using m'(2) that by (auto simp: loaded_upto_def)
  from load sec rest show ?thesis by blast
qed

text \<open>Without \<^verbatim>\<open>bootargs\<close>, whatever the other variables are, \<^verbatim>\<open>bootvx\<close>
  copies 255 bytes out of its buffer of 128: it never gets to start anything.\<close>

theorem bootvx_overreads:
  assumes "length build_buf = 128" "getenv s (ascii ''bootargs'') = Some None"
  shows "do_bootvx netloop build_buf m argv s = None \<or> (\<exists>m'. do_bootvx netloop build_buf m argv s = Some (Inl 1, m'))"
proof -
  have "copy_boot_line m' a buf 0 = None" if "length buf = 128" for m' a buf
    using that by (auto simp: copy_boot_line_def Let_def split: bind_splits)
  moreover have "length buf = 128" if "boot_line s build_buf = Some buf" for buf
    using that assms(1)
    by (auto simp: boot_line_def append_field_def optional_field_def bind_eq_Some_conv
        dest!: put_at_length split: option.splits)
  ultimately have "boot_line s build_buf \<bind> (\<lambda>buf. copy_boot_line m' a buf 0) = None" for m' a
    by (auto split: bind_splits)
  then show ?thesis
    using assms(2) by (auto simp: do_bootvx_def Let_def split: bind_splits)
qed

text \<open>A file with an empty section header, four bytes for 0x30008000 and eight bytes to clear at 0x30009000.\<close>

definition word_list :: "u32 list \<Rightarrow> u8 list" where
  "word_list ws = concat (map word_bytes ws)"

definition tiny_sections :: "shdr list" where
  "tiny_sections = [
     \<lparr>sh_type = 0, sh_flags = 0, sh_addr = 0, sh_offset = 0, sh_size = 0\<rparr>,
     \<lparr>sh_type = 1, sh_flags = 6, sh_addr = 0x30008000, sh_offset = 172, sh_size = 4\<rparr>,
     \<lparr>sh_type = 8, sh_flags = 3, sh_addr = 0x30009000, sh_offset = 176, sh_size = 8\<rparr>]"

definition tiny_elf :: "u8 list" where
  "tiny_elf = word_list [
     0x464c457f, 0x00010101, 0, 0, 0x00280002, 1, 0x30008000, 0, 52, 0, 0x00000034, 0x00280000, 0x00000003,
     0, 0, 0, 0, 0, 0, 0, 0, 0, 0,
     1, 1, 6, 0x30008000, 172, 4, 0, 0, 4, 0,
     7, 8, 3, 0x30009000, 176, 8, 0, 0, 4, 0,
     0x04030201]"

definition tiny_ram :: ram where
  "tiny_ram x = (if in_block 0x31000000 176 x then Some (tiny_elf ! unat (x - 0x31000000))
     else if in_block 0x30008000 4 x \<or> in_block 0x30009000 8 x then Some 0xaa else None)"

lemma tiny_elf_bytes: "tiny_elf = [
    127, 69, 76, 70, 1, 1, 1, 0, 0, 0, 0, 0, 0, 0, 0, 0, 2, 0, 40, 0, 1, 0, 0, 0, 0, 128, 0, 48, 0, 0, 0, 0,
    52, 0, 0, 0, 0, 0, 0, 0, 52, 0, 0, 0, 0, 0, 40, 0, 3, 0, 0, 0,
    0, 0, 0, 0, 0, 0, 0, 0, 0, 0, 0, 0, 0, 0, 0, 0, 0, 0, 0, 0, 0, 0, 0, 0, 0, 0, 0, 0, 0, 0, 0, 0, 0, 0, 0, 0, 0, 0, 0, 0,
    1, 0, 0, 0, 1, 0, 0, 0, 6, 0, 0, 0, 0, 128, 0, 48, 172, 0, 0, 0, 4, 0, 0, 0, 0, 0, 0, 0, 0, 0, 0, 0, 4, 0, 0, 0, 0, 0, 0, 0,
    7, 0, 0, 0, 8, 0, 0, 0, 3, 0, 0, 0, 0, 144, 0, 48, 176, 0, 0, 0, 8, 0, 0, 0, 0, 0, 0, 0, 0, 0, 0, 0, 4, 0, 0, 0, 0, 0, 0, 0,
    1, 2, 3, 4]"
  by (simp add: tiny_elf_def word_list_def word_bytes_def)

lemma tiny_byte: "n < 176 \<Longrightarrow> tiny_ram (0x31000000 + of_nat n) = Some (tiny_elf ! n)"
  by (simp add: tiny_ram_def in_block_def)

lemma tiny_load:
  "n + k \<le> 176 \<Longrightarrow> ram_load tiny_ram (0x31000000 + of_nat n) k = Some (take k (drop n tiny_elf))"
proof -
  assume n: "n + k \<le> 176"
  have "length tiny_elf = 176" by (simp add: tiny_elf_bytes)
  moreover have "tiny_ram (0x31000000 + of_nat n + of_nat i) = Some (tiny_elf ! (n + i))" if "i < k" for i
    using tiny_byte [of "n + i"] that n by (simp add: add.assoc)
  ultimately show ?thesis
    using n by (simp add: ram_load_eq)
qed

lemma tiny_word: "n + 4 \<le> 176 \<Longrightarrow> ram_word tiny_ram (0x31000000 + of_nat n) = Some (bytes_word (take 4 (drop n tiny_elf)))"
  by (simp add: ram_word_def tiny_load)

lemma tiny_half:
  "n + 2 \<le> 176 \<Longrightarrow> ram_half tiny_ram (0x31000000 + of_nat n) =
     Some (ucast (tiny_elf ! n) OR push_bit 8 (ucast (tiny_elf ! (n + 1))))"
  using tiny_load [of n 2] by (simp add: ram_half_def tiny_elf_bytes)

lemma tiny_elf_at: "elf_at tiny_ram 0x31000000 176 tiny_sections 0x30008000"
proof -
  have word: "ram_word tiny_ram (0x31000000 + of_nat n) = Some (bytes_word (take 4 (drop n tiny_elf)))" if "n + 4 \<le> 176" for n
    by (rule tiny_word [OF that])
  have shoff: "ram_word tiny_ram 0x31000020 = Some 52"
    using word [of 32] by (simp add: tiny_elf_bytes bytes_word_def)
  have fields: "ram_word tiny_ram 0x31000038 = Some 0" "ram_word tiny_ram 0x3100003C = Some 0"
      "ram_word tiny_ram 0x31000040 = Some 0" "ram_word tiny_ram 0x31000044 = Some 0" "ram_word tiny_ram 0x31000048 = Some 0"
      "ram_word tiny_ram 0x31000060 = Some 1" "ram_word tiny_ram 0x31000064 = Some 6"
      "ram_word tiny_ram 0x31000068 = Some 0x30008000" "ram_word tiny_ram 0x3100006C = Some 172" "ram_word tiny_ram 0x31000070 = Some 4"
      "ram_word tiny_ram 0x31000088 = Some 8" "ram_word tiny_ram 0x3100008C = Some 3"
      "ram_word tiny_ram 0x31000090 = Some 0x30009000" "ram_word tiny_ram 0x31000094 = Some 176" "ram_word tiny_ram 0x31000098 = Some 8"
    using word [of 56] word [of 60] word [of 64] word [of 68] word [of 72] word [of 96] word [of 100] word [of 104]
      word [of 108] word [of 112] word [of 136] word [of 140] word [of 144] word [of 148] word [of 152]
    by (simp_all add: tiny_elf_bytes bytes_word_def)
  have sections: "section_header tiny_ram 0x31000000 0 = Some (tiny_sections ! 0)"
      "section_header tiny_ram 0x31000000 1 = Some (tiny_sections ! 1)"
      "section_header tiny_ram 0x31000000 2 = Some (tiny_sections ! 2)"
    by (simp_all add: section_header_def shoff fields tiny_sections_def)
  have "section_header tiny_ram 0x31000000 (of_nat i) = Some (tiny_sections ! i)" if "i < 3" for i
  proof -
    from that consider "i = 0" | "i = 1" | "i = 2" by linarith
    then show ?thesis using sections by cases simp_all
  qed
  moreover have "ram_word tiny_ram 0x31000018 = Some 0x30008000"
    using word [of 24] by (simp add: tiny_elf_bytes bytes_word_def)
  moreover have "ram_half tiny_ram 0x31000030 = Some 3" "ram_half tiny_ram 0x31000032 = Some 0"
    using tiny_half [of 48] tiny_half [of 50] by (simp_all add: tiny_elf_bytes)
  ultimately show ?thesis
    by (simp add: elf_at_def shoff tiny_sections_def)
qed

lemma tiny_targets: "targets_ok tiny_ram 0x31000000 176 tiny_sections"
proof -
  have apart: "disjoint_blocks 0x30008000 4 0x31000000 176" "disjoint_blocks 0x30009000 8 0x31000000 176"
      "disjoint_blocks 0x30009000 8 0x30008000 4"
    by (rule disjoint_blocksI; simp)+
  have "ram_load tiny_ram 0x310000AC 4 \<noteq> None"
    using tiny_load [of 172 4] by simp
  then show ?thesis
    using apart
    by (auto simp: targets_ok_def tiny_sections_def is_loaded_def SHF_ALLOC_def SHT_NOBITS_def tiny_ram_def
        disjoint_blocks_def less_Suc_eq)
qed

theorem elf_sections_loaded_witness:
  "\<exists>m'. load_elf_image tiny_ram 0x31000000 = Some (0x30008000, m') \<and>
    ram_load m' 0x30008000 4 = Some [1, 2, 3, 4] \<and> ram_load m' 0x30009000 8 = Some (replicate 8 0)"
proof -
  have "ram_load tiny_ram 0x310000AC 4 = Some [1, 2, 3, 4]"
    using tiny_load [of 172 4] by (simp add: tiny_elf_bytes)
  then show ?thesis
    using elf_sections_loaded [OF tiny_elf_at tiny_targets]
    by (auto simp: tiny_sections_def is_loaded_def SHF_ALLOC_def SHT_NOBITS_def section_bytes_def)
qed

theorem bootvx_overreads_witness:
  "do_bootvx (\<lambda>m. None) (replicate 128 0) tiny_ram [] small_env = None \<or>
    (\<exists>m'. do_bootvx (\<lambda>m. None) (replicate 128 0) tiny_ram [] small_env = Some (Inl 1, m'))"
proof (rule bootvx_overreads)
  have name: "0 \<notin> set (ascii ''bootargs'')" "0x3d \<notin> set (ascii ''bootargs'')" by simp_all
  have "env_map small_entries (ascii ''bootargs'') = None"
    by (simp add: env_map_def small_entries_def entry_name_def entry_value_def)
  with getenv_lookup [OF small_inv name] show "getenv small_env (ascii ''bootargs'') = Some None"
    by (metis option.distinct(1))
qed simp

end
