(* ===== verification/Bootm.thy ===== *)
theory Bootm
  imports Lmb CmdParse Image Elf
begin

text \<open>
  Booting an image: \<^verbatim>\<open>bootm\<close> with its sub-commands (\<^verbatim>\<open>common/cmd_bootm.c\<close>), the search for the ramdisk
  (\<^verbatim>\<open>common/image.c\<close>), the start of Linux with its list of tags (\<^verbatim>\<open>lib_arm/bootm.c\<close>) and the header of a
  compressed kernel (\<^verbatim>\<open>lib_generic/gunzip.c\<close>; the decoder behind it is a parameter).  A command ends by
  returning, by a reset, or by entering the program it has loaded.  The theorems follow an image from
  \<^verbatim>\<open>mkimage\<close> to the entry of the kernel, say in which order the sub-commands can be given, and where a
  header that passes all checks leads out of the program.
\<close>

section \<open>State\<close>

record image_info =
  os_start :: u32
  os_end :: u32
  os_image_start :: u32
  os_image_len :: u32
  os_load :: u32
  os_comp :: u8
  os_type :: u8
  os_os :: u8

record bootm_headers =
  legacy_hdr_os :: u32
  legacy_hdr_os_copy :: image_header
  legacy_hdr_valid :: bool
  im_os :: image_info
  im_ep :: u32
  rd_start :: u32
  rd_end :: u32
  im_verify :: bool
  im_state :: u32
  im_lmb :: lmb

record bd_info =
  bi_arch_number :: u32
  bi_boot_params :: u32
  bi_dram_start :: u32
  bi_dram_size :: u32

record 'c board = "'c env_state" +
  ram :: ram
  images :: bootm_headers
  bd :: bd_info
  interrupts :: bool

text \<open>What the commands call that is not modelled: console redirection, the inflate decoder (target, room,
  source, length and the offset of the data behind the header), and the bytes a stack buffer starts with.\<close>

record 'c world =
  w_console :: "nat \<Rightarrow> u8 list \<Rightarrow> 'c \<Rightarrow> int \<times> 'c"
  w_zunzip :: "ram \<Rightarrow> u32 \<Rightarrow> u32 \<Rightarrow> u32 \<Rightarrow> u32 \<Rightarrow> u32 \<Rightarrow> (int \<times> u32 \<times> ram) option"
  w_stack :: "u8 list"

datatype entry =
    Linux (entry_at: u32) (entry_machid: u32) (entry_params: u32)
  | Netbsd u32 "u32 option" "u8 list"
  | Rtems u32
  | Elf u32
  | Vxworks u32
  | Application u32 "u8 list list"

datatype 'c outcome =
    Returns int "'c board"
  | Resets "'c board"
  | Enters entry "'c board"

definition BOOTM_STATE_START :: u32 where "BOOTM_STATE_START = 0x01"
definition BOOTM_STATE_LOADOS :: u32 where "BOOTM_STATE_LOADOS = 0x02"
definition BOOTM_STATE_OS_CMDLINE :: u32 where "BOOTM_STATE_OS_CMDLINE = 0x10"
definition BOOTM_STATE_OS_BD_T :: u32 where "BOOTM_STATE_OS_BD_T = 0x20"
definition BOOTM_STATE_OS_PREP :: u32 where "BOOTM_STATE_OS_PREP = 0x40"
definition BOOTM_STATE_OS_GO :: u32 where "BOOTM_STATE_OS_GO = 0x80"

definition zero_images :: bootm_headers where
  "zero_images =
     \<lparr>legacy_hdr_os = 0, legacy_hdr_os_copy = bytes_header (replicate 64 0), legacy_hdr_valid = False,
      im_os = \<lparr>os_start = 0, os_end = 0, os_image_start = 0, os_image_len = 0, os_load = 0, os_comp = 0,
               os_type = 0, os_os = 0\<rparr>,
      im_ep = 0, rd_start = 0, rd_end = 0, im_verify = False, im_state = 0, im_lmb = lmb_blank\<rparr>"

section \<open>Finding the kernel and the ramdisk\<close>

definition getenv_bootm_low :: "'c board \<Rightarrow> u32 option" where
  "getenv_bootm_low s = do {
     v \<leftarrow> getenv_string s (ascii ''bootm_low'');
     Some (case v of Some v \<Rightarrow> fst (simple_strtoul v 16) | None \<Rightarrow> bi_dram_start (bd s))
   }"

definition getenv_bootm_size :: "'c board \<Rightarrow> u32 option" where
  "getenv_bootm_size s = do {
     v \<leftarrow> getenv_string s (ascii ''bootm_size'');
     Some (case v of Some v \<Rightarrow> fst (simple_strtoul v 16) | None \<Rightarrow> bi_dram_size (bd s))
   }"

text \<open>The result \<^verbatim>\<open>None\<close> inside is the null pointer, with a length of 0.\<close>

definition boot_get_kernel :: "u8 list list \<Rightarrow> 'c board \<Rightarrow> ((u32 \<times> u32 \<times> u32) option \<times> 'c board) option" where
  "boot_get_kernel argv s = do {
     let img_addr = (if length argv < 2 then load_addr s else fst (simple_strtoul (argv ! 1) 16));
     format \<leftarrow> genimg_get_format (ram s) img_addr;
     if format \<noteq> IMAGE_FORMAT_LEGACY then Some (None, s)
     else do {
       hdr \<leftarrow> image_get_kernel (ram s) img_addr (im_verify (images s));
       case hdr of
         None \<Rightarrow> Some (None, s)
       | Some hdr \<Rightarrow> do {
           found \<leftarrow>
             (if ih_type hdr = IH_TYPE_KERNEL
              then Some (Some (image_get_data img_addr, image_get_size hdr, ram s))
              else if ih_type hdr = IH_TYPE_MULTI
              then map_option (\<lambda>(d, l). Some (d, l, ram s)) (image_multi_getimg (ram s) img_addr 0)
              else if ih_type hdr = IH_TYPE_STANDALONE
              then do {
                m \<leftarrow> (if 2 < length argv
                      then ram_set_word (ram s) (img_addr + 16) (htonl (fst (simple_strtoul (argv ! 2) 16)))
                      else Some (ram s));
                Some (Some (image_get_data img_addr, image_get_size hdr, m))
              }
              else Some None);
           case found of
             None \<Rightarrow> Some (None, s)
           | Some (os_data, os_len, m) \<Rightarrow> do {
               copy \<leftarrow> ram_header m img_addr;
               Some (Some (img_addr, os_data, os_len),
                 s\<lparr>ram := m, images := (images s)\<lparr>legacy_hdr_os_copy := copy, legacy_hdr_os := img_addr,
                     legacy_hdr_valid := True\<rparr>\<rparr>)
             }
         }
     }
   }"

text \<open>The return code with the start and the end of the ramdisk.\<close>

definition boot_get_ramdisk :: "u8 list list \<Rightarrow> u8 \<Rightarrow> 'c board \<Rightarrow> (int \<times> u32 \<times> u32) option" where
  "boot_get_ramdisk argv arch s =
     (let found = (\<lambda>(rd_data, rd_len). if rd_data = 0 then (0, 0, 0) else (0, rd_data, rd_data + rd_len))
      in if 3 \<le> length argv \<and> argv ! 2 = ascii ''-'' then Some (0, 0, 0)
         else if 3 \<le> length argv
         then do {
           let rd_addr = fst (simple_strtoul (argv ! 2) 16);
           format \<leftarrow> genimg_get_format (ram s) rd_addr;
           if format \<noteq> IMAGE_FORMAT_LEGACY then Some (1, 0, 0)
           else do {
             hdr \<leftarrow> image_get_ramdisk (ram s) rd_addr arch (im_verify (images s));
             case hdr of
               None \<Rightarrow> Some (1, 0, 0)
             | Some hdr \<Rightarrow> Some (found (image_get_data rd_addr, image_get_size hdr))
           }
         }
         else if legacy_hdr_valid (images s) \<and> ih_type (legacy_hdr_os_copy (images s)) = IH_TYPE_MULTI
         then map_option found (image_multi_getimg (ram s) (legacy_hdr_os (images s)) 1)
         else Some (0, 0, 0))"

definition bootm_start :: "u8 list list \<Rightarrow> 'c board \<Rightarrow> (int \<times> 'c board) option" where
  "bootm_start argv s = do {
     verify \<leftarrow> getenv_yesno s (ascii ''verify'');
     l \<leftarrow> lmb_init (im_lmb zero_images);
     mem_start \<leftarrow> getenv_bootm_low s;
     mem_size \<leftarrow> getenv_bootm_size s;
     (_, l) \<leftarrow> lmb_add l mem_start mem_size;
     let s = s\<lparr>images := zero_images\<lparr>im_verify := verify, im_lmb := l\<rparr>\<rparr>;
     (kernel, s) \<leftarrow> boot_get_kernel argv s;
     case kernel of
       None \<Rightarrow> Some (1, s)
     | Some (os_hdr, os_data, os_len) \<Rightarrow> do {
         let im = images s;
         let s = s\<lparr>images := im\<lparr>im_os := (im_os im)\<lparr>os_image_start := os_data, os_image_len := os_len\<rparr>\<rparr>\<rparr>;
         if os_len = 0 then Some (1, s)
         else do {
           format \<leftarrow> genimg_get_format (ram s) os_hdr;
           if format \<noteq> IMAGE_FORMAT_LEGACY then Some (1, s)
           else do {
             hdr \<leftarrow> ram_header (ram s) os_hdr;
             let im = images s;
             let info = (im_os im)\<lparr>os_type := ih_type hdr, os_comp := ih_comp hdr, os_os := ih_os hdr,
                                   os_end := image_get_image_end os_hdr hdr, os_load := image_get_load hdr\<rparr>;
             let s = s\<lparr>images := im\<lparr>im_os := info, im_ep := image_get_ep (legacy_hdr_os_copy im)\<rparr>\<rparr>;
             (r, rs, re) \<leftarrow> (if os_os info = IH_OS_LINUX then boot_get_ramdisk argv IH_ARCH_ARM s
                            else Some (0, 0, 0));
             let s = s\<lparr>images := (images s)\<lparr>rd_start := rs, rd_end := re\<rparr>\<rparr>;
             if r \<noteq> 0 then Some (1, s)
             else Some (0, s\<lparr>images := (images s)\<lparr>im_os := info\<lparr>os_start := os_hdr\<rparr>,
                                                im_state := BOOTM_STATE_START\<rparr>\<rparr>)
           }
         }
       }
   }"

section \<open>Loading\<close>

text \<open>The string behind the header of a compressed file; its end is looked for without a bound.\<close>

partial_function (option) skip_string :: "ram \<Rightarrow> u32 \<Rightarrow> u32 \<Rightarrow> u32 option" where
  "skip_string m src i =
     (case m (src + i) of
        None \<Rightarrow> None
      | Some c \<Rightarrow> if c \<noteq> 0 then skip_string m src (i + 1) else Some (i + 1))"

definition gunzip :: "'c world \<Rightarrow> ram \<Rightarrow> u32 \<Rightarrow> u32 \<Rightarrow> u32 \<Rightarrow> u32 \<Rightarrow> (int \<times> u32 \<times> ram) option" where
  "gunzip w m dst dstlen src len = do {
     flags \<leftarrow> m (src + 3);
     method \<leftarrow> m (src + 2);
     if method \<noteq> 8 \<or> flags AND 0xe0 \<noteq> 0 then Some (- 1, len, m)
     else do {
       i \<leftarrow> (if flags AND 4 \<noteq> 0
             then do { lo \<leftarrow> m (src + 10); hi \<leftarrow> m (src + 11); Some (12 + ucast lo + push_bit 8 (ucast hi)) }
             else Some 10);
       i \<leftarrow> (if flags AND 8 \<noteq> 0 then skip_string m src i else Some i);
       i \<leftarrow> (if flags AND 0x10 \<noteq> 0 then skip_string m src i else Some i);
       let i = (if flags AND 2 \<noteq> 0 then i + 2 else i);
       if len \<le> i then Some (- 1, len, m) else w_zunzip w m dst dstlen src len i
     }
   }"

definition BOOTM_ERR_RESET :: int where "BOOTM_ERR_RESET = - 1"
definition BOOTM_ERR_OVERLAP :: int where "BOOTM_ERR_OVERLAP = - 2"
definition BOOTM_ERR_UNIMPLEMENTED :: int where "BOOTM_ERR_UNIMPLEMENTED = - 3"
definition CONFIG_SYS_BOOTM_LEN :: u32 where "CONFIG_SYS_BOOTM_LEN = 0x800000"

text \<open>The code, \<^verbatim>\<open>*load_end\<close> (unchanged on an early return) and the memory.\<close>

definition bootm_load_os :: "'c world \<Rightarrow> image_info \<Rightarrow> u32 \<Rightarrow> ram \<Rightarrow> (int \<times> u32 \<times> ram) option" where
  "bootm_load_os w os load_end m =
     (let load = os_load os;
          blob_start = os_start os;
          blob_end = os_end os;
          finish = (\<lambda>load_end m. Some (if load < blob_end \<and> load_end > blob_start then BOOTM_ERR_OVERLAP else 0, load_end, m))
      in if os_comp os = IH_COMP_NONE
         then do {
           m \<leftarrow> (if load = blob_start \<or> load = os_image_start os then Some m
                 else ram_memmove m load (os_image_start os) (os_image_len os));
           finish (load + os_image_len os) m
         }
         else if os_comp os = IH_COMP_GZIP
         then do {
           (r, len, m) \<leftarrow> gunzip w m load CONFIG_SYS_BOOTM_LEN (os_image_start os) (os_image_len os);
           if r \<noteq> 0 then Some (BOOTM_ERR_RESET, load_end, m) else finish (load + len) m
         }
         else Some (BOOTM_ERR_UNIMPLEMENTED, load_end, m))"

section \<open>Starting Linux\<close>

definition ATAG_NONE :: u32 where "ATAG_NONE = 0"
definition ATAG_CORE :: u32 where "ATAG_CORE = 0x54410001"
definition ATAG_MEM :: u32 where "ATAG_MEM = 0x54410002"
definition ATAG_INITRD2 :: u32 where "ATAG_INITRD2 = 0x54420005"
definition ATAG_CMDLINE :: u32 where "ATAG_CMDLINE = 0x54410009"

fun put_words :: "ram \<Rightarrow> u32 \<Rightarrow> u32 list \<Rightarrow> ram option" where
  "put_words m a [] = Some m"
| "put_words m a (w # ws) = do { m \<leftarrow> ram_set_word m a w; put_words m (a + 4) ws }"

definition tag_next :: "ram \<Rightarrow> u32 \<Rightarrow> u32 option" where
  "tag_next m t = map_option (\<lambda>sz. t + 4 * sz) (ram_word m t)"

text \<open>Each returns the memory and the new \<^verbatim>\<open>params\<close>; the header is the size in words and the tag.\<close>

definition setup_start_tag :: "ram \<Rightarrow> u32 \<Rightarrow> (ram \<times> u32) option" where
  "setup_start_tag m params = do {
     m \<leftarrow> put_words m params [5, ATAG_CORE, 0, 0, 0];
     params \<leftarrow> tag_next m params;
     Some (m, params)
   }"

definition setup_memory_tags :: "bd_info \<Rightarrow> ram \<Rightarrow> u32 \<Rightarrow> (ram \<times> u32) option" where
  "setup_memory_tags b m params = do {
     m \<leftarrow> put_words m params [4, ATAG_MEM, bi_dram_size b, bi_dram_start b];
     params \<leftarrow> tag_next m params;
     Some (m, params)
   }"

definition setup_commandline_tag :: "u8 list option \<Rightarrow> ram \<Rightarrow> u32 \<Rightarrow> (ram \<times> u32) option" where
  "setup_commandline_tag commandline m params =
     (case commandline of
        None \<Rightarrow> Some (m, params)
      | Some line \<Rightarrow>
          (let p = dropWhile (\<lambda>c. c = 0x20) line
           in if p = [] then Some (m, params)
              else do {
                m \<leftarrow> put_words m params [drop_bit 2 (of_nat (8 + length p + 1 + 4)), ATAG_CMDLINE];
                m \<leftarrow> ram_store m (params + 8) (p @ [0]);
                params \<leftarrow> tag_next m params;
                Some (m, params)
              }))"

definition setup_initrd_tag :: "u32 \<Rightarrow> u32 \<Rightarrow> ram \<Rightarrow> u32 \<Rightarrow> (ram \<times> u32) option" where
  "setup_initrd_tag initrd_start initrd_end m params = do {
     m \<leftarrow> put_words m params [4, ATAG_INITRD2, initrd_start, initrd_end - initrd_start];
     params \<leftarrow> tag_next m params;
     Some (m, params)
   }"

definition setup_end_tag :: "ram \<Rightarrow> u32 \<Rightarrow> ram option" where
  "setup_end_tag m params = put_words m params [0, ATAG_NONE]"

definition do_bootm_linux :: "u32 \<Rightarrow> 'c board \<Rightarrow> 'c outcome option" where
  "do_bootm_linux flag s = do {
     commandline \<leftarrow> getenv_string s (ascii ''bootargs'');
     if flag \<noteq> 0 \<and> flag \<noteq> BOOTM_STATE_OS_GO then Some (Returns 1 s)
     else do {
       v \<leftarrow> getenv_string s (ascii ''machid'');
       let machid = (case v of Some v \<Rightarrow> fst (simple_strtoul v 16) | None \<Rightarrow> bi_arch_number (bd s));
       (m, params) \<leftarrow> setup_start_tag (ram s) (bi_boot_params (bd s));
       (m, params) \<leftarrow> setup_memory_tags (bd s) m params;
       (m, params) \<leftarrow> setup_commandline_tag commandline m params;
       (m, params) \<leftarrow> (if rd_start (images s) \<noteq> 0 \<and> rd_end (images s) \<noteq> 0
                       then setup_initrd_tag (rd_start (images s)) (rd_end (images s)) m params
                       else Some (m, params));
       m \<leftarrow> setup_end_tag m params;
       Some (Enters (Linux (im_ep (images s)) machid (bi_boot_params (bd s))) (s\<lparr>ram := m\<rparr>))
     }
   }"

section \<open>Other operating systems\<close>

fun join_args :: "u8 list list \<Rightarrow> u8 list" where
  "join_args [] = []"
| "join_args [a] = a"
| "join_args (a # b # as) = a @ 0x20 # join_args (b # as)"

definition do_bootm_netbsd :: "u32 \<Rightarrow> u8 list list \<Rightarrow> 'c board \<Rightarrow> 'c outcome option" where
  "do_bootm_netbsd flag argv s =
     (if flag \<noteq> 0 \<and> flag \<noteq> BOOTM_STATE_OS_GO then Some (Returns 1 s)
      else do {
        os_hdr \<leftarrow> (if ih_type (legacy_hdr_os_copy (images s)) = IH_TYPE_MULTI
                   then map_option (\<lambda>(_, l). if l \<noteq> 0 then Some (legacy_hdr_os (images s)) else None)
                          (image_multi_getimg (ram s) (legacy_hdr_os (images s)) 1)
                   else Some None);
        cmdline \<leftarrow> (if 2 < length argv then Some (join_args (drop 2 argv))
                    else map_option (\<lambda>v. case v of None \<Rightarrow> [] | Some v \<Rightarrow> v) (getenv_string s (ascii ''bootargs'')));
        Some (Enters (Netbsd (im_ep (images s)) os_hdr cmdline) s)
      })"

definition do_bootm_rtems :: "u32 \<Rightarrow> 'c board \<Rightarrow> 'c outcome option" where
  "do_bootm_rtems flag s =
     (if flag \<noteq> 0 \<and> flag \<noteq> BOOTM_STATE_OS_GO then Some (Returns 1 s)
      else Some (Enters (Rtems (im_ep (images s))) s))"

definition do_bootm_vxworks :: "'c world \<Rightarrow> u32 \<Rightarrow> 'c board \<Rightarrow> 'c outcome option" where
  "do_bootm_vxworks w flag s =
     (if flag \<noteq> 0 \<and> flag \<noteq> BOOTM_STATE_OS_GO then Some (Returns 1 s)
      else do {
        str \<leftarrow> printf_text (ascii ''%lx'') [VInt (im_ep (images s))];
        (_, s) \<leftarrow> setenv (w_console w) (ascii ''loadaddr'') (Some str) s;
        (r, m) \<leftarrow> do_bootvx (\<lambda>m. None) (w_stack w) (ram s) [] s;
        let s = s\<lparr>ram := m\<rparr>;
        case r of Inl _ \<Rightarrow> Some (Returns 1 s) | Inr a \<Rightarrow> Some (Enters (Vxworks a) s)
      })"

definition do_bootm_qnxelf :: "u32 \<Rightarrow> u8 list list \<Rightarrow> 'c board \<Rightarrow> 'c outcome option" where
  "do_bootm_qnxelf flag argv s =
     (if flag \<noteq> 0 \<and> flag \<noteq> BOOTM_STATE_OS_GO then Some (Returns 1 s)
      else do {
        str \<leftarrow> printf_text (ascii ''%lx'') [VInt (im_ep (images s))];
        (r, m) \<leftarrow> do_bootelf (ram s) [hd argv, str] s;
        let s = s\<lparr>ram := m\<rparr>;
        case r of Inl _ \<Rightarrow> Some (Returns 1 s) | Inr a \<Rightarrow> Some (Enters (Elf a) s)
      })"

datatype boot_os_fn = BootLinux | BootNetbsd | BootRtems | BootVxworks | BootQnx

text \<open>The entry of the table; \<^verbatim>\<open>Some None\<close> is a null pointer, \<^verbatim>\<open>None\<close> an index behind its 19 entries.\<close>

definition boot_os :: "u8 \<Rightarrow> boot_os_fn option option" where
  "boot_os os =
     (if 19 \<le> unat os then None
      else Some (if os = IH_OS_LINUX then Some BootLinux
                 else if os = IH_OS_NETBSD then Some BootNetbsd
                 else if os = IH_OS_RTEMS then Some BootRtems
                 else if os = IH_OS_VXWORKS then Some BootVxworks
                 else if os = IH_OS_QNX then Some BootQnx
                 else None))"

fun call_boot_fn :: "'c world \<Rightarrow> boot_os_fn \<Rightarrow> u32 \<Rightarrow> u8 list list \<Rightarrow> 'c board \<Rightarrow> 'c outcome option" where
  "call_boot_fn w BootLinux flag argv s = do_bootm_linux flag s"
| "call_boot_fn w BootNetbsd flag argv s = do_bootm_netbsd flag argv s"
| "call_boot_fn w BootRtems flag argv s = do_bootm_rtems flag s"
| "call_boot_fn w BootVxworks flag argv s = do_bootm_vxworks w flag s"
| "call_boot_fn w BootQnx flag argv s = do_bootm_qnxelf flag argv s"

section \<open>The command\<close>

text \<open>The entry point is converted once more from network order.\<close>

definition bootm_start_standalone :: "'c world \<Rightarrow> u8 list list \<Rightarrow> 'c board \<Rightarrow> 'c outcome option" where
  "bootm_start_standalone w argv s = do {
     v \<leftarrow> getenv_string s (ascii ''autostart'');
     if v = Some (ascii ''no'')
     then do {
       buf \<leftarrow> printf_text (ascii ''%lX'') [VInt (os_image_len (im_os (images s)))];
       (_, s) \<leftarrow> setenv (w_console w) (ascii ''filesize'') (Some buf) s;
       Some (Returns 0 s)
     }
     else Some (Enters (Application (htonl (im_ep (images s))) (tl argv)) s)
   }"

definition cmd_bootm_sub :: "u32 cmd_tbl list" where
  "cmd_bootm_sub = map (\<lambda>(n, st). \<lparr>cmd_name = ascii n, maxargs = 0, repeatable = 1, cmd = OtherCmd st\<rparr>)
     [(''start'', BOOTM_STATE_START), (''loados'', BOOTM_STATE_LOADOS), (''cmdline'', BOOTM_STATE_OS_CMDLINE),
      (''bdt'', BOOTM_STATE_OS_BD_T), (''prep'', BOOTM_STATE_OS_PREP), (''go'', BOOTM_STATE_OS_GO)]"

definition reserve_loaded :: "u32 \<Rightarrow> 'c board \<Rightarrow> 'c board option" where
  "reserve_loaded load_end s = do {
     let load = os_load (im_os (images s));
     (_, l) \<leftarrow> lmb_reserve (im_lmb (images s)) load (load_end - load);
     Some (s\<lparr>images := (images s)\<lparr>im_lmb := l\<rparr>\<rparr>)
   }"

text \<open>A step of the boot function; calling the null pointer is undefined.  \<^verbatim>\<open>go\<close> ignores the result.\<close>

definition bootm_os_step :: "'c world \<Rightarrow> u32 \<Rightarrow> u8 list list \<Rightarrow> 'c board \<Rightarrow> 'c outcome option" where
  "bootm_os_step w st argv s = do {
     fn \<leftarrow> boot_os (os_os (im_os (images s)));
     case fn of
       None \<Rightarrow> None
     | Some f \<Rightarrow>
         if st = BOOTM_STATE_OS_GO
         then do {
           r \<leftarrow> call_boot_fn w f st argv (s\<lparr>interrupts := False\<rparr>);
           Some (case r of Returns _ s \<Rightarrow> Returns 0 s | r \<Rightarrow> r)
         }
         else call_boot_fn w f st argv s
   }"

definition do_bootm_subcommand :: "'c world \<Rightarrow> u8 list list \<Rightarrow> 'c board \<Rightarrow> 'c outcome option" where
  "do_bootm_subcommand w argv s = do {
     c \<leftarrow> find_cmd_tbl (argv ! 1) cmd_bootm_sub;
     case map_option (\<lambda>i. cmd (cmd_bootm_sub ! i)) c of
       Some (OtherCmd st) \<Rightarrow>
         if st = BOOTM_STATE_START then map_option (\<lambda>(r, s). Returns r s) (bootm_start (tl argv) s)
         else if sint (im_state (images s)) \<ge> sint st then Some (Returns 1 s)
         else do {
           let s = s\<lparr>images := (images s)\<lparr>im_state := im_state (images s) OR st\<rparr>\<rparr>;
           _ \<leftarrow> boot_os (os_os (im_os (images s)));
           if st = BOOTM_STATE_LOADOS
           then do {
             (r, load_end, m) \<leftarrow> bootm_load_os w (im_os (images s)) 0 (ram s);
             let s = s\<lparr>ram := m\<rparr>;
             if r \<noteq> 0 then Some (Returns r s)
             else map_option (Returns 0) (reserve_loaded load_end s)
           }
           else bootm_os_step w st argv s
         }
     | _ \<Rightarrow> Some (Returns 1 s)
   }"

definition do_bootm :: "'c world \<Rightarrow> u8 list list \<Rightarrow> 'c board \<Rightarrow> 'c outcome option" where
  "do_bootm w argv s =
     (if 1 < length argv \<and> deref (snd (simple_strtoul (argv ! 1) 16)) \<notin> {0, 0x3a, 0x23}
      then do_bootm_subcommand w argv s
      else do {
        (r, s) \<leftarrow> bootm_start argv s;
        if r \<noteq> 0 then Some (Returns 1 s)
        else do {
          let iflag = interrupts s;
          let s = s\<lparr>interrupts := False\<rparr>;
          (r, load_end, m) \<leftarrow> bootm_load_os w (im_os (images s)) 0 (ram s);
          let s = s\<lparr>ram := m\<rparr>;
          if r = BOOTM_ERR_RESET \<or> r = BOOTM_ERR_OVERLAP \<and> \<not> legacy_hdr_valid (images s) then Some (Resets s)
          else if r = BOOTM_ERR_UNIMPLEMENTED then Some (Returns 1 (s\<lparr>interrupts := iflag\<rparr>))
          else do {
            s \<leftarrow> reserve_loaded load_end s;
            if os_type (im_os (images s)) = IH_TYPE_STANDALONE
            then bootm_start_standalone w argv (s\<lparr>interrupts := iflag\<rparr>)
            else do {
              fn \<leftarrow> boot_os (os_os (im_os (images s)));
              case fn of
                None \<Rightarrow> Some (Returns 1 (s\<lparr>interrupts := iflag\<rparr>))
              | Some f \<Rightarrow> do {
                  r \<leftarrow> call_boot_fn w f 0 argv s;
                  Some (case r of Returns _ s \<Rightarrow> Resets s | r \<Rightarrow> r)
                }
            }
          }
        }
      })"

section \<open>The list of tags\<close>

text \<open>
  What the kernel reads: tags one after the other, each with its size in words (\<^verbatim>\<open>for_each_tag\<close> of
  \<^verbatim>\<open>include/asm-arm/setup.h\<close>), up to one of size 0.
\<close>

datatype atag = AtagCore | AtagMem u32 u32 | AtagCmdline "u8 list" | AtagInitrd u32 u32

fun tag_len :: "atag \<Rightarrow> nat" where
  "tag_len AtagCore = 20"
| "tag_len (AtagMem len start) = 16"
| "tag_len (AtagCmdline line) = (8 + length line + 1 + 4) div 4 * 4"
| "tag_len (AtagInitrd start len) = 16"

definition word_seq :: "u32 list \<Rightarrow> u8 list" where
  "word_seq ws = concat (map word_bytes ws)"

fun tag_bytes :: "atag \<Rightarrow> u8 list" where
  "tag_bytes AtagCore = word_seq [5, ATAG_CORE, 0, 0, 0]"
| "tag_bytes (AtagMem len start) = word_seq [4, ATAG_MEM, len, start]"
| "tag_bytes (AtagCmdline line) = word_seq [of_nat (tag_len (AtagCmdline line) div 4), ATAG_CMDLINE] @ line @ [0]"
| "tag_bytes (AtagInitrd start len) = word_seq [4, ATAG_INITRD2, start, len]"

fun tags_at :: "ram \<Rightarrow> u32 \<Rightarrow> atag list \<Rightarrow> bool" where
  "tags_at m p [] = holds m p (word_seq [0, ATAG_NONE])"
| "tags_at m p (t # ts) \<longleftrightarrow> holds m p (tag_bytes t) \<and> tags_at m (p + of_nat (tag_len t)) ts"

definition tags_size :: "atag list \<Rightarrow> nat" where
  "tags_size ts = sum_list (map tag_len ts) + 8"

lemma word_seq_simps [simp]: "word_seq [] = []" "word_seq (w # ws) = word_bytes w @ word_seq ws"
  by (simp_all add: word_seq_def)

lemma word_seq_length [simp]: "length (word_seq ws) = 4 * length ws"
  by (induction ws) simp_all

lemma tag_bytes_length: "length (tag_bytes t) \<le> tag_len t" "8 \<le> length (tag_bytes t)"
  by (cases t; simp)+

lemma put_words_store: "put_words m a ws = ram_store m a (word_seq ws)"
  by (induction ws arbitrary: m a) (simp_all add: ram_set_word_def ram_store_append)

lemma first_word_stored:
  assumes "ram_store m p (word_bytes w @ rest) = Some m'" "length rest + 4 \<le> 2 ^ 32"
  shows "ram_word m' p = Some w"
proof -
  have "holds m' p (word_bytes w @ rest)"
    using ram_load_stored [OF assms(1)] assms(2) by (simp add: holds_def)
  then show ?thesis by (simp add: holds_append holds_word)
qed

text \<open>Every tag is written as its bytes, and \<^verbatim>\<open>params\<close> moves behind its length.\<close>

definition write_tag :: "atag \<Rightarrow> ram \<Rightarrow> u32 \<Rightarrow> (ram \<times> u32) option" where
  "write_tag t m p = map_option (\<lambda>m. (m, p + of_nat (tag_len t))) (ram_store m p (tag_bytes t))"

lemma put_words_tag:
  assumes "length ws < 1000"
  shows "do { m \<leftarrow> put_words m p (w # ws); p \<leftarrow> tag_next m p; Some (m, p) } =
    map_option (\<lambda>m. (m, p + 4 * w)) (ram_store m p (word_seq (w # ws)))"
proof (cases "ram_store m p (word_seq (w # ws))")
  case (Some m')
  then have "ram_word m' p = Some w" using first_word_stored [of m p w "word_seq ws"] assms by simp
  with Some show ?thesis by (simp add: put_words_store tag_next_def del: word_seq_simps)
qed (simp add: put_words_store del: word_seq_simps)

lemma setup_tags:
  "setup_start_tag m p = write_tag AtagCore m p"
  "setup_memory_tags b m p = write_tag (AtagMem (bi_dram_size b) (bi_dram_start b)) m p"
  "setup_initrd_tag rs re m p = write_tag (AtagInitrd rs (re - rs)) m p"
  unfolding setup_start_tag_def setup_memory_tags_def setup_initrd_tag_def write_tag_def
  by (subst put_words_tag; simp)+

definition cmdline_tag :: "u8 list option \<Rightarrow> atag list" where
  "cmdline_tag commandline =
     (case commandline of
        None \<Rightarrow> []
      | Some line \<Rightarrow> let p = dropWhile (\<lambda>c. c = 0x20) line in if p = [] then [] else [AtagCmdline p])"

fun write_tags :: "atag list \<Rightarrow> ram \<Rightarrow> u32 \<Rightarrow> (ram \<times> u32) option" where
  "write_tags [] m p = Some (m, p)"
| "write_tags (t # ts) m p = do { (m, p) \<leftarrow> write_tag t m p; write_tags ts m p }"

lemma write_tags_append: "write_tags (ts @ us) m p = do { (m, p) \<leftarrow> write_tags ts m p; write_tags us m p }"
  by (induction ts arbitrary: m p) (auto split: bind_splits)

lemma setup_commandline:
  assumes "\<forall>line. cmdline_tag commandline = [AtagCmdline line] \<longrightarrow> length line < 2 ^ 31"
  shows "setup_commandline_tag commandline m p = write_tags (cmdline_tag commandline) m p"
proof (cases "cmdline_tag commandline = []")
  case True
  then show ?thesis
    by (auto simp: setup_commandline_tag_def cmdline_tag_def Let_def split: option.splits if_splits)
next
  case False
  then obtain line where line: "commandline = Some line" by (auto simp: cmdline_tag_def split: option.splits)
  define s where "s = dropWhile (\<lambda>c. c = 0x20) line"
  have s: "s \<noteq> []" "cmdline_tag commandline = [AtagCmdline s]"
    using False by (auto simp: cmdline_tag_def line s_def Let_def split: if_splits)
  have len: "length s < 2 ^ 31" using assms s(2) by simp
  define w :: u32 where "w = drop_bit 2 (of_nat (8 + length s + 1 + 4))"
  have uw: "unat w = (8 + length s + 1 + 4) div 4"
  proof -
    have n: "unat (of_nat (8 + length s + 1 + 4) :: u32) = 8 + length s + 1 + 4"
      using len by (intro unat_of_nat_u32) simp
    have "take_bit 32 (8 + length s + 1 + 4) = 8 + length s + 1 + 4"
      using len by (intro take_bit_nat_eq_self) simp
    moreover have "LENGTH(32) = 32" by simp
    ultimately show ?thesis
      unfolding w_def unsigned_drop_bit_eq n by (simp only: drop_bit_eq_div) simp
  qed
  have w: "w = of_nat (tag_len (AtagCmdline s) div 4)" using len uw by (simp add: word_unat_eq_iff)
  have w4: "4 * w = of_nat (tag_len (AtagCmdline s))"
  proof -
    have "4 * w = of_nat (4 * (tag_len (AtagCmdline s) div 4))" unfolding w by simp
    moreover have "4 * (tag_len (AtagCmdline s) div 4) = tag_len (AtagCmdline s)" by simp
    ultimately show ?thesis by metis
  qed
  have "setup_commandline_tag commandline m p =
      do { m \<leftarrow> put_words m p [w, ATAG_CMDLINE]; m \<leftarrow> ram_store m (p + 8) (s @ [0]); p \<leftarrow> tag_next m p; Some (m, p) }"
    unfolding setup_commandline_tag_def line option.case Let_def s_def [symmetric] w_def if_not_P [OF s(1)] ..
  also have "\<dots> = do { m \<leftarrow> ram_store m p (tag_bytes (AtagCmdline s)); p \<leftarrow> tag_next m p; Some (m, p) }"
    unfolding tag_bytes.simps w [symmetric]
    using ram_store_append [of m p "word_seq [w, ATAG_CMDLINE]" "s @ [0]"]
    by (simp add: put_words_store del: word_seq_simps)
  also have "\<dots> = write_tag (AtagCmdline s) m p"
  proof (cases "ram_store m p (tag_bytes (AtagCmdline s))")
    case (Some m')
    have "ram_store m p (word_bytes w @ word_bytes ATAG_CMDLINE @ s @ [0]) = Some m'"
      using Some unfolding tag_bytes.simps w [symmetric] by simp
    then have "ram_word m' p = Some w" using len first_word_stored [of m p w "word_bytes ATAG_CMDLINE @ s @ [0]" m'] by simp
    then show ?thesis
      unfolding write_tag_def Some tag_next_def w4 [symmetric] by simp
  qed (simp add: write_tag_def)
  also have "\<dots> = write_tags (cmdline_tag commandline) m p"
    by (simp add: s(2) split: bind_splits)
  finally show ?thesis .
qed

lemma write_tags_ok:
  assumes "\<forall>i < sum_list (map tag_len ts) + 8. m (p + of_nat i) \<noteq> None" "sum_list (map tag_len ts) + 8 \<le> 2 ^ 32"
  shows "\<exists>m' q m''. write_tags ts m p = Some (m', q) \<and> put_words m' q [0, ATAG_NONE] = Some m'' \<and> tags_at m'' p ts \<and>
    (\<forall>x. \<not> in_block p (sum_list (map tag_len ts) + 8) x \<longrightarrow> m'' x = m x)"
  using assms
proof (induction ts arbitrary: m p)
  case Nil
  then obtain m'' where m'': "ram_store m p (word_seq [0, ATAG_NONE]) = Some m''"
    using ram_store_total [of "word_seq [0, ATAG_NONE]" m p] by auto
  then have "put_words m p [0, ATAG_NONE] = Some m''" by (simp add: put_words_store del: word_seq_simps)
  moreover have "tags_at m'' p []"
    using ram_load_stored [OF m''] by (simp add: holds_def del: word_seq_simps)
  moreover have "\<forall>x. \<not> in_block p 8 x \<longrightarrow> m'' x = m x"
    using ram_store_SomeD [OF m''] by simp
  ultimately show ?case by simp
next
  case (Cons t ts)
  let ?n = "tag_len t" and ?k = "sum_list (map tag_len ts) + 8"
  have total: "?n + ?k \<le> 2 ^ 32" using Cons.prems(2) by simp
  have small: "length (tag_bytes t) \<le> 2 ^ 32" using tag_bytes_length(1) [of t] total by simp
  obtain m1 where m1: "ram_store m p (tag_bytes t) = Some m1"
    using ram_store_total [of "tag_bytes t" m p] Cons.prems(1) tag_bytes_length(1) [of t] by auto
  let ?q = "p + of_nat ?n"
  have "\<forall>i<?k. m1 (?q + of_nat i) \<noteq> None"
  proof (intro allI impI)
    fix i assume "i < ?k"
    then have "m (p + of_nat (?n + i)) \<noteq> None" using Cons.prems(1) [rule_format, of "?n + i"] by simp
    then show "m1 (?q + of_nat i) \<noteq> None" using ram_store_dom [OF m1] by (simp add: add.assoc)
  qed
  then obtain m' q m'' where rest: "write_tags ts m1 ?q = Some (m', q)" "put_words m' q [0, ATAG_NONE] = Some m''"
      "tags_at m'' ?q ts" "\<forall>x. \<not> in_block ?q ?k x \<longrightarrow> m'' x = m1 x"
    using Cons.IH [of m1 ?q] total by auto
  have apart: "\<not> in_block ?q ?k x" if "in_block p ?n x" for x
  proof
    assume "in_block ?q ?k x"
    then obtain i where i: "i < ?k" "x = ?q + of_nat i" by (auto simp: in_block_offset)
    then have "x - p = of_nat (?n + i)" by simp
    moreover have "unat (of_nat (?n + i) :: u32) = ?n + i" using i(1) total by (intro unat_of_nat_u32) simp
    ultimately show False using that by (simp add: in_block_def)
  qed
  have "holds m'' p (tag_bytes t)"
    unfolding holds_def ram_load_eq
  proof (intro conjI refl allI impI)
    fix i assume i: "i < length (tag_bytes t)"
    then have u: "unat (of_nat i :: u32) = i" using small by simp
    then have "in_block p ?n (p + of_nat i)" using i tag_bytes_length(1) [of t] by (simp add: in_block_def)
    then have "m'' (p + of_nat i) = m1 (p + of_nat i)" using rest(4) apart by blast
    then show "m'' (p + of_nat i) = Some (tag_bytes t ! i)"
      using ram_store_SomeD [OF m1 small] i u by (simp add: in_block_def)
  qed
  moreover have "m'' x = m x" if x: "\<not> in_block p (?n + ?k) x" for x
  proof -
    have "\<not> in_block ?q ?k x"
    proof
      assume "in_block ?q ?k x"
      then obtain i where i: "i < ?k" "x = ?q + of_nat i" by (auto simp: in_block_offset)
      then have "x - p = of_nat (?n + i)" by simp
      moreover have "unat (of_nat (?n + i) :: u32) = ?n + i" using i(1) total by (intro unat_of_nat_u32) simp
      ultimately show False using x i(1) by (simp add: in_block_def)
    qed
    moreover have "\<not> in_block p (length (tag_bytes t)) x"
      using x tag_bytes_length(1) [of t] by (simp add: in_block_def)
    ultimately show ?thesis using rest(4) ram_store_SomeD [OF m1 small] by simp
  qed
  ultimately show ?case
    using rest m1 by (simp add: write_tag_def add.assoc)
qed

definition initrd_tag :: "u32 \<Rightarrow> u32 \<Rightarrow> atag list" where
  "initrd_tag rs re = (if rs \<noteq> 0 \<and> re \<noteq> 0 then [AtagInitrd rs (re - rs)] else [])"

definition linux_tags :: "bd_info \<Rightarrow> u8 list option \<Rightarrow> u32 \<Rightarrow> u32 \<Rightarrow> atag list" where
  "linux_tags b commandline rs re =
     AtagCore # AtagMem (bi_dram_size b) (bi_dram_start b) # cmdline_tag commandline @ initrd_tag rs re"

lemma do_bootm_linux_eq:
  assumes "getenv_string s (ascii ''bootargs'') = Some line" "getenv_string s (ascii ''machid'') = Some mid"
    and "\<forall>i<tags_size (linux_tags (bd s) line (rd_start (images s)) (rd_end (images s))).
      ram s (bi_boot_params (bd s) + of_nat i) \<noteq> None"
    and "tags_size (linux_tags (bd s) line (rd_start (images s)) (rd_end (images s))) \<le> 2 ^ 30"
  obtains m' where "do_bootm_linux 0 s = Some (Enters (Linux (im_ep (images s))
        (case mid of Some v \<Rightarrow> fst (simple_strtoul v 16) | None \<Rightarrow> bi_arch_number (bd s)) (bi_boot_params (bd s)))
      (s\<lparr>ram := m'\<rparr>))"
    "tags_at m' (bi_boot_params (bd s)) (linux_tags (bd s) line (rd_start (images s)) (rd_end (images s)))"
    "\<forall>x. \<not> in_block (bi_boot_params (bd s)) (tags_size (linux_tags (bd s) line (rd_start (images s)) (rd_end (images s)))) x
      \<longrightarrow> m' x = ram s x"
proof -
  let ?rs = "rd_start (images s)" and ?re = "rd_end (images s)"
  let ?ts = "linux_tags (bd s) line ?rs ?re"
  obtain m1 q m' where m': "write_tags ?ts (ram s) (bi_boot_params (bd s)) = Some (m1, q)"
      "put_words m1 q [0, ATAG_NONE] = Some m'" "tags_at m' (bi_boot_params (bd s)) ?ts"
      "\<forall>x. \<not> in_block (bi_boot_params (bd s)) (tags_size ?ts) x \<longrightarrow> m' x = ram s x"
    using write_tags_ok [OF assms(3) [unfolded tags_size_def]] assms(4) unfolding tags_size_def by fastforce
  have initrd: "(if ?rs \<noteq> 0 \<and> ?re \<noteq> 0 then setup_initrd_tag ?rs ?re m p else Some (m, p)) =
      write_tags (initrd_tag ?rs ?re) m p" for m p
    by (simp add: initrd_tag_def setup_tags split: bind_splits)
  have short: "\<forall>l. cmdline_tag line = [AtagCmdline l] \<longrightarrow> length l < 2 ^ 31"
    using assms(4) by (auto simp: tags_size_def linux_tags_def)
  obtain m2 p2 m3 p3 m4 p4 where steps: "write_tag AtagCore (ram s) (bi_boot_params (bd s)) = Some (m2, p2)"
      "write_tag (AtagMem (bi_dram_size (bd s)) (bi_dram_start (bd s))) m2 p2 = Some (m3, p3)"
      "write_tags (cmdline_tag line) m3 p3 = Some (m4, p4)" "write_tags (initrd_tag ?rs ?re) m4 p4 = Some (m1, q)"
    using m'(1) by (auto simp: linux_tags_def write_tags_append bind_eq_Some_conv)
  have "do_bootm_linux 0 s = Some (Enters (Linux (im_ep (images s))
        (case mid of Some v \<Rightarrow> fst (simple_strtoul v 16) | None \<Rightarrow> bi_arch_number (bd s)) (bi_boot_params (bd s)))
      (s\<lparr>ram := m'\<rparr>))"
    unfolding do_bootm_linux_def assms(1,2) bind.bind_lunit setup_tags(1,2) setup_commandline [OF short] initrd steps
      prod.case setup_end_tag_def m'(2) by simp
  then show ?thesis using m'(3,4) by (rule that)
qed

section \<open>From the image to the entry\<close>

lemma getenv_string_board [simp]:
  "getenv_string (s\<lparr>images := im\<rparr>) name = getenv_string s name"
  "getenv_string (s\<lparr>ram := m\<rparr>) name = getenv_string s name"
  "getenv_string (s\<lparr>interrupts := b\<rparr>) name = getenv_string s name"
  by (simp_all add: getenv_string_def getenv_def env_area_def cong: option.case_cong)

lemma lmb_first_region:
  assumes "rgn_cnt rgn = 1" "region rgn = p # ps" "lp_size p = 0"
  shows "lmb_add_region rgn b k = Some (0, rgn\<lparr>region := \<lparr>lp_base = b, lp_size = k\<rparr> # ps\<rparr>)"
  using assms by (simp add: lmb_add_region_def rd_def wr_def)

lemma lmb_init_empty:
  "lmb_init_region \<lparr>rgn_cnt = n, rgn_size = k, region = p # ps\<rparr> =
    Some \<lparr>rgn_cnt = 1, rgn_size = 0, region = p\<lparr>lp_base := 0, lp_size := 0\<rparr> # ps\<rparr>"
  by (simp add: lmb_init_region_def rd_def wr_def)

definition fresh_reserved :: "lmb \<Rightarrow> bool" where
  "fresh_reserved l \<longleftrightarrow> (\<forall>b k. \<exists>r l'. lmb_reserve l b k = Some (r, l'))"

lemma fresh_lmb:
  fixes base len :: u32
  obtains l l' r where "lmb_init lmb_blank = Some l" "lmb_add l base len = Some (r, l')" "fresh_reserved l'"
proof -
  have nine: "replicate 9 x = x # replicate 8 x" for x :: lmb_property by (simp add: numeral_eq_Suc)
  obtain ps ps' where i: "lmb_init lmb_blank = Some
      \<lparr>memory = \<lparr>rgn_cnt = 1, rgn_size = 0, region = \<lparr>lp_base = 0, lp_size = 0\<rparr> # ps\<rparr>,
       reserved = \<lparr>rgn_cnt = 1, rgn_size = 0, region = \<lparr>lp_base = 0, lp_size = 0\<rparr> # ps'\<rparr>\<rparr>"
    by (simp add: lmb_blank_def lmb_init_def lmb_init_empty nine)
  have a: "lmb_add \<lparr>memory = \<lparr>rgn_cnt = 1, rgn_size = 0, region = \<lparr>lp_base = 0, lp_size = 0\<rparr> # ps\<rparr>, reserved = rv\<rparr>
        base len =
      Some (0, \<lparr>memory = \<lparr>rgn_cnt = 1, rgn_size = 0, region = \<lparr>lp_base = base, lp_size = len\<rparr> # ps\<rparr>, reserved = rv\<rparr>)" for rv
    by (simp add: lmb_add_def lmb_first_region)
  show ?thesis
    by (rule that [OF i a]) (simp add: lmb_reserve_def fresh_reserved_def lmb_first_region)
qed

lemma lookups:
  assumes "env_abs s vars"
  shows "getenv_string s (ascii ''verify'') = Some (vars (ascii ''verify''))"
    "getenv_string s (ascii ''bootm_low'') = Some (vars (ascii ''bootm_low''))"
    "getenv_string s (ascii ''bootm_size'') = Some (vars (ascii ''bootm_size''))"
    "getenv_string s (ascii ''bootargs'') = Some (vars (ascii ''bootargs''))"
    "getenv_string s (ascii ''machid'') = Some (vars (ascii ''machid''))"
    "getenv_string s (ascii ''autostart'') = Some (vars (ascii ''autostart''))"
  by (rule getenv_string_abs [OF assms]; simp)+

definition kernel_addr :: "u8 list list \<Rightarrow> 'c board \<Rightarrow> u32" where
  "kernel_addr argv s = (if length argv < 2 then load_addr s else fst (simple_strtoul (argv ! 1) 16))"

text \<open>The image as \<^verbatim>\<open>bootm_start\<close> records it.\<close>

lemma bootm_start_image:
  assumes "mkimage p mtime [f] = Some img" "p_type p = IH_TYPE_KERNEL \<or> p_type p = IH_TYPE_STANDALONE"
    and "p_arch p = IH_ARCH_ARM" "\<not> p_xflag p" "f \<noteq> []" "length argv \<le> 2"
    and "ram_load (ram s) (kernel_addr argv s) (length img) = Some img" "length img \<le> 2 ^ 32"
    and "env_abs s vars"
  obtains im where "bootm_start argv s = Some (0, s\<lparr>images := im\<rparr>)"
    "os_load (im_os im) = p_addr p" "os_comp (im_os im) = p_comp p" "os_type (im_os im) = p_type p"
    "os_os (im_os im) = p_os p" "os_start (im_os im) = kernel_addr argv s"
    "os_image_start (im_os im) = image_get_data (kernel_addr argv s)" "unat (os_image_len (im_os im)) = length f"
    "im_ep im = entry_point p" "rd_start im = 0" "rd_end im = 0" "legacy_hdr_valid im" "fresh_reserved (im_lmb im)"
    "im_state im = BOOTM_STATE_START" "ram_load (ram s) (image_get_data (kernel_addr argv s)) (length f) = Some f"
proof -
  let ?a = "kernel_addr argv s"
  obtain h body where h: "ram_header (ram s) ?a = Some h" "image_check_magic (ram s) ?a = Some True" "image_check_hcrc h"
    "image_check_dcrc (ram s) ?a h = Some True" "\<exists>cs. image_print_contents (ram s) ?a h = Some cs"
    "ih_arch h = p_arch p" "ih_type h = p_type p" "ih_os h = p_os p" "ih_comp h = p_comp p"
    "image_get_load h = p_addr p" "image_get_ep h = entry_point p" "unat (image_get_size h) = length body"
    "mkimage_body p [f] = Some body" "holds (ram s) (image_get_data ?a) body"
    by (rule mkimage_in_memory [OF assms(1,7,8)])
  have body: "body = f"
    using h(13) assms(2,4)
    by (auto simp: mkimage_body_def copy_file_def Let_def IH_TYPE_KERNEL_def IH_TYPE_STANDALONE_def IH_TYPE_MULTI_def IH_TYPE_SCRIPT_def split: if_splits)
  have kernel: "image_get_kernel (ram s) ?a v = Some (Some h)" for v
    using h assms(3) by (auto simp: image_get_kernel_def)
  have format: "genimg_get_format (ram s) ?a = Some IMAGE_FORMAT_LEGACY"
    using h(2) by (simp add: genimg_get_format_def)
  have size: "image_get_size h \<noteq> 0" using h(12) body assms(5) by auto
  have types: "ih_type h = IH_TYPE_KERNEL \<or> ih_type h = IH_TYPE_STANDALONE" "ih_type h \<noteq> IH_TYPE_MULTI"
    using assms(2) h(7) by (auto simp: IH_TYPE_KERNEL_def IH_TYPE_STANDALONE_def IH_TYPE_MULTI_def)
  obtain low sz where low: "getenv_bootm_low s = Some low" "getenv_bootm_size s = Some sz"
    using lookups [OF assms(9)] by (simp add: getenv_bootm_low_def getenv_bootm_size_def)
  obtain v where v: "getenv_yesno s (ascii ''verify'') = Some v"
    using lookups [OF assms(9)] by (simp add: getenv_yesno_def)
  obtain l l' r where l: "lmb_init lmb_blank = Some l" "lmb_add l low sz = Some (r, l')" "fresh_reserved l'"
    by (rule fresh_lmb [of low sz])
  define im where "im = zero_images\<lparr>im_verify := v, im_lmb := l'\<rparr>"
  define im1 where "im1 = im\<lparr>legacy_hdr_os_copy := h, legacy_hdr_os := ?a, legacy_hdr_valid := True\<rparr>"
  have addr: "(if length argv < 2 then load_addr (s\<lparr>images := i\<rparr>) else fst (simple_strtoul (argv ! 1) 16)) = ?a" for i
    by (simp add: kernel_addr_def)
  have found: "boot_get_kernel argv (s\<lparr>images := im\<rparr>) =
      Some (Some (?a, image_get_data ?a, image_get_size h), s\<lparr>ram := ram s, images := im1\<rparr>)"
    unfolding boot_get_kernel_def addr Let_def
    using types assms(6) h(1) by (auto simp: format kernel im1_def)
  define info where "info = (im_os im1)\<lparr>os_image_start := image_get_data ?a, os_image_len := image_get_size h,
     os_type := ih_type h, os_comp := ih_comp h, os_os := ih_os h, os_end := image_get_image_end ?a h, os_load := image_get_load h\<rparr>"
  have rd: "boot_get_ramdisk argv arch (s\<lparr>images := im1\<lparr>im_os := i, im_ep := e\<rparr>\<rparr>) = Some (0, 0, 0)" for arch i e
    using assms(6) types(2) by (simp add: boot_get_ramdisk_def im1_def)
  let ?im = "im1\<lparr>im_os := info\<lparr>os_start := ?a\<rparr>, im_ep := image_get_ep h, rd_start := 0, rd_end := 0, im_state := BOOTM_STATE_START\<rparr>"
  have lz: "lmb_init (im_lmb zero_images) = Some l" using l(1) by (simp add: zero_images_def)
  have same: "s\<lparr>ram := ram s, images := i\<rparr> = s\<lparr>images := i\<rparr>" for i by simp
  have "bootm_start argv s = Some (0, s\<lparr>images := ?im\<rparr>)"
    unfolding bootm_start_def v lz low l(2) bind.bind_lunit prod.case im_def [symmetric] Let_def found same
    using rd size
    by (simp add: format h(1) info_def) (simp add: im1_def im_def zero_images_def)
  then show ?thesis
    by (rule that)
      (use h body in \<open>simp_all add: info_def im1_def im_def l(3) holds_def\<close>)
qed

definition no_subcommand :: "u8 list list \<Rightarrow> bool" where
  "no_subcommand argv \<longleftrightarrow>
     length argv \<le> 1 \<or> length argv = 2 \<and> deref (snd (simple_strtoul (argv ! 1) 16)) = 0"

lemma bootm_load_none:
  assumes "os_comp os = IH_COMP_NONE" "os_load os \<noteq> os_start os"
    and "ram_load m (os_image_start os) (length f) = Some f" "unat (os_image_len os) = length f"
    and "\<forall>i<length f. m (os_load os + of_nat i) \<noteq> None"
  obtains r m' where "bootm_load_os w os load_end m = Some (r, os_load os + os_image_len os, m')"
    "r = 0 \<or> r = BOOTM_ERR_OVERLAP" "ram_load m' (os_load os) (length f) = Some f"
    "\<And>x. (m' x = None) = (m x = None)"
proof -
  let ?fin = "os_load os + os_image_len os"
  let ?r = "if os_load os < os_end os \<and> ?fin > os_start os then BOOTM_ERR_OVERLAP else 0"
  show ?thesis
  proof (cases "os_load os = os_image_start os")
    case True
    then have "bootm_load_os w os load_end m = Some (?r, ?fin, m)"
      using assms(1,2) by (simp add: bootm_load_os_def Let_def)
    then show ?thesis by (rule that) (use True assms(3) in simp_all)
  next
  case False
  obtain m' where m': "ram_store m (os_load os) f = Some m'"
    using ram_store_total [OF assms(5)] by auto
  have "length f \<le> 2 ^ 32" unfolding assms(4) [symmetric] by (simp add: less_imp_le)
  note loaded = ram_load_stored [OF m' this]
  have "ram_memmove m (os_load os) (os_image_start os) (os_image_len os) = Some m'"
    using assms(3,4) m' by (simp add: ram_memmove_def)
  then have "bootm_load_os w os load_end m = Some (?r, ?fin, m')"
    using assms(1,2) False by (simp add: bootm_load_os_def Let_def)
  then show ?thesis by (rule that) (use loaded ram_store_dom [OF m'] in simp_all)
  qed
qed

text \<open>What follows the loading: an application, or the function of the operating system.\<close>

definition bootm_dispatch ::
    "'c world \<Rightarrow> u8 list list \<Rightarrow> u8 \<Rightarrow> u8 \<Rightarrow> bool \<Rightarrow> 'c board \<Rightarrow> 'c outcome option" where
  "bootm_dispatch w argv type os iflag t =
     (if type = IH_TYPE_STANDALONE then bootm_start_standalone w argv (t\<lparr>interrupts := iflag\<rparr>)
      else do {
        fn \<leftarrow> boot_os os;
        case fn of
          None \<Rightarrow> Some (Returns 1 (t\<lparr>interrupts := iflag\<rparr>))
        | Some f \<Rightarrow> map_option (\<lambda>r. case r of Returns _ u \<Rightarrow> Resets u | r \<Rightarrow> r) (call_boot_fn w f 0 argv t)
      })"

text \<open>The command up to the choice between an application and an operating system.\<close>

lemma do_bootm_loaded:
  assumes "mkimage p mtime [f] = Some img" "p_type p = IH_TYPE_KERNEL \<or> p_type p = IH_TYPE_STANDALONE"
    and "p_arch p = IH_ARCH_ARM" "\<not> p_xflag p" "f \<noteq> []" "p_comp p = IH_COMP_NONE" "no_subcommand argv"
    and "ram_load (ram s) (kernel_addr argv s) (length img) = Some img" "length img \<le> 2 ^ 32"
    and "env_abs s vars" "p_addr p \<noteq> kernel_addr argv s"
    and "\<forall>i<length f. ram s (p_addr p + of_nat i) \<noteq> None"
  obtains m im where
    "do_bootm w argv s =
       bootm_dispatch w argv (p_type p) (p_os p) (interrupts s) (s\<lparr>ram := m, images := im, interrupts := False\<rparr>)"
    "im_ep im = entry_point p" "rd_start im = 0" "rd_end im = 0"
    "ram_load m (p_addr p) (length f) = Some f" "\<And>x. (m x = None) = (ram s x = None)" "length f < 2 ^ 32"
proof -
  have two: "length argv \<le> 2" using assms(7) by (auto simp: no_subcommand_def)
  obtain im where im: "bootm_start argv s = Some (0, s\<lparr>images := im\<rparr>)"
    "os_load (im_os im) = p_addr p" "os_comp (im_os im) = p_comp p" "os_type (im_os im) = p_type p"
    "os_os (im_os im) = p_os p" "os_start (im_os im) = kernel_addr argv s"
    "os_image_start (im_os im) = image_get_data (kernel_addr argv s)" "unat (os_image_len (im_os im)) = length f"
    "im_ep im = entry_point p" "rd_start im = 0" "rd_end im = 0" "legacy_hdr_valid im" "fresh_reserved (im_lmb im)"
    "ram_load (ram s) (image_get_data (kernel_addr argv s)) (length f) = Some f"
    using bootm_start_image [OF assms(1-5) two assms(8-10)] by blast
  obtain r m where load: "bootm_load_os w (im_os im) 0 (ram s) = Some (r, p_addr p + os_image_len (im_os im), m)"
    "r = 0 \<or> r = BOOTM_ERR_OVERLAP" "ram_load m (p_addr p) (length f) = Some f" "\<And>x. (m x = None) = (ram s x = None)"
    by (rule bootm_load_none [of "im_os im" "ram s" f w 0]; use im assms(6,11,12) in simp)
  obtain q l where l: "lmb_reserve (im_lmb im) (p_addr p) (os_image_len (im_os im)) = Some (q, l)"
    using im(13) by (meson fresh_reserved_def)
  let ?im = "im\<lparr>im_lmb := l\<rparr>"
  have sub: "\<not> (1 < length argv \<and> deref (snd (simple_strtoul (argv ! 1) 16)) \<notin> {0, 0x3a, 0x23})"
    using assms(7) by (auto simp: no_subcommand_def)
  have r: "r \<noteq> BOOTM_ERR_RESET" "r \<noteq> BOOTM_ERR_UNIMPLEMENTED"
    using load(2) by (auto simp: BOOTM_ERR_RESET_def BOOTM_ERR_UNIMPLEMENTED_def BOOTM_ERR_OVERLAP_def)
  have res: "reserve_loaded (p_addr p + os_image_len (im_os im)) (s\<lparr>images := im, interrupts := False, ram := m\<rparr>) =
      Some (s\<lparr>ram := m, images := ?im, interrupts := False\<rparr>)"
    using l im(2) by (simp add: reserve_loaded_def)
  have load': "bootm_load_os w (im_os (images (s\<lparr>images := im, interrupts := False\<rparr>))) 0
      (ram (s\<lparr>images := im, interrupts := False\<rparr>)) = Some (r, p_addr p + os_image_len (im_os im), m)"
    using load(1) by simp
  have valid: "legacy_hdr_valid (images (s\<lparr>images := im, interrupts := False, ram := m\<rparr>))"
    "interrupts (s\<lparr>images := im\<rparr>) = interrupts s"
    using im(12) by simp_all
  have after: "os_type (im_os (images (s\<lparr>ram := m, images := ?im, interrupts := False\<rparr>))) = p_type p"
    "os_os (im_os (images (s\<lparr>ram := m, images := ?im, interrupts := False\<rparr>))) = p_os p"
    using im(4,5) by simp_all
  show ?thesis
  proof (rule that [of ?im m])
    show "do_bootm w argv s =
       bootm_dispatch w argv (p_type p) (p_os p) (interrupts s) (s\<lparr>ram := m, images := ?im, interrupts := False\<rparr>)"
      unfolding do_bootm_def bootm_dispatch_def if_not_P [OF sub] im(1) bind.bind_lunit prod.case Let_def load'
      by (simp only: simp_thms if_False if_True r load' valid bind.bind_lunit prod.case res after map_conv_bind_option o_def)
    show "length f < 2 ^ 32" using im(8) unat_u32_less [of "os_image_len (im_os im)"] by simp
  qed (use im load in simp_all)
qed

lemma ram_load_cong:
  assumes "\<And>x. in_block a n x \<Longrightarrow> m' x = m x" "ram_load m a n = Some bs" "n \<le> 2 ^ 32"
  shows "ram_load m' a n = Some bs"
  unfolding ram_load_eq
proof (intro conjI allI impI)
  show "length bs = n" by (rule ram_load_length [OF assms(2)])
  fix i assume i: "i < n"
  then have "in_block a n (a + of_nat i)" using assms(3) by (simp add: in_block_def)
  then show "m' (a + of_nat i) = Some (bs ! i)" using assms(1,2) i by (simp add: ram_load_eq)
qed

definition machine :: "(u8 list \<rightharpoonup> u8 list) \<Rightarrow> bd_info \<Rightarrow> u32" where
  "machine vars b = (case vars (ascii ''machid'') of Some v \<Rightarrow> fst (simple_strtoul v 16) | None \<Rightarrow> bi_arch_number b)"

text \<open>C11:
  From the host to the kernel: an image \<^verbatim>\<open>mkimage\<close> made of one uncompressed ARM Linux kernel is started by
  \<^verbatim>\<open>bootm\<close>: the kernel is entered at its entry point with the machine number of \<^verbatim>\<open>machid\<close> (or the board) and
  the address of the parameters, its payload stands at the load address, also where that overlaps the image,
  and the parameters are exactly the core, memory and command line tags.\<close>

theorem bootm_boots_linux:
  assumes "mkimage p mtime [f] = Some img" "p_type p = IH_TYPE_KERNEL" "p_os p = IH_OS_LINUX"
    and "p_arch p = IH_ARCH_ARM" "p_comp p = IH_COMP_NONE" "\<not> p_xflag p" "f \<noteq> []" "no_subcommand argv"
    and "ram_load (ram s) (kernel_addr argv s) (length img) = Some img" "length img \<le> 2 ^ 32"
    and "p_addr p \<noteq> kernel_addr argv s" "\<forall>i<length f. ram s (p_addr p + of_nat i) \<noteq> None"
    and "env_abs s vars" "ts = linux_tags (bd s) (vars (ascii ''bootargs'')) 0 0" "tags_size ts \<le> 2 ^ 30"
    and "\<forall>i<tags_size ts. ram s (bi_boot_params (bd s) + of_nat i) \<noteq> None"
    and "disjoint_blocks (bi_boot_params (bd s)) (tags_size ts) (p_addr p) (length f)"
  shows "\<exists>t. do_bootm w argv s =
      Some (Enters (Linux (entry_point p) (machine vars (bd s)) (bi_boot_params (bd s))) t) \<and>
    ram_load (ram t) (p_addr p) (length f) = Some f \<and> tags_at (ram t) (bi_boot_params (bd s)) ts \<and>
    \<not> interrupts t"
proof -
  have kernel: "p_type p = IH_TYPE_KERNEL \<or> p_type p = IH_TYPE_STANDALONE" "p_type p \<noteq> IH_TYPE_STANDALONE"
    using assms(2) by (simp_all add: IH_TYPE_KERNEL_def IH_TYPE_STANDALONE_def)
  obtain m im where boot:
    "do_bootm w argv s =
       bootm_dispatch w argv (p_type p) (p_os p) (interrupts s) (s\<lparr>ram := m, images := im, interrupts := False\<rparr>)"
    and im: "im_ep im = entry_point p" "rd_start im = 0" "rd_end im = 0"
    and m: "ram_load m (p_addr p) (length f) = Some f" "\<And>x. (m x = None) = (ram s x = None)" "length f < 2 ^ 32"
    using do_bootm_loaded [where w = w, OF assms(1) kernel(1) assms(4,6,7,5,8-10,13,11,12)] by blast
  let ?t = "s\<lparr>ram := m, images := im, interrupts := False\<rparr>"
  have linux: "boot_os (p_os p) = Some (Some BootLinux)" by (simp add: boot_os_def assms(3) IH_OS_LINUX_def)
  have ts: "linux_tags (bd ?t) (vars (ascii ''bootargs'')) (rd_start (images ?t)) (rd_end (images ?t)) = ts"
    using im assms(14) by simp
  obtain m' where m': "do_bootm_linux 0 ?t = Some (Enters (Linux (im_ep (images ?t)) (machine vars (bd ?t))
        (bi_boot_params (bd ?t))) (?t\<lparr>ram := m'\<rparr>))"
    "tags_at m' (bi_boot_params (bd ?t)) ts"
    "\<forall>x. \<not> in_block (bi_boot_params (bd ?t)) (tags_size ts) x \<longrightarrow> m' x = ram ?t x"
  proof (rule do_bootm_linux_eq [of ?t "vars (ascii ''bootargs'')" "vars (ascii ''machid'')", unfolded ts, folded machine_def])
    show "getenv_string ?t (ascii ''bootargs'') = Some (vars (ascii ''bootargs''))"
      "getenv_string ?t (ascii ''machid'') = Some (vars (ascii ''machid''))"
      using lookups [OF assms(13)] by (simp_all del: ascii_simps)
    show "\<forall>i<tags_size ts. ram ?t (bi_boot_params (bd ?t) + of_nat i) \<noteq> None"
      using assms(16) m(2) by simp
    show "tags_size ts \<le> 2 ^ 30" by (rule assms(15))
  qed
  have "length f \<le> 2 ^ 32" using m(3) by simp
  then have "ram_load m' (p_addr p) (length f) = Some f"
    using assms(17) m'(3) by (intro ram_load_cong [OF _ m(1)]) (auto simp: disjoint_blocks_def)
  then show ?thesis
    using boot m'(1,2) im(1) linux kernel(2) by (simp add: bootm_dispatch_def)
qed

text \<open>
  An application is entered at its entry point with the bytes in the other order: \<^verbatim>\<open>bootm_start_standalone\<close>
  converts a number that \<^verbatim>\<open>bootm_start\<close> has converted already.\<close>

lemma standalone_entry_swapped:
  assumes "mkimage p mtime [f] = Some img" "p_type p = IH_TYPE_STANDALONE" "p_arch p = IH_ARCH_ARM"
    and "\<not> p_xflag p" "f \<noteq> []" "p_comp p = IH_COMP_NONE" "no_subcommand argv"
    and "ram_load (ram s) (kernel_addr argv s) (length img) = Some img" "length img \<le> 2 ^ 32"
    and "env_abs s vars" "p_addr p \<noteq> kernel_addr argv s" "\<forall>i<length f. ram s (p_addr p + of_nat i) \<noteq> None"
    and "vars (ascii ''autostart'') \<noteq> Some (ascii ''no'')"
  shows "\<exists>t. do_bootm w argv s = Some (Enters (Application (htonl (entry_point p)) (tl argv)) t) \<and>
    ram_load (ram t) (p_addr p) (length f) = Some f"
proof -
  have "p_type p = IH_TYPE_KERNEL \<or> p_type p = IH_TYPE_STANDALONE" using assms(2) by simp
  from do_bootm_loaded [where w = w, OF assms(1) this assms(3-12)]
  obtain m im where boot: "do_bootm w argv s =
        bootm_dispatch w argv (p_type p) (p_os p) (interrupts s) (s\<lparr>ram := m, images := im, interrupts := False\<rparr>)"
    and im: "im_ep im = entry_point p" and m: "ram_load m (p_addr p) (length f) = Some f"
    by blast
  show ?thesis
    using boot im m assms(2,13) lookups(6) [OF assms(10)]
    by (simp add: bootm_dispatch_def bootm_start_standalone_def del: ascii_simps)
qed

text \<open>C34:
  The operating system of an image is an unchecked index: with a system \<^verbatim>\<open>bootm\<close> has no function for it returns 1
  with the interrupts as before, but a number behind the 19 entries of the table passes every check
  and what stands behind the table is called.\<close>

theorem boot_os_unchecked:
  assumes "mkimage p mtime [f] = Some img" "p_type p = IH_TYPE_KERNEL" "p_arch p = IH_ARCH_ARM"
    and "\<not> p_xflag p" "f \<noteq> []" "p_comp p = IH_COMP_NONE" "no_subcommand argv"
    and "ram_load (ram s) (kernel_addr argv s) (length img) = Some img" "length img \<le> 2 ^ 32"
    and "env_abs s vars" "p_addr p \<noteq> kernel_addr argv s" "\<forall>i<length f. ram s (p_addr p + of_nat i) \<noteq> None"
  shows "(19 \<le> unat (p_os p) \<longrightarrow> do_bootm w argv s = None) \<and>
    (boot_os (p_os p) = Some None \<longrightarrow> (\<exists>t. do_bootm w argv s = Some (Returns 1 t) \<and> interrupts t = interrupts s))"
proof -
  have type: "p_type p = IH_TYPE_KERNEL \<or> p_type p = IH_TYPE_STANDALONE" "p_type p \<noteq> IH_TYPE_STANDALONE"
    using assms(2) by (simp_all add: IH_TYPE_KERNEL_def IH_TYPE_STANDALONE_def)
  from do_bootm_loaded [where w = w, OF assms(1) type(1) assms(3-12)]
  obtain m im where "do_bootm w argv s =
      bootm_dispatch w argv (p_type p) (p_os p) (interrupts s) (s\<lparr>ram := m, images := im, interrupts := False\<rparr>)"
    by blast
  with type(2) show ?thesis by (simp add: bootm_dispatch_def boot_os_def)
qed

section \<open>The order of the sub-commands\<close>

definition subcommand_state :: "u8 list list \<Rightarrow> u32 option" where
  "subcommand_state argv =
     (case find_cmd_tbl (argv ! 1) cmd_bootm_sub of
        Some (Some i) \<Rightarrow> (case cmd (cmd_bootm_sub ! i) of OtherCmd st \<Rightarrow> Some st | _ \<Rightarrow> None)
      | _ \<Rightarrow> None)"

text \<open>
  What a series of commands leaves behind, observed from outside: each sub-command other than \<^verbatim>\<open>start\<close> that
  returned to the prompt adds the bits it has newly set in \<^verbatim>\<open>images.state\<close>, if any.  Commands between them may
  change anything but \<^verbatim>\<open>images\<close>.\<close>

definition new_bits :: "'c board \<Rightarrow> 'c board \<Rightarrow> u32 list" where
  "new_bits t u =
     (let new = im_state (images u) AND NOT (im_state (images t)) in if new = 0 then [] else [new])"

inductive sub_run :: "'c world \<Rightarrow> 'c board \<Rightarrow> u32 list \<Rightarrow> 'c board \<Rightarrow> bool" for w s where
  start: "sub_run w s [] s"
| sub: "sub_run w s sts t \<Longrightarrow> 0 \<notin> set (argv ! 1) \<Longrightarrow> subcommand_state argv \<noteq> Some BOOTM_STATE_START \<Longrightarrow>
    do_bootm_subcommand w argv t = Some (Returns r u) \<Longrightarrow> sub_run w s (sts @ new_bits t u) u"
| other: "sub_run w s sts t \<Longrightarrow> images u = images t \<Longrightarrow> sub_run w s sts u"

lemma setenv_more:
  assumes "setenv ca name v s = Some (r, s')"
  shows "env_state.more s' = env_state.more s"
  using assms
  by (auto simp: setenv_def do_setenv_def setenv_store_def setenv_follow_def env_crc_update_def set_area_def Let_def
      setenv_redirect_def setenv_baudrate_def
      split: if_splits option.splits list.splits prod.splits bind_splits)

lemma images_more: "env_state.more s' = env_state.more s \<Longrightarrow> images s' = images s"
  by (cases s; cases s') simp

lemma call_boot_fn_images:
  assumes "call_boot_fn w f st argv s = Some (Returns r s')"
  shows "images s' = images s"
proof (cases f)
  case BootVxworks
  then show ?thesis
    using assms by (auto simp: do_bootm_vxworks_def Let_def bind_eq_Some_conv split: if_splits
      dest!: setenv_more images_more) (auto split: sum.splits)
next
  case BootQnx
  then show ?thesis
    using assms by (auto simp: do_bootm_qnxelf_def Let_def bind_eq_Some_conv split: if_splits) (auto split: sum.splits)
qed (use assms in \<open>auto simp: do_bootm_linux_def do_bootm_netbsd_def do_bootm_rtems_def Let_def
      bind_eq_Some_conv split: if_splits option.splits\<close>)

lemma sub_find_bound:
  assumes "0 \<notin> set name" "table_ok table" "find_cmd_tbl name table = Some (Some i)"
  shows "i < length table"
proof -
  let ?es = "enumerate 0 table"
  have "\<exists>e. (i, e) \<in> set ?es"
  proof (cases "find (\<lambda>(i, e). cmd_name e = cmd_key name) ?es")
    case None
    then obtain e where "filter (\<lambda>(i, e). key_matches (cmd_key name) e) ?es = [(i, e)]"
      using assms(3) unfolding find_cmd_lemma [OF assms(1,2)] by (auto split: list.splits prod.splits)
    then have "(i, e) \<in> set (filter (\<lambda>(i, e). key_matches (cmd_key name) e) ?es)" by simp
    then show ?thesis by auto
  next
    case (Some ie)
    then have "fst ie = i"
      using assms(3) unfolding find_cmd_lemma [OF assms(1,2)] by (simp split: prod.splits)
    moreover obtain k where "k < length ?es" "ie = ?es ! k"
      using Some unfolding find_Some_iff by blast
    ultimately show ?thesis by (metis nth_mem prod.collapse)
  qed
  then show ?thesis by (auto simp: in_set_enumerate_eq)
qed

lemma sub_states:
  assumes "0 \<notin> set (argv ! 1)" "subcommand_state argv = Some st"
  shows "st \<in> {0x01, 0x02, 0x10, 0x20, 0x40, 0x80}"
proof -
  obtain i where i: "find_cmd_tbl (argv ! 1) cmd_bootm_sub = Some (Some i)" "cmd (cmd_bootm_sub ! i) = OtherCmd st"
    using assms(2) by (auto simp: subcommand_state_def split: option.splits cmd_fn.splits)
  have "table_ok cmd_bootm_sub"
    by (simp add: cmd_bootm_sub_def table_ok_def)
  from sub_find_bound [OF assms(1) this i(1)] have "i < 6" by (simp add: cmd_bootm_sub_def)
  then show ?thesis
    using i(2) by (auto simp: cmd_bootm_sub_def less_Suc_eq numeral_eq_Suc BOOTM_STATE_START_def BOOTM_STATE_LOADOS_def
      BOOTM_STATE_OS_CMDLINE_def BOOTM_STATE_OS_BD_T_def BOOTM_STATE_OS_PREP_def BOOTM_STATE_OS_GO_def)
qed

lemma state_or:
  fixes a st :: u32
  assumes "unat a < 256" "st \<in> {0x01, 0x02, 0x10, 0x20, 0x40, 0x80}"
  shows "unat (a OR st) < 256" "unat a \<le> unat (a OR st)" "unat st \<le> unat (a OR st)"
    "sint a = int (unat a)" "sint st = int (unat st)"
proof -
  have st: "unat st < 256" using assms(2) by auto
  have or: "unat (a OR st) = unat a OR unat st" by (rule unsigned_or_eq)
  have "int (unat a OR unat st) = int (unat a) OR int (unat st)" by (rule of_nat_or_eq)
  moreover have "int (unat a) < 256" "int (unat st) < 256" using assms(1) st by linarith+
  then have "int (unat a) OR int (unat st) < 256"
    using OR_upper [of "int (unat a)" 8 "int (unat st)"] by simp
  moreover have "int (unat a) \<le> int (unat a) OR int (unat st)" by (rule or_greater_eq) (rule of_nat_0_le_iff)
  moreover have "int (unat st) \<le> int (unat st) OR int (unat a)" by (rule or_greater_eq) (rule of_nat_0_le_iff)
  ultimately show "unat (a OR st) < 256" "unat a \<le> unat (a OR st)" "unat st \<le> unat (a OR st)"
    unfolding or by (linarith, linarith, metis of_nat_le_iff or.commute)
  have small: "sint w = int (unat w)" if "unat w < 256" for w :: u32
  proof -
    have u: "uint w < 256" using that unfolding uint_nat by linarith
    have low: "- (2 ^ (LENGTH(32) - Suc 0)) \<le> uint w" by (rule order_trans [OF _ unsigned_greater_eq]) simp
    have "uint w < 2 ^ (LENGTH(32) - Suc 0)" using u by simp
    with low have "sint w = uint w" by (subst sint_uint, intro signed_take_bit_int_eq_self)
    then show ?thesis unfolding uint_nat .
  qed
  show "sint a = int (unat a)" "sint st = int (unat st)" using small assms(1) st by blast+
qed

lemma subcommand_found:
  assumes "find_cmd_tbl (argv ! 1) cmd_bootm_sub = Some (Some i)" "cmd (cmd_bootm_sub ! i) = OtherCmd st"
    and "st \<noteq> BOOTM_STATE_START"
  shows "do_bootm_subcommand w argv t =
    (if sint (im_state (images t)) \<ge> sint st then Some (Returns 1 t)
     else do {
       let t = t\<lparr>images := (images t)\<lparr>im_state := im_state (images t) OR st\<rparr>\<rparr>;
       _ \<leftarrow> boot_os (os_os (im_os (images t)));
       if st = BOOTM_STATE_LOADOS
       then do {
         (r, load_end, m) \<leftarrow> bootm_load_os w (im_os (images t)) 0 (ram t);
         let t = t\<lparr>ram := m\<rparr>;
         if r \<noteq> 0 then Some (Returns r t)
         else map_option (Returns 0) (reserve_loaded load_end t)
       }
       else bootm_os_step w st argv t
     })"
  unfolding do_bootm_subcommand_def assms(1) using assms(2,3) by simp

lemma load_step_state:
  assumes "do {
      (r, load_end, m) \<leftarrow> bootm_load_os w (im_os (images t)) 0 (ram t);
      let t = t\<lparr>ram := m\<rparr>;
      if r \<noteq> 0 then Some (Returns r t) else map_option (Returns 0) (reserve_loaded load_end t)
    } = Some (Returns r u)"
  shows "im_state (images u) = im_state (images t)"
proof -
  obtain q load_end m where "bootm_load_os w (im_os (images t)) 0 (ram t) = Some (q, load_end, m)"
    using assms by (cases "bootm_load_os w (im_os (images t)) 0 (ram t)") auto
  with assms have "(if q \<noteq> 0 then Some (Returns q (t\<lparr>ram := m\<rparr>))
      else map_option (Returns 0) (reserve_loaded load_end (t\<lparr>ram := m\<rparr>))) = Some (Returns r u)"
    by (simp add: Let_def)
  then show ?thesis
    by (cases "q = 0") (auto simp: reserve_loaded_def bind_eq_Some_conv Let_def)
qed

lemma os_step_images:
  assumes "bootm_os_step w st argv t = Some (Returns r u)"
  shows "images u = images t"
proof -
  obtain f where f: "boot_os (os_os (im_os (images t))) = Some (Some f)"
    using assms by (auto simp: bootm_os_step_def bind_eq_Some_conv split: option.splits)
  show ?thesis
  proof (cases "st = BOOTM_STATE_OS_GO")
    case True
    then obtain x where "call_boot_fn w f st argv (t\<lparr>interrupts := False\<rparr>) = Some x"
        "(case x of Returns _ s \<Rightarrow> Returns 0 s | r \<Rightarrow> r) = Returns r u"
      using assms f by (auto simp: bootm_os_step_def bind_eq_Some_conv)
    then show ?thesis by (cases x) (auto dest: call_boot_fn_images)
  next
    case False
    then show ?thesis using assms f by (auto simp: bootm_os_step_def dest: call_boot_fn_images)
  qed
qed

text \<open>A sub-command that is not later than the state is refused and changes nothing.\<close>

lemma sub_refused:
  assumes "subcommand_state argv = Some st" "st \<noteq> BOOTM_STATE_START" "sint st \<le> sint (im_state (images t))"
  shows "do_bootm_subcommand w argv t = Some (Returns 1 t)"
proof -
  obtain i where i: "find_cmd_tbl (argv ! 1) cmd_bootm_sub = Some (Some i)" "cmd (cmd_bootm_sub ! i) = OtherCmd st"
    using assms(1) by (auto simp: subcommand_state_def split: option.splits cmd_fn.splits)
  show ?thesis using assms(3) by (simp add: subcommand_found [OF i assms(2)])
qed

text \<open>Otherwise its number is set in the state, whatever it does.\<close>

lemma sub_sets_state:
  assumes "subcommand_state argv = Some st" "st \<noteq> BOOTM_STATE_START" "sint (im_state (images t)) < sint st"
    and "do_bootm_subcommand w argv t = Some (Returns r u)"
  shows "im_state (images u) = im_state (images t) OR st"
proof -
  obtain i where i: "find_cmd_tbl (argv ! 1) cmd_bootm_sub = Some (Some i)" "cmd (cmd_bootm_sub ! i) = OtherCmd st"
    using assms(1) by (auto simp: subcommand_state_def split: option.splits cmd_fn.splits)
  note found = subcommand_found [OF i assms(2)]
  let ?t = "t\<lparr>images := (images t)\<lparr>im_state := im_state (images t) OR st\<rparr>\<rparr>"
  have "im_state (images u) = im_state (images ?t)"
  proof (cases "st = BOOTM_STATE_LOADOS")
    case load: True
    obtain fn where "boot_os (os_os (im_os (images ?t))) = Some fn"
      using assms(3,4) unfolding found Let_def by (cases "boot_os (os_os (im_os (images ?t)))") simp_all
    with assms(4) show ?thesis
      unfolding found Let_def if_P [OF load] if_not_P [OF assms(3) [unfolded not_le [symmetric]]]
      by (intro load_step_state [of w ?t r u]) (simp only: bind.bind_lunit Let_def)
  next
    case False
    have "bootm_os_step w st argv ?t = Some (Returns r u)"
      using assms(3,4) False unfolding found Let_def by (cases "boot_os (os_os (im_os (images ?t)))") simp_all
    then show ?thesis using os_step_images by metis
  qed
  then show ?thesis by simp
qed

lemma sub_unknown:
  assumes "subcommand_state argv = None" "do_bootm_subcommand w argv t = Some (Returns r u)"
  shows "u = t"
  using assms
  by (auto simp: subcommand_state_def do_bootm_subcommand_def bind_eq_Some_conv split: option.splits cmd_fn.splits)

lemma state_new_bit:
  fixes a st :: u32
  assumes "unat a < unat st" "st \<in> {0x01, 0x02, 0x10, 0x20, 0x40, 0x80}"
  shows "(a OR st) AND NOT a = st"
proof -
  obtain k where k: "st = 2 ^ k" "unat st = 2 ^ k" "k < 32"
    using assms(2) that [of 0] that [of 1] that [of 4] that [of 5] that [of 6] that [of 7] by auto
  have "\<not> bit a k"
  proof
    assume "bit a k"
    then have "bit (unat a) k" by (simp add: bit_unsigned_iff k(3))
    then have "odd (unat a div 2 ^ k)" unfolding bit_iff_odd .
    moreover have "unat a div 2 ^ k = 0"
      using assms(1) unfolding k(2) by (rule div_less)
    ultimately show False by simp
  qed
  then show ?thesis using k by (intro bit_word_eqI) (auto simp: bit_simps)
qed

text \<open>One sub-command: refused without a trace, or later than all before it.\<close>

lemma sub_new_bits:
  assumes "0 \<notin> set (argv ! 1)" "subcommand_state argv \<noteq> Some BOOTM_STATE_START" "unat (im_state (images t)) < 256"
    and "do_bootm_subcommand w argv t = Some (Returns r u)"
  shows "new_bits t u = [] \<and> u = t \<or>
    (\<exists>st \<in> {BOOTM_STATE_LOADOS, BOOTM_STATE_OS_CMDLINE, BOOTM_STATE_OS_BD_T, BOOTM_STATE_OS_PREP, BOOTM_STATE_OS_GO}.
       new_bits t u = [st] \<and> unat (im_state (images t)) < unat st \<and> im_state (images u) = im_state (images t) OR st)"
proof (cases "subcommand_state argv")
  case None
  then show ?thesis using sub_unknown [OF None assms(4)] by (simp add: new_bits_def)
next
  case (Some st)
  then have start: "st \<noteq> BOOTM_STATE_START" using assms(2) by simp
  have st: "st \<in> {0x01, 0x02, 0x10, 0x20, 0x40, 0x80}" by (rule sub_states [OF assms(1) Some])
  note o = state_or [OF assms(3) st]
  show ?thesis
  proof (cases "sint (im_state (images t)) < sint st")
    case True
    then have less: "unat (im_state (images t)) < unat st" unfolding o(4,5) of_nat_less_iff .
    have set: "im_state (images u) = im_state (images t) OR st" by (rule sub_sets_state [OF Some start True assms(4)])
    have "new_bits t u = [st]"
      unfolding new_bits_def set state_new_bit [OF less st] using st by auto
    moreover have "st \<in> {BOOTM_STATE_LOADOS, BOOTM_STATE_OS_CMDLINE, BOOTM_STATE_OS_BD_T, BOOTM_STATE_OS_PREP, BOOTM_STATE_OS_GO}"
      using st start by (simp add: BOOTM_STATE_START_def BOOTM_STATE_LOADOS_def BOOTM_STATE_OS_CMDLINE_def BOOTM_STATE_OS_BD_T_def
          BOOTM_STATE_OS_PREP_def BOOTM_STATE_OS_GO_def)
    ultimately show ?thesis using set less by blast
  next
    case False
    then have "sint st \<le> sint (im_state (images t))" by simp
    from sub_refused [OF Some start this, of w] assms(4) show ?thesis by (simp add: new_bits_def)
  qed
qed

lemma sub_run_states:
  assumes "sub_run w s sts t" "unat (im_state (images s)) < 256"
  shows "sorted_wrt (<) (map unat sts) \<and> (\<forall>st \<in> set sts. unat st \<le> unat (im_state (images t)))
    \<and> set sts \<subseteq> {BOOTM_STATE_LOADOS, BOOTM_STATE_OS_CMDLINE, BOOTM_STATE_OS_BD_T, BOOTM_STATE_OS_PREP, BOOTM_STATE_OS_GO}
    \<and> unat (im_state (images t)) < 256"
  using assms
proof (induction rule: sub_run.induct)
  case (sub sts t argv r u)
  have small: "unat (im_state (images t)) < 256" using sub by simp
  consider "new_bits t u = []" "u = t"
    | st where "st \<in> {BOOTM_STATE_LOADOS, BOOTM_STATE_OS_CMDLINE, BOOTM_STATE_OS_BD_T, BOOTM_STATE_OS_PREP, BOOTM_STATE_OS_GO}"
        "new_bits t u = [st]" "unat (im_state (images t)) < unat st" "im_state (images u) = im_state (images t) OR st"
    using sub_new_bits [OF sub.hyps(2,3) small sub.hyps(4)] by blast
  then show ?case
  proof cases
    case 1
    then show ?thesis using sub by simp
  next
    case (2 st)
    then have "st \<in> {0x01, 0x02, 0x10, 0x20, 0x40, 0x80}"
      by (auto simp: BOOTM_STATE_LOADOS_def BOOTM_STATE_OS_CMDLINE_def BOOTM_STATE_OS_BD_T_def
          BOOTM_STATE_OS_PREP_def BOOTM_STATE_OS_GO_def)
    note o = state_or [OF small this]
    show ?thesis
      using sub.IH [OF sub.prems] 2 o(1-3) by (fastforce simp: sorted_wrt_append)
  qed
qed simp_all

text \<open>C31:
  The sub-commands other than \<^verbatim>\<open>start\<close> take effect in one order only, each once: in any series of commands the
  bits they set in \<^verbatim>\<open>images.state\<close> are the numbers of sub-commands, appear one at a time and rise (load, command
  line, board data, preparation, start), also when a boot function fails and returns.  Once a sub-command has
  set its bit, that one and all earlier ones are refused: they return 1 and change neither the memory, so
  nothing is loaded twice, nor anything else, and none enters the system.\<close>

theorem subcommands_in_order:
  assumes "sub_run w s sts t" "unat (im_state (images s)) < 256"
  shows "sorted_wrt (<) (map unat sts)
    \<and> set sts \<subseteq> {BOOTM_STATE_LOADOS, BOOTM_STATE_OS_CMDLINE, BOOTM_STATE_OS_BD_T, BOOTM_STATE_OS_PREP, BOOTM_STATE_OS_GO}
    \<and> (\<forall>argv st. 0 \<notin> set (argv ! 1) \<longrightarrow> subcommand_state argv = Some st \<longrightarrow> st \<noteq> BOOTM_STATE_START \<longrightarrow>
         (\<exists>fin \<in> set sts. unat st \<le> unat fin) \<longrightarrow> do_bootm_subcommand w argv t = Some (Returns 1 t))"
proof -
  note run = sub_run_states [OF assms]
  have "do_bootm_subcommand w argv t = Some (Returns 1 t)"
    if "0 \<notin> set (argv ! 1)" "subcommand_state argv = Some st" "st \<noteq> BOOTM_STATE_START" "fin \<in> set sts" "unat st \<le> unat fin"
    for argv st fin
  proof -
    have small: "unat (im_state (images t)) < 256" using run by blast
    have "unat st \<le> unat (im_state (images t))" using run that(4,5) by fastforce
    then have "sint st \<le> sint (im_state (images t))"
      unfolding state_or(4,5) [OF small sub_states [OF that(1,2)]] of_nat_le_iff .
    then show ?thesis by (rule sub_refused [OF that(2,3)])
  qed
  then show ?thesis using run by blast
qed

section \<open>A small board\<close>

text \<open>
  The image of a kernel of three bytes at 0x32000000, room for it at 0x30008000, room for the tags at
  0x30000100, and nothing else.\<close>

definition boot_ram :: "u8 list \<Rightarrow> ram" where
  "boot_ram img x =
     (if in_block 0x32000000 (length img) x then Some (img ! unat (x - 0x32000000))
      else if in_block 0x30008000 3 x \<or> in_block 0x30000100 44 x then Some 0 else None)"

definition boot_board :: "u8 list \<Rightarrow> unit board" where
  "boot_board img =
     \<lparr>env_valid = True, default_env = default_env small_env, stored_crc = stored_crc small_env,
      env_data = env_data small_env, env_id = 1, baudrate = 115200, ip_addr = 0, load_addr = 0x32000000,
      boot_file = replicate 128 0, con_in = [], console = (), ram = boot_ram img, images = zero_images,
      bd = \<lparr>bi_arch_number = 782, bi_boot_params = 0x30000100, bi_dram_start = 0x30000000, bi_dram_size = 0x4000000\<rparr>,
      interrupts = True\<rparr>"

definition no_world :: "unit world" where
  "no_world = \<lparr>w_console = no_console, w_zunzip = \<lambda>m d n s l i. None, w_stack = []\<rparr>"

lemma boot_board_env: "env_abs (boot_board img) (env_map small_entries)"
proof -
  have "env_inv (boot_board img) small_entries"
    using small_inv by (simp add: env_inv_def boot_board_def)
  then show ?thesis by (auto simp: env_abs_def)
qed

lemma boot_board_vars:
  "env_map small_entries (ascii ''bootargs'') = None" "env_map small_entries (ascii ''machid'') = None"
  by (simp_all add: env_map_def small_entries_def entry_name_def entry_value_def)

lemma boot_board_image:
  assumes "length img = 67"
  shows "ram_load (ram (boot_board img)) (kernel_addr [] (boot_board img)) (length img) = Some img"
    "\<forall>i<length [1, 2, 3 :: u8]. ram (boot_board img) (0x30008000 + of_nat i) \<noteq> None"
    "\<forall>i<44. ram (boot_board img) (0x30000100 + of_nat i) \<noteq> None"
proof -
  show "ram_load (ram (boot_board img)) (kernel_addr [] (boot_board img)) (length img) = Some img"
    using assms by (auto simp: ram_load_eq kernel_addr_def boot_board_def boot_ram_def in_block_def)
  show "\<forall>i<length [1, 2, 3 :: u8]. ram (boot_board img) (0x30008000 + of_nat i) \<noteq> None"
    "\<forall>i<44. ram (boot_board img) (0x30000100 + of_nat i) \<noteq> None"
    by (auto simp: boot_board_def boot_ram_def in_block_def)
qed

theorem bootm_boots_linux_witness:
  "\<exists>img t. mkimage (sample_params IH_TYPE_KERNEL) 0 [[1, 2, 3]] = Some img \<and>
    do_bootm no_world [] (boot_board img) = Some (Enters (Linux 0x30008000 782 0x30000100) t) \<and>
    ram_load (ram t) 0x30008000 3 = Some [1, 2, 3] \<and>
    tags_at (ram t) 0x30000100 [AtagCore, AtagMem 0x4000000 0x30000000]"
proof -
  obtain img where img: "mkimage (sample_params IH_TYPE_KERNEL) 0 [[1, 2, 3]] = Some img" "length img = 67"
    using sample_image [of IH_TYPE_KERNEL "[1, 2, 3]"] by auto
  let ?s = "boot_board img"
  have tags: "linux_tags (bd ?s) (env_map small_entries (ascii ''bootargs'')) 0 0 = [AtagCore, AtagMem 0x4000000 0x30000000]"
    unfolding boot_board_vars by (simp add: linux_tags_def cmdline_tag_def initrd_tag_def boot_board_def)
  have apart: "disjoint_blocks 0x30000100 44 0x30008000 (length [1, 2, 3 :: u8])" by (rule disjoint_blocksI) simp_all
  have "\<exists>t. do_bootm no_world [] ?s = Some (Enters (Linux (entry_point (sample_params IH_TYPE_KERNEL))
        (machine (env_map small_entries) (bd ?s)) (bi_boot_params (bd ?s))) t) \<and>
    ram_load (ram t) (p_addr (sample_params IH_TYPE_KERNEL)) (length [1, 2, 3 :: u8]) = Some [1, 2, 3] \<and>
    tags_at (ram t) (bi_boot_params (bd ?s)) [AtagCore, AtagMem 0x4000000 0x30000000] \<and> \<not> interrupts t"
    by (rule bootm_boots_linux [OF img(1) _ _ _ _ _ _ _ boot_board_image(1) _ _ _ boot_board_env tags [symmetric]])
      (use img(2) boot_board_image(2,3) [OF img(2)] apart in
        \<open>simp_all add: sample_params_def no_subcommand_def tags_size_def boot_board_def kernel_addr_def\<close>)
  then show ?thesis
    using img(1) unfolding machine_def boot_board_vars
    by (auto simp: sample_params_def entry_point_def boot_board_def numeral_3_eq_3)
qed

theorem boot_os_unchecked_witness:
  "\<exists>img. mkimage ((sample_params IH_TYPE_KERNEL)\<lparr>p_os := 21\<rparr>) 0 [[1, 2, 3]] = Some img \<and>
    do_bootm no_world [] (boot_board img) = None"
proof -
  let ?p = "(sample_params IH_TYPE_KERNEL)\<lparr>p_os := 21\<rparr>"
  obtain img where img: "mkimage ?p 0 [[1, 2, 3]] = Some img" "length img = 67"
    by (simp add: mkimage_unfold sample_params_def image_check_image_types_def IH_TYPE_KERNEL_def
      IH_TYPE_MULTI_def IH_TYPE_SCRIPT_def IH_TYPE_FLATDT_def image_get_header_size_def
      image_set_header_eq copy_file_def header_bytes_length)
  have "(19 \<le> unat (p_os ?p) \<longrightarrow> do_bootm no_world [] (boot_board img) = None) \<and>
    (boot_os (p_os ?p) = Some None \<longrightarrow> (\<exists>t. do_bootm no_world [] (boot_board img) = Some (Returns 1 t) \<and>
      interrupts t = interrupts (boot_board img)))"
    by (rule boot_os_unchecked [OF img(1) _ _ _ _ _ _ boot_board_image(1) _ boot_board_env])
      (use img(2) boot_board_image(2) [OF img(2)] in
        \<open>simp_all add: sample_params_def no_subcommand_def boot_board_def kernel_addr_def\<close>)
  then show ?thesis using img(1) by auto
qed

text \<open>After \<^verbatim>\<open>start\<close> of an image for Linux, \<^verbatim>\<open>bdt\<close> is accepted.\<close>

definition started :: "unit board" where
  "started = (boot_board [])\<lparr>images := zero_images\<lparr>im_os := (im_os zero_images)\<lparr>os_os := IH_OS_LINUX\<rparr>, im_state := 1\<rparr>\<rparr>"

lemma sub_numbers:
  "subcommand_state [[], ascii ''bdt''] = Some BOOTM_STATE_OS_BD_T"
  "find_cmd_tbl ([[], ascii ''bdt''] ! 1) cmd_bootm_sub = Some (Some 3)"
proof -
  have t: "table_ok cmd_bootm_sub" by (simp add: cmd_bootm_sub_def table_ok_def)
  show f: "find_cmd_tbl ([[], ascii ''bdt''] ! 1) cmd_bootm_sub = Some (Some 3)"
    by (subst find_cmd_lemma [OF _ t]) (simp_all add: cmd_bootm_sub_def cmd_key_def)
  show "subcommand_state [[], ascii ''bdt''] = Some BOOTM_STATE_OS_BD_T"
    unfolding subcommand_state_def f by (simp add: cmd_bootm_sub_def)
qed

lemma started_runs: "\<exists>t. sub_run no_world started [BOOTM_STATE_OS_BD_T] t \<and> im_state (images t) = 0x21"
proof -
  let ?t = "started\<lparr>images := (images started)\<lparr>im_state := 0x21\<rparr>\<rparr>"
  have start: "BOOTM_STATE_OS_BD_T \<noteq> BOOTM_STATE_START"
    by (simp add: BOOTM_STATE_OS_BD_T_def BOOTM_STATE_START_def)
  have "getenv_string ?t (ascii ''bootargs'') = Some None"
  proof -
    have "env_inv ?t small_entries" using small_inv by (simp add: env_inv_def started_def boot_board_def)
    then have "env_abs ?t (env_map small_entries)" by (auto simp: env_abs_def)
    from lookups(4) [OF this] show ?thesis unfolding boot_board_vars .
  qed
  then have linux: "do_bootm_linux BOOTM_STATE_OS_BD_T ?t = Some (Returns 1 ?t)"
    by (simp add: do_bootm_linux_def BOOTM_STATE_OS_BD_T_def BOOTM_STATE_OS_GO_def del: ascii_simps)
  have os: "boot_os (os_os (im_os (images ?t))) = Some (Some BootLinux)"
    by (simp add: started_def boot_os_def IH_OS_LINUX_def)
  have "im_state (images started) = 1" by (simp add: started_def)
  then have acc: "sint (im_state (images started)) < sint BOOTM_STATE_OS_BD_T" "im_state (images started) OR BOOTM_STATE_OS_BD_T = 0x21"
    "new_bits started ?t = [BOOTM_STATE_OS_BD_T]"
    by (simp_all add: BOOTM_STATE_OS_BD_T_def new_bits_def)
  have bdt: "cmd (cmd_bootm_sub ! 3) = OtherCmd BOOTM_STATE_OS_BD_T" by (simp add: cmd_bootm_sub_def)
  have load: "BOOTM_STATE_OS_BD_T \<noteq> BOOTM_STATE_LOADOS"
    by (simp add: BOOTM_STATE_OS_BD_T_def BOOTM_STATE_LOADOS_def)
  have "bootm_os_step no_world BOOTM_STATE_OS_BD_T [[], ascii ''bdt''] ?t = Some (Returns 1 ?t)"
    unfolding bootm_os_step_def os using linux by (simp add: BOOTM_STATE_OS_BD_T_def BOOTM_STATE_OS_GO_def)
  then have "do_bootm_subcommand no_world [[], ascii ''bdt''] started = Some (Returns 1 ?t)"
    using acc(1,2) os bdt load
    by (subst subcommand_found [OF sub_numbers(2) bdt start]) (simp add: Let_def)
  then have "sub_run no_world started ([] @ new_bits started ?t) ?t"
    by (intro sub_run.sub [OF sub_run.start]) (use sub_numbers start in simp_all)
  then show ?thesis unfolding acc by auto
qed

theorem subcommands_in_order_witness:
  "\<exists>t. sub_run no_world started [BOOTM_STATE_OS_BD_T] t \<and>
    do_bootm_subcommand no_world [[], ascii ''bdt''] t = Some (Returns 1 t)"
proof -
  obtain t where t: "sub_run no_world started [BOOTM_STATE_OS_BD_T] t" using started_runs by blast
  have "do_bootm_subcommand no_world [[], ascii ''bdt''] t = Some (Returns 1 t)"
    using subcommands_in_order [OF t] sub_numbers(1)
    by (auto simp: started_def BOOTM_STATE_OS_BD_T_def BOOTM_STATE_START_def)
  with t show ?thesis by blast
qed

end
