(* ===== verification/Script.thy ===== *)
theory Script
  imports Shell Bootm EnvStore
begin

text \<open>
  Scripts and parts of images: the \<^verbatim>\<open>source\<close> command of \<^verbatim>\<open>common/cmd_source.c\<close>, which runs the lines of a
  script image, and \<^verbatim>\<open>imxtract\<close> of \<^verbatim>\<open>common/cmd_ximg.c\<close>.  A script packed by \<^verbatim>\<open>mkimage\<close> means its lines one
  after the other, and since each line means its commands, so does the script.  The environment commands and
  \<^verbatim>\<open>source\<close> together, in any table with any other commands that leave the environment well formed, keep it so
  at every prompt.
\<close>

section \<open>Running a script\<close>

definition CONFIG_SYS_LOAD_ADDR :: u32 where "CONFIG_SYS_LOAD_ADDR = 0x30008000"

text \<open>The walk past the table of sizes.\<close>

partial_function (option) past_table :: "ram \<Rightarrow> u32 \<Rightarrow> u32 option" where
  "past_table m dat =
     (case ram_word m dat of
        None \<Rightarrow> None
      | Some w \<Rightarrow> if w = 0 then Some (dat + 4) else past_table m (dat + 4))"

text \<open>
  The loop over the copy of the script; \<open>line\<close> and \<open>nxt\<close> are offsets.  The first component of the result is
  \<^verbatim>\<open>rcode\<close>.
\<close>

function script_loop :: "'s runner \<Rightarrow> u8 list \<Rightarrow> nat \<Rightarrow> nat \<Rightarrow> 's \<Rightarrow> (int \<times> u8 list \<times> nat \<times> 's) option" where
  "script_loop run cbuf line nxt s =
     (case rd cbuf nxt of
        None \<Rightarrow> None
      | Some c \<Rightarrow>
          if c = 0 then Some (0, cbuf, line, s)
          else if c \<noteq> 0x0a then script_loop run cbuf line (nxt + 1) s
          else (let cbuf = cbuf[nxt := 0]
                in case rd cbuf line of
                     None \<Rightarrow> None
                   | Some l \<Rightarrow>
                       if l = 0 then script_loop run cbuf (nxt + 1) (nxt + 1) s
                       else (case str_at cbuf line of
                               None \<Rightarrow> None
                             | Some str \<Rightarrow>
                                 (case run (Some str) 0 s of
                                    None \<Rightarrow> None
                                  | Some (r, s) \<Rightarrow>
                                      if r < 0 then Some (1, cbuf, line, s)
                                      else script_loop run cbuf (nxt + 1) (nxt + 1) s))))"
  by pat_completeness auto
termination
  by (relation "measure (\<lambda>(run, cbuf, line, nxt, s). length cbuf - nxt)") (auto simp: buf_simps)

declare script_loop.simps [simp del]

definition run_script :: "'s runner \<Rightarrow> u8 list \<Rightarrow> 's \<Rightarrow> (int \<times> 's) option" where
  "run_script run cbuf s = do {
     (rcode, cbuf, line, s) \<leftarrow> script_loop run cbuf 0 0 s;
     l \<leftarrow> rd cbuf line;
     if rcode = 0 \<and> l \<noteq> 0
     then do {
       str \<leftarrow> str_at cbuf line;
       (r, s) \<leftarrow> run (Some str) 0 s;
       Some (if r \<ge> 0 then 1 else 0, s)
     }
     else Some (rcode, s)
   }"

text \<open>\<open>mem\<close> is the memory of the board, \<open>malloc\<close> whether an allocation of a size succeeds.\<close>

definition source ::
    "'d shell runner \<Rightarrow> ('d shell \<Rightarrow> ram) \<Rightarrow> ('d shell \<Rightarrow> u32 \<Rightarrow> bool) \<Rightarrow> u32 \<Rightarrow> 'd shell \<Rightarrow> (int \<times> 'd shell) option" where
  "source run mem malloc addr s = do {
     verify \<leftarrow> getenv_yesno s (ascii ''verify'');
     format \<leftarrow> genimg_get_format (mem s) addr;
     if format \<noteq> IMAGE_FORMAT_LEGACY then Some (1, s)
     else do {
       ok \<leftarrow> image_check_magic (mem s) addr;
       if \<not> ok then Some (1, s)
       else do {
         hdr \<leftarrow> ram_header (mem s) addr;
         if \<not> image_check_hcrc hdr then Some (1, s)
         else do {
           ok \<leftarrow> (if verify then image_check_dcrc (mem s) addr hdr else Some True);
           if \<not> ok then Some (1, s)
           else if ih_type hdr \<noteq> IH_TYPE_SCRIPT then Some (1, s)
           else do {
             let dat = image_get_data addr;
             w \<leftarrow> ram_word (mem s) dat;
             let len = uimage_to_cpu w;
             if len = 0 then Some (1, s)
             else do {
               dat \<leftarrow> past_table (mem s) dat;
               if \<not> malloc s (len + 1) then Some (1, s)
               else if len + 1 = 0 then None
               else do {
                 cbuf \<leftarrow> ram_load (mem s) dat (unat len);
                 run_script run (cbuf @ [0]) s
               }
             }
           }
         }
       }
     }
   }"

definition do_source ::
    "'d shell runner \<Rightarrow> ('d shell \<Rightarrow> ram) \<Rightarrow> ('d shell \<Rightarrow> u32 \<Rightarrow> bool) \<Rightarrow> u8 list list \<Rightarrow> 'd shell \<Rightarrow> (int \<times> 'd shell) option" where
  "do_source run mem malloc argv s =
     source run mem malloc (if length argv < 2 then CONFIG_SYS_LOAD_ADDR else fst (simple_strtoul (argv ! 1) 16)) s"

text \<open>
  The command in the table of the interpreter: a script may run scripts.  \<open>n\<close> is the depth of calls within a
  line as in \<open>run_command\<close>, the second number the depth of scripts the stack has room for.
\<close>

datatype 'c script_cmd = Source | Command 'c

fun script_exec ::
    "nat \<Rightarrow> nat \<Rightarrow> ('d shell \<Rightarrow> ram) \<Rightarrow> ('d shell \<Rightarrow> u32 \<Rightarrow> bool) \<Rightarrow> ('c, 'd) exec \<Rightarrow> 'c script_cmd cmd_tbl list
     \<Rightarrow> ('c script_cmd, 'd) exec" where
  "script_exec n 0 mem malloc exec table c flag argv s =
     (case c of Source \<Rightarrow> None | Command c \<Rightarrow> exec c flag argv s)"
| "script_exec n (Suc k) mem malloc exec table c flag argv s =
     (case c of
        Source \<Rightarrow> do_source (run_command n (script_exec n k mem malloc exec table) table) mem malloc argv s
      | Command c \<Rightarrow> exec c flag argv s)"

section \<open>Taking a part out of an image\<close>

text \<open>The addresses go to the environment as \<^verbatim>\<open>%8lx\<close>; what \<^verbatim>\<open>setenv\<close> returns is ignored.\<close>

definition do_imgextract :: "'c world \<Rightarrow> u8 list list \<Rightarrow> 'c board \<Rightarrow> (int \<times> 'c board) option" where
  "do_imgextract w argv s = do {
     verify \<leftarrow> getenv_yesno s (ascii ''verify'');
     let addr = (if length argv > 1 then fst (simple_strtoul (argv ! 1) 16) else load_addr s);
     let part = (if length argv > 2 then fst (simple_strtoul (argv ! 2) 16) else 0);
     let dest = (if length argv > 3 then fst (simple_strtoul (argv ! 3) 16) else 0);
     format \<leftarrow> genimg_get_format (ram s) addr;
     if format \<noteq> IMAGE_FORMAT_LEGACY then Some (1, s)
     else do {
       ok \<leftarrow> image_check_magic (ram s) addr;
       if \<not> ok then Some (1, s)
       else do {
         hdr \<leftarrow> ram_header (ram s) addr;
         if \<not> image_check_hcrc hdr then Some (1, s)
         else if ih_type hdr \<noteq> IH_TYPE_MULTI then Some (1, s)
         else if ih_comp hdr \<noteq> IH_COMP_NONE then Some (1, s)
         else do {
           ok \<leftarrow> (if verify then image_check_dcrc (ram s) addr hdr else Some True);
           if \<not> ok then Some (1, s)
           else do {
             count \<leftarrow> image_multi_count (ram s) addr;
             if part \<ge> count then Some (1, s)
             else do {
               (dat, len) \<leftarrow> image_multi_getimg (ram s) addr part;
               s \<leftarrow> (if length argv > 3
                    then map_option (\<lambda>m. s\<lparr>ram := m\<rparr>) (ram_memcpy (ram s) dest dat (unat len))
                    else Some s);
               (_, s) \<leftarrow> setenv (w_console w) (ascii ''fileaddr'') (Some (number dat 16 8 (- 1) SMALL)) s;
               (_, s) \<leftarrow> setenv (w_console w) (ascii ''filesize'') (Some (number len 16 8 (- 1) SMALL)) s;
               Some (0, s)
             }
           }
         }
       }
     }
   }"

section \<open>Lines\<close>

text \<open>What a script means, over its lines: the complete ones, and a rest without a newline.\<close>

definition unlines :: "u8 list list \<Rightarrow> u8 list" where
  "unlines ls = concat (map (\<lambda>l. l @ [0x0a]) ls)"

definition is_line :: "u8 list \<Rightarrow> bool" where
  "is_line l \<longleftrightarrow> 0 \<notin> set l \<and> 0x0a \<notin> set l"

fun run_lines :: "'s runner \<Rightarrow> u8 list list \<Rightarrow> 's \<Rightarrow> (int \<times> 's) option" where
  "run_lines run [] s = Some (0, s)"
| "run_lines run (l # ls) s =
     (if l = [] then run_lines run ls s
      else case run (Some l) 0 s of
             None \<Rightarrow> None
           | Some (r, s) \<Rightarrow> if r < 0 then Some (1, s) else run_lines run ls s)"

definition script_meaning :: "'s runner \<Rightarrow> u8 list list \<Rightarrow> u8 list \<Rightarrow> 's \<Rightarrow> (int \<times> 's) option" where
  "script_meaning run ls rest s =
     (case run_lines run ls s of
        None \<Rightarrow> None
      | Some (rc, s) \<Rightarrow>
          if rc \<noteq> 0 \<or> rest = [] then Some (rc, s)
          else map_option (\<lambda>(r, s). (if r \<ge> 0 then 1 else 0, s)) (run (Some rest) 0 s))"

lemma script_loop_skip:
  assumes "is_line l"
  shows "script_loop run (pre @ l @ suf) line (length pre) s = script_loop run (pre @ l @ suf) line (length (pre @ l)) s"
  using assms
proof (induction l arbitrary: pre)
  case (Cons c l)
  have "script_loop run (pre @ (c # l) @ suf) line (length pre) s
    = script_loop run ((pre @ [c]) @ l @ suf) line (length (pre @ [c])) s"
    using Cons.prems by (subst script_loop.simps) (auto simp: is_line_def)
  also have "\<dots> = script_loop run ((pre @ [c]) @ l @ suf) line (length ((pre @ [c]) @ l)) s"
    using Cons.prems by (intro Cons.IH) (simp add: is_line_def)
  finally show ?case by simp
qed simp

lemma script_loop_line:
  assumes "is_line l"
  shows "script_loop run (pre @ l @ 0x0a # suf) (length pre) (length pre) s =
    (if l = [] then script_loop run ((pre @ l @ [0]) @ suf) (length (pre @ l @ [0])) (length (pre @ l @ [0])) s
     else case run (Some l) 0 s of
            None \<Rightarrow> None
          | Some (r, s) \<Rightarrow> if r < 0 then Some (1, pre @ l @ 0 # suf, length pre, s)
                        else script_loop run ((pre @ l @ [0]) @ suf) (length (pre @ l @ [0])) (length (pre @ l @ [0])) s)"
proof -
  have nl: "rd (pre @ l @ 0x0a # suf) (length (pre @ l)) = Some 0x0a"
    using rd_at [of "pre @ l" "0x0a" suf] by simp
  have upd: "(pre @ l @ 0x0a # suf)[length (pre @ l) := 0] = pre @ l @ 0 # suf"
    using list_update_length [of "pre @ l" "0x0a" suf 0] by simp
  have str: "str_at (pre @ l @ 0 # suf) (length pre) = Some l"
    using assms by (intro str_at_eq) (simp add: is_line_def)
  have first: "rd (pre @ l @ 0 # suf) (length pre) = Some (if l = [] then 0 else l ! 0)"
    by (cases l) simp_all
  have "l ! 0 \<noteq> 0" if "l \<noteq> []" using assms that by (cases l) (auto simp: is_line_def)
  then show ?thesis
    unfolding script_loop_skip [OF assms]
    by (subst script_loop.simps) (simp only: nl option.case upd Let_def first str, simp split: option.split)
qed

lemma script_loop_lines:
  assumes "\<forall>l \<in> set ls. is_line l" "is_line rest"
  shows "case run_lines run ls s of
      None \<Rightarrow> script_loop run (pre @ unlines ls @ rest @ 0 # tail) (length pre) (length pre) s = None
    | Some (rc, s') \<Rightarrow>
        \<exists>cbuf line l. script_loop run (pre @ unlines ls @ rest @ 0 # tail) (length pre) (length pre) s = Some (rc, cbuf, line, s') \<and>
          rd cbuf line = Some l \<and> (rc = 0 \<longrightarrow> str_at cbuf line = Some rest \<and> (l = 0 \<longleftrightarrow> rest = []))"
  using assms(1)
proof (induction ls arbitrary: pre s)
  case Nil
  have "rd (pre @ rest @ 0 # tail) (length (pre @ rest)) = Some 0"
    using rd_at [of "pre @ rest" 0 tail] by simp
  then have "script_loop run (pre @ rest @ 0 # tail) (length pre) (length (pre @ rest)) s = Some (0, pre @ rest @ 0 # tail, length pre, s)"
    by (subst script_loop.simps) simp
  moreover have "rd (pre @ rest @ 0 # tail) (length pre) = Some (if rest = [] then 0 else rest ! 0)" by (cases rest) simp_all
  moreover have "rest \<noteq> [] \<Longrightarrow> rest ! 0 \<noteq> 0" using assms(2) by (cases rest) (auto simp: is_line_def)
  moreover have "str_at (pre @ rest @ 0 # tail) (length pre) = Some rest"
    using assms(2) by (intro str_at_eq) (simp add: is_line_def)
  ultimately show ?case
    by (simp add: unlines_def script_loop_skip [OF assms(2)])
next
  case (Cons l ls)
  let ?more = "unlines ls @ rest @ 0 # tail"
  have eq: "pre @ unlines (l # ls) @ rest @ 0 # tail = pre @ l @ 0x0a # ?more" by (simp add: unlines_def)
  have line: "is_line l" and rest: "\<forall>l \<in> set ls. is_line l" using Cons.prems by auto
  note step = script_loop_line [OF line, of run pre ?more]
  note IH = Cons.IH [OF rest, where pre = "pre @ l @ [0]"]
  have bad: "\<exists>c. rd (pre @ l @ 0 # ?more) (length pre) = Some c" by (cases l) simp_all
  show ?case
  proof (cases "l = []")
    case True
    then show ?thesis unfolding eq step using IH [of s] by simp
  next
    case False
    show ?thesis
    proof (cases "run (Some l) 0 s")
      case None
      then show ?thesis unfolding eq step using False by simp
    next
      case (Some x)
      then obtain r t where run: "run (Some l) 0 s = Some (r, t)" by (cases x) simp
      show ?thesis
      proof (cases "r < 0")
        case True
        then show ?thesis unfolding eq step by (simp add: False run bad)
      next
        case pos: False
        then show ?thesis unfolding eq step using IH [of t] by (auto simp: False run split: option.splits)
      qed
    qed
  qed
qed

lemma run_script_eq:
  assumes "\<forall>l \<in> set ls. is_line l" "is_line rest"
  shows "run_script run (unlines ls @ rest @ 0 # tail) s = script_meaning run ls rest s"
proof (cases "run_lines run ls s")
  case None
  with script_loop_lines [OF assms, where run = run and s = s and pre = "[]" and tail = tail] show ?thesis
    by (simp add: run_script_def script_meaning_def)
next
  case (Some x)
  obtain rc t where x: "x = (rc, t)" by (cases x)
  obtain cbuf line l where "script_loop run (unlines ls @ rest @ 0 # tail) 0 0 s = Some (rc, cbuf, line, t)"
    "rd cbuf line = Some l" "rc = 0 \<longrightarrow> str_at cbuf line = Some rest \<and> (l = 0 \<longleftrightarrow> rest = [])"
    using script_loop_lines [OF assms, where run = run and s = s and pre = "[]" and tail = tail] Some x by auto
  then show ?thesis
    using Some x by (cases "run (Some rest) 0 t") (auto simp: run_script_def script_meaning_def)
qed

section \<open>Packed scripts\<close>

lemma past_table_eq:
  assumes "\<forall>i<k. \<exists>w. ram_word m (a + 4 * of_nat i) = Some w \<and> w \<noteq> 0" "ram_word m (a + 4 * of_nat k) = Some 0"
  shows "past_table m a = Some (a + 4 * of_nat k + 4)"
  using assms
proof (induction k arbitrary: a)
  case 0
  then show ?case by (subst past_table.simps) simp
next
  case (Suc k)
  obtain w where w: "ram_word m a = Some w" "w \<noteq> 0" using Suc.prems(1) by (auto simp: All_less_Suc2)
  have "past_table m (a + 4) = Some (a + 4 + 4 * of_nat k + 4)"
  proof (rule Suc.IH)
    show "\<forall>i<k. \<exists>w. ram_word m (a + 4 + 4 * of_nat i) = Some w \<and> w \<noteq> 0"
    proof (intro allI impI)
      fix i assume "i < k"
      then have "Suc i < Suc k" by simp
      from Suc.prems(1) [rule_format, OF this] show "\<exists>w. ram_word m (a + 4 + 4 * of_nat i) = Some w \<and> w \<noteq> 0"
        by (simp add: algebra_simps)
    qed
    show "ram_word m (a + 4 + 4 * of_nat k) = Some 0" using Suc.prems(2) by (simp add: algebra_simps)
  qed
  with w show ?case by (subst past_table.simps) (simp add: algebra_simps)
qed

text \<open>The first file of a script image, where \<^verbatim>\<open>source\<close> looks for it.\<close>

lemma script_in_memory:
  assumes "mkimage p mtime fs = Some img" "ram_load m a (length img) = Some img" "length img \<le> 2 ^ 32"
    and "p_type p = IH_TYPE_MULTI \<or> p_type p = IH_TYPE_SCRIPT" "\<not> p_xflag p" "\<forall>f \<in> set fs. f \<noteq> []"
  obtains d where "past_table m (image_get_data a) = Some d" "ram_load m d (length (fs ! 0)) = Some (fs ! 0)"
    "ram_word m (image_get_data a) = Some (cpu_to_uimage (of_nat (length (fs ! 0))))" "fs \<noteq> []"
    "length (fs ! 0) + 3 < 2 ^ 32"
proof -
  obtain h body where body: "mkimage_body p fs = Some body" "holds m (image_get_data a) body"
    "img = header_bytes h @ body" "length (header_bytes h) = 64"
    using mkimage_in_memory [OF assms(1-3)] by metis
  obtain dat where dat: "copy_files False fs = Some dat" "body = size_table fs @ dat"
    "\<forall>f \<in> set fs. length f + 3 < 2 ^ 32" "length fs < 2 ^ 32"
    using multi_body [OF body(1)] assms(3,4,5) body(3,4) by auto
  note m = holds_size_table [OF body(2) [unfolded dat(2)]]
  have ne: "fs \<noteq> []" using dat(1) by auto
  have "\<exists>w. ram_word m (image_get_data a + 4 * of_nat i) = Some w \<and> w \<noteq> 0" if i: "i < length fs" for i
  proof (intro exI conjI)
    show "ram_word m (image_get_data a + 4 * of_nat i) = Some (cpu_to_uimage (of_nat (length (fs ! i))))"
      by (rule m(1) [OF i])
    have "fs ! i \<in> set fs" using i by simp
    then have "length (fs ! i) < 4294967296" "fs ! i \<noteq> []" using dat(3) assms(6) by fastforce+
    then have "unat (of_nat (length (fs ! i)) :: u32) \<noteq> 0" by simp
    then show "cpu_to_uimage (of_nat (length (fs ! i)) :: u32) \<noteq> 0"
      unfolding cpu_to_uimage_0 by (metis unat_0)
  qed
  then have past: "past_table m (image_get_data a) = Some (image_get_data a + 4 * of_nat (length fs) + 4)"
    using m(2) by (intro past_table_eq) auto
  have "holds m (image_get_data a + 4 * of_nat (length fs) + 4) (fs ! 0)"
    using copy_files_holds [OF dat(1) m(3), of 0] ne by simp
  with past m(1) [of 0] ne dat(3) show ?thesis
    by (intro that) (auto simp: holds_def)
qed

lemma source_packed:
  assumes "mkimage p mtime (f # fs) = Some img" "ram_load (mem s) a (length img) = Some img" "length img \<le> 2 ^ 32"
    and "p_type p = IH_TYPE_SCRIPT" "\<not> p_xflag p" "\<forall>g \<in> set (f # fs). g \<noteq> []"
    and "env_abs s vars" "malloc s (of_nat (length f) + 1)"
  shows "source run mem malloc a s = run_script run (f @ [0]) s"
proof -
  obtain h where h: "ram_header (mem s) a = Some h" "image_check_magic (mem s) a = Some True" "image_check_hcrc h"
    "image_check_dcrc (mem s) a h = Some True" "ih_type h = IH_TYPE_SCRIPT"
    using mkimage_in_memory [OF assms(1-3)] assms(4) by metis
  obtain d where d: "past_table (mem s) (image_get_data a) = Some d" "ram_load (mem s) d (length f) = Some f"
    "ram_word (mem s) (image_get_data a) = Some (cpu_to_uimage (of_nat (length f)))" "length f + 3 < 2 ^ 32"
    using script_in_memory [OF assms(1-3) _ assms(5,6)] assms(4) by (metis nth_Cons_0)
  have len: "unat (of_nat (length f) :: u32) = length f" "unat (of_nat (length f) + 1 :: u32) = length f + 1"
    using d(4) by (simp_all add: unat_word_ariths)
  have "f \<noteq> []" using assms(6) by simp
  then have pos: "(of_nat (length f) :: u32) \<noteq> 0" "(of_nat (length f) + 1 :: u32) \<noteq> 0"
    using len by (metis length_0_conv unat_0, metis add_is_0 one_neq_zero unat_0)
  have "\<exists>v. getenv_yesno s (ascii ''verify'') = Some v"
    using lookups(1) [OF assms(7)] by (simp add: getenv_yesno_def del: ascii_simps)
  then show ?thesis
    using h d(1-3) pos len(1) assms(8)
    by (auto simp: source_def genimg_get_format_def IMAGE_FORMAT_LEGACY_def IMAGE_FORMAT_INVALID_def Let_def)
qed

text \<open>C24:
  A script packed by \<^verbatim>\<open>mkimage\<close> and loaded anywhere runs as its lines: \<^verbatim>\<open>source\<close> gives every line that is not
  empty to the interpreter in order, up to the first that fails, and nothing else.  The last line is run too
  when no newline follows it, but then the code is 1 when it succeeded and 0 when it failed.  Of
  several files only the first one is run.\<close>

theorem packed_script_runs:
  assumes "mkimage p mtime (f # fs) = Some img" "ram_load (mem s) a (length img) = Some img" "length img \<le> 2 ^ 32"
    and "p_type p = IH_TYPE_SCRIPT" "\<not> p_xflag p" "\<forall>g \<in> set (f # fs). g \<noteq> []"
    and "env_abs s vars" "malloc s (of_nat (length f) + 1)"
    and "f = unlines ls @ rest" "\<forall>l \<in> set (rest # ls). is_line l"
  shows "source run mem malloc a s =
    (case run_lines run ls s of
       None \<Rightarrow> None
     | Some (rc, s) \<Rightarrow>
         if rc \<noteq> 0 \<or> rest = [] then Some (rc, s)
         else map_option (\<lambda>(r, s). (if r \<ge> 0 then 1 else 0, s)) (run (Some rest) 0 s))"
proof -
  have "source run mem malloc a s = run_script run (unlines ls @ rest @ 0 # []) s"
    unfolding source_packed [where mem = mem and run = run and malloc = malloc, OF assms(1-8)] assms(9) by simp
  also have "\<dots> = script_meaning run ls rest s" by (rule run_script_eq) (use assms(10) in auto)
  finally show ?thesis by (simp add: script_meaning_def)
qed

text \<open>End to end: the lines of a script are command lines, and the script means their commands.\<close>

fun commands_meaning ::
    "('c, 'd shell) call \<Rightarrow> 'c cmd_tbl list \<Rightarrow> piece list list list \<Rightarrow> 'd shell \<Rightarrow> (int \<times> 'd shell) option" where
  "commands_meaning call table [] s = Some (0, s)"
| "commands_meaning call table (pss # psss) s =
     (case meaning call table pss 0 1 0 (clear_ctrlc s) of
        None \<Rightarrow> None
      | Some (r, s) \<Rightarrow> if r < 0 then Some (1, s) else commands_meaning call table psss s)"

definition script_line_ok :: "piece list list \<Rightarrow> bool" where
  "script_line_ok pss \<longleftrightarrow> pss \<noteq> [] \<and> (\<forall>ps \<in> set pss. segment_ok ps) \<and> \<not> is_Quoted (hd (hd pss)) \<and>
     length (command_line pss) < CONFIG_SYS_CBSIZE \<and> is_line (command_line pss)"

lemma run_lines_commands:
  assumes "\<forall>pss \<in> set psss. script_line_ok pss" "table_ok table"
    and "commands_meaning (call_cmd exec (run_command n exec table)) table psss s = Some r"
  shows "run_lines (run_command (Suc n) exec table) (map command_line psss) s = Some r"
  using assms(1,3)
proof (induction psss arbitrary: s)
  case (Cons pss psss)
  have ok: "pss \<noteq> []" "\<forall>ps \<in> set pss. segment_ok ps" "\<not> is_Quoted (hd (hd pss))"
    "length (command_line pss) < CONFIG_SYS_CBSIZE"
    using Cons.prems(1) by (auto simp: script_line_ok_def)
  obtain r' t where m: "meaning (call_cmd exec (run_command n exec table)) table pss 0 1 0 (clear_ctrlc s) = Some (r', t)"
    using Cons.prems(2) by (auto split: option.splits)
  have run: "run_command (Suc n) exec table (Some (command_line pss)) 0 s = Some (r', t)"
    by (rule run_command_meaning_lemma [OF ok(1-3) assms(2) ok(4) m])
  show ?case
    using Cons.prems m run Cons.IH [of t] command_line_not_Nil [OF ok(1,2)]
    by (auto simp del: run_command.simps split: if_splits)
qed simp

lemma script_of_commands:
  assumes "mkimage p mtime (f # fs) = Some img" "ram_load (mem s) a (length img) = Some img" "length img \<le> 2 ^ 32"
    and "p_type p = IH_TYPE_SCRIPT" "\<not> p_xflag p" "\<forall>g \<in> set (f # fs). g \<noteq> []"
    and "env_abs s vars" "malloc s (of_nat (length f) + 1)"
    and "f = unlines (map command_line psss)" "\<forall>pss \<in> set psss. script_line_ok pss" "table_ok table"
    and "commands_meaning (call_cmd exec (run_command n exec table)) table psss s = Some r"
  shows "source (run_command (Suc n) exec table) mem malloc a s = Some r"
proof -
  have "source (run_command (Suc n) exec table) mem malloc a s
    = run_script (run_command (Suc n) exec table) (unlines (map command_line psss) @ [] @ 0 # []) s"
    unfolding source_packed [where mem = mem and run = "run_command (Suc n) exec table" and malloc = malloc, OF assms(1-8)] assms(9)
    by simp
  also have "\<dots> = script_meaning (run_command (Suc n) exec table) (map command_line psss) [] s"
    using assms(10) by (intro run_script_eq) (auto simp: script_line_ok_def is_line_def)
  finally show ?thesis
    using run_lines_commands [OF assms(10-12)]
    by (cases r) (simp add: script_meaning_def del: run_command.simps)
qed

section \<open>What scripts keep\<close>

context command_set begin

lemma script_loop_keeps:
  "keeps run \<Longrightarrow> good s \<Longrightarrow> script_loop run cbuf line nxt s = Some (rc, cbuf', line', s') \<Longrightarrow> good s'"
proof (induction run cbuf line nxt s rule: script_loop.induct)
  case (1 run cbuf line nxt s)
  note IH = "1.IH" and keeps = "1.prems"(1) and good = "1.prems"(2)
  obtain c where c: "rd cbuf nxt = Some c"
    using "1.prems"(3) by (subst (asm) script_loop.simps) (auto split: option.splits)
  consider "c = 0" | "c \<noteq> 0" "c \<noteq> 0x0a" | "c \<noteq> 0" "c = 0x0a" by blast
  then show ?case
  proof cases
    case 1
    then show ?thesis using "1.prems" c by (subst (asm) script_loop.simps) simp
  next
    case 2
    then show ?thesis using "1.prems" c IH(1) [OF c] by (subst (asm) script_loop.simps) simp
  next
    case 3
    then show ?thesis
      using "1.prems" c IH(2) [OF c 3(1)] IH(3) [OF c 3(1)] keepsD [OF keeps good]
      by (subst (asm) script_loop.simps) (auto simp: Let_def split: option.splits if_splits)
  qed
qed

lemma source_keeps:
  assumes "keeps run" "good s" "source run mem malloc a s = Some (r, s')"
  shows "good s'"
proof -
  have "good s'" if "run_script run cbuf s = Some (r, s')" for cbuf
    using that
    by (auto simp: run_script_def split: Option.bind_splits if_splits
        dest!: script_loop_keeps [OF assms(1,2)] dest: keepsD [OF assms(1)])
  then show ?thesis
    using assms(2,3) by (auto simp: source_def Let_def split: Option.bind_splits if_splits)
qed

end

lemma script_exec_keeps:
  assumes "command_set exec good"
  shows "command_set (script_exec n k mem malloc exec table) good"
proof (induction k)
  case 0
  show ?case
  proof
    fix s argv c flag r s'
    assume "good s" "c_strings argv" "script_exec n 0 mem malloc exec table c flag argv s = Some (r, s')"
    then show "good s'"
      by (cases c) (simp_all add: command_set.exec_keeps [OF assms])
  next
    fix s b assume "good s"
    then show "good (s\<lparr>ctrlc_was_pressed := b\<rparr>)" by (rule command_set.ctrlc_keeps [OF assms])
  qed
next
  case (Suc k)
  let ?run = "run_command n (script_exec n k mem malloc exec table) table"
  show ?case
  proof
    fix s argv c flag r s'
    assume good: "good s" "c_strings argv" and run: "script_exec n (Suc k) mem malloc exec table c flag argv s = Some (r, s')"
    show "good s'"
    proof (cases c)
      case Source
      with run have "do_source ?run mem malloc argv s = Some (r, s')" by simp
      then show ?thesis
        unfolding do_source_def by (rule command_set.source_keeps [OF Suc.IH command_set.run_command_keeps [OF Suc.IH] good(1)])
    next
      case (Command c')
      with run have "exec c' flag argv s = Some (r, s')" by simp
      with good show ?thesis by (rule command_set.exec_keeps [OF assms])
    qed
  next
    fix s b assume "good s"
    then show "good (s\<lparr>ctrlc_was_pressed := b\<rparr>)" by (rule command_set.ctrlc_keeps [OF assms])
  qed
qed

text \<open>The environment stays well formed under the environment commands also when scripts run them.\<close>

interpretation env_scripts: command_set "script_exec n k mem malloc (env_exec ca poll pressed) table" env_wf
  for n k mem malloc ca poll pressed table
  by (rule script_exec_keeps) (rule env_session.command_set_axioms)

lemma scripts_keep_env:
  "env_wf s \<Longrightarrow> run_command n (script_exec n k mem malloc (env_exec ca poll pressed) table) table line flag s = Some (r, s')
    \<Longrightarrow> env_wf s'"
  by (rule env_scripts.keepsD [OF env_scripts.run_command_keeps])

section \<open>The environment at the prompt\<close>

text \<open>
  The commands on the environment with \<^verbatim>\<open>saveenv\<close>, whose chip is a part of the devices, and any others.
\<close>

datatype 'c board_cmd = EnvCmd env_cmd | Saveenv | Elsewhere 'c

definition board_exec ::
    "(nat \<Rightarrow> u8 list \<Rightarrow> 'd \<Rightarrow> int \<times> 'd) \<Rightarrow> (nat \<Rightarrow> nat \<Rightarrow> bool) \<Rightarrow> (u8 list list \<Rightarrow> bool) \<Rightarrow> 'n nand_ops
     \<Rightarrow> ('d \<Rightarrow> 'n) \<Rightarrow> ('n \<Rightarrow> 'd \<Rightarrow> 'd) \<Rightarrow> ('c, 'd) exec \<Rightarrow> ('c board_cmd, 'd) exec" where
  "board_exec ca poll pressed ops chip set_chip other c flag argv s =
     (case c of
        EnvCmd c \<Rightarrow> env_exec ca poll pressed c flag argv s
      | Saveenv \<Rightarrow> map_option (\<lambda>(r, n). (r, s\<lparr>console := set_chip n (console s)\<rparr>)) (do_saveenv ops s (chip (console s)))
      | Elsewhere c \<Rightarrow> other c flag argv s)"

definition keeps_env :: "('c, 'd) exec \<Rightarrow> bool" where
  "keeps_env exec \<longleftrightarrow>
     (\<forall>c flag argv s r s' m. env_abs s m \<longrightarrow> c_strings argv \<longrightarrow> exec c flag argv s = Some (r, s') \<longrightarrow> (\<exists>m'. env_abs s' m'))"

lemma env_wf_console [simp]: "env_wf (s\<lparr>console := d\<rparr>) = env_wf s"
  by (simp add: env_wf_def env_abs_def env_inv_def)

lemma board_session:
  assumes "keeps_env other"
  shows "session (script_exec n k mem malloc (board_exec ca poll pressed ops chip set_chip other) table) env_wf"
proof -
  have "command_set (board_exec ca poll pressed ops chip set_chip other) env_wf"
  proof
    fix s argv c flag r s'
    assume wf: "env_wf s" and args: "c_strings argv"
      and run: "board_exec ca poll pressed ops chip set_chip other c flag argv s = Some (r, s')"
    show "env_wf s'"
    proof (cases c)
      case (EnvCmd e)
      with run have "env_exec ca poll pressed e flag argv s = Some (r, s')" by (simp add: board_exec_def)
      with wf args show ?thesis by (rule env_exec_wf)
    next
      case Saveenv
      with run wf show ?thesis by (auto simp: board_exec_def)
    next
      case (Elsewhere e)
      with run have "other e flag argv s = Some (r, s')" by (simp add: board_exec_def)
      with assms wf args show ?thesis unfolding keeps_env_def env_wf_def by blast
    qed
  qed (auto simp: env_wf_def)
  then have "command_set (script_exec n k mem malloc (board_exec ca poll pressed ops chip set_chip other) table) env_wf"
    by (rule script_exec_keeps)
  then show ?thesis
    by (rule session.intro) (unfold_locales, simp_all add: env_wf_def)
qed

text \<open>C12:
  Invariant of the whole shell: with any command table made of \<^verbatim>\<open>run\<close>, \<^verbatim>\<open>boot\<close>, \<^verbatim>\<open>printenv\<close>, \<^verbatim>\<open>setenv\<close>,
  \<^verbatim>\<open>saveenv\<close>, \<^verbatim>\<open>source\<close> and other commands, under any names, if the other commands leave a well-formed
  environment well formed (which excludes those aimed at its memory, say an \<^verbatim>\<open>mw\<close> or a \<^verbatim>\<open>tftp\<close> over it), then
  from a start with a well-formed environment, whatever is typed, with nested \<^verbatim>\<open>run\<close> and \<^verbatim>\<open>boot\<close> commands,
  scripts within scripts, failing commands and Ctrl-C, the environment at every prompt is again a sequence of valid
  strings with distinct names.\<close>

theorem at_prompt_env:
  assumes "at_prompt (run_command n (script_exec n k mem malloc
      (board_exec ca poll pressed ops chip set_chip other) table) table) s0 s"
    and "env_abs s0 m0"
    and "\<forall>c flag argv s r s' m. env_abs s m \<longrightarrow> c_strings argv \<longrightarrow> other c flag argv s = Some (r, s') \<longrightarrow> (\<exists>m'. env_abs s' m')"
  shows "\<exists>m. env_abs s m"
proof -
  have "env_wf s0" using assms(2) by (auto simp: env_wf_def)
  moreover have "keeps_env other" using assms(3) by (simp add: keeps_env_def)
  ultimately have "env_wf s" using at_prompt_keeps [OF board_session _ assms(1)] by blast
  then show ?thesis by (simp add: env_wf_def)
qed

text \<open>
  A table for the example: the environment commands and one that sets the load address.  The boot is stopped by
  a key, then a line is typed.\<close>

definition sample_table :: "unit board_cmd script_cmd cmd_tbl list" where
  "sample_table =
     [\<lparr>cmd_name = ascii ''loadat'', maxargs = 1, repeatable = 1, cmd = OtherCmd (Command (Elsewhere ()))\<rparr>,
      \<lparr>cmd_name = ascii ''printenv'', maxargs = CONFIG_SYS_MAXARGS, repeatable = 1, cmd = OtherCmd (Command (EnvCmd Printenv))\<rparr>,
      \<lparr>cmd_name = ascii ''run'', maxargs = CONFIG_SYS_MAXARGS, repeatable = 1, cmd = DoRun\<rparr>,
      \<lparr>cmd_name = ascii ''saveenv'', maxargs = 1, repeatable = 0, cmd = OtherCmd (Command Saveenv)\<rparr>,
      \<lparr>cmd_name = ascii ''setenv'', maxargs = CONFIG_SYS_MAXARGS, repeatable = 0, cmd = OtherCmd (Command (EnvCmd Setenv))\<rparr>,
      \<lparr>cmd_name = ascii ''source'', maxargs = 2, repeatable = 0, cmd = OtherCmd Source\<rparr>]"

definition load_at :: "(unit, 'd) exec" where
  "load_at c flag argv s = Some (0, s\<lparr>load_addr := 1\<rparr>)"

definition sample_exec :: "(unit board_cmd script_cmd, unit) exec" where
  "sample_exec = script_exec 1 1 (\<lambda>s. Map.empty) (\<lambda>s n. True)
     (board_exec no_console (\<lambda>_ _. False) (\<lambda>_. False) half_area_ops (\<lambda>d a. 0xff) (\<lambda>n d. d) load_at) sample_table"

lemma sample_line:
  assumes "\<not> ctrlc_was_pressed s"
  shows "run_command 1 sample_exec sample_table (Some (ascii ''loadat'')) 0 s = Some (1, s\<lparr>load_addr := 1\<rparr>)"
proof -
  let ?pss = "[[Plain (ascii ''loadat'')]]"
  have clear: "clear_ctrlc s = s" using assms by (cases s) (simp add: clear_ctrlc_def)
  have w: "words (ascii ''loadat'') = [ascii ''loadat'']"
    using words_word [of "[]" "ascii ''loadat''"] by (simp add: blank_def)
  have "select_cmd (ascii ''loadat'') sample_table = Some 0"
    by (simp add: select_cmd_def sample_table_def cmd_key_def key_matches_def)
  then have "meaning (call_cmd sample_exec (run_command 0 sample_exec sample_table)) sample_table ?pss 0 1 0 (clear_ctrlc s)
    = Some (1, s\<lparr>load_addr := 1\<rparr>)"
    using w assms clear
    by (simp add: token_meaning_def lookups_defined_def line_value_def CONFIG_SYS_CBSIZE_def CONFIG_SYS_MAXARGS_def
        sample_table_def sample_exec_def call_cmd_def board_exec_def load_at_def had_ctrlc_def Let_def)
  moreover have "\<forall>ps \<in> set ?pss. segment_ok ps" by (simp add: segment_ok_def)
  moreover have "command_line ?pss = ascii ''loadat''" by (simp add: render_def)
  moreover have "table_ok sample_table" by (simp add: table_ok_def sample_table_def)
  ultimately show ?thesis
    using run_command_meaning_lemma [of ?pss sample_table sample_exec 0 0 s "(1, s\<lparr>load_addr := 1\<rparr>)"]
    by (simp add: CONFIG_SYS_CBSIZE_def)
qed

lemma sample_prompt:
  "at_prompt (run_command 1 sample_exec sample_table) demo_shell
     (demo_shell\<lparr>lastcommand := ascii ''loadat'', load_addr := 1, last_rc := 1\<rparr>)"
proof (rule at_prompt.typed)
  show "at_prompt (run_command 1 sample_exec sample_table) demo_shell demo_shell"
  proof (rule at_prompt.booted)
    have "CONFIG_BOOTDELAY = 4" by (simp add: CONFIG_BOOTDELAY_def)
    then have "fst (abortboot (\<lambda>_. True) (nat CONFIG_BOOTDELAY) 0)"
      by (simp add: abortboot_eq) (intro exI [of _ 0], simp)
    then show "main_boot (run_command 1 sample_exec sample_table) (\<lambda>_. True) demo_shell = Some demo_shell"
      by (simp add: main_boot_def demo_lookups [simplified] Let_def)
  qed
  show "main_step (run_command 1 sample_exec sample_table) 6 (ascii ''loadat'') demo_shell
      = Some (demo_shell\<lparr>lastcommand := ascii ''loadat'', load_addr := 1, last_rc := 1\<rparr>)"
    using sample_line [of "demo_shell\<lparr>lastcommand := ascii ''loadat''\<rparr>"]
    by (simp add: main_step_def clear_ctrlc_def demo_shell_def del: run_command.simps)
qed

theorem at_prompt_env_witness:
  "\<exists>m. env_abs (demo_shell\<lparr>lastcommand := ascii ''loadat'', load_addr := 1, last_rc := 1\<rparr>) m"
proof (rule at_prompt_env [OF sample_prompt [unfolded sample_exec_def] demo_abs], intro allI impI)
  fix c flag argv s r s' m
  assume "env_abs s m" "load_at c flag argv s = Some (r, s')"
  then show "\<exists>m'. env_abs s' m'" by (auto simp: load_at_def env_abs_def env_inv_def)
qed

text \<open>A script of two lines whose commands note that they ran.\<close>

definition log_line :: "'d shell runner" where
  "log_line line flag s = map_option (\<lambda>l. (1, s\<lparr>lastcommand := lastcommand s @ l\<rparr>)) line"

lemma sample_script:
  "\<exists>img. mkimage (sample_params IH_TYPE_SCRIPT) 0 [[0x61, 0x0a, 0x62]] = Some img \<and> length img = 75"
  by (auto simp: mkimage_unfold sample_params_def image_check_image_types_def IH_TYPE_SCRIPT_def IH_TYPE_FLATDT_def
      image_get_header_size_def image_set_header_eq copy_file_def header_bytes_length size_table_length)

theorem packed_script_runs_witness:
  "\<exists>img. mkimage (sample_params IH_TYPE_SCRIPT) 0 [[0x61, 0x0a, 0x62]] = Some img \<and>
    source log_line (\<lambda>s. place 0x32000000 img) (\<lambda>s n. True) 0x32000000 demo_shell
      = Some (1, demo_shell\<lparr>lastcommand := lastcommand demo_shell @ [0x61] @ [0x62]\<rparr>)"
proof -
  obtain img where img: "mkimage (sample_params IH_TYPE_SCRIPT) 0 [[0x61, 0x0a, 0x62]] = Some img" "length img = 75"
    using sample_script by auto
  let ?mem = "\<lambda>s. place 0x32000000 img" and ?malloc = "\<lambda>s n. True"
  have mem: "ram_load (?mem demo_shell) 0x32000000 (length img) = Some img"
    using img(2) by (intro ram_load_place) simp
  have "source log_line ?mem ?malloc 0x32000000 demo_shell =
    (case run_lines log_line [[0x61]] demo_shell of
       None \<Rightarrow> None
     | Some (rc, s) \<Rightarrow>
         if rc \<noteq> 0 \<or> [0x62 :: u8] = [] then Some (rc, s)
         else map_option (\<lambda>(r, s). (if r \<ge> 0 then 1 else 0, s)) (log_line (Some [0x62]) 0 s))"
    by (rule packed_script_runs [OF img(1) mem _ _ _ _ demo_abs])
      (use img(2) in \<open>simp_all add: sample_params_def unlines_def is_line_def\<close>)
  also have "\<dots> = Some (1, demo_shell\<lparr>lastcommand := lastcommand demo_shell @ [0x61] @ [0x62]\<rparr>)"
    by (simp add: log_line_def)
  finally show ?thesis using img(1) by blast
qed

section \<open>Parts of an image\<close>

lemma copy_files_extent:
  assumes "copy_files False fs = Some dat" "i < length fs"
  shows "sum_list (map (round4 \<circ> length) (take i fs)) + length (fs ! i) \<le> length dat"
  using assms
proof (induction False fs arbitrary: dat i rule: copy_files.induct)
  case (2 f)
  then show ?case using copy_file_pads [of f False dat] by auto
next
  case (3 f g fs)
  then obtain d rest where d: "copy_file False f True = Some d" "copy_files False (g # fs) = Some rest" "dat = d @ rest"
    by (auto simp: bind_eq_Some_conv)
  have len: "length f \<le> length d" "length d = round4 (length f)"
    using copy_file_pads [OF d(1)] by auto
  show ?case
  proof (cases i)
    case 0
    then show ?thesis using len d(3) by simp
  next
    case (Suc j)
    then show ?thesis
      using "3.hyps" [OF d(1,2), of j] "3.prems"(2) d(3) len(2) by simp
  qed
qed simp

text \<open>A part lies inside its image.\<close>

lemma part_in_memory:
  assumes "mkimage p mtime fs = Some img" "ram_load m a (length img) = Some img" "length img \<le> 2 ^ 32"
    and "p_type p = IH_TYPE_MULTI" "\<not> p_xflag p" "\<forall>f \<in> set fs. f \<noteq> []" "i < length fs"
  obtains d where "image_multi_count m a = Some (of_nat (length fs))"
    "image_multi_getimg m a (of_nat i) = Some (d, of_nat (length (fs ! i)))"
    "ram_load m d (length (fs ! i)) = Some (fs ! i)" "length fs < 2 ^ 32" "length (fs ! i) < 2 ^ 32"
    "\<And>x. in_block d (length (fs ! i)) x \<Longrightarrow> in_block a (length img) x"
proof -
  obtain h body where body: "mkimage_body p fs = Some body" "holds m (image_get_data a) body"
    "img = header_bytes h @ body" "length (header_bytes h) = 64"
    using mkimage_in_memory [OF assms(1-3)] by metis
  obtain dat where dat: "copy_files False fs = Some dat" "body = size_table fs @ dat"
    "\<forall>f \<in> set fs. length f + 3 < 2 ^ 32" "length fs < 2 ^ 32"
    using multi_body [OF body(1)] assms(3,4,5) body(3,4) by auto
  note m = body(2) [unfolded dat(2)]
  have short: "\<forall>f \<in> set fs. length f < 2 ^ 32" using dat(3) by fastforce
  obtain k where k: "k \<le> length fs" "image_multi_count m a = Some (of_nat k)" "k = length fs \<or> fs ! k = []"
    using size_table_count [OF m short] by metis
  then have all: "k = length fs" using assms(6) by (metis le_neq_implies_less nth_mem)
  define o' where "o' = 64 + 4 * length fs + 4 + sum_list (map (round4 \<circ> length) (take i fs))"
  have d: "image_get_data a + 4 * of_nat (length fs) + 4 + of_nat (sum_list (map (round4 \<circ> length) (take i fs))) = a + of_nat o'"
    by (simp add: o'_def image_get_data_def image_get_header_size_def)
  have fit: "o' + length (fs ! i) \<le> length img"
    using copy_files_extent [OF dat(1) assms(7)] body(3,4) dat(2) by (simp add: o'_def size_table_length)
  have "holds m (a + of_nat o') (fs ! i)"
    using copy_files_holds [OF dat(1) holds_size_table(3) [OF m] assms(7)] unfolding d .
  moreover have "image_multi_getimg m a (of_nat i) = Some (a + of_nat o', of_nat (length (fs ! i)))"
    using multi_getimg_eq [OF m dat(3) k(2,1) dat(4), of i] assms(7) unfolding all d by simp
  ultimately show ?thesis
    using k(2) all dat(4) short assms(7) in_block_part [OF _ fit assms(3)]
    by (intro that) (auto simp: holds_def)
qed

lemma setenv_steps_ram:
  "setenv_redirect ca name vals s = (ok, t) \<Longrightarrow> ram t = ram s"
  "setenv_baudrate name vals s = Some (ok, t) \<Longrightarrow> ram t = ram s"
  "setenv_follow name v s = Some t \<Longrightarrow> ram t = ram s"
  "ram (set_area d s) = ram s" "ram (env_crc_update s) = ram s"
      apply (auto simp: setenv_redirect_def split: option.splits list.splits prod.splits)[1]
     apply (auto simp: setenv_baudrate_def Let_def split: if_splits list.splits)[1]
    apply (auto simp: setenv_follow_def split: if_splits)[1]
   apply (simp add: set_area_def)
  apply (simp add: env_crc_update_def)
  done

lemma setenv_store_ram: "setenv_store hit name vals s = Some (r, t) \<Longrightarrow> ram t = ram s"
  by (auto simp: setenv_store_def setenv_steps_ram Let_def split: Option.bind_splits list.splits if_splits dest!: setenv_steps_ram(3))

lemma setenv_ram: "setenv ca name v s = Some (r, t) \<Longrightarrow> ram t = ram s"
  by (auto simp: setenv_def do_setenv_checks Let_def split: Option.bind_splits if_splits prod.splits
      dest!: setenv_steps_ram(1,2) setenv_store_ram)

lemma number_hex8:
  "number n 16 8 (- 1) SMALL = replicate (8 - length (number n 16 (- 1) (- 1) SMALL)) 0x20 @ number n 16 (- 1) (- 1) SMALL"
proof -
  define tmp where "tmp = (if n = 0 then [0x30] else if (16 :: u32) \<noteq> 10 then hex_digits 16 (ucast SMALL) n else put_dec n)"
  have f: "SMALL AND SPECIAL = 0" "SMALL AND LEFT = 0" "SMALL AND SIGN = 0" "SMALL AND ZEROPAD = 0"
    "SMALL AND (ZEROPAD + LEFT) = 0" "SMALL AND SMALL = SMALL"
    by (simp_all add: SPECIAL_def SMALL_def LEFT_def ZEROPAD_def SIGN_def)
  have "number n 16 (- 1) (- 1) SMALL = rev tmp"
    by (simp add: number_def f pad_def flip: tmp_def split del: if_split)
  moreover have "number n 16 8 (- 1) SMALL = pad (8 - int (length tmp)) 0x20 @ rev tmp"
    by (simp add: number_def f pad_def flip: tmp_def split del: if_split)
  moreover have "pad (8 - int (length tmp)) 0x20 = replicate (8 - length tmp) 0x20"
    by (simp add: pad_def nat_diff_distrib')
  ultimately show ?thesis by simp
qed

lemma number_hex8_nonzero: "0 \<notin> set (number n 16 8 (- 1) SMALL)" "number n 16 8 (- 1) SMALL \<noteq> []"
proof -
  have zero: "\<not> isxdigit 0" by (simp add: isxdigit_def ismask_def ctype_def)
  have "digit_char 0x20 d \<noteq> 0" if "d \<in> set (digits_of 16 (unat n))" for d
    using digit_char_value(1) [where d = d and locase = "0x20"] digits_of_less [OF _ that] zero by (metis one_less_numeral_iff semiring_norm(76))
  then have "0 \<notin> set (number n 16 (- 1) (- 1) SMALL)"
    by (auto simp: number_plain SMALL_def)
  moreover have "number n 16 (- 1) (- 1) SMALL \<noteq> []"
    by (simp add: number_plain digits_of_not_Nil)
  ultimately show "0 \<notin> set (number n 16 8 (- 1) SMALL)" "number n 16 8 (- 1) SMALL \<noteq> []"
    unfolding number_hex8 by auto
qed

lemma setenv_number:
  assumes "env_abs s m" "name \<in> {ascii ''fileaddr'', ascii ''filesize''}"
  obtains r t m' where "setenv ca name (Some (number n 16 8 (- 1) SMALL)) s = Some (r, t)" "env_abs t m'"
proof -
  have name: "0 \<notin> set name" "0x3d \<notin> set name" "std_console name = None" "name \<noteq> ascii ''baudrate''"
    using assms(2) by (elim insertE emptyE; simp add: std_console_def)+
  have vals: "(case Some (number n 16 8 (- 1) SMALL) of None \<Rightarrow> [] | Some [] \<Rightarrow> [] | Some v \<Rightarrow> [v])
      = [number n 16 8 (- 1) SMALL]"
    using number_hex8_nonzero(2) [of n] by (auto split: list.splits)
  have v: "\<forall>v \<in> set [number n 16 8 (- 1) SMALL]. 0 \<notin> set v" using number_hex8_nonzero(1) by simp
  obtain es where "env_inv s es" using assms(1) by (auto simp: env_abs_def)
  then obtain r t where run: "setenv ca name (Some (number n 16 8 (- 1) SMALL)) s = Some (r, t)"
    using setenv_returns_lemma [OF _ name(1) v name(2,3,4), of s es ca "ascii ''setenv''"] unfolding setenv_def vals by blast
  have "\<exists>m'. env_abs t m'"
    using setenv_refines_lemma [OF assms(1) name(1) v run [unfolded setenv_def vals]] by (auto split: if_splits)
  with run show ?thesis using that by blast
qed

text \<open>\<^verbatim>\<open>imxtract\<close> copies exactly the part.\<close>

lemma imxtract_copies:
  assumes "mkimage p mtime fs = Some img" "ram_load (ram s) a (length img) = Some img" "length img \<le> 2 ^ 32"
    and "p_type p = IH_TYPE_MULTI" "p_comp p = IH_COMP_NONE" "\<not> p_xflag p" "\<forall>f \<in> set fs. f \<noteq> []" "i < length fs"
    and "length argv = 4" "fst (simple_strtoul (argv ! 1) 16) = a" "fst (simple_strtoul (argv ! 2) 16) = of_nat i"
    and "fst (simple_strtoul (argv ! 3) 16) = dest" "env_abs s vars"
    and "\<forall>j<length (fs ! i). ram s (dest + of_nat j) \<noteq> None" "disjoint_blocks dest (length (fs ! i)) a (length img)"
  shows "\<exists>t. do_imgextract w argv s = Some (0, t) \<and> ram_load (ram t) dest (length (fs ! i)) = Some (fs ! i)"
proof -
  obtain h where h: "ram_header (ram s) a = Some h" "image_check_magic (ram s) a = Some True" "image_check_hcrc h"
    "image_check_dcrc (ram s) a h = Some True" "ih_type h = IH_TYPE_MULTI" "ih_comp h = IH_COMP_NONE"
    using mkimage_in_memory [OF assms(1-3)] assms(4,5) by metis
  obtain d where d: "image_multi_count (ram s) a = Some (of_nat (length fs))"
    "image_multi_getimg (ram s) a (of_nat i) = Some (d, of_nat (length (fs ! i)))"
    "ram_load (ram s) d (length (fs ! i)) = Some (fs ! i)" "length fs < 2 ^ 32" "length (fs ! i) < 2 ^ 32"
    "\<And>x. in_block d (length (fs ! i)) x \<Longrightarrow> in_block a (length img) x"
    using part_in_memory [OF assms(1-4,6-8)] by metis
  have part: "\<not> (of_nat (length fs) \<le> (of_nat i :: u32))"
    using d(4) assms(8) by (simp add: word_le_nat_alt)
  have len: "unat (of_nat (length (fs ! i)) :: u32) = length (fs ! i)" using d(5) by simp
  have "disjoint_blocks dest (length (fs ! i)) d (length (fs ! i))"
    using assms(15) d(6) by (auto simp: disjoint_blocks_def)
  then have cp: "ram_memcpy (ram s) dest d (length (fs ! i)) = ram_store (ram s) dest (fs ! i)"
    using d(3,5) by (subst ram_memcpy_eq) simp_all
  obtain m' where m': "ram_store (ram s) dest (fs ! i) = Some m'" using ram_store_total [OF assms(14)] by blast
  then have stored: "ram_load m' dest (length (fs ! i)) = Some (fs ! i)"
    using d(5) by (intro ram_load_stored) auto
  let ?s = "s\<lparr>ram := m'\<rparr>"
  have "env_abs ?s vars" using assms(13) by (simp add: env_abs_def env_inv_def)
  then obtain r1 t1 m1 where t1: "setenv (w_console w) (ascii ''fileaddr'') (Some (number d 16 8 (- 1) SMALL)) ?s = Some (r1, t1)"
    "env_abs t1 m1" using setenv_number [of ?s vars "ascii ''fileaddr''" "w_console w" d] by blast
  obtain r2 t2 m2 where t2: "setenv (w_console w) (ascii ''filesize'')
      (Some (number (of_nat (length (fs ! i))) 16 8 (- 1) SMALL)) t1 = Some (r2, t2)" "env_abs t2 m2"
    using setenv_number [OF t1(2), of "ascii ''filesize''" "w_console w" "of_nat (length (fs ! i))"] by blast
  have "ram t2 = m'" using setenv_ram [OF t1(1)] setenv_ram [OF t2(1)] by simp
  moreover obtain v where "getenv_yesno s (ascii ''verify'') = Some v"
    using lookups(1) [OF assms(13)] by (auto simp: getenv_yesno_def simp del: ascii_simps)
  ultimately show ?thesis
    using h d(1,2) part len cp m' t1(1) t2(1) stored assms(9-12)
    by (simp add: do_imgextract_def genimg_get_format_def IMAGE_FORMAT_LEGACY_def IMAGE_FORMAT_INVALID_def Let_def del: ascii_simps)
qed

text \<open>The size is padded with blanks, so as a number the variable is 0 unless it has eight digits.\<close>

lemma filesize_not_a_number: "fst (simple_strtoul (number 0x100 16 8 (- 1) SMALL) 16) = 0"
proof -
  have blank: "\<not> isxdigit 0x20" by (simp add: isxdigit_def ismask_def ctype_def)
  have "length (number 0x100 16 (- 1) (- 1) SMALL) = 3"
    by (simp add: number_plain digits_of_step digits_of_small)
  then have "number 0x100 16 8 (- 1) SMALL = 0x20 # replicate 4 0x20 @ number 0x100 16 (- 1) (- 1) SMALL"
    unfolding number_hex8 by (simp add: numeral_eq_Suc)
  then show ?thesis using blank by (simp add: simple_strtoul_def)
qed

end
