(* ===== verification/MemCmd.thy ===== *)
theory MemCmd
  imports Shell Ram
begin

text \<open>
  The memory commands of \<^verbatim>\<open>common/cmd_mem.c\<close> (display, modify, write, copy, compare, checksum, base and the
  memory test) and the comparisons of \<^verbatim>\<open>common/cmd_itest.c\<close>.  The commands run over the memory of theory Ram;
  the memory test, whose subject is memory that does not work, over any memory given by its read and write.
\<close>

section \<open>Objects in memory\<close>

text \<open>An object of 1, 2 or 4 bytes, lowest byte first; an access that is not aligned is undefined.\<close>

definition aligned :: "nat \<Rightarrow> u32 \<Rightarrow> bool" where
  "aligned sz a \<longleftrightarrow> unat a mod sz = 0"

definition ram_read :: "nat \<Rightarrow> ram \<Rightarrow> u32 \<Rightarrow> u32 option" where
  "ram_read sz m a =
     (if aligned sz a then map_option (\<lambda>bs. bytes_word (bs @ replicate (4 - sz) 0)) (ram_load m a sz) else None)"

definition ram_write :: "nat \<Rightarrow> ram \<Rightarrow> u32 \<Rightarrow> u32 \<Rightarrow> ram option" where
  "ram_write sz m a v = (if aligned sz a then ram_store m a (take sz (word_bytes v)) else None)"

definition cmd_get_data_size :: "u8 list \<Rightarrow> int \<Rightarrow> int" where
  "cmd_get_data_size arg default_size =
     (let len = length arg
      in if len > 2 \<and> arg ! (len - 2) = 0x2e
         then (let c = arg ! (len - 1)
               in if c = 0x62 then 1 else if c = 0x77 then 2 else if c = 0x6c then 4 else if c = 0x73 then - 2 else - 1)
         else default_size)"

definition hex_arg :: "u8 list list \<Rightarrow> nat \<Rightarrow> u32" where
  "hex_arg argv i = fst (simple_strtoul (argv ! i) 16)"

record mem_state =
  ram_of :: ram
  dp_last_addr :: u32
  dp_last_size :: int
  dp_last_length :: u32
  mm_last_addr :: u32
  mm_last_size :: int
  base_address :: u32

text \<open>\<^verbatim>\<open>dp_last_length\<close> starts as \<^verbatim>\<open>0x40\<close>, all other variables as 0.\<close>

definition mem_start :: "ram \<Rightarrow> mem_state" where
  "mem_start m = \<lparr>ram_of = m, dp_last_addr = 0, dp_last_size = 0, dp_last_length = 0x40, mm_last_addr = 0, mm_last_size = 0,
     base_address = 0\<rparr>"

section \<open>Display\<close>

definition DISP_LINE_LEN :: u32 where "DISP_LINE_LEN = 16"
definition MAX_LINE_LENGTH_BYTES :: u32 where "MAX_LINE_LENGTH_BYTES = 64"
definition DEFAULT_LINE_LENGTH_BYTES :: u32 where "DEFAULT_LINE_LENGTH_BYTES = 16"

definition isprint :: "u8 \<Rightarrow> bool" where
  "isprint c \<longleftrightarrow> ismask c AND 0x97 \<noteq> 0"

text \<open>The values of a line: the text and the bytes that were read.\<close>

fun print_values :: "ram \<Rightarrow> u32 \<Rightarrow> nat \<Rightarrow> nat \<Rightarrow> (u8 list \<times> u8 list) option" where
  "print_values m dat width 0 = Some ([], [])"
| "print_values m dat width (Suc n) = do {
     v \<leftarrow> ram_read width m dat;
     (out, bs) \<leftarrow> print_values m (dat + of_nat width) width n;
     Some (0x20 # number v 16 (2 * int width) (- 1) (ZEROPAD OR SMALL) @ out, take width (word_bytes v) @ bs)
   }"

text \<open>
  The lines; \<open>poll\<close> are the answers of \<^verbatim>\<open>ctrlc\<close> and \<open>k\<close> the number of those used up.  The line buffer holds what
  was read for the current line, its length never exceeds the buffer.
\<close>

function print_lines :: "ram \<Rightarrow> (nat \<Rightarrow> bool) \<Rightarrow> u32 \<Rightarrow> nat \<Rightarrow> nat \<Rightarrow> nat \<Rightarrow> nat \<Rightarrow> (int \<times> u8 list \<times> nat) option" where
  "print_lines m poll addr width count linelen k =
     (if count = 0 then Some (0, [], k)
      else if linelen = 0 then None
      else (let linelen = (if count < linelen then count else linelen)
            in case print_values m addr width linelen of
                 None \<Rightarrow> None
               | Some (out, bs) \<Rightarrow>
                   (let line = number addr 16 8 (- 1) (ZEROPAD OR SMALL) @ 0x3a # out @ ascii ''    '' @
                          map (\<lambda>c. if isprint c \<and> c < 0x80 then c else 0x2e) bs @ [0x0a]
                    in if poll k then Some (- 1, line, k + 1)
                       else (case print_lines m poll (addr + of_nat (linelen * width)) width (count - linelen) linelen (k + 1) of
                               None \<Rightarrow> None
                             | Some (r, out, k) \<Rightarrow> Some (r, line @ out, k)))))"
  by pat_completeness auto
termination
  by (relation "measure (\<lambda>(m, poll, addr, width, count, linelen, k). count)") auto

declare print_lines.simps [simp del]

definition print_buffer :: "ram \<Rightarrow> (nat \<Rightarrow> bool) \<Rightarrow> u32 \<Rightarrow> u32 \<Rightarrow> u32 \<Rightarrow> u32 \<Rightarrow> nat \<Rightarrow> (int \<times> u8 list \<times> nat) option" where
  "print_buffer m poll addr width count linelen k =
     (if width = 0 then None
      else (let linelen = (if linelen * width > MAX_LINE_LENGTH_BYTES then MAX_LINE_LENGTH_BYTES div width else linelen);
                linelen = (if linelen < 1 then DEFAULT_LINE_LENGTH_BYTES div width else linelen)
            in print_lines m poll addr (unat width) (unat count) (unat linelen) k))"

text \<open>The result is the code, the text and the state; what \<^verbatim>\<open>print_buffer\<close> returns is ignored.\<close>

definition do_mem_md ::
    "(nat \<Rightarrow> bool) \<Rightarrow> u32 \<Rightarrow> u8 list list \<Rightarrow> mem_state \<Rightarrow> (int \<times> u8 list \<times> mem_state) option" where
  "do_mem_md poll flag argv s =
     (if length argv < 2 then Some (1, [], s)
      else (let new = (flag AND CMD_FLAG_REPEAT = 0);
                sz = (if new then cmd_get_data_size (argv ! 0) 4 else dp_last_size s);
                addr = (if new then hex_arg argv 1 + base_address s else dp_last_addr s);
                len = (if new \<and> length argv > 2 then hex_arg argv 2 else dp_last_length s)
            in if new \<and> sz < 0 then Some (1, [], s)
               else if sz = 0 then None
               else do {
                 (_, out, _) \<leftarrow> print_buffer (ram_of s) poll addr (of_int sz) len (DISP_LINE_LEN div of_int sz) 0;
                 Some (0, out, s\<lparr>dp_last_addr := addr + of_int sz * len, dp_last_length := len, dp_last_size := sz\<rparr>)
               }))"

section \<open>Write, compare, copy\<close>

fun mw_loop :: "ram \<Rightarrow> nat \<Rightarrow> u32 \<Rightarrow> u32 \<Rightarrow> nat \<Rightarrow> ram option" where
  "mw_loop m sz addr writeval 0 = Some m"
| "mw_loop m sz addr writeval (Suc count) = do {
     m \<leftarrow> ram_write sz m addr writeval;
     mw_loop m sz (addr + of_nat sz) writeval count
   }"

definition do_mem_mw :: "u8 list list \<Rightarrow> mem_state \<Rightarrow> (int \<times> mem_state) option" where
  "do_mem_mw argv s =
     (if length argv < 3 \<or> length argv > 4 then Some (1, s)
      else (let sz = cmd_get_data_size (argv ! 0) 4
            in if sz < 1 then Some (1, s)
               else (let addr = hex_arg argv 1 + base_address s;
                         writeval = hex_arg argv 2;
                         count = (if length argv = 4 then hex_arg argv 3 else 1)
                     in map_option (\<lambda>m. (0, s\<lparr>ram_of := m\<rparr>)) (mw_loop (ram_of s) (nat sz) addr writeval (unat count)))))"

text \<open>The result code and the number of objects that were the same.\<close>

fun cmp_loop :: "ram \<Rightarrow> nat \<Rightarrow> u32 \<Rightarrow> u32 \<Rightarrow> nat \<Rightarrow> nat \<Rightarrow> (int \<times> nat) option" where
  "cmp_loop m sz addr1 addr2 0 ngood = Some (0, ngood)"
| "cmp_loop m sz addr1 addr2 (Suc count) ngood = do {
     word1 \<leftarrow> ram_read sz m addr1;
     word2 \<leftarrow> ram_read sz m addr2;
     if word1 \<noteq> word2 then Some (1, ngood)
     else cmp_loop m sz (addr1 + of_nat sz) (addr2 + of_nat sz) count (ngood + 1)
   }"

definition do_mem_cmp :: "u8 list list \<Rightarrow> mem_state \<Rightarrow> (int \<times> nat) option" where
  "do_mem_cmp argv s =
     (if length argv \<noteq> 4 then Some (1, 0)
      else (let sz = cmd_get_data_size (argv ! 0) 4
            in if sz < 0 then Some (1, 0)
               else cmp_loop (ram_of s) (nat sz) (hex_arg argv 1 + base_address s) (hex_arg argv 2 + base_address s)
                      (unat (hex_arg argv 3)) 0))"

fun cp_loop :: "ram \<Rightarrow> nat \<Rightarrow> u32 \<Rightarrow> u32 \<Rightarrow> nat \<Rightarrow> ram option" where
  "cp_loop m sz addr dest 0 = Some m"
| "cp_loop m sz addr dest (Suc count) = do {
     v \<leftarrow> ram_read sz m addr;
     m \<leftarrow> ram_write sz m dest v;
     cp_loop m sz (addr + of_nat sz) (dest + of_nat sz) count
   }"

text \<open>\<open>in_flash\<close> tells whether an address belongs to the flash chips, which \<open>flash_write\<close> programs.\<close>

definition do_mem_cp ::
    "(u32 \<Rightarrow> bool) \<Rightarrow> (ram \<Rightarrow> u32 \<Rightarrow> u32 \<Rightarrow> u32 \<Rightarrow> int \<times> ram) \<Rightarrow> u8 list list \<Rightarrow> mem_state \<Rightarrow> (int \<times> mem_state) option" where
  "do_mem_cp in_flash flash_write argv s =
     (if length argv \<noteq> 4 then Some (1, s)
      else (let sz = cmd_get_data_size (argv ! 0) 4
            in if sz < 0 then Some (1, s)
               else (let addr = hex_arg argv 1 + base_address s;
                         dest = hex_arg argv 2 + base_address s;
                         count = hex_arg argv 3
                     in if count = 0 then Some (1, s)
                        else if in_flash dest
                        then (let (rc, m) = flash_write (ram_of s) addr dest (count * of_int sz)
                              in Some (if rc \<noteq> 0 then 1 else 0, s\<lparr>ram_of := m\<rparr>))
                        else map_option (\<lambda>m. (0, s\<lparr>ram_of := m\<rparr>)) (cp_loop (ram_of s) (nat sz) addr dest (unat count)))))"

definition do_mem_base :: "u8 list list \<Rightarrow> mem_state \<Rightarrow> int \<times> mem_state" where
  "do_mem_base argv s = (0, if length argv > 1 then s\<lparr>base_address := hex_arg argv 1\<rparr> else s)"

text \<open>The checksum is part of the result because it is printed.\<close>

definition do_mem_crc :: "u8 list list \<Rightarrow> mem_state \<Rightarrow> (int \<times> u32 option \<times> mem_state) option" where
  "do_mem_crc argv s =
     (if length argv < 3 then Some (1, None, s)
      else (let addr = hex_arg argv 1 + base_address s; len = hex_arg argv 2
            in do {
              dat \<leftarrow> ram_load (ram_of s) addr (unat len);
              let crc = crc32 0 dat;
              if length argv > 3
              then map_option (\<lambda>m. (0, Some crc, s\<lparr>ram_of := m\<rparr>)) (ram_write 4 (ram_of s) (hex_arg argv 3) crc)
              else Some (0, Some crc, s)
            }))"

section \<open>Modify\<close>

text \<open>The width of an access is the size, or one byte when it is none of the others.\<close>

definition access_width :: "int \<Rightarrow> nat" where
  "access_width sz = (if sz = 4 then 4 else if sz = 2 then 2 else 1)"

text \<open>
  The inputs are what \<^verbatim>\<open>readline\<close> returns and leaves in the console buffer; without one the command waits for
  ever.  The result is the memory and the last address.
\<close>

fun mod_loop :: "int \<Rightarrow> int \<Rightarrow> (int \<times> u8 list) list \<Rightarrow> u32 \<Rightarrow> ram \<Rightarrow> (u32 \<times> ram) option" where
  "mod_loop incrflag sz [] addr m = None"
| "mod_loop incrflag sz ((nbytes, console_buffer) # inputs) addr m = do {
     _ \<leftarrow> ram_read (access_width sz) m addr;
     if nbytes = 0 \<or> nbytes = 1 \<and> deref console_buffer = 0x2d
     then mod_loop incrflag sz inputs
            (if incrflag \<noteq> 0 then addr + of_int (if nbytes \<noteq> 0 then - sz else sz) else addr) m
     else (let (i, endp) = simple_strtoul console_buffer 16
           in if length endp = length console_buffer then Some (addr, m)
              else do {
                m \<leftarrow> ram_write (access_width sz) m addr i;
                mod_loop incrflag sz inputs (if incrflag \<noteq> 0 then addr + of_int sz else addr) m
              })
   }"

definition mod_mem :: "int \<Rightarrow> (int \<times> u8 list) list \<Rightarrow> u32 \<Rightarrow> u8 list list \<Rightarrow> mem_state \<Rightarrow> (int \<times> mem_state) option" where
  "mod_mem incrflag inputs flag argv s =
     (if length argv \<noteq> 2 then Some (1, s)
      else (let new = (flag AND CMD_FLAG_REPEAT = 0);
                sz = (if new then cmd_get_data_size (argv ! 0) 4 else mm_last_size s);
                addr = (if new then hex_arg argv 1 + base_address s else mm_last_addr s)
            in if new \<and> sz < 0 then Some (1, s)
               else do {
                 (addr, m) \<leftarrow> mod_loop incrflag sz inputs addr (ram_of s);
                 Some (0, s\<lparr>ram_of := m, mm_last_addr := addr, mm_last_size := sz\<rparr>)
               }))"

definition do_mem_mm :: "(int \<times> u8 list) list \<Rightarrow> u32 \<Rightarrow> u8 list list \<Rightarrow> mem_state \<Rightarrow> (int \<times> mem_state) option" where
  "do_mem_mm inputs flag argv s = mod_mem 1 inputs flag argv s"

definition do_mem_nm :: "(int \<times> u8 list) list \<Rightarrow> u32 \<Rightarrow> u8 list list \<Rightarrow> mem_state \<Rightarrow> (int \<times> mem_state) option" where
  "do_mem_nm inputs flag argv s = mod_mem 0 inputs flag argv s"

section \<open>The memory test\<close>

text \<open>The memory under test, which is hardware that may not work.\<close>

record 'm bus =
  bus_read :: "'m \<Rightarrow> u32 \<Rightarrow> u32 option"
  bus_write :: "'m \<Rightarrow> u32 \<Rightarrow> u32 \<Rightarrow> 'm option"

partial_function (option) write_pass :: "'m bus \<Rightarrow> u32 \<Rightarrow> u32 \<Rightarrow> u32 \<Rightarrow> u32 \<Rightarrow> 'm \<Rightarrow> 'm option" where
  "write_pass bus fin incr addr val m =
     (if addr < fin
      then (case bus_write bus m addr val of
              None \<Rightarrow> None
            | Some m \<Rightarrow> write_pass bus fin incr (addr + 4) (val + incr) m)
      else Some m)"

text \<open>Whether Ctrl-C stopped the pass, the errors, and the polls used up.\<close>

partial_function (option) read_pass ::
    "'m bus \<Rightarrow> (nat \<Rightarrow> bool) \<Rightarrow> u32 \<Rightarrow> u32 \<Rightarrow> u32 \<Rightarrow> u32 \<Rightarrow> u32 \<Rightarrow> nat \<Rightarrow> 'm \<Rightarrow> (bool \<times> u32 \<times> nat) option" where
  "read_pass bus poll fin incr addr val errs k m =
     (if addr < fin
      then (case bus_read bus m addr of
              None \<Rightarrow> None
            | Some readback \<Rightarrow>
                if readback = val then read_pass bus poll fin incr (addr + 4) (val + incr) errs k m
                else if poll k then Some (True, errs + 1, k + 1)
                else read_pass bus poll fin incr (addr + 4) (val + incr) (errs + 1) (k + 1) m)
      else Some (False, errs, k))"

definition next_pattern :: "u32 \<Rightarrow> u32" where
  "next_pattern pattern = (if pattern AND 0x80000000 \<noteq> 0 then - pattern else NOT pattern)"

partial_function (option) mtest_loop ::
    "'m bus \<Rightarrow> (nat \<Rightarrow> bool) \<Rightarrow> u32 \<Rightarrow> u32 \<Rightarrow> u32 \<Rightarrow> u32 \<Rightarrow> u32 \<Rightarrow> u32 \<Rightarrow> u32 \<Rightarrow> nat \<Rightarrow> 'm \<Rightarrow> (int \<times> 'm) option" where
  "mtest_loop bus poll start fin iteration_limit pattern incr iterations errs k m =
     (if poll k then Some (1, m)
      else if iteration_limit \<noteq> 0 \<and> iteration_limit <s iterations then Some (if errs \<noteq> 0 then 1 else 0, m)
      else (case write_pass bus fin incr start pattern m of
              None \<Rightarrow> None
            | Some m \<Rightarrow>
                (case read_pass bus poll fin incr start pattern errs (k + 1) m of
                   None \<Rightarrow> None
                 | Some (stop, errs, k) \<Rightarrow>
                     if stop then Some (1, m)
                     else mtest_loop bus poll start fin iteration_limit (next_pattern pattern) (- incr) (iterations + 1) errs k m)))"

definition CONFIG_SYS_MEMTEST_START :: u32 where "CONFIG_SYS_MEMTEST_START = 0x30000000"
definition CONFIG_SYS_MEMTEST_END :: u32 where "CONFIG_SYS_MEMTEST_END = 0x33F00000"

definition do_mem_mtest :: "'m bus \<Rightarrow> (nat \<Rightarrow> bool) \<Rightarrow> u8 list list \<Rightarrow> 'm \<Rightarrow> (int \<times> 'm) option" where
  "do_mem_mtest bus poll argv m =
     (let start = (if length argv > 1 then hex_arg argv 1 else CONFIG_SYS_MEMTEST_START);
          fin = (if length argv > 2 then hex_arg argv 2 else CONFIG_SYS_MEMTEST_END);
          pattern = (if length argv > 3 then hex_arg argv 3 else 0);
          iteration_limit = (if length argv > 4 then hex_arg argv 4 else 0)
      in mtest_loop bus poll start fin iteration_limit pattern 1 1 0 0 m)"

section \<open>Comparisons\<close>

datatype opcode = EQ | NE | LT | GT | LE | GE

definition op_table :: "(u8 list \<times> opcode) list" where
  "op_table =
     [(ascii ''-lt'', LT), (ascii ''<'', LT), (ascii ''-gt'', GT), (ascii ''>'', GT),
      (ascii ''-eq'', EQ), (ascii ''=='', EQ), (ascii ''-ne'', NE), (ascii ''!='', NE), (ascii ''<>'', NE),
      (ascii ''-ge'', GE), (ascii ''>='', GE), (ascii ''-le'', LE), (ascii ''<='', LE)]"

text \<open>For the width 4 the one is shifted out of the word, as the processor does it; C leaves this undefined.\<close>

definition evalexp :: "ram \<Rightarrow> u8 list \<Rightarrow> nat \<Rightarrow> u32 option" where
  "evalexp m s w = do {
     l \<leftarrow> (if deref s = 0x2a then ram_read 4 m (fst (simple_strtoul (tl s) 16)) else Some (fst (simple_strtoul s 16)));
     Some (l AND (push_bit (w * 8) 1 - 1))
   }"

partial_function (option) ram_string :: "ram \<Rightarrow> u32 \<Rightarrow> u8 list option" where
  "ram_string m a =
     (case m a of
        None \<Rightarrow> None
      | Some c \<Rightarrow> if c = 0 then Some [] else do { s \<leftarrow> ram_string m (a + 1); Some (c # s) })"

definition evalstr :: "ram \<Rightarrow> u8 list \<Rightarrow> u8 list option" where
  "evalstr m s = (if deref s = 0x2a then ram_string m (fst (simple_strtoul (tl s) 16)) else Some s)"

text \<open>\<^verbatim>\<open>strncmp\<close> over two strings.\<close>

fun strings_ncmp :: "u8 list \<Rightarrow> u8 list \<Rightarrow> nat \<Rightarrow> u8 \<Rightarrow> int" where
  "strings_ncmp cs ct 0 res = sint res"
| "strings_ncmp cs ct (Suc n) res =
     (let res = deref cs - deref ct
      in if res \<noteq> 0 \<or> deref cs = 0 then sint res else strings_ncmp (tl cs) (tl ct) n res)"

definition op_holds :: "opcode \<Rightarrow> int \<Rightarrow> int \<Rightarrow> bool" where
  "op_holds opc l r =
     (case opc of EQ \<Rightarrow> l = r | NE \<Rightarrow> l \<noteq> r | LT \<Rightarrow> l < r | GT \<Rightarrow> l > r | LE \<Rightarrow> l \<le> r | GE \<Rightarrow> l \<ge> r)"

definition stringcomp :: "ram \<Rightarrow> u8 list \<Rightarrow> u8 list \<Rightarrow> opcode \<Rightarrow> bool option" where
  "stringcomp m s t opc = do {
     l \<leftarrow> evalstr m s;
     r \<leftarrow> evalstr m t;
     let n = min (length l) (length r);
     Some (op_holds opc (strings_ncmp l r n 0) 0)
   }"

definition arithcomp :: "ram \<Rightarrow> u8 list \<Rightarrow> u8 list \<Rightarrow> opcode \<Rightarrow> nat \<Rightarrow> bool option" where
  "arithcomp m s t opc w = do {
     l \<leftarrow> evalexp m s w;
     r \<leftarrow> evalexp m t w;
     Some (op_holds opc (sint l) (sint r))
   }"

fun find_op :: "u8 list \<Rightarrow> (u8 list \<times> opcode) list \<Rightarrow> opcode option" where
  "find_op opr [] = None"
| "find_op opr ((name, opc) # table) =
     (if strings_ncmp opr name (length opr) 0 = 0 \<and> length opr = length name then Some opc else find_op opr table)"

definition binary_test :: "ram \<Rightarrow> u8 list \<Rightarrow> u8 list \<Rightarrow> u8 list \<Rightarrow> nat \<Rightarrow> bool option" where
  "binary_test m opr arg1 arg2 w =
     (case find_op opr op_table of
        None \<Rightarrow> Some False
      | Some opc \<Rightarrow> if w = 0 then stringcomp m arg1 arg2 opc else arithcomp m arg1 arg2 opc w)"

definition do_itest :: "ram \<Rightarrow> u8 list list \<Rightarrow> int option" where
  "do_itest m argv =
     (if length argv \<noteq> 4 then Some 1
      else (let w = cmd_get_data_size (argv ! 0) 4
            in do {
              v \<leftarrow> (if w = 1 \<or> w = 2 \<or> w = 4 then binary_test m (argv ! 2) (argv ! 1) (argv ! 3) (nat w)
                   else if w = - 2 then binary_test m (argv ! 2) (argv ! 1) (argv ! 3) 0
                   else Some False);
              Some (if v then 0 else 1)
            }))"

section \<open>What the memory test finds\<close>

text \<open>
  Memory with faults: every address is decoded to a cell, and in every cell some bits may be stuck at one
  (\<open>h\<close>) or at zero (\<open>l\<close>).
\<close>

definition forced :: "u32 \<Rightarrow> u32 \<Rightarrow> u32 \<Rightarrow> u32" where
  "forced h l v = (v OR h) AND NOT l"

definition faulty_bus :: "(u32 \<Rightarrow> 'k) \<Rightarrow> ('k \<Rightarrow> u32) \<Rightarrow> ('k \<Rightarrow> u32) \<Rightarrow> ('k \<Rightarrow> u32) bus" where
  "faulty_bus d h l =
     \<lparr>bus_read = (\<lambda>m a. Some (forced (h (d a)) (l (d a)) (m (d a)))), bus_write = (\<lambda>m a v. Some (m(d a := v)))\<rparr>"

definition word_at :: "u32 \<Rightarrow> nat \<Rightarrow> u32" where
  "word_at start j = start + 4 * of_nat j"

definition words_in :: "u32 \<Rightarrow> u32 \<Rightarrow> nat" where
  "words_in start fin = (unat fin - unat start + 3) div 4"

definition memory_sound :: "(u32 \<Rightarrow> 'k) \<Rightarrow> ('k \<Rightarrow> u32) \<Rightarrow> ('k \<Rightarrow> u32) \<Rightarrow> u32 \<Rightarrow> u32 \<Rightarrow> bool" where
  "memory_sound d h l start fin \<longleftrightarrow>
     inj_on (d \<circ> word_at start) {..<words_in start fin} \<and>
     (\<forall>j<words_in start fin. h (d (word_at start j)) = 0 \<and> l (d (word_at start j)) = 0)"

definition pattern_at :: "u32 \<Rightarrow> u32 \<Rightarrow> nat \<Rightarrow> u32" where
  "pattern_at p incr j = p + incr * of_nat j"

lemma word_at_less:
  assumes "fin \<le> - 4" "j \<le> words_in start fin"
  shows "word_at start j < fin \<longleftrightarrow> j < words_in start fin"
proof -
  have top: "unat fin \<le> 2 ^ 32 - 4" using assms(1) by (simp add: word_le_nat_alt)
  show ?thesis
  proof (cases "unat start < unat fin")
    case True
    have "4 * words_in start fin \<le> unat fin - unat start + 3" unfolding words_in_def by simp
    then have le: "unat start + 4 * j < 2 ^ 32" using assms(2) top True by linarith
    then have "unat (4 * of_nat j :: u32) = 4 * j" by (simp add: unat_word_ariths)
    then have "unat (word_at start j) = unat start + 4 * j"
      using le by (simp add: word_at_def unat_word_ariths)
    moreover have "unat start + 4 * j < unat fin \<longleftrightarrow> j < words_in start fin"
      using True unfolding words_in_def by linarith
    ultimately show ?thesis by (simp add: word_less_nat_alt)
  next
    case False
    then have "words_in start fin = 0" by (simp add: words_in_def)
    moreover from this have "j = 0" using assms(2) by simp
    ultimately show ?thesis using False by (simp add: word_at_def word_less_nat_alt)
  qed
qed

lemma word_at_Suc: "word_at start j + 4 = word_at start (Suc j)"
  by (simp add: word_at_def algebra_simps)

lemma pattern_at_Suc: "pattern_at p incr j + incr = pattern_at p incr (Suc j)"
  by (simp add: pattern_at_def algebra_simps)

text \<open>The memory after a pass of writes, and the number of words a pass of reads finds wrong.\<close>

definition written :: "(u32 \<Rightarrow> 'k) \<Rightarrow> u32 \<Rightarrow> u32 \<Rightarrow> u32 \<Rightarrow> nat \<Rightarrow> nat \<Rightarrow> ('k \<Rightarrow> u32) \<Rightarrow> ('k \<Rightarrow> u32)" where
  "written d start p incr j n m = fold (\<lambda>i m. m(d (word_at start i) := pattern_at p incr i)) [j..<n] m"

definition wrong :: "(u32 \<Rightarrow> 'k) \<Rightarrow> ('k \<Rightarrow> u32) \<Rightarrow> ('k \<Rightarrow> u32) \<Rightarrow> u32 \<Rightarrow> u32 \<Rightarrow> u32 \<Rightarrow> ('k \<Rightarrow> u32) \<Rightarrow> nat \<Rightarrow> bool" where
  "wrong d h l start p incr m i \<longleftrightarrow>
     (let c = d (word_at start i) in forced (h c) (l c) (m c) \<noteq> pattern_at p incr i)"

lemma write_pass_eq:
  assumes "fin \<le> - 4" "j \<le> words_in start fin"
  shows "write_pass (faulty_bus d h l) fin incr (word_at start j) (pattern_at p incr j) m =
    Some (written d start p incr j (words_in start fin) m)"
  using assms(2)
proof (induction "words_in start fin - j" arbitrary: j m)
  case 0
  then have "\<not> word_at start j < fin" "j = words_in start fin" using word_at_less [OF assms(1), of j start] by simp_all
  then show ?case by (subst write_pass.simps) (simp add: written_def)
next
  case (Suc n)
  then have j: "j < words_in start fin" by simp
  then have lt: "word_at start j < fin" using word_at_less [OF assms(1), of j start] by simp
  have "n = words_in start fin - Suc j" "Suc j \<le> words_in start fin" using Suc.hyps(2) j by simp_all
  note IH = Suc.hyps(1) [OF this]
  show ?case
    using lt IH j by (subst write_pass.simps) (simp add: faulty_bus_def word_at_Suc pattern_at_Suc written_def upt_rec [of j])
qed

lemma read_pass_eq:
  assumes "fin \<le> - 4" "j \<le> words_in start fin" "\<forall>k. \<not> poll k"
  shows "\<exists>k'. read_pass (faulty_bus d h l) poll fin incr (word_at start j) (pattern_at p incr j) errs k m =
    Some (False, errs + of_nat (length (filter (wrong d h l start p incr m) [j..<words_in start fin])), k')"
  using assms(2)
proof (induction "words_in start fin - j" arbitrary: j errs k)
  case 0
  then have "\<not> word_at start j < fin" "j = words_in start fin" using word_at_less [OF assms(1), of j start] by simp_all
  then show ?case by (subst read_pass.simps) simp
next
  case (Suc n)
  then have j: "j < words_in start fin" by simp
  then have lt: "word_at start j < fin" using word_at_less [OF assms(1), of j start] by simp
  have "n = words_in start fin - Suc j" "Suc j \<le> words_in start fin" using Suc.hyps(2) j by simp_all
  note IH = Suc.hyps(1) [OF this]
  show ?case
    using lt j assms(3) IH [of errs k] IH [of "errs + 1" "k + 1"]
    by (subst read_pass.simps)
      (auto simp: faulty_bus_def word_at_Suc pattern_at_Suc wrong_def Let_def upt_rec [of j] add.assoc)
qed

definition errors :: "(u32 \<Rightarrow> 'k) \<Rightarrow> ('k \<Rightarrow> u32) \<Rightarrow> ('k \<Rightarrow> u32) \<Rightarrow> u32 \<Rightarrow> u32 \<Rightarrow> u32 \<Rightarrow> u32 \<Rightarrow> ('k \<Rightarrow> u32) \<Rightarrow> nat" where
  "errors d h l start fin p incr m =
     length (filter (wrong d h l start p incr (written d start p incr 0 (words_in start fin) m)) [0..<words_in start fin])"

lemma errors_0:
  "errors d h l start fin p incr m = 0 \<longleftrightarrow>
     (\<forall>i<words_in start fin. \<not> wrong d h l start p incr (written d start p incr 0 (words_in start fin) m) i)"
  by (auto simp: errors_def filter_empty_conv)

lemma errors_le: "errors d h l start fin p incr m \<le> words_in start fin"
  unfolding errors_def by (rule order_trans [OF length_filter_le]) simp

lemma written_at:
  assumes "inj_on (d \<circ> word_at start) {..<n}" "i < n"
  shows "written d start p incr 0 n m (d (word_at start i)) = pattern_at p incr i"
  using assms
proof (induction n)
  case (Suc n)
  have inj: "inj_on (d \<circ> word_at start) {..<n}" by (rule inj_on_subset [OF Suc.prems(1)]) auto
  show ?case
  proof (cases "i = n")
    case True
    then show ?thesis by (simp add: written_def)
  next
    case False
    then have i: "i < n" using Suc.prems(2) by simp
    have "d (word_at start i) \<noteq> d (word_at start n)"
      using inj_onD [OF Suc.prems(1), of i n] i by auto
    with Suc.IH [OF inj i] show ?thesis by (simp add: written_def)
  qed
qed simp

lemma forced_0 [simp]: "forced 0 0 v = v"
  by (simp add: forced_def)

lemma sound_no_errors: "memory_sound d h l start fin \<Longrightarrow> errors d h l start fin p incr m = 0"
  by (auto simp: errors_0 memory_sound_def wrong_def Let_def written_at)

text \<open>Two words in one cell: the cell cannot read as both patterns.\<close>

lemma words_in_bound: "words_in start fin < 2 ^ 32"
proof -
  have "words_in start fin \<le> (unat fin + 3) div 4" unfolding words_in_def by (intro div_le_mono) simp
  moreover have "unat fin + 3 < 17179869184" using unat_u32_less [of fin] by linarith
  then have "(unat fin + 3) div 4 < 2 ^ 32" by (intro less_mult_imp_div_less) simp
  ultimately show ?thesis by simp
qed

lemma no_errors_inj:
  assumes "errors d h l start fin p 1 m = 0"
  shows "inj_on (d \<circ> word_at start) {..<words_in start fin}"
proof (rule inj_onI)
  fix i j assume i: "i \<in> {..<words_in start fin}" and j: "j \<in> {..<words_in start fin}"
    and eq: "(d \<circ> word_at start) i = (d \<circ> word_at start) j"
  let ?m = "written d start p 1 0 (words_in start fin) m"
  have "\<not> wrong d h l start p 1 ?m i" "\<not> wrong d h l start p 1 ?m j"
    using assms i j by (simp_all add: errors_0)
  then have "pattern_at p 1 i = pattern_at p 1 j" using eq by (simp add: wrong_def Let_def)
  then have "(of_nat i :: u32) = of_nat j" by (simp add: pattern_at_def)
  moreover have "i < 4294967296" "j < 4294967296" using i j words_in_bound [of start fin] by simp_all
  ultimately show "i = j" by (metis unat_of_nat_u32)
qed

lemma complement_pattern: "pattern_at (NOT p) (- 1) i = NOT (pattern_at p 1 i)"
  by (simp add: pattern_at_def not_eq_complement)

lemma forced_both:
  assumes "forced h l v = v" "forced h l (NOT v) = NOT v"
  shows "h = 0 \<and> l = 0"
proof -
  have "\<not> bit h n \<and> \<not> bit l n" if "n < 32" for n
    using arg_cong [OF assms(1), of "\<lambda>w. bit w n"] arg_cong [OF assms(2), of "\<lambda>w. bit w n"] that
    by (auto simp: forced_def bit_eval)
  then show ?thesis by (auto intro!: bit_word_eqI)
qed

lemma no_errors_sound:
  assumes "errors d h l start fin p 1 m = 0" "errors d h l start fin (NOT p) (- 1) m' = 0"
  shows "memory_sound d h l start fin"
proof -
  note inj = no_errors_inj [OF assms(1)]
  have "h (d (word_at start j)) = 0 \<and> l (d (word_at start j)) = 0" if j: "j < words_in start fin" for j
  proof (rule forced_both)
    show "forced (h (d (word_at start j))) (l (d (word_at start j))) (pattern_at p 1 j) = pattern_at p 1 j"
      using assms(1) j written_at [OF inj j, of p 1 m] by (auto simp: errors_0 wrong_def Let_def)
    show "forced (h (d (word_at start j))) (l (d (word_at start j))) (NOT (pattern_at p 1 j)) = NOT (pattern_at p 1 j)"
      using assms(2) j written_at [OF inj j, of "NOT p" "- 1" m']
      by (auto simp: errors_0 wrong_def Let_def complement_pattern)
  qed
  with inj show ?thesis by (simp add: memory_sound_def)
qed

text \<open>The loop adds the errors of its iterations.\<close>

lemma sint_small: "unat (x :: u32) < 2 ^ 31 \<Longrightarrow> sint x = int (unat x)"
proof -
  assume "unat x < 2 ^ 31"
  then have "int (unat x) < int (2 ^ 31)" by (simp only: of_nat_less_iff)
  then have "uint x < 2 ^ 31" by simp
  moreover have "- (2 ^ 31) \<le> uint x" by (rule order_trans [OF _ uint_ge_0]) simp
  ultimately show ?thesis unfolding sint_uint by (subst signed_take_bit_int_eq_self) simp_all
qed

lemma sless_small: "unat (a :: u32) < 2 ^ 31 \<Longrightarrow> unat b < 2 ^ 31 \<Longrightarrow> a <s b \<longleftrightarrow> unat a < unat b"
  by (simp only: word_sless_alt sint_small of_nat_less_iff)

lemma mtest_loop_eq:
  assumes "fin \<le> - 4" "\<forall>k. \<not> poll k" "0 < unat lim" "unat lim + 1 < 2 ^ 31" "unat lim + 1 = unat it + n"
  shows "\<exists>E m'. mtest_loop (faulty_bus d h l) poll start fin lim p incr it errs k m =
      Some (if errs + of_nat E \<noteq> 0 then 1 else 0, m') \<and>
    E \<le> n * words_in start fin \<and> (memory_sound d h l start fin \<longrightarrow> E = 0) \<and>
    (E = 0 \<and> 1 \<le> n \<longrightarrow> errors d h l start fin p incr m = 0 \<and>
       (2 \<le> n \<longrightarrow> (\<exists>m. errors d h l start fin (next_pattern p) (- incr) m = 0)))"
  using assms(5)
proof (induction n arbitrary: p incr it errs k m)
  case 0
  have "lim <s it" using 0 assms(3,4) by (subst sless_small) simp_all
  moreover have "lim \<noteq> 0" using assms(3) by auto
  ultimately have "mtest_loop (faulty_bus d h l) poll start fin lim p incr it errs k m = Some (if errs \<noteq> 0 then 1 else 0, m)"
    using assms(2) by (subst mtest_loop.simps) simp
  then show ?case by (intro exI [of _ 0] exI [of _ m]) simp
next
  case (Suc n)
  let ?m = "written d start p incr 0 (words_in start fin) m" and ?e = "errors d h l start fin p incr m"
  have it: "unat (it + 1) = unat it + 1"
    using Suc.prems assms(4) by (simp add: unat_word_ariths)
  have go: "\<not> lim <s it" using Suc.prems assms(4) by (subst sless_small) simp_all
  have w: "write_pass (faulty_bus d h l) fin incr start p m = Some ?m"
    using write_pass_eq [OF assms(1), of 0 start d h l incr p m] by (simp add: word_at_def pattern_at_def)
  obtain k' where r: "read_pass (faulty_bus d h l) poll fin incr start p errs (k + 1) ?m = Some (False, errs + of_nat ?e, k')"
    using read_pass_eq [OF assms(1) _ assms(2), of 0 start d h l incr p errs "k + 1" ?m]
    by (auto simp: word_at_def pattern_at_def errors_def)
  have step: "mtest_loop (faulty_bus d h l) poll start fin lim p incr it errs k m =
    mtest_loop (faulty_bus d h l) poll start fin lim (next_pattern p) (- incr) (it + 1) (errs + of_nat ?e) k' ?m"
    using assms(2) go w r by (subst mtest_loop.simps) simp
  have "unat lim + 1 = unat (it + 1) + n" using Suc.prems it by simp
  from Suc.IH [OF this, of "next_pattern p" "- incr" "errs + of_nat ?e" k' ?m] obtain E m' where
    E: "mtest_loop (faulty_bus d h l) poll start fin lim (next_pattern p) (- incr) (it + 1) (errs + of_nat ?e) k' ?m =
      Some (if errs + of_nat ?e + of_nat E \<noteq> 0 then 1 else 0, m')" "E \<le> n * words_in start fin"
    "memory_sound d h l start fin \<longrightarrow> E = 0"
    "E = 0 \<and> 1 \<le> n \<longrightarrow> errors d h l start fin (next_pattern p) (- incr) ?m = 0"
    by blast
  show ?case
  proof (intro exI conjI)
    show "mtest_loop (faulty_bus d h l) poll start fin lim p incr it errs k m =
      Some (if errs + of_nat (?e + E) \<noteq> 0 then 1 else 0, m')"
      unfolding step E(1) by (simp add: add.assoc)
    show "?e + E \<le> Suc n * words_in start fin" using E(2) errors_le [of d h l start fin p incr m] by simp
    show "memory_sound d h l start fin \<longrightarrow> ?e + E = 0" using E(3) sound_no_errors by auto
    show "?e + E = 0 \<and> 1 \<le> Suc n \<longrightarrow> ?e = 0 \<and>
       (2 \<le> Suc n \<longrightarrow> (\<exists>m. errors d h l start fin (next_pattern p) (- incr) m = 0))"
      using E(4) by auto
  qed
qed

text \<open>C22:
  The verdict of the memory test: for memory in which addresses may be decoded to the same cell and bits of a
  cell may be stuck, a test of at least two rounds whose pattern starts without the top bit
  (the default) returns, and its code is 0 exactly when within the range every word has a cell of its own and no
  bit is stuck.  The range ends below the last word of the address space, and the counter of errors must not wrap.\<close>

theorem mtest_verdict:
  assumes "length argv = 5" "start = hex_arg argv 1" "fin = hex_arg argv 2" "fin \<le> - 4"
    and "\<not> bit (hex_arg argv 3) 31" "lim = unat (hex_arg argv 4)" "2 \<le> lim" "lim + 1 < 2 ^ 31"
    and "lim * words_in start fin < 2 ^ 32" "\<forall>k. \<not> poll k"
  shows "\<exists>m'. do_mem_mtest (faulty_bus d h l) poll argv m = Some (if memory_sound d h l start fin then 0 else 1, m')"
proof -
  let ?p = "hex_arg argv 3"
  have "?p AND 2 ^ 31 = 0" using assms(5) by (simp only: and_exp_eq_0_iff_not_bit not_False_eq_True)
  then have nxt: "next_pattern ?p = NOT ?p" by (simp add: next_pattern_def)
  obtain E m' where E: "mtest_loop (faulty_bus d h l) poll start fin (hex_arg argv 4) ?p 1 1 0 0 m =
      Some (if 0 + of_nat E \<noteq> (0 :: u32) then 1 else 0, m')" "E \<le> lim * words_in start fin"
    "memory_sound d h l start fin \<longrightarrow> E = 0"
    "E = 0 \<and> 1 \<le> lim \<longrightarrow> errors d h l start fin ?p 1 m = 0 \<and>
       (2 \<le> lim \<longrightarrow> (\<exists>m. errors d h l start fin (next_pattern ?p) (- 1) m = 0))"
    using mtest_loop_eq [OF assms(4,10), of "hex_arg argv 4" 1 lim d h l start ?p 1 0 0 m] assms(6,7,8) by auto
  have "E < 4294967296" using E(2) assms(9) by simp
  then have "unat (of_nat E :: u32) = E" by (rule unat_of_nat_u32)
  then have "(of_nat E :: u32) \<noteq> 0 \<longleftrightarrow> E \<noteq> 0" using unat_eq_zero [of "of_nat E :: u32"] by simp
  moreover have "E = 0 \<longleftrightarrow> memory_sound d h l start fin"
  proof
    assume "E = 0"
    then obtain m2 where "errors d h l start fin ?p 1 m = 0" "errors d h l start fin (NOT ?p) (- 1) m2 = 0"
      using E(4) assms(7) unfolding nxt by auto
    then show "memory_sound d h l start fin" by (rule no_errors_sound)
  qed (use E(3) in simp)
  ultimately show ?thesis
    using E(1) assms(1-3) by (auto simp: do_mem_mtest_def)
qed

text \<open>One word with a stuck bit, and the same word without.\<close>

definition test_args :: "u8 list list" where
  "test_args = [ascii ''mtest'', ascii ''30000000'', ascii ''30000004'', ascii ''0'', ascii ''2'']"

lemma test_args_values:
  "length test_args = 5" "hex_arg test_args 1 = 0x30000000" "hex_arg test_args 2 = 0x30000004" "hex_arg test_args 3 = 0"
  "hex_arg test_args 4 = 2"
  by (simp_all add: test_args_def hex_arg_def simple_strtoul_def digit_eval)

theorem mtest_verdict_witness:
  "\<exists>m'. do_mem_mtest (faulty_bus id (\<lambda>c. if c = 0x30000000 then 0x40 else 0) (\<lambda>c. 0)) (\<lambda>k. False) test_args (\<lambda>c. 0) = Some (1, m')"
proof -
  let ?h = "\<lambda>c :: u32. if c = 0x30000000 then 0x40 else 0 :: u32"
  have "\<exists>m'. do_mem_mtest (faulty_bus id ?h (\<lambda>c. 0)) (\<lambda>k. False) test_args (\<lambda>c. 0) =
      Some (if memory_sound id ?h (\<lambda>c. 0) 0x30000000 0x30000004 then 0 else 1, m')"
    by (rule mtest_verdict [where lim = 2]) (simp_all only: test_args_values, simp_all add: words_in_def)
  moreover have "\<not> memory_sound id ?h (\<lambda>c. 0) 0x30000000 0x30000004"
    by (auto simp: memory_sound_def words_in_def word_at_def)
  ultimately show ?thesis by simp
qed

text \<open>A pattern with only the top bit is its own successor: it never changes, and what is stuck is not seen.\<close>

lemma top_pattern_stays: "next_pattern 0x80000000 = 0x80000000"
  by (simp add: next_pattern_def)

section \<open>Objects and their bytes\<close>

definition is_width :: "nat \<Rightarrow> bool" where
  "is_width sz \<longleftrightarrow> sz = 1 \<or> sz = 2 \<or> sz = 4"

lemma bytes_of_object:
  assumes "is_width sz" "length bs = sz"
  shows "take sz (word_bytes (bytes_word (bs @ replicate (4 - sz) 0))) = bs"
proof -
  have "length (bs @ replicate (4 - sz) 0) = 4" using assms by (auto simp: is_width_def)
  then show ?thesis using assms(2) by (simp add: word_bytes_word)
qed

lemma object_inj:
  assumes "is_width sz" "length bs = sz" "length cs = sz"
    and "bytes_word (bs @ replicate (4 - sz) 0) = bytes_word (cs @ replicate (4 - sz) 0)"
  shows "bs = cs"
  using bytes_of_object [OF assms(1,2)] bytes_of_object [OF assms(1,3)] assms(4) by metis

lemma aligned_step:
  assumes "is_width sz" "aligned sz a"
  shows "aligned sz (a + of_nat sz)"
  using assms by (auto simp: is_width_def aligned_def unat_word_ariths mod_mod_cancel mod_simps)

lemma load_split:
  assumes "ram_load m a (sz + k) = Some bs"
  shows "ram_load m a sz = Some (take sz bs)" "ram_load m (a + of_nat sz) k = Some (drop sz bs)" "length bs = sz + k"
proof -
  show len: "length bs = sz + k" by (rule ram_load_length [OF assms])
  have "ram_load m a (length (take sz bs)) = Some (take sz bs) \<and> ram_load m (a + of_nat (length (take sz bs))) (length (drop sz bs)) = Some (drop sz bs)"
    using assms len ram_load_appendI [of m a "take sz bs" "drop sz bs"] by simp
  then show "ram_load m a sz = Some (take sz bs)" "ram_load m (a + of_nat sz) k = Some (drop sz bs)"
    using len by simp_all
qed

section \<open>Copying and comparing\<close>

text \<open>Two blocks compare as equal exactly when their bytes are the same.\<close>

lemma cmp_loop_blocks:
  assumes "is_width sz" "aligned sz a" "aligned sz b"
    and "ram_load m a (n * sz) = Some bs" "ram_load m b (n * sz) = Some cs"
  shows "\<exists>k. cmp_loop m sz a b n g = Some (if bs = cs then 0 else 1, k) \<and> (bs = cs \<longrightarrow> k = g + n)"
  using assms(2-5)
proof (induction n arbitrary: a b g bs cs)
  case (Suc n)
  have l: "ram_load m a (sz + n * sz) = Some bs" "ram_load m b (sz + n * sz) = Some cs" using Suc.prems(3,4) by simp_all
  note la = load_split [OF l(1)] and lb = load_split [OF l(2)]
  have r: "ram_read sz m a = Some (bytes_word (take sz bs @ replicate (4 - sz) 0))"
    "ram_read sz m b = Some (bytes_word (take sz cs @ replicate (4 - sz) 0))"
    using Suc.prems(1,2) la(1) lb(1) by (simp_all add: ram_read_def)
  have len: "length (take sz bs) = sz" "length (take sz cs) = sz" using la(3) lb(3) by simp_all
  have split: "bs = cs \<longleftrightarrow> take sz bs = take sz cs \<and> drop sz bs = drop sz cs" by (metis append_take_drop_id)
  show ?case
  proof (cases "take sz bs = take sz cs")
    case True
    from Suc.IH [OF aligned_step [OF assms(1) Suc.prems(1)] aligned_step [OF assms(1) Suc.prems(2)] la(2) lb(2), of "g + 1"]
    show ?thesis using r True split by auto
  next
    case False
    then have "bytes_word (take sz bs @ replicate (4 - sz) 0) \<noteq> bytes_word (take sz cs @ replicate (4 - sz) 0)"
      using object_inj [OF assms(1) len] by blast
    then show ?thesis using r False split by auto
  qed
qed auto

lemma cp_loop_eq:
  assumes "is_width sz" "aligned sz a" "aligned sz b" "ram_load m a (n * sz) = Some bs"
    and "disjoint_blocks b (n * sz) a (n * sz)" "n * sz \<le> 2 ^ 32" "\<forall>i<n * sz. m (b + of_nat i) \<noteq> None"
  shows "cp_loop m sz a b n = ram_store m b bs"
  using assms(2-7)
proof (induction n arbitrary: m a b bs)
  case (Suc n)
  have l: "ram_load m a (sz + n * sz) = Some bs" using Suc.prems(3) by simp
  note la = load_split [OF l]
  let ?x = "take sz bs" and ?y = "drop sz bs"
  have lx: "length ?x = sz" using la(3) by simp
  have "\<exists>m'. ram_store m b ?x = Some m'"
    using Suc.prems(6) lx by (intro ram_store_total) auto
  then obtain m' where m': "ram_store m b ?x = Some m'" by blast
  have small: "length ?x \<le> 2 ^ 32" "n * sz \<le> 2 ^ 32" using Suc.prems(5) lx by simp_all
  have rd: "ram_read sz m a = Some (bytes_word (?x @ replicate (4 - sz) 0))"
    using Suc.prems(1) la(1) by (simp add: ram_read_def)
  have wr: "ram_write sz m b (bytes_word (?x @ replicate (4 - sz) 0)) = Some m'"
    using Suc.prems(2) m' bytes_of_object [OF assms(1) lx] by (simp add: ram_write_def)
  have parts: "in_block a (Suc n * sz) x" if "in_block (a + of_nat sz) (n * sz) x" for a x
    using that Suc.prems(5) by (intro in_block_part [of a sz "n * sz" x]) simp_all
  have d1: "disjoint_blocks b (length ?x) (a + of_nat sz) (n * sz)"
    using Suc.prems(4) parts in_block_le [of sz "Suc n * sz" b] unfolding disjoint_blocks_def lx by auto
  have d2: "disjoint_blocks (b + of_nat sz) (n * sz) (a + of_nat sz) (n * sz)"
    using Suc.prems(4) parts unfolding disjoint_blocks_def by blast
  have "ram_load m' (a + of_nat sz) (n * sz) = Some ?y"
    using ram_load_other [OF m' small d1] la(2) by simp
  moreover have "\<forall>i<n * sz. m' (b + of_nat sz + of_nat i) \<noteq> None"
  proof (intro allI impI)
    fix i assume "i < n * sz"
    then have "m (b + of_nat (sz + i)) \<noteq> None" using Suc.prems(6) [THEN spec, of "sz + i"] by simp
    then show "m' (b + of_nat sz + of_nat i) \<noteq> None"
      using ram_store_dom [OF m'] by (simp add: add.assoc)
  qed
  ultimately have IH: "cp_loop m' sz (a + of_nat sz) (b + of_nat sz) n = ram_store m' (b + of_nat sz) ?y"
    using aligned_step [OF assms(1) Suc.prems(1)] aligned_step [OF assms(1) Suc.prems(2)] d2 small(2)
    by (intro Suc.IH)
  have "ram_store m b (?x @ ?y) = ram_store m' (b + of_nat sz) ?y"
    unfolding ram_store_append using m' lx by simp
  then show ?case using rd wr IH by simp
qed simp

lemma mw_loop_eq:
  assumes "is_width sz" "aligned sz a"
  shows "mw_loop m sz a v n = ram_store m a (concat (replicate n (take sz (word_bytes v))))"
  using assms(2)
proof (induction n arbitrary: m a)
  case (Suc n)
  have "length (take sz (word_bytes v)) = sz" using assms(1) by (auto simp: is_width_def)
  then show ?case
    using Suc.IH [OF aligned_step [OF assms(1) Suc.prems]] Suc.prems
    by (simp add: ram_write_def ram_store_append)
qed simp

text \<open>C32:
  \<^verbatim>\<open>cp\<close> between blocks that do not overlap copies exactly the objects, in each of the three sizes: the
  target holds the bytes of the source and nothing else has changed, and afterwards \<^verbatim>\<open>cmp\<close> reports all of them
  as the same.\<close>

theorem copy_then_compare:
  assumes "length argv = 4" "cmd_get_data_size (argv ! 0) 4 = int sz" "is_width sz"
    and "a = hex_arg argv 1 + base_address s" "b = hex_arg argv 2 + base_address s" "n = unat (hex_arg argv 3)" "0 < n"
    and "aligned sz a" "aligned sz b" "\<not> in_flash b" "n * sz \<le> 2 ^ 32"
    and "ram_load (ram_of s) a (n * sz) = Some bs" "\<forall>i<n * sz. ram_of s (b + of_nat i) \<noteq> None"
    and "disjoint_blocks b (n * sz) a (n * sz)"
  shows "\<exists>t. do_mem_cp in_flash flash_write argv s = Some (0, t) \<and> ram_load (ram_of t) b (n * sz) = Some bs \<and>
    (\<forall>x. \<not> in_block b (n * sz) x \<longrightarrow> ram_of t x = ram_of s x) \<and> do_mem_cmp argv t = Some (0, n)"
proof -
  have len: "length bs = n * sz" by (rule ram_load_length [OF assms(12)])
  obtain m' where m': "ram_store (ram_of s) b bs = Some m'"
    using ram_store_total [of bs "ram_of s" b] assms(13) len by auto
  let ?t = "s\<lparr>ram_of := m'\<rparr>"
  have "hex_arg argv 3 \<noteq> 0" using assms(6,7) by auto
  then have cp: "do_mem_cp in_flash flash_write argv s = Some (0, ?t)"
    using assms(1-6,10) cp_loop_eq [OF assms(3,8,9,12,14,11,13)] m' by (simp add: do_mem_cp_def Let_def)
  have l: "ram_load m' b (n * sz) = Some bs"
    using ram_load_stored [OF m'] len assms(11) by simp
  have "ram_load m' a (n * sz) = ram_load (ram_of s) a (n * sz)"
    by (rule ram_load_other [OF m']) (use len assms(11,14) in simp_all)
  then have l2: "ram_load m' a (n * sz) = Some bs" using assms(12) by simp
  have "do_mem_cmp argv ?t = Some (0, n)"
    using cmp_loop_blocks [OF assms(3,8,9) l2 l, of 0] assms(1,2,4,5,6) by (simp add: do_mem_cmp_def)
  moreover have "\<forall>x. \<not> in_block b (n * sz) x \<longrightarrow> m' x = ram_of s x"
    using ram_store_SomeD [OF m'] len assms(11) by auto
  ultimately show ?thesis using cp l by (intro exI [of _ ?t]) simp
qed

definition copy_args :: "u8 list list" where
  "copy_args = [ascii ''cp.w'', ascii ''30000000'', ascii ''30000100'', ascii ''2'']"

lemma copy_args_values:
  "length copy_args = 4" "hex_arg copy_args 1 = 0x30000000" "hex_arg copy_args 2 = 0x30000100" "hex_arg copy_args 3 = 2"
  "cmd_get_data_size (copy_args ! 0) 4 = int 2"
  by (simp_all add: copy_args_def hex_arg_def simple_strtoul_def digit_eval cmd_get_data_size_def)

definition small_ram :: ram where
  "small_ram x = (if in_block 0x30000000 4 x then Some (ucast x) else if in_block 0x30000100 4 x then Some 0 else None)"

lemma small_ram_blocks:
  "ram_load small_ram 0x30000000 4 = Some [0, 1, 2, 3]" "\<forall>i<4. small_ram (0x30000100 + of_nat i) \<noteq> None"
proof -
  have b: "small_ram (0x30000000 + of_nat i) = Some (of_nat i)" "small_ram (0x30000100 + of_nat i) = Some 0" if "i < 4" for i
  proof -
    have "i \<in> {0, 1, 2, 3}" using that by auto
    then show "small_ram (0x30000000 + of_nat i) = Some (of_nat i)" "small_ram (0x30000100 + of_nat i) = Some 0"
      by (auto simp: small_ram_def in_block_def)
  qed
  have "[0, 1, 2, 3 :: u8] ! i = of_nat i" if "i < 4" for i
  proof -
    have "i \<in> {0, 1, 2, 3}" using that by auto
    then show ?thesis by auto
  qed
  with b show "ram_load small_ram 0x30000000 4 = Some [0, 1, 2, 3]" by (simp add: ram_load_eq)
  show "\<forall>i<4. small_ram (0x30000100 + of_nat i) \<noteq> None" using b by simp
qed

theorem copy_then_compare_witness:
  "\<exists>t. do_mem_cp (\<lambda>a. False) (\<lambda>m a b n. (1, m)) copy_args (mem_start small_ram) = Some (0, t) \<and>
    ram_load (ram_of t) 0x30000100 4 = Some [0, 1, 2, 3] \<and> do_mem_cmp copy_args t = Some (0, 2)"
proof -
  have four: "2 * 2 = (4 :: nat)" by simp
  have apart: "disjoint_blocks 0x30000100 4 0x30000000 4" by (rule disjoint_blocksI) simp_all
  have st: "ram_of (mem_start small_ram) = small_ram" "base_address (mem_start small_ram) = 0" by (simp_all add: mem_start_def)
  have "\<exists>t. do_mem_cp (\<lambda>a. False) (\<lambda>m a b n. (1, m)) copy_args (mem_start small_ram) = Some (0, t) \<and>
      ram_load (ram_of t) 0x30000100 (2 * 2) = Some [0, 1, 2, 3] \<and>
      (\<forall>x. \<not> in_block 0x30000100 (2 * 2) x \<longrightarrow> ram_of t x = ram_of (mem_start small_ram) x) \<and>
      do_mem_cmp copy_args t = Some (0, 2)"
    by (rule copy_then_compare [OF copy_args_values(1,5), where a = "0x30000000" and b = "0x30000100" and n = 2])
      (simp_all only: copy_args_values st four small_ram_blocks apart, simp_all add: is_width_def aligned_def small_ram_blocks(2) [simplified])
  then show ?thesis unfolding four by blast
qed

section \<open>Testing numbers\<close>

text \<open>
  The values of the width \<open>w\<close> are compared as signed words: of one or two bytes they are never negative, those of
  four bytes are negative from \<^verbatim>\<open>80000000\<close> on.\<close>

lemma evalexp_literal:
  assumes "is_width w" "deref s \<noteq> 0x2a"
  shows "evalexp m s w = Some (take_bit (8 * w) (fst (simple_strtoul s 16)))"
  using assms(2) by (simp add: evalexp_def take_bit_eq_mask mask_eq_exp_minus_1 push_bit_eq_mult mult.commute)

lemma itest_signed:
  "do_itest m [ascii ''itest'', ascii ''80000000'', ascii ''-lt'', ascii ''1''] = Some 0"
  "do_itest m [ascii ''itest.w'', ascii ''8000'', ascii ''-lt'', ascii ''1''] = Some 1"
  by (simp_all add: do_itest_def cmd_get_data_size_def binary_test_def op_table_def arithcomp_def evalexp_def
      simple_strtoul_def digit_eval op_holds_def push_bit_eq_mult)

text \<open>Strings are compared up to the end of the shorter one, so every string equals the empty one.\<close>

lemma itest_prefix: "stringcomp m [] s EQ = Some True" if "deref s \<noteq> 0x2a"
  using that by (simp add: stringcomp_def evalstr_def op_holds_def)

end
