(* ===== verification/Date.thy ===== *)
theory Date
  imports Vsprintf "HOL-Library.Signed_Division"
begin

text \<open>
  Dates: the conversions of \<^verbatim>\<open>drivers/rtc/date.c\<close> and the \<^verbatim>\<open>date\<close> command of \<^verbatim>\<open>common/cmd_date.c\<close> over a clock
  chip that is a parameter.  An \<^verbatim>\<open>int\<close> is an integer with the division of C, which rounds towards zero;
  \<^verbatim>\<open>mktime\<close> works on unsigned words.  Every second of a signed 32-bit counter becomes a date that
  \<^verbatim>\<open>mktime\<close> turns back, and a date that was typed in comes back from the counter.
\<close>

section \<open>The conversions\<close>

record rtc_time =
  tm_sec :: int
  tm_min :: int
  tm_hour :: int
  tm_mday :: int
  tm_mon :: int
  tm_year :: int
  tm_wday :: int
  tm_yday :: int
  tm_isdst :: int

definition SECDAY :: int where "SECDAY = 86400"
definition STARTOFTIME :: int where "STARTOFTIME = 1970"

definition leapyear :: "int \<Rightarrow> bool" where
  "leapyear year \<longleftrightarrow> year smod 4 = 0"

definition days_in_year :: "int \<Rightarrow> int" where
  "days_in_year a = (if leapyear a then 366 else 365)"

definition month_days :: "int list" where
  "month_days = [31, 28, 31, 30, 31, 30, 31, 31, 30, 31, 30, 31]"

definition MonthOffset :: "int list" where
  "MonthOffset = [0, 31, 59, 90, 120, 151, 181, 212, 243, 273, 304, 334]"

text \<open>\<^verbatim>\<open>None\<close> is a month outside the table.\<close>

definition GregorianDay :: "rtc_time \<Rightarrow> rtc_time option" where
  "GregorianDay tm =
     (let lastYear = tm_year tm - 1;
          leapsToDate = lastYear sdiv 4 - lastYear sdiv 100 + lastYear sdiv 400;
          day = (if tm_year tm smod 4 = 0 \<and> (tm_year tm smod 100 \<noteq> 0 \<or> tm_year tm smod 400 = 0) \<and> tm_mon tm > 2
                 then 1 else 0)
      in if tm_mon tm < 1 then None
         else do {
           offset \<leftarrow> rd MonthOffset (nat (tm_mon tm - 1));
           let day = day + lastYear * 365 + leapsToDate + offset + tm_mday tm;
           Some (tm\<lparr>tm_wday := day smod 7\<rparr>)
         })"

function year_loop :: "int \<Rightarrow> int \<Rightarrow> int \<times> int" where
  "year_loop day i = (if days_in_year i \<le> day then year_loop (day - days_in_year i) (i + 1) else (day, i))"
  by pat_completeness auto
termination
  by (relation "measure (\<lambda>(day, i). nat day)") (auto simp: days_in_year_def split: if_splits)

function month_loop :: "int list \<Rightarrow> int \<Rightarrow> nat \<Rightarrow> (int \<times> nat) option" where
  "month_loop days day i =
     (case rd days (i - 1) of
        None \<Rightarrow> None
      | Some d \<Rightarrow> if d \<le> day then month_loop days (day - d) (i + 1) else Some (day, i))"
  by pat_completeness auto
termination
  by (relation "measure (\<lambda>(days, day, i). length days + 1 - i)") (auto simp: buf_simps)

declare year_loop.simps [simp del] month_loop.simps [simp del]

definition to_tm :: "int \<Rightarrow> rtc_time \<Rightarrow> rtc_time option" where
  "to_tm tim tm = do {
     let day = tim sdiv SECDAY;
     let hms = tim smod SECDAY;
     let tm = tm\<lparr>tm_hour := hms sdiv 3600, tm_min := (hms smod 3600) sdiv 60, tm_sec := (hms smod 3600) smod 60\<rparr>;
     let (day, i) = year_loop day STARTOFTIME;
     let tm = tm\<lparr>tm_year := i\<rparr>;
     (day, i) \<leftarrow> month_loop (if leapyear (tm_year tm) then month_days[1 := 29] else month_days) day 1;
     let tm = tm\<lparr>tm_mon := int i, tm_mday := day + 1\<rparr>;
     GregorianDay tm
   }"

definition mktime :: "u32 \<Rightarrow> u32 \<Rightarrow> u32 \<Rightarrow> u32 \<Rightarrow> u32 \<Rightarrow> u32 \<Rightarrow> u32" where
  "mktime year mon day hour minute sec =
     (let mon = mon - 2;
          (mon, year) = (if 0 \<ge> sint mon then (mon + 12, year - 1) else (mon, year))
      in (((year div 4 - year div 100 + year div 400 + 367 * mon div 12 + day + year * 365 - 719499) * 24 + hour)
           * 60 + minute) * 60 + sec)"

section \<open>The command\<close>

text \<open>Two digits, or \<^verbatim>\<open>None\<close> for the code \<^verbatim>\<open>-1\<close>; the string ends with a zero byte.\<close>

definition is_digit :: "u8 \<Rightarrow> bool" where
  "is_digit c \<longleftrightarrow> 0x30 \<le> c \<and> c \<le> 0x39"

definition cnvrt2 :: "u8 list \<Rightarrow> int option" where
  "cnvrt2 str =
     (if \<not> is_digit (deref str) then None
      else if \<not> is_digit (deref (tl str)) then None
      else Some (10 * (int (unat (deref str)) - 48) + (int (unat (deref (tl str))) - 48)))"

text \<open>The fields of the last part, checked one after the other; those before a bad one are stored.\<close>

definition mk_fields :: "u8 list \<Rightarrow> rtc_time \<Rightarrow> (int \<times> rtc_time) option" where
  "mk_fields datestr tm =
     (case cnvrt2 datestr of
        None \<Rightarrow> Some (- 1, tm)
      | Some v \<Rightarrow> if v > 12 then Some (- 1, tm) else
     (let tm = tm\<lparr>tm_mon := v\<rparr> in
      case cnvrt2 (drop 2 datestr) of
        None \<Rightarrow> Some (- 1, tm)
      | Some v \<Rightarrow> if v > (if tm_mon tm = 2 then 29 else 31) then Some (- 1, tm) else
     (let tm = tm\<lparr>tm_mday := v\<rparr> in
      case cnvrt2 (drop 4 datestr) of
        None \<Rightarrow> Some (- 1, tm)
      | Some v \<Rightarrow> if v > 23 then Some (- 1, tm) else
     (let tm = tm\<lparr>tm_hour := v\<rparr> in
      case cnvrt2 (drop 6 datestr) of
        None \<Rightarrow> Some (- 1, tm)
      | Some v \<Rightarrow> if v > 59 then Some (- 1, tm)
                  else map_option (\<lambda>tm. (0, tm)) (GregorianDay (tm\<lparr>tm_min := v\<rparr>))))))"

definition mk_date :: "u8 list \<Rightarrow> rtc_time \<Rightarrow> (int \<times> rtc_time) option" where
  "mk_date datestr tm =
     (let front = takeWhile (\<lambda>c. c \<noteq> 0x2e) datestr;
          seconds = (if 0x2e \<in> set datestr
                     then (let ptr = drop (length front + 1) datestr
                           in if length ptr \<noteq> 2 then None else cnvrt2 ptr)
                     else Some 0)
      in case seconds of
           None \<Rightarrow> Some (- 1, tm)
         | Some sec \<Rightarrow>
             (let tm = tm\<lparr>tm_sec := sec\<rparr>; len = length front;
                  year = (if len = 12
                          then (case (cnvrt2 (drop 8 front), cnvrt2 (drop 10 front)) of
                                  (Some century, Some year) \<Rightarrow> Some (100 * century + year)
                                | _ \<Rightarrow> None)
                          else if len = 10
                          then map_option (\<lambda>year. 100 * (tm_year tm sdiv 100) + year) (cnvrt2 (drop 8 front))
                          else Some (tm_year tm))
              in case year of
                   None \<Rightarrow> Some (- 1, tm)
                 | Some y \<Rightarrow>
                     (let tm = tm\<lparr>tm_year := y\<rparr>
                      in if len = 8 \<or> len = 10 \<or> len = 12 then mk_fields front tm else Some (- 1, tm))))"

record 's rtc_ops =
  rtc_get :: "'s \<Rightarrow> int \<times> rtc_time \<times> 's"
  rtc_set :: "rtc_time \<Rightarrow> 's \<Rightarrow> int \<times> 's"
  rtc_reset :: "'s \<Rightarrow> 's"

text \<open>A date in a bad format leaves the switch at once, with the code 0.\<close>

definition do_date :: "'s rtc_ops \<Rightarrow> u8 list list \<Rightarrow> 's \<Rightarrow> (int \<times> 's) option" where
  "do_date rtc argv s =
     (let show = (\<lambda>s. let (rcode, _, s) = rtc_get rtc s in (rcode, s))
      in if length argv = 2
         then if argv ! 1 = [0x72, 0x65, 0x73, 0x65, 0x74] then Some (show (rtc_reset rtc s))
              else (let (rcode, tm, s) = rtc_get rtc s
                    in if rcode \<noteq> 0 then Some (show s)
                       else do {
                         (r, tm) \<leftarrow> mk_date (argv ! 1) tm;
                         if r \<noteq> 0 then Some (0, s)
                         else Some (show (snd (rtc_set rtc tm s)))
                       })
         else if length argv = 1 then Some (show s)
         else Some (1, s))"

section \<open>Seconds and dates\<close>

lemma sdiv_pos: "0 \<le> a \<Longrightarrow> 0 < b \<Longrightarrow> a sdiv b = a div b" "0 \<le> a \<Longrightarrow> 0 < b \<Longrightarrow> a smod b = a mod b" for a b :: int
  by (cases "a = 0"; simp add: signed_divide_int_def signed_modulo_int_def)+

text \<open>The number of days from the beginning of 1970 to that of a year; the days of the months before a month.\<close>

definition days_before :: "int \<Rightarrow> int" where
  "days_before y = 365 * (y - 1970) + ((y - 1) div 4 - 492)"

definition month_start :: "bool \<Rightarrow> nat \<Rightarrow> int" where
  "month_start leap m = MonthOffset ! (m - 1) + (if leap \<and> 2 < m then 1 else 0)"

definition month_length :: "bool \<Rightarrow> nat \<Rightarrow> int" where
  "month_length leap m = (if leap \<and> m = 2 then 29 else month_days ! (m - 1))"

lemma days_before_Suc:
  assumes "0 \<le> y"
  shows "days_before (y + 1) = days_before y + days_in_year y"
proof -
  have "y div 4 = (y - 1) div 4 + (if y mod 4 = 0 then 1 else 0)" by presburger
  then show ?thesis using assms by (simp add: days_before_def days_in_year_def leapyear_def sdiv_pos)
qed

lemma year_loop_spec:
  assumes "year_loop day i = (d, y)" "0 \<le> i" "0 \<le> day"
  shows "i \<le> y \<and> 0 \<le> d \<and> d < days_in_year y \<and> days_before y + d = days_before i + day"
  using assms
proof (induction day i rule: year_loop.induct)
  case (1 day i)
  show ?case
  proof (cases "days_in_year i \<le> day")
    case True
    then have "year_loop (day - days_in_year i) (i + 1) = (d, y)"
      using "1.prems"(1) by (subst (asm) year_loop.simps) simp
    from "1.IH" [OF True this] True "1.prems" show ?thesis by (simp add: days_before_Suc)
  next
    case False
    then show ?thesis using "1.prems" by (subst (asm) year_loop.simps) simp
  qed
qed

lemma month_cases:
  assumes "1 \<le> m" "m \<le> (12 :: nat)"
  shows "m \<in> {1, 2, 3, 4, 5, 6, 7, 8, 9, 10, 11, 12}"
  using assms by (simp, presburger)

lemma month_loop_spec:
  assumes "0 \<le> day" "day < (if leap then 366 else 365)"
  shows "\<exists>m d. month_loop (if leap then month_days[1 := 29] else month_days) day 1 = Some (d, m) \<and>
    1 \<le> m \<and> m \<le> 12 \<and> 0 \<le> d \<and> d < month_length leap m \<and> day = month_start leap m + d"
proof -
  have step: "month_loop days day i = (if days ! (i - 1) \<le> day then month_loop days (day - days ! (i - 1)) (i + 1) else Some (day, i))"
    if "i - 1 < length days" for days day i
    using that by (subst month_loop.simps) simp
  show ?thesis
    using assms
    by (cases leap) (simp_all add: step month_days_def month_length_def month_start_def MonthOffset_def)
qed

text \<open>A date of the years in which \<^verbatim>\<open>leapyear\<close> is right, and its number of seconds.\<close>

definition leap :: "rtc_time \<Rightarrow> bool" where
  "leap tm \<longleftrightarrow> tm_year tm mod 4 = 0"

definition date_ok :: "rtc_time \<Rightarrow> bool" where
  "date_ok tm \<longleftrightarrow> 1970 \<le> tm_year tm \<and> tm_year tm \<le> 2099 \<and> 1 \<le> tm_mon tm \<and> tm_mon tm \<le> 12 \<and>
     1 \<le> tm_mday tm \<and> tm_mday tm \<le> month_length (leap tm) (nat (tm_mon tm)) \<and>
     0 \<le> tm_hour tm \<and> tm_hour tm \<le> 23 \<and> 0 \<le> tm_min tm \<and> tm_min tm \<le> 59 \<and> 0 \<le> tm_sec tm \<and> tm_sec tm \<le> 59"

definition date_days :: "rtc_time \<Rightarrow> int" where
  "date_days tm = days_before (tm_year tm) + month_start (leap tm) (nat (tm_mon tm)) + tm_mday tm - 1"

definition date_seconds :: "rtc_time \<Rightarrow> int" where
  "date_seconds tm = date_days tm * 86400 + tm_hour tm * 3600 + tm_min tm * 60 + tm_sec tm"

lemma div_mod_split: "0 \<le> r \<Longrightarrow> r < n \<Longrightarrow> (q * n + r) div n = q \<and> (q * n + r) mod n = r" for q n r :: int
  by simp

lemma date_fields:
  assumes "date_ok tm"
  shows "date_seconds tm div 86400 = date_days tm" "date_seconds tm mod 86400 = tm_hour tm * 3600 + tm_min tm * 60 + tm_sec tm"
  using div_mod_split [of "tm_hour tm * 3600 + tm_min tm * 60 + tm_sec tm" 86400 "date_days tm"] assms
  by (auto simp: date_ok_def date_seconds_def add.assoc)

lemma days_before_mono: "y \<le> z \<Longrightarrow> days_before y \<le> days_before z"
  using zdiv_mono1 [of "y - 1" "z - 1" 4] by (simp add: days_before_def)

lemma year_unique:
  assumes "days_before y + k = days_before z + j" "0 \<le> y" "0 \<le> z" "0 \<le> k" "k < days_in_year y" "0 \<le> j" "j < days_in_year z"
  shows "y = z"
proof (rule ccontr)
  assume "y \<noteq> z"
  then consider "y + 1 \<le> z" | "z + 1 \<le> y" by linarith
  then show False
    using days_before_mono [of "y + 1" z] days_before_mono [of "z + 1" y] assms by cases (simp_all add: days_before_Suc)
qed

lemma month_bounds:
  assumes "1 \<le> m" "m \<le> 12" "1 \<le> d" "d \<le> month_length lp m"
  shows "0 \<le> month_start lp m + d - 1" "month_start lp m + d - 1 < (if lp then 366 else 365)"
  using assms month_cases [OF assms(1,2)]
  by (auto simp: month_start_def month_length_def MonthOffset_def month_days_def split: if_splits)

lemma month_step:
  assumes "1 \<le> m" "m < 12"
  shows "month_start lp (m + 1) = month_start lp m + month_length lp m"
  using month_cases [of m] assms by (auto simp: month_start_def month_length_def MonthOffset_def month_days_def)

lemma month_mono:
  assumes "1 \<le> m" "m < n" "n \<le> 12"
  shows "month_start lp m + month_length lp m \<le> month_start lp n"
  using assms(2,3)
proof (induction n)
  case (Suc n)
  show ?case
  proof (cases "m = n")
    case True
    then show ?thesis using month_step [of m lp] assms(1) Suc.prems by simp
  next
    case False
    have "0 \<le> month_length lp n" using month_cases [of n] Suc.prems assms(1)
      by (auto simp: month_length_def month_days_def)
    then show ?thesis using Suc False month_step [of n lp] assms(1) by simp
  qed
qed simp

lemma month_unique:
  assumes "month_start lp m + d = month_start lp n + e" "1 \<le> m" "m \<le> 12" "1 \<le> n" "n \<le> 12"
    "1 \<le> d" "d \<le> month_length lp m" "1 \<le> e" "e \<le> month_length lp n"
  shows "m = n"
proof (rule ccontr)
  assume "m \<noteq> n"
  then consider "m < n" | "n < m" by linarith
  then show False
    using month_mono [of m n lp] month_mono [of n m lp] assms by cases auto
qed

lemma date_unique:
  assumes "date_ok s" "date_ok t" "date_seconds s = date_seconds t"
  shows "tm_sec s = tm_sec t \<and> tm_min s = tm_min t \<and> tm_hour s = tm_hour t \<and> tm_mday s = tm_mday t \<and> tm_mon s = tm_mon t \<and>
    tm_year s = tm_year t"
proof -
  have days: "date_days s = date_days t" using date_fields assms by metis
  have hms: "tm_hour s * 3600 + tm_min s * 60 + tm_sec s = tm_hour t * 3600 + tm_min t * 60 + tm_sec t"
    using date_fields assms by metis
  moreover have r: "0 \<le> tm_hour u" "0 \<le> tm_min u" "tm_min u \<le> 59" "0 \<le> tm_sec u" "tm_sec u \<le> 59" if "date_ok u" for u
    using that by (auto simp: date_ok_def)
  note r [OF assms(1)] r [OF assms(2)]
  ultimately have hours: "tm_hour s = tm_hour t" by linarith
  then have ms: "tm_min s * 60 + tm_sec s = tm_min t * 60 + tm_sec t" using hms by simp
  then have "tm_min s = tm_min t" using r [OF assms(1)] r [OF assms(2)] by linarith
  with hours ms have "tm_hour s = tm_hour t" "tm_min s = tm_min t" "tm_sec s = tm_sec t" by simp_all
  moreover have inyear: "0 \<le> month_start (leap u) (nat (tm_mon u)) + tm_mday u - 1 \<and>
      month_start (leap u) (nat (tm_mon u)) + tm_mday u - 1 < days_in_year (tm_year u) \<and> 0 \<le> tm_year u" if "date_ok u" for u
    using month_bounds [of "nat (tm_mon u)" "tm_mday u" "leap u"] that
    by (auto simp: date_ok_def days_in_year_def leapyear_def leap_def sdiv_pos)
  have year: "tm_year s = tm_year t"
    using year_unique [of "tm_year s" _ "tm_year t"] days inyear [OF assms(1)] inyear [OF assms(2)]
    unfolding date_days_def by (metis add.assoc add_diff_eq)
  then have "leap s = leap t" by (simp add: leap_def)
  moreover from this have "nat (tm_mon s) = nat (tm_mon t)"
    using month_unique [of "leap s" "nat (tm_mon s)" "tm_mday s" "nat (tm_mon t)" "tm_mday t"] assms(1,2) days year
    by (auto simp: date_ok_def date_days_def)
  ultimately show ?thesis using assms(1,2) days year by (auto simp: date_ok_def date_days_def)
qed

lemma centuries:
  assumes "1970 \<le> y" "y \<le> (2099 :: int)"
  shows "(y - 1) div 400 = (y - 1) div 100 - 15"
proof (cases "y \<le> 2000")
  case True
  then have "(y - 1) div 100 = 19" "(y - 1) div 400 = 4" using assms by (intro int_div_pos_eq [where r = "y - 1901"] int_div_pos_eq [where r = "y - 1601"]; simp)+
  then show ?thesis by simp
next
  case False
  then have "(y - 1) div 100 = 20" "(y - 1) div 400 = 5" using assms by (intro int_div_pos_eq [where r = "y - 2001"]; simp)+
  then show ?thesis by simp
qed

lemma century_leap:
  assumes "1970 \<le> y" "y \<le> (2099 :: int)"
  shows "y mod 100 \<noteq> 0 \<or> y mod 400 = 0"
proof (rule disjCI)
  assume "\<not> y mod 400 = 0"
  show "y mod 100 \<noteq> 0"
  proof
    assume "y mod 100 = 0"
    then obtain k where k: "y = 100 * k" by (auto elim: dvdE)
    then have "k = 20" using assms by linarith
    with k \<open>\<not> y mod 400 = 0\<close> show False by simp
  qed
qed

lemma weekday:
  assumes "date_ok tm"
  shows "GregorianDay tm = Some (tm\<lparr>tm_wday := (date_days tm + 4) mod 7\<rparr>)"
proof -
  let ?y = "tm_year tm" and ?m = "nat (tm_mon tm)"
  have y: "1970 \<le> ?y" "?y \<le> 2099" and m: "1 \<le> ?m" "?m \<le> 12" "tm_mon tm = int ?m" and d: "1 \<le> tm_mday tm"
    using assms by (auto simp: date_ok_def)
  have c: "(?y - 1) div 400 = (?y - 1) div 100 - 15" by (rule centuries [OF y])
  have gap: "?y mod 4 = 0 \<Longrightarrow> ?y mod 100 \<noteq> 0 \<or> ?y mod 400 = 0" by (rule century_leap [OF y])
  have pos: "0 \<le> ?y" "0 \<le> ?y - 1" using y by simp_all
  have off: "rd MonthOffset (nat (tm_mon tm - 1)) = Some (MonthOffset ! (?m - 1))"
    using m by (simp add: MonthOffset_def nat_diff_distrib)
  define D where "D = (if leap tm \<and> 2 < ?m then 1 else 0) + (?y - 1) * 365 + ((?y - 1) div 4 - 15) + MonthOffset ! (?m - 1) + tm_mday tm"
  have leap: "(?y smod 4 = 0 \<and> (?y smod 100 \<noteq> 0 \<or> ?y smod 400 = 0) \<and> tm_mon tm > 2) = (leap tm \<and> 2 < ?m)"
    unfolding leap_def sdiv_pos(2) [OF pos(1) zero_less_numeral] using gap m(3) by linarith
  have leaps: "(?y - 1) sdiv 4 - (?y - 1) sdiv 100 + (?y - 1) sdiv 400 = (?y - 1) div 4 - 15"
    unfolding sdiv_pos(1) [OF pos(2) zero_less_numeral] c by simp
  have "GregorianDay tm = Some (tm\<lparr>tm_wday := D smod 7\<rparr>)"
    unfolding GregorianDay_def Let_def leap leaps off bind.bind_lunit D_def using m by simp
  moreover have D: "D = date_days tm + 719163"
    by (simp add: D_def date_days_def days_before_def month_start_def)
  moreover have "0 \<le> date_days tm"
    using days_before_mono [OF y(1)] month_bounds [OF m(1,2) d, of "leap tm"] assms
    by (auto simp: date_days_def date_ok_def days_before_def)
  moreover have "(date_days tm + 719163) mod 7 = (date_days tm + 4) mod 7" by presburger
  ultimately show ?thesis by (simp add: sdiv_pos)
qed

lemma to_tm_date:
  assumes "0 \<le> tim" "tim < 2 ^ 31"
  obtains t where "to_tm tim tm = Some t" "date_ok t" "date_seconds t = tim" "tm_wday t = (tim div 86400 + 4) mod 7"
    "tm_year t \<le> 2038"
proof -
  let ?day = "tim div 86400" and ?hms = "tim mod 86400"
  obtain d y where yl: "year_loop ?day 1970 = (d, y)" by fastforce
  have year: "1970 \<le> y" "0 \<le> d" "d < days_in_year y" "days_before y + d = ?day"
    using year_loop_spec [OF yl] assms(1) by (auto simp: days_before_def pos_imp_zdiv_nonneg_iff)
  have "?day \<le> 24855" using assms(2) by simp
  have y2: "y \<le> 2038"
  proof (rule ccontr)
    assume "\<not> y \<le> 2038"
    then have "days_before 2039 \<le> days_before y" by (intro days_before_mono) simp
    then show False using year(2,4) \<open>?day \<le> 24855\<close> by (simp add: days_before_def)
  qed
  let ?lp = "y mod 4 = 0"
  have lp: "leapyear y = ?lp" using year(1) by (simp add: leapyear_def sdiv_pos)
  obtain m e where ml: "month_loop (if ?lp then month_days[1 := 29] else month_days) d 1 = Some (e, m)"
    "1 \<le> m" "m \<le> 12" "0 \<le> e" "e < month_length ?lp m" "d = month_start ?lp m + e"
    using month_loop_spec [of d ?lp] year(2,3) unfolding days_in_year_def lp by blast
  define hh mm ss where "hh = ?hms div 3600" and "mm = ?hms mod 3600 div 60" and "ss = ?hms mod 3600 mod 60"
  have hms: "0 \<le> ?hms" "?hms < 86400" by simp_all
  have "0 \<le> hh" "hh \<le> 23" using hms unfolding hh_def mm_def ss_def by simp_all
  moreover have "0 \<le> mm" "mm \<le> 59" "0 \<le> ss" "ss \<le> 59"
    using pos_mod_bound [of 3600 ?hms] pos_mod_bound [of 60 "?hms mod 3600"] unfolding hh_def mm_def ss_def by simp_all
  ultimately have bounds: "0 \<le> hh \<and> hh \<le> 23 \<and> 0 \<le> mm \<and> mm \<le> 59 \<and> 0 \<le> ss \<and> ss \<le> 59" by blast
  have "hh * 3600 + ?hms mod 3600 = ?hms" "mm * 60 + ss = ?hms mod 3600" "?day * 86400 + ?hms = tim"
    unfolding hh_def mm_def ss_def by (rule div_mult_mod_eq)+
  then have total: "?day * 86400 + hh * 3600 + mm * 60 + ss = tim" by linarith
  define t where "t = tm\<lparr>tm_hour := hh, tm_min := mm, tm_sec := ss, tm_year := y, tm_mon := int m, tm_mday := e + 1\<rparr>"
  have ok: "date_ok t"
    using year(1) y2 ml(2-5) bounds by (simp add: t_def date_ok_def leap_def)
  have days: "date_days t = ?day"
    using ml(6) year(4) by (simp add: t_def date_days_def leap_def)
  have secs: "date_seconds t = tim"
    using total unfolding date_seconds_def days by (simp add: t_def)
  have c: "tim sdiv 86400 = ?day" "tim smod 86400 = ?hms" "?hms sdiv 3600 = ?hms div 3600"
    "?hms smod 3600 = ?hms mod 3600" "(?hms mod 3600) sdiv 60 = ?hms mod 3600 div 60" "(?hms mod 3600) smod 60 = ?hms mod 3600 mod 60"
    using assms(1) by (simp_all add: sdiv_pos)
  have "to_tm tim tm = GregorianDay t"
    unfolding to_tm_def SECDAY_def STARTOFTIME_def Let_def c yl prod.case
    using ml(1) lp by (cases ?lp) (simp_all add: t_def hh_def mm_def ss_def)
  moreover define u where "u = t\<lparr>tm_wday := (date_days t + 4) mod 7\<rparr>"
  ultimately have "to_tm tim tm = Some u" using weekday [OF ok] by simp
  moreover have "date_ok u = date_ok t" "date_seconds u = date_seconds t"
    by (simp_all add: u_def date_ok_def date_seconds_def date_days_def leap_def)
  moreover have "tm_wday u = (tim div 86400 + 4) mod 7" "tm_year u = y"
    by (simp add: u_def days) (simp add: u_def t_def)
  ultimately show ?thesis using ok secs y2 that [of u] by metis
qed

lemma word_of_int_div:
  assumes "0 \<le> a" "a < 2 ^ 32" "0 \<le> b" "b < 2 ^ 32"
  shows "(of_int a :: u32) div of_int b = of_int (a div b)"
proof -
  have "uint ((of_int a :: u32) div of_int b) = a div b"
    using assms by (simp add: uint_div uint_word_of_int take_bit_int_eq_self)
  moreover have "a div b \<le> a" by (cases "b = 0") (use zdiv_mono2 [of a 1 b] assms in simp_all)
  moreover have "0 \<le> a div b" using assms by (simp add: div_int_pos_iff)
  ultimately have "uint ((of_int a :: u32) div of_int b) = uint (of_int (a div b) :: u32)"
    using assms(2) by (simp add: uint_word_of_int take_bit_int_eq_self)
  then show ?thesis by (simp only: word_uint_eq_iff)
qed

text \<open>The formula counts from March: the months before are 367 / 12 days each.\<close>

lemma mktime_days:
  assumes "date_ok tm"
  shows "mktime (of_int (tm_year tm)) (of_int (tm_mon tm)) (of_int (tm_mday tm)) (of_int (tm_hour tm)) (of_int (tm_min tm))
    (of_int (tm_sec tm)) = of_int (date_seconds tm)"
proof -
  let ?y = "tm_year tm"
  define m where "m = nat (tm_mon tm)"
  define Y where "Y = (if m \<le> 2 then ?y - 1 else ?y)"
  define M where "M = (if m \<le> 2 then int m + 10 else int m - 2)"
  have y: "1970 \<le> ?y" "?y \<le> 2099" and m: "1 \<le> m" "m \<le> 12" "tm_mon tm = int m"
    using assms by (auto simp: date_ok_def m_def)
  have Y: "1969 \<le> Y" "Y \<le> 2099" using y by (simp_all add: Y_def)
  have M: "1 \<le> M" "M \<le> 12" using m by (simp_all add: M_def)
  have word: "(let mon = of_int (tm_mon tm) - 2 :: u32
      in if 0 \<ge> sint mon then (mon + 12, of_int ?y - 1) else (mon, of_int ?y :: u32)) = (of_int M, of_int Y)"
    unfolding m(3) M_def Y_def using month_cases [OF m(1,2)] by (elim insertE; simp)
  have div4: "(of_int Y :: u32) div 4 = of_int (Y div 4)" "(of_int Y :: u32) div 100 = of_int (Y div 100)"
    "(of_int Y :: u32) div 400 = of_int (Y div 400)"
    using word_of_int_div [of Y 4] word_of_int_div [of Y 100] word_of_int_div [of Y 400] Y by simp_all
  have div12: "(367 * of_int M :: u32) div 12 = of_int (367 * M div 12)"
    using word_of_int_div [of "367 * M" 12] M by simp
  have cent: "Y div 400 = Y div 100 - 15"
  proof (cases "Y \<le> 2098")
    case True
    then show ?thesis using centuries [of "Y + 1"] Y(1) by simp
  next
    case False
    then have "Y = 2099" using Y(2) by linarith
    then show ?thesis by simp
  qed
  have q: "?y div 4 = (?y - 1) div 4 + (if ?y mod 4 = 0 then 1 else 0)" by presburger
  have "Y div 4 - Y div 100 + Y div 400 + 367 * M div 12 + tm_mday tm + Y * 365 - 719499 = date_days tm"
    unfolding cent unfolding m_def [symmetric] date_days_def days_before_def month_start_def leap_def M_def Y_def
    using month_cases [OF m(1,2)] by (elim insertE; simp add: MonthOffset_def q)
  then have "(of_int (date_days tm) :: u32) =
      of_int Y div 4 - of_int Y div 100 + of_int Y div 400 + 367 * of_int M div 12 + of_int (tm_mday tm) + of_int Y * 365 - 719499"
    unfolding div4 div12 by (metis (no_types, lifting) of_int_add of_int_diff of_int_mult of_int_numeral)
  then show ?thesis
    unfolding mktime_def Let_def [where s = "of_int (tm_mon tm) - 2 :: u32"]
    using word by (simp add: Let_def date_seconds_def)
qed

section \<open>Dates that are typed\<close>

definition two :: "int \<Rightarrow> u8 list" where
  "two n = [of_int (48 + n div 10), of_int (48 + n mod 10)]"

definition date_text :: "rtc_time \<Rightarrow> u8 list" where
  "date_text t = two (tm_mon t) @ two (tm_mday t) @ two (tm_hour t) @ two (tm_min t) @ two (tm_year t div 100)
     @ two (tm_year t mod 100) @ 0x2e # two (tm_sec t)"

lemma digit_byte:
  assumes "0 \<le> x" "x \<le> (9 :: int)"
  shows "is_digit (of_int (48 + x)) \<and> (of_int (48 + x) :: u8) \<noteq> 0x2e \<and> int (unat (of_int (48 + x) :: u8)) - 48 = x"
proof -
  have "x \<in> {0, 1, 2, 3, 4, 5, 6, 7, 8, 9}" using assms by (simp, presburger)
  then show ?thesis by (elim insertE; simp add: is_digit_def)
qed

lemma two_digits:
  assumes "0 \<le> n" "n \<le> 99"
  shows "cnvrt2 (two n @ rest) = Some n" "0x2e \<notin> set (two n)"
proof -
  have q: "0 \<le> n div 10" "n div 10 \<le> 9" "0 \<le> n mod 10" "n mod 10 \<le> 9" using assms by simp_all
  note d = digit_byte [OF q(1,2)] digit_byte [OF q(3,4)]
  have "cnvrt2 (two n @ rest) = Some (10 * (n div 10) + n mod 10)"
    unfolding cnvrt2_def two_def append_Cons append_Nil deref_simps list.sel using d by presburger
  also have "10 * (n div 10) + n mod 10 = n" by (rule mult_div_mod_eq)
  finally show "cnvrt2 (two n @ rest) = Some n" .
  show "0x2e \<notin> set (two n)" unfolding two_def using d by (metis empty_iff insert_iff list.set)
qed

lemma month_length_le:
  assumes "1 \<le> m" "m \<le> 12"
  shows "month_length lp m \<le> (if m = 2 then 29 else 31)"
  using month_cases [OF assms] by (elim insertE; simp add: month_length_def month_days_def)

lemma two_length [simp]: "length (two n) = 2"
  by (simp add: two_def)

lemma drop_two [simp]: "drop (Suc (Suc k)) (two n @ rest) = drop k rest"
  by (simp add: two_def)

lemma mk_date_text:
  assumes "date_ok t"
  shows "mk_date (date_text t) u = Some (0, u\<lparr>tm_sec := tm_sec t, tm_year := tm_year t, tm_mon := tm_mon t,
    tm_mday := tm_mday t, tm_hour := tm_hour t, tm_min := tm_min t, tm_wday := (date_days t + 4) mod 7\<rparr>)"
proof -
  have b: "1970 \<le> tm_year t" "tm_year t \<le> 2099" "1 \<le> tm_mon t" "tm_mon t \<le> 12" "1 \<le> tm_mday t"
    "tm_mday t \<le> month_length (leap t) (nat (tm_mon t))"
    "0 \<le> tm_hour t" "tm_hour t \<le> 23" "0 \<le> tm_min t" "tm_min t \<le> 59" "0 \<le> tm_sec t" "tm_sec t \<le> 59"
    using assms by (auto simp: date_ok_def)
  have y: "0 \<le> tm_year t div 100" "tm_year t div 100 \<le> 99" "0 \<le> tm_year t mod 100" "tm_year t mod 100 \<le> 99"
    "100 * (tm_year t div 100) + tm_year t mod 100 = tm_year t"
    using b(1,2) by simp_all
  have day: "tm_mday t \<le> (if tm_mon t = 2 then 29 else 31)"
  proof -
    have "1 \<le> nat (tm_mon t)" "nat (tm_mon t) \<le> 12" using b(3,4) by linarith+
    from month_length_le [OF this, of "leap t"] show ?thesis using b(3,6) by (auto split: if_splits)
  qed
  let ?front = "two (tm_mon t) @ two (tm_mday t) @ two (tm_hour t) @ two (tm_min t) @ two (tm_year t div 100) @ two (tm_year t mod 100)"
  have nodot: "0x2e \<notin> set ?front"
    using two_digits(2) b y day by (auto split: if_splits)
  have dt: "date_text t = ?front @ 0x2e # two (tm_sec t)" by (simp add: date_text_def)
  have front: "takeWhile (\<lambda>c. c \<noteq> 0x2e) (date_text t) = ?front"
    unfolding dt using nodot by (subst takeWhile_append2) auto
  have sec: "drop (length ?front + 1) (date_text t) = two (tm_sec t)"
    unfolding dt by simp
  define v where "v = u\<lparr>tm_sec := tm_sec t, tm_year := tm_year t, tm_mon := tm_mon t, tm_mday := tm_mday t, tm_hour := tm_hour t,
    tm_min := tm_min t\<rparr>"
  have ok: "date_ok v" using assms by (simp add: v_def date_ok_def leap_def)
  have days: "date_days v = date_days t" by (simp add: v_def date_days_def leap_def)
  have mon: "tm_mon t \<le> 99" "tm_mday t \<le> 99" "0 \<le> tm_mday t" "0 \<le> tm_mon t" using b day by (auto split: if_splits)
  have c: "cnvrt2 ?front = Some (tm_mon t)" "cnvrt2 (drop 2 ?front) = Some (tm_mday t)" "cnvrt2 (drop 4 ?front) = Some (tm_hour t)"
    "cnvrt2 (drop 6 ?front) = Some (tm_min t)" "cnvrt2 (drop 8 ?front) = Some (tm_year t div 100)"
    "cnvrt2 (drop 10 ?front) = Some (tm_year t mod 100)" "cnvrt2 (two (tm_sec t)) = Some (tm_sec t)"
    using two_digits(1) [of "tm_mon t"] two_digits(1) [of "tm_mday t"] two_digits(1) [of "tm_hour t"] two_digits(1) [of "tm_min t"]
      two_digits(1) [OF y(1,2)] two_digits(1) [OF y(3,4), of "[]"] two_digits(1) [of "tm_sec t" "[]"] mon b(7-12)
    by (simp_all add: numeral_eq_Suc)
  have "mk_fields ?front (u\<lparr>tm_sec := tm_sec t, tm_year := tm_year t\<rparr>) = map_option (\<lambda>tm. (0, tm)) (GregorianDay v)"
    unfolding mk_fields_def c option.case Let_def using b(4,8,10) day by (simp add: v_def)
  moreover have "length ?front = 12" by simp
  moreover have "0x2e \<in> set (date_text t)" "length (two (tm_sec t)) = 2" by (simp_all add: date_text_def)
  ultimately have "mk_date (date_text t) u = map_option (\<lambda>tm. (0, tm)) (GregorianDay v)"
    unfolding mk_date_def Let_def front sec using c y(5) by (simp del: length_append)
  then show ?thesis
    unfolding weekday [OF ok] days by (simp add: v_def)
qed

text \<open>C23:
  Every number of seconds a signed counter can hold (up to 2038) becomes a valid date with the right day of the week,
  \<^verbatim>\<open>mktime\<close> turns the date back into the number, and the date typed at the \<^verbatim>\<open>date\<close> command is read as
  exactly this date, also its day of the week.\<close>

theorem date_of_seconds:
  assumes "0 \<le> tim" "tim < 2 ^ 31"
  shows "\<exists>t. to_tm tim tm = Some t \<and> date_ok t \<and> tm_wday t = (tim div 86400 + 4) mod 7 \<and>
    mktime (of_int (tm_year t)) (of_int (tm_mon t)) (of_int (tm_mday t)) (of_int (tm_hour t)) (of_int (tm_min t)) (of_int (tm_sec t))
      = of_int tim \<and>
    mk_date (date_text t) u = Some (0, u\<lparr>tm_sec := tm_sec t, tm_year := tm_year t, tm_mon := tm_mon t, tm_mday := tm_mday t,
      tm_hour := tm_hour t, tm_min := tm_min t, tm_wday := tm_wday t\<rparr>)"
proof -
  obtain t where t: "to_tm tim tm = Some t" "date_ok t" "date_seconds t = tim" "tm_wday t = (tim div 86400 + 4) mod 7"
    by (rule to_tm_date [OF assms])
  then have "date_days t = tim div 86400" using date_fields(1) by metis
  then show ?thesis using t mktime_days [OF t(2)] mk_date_text [OF t(2), of u] by auto
qed

definition no_time :: rtc_time where
  "no_time = \<lparr>tm_sec = 0, tm_min = 0, tm_hour = 0, tm_mday = 0, tm_mon = 0, tm_year = 0, tm_wday = 0, tm_yday = 0, tm_isdst = 0\<rparr>"

theorem date_of_seconds_witness:
  "\<exists>t. to_tm 1000000000 no_time = Some t \<and> date_ok t \<and> tm_wday t = 0 \<and>
    mktime (of_int (tm_year t)) (of_int (tm_mon t)) (of_int (tm_mday t)) (of_int (tm_hour t)) (of_int (tm_min t)) (of_int (tm_sec t))
      = 1000000000"
  using date_of_seconds [of 1000000000 no_time no_time] by auto

text \<open>A month 00 is not refused, and the table of offsets is read before its beginning.\<close>

lemma month_zero: "mk_date [0x30, 0x30, 0x30, 0x31, 0x30, 0x30, 0x30, 0x30] tm = None"
  by (simp add: mk_date_def mk_fields_def cnvrt2_def is_digit_def GregorianDay_def Let_def)

end
