(* ===== verification/Spec2Isabelle.thy ===== *)
theory Spec2Isabelle
  imports Prelude Crc NandEcc Circbuf Div64 Lmb BlockHash Sha Md5 Vsprintf Env EnvStore CString LineEdit CmdParse Shell Complete
    Net Tftp NandUtil Ram Image Elf Bootm Script MemCmd Date
begin

text \<open>
  The boot loader in \<^verbatim>\<open>u-boot-2009.11\<close>, modelled as it is configured for the my2440 board: a 32-bit
  little-endian ARM where \<^verbatim>\<open>char\<close> is unsigned and \<^verbatim>\<open>int\<close>, \<^verbatim>\<open>long\<close> and pointers have 32 bits,
  with the options of \<^verbatim>\<open>include/configs/my2440.h\<close> (command line editing, completion, the simple
  command parser, the environment in NAND, a DM9000 network chip).

  \<^bold>\<open>The program.\<close>  After start-up the boot loader reads the environment from NAND
  (\<^verbatim>\<open>env_relocate_spec\<close>), counts down and runs \<^verbatim>\<open>bootcmd\<close>, or reads lines from the console.  A line is
  edited (\<^verbatim>\<open>cread_line\<close>) with completion, split at semicolons, has its variables replaced
  (\<^verbatim>\<open>process_macros\<close>), is cut into words (\<^verbatim>\<open>parse_line\<close>) and looked up (\<^verbatim>\<open>find_cmd\<close>); \<^verbatim>\<open>run\<close> and
  \<^verbatim>\<open>bootd\<close> go back to the interpreter with the value of a variable.  Commands load data over the network
  (frames, ARP and IP, the TFTP client on top) or from NAND around its bad blocks with an error
  correcting code per half page, store the environment back, check an image by its checksums and
  start what is in it (\<^verbatim>\<open>bootm\<close>, \<^verbatim>\<open>bootelf\<close>).  Below them are the C library and the allocator of memory regions.

  \<^bold>\<open>Theories.\<close>
  \<^item> \<^verbatim>\<open>Prelude\<close>: the machine types, C arrays as lists with checked access (\<^verbatim>\<open>None\<close> is an access outside
    the array, which C leaves undefined), and the lemma collections for the option monad.
  \<^item> \<^verbatim>\<open>Crc\<close>: \<^verbatim>\<open>lib_generic/crc32.c\<close>, \<^verbatim>\<open>crc16.c\<close>.  The tables are the ones the generator builds, the
    unrolled and watchdog loops with their complements compute the bitwise shift register, a burst of up to 32 bits is seen.
  \<^item> \<^verbatim>\<open>NandEcc\<close>: \<^verbatim>\<open>drivers/mtd/nand/nand_ecc.c\<close>.  One wrong bit of data or code is repaired, two are
    reported.
  \<^item> \<^verbatim>\<open>NandUtil\<close>: the bad block skipping of \<^verbatim>\<open>drivers/mtd/nand/nand_util.c\<close> over a driver that programs by
    clearing bits; what is written into erased good blocks is read back.
  \<^item> \<^verbatim>\<open>Circbuf\<close>, \<^verbatim>\<open>Div64\<close>: \<^verbatim>\<open>lib_generic/circbuf.c\<close> and \<^verbatim>\<open>div64.c\<close>.  The ring is an abstract queue
    that forgets its oldest bytes; the shift-and-subtract loop divides.
  \<^item> \<^verbatim>\<open>Lmb\<close>: \<^verbatim>\<open>lib_generic/lmb.c\<close>.  The table as the set of addresses it covers; reserving adds a range,
    an allocation is aligned, inside memory and free.
  \<^item> \<^verbatim>\<open>BlockHash\<close>, \<^verbatim>\<open>Sha\<close>, \<^verbatim>\<open>Md5\<close>: \<^verbatim>\<open>lib_generic/sha1.c\<close>, \<^verbatim>\<open>sha256.c\<close>, \<^verbatim>\<open>md5.c\<close>.  The digest of a message
    does not depend on the pieces it was given in, and is the padded Merkle-Damgard iteration.
  \<^item> \<^verbatim>\<open>CString\<close>: \<^verbatim>\<open>lib_generic/string.c\<close> over one byte memory in which pointers are indices.
  \<^item> \<^verbatim>\<open>Vsprintf\<close>: \<^verbatim>\<open>lib_generic/vsprintf.c\<close>, \<^verbatim>\<open>ctype.c\<close>.  Printing and parsing of numbers of 32 bits (the board
    widens them to \<^verbatim>\<open>long long\<close> first, which makes the same digits).
  \<^item> \<^verbatim>\<open>Env\<close>, \<^verbatim>\<open>EnvStore\<close>: \<^verbatim>\<open>common/cmd_nvedit.c\<close>, \<^verbatim>\<open>env_common.c\<close>, \<^verbatim>\<open>env_nand.c\<close>.  The packed byte array
    as a finite map; \<^verbatim>\<open>setenv\<close> is an update of that map on every branch; what \<^verbatim>\<open>saveenv\<close> erases and
    writes (\<^verbatim>\<open>nand_erase_opts\<close> of \<^verbatim>\<open>nand_util.c\<close> included) is what the next start reads.
  \<^item> \<^verbatim>\<open>LineEdit\<close>, \<^verbatim>\<open>Complete\<close>: the editor of \<^verbatim>\<open>common/main.c\<close> as a list with a cursor, its history ring,
    and the completion of \<^verbatim>\<open>common/command.c\<close>, whose accesses outside its strings are accesses of the editor.
    The safety of the editor needs a limit below the size of its buffer; the board's limit is that size.
  \<^item> \<^verbatim>\<open>CmdParse\<close>, \<^verbatim>\<open>Shell\<close>: macros, words, the command table, \<^verbatim>\<open>run_command\<close>, the countdown and
    \<^verbatim>\<open>main_loop\<close>.
  \<^item> \<^verbatim>\<open>Net\<close>, \<^verbatim>\<open>Tftp\<close>: \<^verbatim>\<open>net/net.c\<close> up to the UDP handlers and \<^verbatim>\<open>net/tftp.c\<close> with the timer of the loop.
  \<^item> \<^verbatim>\<open>Ram\<close>: the memory of the board as a partial function from addresses; an access to an address that
    is not there is \<^verbatim>\<open>None\<close>.
  \<^item> \<^verbatim>\<open>Image\<close>: the image format of \<^verbatim>\<open>include/image.h\<close> and \<^verbatim>\<open>common/image.c\<close>, and \<^verbatim>\<open>tools/mkimage.c\<close> that writes it.
    What is written is accepted, its files are found, a damaged payload is refused.
  \<^item> \<^verbatim>\<open>Elf\<close>: \<^verbatim>\<open>common/cmd_elf.c\<close>.  The sections end up at their addresses and nothing else changes.
  \<^item> \<^verbatim>\<open>Bootm\<close>: \<^verbatim>\<open>common/cmd_bootm.c\<close>, \<^verbatim>\<open>lib_arm/bootm.c\<close>, the header of \<^verbatim>\<open>lib_generic/gunzip.c\<close>.  A kernel that
    \<^verbatim>\<open>mkimage\<close> packed is entered with its payload in place and the list of tags; the sub-commands take effect in one order, each once.
  \<^item> \<^verbatim>\<open>Script\<close>: \<^verbatim>\<open>common/cmd_source.c\<close>, \<^verbatim>\<open>cmd_ximg.c\<close>.  A packed script means its lines, and these mean
    their commands; what every command line keeps, scripts keep too.  For any command table with the environment
    commands, \<^verbatim>\<open>source\<close> and others that leave the environment well formed it is so at every prompt.
  \<^item> \<^verbatim>\<open>MemCmd\<close>: \<^verbatim>\<open>common/cmd_mem.c\<close>, \<^verbatim>\<open>cmd_itest.c\<close>, \<^verbatim>\<open>print_buffer\<close> of \<^verbatim>\<open>display_options.c\<close>.  A copy compares as
    equal; the memory test, over memory with faults, finds every stuck bit and every shared cell.
  \<^item> \<^verbatim>\<open>Date\<close>: \<^verbatim>\<open>drivers/rtc/date.c\<close>, \<^verbatim>\<open>common/cmd_date.c\<close> over a clock chip that is a parameter.  Seconds
    become dates and dates become seconds; a date that is typed is read as itself.
  \<^item> this theory: properties that need several of them.

  \<^bold>\<open>State.\<close>  A \<^verbatim>\<open>struct\<close> or the static variables of a file are a \<^verbatim>\<open>record\<close> with the fields of the
  source that is passed in and returned: \<^verbatim>\<open>net\<close> for the globals of \<^verbatim>\<open>net.c\<close>, \<^verbatim>\<open>tftp\<close> for those of
  \<^verbatim>\<open>tftp.c\<close>, the history ring and the line for the editor, \<^verbatim>\<open>lmb_region\<close> for a table of blocks.  The
  environment is its byte array.  A buffer has the size of the source, so that running over its end is
  \<^verbatim>\<open>None\<close>; the safety properties say that the result is \<^verbatim>\<open>Some\<close>, the error properties which inputs
  make it \<^verbatim>\<open>None\<close>.  Values are words of the width of the source, and \<^verbatim>\<open>int\<close> only where a signed
  quantity provably stays small.

  \<^bold>\<open>Parameters.\<close>  The console is the list of bytes typed or the answers of its polls; the NAND chip
  is a set of driver operations; the network is a list of events (a packet, a tick of the timer);
  \<^verbatim>\<open>malloc\<close> is its answer; the inflate decoder is a function of the memory; entering a loaded program is the result of
  a command; the commands other than \<^verbatim>\<open>run\<close> and \<^verbatim>\<open>boot\<close> are a function of state and
  arguments, instantiated with the environment commands, \<^verbatim>\<open>saveenv\<close> and \<^verbatim>\<open>source\<close> next to a parameter for all
  others.  The command table is an argument: the board's own table is collected by the linker and is not written
  out here.  What is asked of a parameter is the
  \<^verbatim>\<open>assumes\<close> of a locale (\<^verbatim>\<open>block_hash\<close>, \<^verbatim>\<open>byte_queue\<close>, \<^verbatim>\<open>completion\<close>, \<^verbatim>\<open>running_sum\<close>, \<^verbatim>\<open>command_set\<close>,
  \<^verbatim>\<open>session\<close>, \<^verbatim>\<open>total_commands\<close>, each interpreted on the model) or a named predicate in the statement.

  \<^bold>\<open>Loops.\<close>  A loop over an array recurses on it.  A loop that a caller could make run for ever (a scan for a
  terminator, skipping bad blocks, the commands of a variable that names itself) is a
  \<^verbatim>\<open>partial_function (option)\<close>, where \<^verbatim>\<open>None\<close> covers not returning, or takes a bound: the first argument of
  \<^verbatim>\<open>run_command\<close> is the depth of \<^verbatim>\<open>run\<close> inside \<^verbatim>\<open>run\<close>, for which the C stack is the limit, and
  \<^verbatim>\<open>run_command_returns\<close> says which depth is enough.  Every such loop has a theorem that it returns.

  \<^bold>\<open>Not modelled.\<close>  Start-up code, drivers and everything that is register accesses; the file systems,
  the compression libraries, \<^verbatim>\<open>libfdt\<close>, UBI, the MTD core and \<^verbatim>\<open>dlmalloc.c\<close>, which are other projects'
  code; the hush parser, which the board does not configure; FIT images and the device tree, which it does not
  configure either; console texts, where the model keeps only what later code depends on; the network
  clients other than TFTP; the USB stacks.
\<close>

section \<open>From the wire to the TFTP client\<close>

text \<open>C33:
  A UDP length below 8, which the checksum does not cover and the receiver does not compare with
  the size of the frame, is handed to the TFTP client as almost four gigabytes: a data packet makes
  it copy from behind the receive buffer exactly when it carries a new block, block 1 as the first
  one or any number but the last one later; a wrong first block or a repeated one copies nothing.
\<close>

theorem short_udp_length_overruns_tftp:
  assumes "length rx = PKTSIZE_ALIGN" "28 \<le> len" "len \<le> int PKTSIZE_ALIGN"
    and header: "rd rx ip = Some 0x45" "rd_net16 rx (ip + 2) = Some tot" "int (unat tot) \<le> len"
      "NetCksumOk rx ip 10 = Some True" "NetReadIP rx (ip + 16) = Some (net.NetOurIP st)"
      "rd_net16 rx (ip + 6) = Some 0" "rd rx (ip + 9) = Some 17"
      "rd_net16 rx (ip + 20) = Some sport" "rd_net16 rx (ip + 22) = Some dport" "rd_net16 rx (ip + 24) = Some ulen"
    and "ulen < 8"
    and client: "ucast dport = TftpOurPort t" "TftpState t = STATE_RRQ \<or> ucast sport = TftpServerPort t"
      "ntohs_at (drop (ip + IP_HDR_SIZE) rx) 0 = Some 3" "ntohs_at (drop (ip + IP_HDR_SIZE) rx) 2 = Some block"
  shows "\<exists>p d s n. receive_ip rx ip len st = Some (st, Some (Some p, d, s, n)) \<and>
    (TftpHandler ne (drop p rx) d s (unat n) t = None \<longleftrightarrow>
      (if TftpState t = STATE_RRQ \<or> TftpState t = STATE_OACK then block = 1 else block \<noteq> TftpLastBlock t))"
proof -
  obtain n where n: "receive_ip rx ip len st = Some (st, Some (Some (ip + IP_HDR_SIZE), ucast dport, ucast sport, n))"
      "2 ^ 32 - 8 \<le> unat n"
    using short_udp_length [OF assms(2) _ header assms(14)] assms(3) by (auto simp: PKTSIZE_ALIGN_def)
  let ?pkt = "drop (ip + IP_HDR_SIZE) rx" and ?t = "t\<lparr>TftpBlock := block\<rparr>"
  have "TftpHandler ne ?pkt (ucast dport) (ucast sport) (unat n) t
      = tftp_data ne (ucast sport) (drop 4 ?pkt) (unat n - 4) ?t"
    using client n(2) by (auto simp: TftpHandler_def Let_def)
  moreover have "\<not> unat n - 4 \<le> length (drop 4 ?pkt)"
    using n(2) assms(1) by (simp add: PKTSIZE_ALIGN_def)
  then have "tftp_data ne (ucast sport) (drop 4 ?pkt) (unat n - 4) ?t = None \<longleftrightarrow>
      (if TftpState t = STATE_RRQ \<or> TftpState t = STATE_OACK then block = 1 else block \<noteq> TftpLastBlock t)"
    by (simp add: tftp_data_def Let_def del: length_drop)
  ultimately show ?thesis
    using n(1) by auto
qed

definition example_frame :: "u8 list" where
  "example_frame = [0, 0, 0, 0, 0, 0, 0, 0, 0, 0, 0, 0, 0, 0, 69, 0, 0, 32, 0, 0, 0, 0, 64, 17, 111, 205, 10, 0, 0, 1, 1, 0, 0, 0, 4, 6, 7, 208, 0, 0, 0, 0, 0, 3, 0, 1] @ replicate 1490 0"

text \<open>The length 0 with a first block: the client of theory Tftp waits for it.\<close>

theorem short_udp_length_overruns_tftp_witness:
  "\<exists>p d s n. receive_ip example_frame 14 46 (host [0, 1, 2, 3, 4, 5] 1) =
      Some (host [0, 1, 2, 3, 4, 5] 1, Some (Some p, d, s, n)) \<and>
    TftpHandler \<lparr>nretry = None, wrap = False, dev = True\<rparr> (drop p example_frame) d s (unat n) example_client = None"
proof -
  let ?ne = "\<lparr>nretry = None, wrap = False, dev = True\<rparr>"
  have "\<exists>p d s n. receive_ip example_frame 14 46 (host [0, 1, 2, 3, 4, 5] 1) =
      Some (host [0, 1, 2, 3, 4, 5] 1, Some (Some p, d, s, n)) \<and>
    (TftpHandler ?ne (drop p example_frame) d s (unat n) example_client = None \<longleftrightarrow>
      (if TftpState example_client = STATE_RRQ \<or> TftpState example_client = STATE_OACK then (1 :: u32) = 1
       else 1 \<noteq> TftpLastBlock example_client))"
  proof (rule short_udp_length_overruns_tftp)
    show "NetCksumOk example_frame 14 10 = Some True"
      unfolding example_frame_def by (subst NetCksumOk_lemma) simp_all
    show "rd example_frame 14 = Some 0x45" "rd_net16 example_frame (14 + 2) = Some 32" "int (unat (32 :: u16)) \<le> 46"
      "NetReadIP example_frame (14 + 16) = Some (net.NetOurIP (host [0, 1, 2, 3, 4, 5] 1))"
      "rd_net16 example_frame (14 + 6) = Some 0" "rd example_frame (14 + 9) = Some 17"
      "rd_net16 example_frame (14 + 20) = Some 1030" "rd_net16 example_frame (14 + 22) = Some 2000"
      "rd_net16 example_frame (14 + 24) = Some 0"
      by (simp_all add: example_frame_def rd_net16_def NetReadIP_def rd_def nth_append host_def)
    show "ntohs_at (drop (14 + IP_HDR_SIZE) example_frame) 0 = Some 3" "ntohs_at (drop (14 + IP_HDR_SIZE) example_frame) 2 = Some 1"
      by (simp_all add: example_frame_def ntohs_at_def rd_def IP_HDR_SIZE_def nth_append)
  qed (simp_all add: example_frame_def PKTSIZE_ALIGN_def example_client_def)
  then show ?thesis by (simp add: example_client_def)
qed


end
